(* ===== verification/Prelude.thy ===== *)
theory Prelude
  imports Main "HOL-Library.Word" "HOL-Library.Monad_Syntax"
begin

text \<open>
  What every component of the model shares: bytes as \<^typ>\<open>8 word\<close>, the C memory an operation
  works on (one byte list per object, with bounds-checked reads and writes), the short-circuit
  conditions of C, and the \<^verbatim>\<open>ctype.h\<close> predicates of the C locale.

  A result \<^term>\<open>None\<close> always stands for undefined behaviour: an access outside the object a
  pointer points into, or a loop that never ends. So a theorem whose conclusion is
  \<open>f x = Some y\<close> says that the C code returns \<open>y\<close> and never leaves its buffers.
\<close>

unbundle bit_operations_syntax

section \<open>Bytes and buffers\<close>

type_synonym byte = "8 word"
type_synonym bytes = "8 word list"

named_theorems cmem \<open>laws of bounds-checked reads and writes\<close>

definition rd :: "bytes \<Rightarrow> nat \<Rightarrow> byte option" where
  "rd b i = (if i < length b then Some (b ! i) else None)"

definition wr :: "bytes \<Rightarrow> nat \<Rightarrow> byte \<Rightarrow> bytes option" where
  "wr b i v = (if i < length b then Some (b[i := v]) else None)"

text \<open>A fresh block of \<open>n\<close> bytes from \<^verbatim>\<open>apr_palloc\<close>; its contents are the arbitrary \<open>junk\<close>.\<close>

definition apr_palloc :: "(nat \<Rightarrow> byte) \<Rightarrow> nat \<Rightarrow> bytes" where
  "apr_palloc junk n = map junk [0..<n]"

text \<open>Writing the bytes \<open>xs\<close> at offset \<open>d\<close> of \<open>b\<close>, one after the other.\<close>

definition blit :: "bytes \<Rightarrow> nat \<Rightarrow> bytes \<Rightarrow> bytes" where
  "blit b d xs = take d b @ xs @ drop (d + length xs) b"

lemma length_apr_palloc [simp]: "length (apr_palloc junk n) = n"
  by (simp add: apr_palloc_def)

lemma rd_in [simp]: "i < length b \<Longrightarrow> rd b i = Some (b ! i)"
  by (simp add: rd_def)

lemma wr_in [simp]: "i < length b \<Longrightarrow> wr b i v = Some (b[i := v])"
  by (simp add: wr_def)

lemma rd_out [simp]: "length b \<le> i \<Longrightarrow> rd b i = None"
  by (simp add: rd_def)

lemma wr_out [simp]: "length b \<le> i \<Longrightarrow> wr b i v = None"
  by (simp add: wr_def)

lemma blit_Nil [simp]: "blit b d [] = b"
  by (simp add: blit_def)

lemma length_blit [simp]: "d + length xs \<le> length b \<Longrightarrow> length (blit b d xs) = length b"
  by (simp add: blit_def)

lemma blit_single [cmem]: "d < length b \<Longrightarrow> b[d := v] = blit b d [v]"
  by (simp add: blit_def upd_conv_take_nth_drop)

lemma blit_blit [cmem]:
  "d + length xs \<le> length b \<Longrightarrow> blit (blit b d xs) (d + length xs) ys = blit b d (xs @ ys)"
  by (simp add: blit_def ac_simps)

lemma blit_update_Cons [cmem]: "d < length b \<Longrightarrow> blit (b[d := v]) (Suc d) xs = blit b d (v # xs)"
  using blit_blit [of d "[v]" b xs] by (simp add: blit_single)

lemma nth_blit_before [simp]: "i < d \<Longrightarrow> d \<le> length b \<Longrightarrow> blit b d xs ! i = b ! i"
  by (simp add: blit_def nth_append)

lemma nth_blit_after [simp]:
  "d + length xs \<le> i \<Longrightarrow> i < length b \<Longrightarrow> blit b d xs ! i = b ! i"
  by (auto simp: blit_def nth_append add.commute)

lemma drop_blit [simp]:
  "d + length xs \<le> i \<Longrightarrow> d + length xs \<le> length b \<Longrightarrow> drop i (blit b d xs) = drop i b"
  by (simp add: blit_def add.commute)

lemma take_blit [simp]:
  "d + length xs \<le> length b \<Longrightarrow> take (d + length xs) (blit b d xs) = take d b @ xs"
  by (simp add: blit_def)

lemma take_blit_0 [simp]: "length xs \<le> length b \<Longrightarrow> take (length xs) (blit b 0 xs) = xs"
  using take_blit [of 0 xs b] by simp

text \<open>Reading the front of what is left of a buffer.\<close>

lemma drop_ConsD:
  assumes "drop i b = x # xs"
  shows "i < length b" "b ! i = x" "rd b i = Some x" "drop (Suc i) b = xs"
proof -
  show i: "i < length b" using assms by (metis drop_all linorder_not_less list.distinct(1))
  then have "drop i b = b ! i # drop (Suc i) b" by (simp add: Cons_nth_drop_Suc)
  with assms show "b ! i = x" "drop (Suc i) b = xs" by simp_all
  with i show "rd b i = Some x" by simp
qed

lemma drop_NilD: "drop i b = [] \<Longrightarrow> rd b i = None"
  by (simp add: rd_def)

text \<open>Terminating the string just written.\<close>

lemma wr_terminate:
  "length out < length b \<Longrightarrow> wr (blit b 0 out) (length out) 0 = Some (out @ 0 # drop (Suc (length out)) b)"
  using blit_blit [of 0 out b "[0]"] by (simp add: blit_single) (simp add: blit_def)

section \<open>Conditions with short-circuit evaluation\<close>

text \<open>\<open>and_m [c1, c2, \<dots>]\<close> is \<^verbatim>\<open>c1 && c2 && ...\<close>: a condition is only evaluated, and the
  memory it reads only accessed, when all conditions before it hold.\<close>

fun and_m :: "bool option list \<Rightarrow> bool option" where
  "and_m [] = Some True"
| "and_m (c # cs) = Option.bind c (\<lambda>p. if p then and_m cs else Some False)"

definition rdp :: "bytes \<Rightarrow> nat \<Rightarrow> (byte \<Rightarrow> bool) \<Rightarrow> bool option" where
  "rdp b i P = map_option P (rd b i)"

lemma rdp_in [simp]: "i < length b \<Longrightarrow> rdp b i P = Some (P (b ! i))"
  by (simp add: rdp_def)

lemma rdp_out [simp]: "length b \<le> i \<Longrightarrow> rdp b i P = None"
  by (simp add: rdp_def)

lemma and_m_Some: "and_m (Some p # cs) = (if p then and_m cs else Some False)"
  by simp

section \<open>Character classes of the C locale\<close>

definition c_isdigit :: "byte \<Rightarrow> bool" where
  "c_isdigit c \<longleftrightarrow> 48 \<le> c \<and> c \<le> 57"

definition c_isupper :: "byte \<Rightarrow> bool" where
  "c_isupper c \<longleftrightarrow> 65 \<le> c \<and> c \<le> 90"

definition c_islower :: "byte \<Rightarrow> bool" where
  "c_islower c \<longleftrightarrow> 97 \<le> c \<and> c \<le> 122"

definition c_isalnum :: "byte \<Rightarrow> bool" where
  "c_isalnum c \<longleftrightarrow> c_isdigit c \<or> c_isupper c \<or> c_islower c"

definition c_isspace :: "byte \<Rightarrow> bool" where
  "c_isspace c \<longleftrightarrow> c = 32 \<or> (9 \<le> c \<and> c \<le> 13)"

definition c_isxdigit :: "byte \<Rightarrow> bool" where
  "c_isxdigit c \<longleftrightarrow> c_isdigit c \<or> (97 \<le> c \<and> c \<le> 102) \<or> (65 \<le> c \<and> c \<le> 70)"

definition c_tolower :: "byte \<Rightarrow> byte" where
  "c_tolower c = (if c_isupper c then c + 32 else c)"

text \<open>The C string that starts at offset \<open>i\<close>: the bytes up to the first NUL, and
  \<^term>\<open>None\<close> when the object holds no NUL from there on.\<close>

fun c_str :: "bytes \<Rightarrow> bytes option" where
  "c_str [] = None"
| "c_str (c # cs) = (if c = 0 then Some [] else map_option ((#) c) (c_str cs))"

lemma c_str_append_0 [simp]: "0 \<notin> set xs \<Longrightarrow> c_str (xs @ 0 # ys) = Some xs"
  by (induction xs) auto

lemma c_str_SomeD: "c_str b = Some xs \<Longrightarrow> 0 \<notin> set xs \<and> (\<exists>ys. b = xs @ 0 # ys)"
  by (induction b arbitrary: xs) (auto split: if_splits)

section \<open>Byte facts proved by checking all 256 values\<close>

text \<open>A statement about one byte is decided by evaluating it at every byte.\<close>

lemma all_bytes: "(\<forall>k<256. P (word_of_nat k)) \<Longrightarrow> P (c :: byte)"
proof -
  assume "\<forall>k<256. P (word_of_nat k)"
  moreover have "unat c < 256" using unsigned_less [of c, where 'a=nat] by simp
  ultimately have "P (word_of_nat (unat c))" by blast
  then show ?thesis by simp
qed

lemma c_tolower_idem [simp]: "c_tolower (c_tolower c) = c_tolower c"
proof -
  have "\<not> c_isupper (c_tolower c)"
    by (auto simp: c_tolower_def c_isupper_def word_le_nat_alt unat_word_ariths)
  then show ?thesis by (simp add: c_tolower_def [of "c_tolower c"])
qed

end
