(* ===== verification/InPlace.thy ===== *)
theory InPlace
  imports Prelude
begin

text \<open>
  The loop shape that most decoders and filters of \<^verbatim>\<open>apache2/msc_util.c\<close> and
  \<^verbatim>\<open>apache2/re_tfns.c\<close> have: a read index \<open>i\<close> and a write index \<open>d\<close> run over the
  \<^emph>\<open>same\<close> buffer, \<open>count\<close> counts the bytes written. \<open>inplace_loop\<close> is that loop with its
  body as an argument; \<open>transduce\<close> is the functional reading of such a loop, a function on the
  unread input alone. The locale \<open>inplace_decoder\<close> is the contract a body has to meet
  for the two to agree: no byte is overwritten before it has been read.
\<close>

section \<open>The loop over one shared buffer\<close>

type_synonym 's lstate = "'s \<times> bytes \<times> nat \<times> nat \<times> nat"

text \<open>The state is \<open>(s, buffer, i, d, count)\<close>, where \<open>s\<close> holds the other locals of the function.\<close>

partial_function (option) inplace_loop ::
  "('s lstate \<Rightarrow> bool) \<Rightarrow> ('s lstate \<Rightarrow> 's lstate option) \<Rightarrow> 's lstate \<Rightarrow> 's lstate option"
where
  "inplace_loop guard body st =
     (if guard st then Option.bind (body st) (inplace_loop guard body) else Some st)"

text \<open>The usual loop condition \<^verbatim>\<open>i < input_len\<close>.\<close>

fun below :: "nat \<Rightarrow> 's lstate \<Rightarrow> bool" where
  "below n (s, b, i, d, count) = (i < n)"

section \<open>The functional reading\<close>

text \<open>A step of a transducer looks at the whole unread input and says what the new local state
  is, how many bytes it consumes and what it writes.\<close>

type_synonym 's tstep = "'s \<Rightarrow> bytes \<Rightarrow> 's \<times> nat \<times> bytes"

function transduce :: "'s tstep \<Rightarrow> 's \<Rightarrow> bytes \<Rightarrow> 's \<times> bytes" where
  "transduce step s xs =
     (if xs = [] then (s, [])
      else case step s xs of (s', k, out) \<Rightarrow>
        (case transduce step s' (drop (Suc (k - 1)) xs) of (s'', out') \<Rightarrow> (s'', out @ out')))"
  by pat_completeness auto
termination
  by (relation "measure (\<lambda>(step, s, xs). length xs)") auto

declare transduce.simps [simp del]

lemma transduce_Nil [simp]: "transduce step s [] = (s, [])"
  by (simp add: transduce.simps)

lemma transduce_step:
  "xs \<noteq> [] \<Longrightarrow> step s xs = (s', k, out) \<Longrightarrow> 0 < k \<Longrightarrow>
   transduce step s xs =
     (fst (transduce step s' (drop k xs)), out @ snd (transduce step s' (drop k xs)))"
  by (simp add: transduce.simps [of step s xs] split: prod.splits)

text \<open>A transducer that copies every byte but \<open>esc\<close> leaves a string without \<open>esc\<close> alone.\<close>

lemma transduce_id:
  "(\<And>x xs. x \<noteq> esc \<Longrightarrow> step s (x # xs) = (s, 1, [x])) \<Longrightarrow> esc \<notin> set xs \<Longrightarrow>
   transduce step s xs = (s, xs)"
proof (induction xs)
  case Nil
  show ?case by simp
next
  case (Cons x xs)
  have "step s (x # xs) = (s, 1, [x])" by (rule Cons.prems(1)) (use Cons.prems(2) in auto)
  moreover have "transduce step s xs = (s, xs)" by (rule Cons.IH) (use Cons.prems in auto)
  ultimately show ?case using transduce_step [of "x # xs" step s s 1 "[x]"] by simp
qed

section \<open>The contract of a body\<close>

locale inplace_decoder =
  fixes guard :: "nat \<Rightarrow> 's lstate \<Rightarrow> bool"
    and body :: "nat \<Rightarrow> 's lstate \<Rightarrow> 's lstate option"
    and step :: "'s tstep"
  assumes guard_below: "count \<le> i \<Longrightarrow> guard n (s, b, i, d, count) \<longleftrightarrow> i < n"
    and step_bounds:
      "xs \<noteq> [] \<Longrightarrow> step s xs = (s', k, out) \<Longrightarrow>
       0 < k \<and> length out \<le> k \<and> length out \<le> length xs"
    and body_step:
      "i < n \<Longrightarrow> n < length b \<Longrightarrow> b ! n = 0 \<Longrightarrow> d \<le> i \<Longrightarrow> count \<le> i \<Longrightarrow>
       step s (drop i (take n b)) = (s', k, out) \<Longrightarrow>
       body n (s, b, i, d, count) = Some (s', blit b d out, i + k, d + length out, count + length out)"
begin

text \<open>From any point of the loop with \<open>count\<close> and \<open>d\<close> not past \<open>i\<close>: it ends, it stays
  inside the buffer, and it writes what the transducer says.\<close>

lemma loop_from:
  assumes "n < length b" "b ! n = 0" "d \<le> i" "count \<le> i" "d \<le> n"
  shows "\<exists>i'. inplace_loop (guard n) (body n) (s, b, i, d, count) =
           (case transduce step s (drop i (take n b)) of (s', out) \<Rightarrow>
              Some (s', blit b d out, i', d + length out, count + length out)) \<and>
           n \<le> i' \<and> d + length (snd (transduce step s (drop i (take n b)))) \<le> n"
  using assms
proof (induction "n - i" arbitrary: s b i d count rule: less_induct)
  case less
  show ?case
  proof (cases "i < n")
    case False
    then show ?thesis
      using less.prems guard_below [of count i n s b d]
      by (simp add: inplace_loop.simps [of _ _ "(s, b, i, d, count)"])
  next
    case True
    let ?xs = "drop i (take n b)"
    obtain s' k out where st: "step s ?xs = (s', k, out)" by (cases "step s ?xs")
    have ne: "?xs \<noteq> []" using True less.prems by simp
    have k: "0 < k" "length out \<le> k" "length out \<le> n - i"
      using step_bounds [OF ne st] less.prems by auto
    have body: "body n (s, b, i, d, count) =
        Some (s', blit b d out, i + k, d + length out, count + length out)"
      using body_step [OF True less.prems(1,2,3,4) st] .
    let ?b = "blit b d out"
    have fits: "d + length out \<le> n" using k less.prems by simp
    have len: "length ?b = length b" using fits less.prems by simp
    have loop: "inplace_loop (guard n) (body n) (s, b, i, d, count) =
        inplace_loop (guard n) (body n) (s', ?b, i + k, d + length out, count + length out)"
      using True less.prems guard_below [of count i n s b d]
      by (simp add: inplace_loop.simps [of _ _ "(s, b, i, d, count)"] body)
    have rest: "drop (i + k) (take n ?b) = drop k ?xs"
    proof (rule nth_equalityI)
      show "length (drop (i + k) (take n ?b)) = length (drop k ?xs)"
        using len by simp
    next
      fix j assume "j < length (drop (i + k) (take n ?b))"
      then show "drop (i + k) (take n ?b) ! j = drop k ?xs ! j"
        using k fits less.prems len by (simp add: ac_simps)
    qed
    have bn: "?b ! n = 0" using fits less.prems by simp
    have ih: "\<exists>i'. inplace_loop (guard n) (body n)
           (s', ?b, i + k, d + length out, count + length out) =
         (case transduce step s' (drop (i + k) (take n ?b)) of (s'', o') \<Rightarrow>
            Some (s'', blit ?b (d + length out) o', i',
                  d + length out + length o', count + length out + length o')) \<and>
         n \<le> i' \<and> d + length out + length (snd (transduce step s' (drop (i + k) (take n ?b)))) \<le> n"
      by (rule less.hyps) (use True k fits less.prems len bn in simp_all)
    show ?thesis
      using ih fits less.prems(1)
      by (simp add: loop rest transduce_step [of ?xs step s s' k out, OF ne st k(1)] case_prod_beta cmem add.assoc)
  qed
qed

text \<open>The whole loop, from the start of the buffer.\<close>

lemma loop_run:
  assumes "n < length b" "b ! n = 0"
  obtains i' where
    "inplace_loop (guard n) (body n) (s, b, 0, 0, 0) =
       (case transduce step s (take n b) of (s', out) \<Rightarrow>
          Some (s', blit b 0 out, i', length out, length out))"
    "n \<le> i'" "length (snd (transduce step s (take n b))) \<le> n"
  using loop_from [of n b 0 0 0 s] assms by auto

lemma length_transduce: "length (snd (transduce step s xs)) \<le> length xs"
proof -
  have "length (snd (transduce step s (take (length xs) (xs @ [0])))) \<le> length xs"
    using loop_run [of "length xs" "xs @ [0]" s] by auto
  then show ?thesis by simp
qed

end

end
