(* ===== verification/Encoder.thy ===== *)
theory Encoder
  imports Prelude
begin

text \<open>
  The other loop shape of \<^verbatim>\<open>apache2/msc_util.c\<close>: a \<^verbatim>\<open>for\<close> loop over the input that
  appends to a freshly allocated buffer. \<open>for_m\<close> is the \<^verbatim>\<open>for (i = lo; i < hi; i++)\<close> loop, and
  the locale \<open>byte_encoder\<close> is the contract of a body that appends \<open>emit s c\<close> for the input
  byte \<open>c\<close>.
\<close>

function for_m :: "nat \<Rightarrow> nat \<Rightarrow> (nat \<Rightarrow> 'a \<Rightarrow> 'a option) \<Rightarrow> 'a \<Rightarrow> 'a option" where
  "for_m i hi body st =
     (if i < hi then Option.bind (body i st) (for_m (Suc i) hi body) else Some st)"
  by pat_completeness auto
termination
  by (relation "measure (\<lambda>(i, hi, body, st). hi - i)") auto

declare for_m.simps [simp del]

lemma for_m_done [simp]: "hi \<le> i \<Longrightarrow> for_m i hi body st = Some st"
  by (subst for_m.simps) simp

lemma for_m_step: "i < hi \<Longrightarrow> body i st = Some st' \<Longrightarrow> for_m i hi body st = for_m (Suc i) hi body st'"
  by (subst for_m.simps) simp

text \<open>The state of an encoder loop: its locals, the destination, and the write index.\<close>

type_synonym 's estate = "'s \<times> bytes \<times> nat"

fun encode :: "('s \<Rightarrow> byte \<Rightarrow> 's \<times> bytes) \<Rightarrow> 's \<Rightarrow> bytes \<Rightarrow> 's \<times> bytes" where
  "encode emit s [] = (s, [])"
| "encode emit s (c # cs) =
     (case emit s c of (s', out) \<Rightarrow>
       (case encode emit s' cs of (s'', out') \<Rightarrow> (s'', out @ out')))"

lemma encode_Cons [simp]:
  "encode emit s (c # cs) =
     (fst (encode emit (fst (emit s c)) cs), snd (emit s c) @ snd (encode emit (fst (emit s c)) cs))"
  by (simp add: case_prod_beta)

declare encode.simps(2) [simp del]

text \<open>An encoder without local state writes the concatenation.\<close>

lemma encode_stateless:
  "(\<And>s c. snd (emit s c) = f c) \<Longrightarrow> snd (encode emit s cs) = concat (map f cs)"
proof (induction cs arbitrary: s)
  case Nil
  then show ?case by simp
next
  case (Cons c cs)
  then show ?case using Cons.IH [OF Cons.prems] Cons.prems by simp
qed

lemma encode_length:
  "(\<And>s c. length (snd (emit s c)) \<le> m) \<Longrightarrow> length (snd (encode emit s cs)) \<le> m * length cs"
proof (induction cs arbitrary: s)
  case Nil
  then show ?case by simp
next
  case (Cons c cs)
  then show ?case
    using add_mono [OF Cons.prems [of s c] Cons.IH [OF Cons.prems, of "fst (emit s c)"]] by simp
qed

locale byte_encoder =
  fixes body :: "bytes \<Rightarrow> nat \<Rightarrow> 's estate \<Rightarrow> 's estate option"
    and emit :: "'s \<Rightarrow> byte \<Rightarrow> 's \<times> bytes"
  assumes body_emit:
    "i < length src \<Longrightarrow> emit s (src ! i) = (s', out) \<Longrightarrow> d + length out < length dst \<Longrightarrow>
     body src i (s, dst, d) = Some (s', blit dst d out, d + length out)"
begin

lemma loop_from:
  assumes "hi \<le> length src" "i \<le> hi"
    "d + length (snd (encode emit s (drop i (take hi src)))) < length dst"
  shows "for_m i hi (body src) (s, dst, d) =
     (case encode emit s (drop i (take hi src)) of (s', out) \<Rightarrow>
        Some (s', blit dst d out, d + length out))"
  using assms
proof (induction "hi - i" arbitrary: s dst i d)
  case 0
  then show ?case by simp
next
  case (Suc m)
  obtain s' out where e: "emit s (src ! i) = (s', out)" by (cases "emit s (src ! i)")
  have i: "i < hi" using Suc by simp
  then have xs: "drop i (take hi src) = src ! i # drop (Suc i) (take hi src)"
    using Suc.prems by (simp add: Cons_nth_drop_Suc [symmetric])
  obtain s2 out2 where e2: "encode emit s' (drop (Suc i) (take hi src)) = (s2, out2)"
    by (cases "encode emit s' (drop (Suc i) (take hi src))")
  have fits: "d + length out + length out2 < length dst"
    using Suc.prems(3) by (simp add: xs e e2)
  have b: "body src i (s, dst, d) = Some (s', blit dst d out, d + length out)"
    using body_emit [OF _ e] i Suc.prems fits by simp
  have "for_m (Suc i) hi (body src) (s', blit dst d out, d + length out) =
     Some (s2, blit (blit dst d out) (d + length out) out2, d + length out + length out2)"
    using Suc.hyps(1) [of "Suc i" "d + length out" s' "blit dst d out"] Suc.hyps(2) i Suc.prems fits e2
    by simp
  then show ?case
    using fits by (simp add: for_m_step [of i hi "body src", OF i b] xs e e2 cmem add.assoc)
qed

text \<open>The whole input, into a block that leaves room for the terminating NUL.\<close>

lemma loop_run:
  assumes "n \<le> length src" "length (snd (encode emit s (take n src))) < length dst"
  shows "for_m 0 n (body src) (s, dst, 0) =
     (case encode emit s (take n src) of (s', out) \<Rightarrow> Some (s', blit dst 0 out, length out))"
  using loop_from [of n src 0 0 s dst] assms by simp

end

end
