(* ===== verification/HexCodec.thy ===== *)
theory HexCodec
  imports InPlace Encoder
begin

text \<open>
  The hexadecimal helpers of \<^verbatim>\<open>apache2/msc_util.c\<close>: the digit tests, \<open>x2c\<close>,
  \<open>xsingle2c\<close>, \<open>c2x\<close>, \<open>convert_to_int\<close>, and the whole-buffer conversions \<open>bytes2hex\<close>
  and \<open>hex2bytes_inplace\<close>.
\<close>

section \<open>Digits\<close>

definition VALID_HEX :: "byte \<Rightarrow> bool" where
  "VALID_HEX x \<longleftrightarrow>
     (48 \<le> x \<and> x \<le> 57) \<or> (97 \<le> x \<and> x \<le> 102) \<or> (65 \<le> x \<and> x \<le> 70)"

definition ISODIGIT :: "byte \<Rightarrow> bool" where
  "ISODIGIT x \<longleftrightarrow> 48 \<le> x \<and> x \<le> 55"

text \<open>One hexadecimal digit, in \<^verbatim>\<open>unsigned char\<close> arithmetic (which wraps).\<close>

definition xsingle2c_val :: "byte \<Rightarrow> byte" where
  "xsingle2c_val c = (if 65 \<le> c then ((c AND 0xdf) - 65) + 10 else c - 48)"

definition x2c_val :: "byte \<Rightarrow> byte \<Rightarrow> byte" where
  "x2c_val c0 c1 = xsingle2c_val c0 * 16 + xsingle2c_val c1"

definition xsingle2c :: "bytes \<Rightarrow> nat \<Rightarrow> byte option" where
  "xsingle2c b i = do { c0 \<leftarrow> rd b i; Some (xsingle2c_val c0) }"

definition x2c :: "bytes \<Rightarrow> nat \<Rightarrow> byte option" where
  "x2c b i = do { c0 \<leftarrow> rd b i; c1 \<leftarrow> rd b (i + 1); Some (x2c_val c0 c1) }"

definition c2x_table :: bytes where
  "c2x_table = [48, 49, 50, 51, 52, 53, 54, 55, 56, 57, 97, 98, 99, 100, 101, 102]"

definition c2x_hi :: "byte \<Rightarrow> byte" where
  "c2x_hi c = c2x_table ! unat (drop_bit 4 c)"

definition c2x_lo :: "byte \<Rightarrow> byte" where
  "c2x_lo c = c2x_table ! unat (c AND 0x0f)"

text \<open>\<open>c2x what where\<close> overwrites two bytes of the destination.\<close>

definition c2x :: "byte \<Rightarrow> bytes \<Rightarrow> nat \<Rightarrow> bytes option" where
  "c2x c b d = do { b \<leftarrow> wr b d (c2x_hi c); wr b (d + 1) (c2x_lo c) }"

definition convert_to_int :: "byte \<Rightarrow> int" where
  "convert_to_int c =
     (if 48 \<le> c \<and> c \<le> 57 then uint (c - 48)
      else if 65 \<le> c \<and> c \<le> 70 then uint (c - 65) + 10
      else if 97 \<le> c \<and> c \<le> 102 then uint (c - 97) + 10
      else 0)"

lemma x2c_in [simp]: "i + 1 < length b \<Longrightarrow> x2c b i = Some (x2c_val (b ! i) (b ! (i + 1)))"
  by (simp add: x2c_def)

lemma c2x_blit [simp]: "d + 1 < length b \<Longrightarrow> c2x c b d = Some (blit b d [c2x_hi c, c2x_lo c])"
  using blit_blit [of d "[c2x_hi c]" b "[c2x_lo c]"]
  by (simp add: c2x_def blit_single)

text \<open>A nibble indexes the table inside its sixteen entries, and reads back as itself.\<close>

lemma nibble_hi: "unat (drop_bit 4 (c :: byte)) < 16"
proof -
  have "unat c < 256" using unsigned_less [of c, where 'a=nat] by simp
  then have "drop_bit 4 (unat c) < 16" by (simp add: drop_bit_eq_div)
  then show ?thesis by (simp only: unat_drop_bit_eq)
qed

lemma nibble_lo: "unat ((c :: byte) AND 15) < 16"
proof -
  have "c AND 15 \<le> 15" by (rule word_and_le1)
  then show ?thesis by (simp add: word_le_nat_alt)
qed

lemma c2x_table_nibble:
  assumes "h < 16"
  shows "VALID_HEX (c2x_table ! h) \<and> xsingle2c_val (c2x_table ! h) = of_nat h"
proof -
  have "list_all (\<lambda>h. VALID_HEX (c2x_table ! h) \<and> xsingle2c_val (c2x_table ! h) = of_nat h) [0..<16]"
    by (simp add: upt_conv_Cons c2x_table_def VALID_HEX_def xsingle2c_val_def)
  with assms show ?thesis by (simp add: list_all_iff del: upt_rec_numeral)
qed

lemma c2x_digits_valid: "VALID_HEX (c2x_hi c)" "VALID_HEX (c2x_lo c)"
  using c2x_table_nibble nibble_hi nibble_lo by (simp_all add: c2x_hi_def c2x_lo_def)

lemma x2c_c2x [simp]: "x2c_val (c2x_hi c) (c2x_lo c) = c"
proof -
  have "x2c_val (c2x_hi c) (c2x_lo c) = drop_bit 4 c * 16 + (c AND 15)"
    using c2x_table_nibble [OF nibble_hi [of c]] c2x_table_nibble [OF nibble_lo [of c]]
    by (simp add: x2c_val_def c2x_hi_def c2x_lo_def)
  also have "\<dots> = push_bit 4 (drop_bit 4 c) + take_bit 4 c"
    by (simp add: push_bit_eq_mult take_bit_eq_mask mask_eq_exp_minus_1 mult.commute)
  finally show ?thesis by (simp add: bits_ident)
qed

section \<open>\<open>bytes2hex\<close> and \<open>hex2bytes_inplace\<close>\<close>

text \<open>\<open>bytes2hex\<close> fills a fresh block of \<^verbatim>\<open>(len * 2) + 1\<close> bytes from \<open>data\<close>.\<close>

definition b2hex :: bytes where
  "b2hex = [48, 49, 50, 51, 52, 53, 54, 55, 56, 57, 97, 98, 99, 100, 101, 102]"

fun bytes2hex_body :: "bytes \<Rightarrow> nat \<Rightarrow> unit estate \<Rightarrow> unit estate option" where
  "bytes2hex_body data i (u, hex, j) = do {
     v \<leftarrow> rd data i;
     hex \<leftarrow> wr hex j (b2hex ! unat (drop_bit 4 v));
     hex \<leftarrow> wr hex (j + 1) (b2hex ! unat (v AND 0x0f));
     Some (u, hex, j + 2) }"

definition bytes2hex :: "(nat \<Rightarrow> byte) \<Rightarrow> bytes \<Rightarrow> nat \<Rightarrow> bytes option" where
  "bytes2hex junk data len = do {
     let hex = apr_palloc junk (len * 2 + 1);
     (u, hex, j) \<leftarrow> for_m 0 len (bytes2hex_body data) ((), hex, 0);
     wr hex j 0 }"

text \<open>\<open>hex2bytes_inplace\<close>: a NULL pointer or an empty buffer is left alone, an odd last digit
  is ignored. The result is the count and the buffer.\<close>

function hex2bytes_loop :: "bytes \<Rightarrow> nat \<Rightarrow> nat \<Rightarrow> nat \<Rightarrow> nat \<Rightarrow> (bytes \<times> nat \<times> nat) option" where
  "hex2bytes_loop data len i d count =
     (if int i \<le> int len - 2 then do {
        v \<leftarrow> x2c data i;
        data \<leftarrow> wr data d v;
        hex2bytes_loop data len (i + 2) (d + 1) (count + 1) }
      else Some (data, d, count))"
  by pat_completeness auto
termination
  by (relation "measure (\<lambda>(data, len, i, d, count). len - i)") auto

definition hex2bytes_inplace :: "bytes option \<Rightarrow> nat \<Rightarrow> (nat \<times> bytes option) option" where
  "hex2bytes_inplace data len =
     (case data of
        None \<Rightarrow> Some (0, None)
      | Some b \<Rightarrow>
          if len = 0 then Some (0, Some b)
          else do {
            (b, d, count) \<leftarrow> hex2bytes_loop b len 0 0 0;
            b \<leftarrow> wr b d 0;
            Some (count, Some b) })"

declare hex2bytes_loop.simps [simp del]

subsection \<open>What they compute\<close>

definition hex_of :: "bytes \<Rightarrow> bytes" where
  "hex_of xs = concat (map (\<lambda>c. [c2x_hi c, c2x_lo c]) xs)"

fun unhex :: "bytes \<Rightarrow> bytes" where
  "unhex (a # b # xs) = x2c_val a b # unhex xs"
| "unhex xs = []"

lemma hex_of_simps [simp]:
  "hex_of [] = []" "hex_of (c # cs) = c2x_hi c # c2x_lo c # hex_of cs"
  by (simp_all add: hex_of_def)

lemma length_hex_of [simp]: "length (hex_of xs) = 2 * length xs"
  by (induction xs) auto

lemma length_unhex [simp]: "length (unhex xs) = length xs div 2"
  by (induction xs rule: unhex.induct) auto

lemma unhex_hex_of [simp]: "unhex (hex_of xs) = xs"
  by (induction xs) auto

definition hex_emit :: "unit \<Rightarrow> byte \<Rightarrow> unit \<times> bytes" where
  "hex_emit u c = (u, [c2x_hi c, c2x_lo c])"

interpretation hx: byte_encoder bytes2hex_body hex_emit
proof
  fix i :: nat and src dst out :: bytes and s s' :: unit and d :: nat
  assume "i < length src" "hex_emit s (src ! i) = (s', out)" "d + length out < length dst"
  then show "bytes2hex_body src i (s, dst, d) = Some (s', blit dst d out, d + length out)"
    using blit_blit [of d "[c2x_hi (src ! i)]" dst "[c2x_lo (src ! i)]"]
    by (auto simp: hex_emit_def blit_single c2x_hi_def c2x_lo_def b2hex_def c2x_table_def)
qed

lemma hex_emit_encode: "encode hex_emit u xs = (u, hex_of xs)"
  by (induction xs) (simp_all add: hex_emit_def)

text \<open>\<open>bytes2hex\<close> stays inside its block and returns the lowercase digits, NUL-terminated.\<close>

lemma bytes2hex_run:
  assumes "len \<le> length data"
  shows "bytes2hex junk data len = Some (hex_of (take len data) @ [0])"
  using assms hx.loop_run [of len data "()" "apr_palloc junk (len * 2 + 1)"]
  by (simp add: bytes2hex_def hex_emit_encode blit_single blit_def)

lemma hex2bytes_loop_run:
  assumes "len < length b" "i = 2 * d" "i \<le> len" "count = d"
  shows "hex2bytes_loop b len i d count =
     (let out = unhex (drop i (take len b)) in
      Some (blit b d out, d + length out, count + length out))"
  using assms
proof (induction b len i d count rule: hex2bytes_loop.induct)
  case (1 b len i d count)
  show ?case
  proof (cases "int i \<le> int len - 2")
    case False
    then have "len - i < 2" by simp
    then have "unhex (drop i (take len b)) = []"
      by (cases "drop i (take len b)" rule: unhex.cases) (auto dest!: arg_cong [of _ _ length])
    with False show ?thesis by (simp add: hex2bytes_loop.simps)
  next
    case True
    let ?v = "x2c_val (b ! i) (b ! (i + 1))"
    have xs: "drop i (take len b) = b ! i # b ! (i + 1) # drop (i + 2) (take len b)"
      using True "1.prems" by (simp add: Cons_nth_drop_Suc [symmetric])
    have keep: "drop (i + 2) (take len (b[d := ?v])) = drop (i + 2) (take len b)"
      using "1.prems" by (simp add: drop_take drop_update_cancel)
    have "hex2bytes_loop (b[d := ?v]) len (i + 2) (d + 1) (count + 1) =
       (let out = unhex (drop (i + 2) (take len b)) in
        Some (blit (b[d := ?v]) (d + 1) out, d + 1 + length out, count + 1 + length out))"
      using "1.IH" [OF True, of ?v "b[d := ?v]"] True "1.prems" keep by simp
    moreover have "hex2bytes_loop b len i d count = hex2bytes_loop (b[d := ?v]) len (i + 2) (d + 1) (count + 1)"
      using True "1.prems" by (subst hex2bytes_loop.simps) simp
    moreover have "(len - i) div 2 = Suc ((len - (i + 2)) div 2)"
      using True by arith
    ultimately show ?thesis
      using "1.prems"(1,2) True xs by (simp add: Let_def blit_update_Cons)
  qed
qed

lemma hex2bytes_run:
  assumes "len < length b" "0 < len"
  shows "hex2bytes_inplace (Some b) len =
     (let out = unhex (take len b) in
      Some (length out, Some (out @ 0 # drop (Suc (length out)) b)))"
  using assms hex2bytes_loop_run [of len b 0 0 0]
  by (simp add: hex2bytes_inplace_def Let_def blit_single blit_def)

section \<open>Properties\<close>

text \<open>
  \<open>bytes2hex\<close> returns the two lowercase digits of every byte, NUL-terminated, and
  \<open>hex2bytes_inplace\<close> on that string returns the original bytes. Neither leaves its buffers.
\<close>

theorem hex_round_trip:
  "bytes2hex junk (xs @ rest) (length xs) = Some (hex_of xs @ [0]) \<and>
   hex2bytes_inplace (Some (hex_of xs @ [0])) (length (hex_of xs)) =
     Some (length xs, Some (xs @ 0 # drop (Suc (length xs)) (hex_of xs @ [0])))"
proof -
  have "hex2bytes_inplace (Some (hex_of xs @ [0])) (length (hex_of xs)) =
     Some (length xs, Some (xs @ 0 # drop (Suc (length xs)) (hex_of xs @ [0])))"
    using hex2bytes_run [of "length (hex_of xs)" "hex_of xs @ [0]"]
    by (cases xs) (simp_all add: hex2bytes_inplace_def Let_def)
  then show ?thesis by (simp add: bytes2hex_run)
qed

text \<open>
  \<open>hex2bytes_inplace\<close> on any bytes followed by a NUL is safe and replaces every pair of
  bytes by its value, dropping an odd last one.
\<close>

theorem hex2bytes_correct:
  "hex2bytes_inplace (Some (xs @ 0 # rest)) (length xs) =
     (if xs = [] then Some (0, Some (0 # rest))
      else Some (length xs div 2,
             Some (unhex xs @ 0 # drop (Suc (length xs div 2)) (xs @ 0 # rest))))"
  using hex2bytes_run [of "length xs" "xs @ 0 # rest"]
  by (simp add: hex2bytes_inplace_def Let_def)

end
