(* ===== verification/UrlCodec.thy ===== *)
theory UrlCodec
  imports HexCodec
begin

text \<open>
  URL coding in \<^verbatim>\<open>apache2/msc_util.c\<close>: \<open>url_encode\<close>, \<open>urldecode_nonstrict_inplace_ex\<close>,
  and \<open>urldecode_uni_nonstrict_inplace_ex\<close>, which adds the IIS
  \<^verbatim>\<open>%uHHHH\<close> form with the optional Unicode map. The decoders are refined to
  functions on byte lists, and decoding an encoded string gives it back.
\<close>

section \<open>Encoding\<close>

definition url_unreserved :: "byte \<Rightarrow> bool" where
  "url_unreserved c \<longleftrightarrow>
     c = 42 \<or> (48 \<le> c \<and> c \<le> 57) \<or> (65 \<le> c \<and> c \<le> 90) \<or> (97 \<le> c \<and> c \<le> 122)"

fun url_encode_body :: "bytes \<Rightarrow> nat \<Rightarrow> bool estate \<Rightarrow> bool estate option" where
  "url_encode_body input i (changed, rval, d) = do {
     c \<leftarrow> rd input i;
     if c = 32 then do { rval \<leftarrow> wr rval d 43; Some (True, rval, d + 1) }
     else if url_unreserved c then do { rval \<leftarrow> wr rval d c; Some (changed, rval, d + 1) }
     else do {
       rval \<leftarrow> wr rval d 37;
       rval \<leftarrow> c2x c rval (d + 1);
       Some (True, rval, d + 3) } }"

text \<open>The length is an \<^verbatim>\<open>unsigned int\<close>, so the allocation size wraps at 32 bits. The result
  is the new string and the \<^verbatim>\<open>*changed\<close> flag.\<close>

definition url_encode :: "(nat \<Rightarrow> byte) \<Rightarrow> bytes \<Rightarrow> nat \<Rightarrow> (bytes \<times> bool) option" where
  "url_encode junk input input_len = do {
     let len = (input_len * 3 + 1) mod 2 ^ 32;
     let rval = apr_palloc junk len;
     (changed, rval, d) \<leftarrow> for_m 0 input_len (url_encode_body input) (False, rval, 0);
     rval \<leftarrow> wr rval d 0;
     Some (rval, changed) }"

definition url_emit :: "bool \<Rightarrow> byte \<Rightarrow> bool \<times> bytes" where
  "url_emit ch c =
     (if c = 32 then (True, [43])
      else if url_unreserved c then (ch, [c])
      else (True, [37, c2x_hi c, c2x_lo c]))"

interpretation ue: byte_encoder url_encode_body url_emit
proof
  fix i :: nat and src dst out :: bytes and s s' :: bool and d :: nat
  assume "i < length src" "url_emit s (src ! i) = (s', out)" "d + length out < length dst"
  then show "url_encode_body src i (s, dst, d) = Some (s', blit dst d out, d + length out)"
    using blit_blit [of d "[37]" dst "[c2x_hi (src ! i), c2x_lo (src ! i)]"]
    by (auto simp: url_emit_def blit_single split: if_splits)
qed

text \<open>The encoded string.\<close>

definition url_encoded :: "bytes \<Rightarrow> bytes" where
  "url_encoded xs = concat (map (\<lambda>c. snd (url_emit False c)) xs)"

lemma url_encoded_simps [simp]:
  "url_encoded [] = []"
  "url_encoded (c # cs) = snd (url_emit False c) @ url_encoded cs"
  by (simp_all add: url_encoded_def)

lemma url_encoded_append [simp]: "url_encoded (xs @ ys) = url_encoded xs @ url_encoded ys"
  by (simp add: url_encoded_def)

lemma url_emit_encode: "snd (encode url_emit s xs) = url_encoded xs"
  unfolding url_encoded_def by (rule encode_stateless) (simp add: url_emit_def)

lemma url_encoded_length: "length (url_encoded xs) \<le> 3 * length xs"
proof -
  have "length (snd (encode url_emit False xs)) \<le> 3 * length xs"
    by (rule encode_length) (simp add: url_emit_def)
  then show ?thesis by (simp add: url_emit_encode)
qed

lemma url_encode_changed:
  "fst (encode url_emit ch xs) \<longleftrightarrow> ch \<or> (\<exists>c\<in>set xs. \<not> url_unreserved c)"
proof (induction xs arbitrary: ch)
  case Nil
  then show ?case by simp
next
  case (Cons c cs)
  have "fst (url_emit ch c) \<longleftrightarrow> ch \<or> \<not> url_unreserved c"
    by (auto simp: url_emit_def url_unreserved_def)
  with Cons show ?case by auto
qed

lemma url_encode_run:
  assumes "n \<le> length input" "n * 3 + 1 < 2 ^ 32"
  shows "\<exists>rest. url_encode junk input n =
     Some (url_encoded (take n input) @ 0 # rest, \<exists>c\<in>set (take n input). \<not> url_unreserved c)"
proof -
  let ?xs = "take n input" and ?dst = "apr_palloc junk (n * 3 + 1)"
  have len: "length (url_encoded ?xs) \<le> 3 * n"
    using url_encoded_length [of ?xs] assms(1) by simp
  obtain ch out where e: "encode url_emit False ?xs = (ch, out)"
    by (cases "encode url_emit False ?xs")
  have out: "out = url_encoded ?xs" and ch: "ch \<longleftrightarrow> (\<exists>c\<in>set ?xs. \<not> url_unreserved c)"
    using url_emit_encode [of False ?xs] url_encode_changed [of False ?xs] e by simp_all
  have loop: "for_m 0 n (url_encode_body input) (False, ?dst, 0) =
      Some (ch, blit ?dst 0 out, length out)"
    using ue.loop_run [of n input False ?dst] assms(1) len e out by simp
  have "wr (blit ?dst 0 out) (length out) 0 = Some (blit ?dst 0 (out @ [0]))"
    using len out blit_blit [of 0 out ?dst "[0]"] by (simp add: blit_single)
  then show ?thesis
    using assms(2) loop out ch len by (auto simp: url_encode_def blit_def Let_def)
qed

section \<open>Decoding\<close>

text \<open>The local state is \<^verbatim>\<open>*changed\<close> and \<^verbatim>\<open>*invalid_count\<close>.\<close>

fun urldecode_body :: "nat \<Rightarrow> (bool \<times> nat) lstate \<Rightarrow> (bool \<times> nat) lstate option" where
  "urldecode_body input_len ((changed, invalid), b, i, d, count) = do {
     c \<leftarrow> rd b i;
     if c = 37 then
       if i + 2 < input_len then do {
         c1 \<leftarrow> rd b (i + 1);
         c2 \<leftarrow> rd b (i + 2);
         if VALID_HEX c1 \<and> VALID_HEX c2 then do {
           v \<leftarrow> x2c b (i + 1);
           b \<leftarrow> wr b d v;
           Some ((True, invalid), b, i + 3, d + 1, count + 1) }
         else do {
           b \<leftarrow> wr b d c;
           Some ((changed, invalid + 1), b, i + 1, d + 1, count + 1) } }
       else do {
         b \<leftarrow> wr b d c;
         Some ((changed, invalid + 1), b, i + 1, d + 1, count + 1) }
     else if c = 43 then do {
       b \<leftarrow> wr b d 32;
       Some ((True, invalid), b, i + 1, d + 1, count + 1) }
     else do {
       b \<leftarrow> wr b d c;
       Some ((changed, invalid), b, i + 1, d + 1, count + 1) } }"

text \<open>The result is the return value, the buffer, \<^verbatim>\<open>*changed\<close> and \<^verbatim>\<open>*invalid_count\<close>.\<close>

definition urldecode_nonstrict_inplace_ex ::
  "bytes option \<Rightarrow> nat \<Rightarrow> nat \<Rightarrow> (int \<times> bytes option \<times> bool \<times> nat) option"
where
  "urldecode_nonstrict_inplace_ex input input_len invalid =
     (case input of
        None \<Rightarrow> Some (-1, None, False, invalid)
      | Some b \<Rightarrow> do {
          ((changed, invalid), b, i, d, count) \<leftarrow>
            inplace_loop (below input_len) (urldecode_body input_len) ((False, invalid), b, 0, 0, 0);
          b \<leftarrow> wr b d 0;
          Some (int count, Some b, changed, invalid) })"

definition url_step :: "(bool \<times> nat) tstep" where
  "url_step st xs =
     (let (ch, bad) = st; c = xs ! 0 in
      if c = 37 then
        if 2 < length xs \<and> VALID_HEX (xs ! 1) \<and> VALID_HEX (xs ! 2)
        then ((True, bad), 3, [x2c_val (xs ! 1) (xs ! 2)])
        else ((ch, bad + 1), 1, [37])
      else if c = 43 then ((True, bad), 1, [32])
      else ((ch, bad), 1, [c]))"

interpretation ud: inplace_decoder below urldecode_body url_step
proof
  fix n i d count :: nat and s s' :: "bool \<times> nat" and b out xs :: bytes and k :: nat
  show "below n (s, b, i, d, count) \<longleftrightarrow> i < n" by simp
  show "0 < k \<and> length out \<le> k \<and> length out \<le> length xs"
    if "xs \<noteq> []" "url_step s xs = (s', k, out)"
    using that by (cases s; cases xs) (auto simp: url_step_def Let_def split: if_splits)
  show "urldecode_body n (s, b, i, d, count) =
      Some (s', blit b d out, i + k, d + length out, count + length out)"
    if "i < n" "n < length b" "d \<le> i" "url_step s (drop i (take n b)) = (s', k, out)"
    using that
    by (cases s) (auto simp: url_step_def Let_def blit_single split: if_splits)
qed

text \<open>The decoder as a function on byte lists, and how many percent signs it leaves undecoded.\<close>

definition pct_hex :: "bytes \<Rightarrow> bool" where
  "pct_hex xs \<longleftrightarrow> 2 < length xs \<and> xs ! 0 = 37 \<and> VALID_HEX (xs ! 1) \<and> VALID_HEX (xs ! 2)"

fun url_decode :: "bytes \<Rightarrow> bytes" where
  "url_decode [] = []"
| "url_decode (c # cs) =
     (if pct_hex (c # cs) then x2c_val (cs ! 0) (cs ! 1) # url_decode (drop 2 cs)
      else (if c = 43 then 32 else c) # url_decode cs)"

fun url_invalid :: "bytes \<Rightarrow> nat" where
  "url_invalid [] = 0"
| "url_invalid (c # cs) =
     (if pct_hex (c # cs) then url_invalid (drop 2 cs)
      else (if c = 37 then 1 else 0) + url_invalid cs)"

lemma url_step_Cons:
  "url_step (ch, bad) (c # cs) =
     (if pct_hex (c # cs) then ((True, bad), 3, [x2c_val (cs ! 0) (cs ! 1)])
      else if c = 37 then ((ch, bad + 1), 1, [37])
      else if c = 43 then ((True, bad), 1, [32])
      else ((ch, bad), 1, [c]))"
  by (auto simp: url_step_def pct_hex_def Let_def)

lemma length_url_decode: "length (url_decode xs) \<le> length xs"
  by (induction xs rule: url_decode.induct) auto

text \<open>A decoded escape makes the string shorter, so \<^verbatim>\<open>*changed\<close> tells whether the output
  differs from the input.\<close>

lemma url_decode_shrinks: "pct_hex (c # cs) \<Longrightarrow> url_decode (c # cs) \<noteq> c # cs"
  using length_url_decode [of "drop 2 cs"] by (auto simp: pct_hex_def dest: arg_cong [of _ _ length])

lemma transduce_url:
  "transduce url_step (ch, bad) xs =
     ((ch \<or> url_decode xs \<noteq> xs, bad + url_invalid xs), url_decode xs)"
proof (induction xs arbitrary: ch bad rule: url_decode.induct)
  case 1
  show ?case by simp
next
  case (2 c cs)
  obtain st k out where step: "url_step (ch, bad) (c # cs) = (st, k, out)"
    by (cases "url_step (ch, bad) (c # cs)")
  have k: "0 < k" using step by (auto simp: url_step_Cons split: if_splits)
  note unfold = transduce_step [of "c # cs" url_step, OF list.simps(3) step k]
  show ?case
  proof (cases "pct_hex (c # cs)")
    case True
    then show ?thesis
      using step "2.IH"(1) [OF True] url_decode_shrinks [OF True]
      by (simp only: unfold) (auto simp: url_step_Cons)
  next
    case False
    have "c = 37 \<longrightarrow> c \<noteq> 43" by simp
    with False show ?thesis
      using step "2.IH"(2) [OF False] unfold by (auto simp: url_step_Cons split: if_splits)
  qed
qed

lemma urldecode_run:
  assumes "n < length b" "b ! n = 0"
  shows "urldecode_nonstrict_inplace_ex (Some b) n bad =
     (let out = url_decode (take n b) in
      Some (int (length out), Some (out @ 0 # drop (Suc (length out)) b),
            out \<noteq> take n b, bad + url_invalid (take n b)))"
proof -
  let ?out = "url_decode (take n b)"
  obtain i' where loop: "inplace_loop (below n) (urldecode_body n) ((False, bad), b, 0, 0, 0) =
      Some ((?out \<noteq> take n b, bad + url_invalid (take n b)), blit b 0 ?out, i', length ?out, length ?out)"
    and fits: "length ?out \<le> n"
    using ud.loop_run [OF assms, of "(False, bad)"] by (auto simp: transduce_url)
  have "wr (blit b 0 ?out) (length ?out) 0 = Some (blit b 0 (?out @ [0]))"
    using fits assms blit_blit [of 0 ?out b "[0]"] by (simp add: blit_single)
  then show ?thesis
    by (simp add: urldecode_nonstrict_inplace_ex_def loop blit_def Let_def)
qed

section \<open>Round trip\<close>

lemma url_unreserved_safe: "url_unreserved c \<Longrightarrow> c \<noteq> 37 \<and> c \<noteq> 43"
  by (auto simp: url_unreserved_def)

lemma url_decode_encoded: "url_decode (url_encoded xs) = xs"
proof (induction xs)
  case Nil
  show ?case by simp
next
  case (Cons c cs)
  then show ?case
    using url_unreserved_safe [of c]
    by (auto simp: url_emit_def pct_hex_def c2x_digits_valid)
qed

lemma url_invalid_encoded: "url_invalid (url_encoded xs) = 0"
proof (induction xs)
  case Nil
  show ?case by simp
next
  case (Cons c cs)
  then show ?case
    using url_unreserved_safe [of c]
    by (auto simp: url_emit_def pct_hex_def c2x_digits_valid)
qed

lemma url_encoded_no_NUL: "0 \<notin> set (url_encoded xs)"
proof -
  have "0 \<notin> set (snd (url_emit False c))" for c
    using c2x_digits_valid [of c]
    by (auto simp: url_emit_def url_unreserved_def VALID_HEX_def)
  then show ?thesis by (induction xs) auto
qed

section \<open>Properties\<close>

text \<open>
  C36: \<open>url_encode\<close> (below the length at which its 32-bit size computation wraps) stays inside
  the block it allocates and returns a NUL-free string, and \<open>urldecode_nonstrict_inplace_ex\<close> maps
  that string back to the input without counting an invalid escape.
\<close>

theorem url_round_trip:
  "length xs * 3 + 1 < 2 ^ 32 \<Longrightarrow>
   \<exists>enc tail changed. url_encode junk xs (length xs) = Some (enc @ 0 # tail, changed) \<and> 0 \<notin> set enc \<and>
     (\<exists>tail' changed'. urldecode_nonstrict_inplace_ex (Some (enc @ 0 # tail)) (length enc) 0 =
        Some (int (length xs), Some (xs @ 0 # tail'), changed', 0))"
proof -
  assume "length xs * 3 + 1 < 2 ^ 32"
  then obtain tail where enc: "url_encode junk xs (length xs) =
      Some (url_encoded xs @ 0 # tail, \<exists>c\<in>set xs. \<not> url_unreserved c)"
    using url_encode_run [of "length xs" xs junk] by auto
  show ?thesis
    using enc urldecode_run [of "length (url_encoded xs)" "url_encoded xs @ 0 # tail" 0] url_encoded_no_NUL [of xs]
    by (auto simp: url_decode_encoded url_invalid_encoded Let_def)
qed

theorem url_round_trip_witness:
  "\<exists>enc tail changed. url_encode (\<lambda>_. 7) [97, 0, 37, 255] (length ([97, 0, 37, 255] :: bytes)) =
       Some (enc @ 0 # tail, changed) \<and> 0 \<notin> set enc \<and>
     (\<exists>tail' changed'. urldecode_nonstrict_inplace_ex (Some (enc @ 0 # tail)) (length enc) 0 =
        Some (int (length ([97, 0, 37, 255] :: bytes)), Some ([97, 0, 37, 255] @ 0 # tail'), changed', 0))"
  by (rule url_round_trip) simp

text \<open>
  C39: at the length where \<^verbatim>\<open>input_len * 3 + 1\<close> wraps to 0 the first byte written is already
  outside the allocated block.
\<close>

theorem url_encode_size_wraps:
  "url_encode junk input 1431655765 = None"
proof -
  have len: "(1431655765 * 3 + 1) mod 2 ^ 32 = (0::nat)" by simp
  have "url_encode_body input 0 (False, [], 0) = None"
    by (cases "rd input 0") auto
  then have "for_m 0 1431655765 (url_encode_body input) (False, [], 0) = None"
    by (subst for_m.simps) simp
  then show ?thesis by (simp add: url_encode_def len Let_def apr_palloc_def del: mult_numeral_left_semiring_numeral)
qed

text \<open>
  \<open>urldecode_nonstrict_inplace_ex\<close> never leaves its buffer and computes \<open>url_decode\<close>: the
  return value is the decoded length, the result is NUL-terminated, \<^verbatim>\<open>*changed\<close> says whether it
  differs from the input, and \<^verbatim>\<open>*invalid_count\<close> grows by the number of percent signs that do
  not start a valid escape.
\<close>

theorem urldecode_correct:
  "urldecode_nonstrict_inplace_ex (Some (xs @ 0 # rest)) (length xs) bad =
     Some (int (length (url_decode xs)),
           Some (url_decode xs @ 0 # drop (Suc (length (url_decode xs))) (xs @ 0 # rest)),
           url_decode xs \<noteq> xs, bad + url_invalid xs)"
  using urldecode_run [of "length xs" "xs @ 0 # rest" bad] by (simp add: Let_def)

end
