(* ===== verification/UrlCodecUni.thy ===== *)
theory UrlCodecUni
  imports UrlCodec
begin

text \<open>
  \<open>urldecode_uni_nonstrict_inplace_ex\<close> of \<^verbatim>\<open>apache2/msc_util.c\<close>: URL decoding with the IIS
  form \<^verbatim>\<open>%uHHHH\<close>. The Unicode map (\<^verbatim>\<open>unicode_map_table\<close>, filled by
  \<^verbatim>\<open>unicode_map_init\<close> from a configuration file) is a parameter: \<^term>\<open>None\<close> is the NULL
  table, \<open>Some tbl\<close> a table of 65536 entries in which \<open>-1\<close> means unmapped.
\<close>

section \<open>Full-width characters\<close>

text \<open>\<^verbatim>\<open>(*d > 0x00) && (*d < 0x5f) && input[i] is f or F && input[j] is f or F\<close>: the byte
  just written is moved from the full-width block to ASCII.\<close>

definition is_f :: "byte \<Rightarrow> bool" where
  "is_f c \<longleftrightarrow> c = 102 \<or> c = 70"

definition full_width_fix :: "bytes \<Rightarrow> nat \<Rightarrow> nat \<Rightarrow> nat \<Rightarrow> bytes option" where
  "full_width_fix b d i j = do {
     c \<leftarrow> and_m [rdp b d (\<lambda>v. 0 < v), rdp b d (\<lambda>v. v < 0x5f), rdp b i is_f, rdp b j is_f];
     if c then do { v \<leftarrow> rd b d; wr b d (v + 0x20) } else Some b }"

definition full_width :: "byte \<Rightarrow> byte \<Rightarrow> byte \<Rightarrow> byte" where
  "full_width v c1 c2 = (if 0 < v \<and> v < 0x5f \<and> is_f c1 \<and> is_f c2 then v + 0x20 else v)"

lemma full_width_fix_run:
  assumes "d < i" "d < j" "i < length b" "j < length b"
  shows "full_width_fix (blit b d [v]) d i j = Some (blit b d [full_width v (b ! i) (b ! j)])"
proof -
  have "blit b d [v] ! d = v" "(blit b d [v])[d := v + 0x20] = blit b d [v + 0x20]"
    using assms by (simp_all flip: blit_single)
  then show ?thesis
    using assms by (simp add: full_width_fix_def full_width_def)
qed

section \<open>The decoder\<close>

definition uni_digit :: "byte \<Rightarrow> int" where
  "uni_digit c =
     (if 97 \<le> c then uint (c - 97) + 10 else if 65 \<le> c then uint (c - 65) + 10 else uint (c - 48))"

text \<open>The loop \<^verbatim>\<open>for (j = 5; j >= 2; j--)\<close> that adds up the code point; the list is the values
  of \<open>j\<close> still to come.\<close>

fun uni_code :: "bytes \<Rightarrow> nat \<Rightarrow> nat list \<Rightarrow> int \<Rightarrow> int \<Rightarrow> int option" where
  "uni_code b i [] Code weight = Some Code"
| "uni_code b i (j # js) Code weight = do {
     c \<leftarrow> rd b (i + j);
     if c_isxdigit c then uni_code b i js (Code + uni_digit c * weight) (weight * 16)
     else uni_code b i js Code weight }"

definition unicode_map :: "(nat \<Rightarrow> int) \<Rightarrow> int \<Rightarrow> int option" where
  "unicode_map tbl Code = (if 0 \<le> Code \<and> Code \<le> 65535 then Some (tbl (nat Code)) else None)"

fun urldecode_uni_body ::
  "(nat \<Rightarrow> int) option \<Rightarrow> int \<Rightarrow> nat \<Rightarrow> (bool \<times> int) lstate \<Rightarrow> (bool \<times> int) lstate option"
where
  "urldecode_uni_body table codepage n ((changed, hmap), b, i, d, count) = do {
     c \<leftarrow> rd b i;
     if c = 37 then do {
       isu \<leftarrow> and_m [Some (i + 1 < n), rdp b (i + 1) (\<lambda>c. c = 117 \<or> c = 85)];
       if isu then do {
         hex4 \<leftarrow> and_m [Some (i + 5 < n), rdp b (i + 2) VALID_HEX, rdp b (i + 3) VALID_HEX,
                        rdp b (i + 4) VALID_HEX, rdp b (i + 5) VALID_HEX];
         if hex4 then do {
           hmap \<leftarrow>
             (case table of
                None \<Rightarrow> Some hmap
              | Some tbl \<Rightarrow>
                  if codepage > 0 then do {
                    Code \<leftarrow> uni_code b i [5, 4, 3, 2] 0 1;
                    if 0 \<le> Code \<and> Code \<le> 65535 then unicode_map tbl Code else Some hmap }
                  else Some hmap);
           b \<leftarrow> (if hmap \<noteq> -1 then wr b d (word_of_int hmap)
                 else do {
                   v \<leftarrow> x2c b (i + 4);
                   b \<leftarrow> wr b d v;
                   full_width_fix b d (i + 2) (i + 3) });
           Some ((True, hmap), b, i + 6, d + 1, count + 1) }
         else do {
           b \<leftarrow> wr b d c;
           c' \<leftarrow> rd b (i + 1);
           b \<leftarrow> wr b (d + 1) c';
           Some ((changed, hmap), b, i + 2, d + 2, count + 2) } }
       else
         if i + 2 < n then do {
           c1 \<leftarrow> rd b (i + 1);
           c2 \<leftarrow> rd b (i + 2);
           if VALID_HEX c1 \<and> VALID_HEX c2 then do {
             v \<leftarrow> x2c b (i + 1);
             b \<leftarrow> wr b d v;
             Some ((True, hmap), b, i + 3, d + 1, count + 1) }
           else do { b \<leftarrow> wr b d c; Some ((changed, hmap), b, i + 1, d + 1, count + 1) } }
         else do { b \<leftarrow> wr b d c; Some ((changed, hmap), b, i + 1, d + 1, count + 1) } }
     else if c = 43 then do { b \<leftarrow> wr b d 32; Some ((True, hmap), b, i + 1, d + 1, count + 1) }
     else do { b \<leftarrow> wr b d c; Some ((changed, hmap), b, i + 1, d + 1, count + 1) } }"

definition urldecode_uni_nonstrict_inplace_ex ::
  "(nat \<Rightarrow> int) option \<Rightarrow> int \<Rightarrow> bytes option \<Rightarrow> nat \<Rightarrow> (int \<times> bytes option \<times> bool) option"
where
  "urldecode_uni_nonstrict_inplace_ex table codepage input input_len =
     (case input of
        None \<Rightarrow> Some (-1, None, False)
      | Some b \<Rightarrow> do {
          ((changed, hmap), b, i, d, count) \<leftarrow>
            inplace_loop (below input_len) (urldecode_uni_body table codepage input_len)
              ((False, -1), b, 0, 0, 0);
          b \<leftarrow> wr b d 0;
          Some (int count, Some b, changed) })"

section \<open>What it computes\<close>

definition code_point :: "bytes \<Rightarrow> int" where
  "code_point xs =
     uni_digit (xs ! 5) + uni_digit (xs ! 4) * 16 + uni_digit (xs ! 3) * 256 + uni_digit (xs ! 2) * 4096"

definition pct_u :: "bytes \<Rightarrow> bool" where
  "pct_u xs \<longleftrightarrow> 1 < length xs \<and> xs ! 0 = 37 \<and> (xs ! 1 = 117 \<or> xs ! 1 = 85)"

definition pct_u4 :: "bytes \<Rightarrow> bool" where
  "pct_u4 xs \<longleftrightarrow> pct_u xs \<and> 5 < length xs \<and> VALID_HEX (xs ! 2) \<and> VALID_HEX (xs ! 3) \<and>
     VALID_HEX (xs ! 4) \<and> VALID_HEX (xs ! 5)"

definition uni_hmap :: "(nat \<Rightarrow> int) option \<Rightarrow> int \<Rightarrow> bytes \<Rightarrow> int" where
  "uni_hmap table codepage xs =
     (case table of None \<Rightarrow> -1
      | Some tbl \<Rightarrow> if codepage > 0 then tbl (nat (code_point xs)) else -1)"

definition uni_char :: "(nat \<Rightarrow> int) option \<Rightarrow> int \<Rightarrow> bytes \<Rightarrow> byte" where
  "uni_char table codepage xs =
     (if uni_hmap table codepage xs \<noteq> -1 then word_of_int (uni_hmap table codepage xs)
      else full_width (x2c_val (xs ! 4) (xs ! 5)) (xs ! 2) (xs ! 3))"

definition uni_step :: "(nat \<Rightarrow> int) option \<Rightarrow> int \<Rightarrow> (bool \<times> int) tstep" where
  "uni_step table codepage st xs =
     (let (ch, h) = st; c = xs ! 0 in
      if pct_u4 xs then
        let h' = (if table \<noteq> None \<and> codepage > 0 then uni_hmap table codepage xs else h) in
        ((True, h'), 6,
         [if h' \<noteq> -1 then word_of_int h' else full_width (x2c_val (xs ! 4) (xs ! 5)) (xs ! 2) (xs ! 3)])
      else if pct_u xs then ((ch, h), 2, [c, xs ! 1])
      else if pct_hex xs then ((True, h), 3, [x2c_val (xs ! 1) (xs ! 2)])
      else if c = 43 then ((True, h), 1, [32])
      else ((ch, h), 1, [c]))"

lemma VALID_HEX_xdigit: "VALID_HEX c \<longleftrightarrow> c_isxdigit c"
  by (auto simp: VALID_HEX_def c_isxdigit_def c_isdigit_def)

lemma uni_digit_bounds: "VALID_HEX c \<Longrightarrow> 0 \<le> uni_digit c \<and> uni_digit c < 16"
  by (auto simp: VALID_HEX_def uni_digit_def word_le_def uint_sub_if')

lemma code_point_bounds: "pct_u4 xs \<Longrightarrow> 0 \<le> code_point xs \<and> code_point xs \<le> 65535"
  using uni_digit_bounds [of "xs ! 2"] uni_digit_bounds [of "xs ! 3"]
    uni_digit_bounds [of "xs ! 4"] uni_digit_bounds [of "xs ! 5"]
  by (auto simp: pct_u4_def code_point_def)

lemma uni_code_run:
  assumes "i + 5 < n" "n < length b"
    "VALID_HEX (b ! (i + 2))" "VALID_HEX (b ! (i + 3))" "VALID_HEX (b ! (i + 4))" "VALID_HEX (b ! (i + 5))"
  shows "uni_code b i [5, 4, 3, 2] 0 1 = Some (code_point (drop i (take n b)))"
  using assms by (simp add: code_point_def flip: VALID_HEX_xdigit)

lemma unread_nth [simp]: "i + k < n \<Longrightarrow> n < length b \<Longrightarrow> drop i (take n b) ! k = b ! (i + k)"
  by simp

interpretation uu: inplace_decoder below "urldecode_uni_body table codepage" "uni_step table codepage"
  for table codepage
proof
  fix n i d count :: nat and s s' :: "bool \<times> int" and b out xs :: bytes and k :: nat
  show "below n (s, b, i, d, count) \<longleftrightarrow> i < n" by simp
  show "0 < k \<and> length out \<le> k \<and> length out \<le> length xs"
    if "xs \<noteq> []" "uni_step table codepage s xs = (s', k, out)"
    using that
    by (cases s; cases xs) (auto simp: uni_step_def Let_def pct_u_def Suc_le_eq split: if_splits)
  show "urldecode_uni_body table codepage n (s, b, i, d, count) =
      Some (s', blit b d out, i + k, d + length out, count + length out)"
    if i: "i < n" and n: "n < length b" and d: "d \<le> i"
      and st: "uni_step table codepage s (drop i (take n b)) = (s', k, out)"
  proof -
    let ?xs = "drop i (take n b)"
    obtain ch h where s: "s = (ch, h)" by (cases s)
    consider (u4) "pct_u4 ?xs" | (u) "pct_u ?xs" "\<not> pct_u4 ?xs" | (std) "\<not> pct_u ?xs" by blast
    then show ?thesis
    proof cases
      case u4
      then have hex: "i + 5 < n" "b ! i = 37" "b ! (i + 1) = 117 \<or> b ! (i + 1) = 85"
        "VALID_HEX (b ! (i + 2))" "VALID_HEX (b ! (i + 3))" "VALID_HEX (b ! (i + 4))" "VALID_HEX (b ! (i + 5))"
        using n by (auto simp: pct_u4_def pct_u_def)
      have code: "uni_code b i [5, 4, 3, 2] 0 1 = Some (code_point ?xs)"
        using uni_code_run [OF hex(1) n hex(4-7)] .
      have fw: "full_width_fix (blit b d [v]) d (i + 2) (i + 3) =
          Some (blit b d [full_width v (b ! (i + 2)) (b ! (i + 3))])" for v
        using hex n d by (intro full_width_fix_run) auto
      define h' where "h' = (if table \<noteq> None \<and> codepage > 0 then uni_hmap table codepage ?xs else h)"
      have map: "(case table of
            None \<Rightarrow> Some h
          | Some tbl \<Rightarrow>
              if codepage > 0 then do {
                Code \<leftarrow> uni_code b i [5, 4, 3, 2] 0 1;
                if 0 \<le> Code \<and> Code \<le> 65535 then unicode_map tbl Code else Some h }
              else Some h) = Some h'"
        unfolding code using code_point_bounds [OF u4]
        by (simp add: h'_def uni_hmap_def unicode_map_def split: option.splits)
      have s': "s' = (True, h')" "k = 6"
        "out = [if h' \<noteq> -1 then word_of_int h'
                else full_width (x2c_val (b ! (i + 4)) (b ! (i + 5))) (b ! (i + 2)) (b ! (i + 3))]"
      proof -
        have "uni_step table codepage s ?xs = ((True, h'), 6,
           [if h' \<noteq> -1 then word_of_int h'
            else full_width (x2c_val (?xs ! 4) (?xs ! 5)) (?xs ! 2) (?xs ! 3)])"
          by (simp only: s uni_step_def Let_def prod.case u4 if_True h'_def)
        moreover have "?xs ! 2 = b ! (i + 2)" "?xs ! 3 = b ! (i + 3)" "?xs ! 4 = b ! (i + 4)" "?xs ! 5 = b ! (i + 5)"
          using hex n by simp_all
        ultimately show "s' = (True, h')" "k = 6"
          "out = [if h' \<noteq> -1 then word_of_int h'
                  else full_width (x2c_val (b ! (i + 4)) (b ! (i + 5))) (b ! (i + 2)) (b ! (i + 3))]"
          using st by (simp_all only: prod.inject)
      qed
      have read: "rd b i = Some 37"
        "and_m [Some (i + 1 < n), rdp b (i + 1) (\<lambda>c. c = 117 \<or> c = 85)] = Some True"
        "and_m [Some (i + 5 < n), rdp b (i + 2) VALID_HEX, rdp b (i + 3) VALID_HEX,
                rdp b (i + 4) VALID_HEX, rdp b (i + 5) VALID_HEX] = Some True"
        "x2c b (i + 4) = Some (x2c_val (b ! (i + 4)) (b ! (i + 5)))"
        using hex n by (simp_all add: x2c_def add.commute)
      have w: "wr b d v = Some (blit b d [v])" for v
        using i n d by (simp add: blit_single)
      show ?thesis
        by (simp only: s s' urldecode_uni_body.simps read map w fw Option.bind.bind_lunit simp_thms if_True
            list.size) simp
    next
      case u
      then have c: "b ! i = 37" "i + 1 < n" "b ! (i + 1) = 117 \<or> b ! (i + 1) = 85"
        using n by (auto simp: pct_u_def)
      have isu: "and_m [Some (i + 1 < n), rdp b (i + 1) (\<lambda>c. c = 117 \<or> c = 85)] = Some True"
        using c n by simp
      have hex4: "and_m [Some (i + 5 < n), rdp b (i + 2) VALID_HEX, rdp b (i + 3) VALID_HEX,
                rdp b (i + 4) VALID_HEX, rdp b (i + 5) VALID_HEX] = Some False"
        using u n by (cases "i + 5 < n") (auto simp: pct_u4_def)
      have s': "s' = (ch, h)" "k = 2" "out = [37, b ! (i + 1)]"
        using st u c n by (simp_all add: s uni_step_def Let_def)
      have w: "wr b d 37 = Some (b[d := 37])" "rd (b[d := 37]) (i + 1) = Some (b ! (i + 1))"
        "wr (b[d := 37]) (d + 1) (b ! (i + 1)) = Some (blit b d [37, b ! (i + 1)])"
        using i n d c blit_blit [of d "[37]" b "[b ! (i + 1)]"] by (simp_all add: blit_single)
      have w0: "rd b i = Some 37" "wr b d 37 = Some (b[d := 37])" using c i n d by simp_all
      show ?thesis
        by (simp only: s s' urldecode_uni_body.simps w0 isu hex4 w Option.bind.bind_lunit simp_thms
            if_True if_False list.size) simp
    next
      case std
      have c: "urldecode_uni_body table codepage n (s, b, i, d, count) =
        (if pct_hex ?xs then Some ((True, h), b[d := x2c_val (b ! (i + 1)) (b ! (i + 2))], i + 3, d + 1, count + 1)
         else if b ! i = 43 then Some ((True, h), b[d := 32], i + 1, d + 1, count + 1)
         else Some ((ch, h), b[d := b ! i], i + 1, d + 1, count + 1))"
      proof (cases "b ! i = 37")
        case False
        then show ?thesis using i n d by (auto simp: s pct_hex_def)
      next
        case True
        then have isu: "and_m [Some (i + 1 < n), rdp b (i + 1) (\<lambda>c. c = 117 \<or> c = 85)] = Some False"
          using std n by (cases "i + 1 < n") (auto simp: pct_u_def)
        have "urldecode_uni_body table codepage n (s, b, i, d, count) =
          (if i + 2 < n \<and> VALID_HEX (b ! (i + 1)) \<and> VALID_HEX (b ! (i + 2))
           then Some ((True, h), b[d := x2c_val (b ! (i + 1)) (b ! (i + 2))], i + 3, d + 1, count + 1)
           else Some ((ch, h), b[d := 37], i + 1, d + 1, count + 1))"
          unfolding s urldecode_uni_body.simps isu using True i n d by simp
        then show ?thesis using True i n by (auto simp: pct_hex_def)
      qed
      have "\<not> pct_u4 ?xs" using std by (simp add: pct_u4_def)
      then have out: "(s', k, out) =
        (if pct_hex ?xs then ((True, h), 3, [x2c_val (?xs ! 1) (?xs ! 2)])
         else if ?xs ! 0 = 43 then ((True, h), 1, [32]) else ((ch, h), 1, [?xs ! 0]))"
        unfolding st [symmetric] by (simp only: s uni_step_def Let_def prod.case std if_False)
      have x0: "?xs ! 0 = b ! i" using i n by simp
      have hex: "?xs ! 1 = b ! (i + 1)" "?xs ! 2 = b ! (i + 2)" if "pct_hex ?xs"
      proof -
        have "i + 2 < n" using that n by (auto simp: pct_hex_def)
        then show "?xs ! 1 = b ! (i + 1)" "?xs ! 2 = b ! (i + 2)" using n by simp_all
      qed
      have w: "b[d := v] = blit b d [v]" for v using i n d by (simp add: blit_single)
      show ?thesis
      proof (cases "pct_hex ?xs")
        case True
        with out c show ?thesis by (simp only: w hex [OF True] if_True prod.inject) simp
      next
        case False
        with out c show ?thesis by (simp only: w x0 if_False) (simp split: if_splits)
      qed
    qed
  qed
qed

definition uni_decode :: "(nat \<Rightarrow> int) option \<Rightarrow> int \<Rightarrow> bytes \<Rightarrow> bytes" where
  "uni_decode table codepage xs = snd (transduce (uni_step table codepage) (False, -1) xs)"

lemma urldecode_uni_run:
  assumes "n < length b" "b ! n = 0"
  shows "\<exists>changed. urldecode_uni_nonstrict_inplace_ex table codepage (Some b) n =
     (let out = uni_decode table codepage (take n b) in
      Some (int (length out), Some (out @ 0 # drop (Suc (length out)) b), changed)) \<and>
     length (uni_decode table codepage (take n b)) \<le> n"
proof -
  let ?out = "uni_decode table codepage (take n b)"
  obtain st where st: "transduce (uni_step table codepage) (False, -1) (take n b) = (st, ?out)"
    unfolding uni_decode_def by (metis prod.collapse)
  obtain i' where loop: "inplace_loop (below n) (urldecode_uni_body table codepage n) ((False, -1), b, 0, 0, 0) =
      Some (st, blit b 0 ?out, i', length ?out, length ?out)"
    and fits: "length ?out \<le> n"
    using uu.loop_run [OF assms, of table codepage "(False, -1)"] st by auto
  have "wr (blit b 0 ?out) (length ?out) 0 = Some (blit b 0 (?out @ [0]))"
    using fits assms blit_blit [of 0 ?out b "[0]"] by (simp add: blit_single)
  then show ?thesis
    using fits
    by (cases st) (simp add: urldecode_uni_nonstrict_inplace_ex_def loop blit_def Let_def)
qed

text \<open>Without a \<^verbatim>\<open>%u\<close> anywhere the two decoders agree.\<close>

lemma transduce_uni_no_u:
  "(\<And>j. \<not> pct_u (drop j xs)) \<Longrightarrow>
   snd (transduce (uni_step table codepage) st xs) = url_decode xs"
proof (induction xs arbitrary: st rule: url_decode.induct)
  case 1
  show ?case by simp
next
  case (2 c cs)
  have nu: "\<not> pct_u (c # cs)" using "2.prems" [of 0] by simp
  have rest: "\<not> pct_u (drop j (drop 2 cs))" "\<not> pct_u (drop j cs)" for j
    using "2.prems" [of "Suc (Suc (Suc j))"] "2.prems" [of "Suc j"] by simp_all
  obtain s' k out where step: "uni_step table codepage st (c # cs) = (s', k, out)"
    by (cases "uni_step table codepage st (c # cs)")
  have k: "0 < k" using step by (cases st) (auto simp: uni_step_def Let_def split: if_splits)
  have out: "k = (if pct_hex (c # cs) then 3 else 1)"
    "out = (if pct_hex (c # cs) then [x2c_val (cs ! 0) (cs ! 1)] else if c = 43 then [32] else [c])"
    using step nu by (cases st; auto simp: uni_step_def pct_u4_def Let_def split: if_splits)+
  note unf = transduce_step [of "c # cs" "uni_step table codepage", OF list.simps(3) step k]
  show ?case
  proof (cases "pct_hex (c # cs)")
    case True
    then show ?thesis
      using "2.IH"(1) [OF True rest(1)] by (simp add: unf out)
  next
    case False
    then show ?thesis
      using "2.IH"(2) [OF False rest(2)] by (simp add: unf out)
  qed
qed

section \<open>Properties\<close>

text \<open>
  \<open>urldecode_uni_nonstrict_inplace_ex\<close> never leaves its buffer, whatever the Unicode map
  and code page; its output is NUL-terminated, not longer than the input, and the return value is
  its length.
\<close>

theorem urldecode_uni_safe:
  "\<exists>out changed. urldecode_uni_nonstrict_inplace_ex table codepage (Some (xs @ 0 # rest)) (length xs) =
     Some (int (length out), Some (out @ 0 # drop (Suc (length out)) (xs @ 0 # rest)), changed) \<and>
     length out \<le> length xs"
  using urldecode_uni_run [of "length xs" "xs @ 0 # rest" table codepage]
  by (auto simp: Let_def simp del: drop_append)

text \<open>
  on input without \<^verbatim>\<open>%u\<close> or \<^verbatim>\<open>%U\<close> the Unicode decoder and the standard decoder leave
  the same bytes and return the same length.
\<close>

theorem urldecode_uni_agrees:
  "(\<And>j. \<not> pct_u (drop j xs)) \<Longrightarrow>
   \<exists>count b changed changed' bad.
     urldecode_uni_nonstrict_inplace_ex table codepage (Some (xs @ 0 # rest)) (length xs) =
       Some (count, Some b, changed) \<and>
     urldecode_nonstrict_inplace_ex (Some (xs @ 0 # rest)) (length xs) 0 =
       Some (count, Some b, changed', bad)"
  using urldecode_uni_run [of "length xs" "xs @ 0 # rest" table codepage]
    urldecode_run [of "length xs" "xs @ 0 # rest" 0] transduce_uni_no_u [of xs table codepage "(False, -1)"]
  by (auto simp: Let_def uni_decode_def simp del: drop_append)

theorem urldecode_uni_agrees_witness:
  "\<exists>count b changed changed' bad.
     urldecode_uni_nonstrict_inplace_ex None 20127 (Some ([37, 52, 49, 43] @ 0 # [])) (length ([37, 52, 49, 43] :: bytes)) =
       Some (count, Some b, changed) \<and>
     urldecode_nonstrict_inplace_ex (Some ([37, 52, 49, 43] @ 0 # [])) (length ([37, 52, 49, 43] :: bytes)) 0 =
       Some (count, Some b, changed', bad)"
proof (rule urldecode_uni_agrees)
  fix j
  show "\<not> pct_u (drop j [37, 52, 49, 43])" by (auto simp: pct_u_def drop_Cons' split: if_splits)
qed

text \<open>
  a \<^verbatim>\<open>%uHHHH\<close> escape that the Unicode map covers decodes to the mapped byte.
\<close>

theorem urldecode_uni_mapped:
  "VALID_HEX a \<Longrightarrow> VALID_HEX b \<Longrightarrow> VALID_HEX c \<Longrightarrow> VALID_HEX d \<Longrightarrow> 0 < codepage \<Longrightarrow>
   tbl (nat (code_point [37, 117, a, b, c, d])) = v \<Longrightarrow> v \<noteq> -1 \<Longrightarrow>
   urldecode_uni_nonstrict_inplace_ex (Some tbl) codepage (Some [37, 117, a, b, c, d, 0]) 6 =
     Some (1, Some [word_of_int v, 0, a, b, c, d, 0], True)"
proof -
  assume hex: "VALID_HEX a" "VALID_HEX b" "VALID_HEX c" "VALID_HEX d" and cp: "0 < codepage"
    and v: "tbl (nat (code_point [37, 117, a, b, c, d])) = v" "v \<noteq> -1"
  let ?xs = "[37, 117, a, b, c, d]"
  have u: "pct_u4 ?xs" using hex by (simp add: pct_u4_def pct_u_def)
  have "uni_step (Some tbl) codepage (False, -1) ?xs = ((True, v), 6, [word_of_int v])"
    using u cp v by (simp add: uni_step_def uni_hmap_def)
  then have tr: "transduce (uni_step (Some tbl) codepage) (False, -1) ?xs = ((True, v), [word_of_int v])"
    using transduce_step [of ?xs "uni_step (Some tbl) codepage" "(False, -1)" "(True, v)" 6 "[word_of_int v]"]
    by simp
  obtain i' where "inplace_loop (below 6) (urldecode_uni_body (Some tbl) codepage 6)
      ((False, -1), ?xs @ [0], 0, 0, 0) = Some ((True, v), blit (?xs @ [0]) 0 [word_of_int v], i', 1, 1)"
    using uu.loop_run [of 6 "?xs @ [0]" "Some tbl" codepage "(False, -1)"] tr by auto
  then show ?thesis by (simp add: urldecode_uni_nonstrict_inplace_ex_def blit_def)
qed

theorem urldecode_uni_mapped_witness:
  "urldecode_uni_nonstrict_inplace_ex (Some (\<lambda>k. if k = 226 then 97 else -1)) 1 (Some [37, 117, 48, 48, 101, 50, 0]) 6 =
     Some (1, Some [97, 0, 48, 48, 101, 50, 0], True)"
  using urldecode_uni_mapped [of 48 48 101 50 1 "\<lambda>k. if k = 226 then 97 else -1" 97]
  by (simp add: VALID_HEX_def code_point_def uni_digit_def)

end
