(* ===== verification/EscapeDecoders.thy ===== *)
theory EscapeDecoders
  imports UrlCodecUni
begin

text \<open>
  The backslash decoders of \<^verbatim>\<open>apache2/msc_util.c\<close>: \<open>js_decode_nonstrict_inplace\<close>,
  \<open>ansi_c_sequences_decode_inplace\<close> and \<open>css_decode_inplace\<close>. All three share the scans
  below and meet the contract of an in-place decoder.
\<close>

section \<open>Looking ahead\<close>

text \<open>\<open>look b n i k [(j1, P1), (j2, P2), \<dots>]\<close> is the condition
  \<^verbatim>\<open>(i + k < n) && P1(input[i + j1]) && P2(input[i + j2]) && ...\<close>, and \<open>look_spec\<close> its
  reading on the unread input.\<close>

definition look :: "bytes \<Rightarrow> nat \<Rightarrow> nat \<Rightarrow> nat \<Rightarrow> (nat \<times> (byte \<Rightarrow> bool)) list \<Rightarrow> bool option" where
  "look b n i k ps = and_m (Some (i + k < n) # map (\<lambda>(j, P). rdp b (i + j) P) ps)"

definition look_spec :: "bytes \<Rightarrow> nat \<Rightarrow> (nat \<times> (byte \<Rightarrow> bool)) list \<Rightarrow> bool" where
  "look_spec xs k ps \<longleftrightarrow> k < length xs \<and> list_all (\<lambda>(j, P). P (xs ! j)) ps"

lemma and_m_reads:
  "(\<And>j P. (j, P) \<in> set ps \<Longrightarrow> i + j < length b) \<Longrightarrow>
   and_m (map (\<lambda>(j, P). rdp b (i + j) P) ps) = Some (list_all (\<lambda>(j, P). P (b ! (i + j))) ps)"
proof (induction ps)
  case Nil
  show ?case by simp
next
  case (Cons p ps)
  obtain j P where p: "p = (j, P)" by (cases p)
  have "i + j < length b" using Cons.prems [of j P] p by simp
  moreover have "and_m (map (\<lambda>(j, P). rdp b (i + j) P) ps) = Some (list_all (\<lambda>(j, P). P (b ! (i + j))) ps)"
    by (rule Cons.IH) (use Cons.prems in auto)
  ultimately show ?case by (simp add: p)
qed

lemma look_run:
  assumes "n < length b" "i \<le> n" "list_all (\<lambda>(j, P). j \<le> k) ps"
  shows "look b n i k ps = Some (look_spec (drop i (take n b)) k ps)"
proof (cases "i + k < n")
  case False
  then have "\<not> k < length (drop i (take n b))" using assms by simp
  with False show ?thesis by (simp add: look_def look_spec_def)
next
  case True
  have "and_m (map (\<lambda>(j, P). rdp b (i + j) P) ps) = Some (list_all (\<lambda>(j, P). P (b ! (i + j))) ps)"
    by (rule and_m_reads) (use assms True in \<open>auto simp: list_all_iff\<close>)
  moreover have "list_all (\<lambda>(j, P). P (b ! (i + j))) ps = list_all (\<lambda>(j, P). P (drop i (take n b) ! j)) ps"
    by (rule list.pred_cong [OF refl]) (use assms True in \<open>auto simp: list_all_iff\<close>)
  moreover have "k < length (drop i (take n b))" using True assms by simp
  ultimately show ?thesis using True by (simp only: look_def look_spec_def and_m_Some if_True simp_thms)
qed

lemma look_specD: "look_spec (drop i (take n b)) k ps \<Longrightarrow> i + k < n"
  by (auto simp: look_spec_def)

section \<open>Scanning loops\<close>

text \<open>\<^verbatim>\<open>while ((j < hi) && P(input[j])) j++;\<close>\<close>

function scan :: "(byte \<Rightarrow> bool) \<Rightarrow> bytes \<Rightarrow> nat \<Rightarrow> nat \<Rightarrow> nat option" where
  "scan P b hi j =
     (if j < hi then do { c \<leftarrow> rd b j; if P c then scan P b hi (Suc j) else Some j } else Some j)"
  by pat_completeness auto
termination
  by (relation "measure (\<lambda>(P, b, hi, j). hi - j)") auto

declare scan.simps [simp del]

lemma scan_run:
  assumes "hi \<le> length b" "j \<le> hi"
  shows "scan P b hi j = Some (j + length (takeWhile P (drop j (take hi b))))"
  using assms
proof (induction P b hi j rule: scan.induct)
  case (1 P b hi j)
  show ?case
  proof (cases "j < hi")
    case True
    then have "drop j (take hi b) = b ! j # drop (Suc j) (take hi b)"
      using "1.prems" by (simp add: Cons_nth_drop_Suc [symmetric])
    then show ?thesis
      using True 1 by (simp add: scan.simps [of P b hi j])
  next
    case False
    with "1.prems" show ?thesis by (simp add: scan.simps)
  qed
qed

text \<open>\<open>strtol\<close> on a string of digits of the base: the value of the longest prefix of valid
  digits, capped at \<^verbatim>\<open>LONG_MAX\<close> of a 64-bit \<^verbatim>\<open>long\<close>.\<close>

definition digit_val :: "byte \<Rightarrow> int" where
  "digit_val c =
     (if 48 \<le> c \<and> c \<le> 57 then uint c - 48
      else if 97 \<le> c \<and> c \<le> 122 then uint c - 87
      else if 65 \<le> c \<and> c \<le> 90 then uint c - 55
      else 99)"

fun strtol_acc :: "int \<Rightarrow> int \<Rightarrow> bytes \<Rightarrow> int" where
  "strtol_acc base acc [] = acc"
| "strtol_acc base acc (c # cs) =
     (if digit_val c < base then strtol_acc base (acc * base + digit_val c) cs else acc)"

definition strtol :: "bytes \<Rightarrow> int \<Rightarrow> int" where
  "strtol cs base = min (strtol_acc base 0 cs) (2 ^ 63 - 1)"

text \<open>The loop that collects up to three octal digits into \<^verbatim>\<open>char buf[4]\<close>; it stops after a digit
  that is not followed by another one. The byte it looks at may be the terminating NUL.\<close>

function octal_scan :: "bytes \<Rightarrow> nat \<Rightarrow> nat \<Rightarrow> nat \<Rightarrow> bytes \<Rightarrow> bytes option" where
  "octal_scan b n i j buf =
     (if i + 1 + j < n \<and> j < 3 then do {
        c \<leftarrow> rd b (i + 1 + j);
        next_c \<leftarrow> rd b (i + 1 + Suc j);
        if \<not> ISODIGIT next_c then Some (buf @ [c])
        else octal_scan b n i (Suc j) (buf @ [c]) }
      else Some buf)"
  by pat_completeness auto
termination
  by (relation "measure (\<lambda>(b, n, i, j, buf). 3 - j)") auto

declare octal_scan.simps [simp del]

definition octal_digits :: "bytes \<Rightarrow> bytes" where
  "octal_digits xs = takeWhile ISODIGIT (take 3 xs)"

lemma octal_scan_from:
  assumes "n < length b" "i + 1 + j \<le> n" "j \<le> 3" "i + 1 + j < n \<and> j < 3 \<longrightarrow> ISODIGIT (b ! (i + 1 + j))"
  shows "octal_scan b n i j buf =
     Some (buf @ takeWhile ISODIGIT (take (3 - j) (drop (i + 1 + j) (take n b))))"
  using assms
proof (induction b n i j buf rule: octal_scan.induct)
  case (1 b n i j buf)
  show ?case
  proof (cases "i + 1 + j < n \<and> j < 3")
    case False
    with "1.prems" show ?thesis by (subst octal_scan.simps) auto
  next
    case True
    let ?c = "b ! (i + 1 + j)" and ?d = "b ! (i + 1 + Suc j)"
    have xs: "take (3 - j) (drop (i + 1 + j) (take n b)) =
        ?c # take (3 - Suc j) (drop (i + 1 + Suc j) (take n b))"
      using True "1.prems"(1) by (simp add: Cons_nth_drop_Suc [symmetric] take_Cons' Suc_diff_Suc)
    have step: "octal_scan b n i j buf =
        (if \<not> ISODIGIT ?d then Some (buf @ [?c]) else octal_scan b n i (Suc j) (buf @ [?c]))"
      using True "1.prems"(1) by (subst octal_scan.simps) simp
    have stop: "takeWhile ISODIGIT (take (3 - Suc j) (drop (i + 1 + Suc j) (take n b))) = []"
      if "\<not> ISODIGIT ?d"
      using that True "1.prems"(1)
      by (cases "i + 1 + Suc j < n \<and> Suc j < 3")
         (auto simp: Cons_nth_drop_Suc [symmetric] take_Cons' not_less)
    show ?thesis
    proof (cases "ISODIGIT ?d")
      case False
      then show ?thesis using stop "1.prems" True unfolding step xs by simp
    next
      case dig: True
      have "octal_scan b n i (Suc j) (buf @ [?c]) =
          Some ((buf @ [?c]) @ takeWhile ISODIGIT (take (3 - Suc j) (drop (i + 1 + Suc j) (take n b))))"
        using "1.IH" [of ?c ?d] True dig "1.prems" by simp
      with dig show ?thesis using "1.prems" True unfolding step xs by simp
    qed
  qed
qed

lemma octal_scan_run:
  assumes "n < length b" "i + 1 < n" "ISODIGIT (b ! (i + 1))"
  shows "octal_scan b n i 0 [] = Some (octal_digits (drop (i + 1) (take n b)))"
  using octal_scan_from [of n b i 0 "[]"] assms by (simp add: octal_digits_def)

lemma octal_digits_bounds:
  assumes "1 < length xs" "ISODIGIT (xs ! 1)"
  shows "0 < length (octal_digits (drop 1 xs))" "length (octal_digits (drop 1 xs)) \<le> 3"
    "length (octal_digits (drop 1 xs)) < length xs"
proof -
  obtain x y zs where xs: "xs = x # y # zs" using assms(1) by (cases xs; cases "tl xs") auto
  then show "0 < length (octal_digits (drop 1 xs))" using assms(2) by (simp add: octal_digits_def)
  have "length (octal_digits (drop 1 xs)) \<le> length (take 3 (drop 1 xs))"
    unfolding octal_digits_def by (rule length_takeWhile_le)
  then show "length (octal_digits (drop 1 xs)) \<le> 3"
    "length (octal_digits (drop 1 xs)) < length xs" by (simp_all add: xs)
qed

section \<open>JavaScript\<close>

text \<open>\<^verbatim>\<open>\C\<close>: the control characters, every other character is itself.\<close>

definition js_escape :: "byte \<Rightarrow> byte" where
  "js_escape c =
     (if c = 97 then 7 else if c = 98 then 8 else if c = 102 then 12 else if c = 110 then 10
      else if c = 114 then 13 else if c = 116 then 9 else if c = 118 then 11 else c)"

text \<open>\<^verbatim>\<open>while (i < input_len) { *d++ = input[i++]; count++; }\<close>\<close>

function copy_rest :: "nat \<Rightarrow> 'u lstate \<Rightarrow> 'u lstate option" where
  "copy_rest n (u, b, i, d, count) =
     (if i < n then do {
        c \<leftarrow> rd b i;
        b \<leftarrow> wr b d c;
        copy_rest n (u, b, i + 1, d + 1, count + 1) }
      else Some (u, b, i, d, count))"
  by pat_completeness auto
termination
  by (relation "measure (\<lambda>(n, u, b, i, d, count). n - i)") auto

declare copy_rest.simps [simp del]

definition js_buf :: "bytes \<Rightarrow> bytes" where
  "js_buf buf = (if length buf = 3 \<and> hd buf > 51 then take 2 buf else buf)"

fun js_decode_body :: "nat \<Rightarrow> 'u lstate \<Rightarrow> 'u lstate option" where
  "js_decode_body n (u, b, i, d, count) = do {
     c \<leftarrow> rd b i;
     if c = 92 then do {
       is_u \<leftarrow> look b n i 5 [(1, \<lambda>c. c = 117), (2, VALID_HEX), (3, VALID_HEX), (4, VALID_HEX), (5, VALID_HEX)];
       is_x \<leftarrow> (if is_u then Some False
                else look b n i 3 [(1, \<lambda>c. c = 120), (2, VALID_HEX), (3, VALID_HEX)]);
       is_o \<leftarrow> (if is_u \<or> is_x then Some False else look b n i 1 [(1, ISODIGIT)]);
       if is_u then do {
         v \<leftarrow> x2c b (i + 4);
         b \<leftarrow> wr b d v;
         b \<leftarrow> full_width_fix b d (i + 2) (i + 3);
         Some (u, b, i + 6, d + 1, count + 1) }
       else if is_x then do {
         v \<leftarrow> x2c b (i + 2);
         b \<leftarrow> wr b d v;
         Some (u, b, i + 4, d + 1, count + 1) }
       else if is_o then do {
         buf \<leftarrow> octal_scan b n i 0 [];
         if buf = [] then Some (u, b, i, d, count)
         else do {
           b \<leftarrow> wr b d (word_of_int (strtol (js_buf buf) 8));
           Some (u, b, i + 1 + length (js_buf buf), d + 1, count + 1) } }
       else if i + 1 < n then do {
         c1 \<leftarrow> rd b (i + 1);
         b \<leftarrow> wr b d (js_escape c1);
         Some (u, b, i + 2, d + 1, count + 1) }
       else copy_rest n (u, b, i, d, count) }
     else do {
       b \<leftarrow> wr b d c;
       Some (u, b, i + 1, d + 1, count + 1) } }"

definition js_decode_nonstrict_inplace :: "bytes option \<Rightarrow> nat \<Rightarrow> (int \<times> bytes option) option" where
  "js_decode_nonstrict_inplace input input_len =
     (case input of
        None \<Rightarrow> Some (-1, None)
      | Some b \<Rightarrow> do {
          (u, b, i, d, count) \<leftarrow>
            inplace_loop (below input_len) (js_decode_body input_len) ((), b, 0, 0, 0);
          b \<leftarrow> wr b d 0;
          Some (int count, Some b) })"

definition js_step :: "'u tstep" where
  "js_step u xs =
     (if xs ! 0 = 92 then
        if look_spec xs 5 [(1, \<lambda>c. c = 117), (2, VALID_HEX), (3, VALID_HEX), (4, VALID_HEX), (5, VALID_HEX)]
        then (u, 6, [full_width (x2c_val (xs ! 4) (xs ! 5)) (xs ! 2) (xs ! 3)])
        else if look_spec xs 3 [(1, \<lambda>c. c = 120), (2, VALID_HEX), (3, VALID_HEX)]
        then (u, 4, [x2c_val (xs ! 2) (xs ! 3)])
        else if look_spec xs 1 [(1, ISODIGIT)]
        then let buf = js_buf (octal_digits (drop 1 xs)) in (u, 1 + length buf, [word_of_int (strtol buf 8)])
        else if 1 < length xs then (u, 2, [js_escape (xs ! 1)])
        else (u, 1, [92])
      else (u, 1, [xs ! 0]))"

lemma js_buf_bounds: "buf \<noteq> [] \<Longrightarrow> 0 < length (js_buf buf) \<and> length (js_buf buf) \<le> length buf"
  by (auto simp: js_buf_def)

lemma wr_blit: "d < length b \<Longrightarrow> wr b d v = Some (blit b d [v])"
  by (simp add: blit_single)

interpretation js: inplace_decoder below js_decode_body js_step
proof
  fix n i d count :: nat and s s' :: 'u and b out xs :: bytes and k :: nat
  show "below n (s, b, i, d, count) \<longleftrightarrow> i < n" by simp
  show "0 < k \<and> length out \<le> k \<and> length out \<le> length xs"
    if "xs \<noteq> []" "js_step s xs = (s', k, out)"
    using that by (cases xs) (auto simp: js_step_def Let_def split: if_splits)
  show "js_decode_body n (s, b, i, d, count) =
      Some (s', blit b d out, i + k, d + length out, count + length out)"
    if i: "i < n" and n: "n < length b" and d: "d \<le> i"
      and st: "js_step s (drop i (take n b)) = (s', k, out)"
  proof -
    let ?xs = "drop i (take n b)"
    have look: "look b n i k ps = Some (look_spec ?xs k ps)" if "list_all (\<lambda>(j, P). j \<le> k) ps" for k ps
      using look_run [OF n _ that] i by simp
    have x: "?xs ! j = b ! (i + j)" if "i + j < n" for j using that n by simp
    have r: "rd b i = Some (?xs ! 0)" "?xs ! 0 = b ! i" using i n by simp_all
    have w: "wr b d v = Some (blit b d [v])" for v using i n d by (intro wr_blit) simp
    show ?thesis
    proof (cases "?xs ! 0 = 92")
      case False
      then show ?thesis using st by (auto simp: js_step_def r(1) w)
    next
      case esc: True
      let ?u = "look_spec ?xs 5 [(1, \<lambda>c. c = 117), (2, VALID_HEX), (3, VALID_HEX), (4, VALID_HEX), (5, VALID_HEX)]"
      let ?x = "look_spec ?xs 3 [(1, \<lambda>c. c = 120), (2, VALID_HEX), (3, VALID_HEX)]"
      let ?o = "look_spec ?xs 1 [(1, ISODIGIT)]"
      note start = js_decode_body.simps r(1) look esc
      consider (u) "?u" | (x) "\<not> ?u" "?x" | (oct) "\<not> ?u" "\<not> ?x" "?o"
        | (c) "\<not> ?u" "\<not> ?x" "\<not> ?o" "i + 1 < n" | (last) "\<not> ?u" "\<not> ?x" "\<not> ?o" "\<not> i + 1 < n"
        by blast
      then show ?thesis
      proof cases
        case u
        then have "i + 5 < n" by (auto dest: look_specD)
        then have "x2c b (i + 4) = Some (x2c_val (?xs ! 4) (?xs ! 5))"
          "full_width_fix (blit b d [v]) d (i + 2) (i + 3) = Some (blit b d [full_width v (?xs ! 2) (?xs ! 3)])" for v
          using n d full_width_fix_run [of d "i + 2" "i + 3" b v] by (simp_all add: x x2c_def add.commute)
        then show ?thesis using st u esc by (auto simp: start js_step_def w)
      next
        case x
        then have "i + 3 < n" by (auto dest: look_specD)
        then have "x2c b (i + 2) = Some (x2c_val (?xs ! 2) (?xs ! 3))"
          using n by (simp add: \<open>\<And>j. i + j < n \<Longrightarrow> ?xs ! j = b ! (i + j)\<close> x2c_def numeral_3_eq_3)
        then show ?thesis using st x esc by (auto simp: start js_step_def w)
      next
        case oct
        then have o: "i + 1 < n" by (auto dest: look_specD)
        with oct have "ISODIGIT (b ! (i + 1))" by (simp add: look_spec_def x)
        then have "octal_scan b n i 0 [] = Some (octal_digits (drop 1 ?xs))" "octal_digits (drop 1 ?xs) \<noteq> []"
          using octal_scan_run [OF n] o octal_digits_bounds(1) [of ?xs] n by (simp_all add: x)
        then show ?thesis using st oct esc by (auto simp: start js_step_def w Let_def)
      next
        case c
        then have "rd b (i + 1) = Some (?xs ! 1)" "1 < length ?xs" using n by (simp_all add: x less_diff_conv)
        then show ?thesis using st c esc n by (auto simp: start js_step_def w)
      next
        case last
        have "copy_rest n (s, b, i, d, count) = Some (s, blit b d [92], i + 1, d + 1, count + 1)"
          using last i n r esc w by (subst copy_rest.simps) (simp add: copy_rest.simps)
        moreover have "\<not> 1 < length ?xs" using last by (simp add: less_diff_conv)
        ultimately show ?thesis using st last esc i n by (auto simp: start js_step_def)
      qed
    qed
  qed
qed

definition js_decoded :: "bytes \<Rightarrow> bytes" where
  "js_decoded xs = snd (transduce js_step () xs)"

lemma js_decode_run:
  assumes "n < length b" "b ! n = 0"
  shows "js_decode_nonstrict_inplace (Some b) n =
     (let out = js_decoded (take n b) in
      Some (int (length out), Some (out @ 0 # drop (Suc (length out)) b)))"
proof -
  obtain i' where "inplace_loop (below n) (js_decode_body n) ((), b, 0, 0, 0) =
      Some ((), blit b 0 (js_decoded (take n b)), i', length (js_decoded (take n b)), length (js_decoded (take n b)))"
    and "length (js_decoded (take n b)) \<le> n"
    using js.loop_run [OF assms, of "()"] by (auto simp: js_decoded_def case_prod_beta)
  then show ?thesis
    using assms(1) by (simp add: js_decode_nonstrict_inplace_def wr_terminate Let_def del: wr_in)
qed

lemma js_decoded_plain: "92 \<notin> set xs \<Longrightarrow> js_decoded xs = xs"
  using transduce_id [of 92 js_step "()" xs] by (simp add: js_decoded_def js_step_def)

section \<open>ANSI C\<close>

definition ansi_simple :: "byte \<Rightarrow> int" where
  "ansi_simple c =
     (if c = 97 then 7 else if c = 98 then 8 else if c = 102 then 12 else if c = 110 then 10
      else if c = 114 then 13 else if c = 116 then 9 else if c = 118 then 11 else if c = 92 then 92
      else if c = 63 then 63 else if c = 39 then 39 else if c = 34 then 34 else -1)"

fun ansi_c_body :: "nat \<Rightarrow> 'u lstate \<Rightarrow> 'u lstate option" where
  "ansi_c_body n (u, b, i, d, count) = do {
     c0 \<leftarrow> rd b i;
     if c0 = 92 \<and> i + 1 < n then do {
       c1 \<leftarrow> rd b (i + 1);
       (c, i') \<leftarrow>
         (if ansi_simple c1 \<noteq> -1 then Some (ansi_simple c1, i + 2)
          else if c1 = 120 \<or> c1 = 88 then do {
            hex \<leftarrow> look b n i 3 [(2, c_isxdigit), (3, c_isxdigit)];
            if hex then do { v \<leftarrow> x2c b (i + 2); Some (uint v, i + 4) } else Some (-1, i) }
          else if ISODIGIT c1 then do {
            buf \<leftarrow> octal_scan b n i 0 [];
            if buf = [] then Some (-1, i) else Some (strtol buf 8, i + 1 + length buf) }
          else Some (-1, i));
       if c = -1 then do {
         c1 \<leftarrow> rd b (i' + 1);
         b \<leftarrow> wr b d c1;
         Some (u, b, i' + 2, d + 1, count + 1) }
       else do {
         b \<leftarrow> wr b d (word_of_int c);
         Some (u, b, i', d + 1, count + 1) } }
     else do {
       b \<leftarrow> wr b d c0;
       Some (u, b, i + 1, d + 1, count + 1) } }"

definition ansi_c_sequences_decode_inplace :: "bytes \<Rightarrow> nat \<Rightarrow> (nat \<times> bytes) option" where
  "ansi_c_sequences_decode_inplace b input_len = do {
     (u, b, i, d, count) \<leftarrow>
       inplace_loop (below input_len) (ansi_c_body input_len) ((), b, 0, 0, 0);
     b \<leftarrow> wr b d 0;
     Some (count, b) }"

definition ansi_code :: "bytes \<Rightarrow> int \<times> nat" where
  "ansi_code xs =
     (let c1 = xs ! 1 in
      if ansi_simple c1 \<noteq> -1 then (ansi_simple c1, 2)
      else if c1 = 120 \<or> c1 = 88 then
        if look_spec xs 3 [(2, c_isxdigit), (3, c_isxdigit)]
        then (uint (x2c_val (xs ! 2) (xs ! 3)), 4) else (-1, 2)
      else if ISODIGIT c1 then
        let buf = octal_digits (drop 1 xs) in (strtol buf 8, 1 + length buf)
      else (-1, 2))"

definition ansi_c_step :: "'u tstep" where
  "ansi_c_step u xs =
     (if xs ! 0 = 92 \<and> 1 < length xs then
        case ansi_code xs of (c, k) \<Rightarrow>
          if c = -1 then (u, 2, [xs ! 1]) else (u, k, [word_of_int c])
      else (u, 1, [xs ! 0]))"

lemma digit_val_nonneg: "0 \<le> digit_val c"
  by (auto simp: digit_val_def word_le_def)

lemma strtol_acc_nonneg: "0 \<le> base \<Longrightarrow> 0 \<le> acc \<Longrightarrow> 0 \<le> strtol_acc base acc cs"
  by (induction cs arbitrary: acc) (auto simp: digit_val_nonneg)

lemma strtol_nonneg: "0 \<le> base \<Longrightarrow> 0 \<le> strtol cs base"
  by (simp add: strtol_def strtol_acc_nonneg)

interpretation ac: inplace_decoder below ansi_c_body ansi_c_step
proof
  fix n i d count :: nat and s s' :: 'u and b out xs :: bytes and k :: nat
  show "below n (s, b, i, d, count) \<longleftrightarrow> i < n" by simp
  show "0 < k \<and> length out \<le> k \<and> length out \<le> length xs"
    if "xs \<noteq> []" "ansi_c_step s xs = (s', k, out)"
    using that by (cases xs) (auto simp: ansi_c_step_def ansi_code_def Let_def split: if_splits)
  show "ansi_c_body n (s, b, i, d, count) =
      Some (s', blit b d out, i + k, d + length out, count + length out)"
    if i: "i < n" and n: "n < length b" and d: "d \<le> i"
      and st: "ansi_c_step s (drop i (take n b)) = (s', k, out)"
  proof -
    let ?xs = "drop i (take n b)"
    have look: "look b n i k ps = Some (look_spec ?xs k ps)" if "list_all (\<lambda>(j, P). j \<le> k) ps" for k ps
      using look_run [OF n _ that] i by simp
    have r: "rd b i = Some (?xs ! 0)" using i n by simp
    have w: "wr b d v = Some (blit b d [v])" for v using i n d by (intro wr_blit) simp
    show ?thesis
    proof (cases "?xs ! 0 = 92 \<and> i + 1 < n")
      case False
      then have "\<not> (?xs ! 0 = 92 \<and> 1 < length ?xs)" using n by auto
      then show ?thesis using st False unfolding ansi_c_step_def by (auto simp: r w)
    next
      case True
      then have len: "1 < length ?xs" "i + 1 < n" using n by auto
      let ?c1 = "?xs ! 1"
      have r1: "rd b (i + 1) = Some ?c1" using len n by simp
      have oct: "octal_scan b n i 0 [] = Some (octal_digits (drop 1 ?xs))" "octal_digits (drop 1 ?xs) \<noteq> []"
        if "ISODIGIT ?c1"
        using that octal_scan_run [OF n, of i] octal_digits_bounds(1) [of ?xs] len n by simp_all
      have hex: "x2c b (i + 2) = Some (x2c_val (?xs ! 2) (?xs ! 3))"
        if "look_spec ?xs 3 [(2, c_isxdigit), (3, c_isxdigit)]"
        using look_specD [OF that] n by (simp add: x2c_def numeral_3_eq_3)
      have nn: "strtol buf 8 \<noteq> -1" for buf using strtol_nonneg [of 8 buf] by auto
      have un: "uint (v :: byte) \<noteq> -1" for v using uint_ge_0 [of v] by linarith
      have code: "(if ansi_simple ?c1 \<noteq> -1 then Some (ansi_simple ?c1, i + 2)
          else if ?c1 = 120 \<or> ?c1 = 88 then do {
            hex \<leftarrow> look b n i 3 [(2, c_isxdigit), (3, c_isxdigit)];
            if hex then do { v \<leftarrow> x2c b (i + 2); Some (uint v, i + 4) } else Some (-1, i) }
          else if ISODIGIT ?c1 then do {
            buf \<leftarrow> octal_scan b n i 0 [];
            if buf = [] then Some (-1, i) else Some (strtol buf 8, i + 1 + length buf) }
          else Some (-1, i)) =
        (case ansi_code ?xs of (c, k) \<Rightarrow> Some (c, if c = -1 then i else i + k))" (is "?code = _")
        using hex oct nn un unfolding ansi_code_def Let_def
        by (simp del: nth_drop nth_take One_nat_def add: look)
      obtain c k' where ck: "ansi_code ?xs = (c, k')" by (cases "ansi_code ?xs")
      have "ansi_c_body n (s, b, i, d, count) =
         (if c = -1 then Some (s, blit b d [?c1], i + 2, d + 1, count + 1)
          else Some (s, blit b d [word_of_int c], i + k', d + 1, count + 1))"
        unfolding ansi_c_body.simps r Option.bind.bind_lunit using True
        by (simp only: simp_thms if_True r1 Option.bind.bind_lunit code ck prod.case) (simp add: r1 w del: wr_in rd_in nth_drop nth_take add: r1 [simplified])
      then show ?thesis
        using st True len unfolding ansi_c_step_def by (auto simp: ck split: if_splits)
    qed
  qed
qed

definition ansi_c_decoded :: "bytes \<Rightarrow> bytes" where
  "ansi_c_decoded xs = snd (transduce ansi_c_step () xs)"

lemma ansi_c_run:
  assumes "n < length b" "b ! n = 0"
  shows "ansi_c_sequences_decode_inplace b n =
     (let out = ansi_c_decoded (take n b) in
      Some (length out, out @ 0 # drop (Suc (length out)) b))"
proof -
  obtain i' where "inplace_loop (below n) (ansi_c_body n) ((), b, 0, 0, 0) =
      Some ((), blit b 0 (ansi_c_decoded (take n b)), i', length (ansi_c_decoded (take n b)),
            length (ansi_c_decoded (take n b)))"
    and "length (ansi_c_decoded (take n b)) \<le> n"
    using ac.loop_run [OF assms, of "()"] by (auto simp: ansi_c_decoded_def case_prod_beta)
  then show ?thesis
    using assms(1) by (simp add: ansi_c_sequences_decode_inplace_def wr_terminate Let_def del: wr_in)
qed

lemma ansi_c_decoded_plain: "92 \<notin> set xs \<Longrightarrow> ansi_c_decoded xs = xs"
  using transduce_id [of 92 ansi_c_step "()" xs] by (simp add: ansi_c_decoded_def ansi_c_step_def)

section \<open>Properties\<close>

lemma js_decoded_length: "length (js_decoded xs) \<le> length xs"
  unfolding js_decoded_def by (rule js.length_transduce)

lemma ansi_c_decoded_length: "length (ansi_c_decoded xs) \<le> length xs"
  unfolding ansi_c_decoded_def by (rule ac.length_transduce)

text \<open>
  \<open>js_decode_nonstrict_inplace\<close> never leaves its buffer, whatever the input; it writes
  \<open>js_decoded\<close>, NUL-terminated and not longer than the input, and returns its length.
\<close>

theorem js_decode_correct:
  "js_decode_nonstrict_inplace (Some (xs @ 0 # rest)) (length xs) =
     Some (int (length (js_decoded xs)),
           Some (js_decoded xs @ 0 # drop (Suc (length (js_decoded xs))) (xs @ 0 # rest))) \<and>
   length (js_decoded xs) \<le> length xs"
  using js_decode_run [of "length xs" "xs @ 0 # rest"] js_decoded_length [of xs]
  by (simp add: Let_def del: drop_append)

text \<open>
  the same for \<open>ansi_c_sequences_decode_inplace\<close>: although it looks ahead for octal and
  hexadecimal digits and skips the byte behind an unknown escape, it never leaves its buffer.
\<close>

theorem ansi_c_decode_correct:
  "ansi_c_sequences_decode_inplace (xs @ 0 # rest) (length xs) =
     Some (length (ansi_c_decoded xs),
           ansi_c_decoded xs @ 0 # drop (Suc (length (ansi_c_decoded xs))) (xs @ 0 # rest)) \<and>
   length (ansi_c_decoded xs) \<le> length xs"
  using ansi_c_run [of "length xs" "xs @ 0 # rest"] ansi_c_decoded_length [of xs]
  by (simp add: Let_def del: drop_append)

end
