(* ===== verification/LogEscape.thy ===== *)
theory LogEscape
  imports EscapeDecoders
begin

text \<open>
  The log escaping of \<^verbatim>\<open>apache2/msc_util.c\<close>: \<open>_log_escape\<close> and its entry points
  (\<open>log_escape\<close>, \<open>log_escape_re\<close>, \<open>log_escape_nq\<close> and the two with an explicit length),
  \<open>log_escape_raw\<close>, \<open>log_escape_nul\<close> and \<open>log_escape_hex\<close>. All of them append to a block of
  \<^verbatim>\<open>len * 4 + 1\<close> bytes. Every one but \<open>log_escape_nul\<close> is undone by \<open>js_decode_nonstrict_inplace\<close>.
\<close>

section \<open>The escape functions\<close>

definition put1 :: "byte \<Rightarrow> bytes \<Rightarrow> nat \<Rightarrow> (unit \<times> bytes \<times> nat) option" where
  "put1 c ret d = do { ret \<leftarrow> wr ret d c; Some ((), ret, d + 1) }"

definition put2 :: "byte \<Rightarrow> bytes \<Rightarrow> nat \<Rightarrow> (unit \<times> bytes \<times> nat) option" where
  "put2 e ret d = do { ret \<leftarrow> wr ret d 92; ret \<leftarrow> wr ret (d + 1) e; Some ((), ret, d + 2) }"

definition put_hex :: "byte \<Rightarrow> bytes \<Rightarrow> nat \<Rightarrow> (unit \<times> bytes \<times> nat) option" where
  "put_hex c ret d = do {
     ret \<leftarrow> wr ret d 92;
     ret \<leftarrow> wr ret (d + 1) 120;
     ret \<leftarrow> c2x c ret (d + 2);
     Some ((), ret, d + 4) }"

text \<open>The \<^verbatim>\<open>switch\<close> of \<open>_log_escape\<close>, case by case.\<close>

definition log_escape_body ::
  "bool \<Rightarrow> bool \<Rightarrow> bool \<Rightarrow> bytes \<Rightarrow> nat \<Rightarrow> unit estate \<Rightarrow> unit estate option"
where
  "log_escape_body escape_quotes escape_colon escape_re input i = (\<lambda>(u, ret, d). do {
     c \<leftarrow> rd input i;
     if c = 58 then (if escape_colon then put2 58 ret d else put1 c ret d)
     else if c = 34 then (if escape_quotes then put2 34 ret d else put1 c ret d)
     else if c = 43 then (if escape_re then put2 43 ret d else put1 c ret d)
     else if c = 46 then (if escape_re then put2 46 ret d else put1 c ret d)
     else if c = 93 then (if escape_re then put2 93 ret d else put1 c ret d)
     else if c = 91 then (if escape_re then put2 91 ret d else put1 c ret d)
     else if c = 40 then (if escape_re then put2 40 ret d else put1 c ret d)
     else if c = 41 then (if escape_re then put2 41 ret d else put1 c ret d)
     else if c = 63 then (if escape_re then put2 63 ret d else put1 c ret d)
     else if c = 47 then (if escape_re then put2 47 ret d else put1 c ret d)
     else if c = 8 then put2 98 ret d
     else if c = 10 then put2 110 ret d
     else if c = 13 then put2 114 ret d
     else if c = 9 then put2 116 ret d
     else if c = 11 then put2 118 ret d
     else if c = 92 then put2 92 ret d
     else if c \<le> 0x1f \<or> 0x7f \<le> c then put_hex c ret d
     else put1 c ret d })"

definition log_escape_impl ::
  "(nat \<Rightarrow> byte) \<Rightarrow> bytes option \<Rightarrow> nat \<Rightarrow> bool \<Rightarrow> bool \<Rightarrow> bool \<Rightarrow> bytes option option"
where
  "log_escape_impl junk input input_len escape_quotes escape_colon escape_re =
     (case input of
        None \<Rightarrow> Some None
      | Some b \<Rightarrow> do {
          let ret = apr_palloc junk (input_len * 4 + 1);
          (u, ret, d) \<leftarrow> for_m 0 input_len (log_escape_body escape_quotes escape_colon escape_re b) ((), ret, 0);
          ret \<leftarrow> wr ret d 0;
          Some (Some ret) })"

text \<open>\<^verbatim>\<open>text ? strlen(text) : 0\<close>\<close>

definition text_len :: "bytes option \<Rightarrow> nat option" where
  "text_len text = (case text of None \<Rightarrow> Some 0 | Some b \<Rightarrow> map_option length (c_str b))"

definition log_escape_re :: "(nat \<Rightarrow> byte) \<Rightarrow> bytes option \<Rightarrow> bytes option option" where
  "log_escape_re junk text = do { l \<leftarrow> text_len text; log_escape_impl junk text l True True True }"

definition log_escape :: "(nat \<Rightarrow> byte) \<Rightarrow> bytes option \<Rightarrow> bytes option option" where
  "log_escape junk text = do { l \<leftarrow> text_len text; log_escape_impl junk text l True False False }"

definition log_escape_nq :: "(nat \<Rightarrow> byte) \<Rightarrow> bytes option \<Rightarrow> bytes option option" where
  "log_escape_nq junk text = do { l \<leftarrow> text_len text; log_escape_impl junk text l False False False }"

definition log_escape_ex :: "(nat \<Rightarrow> byte) \<Rightarrow> bytes option \<Rightarrow> nat \<Rightarrow> bytes option option" where
  "log_escape_ex junk text text_length = log_escape_impl junk text text_length True False False"

definition log_escape_nq_ex :: "(nat \<Rightarrow> byte) \<Rightarrow> bytes option \<Rightarrow> nat \<Rightarrow> bytes option option" where
  "log_escape_nq_ex junk text text_length = log_escape_impl junk text text_length False False False"

text \<open>The bodies of the three other loops.\<close>

definition log_escape_raw_body :: "bytes \<Rightarrow> nat \<Rightarrow> unit estate \<Rightarrow> unit estate option" where
  "log_escape_raw_body input i = (\<lambda>(u, ret, j). do { c \<leftarrow> rd input i; put_hex c ret j })"

definition log_escape_raw :: "(nat \<Rightarrow> byte) \<Rightarrow> bytes \<Rightarrow> nat \<Rightarrow> bytes option" where
  "log_escape_raw junk input text_length = do {
     let ret = apr_palloc junk (text_length * 4 + 1);
     (u, ret, j) \<leftarrow> for_m 0 text_length (log_escape_raw_body input) ((), ret, 0);
     wr ret (text_length * 4) 0 }"

definition log_escape_nul_body :: "bytes \<Rightarrow> nat \<Rightarrow> unit estate \<Rightarrow> unit estate option" where
  "log_escape_nul_body input i = (\<lambda>(u, ret, j). do {
     c \<leftarrow> rd input i;
     if c = 0 then put_hex c ret j else put1 c ret j })"

definition log_escape_nul :: "(nat \<Rightarrow> byte) \<Rightarrow> bytes \<Rightarrow> nat \<Rightarrow> bytes option" where
  "log_escape_nul junk input text_length = do {
     let ret = apr_palloc junk (text_length * 4 + 1);
     (u, ret, j) \<leftarrow> for_m 0 text_length (log_escape_nul_body input) ((), ret, 0);
     wr ret j 0 }"

definition hexlog_special :: "byte \<Rightarrow> bool" where
  "hexlog_special c \<longleftrightarrow> c = 34 \<or> c = 92 \<or> c \<le> 0x1f \<or> 0x7f \<le> c"

definition log_escape_hex_body :: "bytes \<Rightarrow> nat \<Rightarrow> unit estate \<Rightarrow> unit estate option" where
  "log_escape_hex_body input i = (\<lambda>(u, ret, j). do {
     c \<leftarrow> rd input i;
     if hexlog_special c then put_hex c ret j else put1 c ret j })"

definition log_escape_hex :: "(nat \<Rightarrow> byte) \<Rightarrow> bytes \<Rightarrow> nat \<Rightarrow> bytes option" where
  "log_escape_hex junk input text_length = do {
     let ret = apr_palloc junk (text_length * 4 + 1);
     (u, ret, j) \<leftarrow> for_m 0 text_length (log_escape_hex_body input) ((), ret, 0);
     wr ret j 0 }"

section \<open>What they append\<close>

definition hex_esc :: "byte \<Rightarrow> bytes" where
  "hex_esc c = [92, 120, c2x_hi c, c2x_lo c]"

definition re_special :: "byte set" where
  "re_special = {43, 46, 93, 91, 40, 41, 63, 47}"

definition log_emit :: "bool \<Rightarrow> bool \<Rightarrow> bool \<Rightarrow> byte \<Rightarrow> bytes" where
  "log_emit q col re c =
     (if c = 58 \<and> col \<or> c = 34 \<and> q \<or> c \<in> re_special \<and> re \<or> c = 92 then [92, c]
      else if c = 8 then [92, 98]
      else if c = 10 then [92, 110]
      else if c = 13 then [92, 114]
      else if c = 9 then [92, 116]
      else if c = 11 then [92, 118]
      else if c \<le> 0x1f \<or> 0x7f \<le> c then hex_esc c
      else [c])"

definition nul_emit :: "byte \<Rightarrow> bytes" where
  "nul_emit c = (if c = 0 then hex_esc c else [c])"

definition hexlog_emit :: "byte \<Rightarrow> bytes" where
  "hexlog_emit c = (if hexlog_special c then hex_esc c else [c])"

lemma put1_blit: "d + 1 < length ret \<Longrightarrow> put1 c ret d = Some ((), blit ret d [c], d + 1)"
  by (simp add: put1_def blit_single)

lemma put2_blit: "d + 2 < length ret \<Longrightarrow> put2 e ret d = Some ((), blit ret d [92, e], d + 2)"
  using blit_blit [of d "[92]" ret "[e]"] by (simp add: put2_def blit_single)

lemma put_hex_blit: "d + 4 < length ret \<Longrightarrow> put_hex c ret d = Some ((), blit ret d (hex_esc c), d + 4)"
  using blit_blit [of d "[92]" ret "[120]"] blit_blit [of d "[92, 120]" ret "[c2x_hi c, c2x_lo c]"]
  by (simp add: put_hex_def blit_single hex_esc_def)

lemma length_hex_esc [simp]: "length (hex_esc c) = 4"
  by (simp add: hex_esc_def)

lemma length_log_emit: "length (log_emit q col re c) \<le> 4"
  by (simp add: log_emit_def)

text \<open>All four loops are encoders without local state.\<close>

definition emit_of :: "(byte \<Rightarrow> bytes) \<Rightarrow> unit \<Rightarrow> byte \<Rightarrow> unit \<times> bytes" where
  "emit_of f u c = (u, f c)"

interpretation le: byte_encoder "log_escape_body q col re" "emit_of (log_emit q col re)"
  for q col re
proof
  fix i :: nat and src dst out :: bytes and s s' :: unit and d :: nat
  assume i: "i < length src" and e: "emit_of (log_emit q col re) s (src ! i) = (s', out)"
    and d: "d + length out < length dst"
  define c where "c = src ! i"
  have out: "out = log_emit q col re c" using e by (simp add: emit_of_def c_def)
  have r: "rd src i = Some c" using i by (simp add: c_def)
  have fits: "length out = 1 \<Longrightarrow> put1 c dst d = Some ((), blit dst d [c], d + 1)"
    "length out = 2 \<Longrightarrow> put2 v dst d = Some ((), blit dst d [92, v], d + 2)"
    "length out = 4 \<Longrightarrow> put_hex c dst d = Some ((), blit dst d (hex_esc c), d + 4)" for v
    using d put1_blit [of d dst c] put2_blit [of d dst v] put_hex_blit [of d dst c] by simp_all
  have dispatch: "log_escape_body q col re src i (s, dst, d) =
      (if length (log_emit q col re c) = 1 then put1 c dst d
       else if length (log_emit q col re c) = 2 then put2 (log_emit q col re c ! 1) dst d
       else put_hex c dst d)"
    unfolding log_escape_body_def prod.case r Option.bind.bind_lunit
    by (auto simp: log_emit_def re_special_def)
  have out': "out = (if length (log_emit q col re c) = 1 then [c]
       else if length (log_emit q col re c) = 2 then [92, log_emit q col re c ! 1] else hex_esc c)"
    by (auto simp: out log_emit_def)
  show "log_escape_body q col re src i (s, dst, d) = Some (s', blit dst d out, d + length out)"
    using d put1_blit [of d dst c] put2_blit [of d dst "log_emit q col re c ! 1"] put_hex_blit [of d dst c]
    unfolding dispatch out' by (simp split: if_splits)
qed

interpretation lraw: byte_encoder log_escape_raw_body "emit_of hex_esc"
proof
  fix i :: nat and src dst out :: bytes and s s' :: unit and d :: nat
  assume "i < length src" "emit_of hex_esc s (src ! i) = (s', out)" "d + length out < length dst"
  then show "log_escape_raw_body src i (s, dst, d) = Some (s', blit dst d out, d + length out)"
    by (auto simp: log_escape_raw_body_def emit_of_def put_hex_blit)
qed

interpretation lnul: byte_encoder log_escape_nul_body "emit_of nul_emit"
proof
  fix i :: nat and src dst out :: bytes and s s' :: unit and d :: nat
  assume "i < length src" "emit_of nul_emit s (src ! i) = (s', out)" "d + length out < length dst"
  then show "log_escape_nul_body src i (s, dst, d) = Some (s', blit dst d out, d + length out)"
    by (auto simp: log_escape_nul_body_def emit_of_def nul_emit_def put_hex_blit put1_blit split: if_splits)
qed

interpretation lhex: byte_encoder log_escape_hex_body "emit_of hexlog_emit"
proof
  fix i :: nat and src dst out :: bytes and s s' :: unit and d :: nat
  assume "i < length src" "emit_of hexlog_emit s (src ! i) = (s', out)" "d + length out < length dst"
  then show "log_escape_hex_body src i (s, dst, d) = Some (s', blit dst d out, d + length out)"
    by (auto simp: log_escape_hex_body_def emit_of_def hexlog_emit_def put_hex_blit put1_blit split: if_splits)
qed

lemma emit_of_encode: "snd (encode (emit_of f) s xs) = concat (map f xs)"
  by (rule encode_stateless) (simp add: emit_of_def)

lemma emit_of_length: "(\<And>c. length (f c) \<le> 4) \<Longrightarrow> length (concat (map f xs)) \<le> 4 * length xs"
proof (induction xs)
  case Nil
  show ?case by simp
next
  case (Cons c cs)
  then show ?case using add_mono [OF Cons.prems [of c] Cons.IH [OF Cons.prems]] by simp
qed

text \<open>The common end of the four functions: run the loop, then terminate.\<close>

lemma encode_block:
  assumes "\<And>c. length (f c) \<le> 4" "n \<le> length src"
    and run: "length (snd (encode (emit_of f) () (take n src))) < length dst \<Longrightarrow>
      for_m 0 n body ((), dst, 0) =
        (case encode (emit_of f) () (take n src) of (s', out) \<Rightarrow> Some (s', blit dst 0 out, length out))"
    and dst: "dst = apr_palloc junk (n * 4 + 1)"
  shows "for_m 0 n body ((), dst, 0) =
      Some ((), blit dst 0 (concat (map f (take n src))), length (concat (map f (take n src))))"
    "\<exists>tail. wr (blit dst 0 (concat (map f (take n src)))) (length (concat (map f (take n src)))) 0 =
      Some (concat (map f (take n src)) @ 0 # tail)"
proof -
  let ?out = "concat (map f (take n src))"
  have len: "length ?out < length dst"
    using emit_of_length [of f "take n src", OF assms(1)] assms(2) dst by simp
  show "for_m 0 n body ((), dst, 0) = Some ((), blit dst 0 ?out, length ?out)"
    using run len emit_of_encode [of f "()" "take n src"] by (simp add: case_prod_beta)
  show "\<exists>tail. wr (blit dst 0 ?out) (length ?out) 0 = Some (?out @ 0 # tail)"
    using wr_terminate [OF len] by blast
qed

lemma log_escape_impl_run:
  "n \<le> length b \<Longrightarrow>
   \<exists>tail. log_escape_impl junk (Some b) n q col re =
     Some (Some (concat (map (log_emit q col re) (take n b)) @ 0 # tail))"
  using encode_block [OF length_log_emit _ le.loop_run refl, of n b q col re junk]
  by (auto simp: log_escape_impl_def Let_def simp del: wr_in)

lemma log_escape_hex_run:
  "n \<le> length b \<Longrightarrow> \<exists>tail. log_escape_hex junk b n = Some (concat (map hexlog_emit (take n b)) @ 0 # tail)"
  using encode_block [of hexlog_emit n b _ "log_escape_hex_body b" junk, OF _ _ lhex.loop_run refl]
  by (auto simp: log_escape_hex_def hexlog_emit_def Let_def simp del: wr_in)

lemma log_escape_nul_run:
  "n \<le> length b \<Longrightarrow> \<exists>tail. log_escape_nul junk b n = Some (concat (map nul_emit (take n b)) @ 0 # tail)"
  using encode_block [of nul_emit n b _ "log_escape_nul_body b" junk, OF _ _ lnul.loop_run refl]
  by (auto simp: log_escape_nul_def nul_emit_def Let_def simp del: wr_in)

lemma length_concat_hex_esc: "length (concat (map hex_esc xs)) = length xs * 4"
  by (induction xs) auto

lemma log_escape_raw_run:
  "n \<le> length b \<Longrightarrow> \<exists>tail. log_escape_raw junk b n = Some (concat (map hex_esc (take n b)) @ 0 # tail)"
  using encode_block [of hex_esc n b _ "log_escape_raw_body b" junk, OF _ _ lraw.loop_run refl]
  by (auto simp: log_escape_raw_def Let_def length_concat_hex_esc simp del: wr_in)

section \<open>Undoing the escapes\<close>

lemma js_decoded_one:
  "js_step () (out @ xs) = ((), length out, [c]) \<Longrightarrow> out \<noteq> [] \<Longrightarrow>
   js_decoded (out @ xs) = c # js_decoded xs"
  using transduce_step [of "out @ xs" js_step "()" "()" "length out" "[c]"]
  by (simp add: js_decoded_def)

lemma js_step_hex_esc: "js_step () (hex_esc c @ xs) = ((), length (hex_esc c), [c])"
  by (simp add: js_step_def hex_esc_def look_spec_def c2x_digits_valid numeral_3_eq_3)

lemma js_step_plain: "c \<noteq> 92 \<Longrightarrow> js_step () ([c] @ xs) = ((), length [c], [c])"
  by (simp add: js_step_def)

lemma js_step_pair:
  "e \<noteq> 117 \<Longrightarrow> e \<noteq> 120 \<Longrightarrow> \<not> ISODIGIT e \<Longrightarrow>
   js_step () ([92, e] @ xs) = ((), length [92, e], [js_escape e])"
  by (simp add: js_step_def look_spec_def)

lemma log_emit_cases:
  obtains (pair) e where "log_emit q col re c = [92, e]" "e \<noteq> 117" "e \<noteq> 120" "\<not> ISODIGIT e" "js_escape e = c"
      "32 \<le> e \<and> e \<le> 126"
    | (hex) "log_emit q col re c = hex_esc c"
    | (plain) "log_emit q col re c = [c]" "c \<noteq> 92" "32 \<le> c \<and> c \<le> 126"
proof -
  have plain: "32 \<le> c \<and> c \<le> 126" if "\<not> c \<le> 31" "\<not> 127 \<le> c"
    using that by (simp add: word_le_nat_alt)
  consider "c = 58 \<and> col \<or> c = 34 \<and> q \<or> c \<in> re_special \<and> re \<or> c = 92"
    | "c \<in> {8, 10, 13, 9, 11}"
    | "\<not> (c = 58 \<and> col \<or> c = 34 \<and> q \<or> c \<in> re_special \<and> re \<or> c = 92)" "c \<notin> {8, 10, 13, 9, 11}" "c \<le> 0x1f \<or> 0x7f \<le> c"
    | "\<not> (c = 58 \<and> col \<or> c = 34 \<and> q \<or> c \<in> re_special \<and> re \<or> c = 92)" "c \<notin> {8, 10, 13, 9, 11}" "\<not> (c \<le> 0x1f \<or> 0x7f \<le> c)"
    by blast
  then show ?thesis
  proof cases
    case 1
    then have "log_emit q col re c = [92, c]" unfolding log_emit_def by (simp only: if_True)
    moreover have "c \<in> {58, 34, 92, 43, 46, 93, 91, 40, 41, 63, 47}" using 1 by (auto simp: re_special_def)
    ultimately show ?thesis by (intro pair [of c]) (auto simp: ISODIGIT_def js_escape_def)
  next
    case 2
    then show ?thesis
      using pair [of 98] pair [of 110] pair [of 114] pair [of 116] pair [of 118]
      by (auto simp: log_emit_def re_special_def ISODIGIT_def js_escape_def)
  next
    case 3
    then have "log_emit q col re c = hex_esc c" unfolding log_emit_def by auto
    then show ?thesis by (rule hex)
  next
    case 4
    then show ?thesis using local.plain by (intro that(3)) (auto simp: log_emit_def)
  qed
qed

lemma js_decoded_log: "js_decoded (concat (map (log_emit q col re) xs)) = xs"
proof (induction xs)
  case Nil
  show ?case by (simp add: js_decoded_def)
next
  case (Cons c cs)
  have "js_step () (log_emit q col re c @ zs) = ((), length (log_emit q col re c), [c])" for zs
    by (rule log_emit_cases [of q col re c])
       (simp_all only: js_step_pair js_step_hex_esc js_step_plain not_False_eq_True)
  moreover have "log_emit q col re c \<noteq> []" by (simp add: log_emit_def hex_esc_def)
  ultimately show ?case using Cons.IH by (simp add: js_decoded_one)
qed

lemma js_decoded_hexlog: "js_decoded (concat (map hexlog_emit xs)) = xs"
proof (induction xs)
  case Nil
  show ?case by (simp add: js_decoded_def)
next
  case (Cons c cs)
  have "js_step () (hexlog_emit c @ zs) = ((), length (hexlog_emit c), [c])" for zs
    using js_step_hex_esc [of c zs] js_step_plain [of c zs] by (auto simp: hexlog_emit_def hexlog_special_def)
  moreover have "hexlog_emit c \<noteq> []" by (simp add: hexlog_emit_def hex_esc_def)
  ultimately show ?case using Cons.IH by (simp add: js_decoded_one)
qed

lemma js_decoded_raw: "js_decoded (concat (map hex_esc xs)) = xs"
proof (induction xs)
  case Nil
  show ?case by (simp add: js_decoded_def)
next
  case (Cons c cs)
  have "hex_esc c \<noteq> []" by (simp add: hex_esc_def)
  then show ?case using Cons.IH js_step_hex_esc [of c] by (simp add: js_decoded_one)
qed

definition printable :: "byte \<Rightarrow> bool" where
  "printable c \<longleftrightarrow> 32 \<le> c \<and> c \<le> 126"

lemma hex_esc_printable: "list_all printable (hex_esc c)"
proof -
  have "printable x" if "VALID_HEX x" for x
    using that unfolding VALID_HEX_def printable_def by (auto simp: word_le_nat_alt)
  then show ?thesis using c2x_digits_valid [of c] by (simp add: hex_esc_def) (simp add: printable_def)
qed

lemma log_emit_printable: "list_all printable (log_emit q col re c)"
  by (rule log_emit_cases [of q col re c]) (simp_all add: hex_esc_printable, simp_all add: printable_def)

lemma list_all_concat: "(\<And>c. list_all P (f c)) \<Longrightarrow> list_all P (concat (map f xs))"
  by (induction xs) auto

section \<open>Properties\<close>

text \<open>
  C37: \<open>_log_escape\<close> never leaves the block of four bytes per input byte it allocates, for any
  choice of the three flags. Its output is printable ASCII, so a log line holds no control or
  8-bit byte of the input, and it loses nothing: \<open>js_decode_nonstrict_inplace\<close> restores the input.
\<close>

theorem log_escape_safe_and_invertible:
  "\<exists>out tail tail'. log_escape_impl junk (Some (xs @ rest)) (length xs) q col re = Some (Some (out @ 0 # tail)) \<and>
     list_all printable out \<and>
     js_decode_nonstrict_inplace (Some (out @ 0 # tail)) (length out) =
       Some (int (length xs), Some (xs @ 0 # tail'))"
proof -
  let ?out = "concat (map (log_emit q col re) xs)"
  obtain tail where "log_escape_impl junk (Some (xs @ rest)) (length xs) q col re = Some (Some (?out @ 0 # tail))"
    using log_escape_impl_run [of "length xs" "xs @ rest" junk q col re] by auto
  moreover have "list_all printable ?out" by (rule list_all_concat) (rule log_emit_printable)
  moreover have "\<exists>tail'. js_decode_nonstrict_inplace (Some (?out @ 0 # tail)) (length ?out) =
       Some (int (length xs), Some (xs @ 0 # tail'))"
    using js_decode_run [of "length ?out" "?out @ 0 # tail"] by (simp add: Let_def js_decoded_log)
  ultimately show ?thesis by blast
qed

text \<open>
  the same for \<open>log_escape_hex\<close> and \<open>log_escape_raw\<close>: in bounds, and undone by the
  JavaScript decoder.
\<close>

theorem log_escape_hex_raw_invertible:
  "(\<exists>out tail tail'. log_escape_hex junk (xs @ rest) (length xs) = Some (out @ 0 # tail) \<and>
     js_decode_nonstrict_inplace (Some (out @ 0 # tail)) (length out) = Some (int (length xs), Some (xs @ 0 # tail'))) \<and>
   (\<exists>out tail tail'. log_escape_raw junk (xs @ rest) (length xs) = Some (out @ 0 # tail) \<and>
     js_decode_nonstrict_inplace (Some (out @ 0 # tail)) (length out) = Some (int (length xs), Some (xs @ 0 # tail')))"
proof -
  have js: "js_decoded out = xs \<Longrightarrow> \<exists>tail'. js_decode_nonstrict_inplace (Some (out @ 0 # tail)) (length out) =
      Some (int (length xs), Some (xs @ 0 # tail'))" for out tail
    using js_decode_run [of "length out" "out @ 0 # tail"] by (simp add: Let_def)
  show ?thesis
    using log_escape_hex_run [of "length xs" "xs @ rest" junk] log_escape_raw_run [of "length xs" "xs @ rest" junk]
      js [OF js_decoded_hexlog [of xs]] js [OF js_decoded_raw [of xs]]
    by simp blast
qed

text \<open>
  \<open>log_escape_nul\<close> stays in its block and returns a NUL-free string, but it does not escape
  the backslash: a NUL and the four characters of its escape give the same string.
\<close>

theorem log_escape_nul_ambiguous:
  "\<exists>out tail tail'. log_escape_nul junk (0 # rest) 1 = Some (out @ 0 # tail) \<and>
     log_escape_nul junk (92 # 120 # 48 # 48 # rest) 4 = Some (out @ 0 # tail') \<and> 0 \<notin> set out"
proof -
  have e: "nul_emit 0 = [92, 120, 48, 48]" "nul_emit 92 = [92]" "nul_emit 120 = [120]" "nul_emit 48 = [48]"
    by (simp_all add: nul_emit_def hex_esc_def c2x_hi_def c2x_lo_def c2x_table_def)
  obtain tail where "log_escape_nul junk (0 # rest) 1 = Some ([92, 120, 48, 48] @ 0 # tail)"
    using log_escape_nul_run [of 1 "0 # rest" junk] e by auto
  moreover obtain tail' where
    "log_escape_nul junk (92 # 120 # 48 # 48 # rest) 4 = Some ([92, 120, 48, 48] @ 0 # tail')"
    using log_escape_nul_run [of 4 "92 # 120 # 48 # 48 # rest" junk] e by auto
  moreover have "(0 :: byte) \<notin> set [92, 120, 48, 48]" by simp
  ultimately show ?thesis by blast
qed

end
