(* ===== verification/SqlHex.thy ===== *)
theory SqlHex
  imports HexCodec
begin

text \<open>
  \<open>sql_hex2bytes_inplace\<close> of \<^verbatim>\<open>apache2/msc_util.c\<close>, which replaces every literal
  \<^verbatim>\<open>0xHH...\<close> of a NUL-terminated string by the bytes it denotes. Its \<^verbatim>\<open>for\<close> loop copies
  the byte behind a literal unconditionally. When the literal ends the string that byte is the
  NUL, and the loop goes on behind the string.
\<close>

partial_function (option) sql_hex_run :: "bytes \<Rightarrow> nat \<Rightarrow> nat \<Rightarrow> (bytes \<times> nat \<times> nat) option" where
  "sql_hex_run b data d = do {
     hex \<leftarrow> and_m [rdp b data VALID_HEX, rdp b (data + 1) VALID_HEX];
     if hex then do {
       v \<leftarrow> x2c b data;
       b \<leftarrow> wr b d v;
       sql_hex_run b (data + 2) (d + 1) }
     else Some (b, data, d) }"

text \<open>The body of the \<^verbatim>\<open>for\<close> loop, with its \<^verbatim>\<open>continue\<close> branches; \<open>c\<close> is \<^verbatim>\<open>*data\<close>.\<close>

definition sql_body :: "bytes \<Rightarrow> nat \<Rightarrow> nat \<Rightarrow> byte \<Rightarrow> (bytes \<times> nat \<times> nat) option" where
  "sql_body b data d c =
     (if c \<noteq> 48 then Some (b, data, d)
      else do {
        x \<leftarrow> rdp b (data + 1) (\<lambda>c. c_tolower c = 120);
        if \<not> x then Some (b, data, d)
        else do {
          hex \<leftarrow> and_m [rdp b (data + 2) VALID_HEX, rdp b (data + 3) VALID_HEX];
          if \<not> hex then Some (b, data, d) else sql_hex_run b (data + 2) d } })"

partial_function (option) sql_loop :: "bytes \<Rightarrow> nat \<Rightarrow> nat \<Rightarrow> (bytes \<times> nat) option" where
  "sql_loop b data d = do {
     c \<leftarrow> rd b data;
     if c = 0 then Some (b, d)
     else do {
       (b, data, d) \<leftarrow> sql_body b data d c;
       c \<leftarrow> rd b data;
       b \<leftarrow> wr b d c;
       sql_loop b (data + 1) (d + 1) } }"

definition sql_hex2bytes_inplace :: "bytes option \<Rightarrow> nat \<Rightarrow> (nat \<times> bytes option) option" where
  "sql_hex2bytes_inplace data len =
     (case data of
        None \<Rightarrow> Some (0, None)
      | Some b \<Rightarrow>
          if len = 0 then Some (0, Some b)
          else do {
            (b, d) \<leftarrow> sql_loop b 0 0;
            b \<leftarrow> wr b d 0;
            s \<leftarrow> c_str b;
            Some (length s, Some b) })"

declare sql_hex_run.simps [simp del] sql_loop.simps [simp del]

section \<open>What it computes\<close>

text \<open>The bytes of a run of digit pairs, and what follows the run.\<close>

fun hex_run :: "bytes \<Rightarrow> bytes \<times> bytes" where
  "hex_run [] = ([], [])"
| "hex_run [x] = ([], [x])"
| "hex_run (a # b # xs) =
     (if VALID_HEX a \<and> VALID_HEX b then (x2c_val a b # fst (hex_run xs), snd (hex_run xs))
      else ([], a # b # xs))"

lemma hex_run_length: "length (snd (hex_run xs)) + 2 * length (fst (hex_run xs)) = length xs"
  by (induction xs rule: hex_run.induct) auto

lemma hex_run_set: "set (snd (hex_run xs)) \<subseteq> set xs"
  by (induction xs rule: hex_run.induct) auto

lemma hex_run_tl: "hex_run (drop k xs) = (out, r) \<Longrightarrow> r \<noteq> [] \<Longrightarrow> length (tl r) < length (c # xs)"
  using hex_run_length [of "drop k xs"] by (cases r) auto

definition sql_literal :: "bytes \<Rightarrow> bool" where
  "sql_literal xs \<longleftrightarrow> 3 < length xs \<and> xs ! 0 = 48 \<and> c_tolower (xs ! 1) = 120 \<and>
     VALID_HEX (xs ! 2) \<and> VALID_HEX (xs ! 3)"

text \<open>\<^term>\<open>None\<close> is a string that ends with a literal.\<close>

function sql_decode :: "bytes \<Rightarrow> bytes option" where
  "sql_decode [] = Some []"
| "sql_decode (c # cs) =
     (if sql_literal (c # cs) then
        (case hex_run (drop 1 cs) of (out, r) \<Rightarrow>
           if r = [] then None else map_option (\<lambda>ys. out @ hd r # ys) (sql_decode (tl r)))
      else map_option ((#) c) (sql_decode cs))"
  by pat_completeness auto
termination
  by (relation "measure length") (auto dest!: sym [of "(_, _)"] dest: hex_run_tl)

declare sql_decode.simps(2) [simp del]

lemma not_hex_0 [simp]: "\<not> VALID_HEX 0"
  by (simp add: VALID_HEX_def)

lemma sql_hex_run_spec:
  assumes "drop i b = xs @ 0 # rest" "d \<le> i"
  shows "\<exists>i'. sql_hex_run b i d = Some (blit b d (fst (hex_run xs)), i', d + length (fst (hex_run xs))) \<and>
     drop i' b = snd (hex_run xs) @ 0 # rest \<and> d + length (fst (hex_run xs)) \<le> i'"
  using assms
proof (induction xs arbitrary: b i d rule: hex_run.induct)
  case (3 x y xs)
  have x: "rd b i = Some x" "i < length b" "b ! i = x" "drop (Suc i) b = y # xs @ 0 # rest"
    using drop_ConsD [of i b x] "3.prems"(1) by simp_all
  have y: "rd b (Suc i) = Some y" "Suc i < length b" "b ! Suc i = y" "drop (Suc (Suc i)) b = xs @ 0 # rest"
    using drop_ConsD [OF x(4)] by simp_all
  show ?case
  proof (cases "VALID_HEX x \<and> VALID_HEX y")
    case False
    then show ?thesis using x y "3.prems" by (subst sql_hex_run.simps) auto
  next
    case True
    let ?b = "b[d := x2c_val x y]"
    have "drop (Suc (Suc i)) ?b = xs @ 0 # rest" using y(4) "3.prems"(2) by simp
    from "3.IH" [OF True this, of "Suc d"] "3.prems"(2) obtain i' where
      ih: "sql_hex_run ?b (Suc (Suc i)) (Suc d) =
          Some (blit ?b (Suc d) (fst (hex_run xs)), i', Suc d + length (fst (hex_run xs)))"
        "drop i' ?b = snd (hex_run xs) @ 0 # rest" "Suc d + length (fst (hex_run xs)) \<le> i'"
      by auto
    have "drop i' b = snd (hex_run xs) @ 0 # rest"
      using ih(2,3) by (simp add: drop_update_cancel)
    moreover have "sql_hex_run b i d = sql_hex_run ?b (Suc (Suc i)) (Suc d)"
      using True x y "3.prems"(2) by (subst sql_hex_run.simps) simp
    ultimately show ?thesis
      using True ih "3.prems"(2) x(2) by (simp add: blit_update_Cons)
  qed
next
  case 1
  have "rd b i = Some 0" "i < length b" "b ! i = 0" using drop_ConsD [of i b 0 rest] "1.prems" by simp_all
  then show ?case using "1.prems" by (subst sql_hex_run.simps) simp
next
  case (2 x)
  have x: "i < length b" "b ! i = x" "drop (Suc i) b = 0 # rest"
    using drop_ConsD [of i b x] "2.prems" by simp_all
  have "Suc i < length b" "b ! Suc i = 0" using drop_ConsD [OF x(3)] by simp_all
  then show ?case using x "2.prems" by (subst sql_hex_run.simps) simp
qed

text \<open>The body reads at most four bytes ahead, and only behind non-NUL bytes.\<close>

lemma sql_body_spec:
  assumes "drop i b = (c # cs) @ 0 # rest" "d \<le> i"
  shows "sql_body b i d c =
     (if sql_literal (c # cs) then sql_hex_run b (Suc (Suc i)) d else Some (b, i, d))"
proof -
  have c: "drop (Suc i) b = cs @ 0 # rest" using drop_ConsD(4) [of i b c] assms(1) by simp
  show ?thesis
  proof (cases cs)
    case Nil
    then have "rdp b (Suc i) P = Some (P 0)" for P
      using drop_ConsD(3) [of "Suc i" b 0 rest] c by (simp add: rdp_def)
    then show ?thesis using Nil by (simp add: sql_body_def sql_literal_def c_tolower_def c_isupper_def)
  next
    case (Cons x xs)
    note x = drop_ConsD [of "Suc i" b x "xs @ 0 # rest"] c [unfolded Cons]
    have rx: "rdp b (Suc i) P = Some (P x)" for P using x by (simp add: rdp_def)
    have xs: "drop (i + 2) b = xs @ 0 # rest" using x by simp
    have "and_m [rdp b (i + 2) VALID_HEX, rdp b (i + 3) VALID_HEX] =
        Some (1 < length xs \<and> VALID_HEX (xs ! 0) \<and> VALID_HEX (xs ! 1))"
    proof (cases xs rule: hex_run.cases)
      case (3 y z zs)
      with xs show ?thesis
        using drop_ConsD [of "i + 2" b y] drop_ConsD [of "i + 3" b z] by (simp add: rdp_def numeral_3_eq_3)
    next
      case 1
      with xs show ?thesis using drop_ConsD [of "i + 2" b 0] by (simp add: rdp_def)
    next
      case (2 y)
      with xs show ?thesis
        using drop_ConsD [of "i + 2" b y] drop_ConsD [of "i + 3" b 0] by (simp add: rdp_def numeral_3_eq_3)
    qed
    then show ?thesis
      by (auto simp: sql_body_def sql_literal_def rx Cons numeral_eq_Suc)
  qed
qed

lemma sql_loop_spec:
  assumes "drop i b = xs @ 0 # rest" "0 \<notin> set xs" "d \<le> i" "sql_decode xs = Some ys"
  shows "sql_loop b i d = Some (blit b d ys, d + length ys) \<and> d + length ys < length b"
  using assms
proof (induction xs arbitrary: b i d ys rule: sql_decode.induct)
  case 1
  then show ?case
    using drop_ConsD [of i b 0 rest] by (subst sql_loop.simps) simp
next
  case (2 c cs)
  note c = drop_ConsD [of i b c "cs @ 0 # rest"]
  have start: "sql_loop b i d = do {
       (b, i, d) \<leftarrow> (if sql_literal (c # cs) then sql_hex_run b (Suc (Suc i)) d else Some (b, i, d));
       c \<leftarrow> rd b i;
       b \<leftarrow> wr b d c;
       sql_loop b (i + 1) (d + 1) }"
    using c "2.prems" sql_body_spec [OF "2.prems"(1) "2.prems"(3)] by (subst sql_loop.simps) simp
  show ?case
  proof (cases "sql_literal (c # cs)")
    case False
    let ?b = "b[d := c]"
    obtain zs where zs: "sql_decode cs = Some zs" "ys = c # zs"
      using "2.prems"(4) False by (auto simp: sql_decode.simps)
    have "drop (Suc i) ?b = cs @ 0 # rest" using c "2.prems" by simp
    from "2.IH"(2) [OF False this _ _ zs(1), of "Suc d"] "2.prems"
    have "sql_loop ?b (Suc i) (Suc d) = Some (blit ?b (Suc d) zs, Suc d + length zs) \<and>
        Suc d + length zs < length ?b" by simp
    then show ?thesis using start False c "2.prems" zs by (simp add: blit_update_Cons)
  next
    case True
    obtain out r where run: "hex_run (drop 1 cs) = (out, r)" by (cases "hex_run (drop 1 cs)")
    obtain x r' where r: "r = x # r'" using "2.prems"(4) True run
      by (cases r) (auto simp: sql_decode.simps)
    obtain zs where zs: "sql_decode r' = Some zs" "ys = out @ x # zs"
      using "2.prems"(4) True run r by (auto simp: sql_decode.simps)
    have "drop (Suc (Suc i)) b = drop 1 cs @ 0 # rest"
      using c "2.prems"(1) True by (cases cs) (auto simp: sql_literal_def dest: drop_ConsD)
    from sql_hex_run_spec [OF this, of d] "2.prems"(3) obtain i' where
      i': "sql_hex_run b (Suc (Suc i)) d = Some (blit b d out, i', d + length out)"
        "drop i' b = x # r' @ 0 # rest" "d + length out \<le> i'"
      using run r by auto
    note x = drop_ConsD [OF i'(2)]
    let ?b = "blit b d (out @ [x])"
    have b: "(blit b d out)[d + length out := x] = ?b" "blit b d out ! i' = x" "d + length out < length b"
      using i' x blit_blit [of d out b "[x]"] by (simp_all add: blit_single)
    have "drop (Suc i') ?b = r' @ 0 # rest" using x i' by simp
    moreover have "0 \<notin> set r'"
      using hex_run_set [of "drop 1 cs"] run r "2.prems"(2) set_drop_subset [of 1 cs] by auto
    ultimately have "sql_loop ?b (Suc i') (Suc (d + length out)) =
        Some (blit ?b (Suc (d + length out)) zs, Suc (d + length out) + length zs) \<and>
        Suc (d + length out) + length zs < length ?b"
      using "2.IH"(1) [OF True run [symmetric], of "Suc i'" ?b "Suc (d + length out)" zs] r zs i' x(1) by simp
    then show ?thesis
      using start True i' b x zs blit_blit [of d "out @ [x]" b zs] by simp
  qed
qed

text \<open>A string that ends with a literal, in a buffer that ends with its NUL.\<close>

lemma sql_loop_overrun:
  assumes "drop i b = xs @ [0]" "0 \<notin> set xs" "d \<le> i" "sql_decode xs = None"
  shows "sql_loop b i d = None"
  using assms
proof (induction xs arbitrary: b i d rule: sql_decode.induct)
  case 1
  then show ?case by simp
next
  case (2 c cs)
  note c = drop_ConsD [of i b c "cs @ [0]"]
  have start: "sql_loop b i d = do {
       (b, i, d) \<leftarrow> (if sql_literal (c # cs) then sql_hex_run b (Suc (Suc i)) d else Some (b, i, d));
       c \<leftarrow> rd b i;
       b \<leftarrow> wr b d c;
       sql_loop b (i + 1) (d + 1) }"
    using c "2.prems" sql_body_spec [OF "2.prems"(1) "2.prems"(3)] by (subst sql_loop.simps) simp
  show ?case
  proof (cases "sql_literal (c # cs)")
    case False
    have "drop (Suc i) (b[d := c]) = cs @ [0]" "sql_decode cs = None"
      using c "2.prems" False by (simp_all add: sql_decode.simps)
    from "2.IH"(2) [OF False this(1) _ _ this(2), of "Suc d"] show ?thesis
      using start False c "2.prems" by simp
  next
    case True
    obtain out r where run: "hex_run (drop 1 cs) = (out, r)" by (cases "hex_run (drop 1 cs)")
    have r0: "0 \<notin> set r"
      using hex_run_set [of "drop 1 cs"] run "2.prems"(2) set_drop_subset [of 1 cs] by auto
    have "drop (Suc (Suc i)) b = drop 1 cs @ [0]"
      using c "2.prems"(1) True by (cases cs) (auto simp: sql_literal_def dest: drop_ConsD)
    from sql_hex_run_spec [OF this, of d] "2.prems"(3) obtain i' where
      i': "sql_hex_run b (Suc (Suc i)) d = Some (blit b d out, i', d + length out)"
        "drop i' b = r @ [0]" "d + length out \<le> i'"
      using run by auto
    obtain x zs where x: "r @ [0] = x # zs" by (cases "r @ [0]") auto
    note x' = drop_ConsD [OF i'(2) [unfolded x]]
    let ?b = "blit b d (out @ [x])"
    have b: "(blit b d out)[d + length out := x] = ?b" "blit b d out ! i' = x" "d + length out < length b"
      using i' x' blit_blit [of d out b "[x]"] by (simp_all add: blit_single)
    have rest: "drop (Suc i') ?b = zs" using x' i' by simp
    have "sql_loop ?b (Suc i') (Suc (d + length out)) = None"
    proof (cases r)
      case Nil
      then have "drop (Suc i') ?b = []" using rest x by simp
      from drop_NilD [OF this] show ?thesis by (subst sql_loop.simps) simp
    next
      case (Cons y r')
      then have "sql_decode r' = None" using "2.prems"(4) True run by (simp add: sql_decode.simps)
      then show ?thesis
        using "2.IH"(1) [OF True run [symmetric], of "Suc i'" ?b "Suc (d + length out)"] Cons rest r0 i'(3) x
        by simp
    qed
    then show ?thesis using start True i' b x' by simp
  qed
qed

text \<open>The whole function: what it returns, and when it leaves the buffer.\<close>

lemma sql_hex2bytes_run:
  assumes "0 \<notin> set xs" "sql_decode xs = Some ys" "0 < len"
  shows "sql_hex2bytes_inplace (Some (xs @ 0 # rest)) len =
     Some (length (takeWhile (\<lambda>c. c \<noteq> 0) ys),
           Some (ys @ 0 # drop (Suc (length ys)) (xs @ 0 # rest)))"
proof -
  have "sql_loop (xs @ 0 # rest) 0 0 = Some (blit (xs @ 0 # rest) 0 ys, length ys)"
    "length ys < length (xs @ 0 # rest)"
    using sql_loop_spec [of 0 "xs @ 0 # rest" xs rest 0 ys] assms by simp_all
  moreover have "c_str (ys @ 0 # zs) = Some (takeWhile (\<lambda>c. c \<noteq> 0) ys)" for zs
    by (induction ys) auto
  ultimately show ?thesis
    using assms(3) wr_terminate [of ys "xs @ 0 # rest"]
    by (simp add: sql_hex2bytes_inplace_def del: wr_in drop_append)
qed

text \<open>
  C38: \<open>sql_hex2bytes_inplace\<close> stays inside a buffer that ends with the terminating NUL exactly
  when the string does not end with a hexadecimal literal; a string that does makes the loop
  copy the NUL and read on behind the buffer.
\<close>

theorem sql_hex2bytes_safe_iff:
  "0 \<notin> set xs \<Longrightarrow> 0 < len \<Longrightarrow>
   (sql_hex2bytes_inplace (Some (xs @ [0])) len \<noteq> None) = (sql_decode xs \<noteq> None)"
  using sql_hex2bytes_run [of xs _ len "[]"] sql_loop_overrun [of 0 "xs @ [0]" xs 0]
  by (cases "sql_decode xs") (auto simp: sql_hex2bytes_inplace_def)

theorem sql_hex2bytes_safe_iff_witness:
  "(sql_hex2bytes_inplace (Some ([48, 120, 52, 49] @ [0])) 4 \<noteq> None) = (sql_decode [48, 120, 52, 49] \<noteq> None)"
  by (rule sql_hex2bytes_safe_iff) simp_all

text \<open>
  on every other NUL-terminated string the function returns the string with each literal
  replaced by its bytes, in place and NUL-terminated, and the length up to the first NUL among
  the decoded bytes.
\<close>

theorem sql_hex2bytes_correct:
  "0 \<notin> set xs \<Longrightarrow> sql_decode xs = Some ys \<Longrightarrow> 0 < len \<Longrightarrow>
   sql_hex2bytes_inplace (Some (xs @ 0 # rest)) len =
     Some (length (takeWhile (\<lambda>c. c \<noteq> 0) ys),
           Some (ys @ 0 # drop (Suc (length ys)) (xs @ 0 # rest)))"
  by (rule sql_hex2bytes_run)

theorem sql_hex2bytes_correct_witness:
  "sql_hex2bytes_inplace (Some [48, 88, 52, 49, 32, 0, 7]) 5 = Some (2, Some [65, 32, 0, 49, 32, 0, 7])"
  using sql_hex2bytes_correct [of "[48, 88, 52, 49, 32]" "[65, 32]" 5 "[7]"]
  by (simp add: sql_decode.simps sql_literal_def c_tolower_def c_isupper_def VALID_HEX_def
        x2c_val_def xsingle2c_val_def)

end
