(* ===== verification/CssDecoder.thy ===== *)
theory CssDecoder
  imports EscapeDecoders
begin

text \<open>
  \<open>css_decode_inplace\<close> of \<^verbatim>\<open>apache2/msc_util.c\<close>: a backslash followed by one to six
  hexadecimal digits is one byte (the last two digits, corrected for full-width characters),
  and swallows one white space after it.
\<close>

text \<open>The \<^verbatim>\<open>switch (j)\<close>: \<open>i\<close> is the offset of the first digit. The result is the buffer,
  \<^verbatim>\<open>fullcheck\<close> and the write index.\<close>

definition css_switch :: "bytes \<Rightarrow> nat \<Rightarrow> nat \<Rightarrow> nat \<Rightarrow> (bytes \<times> bool \<times> nat) option" where
  "css_switch b i j d =
     (if j = 1 then do { v \<leftarrow> xsingle2c b i; b \<leftarrow> wr b d v; Some (b, False, d + 1) }
      else do {
        v \<leftarrow> x2c b (i + j - 2);
        b \<leftarrow> wr b d v;
        if j = 2 \<or> j = 3 then Some (b, False, d + 1)
        else if j = 4 then Some (b, True, d)
        else if j = 5 then do {
          z \<leftarrow> rdp b i (\<lambda>c. c = 48);
          if z then Some (b, True, d) else Some (b, False, d + 1) }
        else do {
          z \<leftarrow> and_m [rdp b i (\<lambda>c. c = 48), rdp b (i + 1) (\<lambda>c. c = 48)];
          if z then Some (b, True, d) else Some (b, False, d + 1) } })"

fun css_decode_body :: "nat \<Rightarrow> 'u lstate \<Rightarrow> 'u lstate option" where
  "css_decode_body n (u, b, i, d, count) = do {
     c \<leftarrow> rd b i;
     if c = 92 then
       if i + 1 < n then do {
         let i = i + 1;
         e \<leftarrow> scan VALID_HEX b (min (i + 6) n) i;
         let j = e - i;
         if j > 0 then do {
           (b, fullcheck, d) \<leftarrow> css_switch b i j d;
           (b, d) \<leftarrow>
             (if fullcheck then do { b \<leftarrow> full_width_fix b d (i + j - 3) (i + j - 4); Some (b, d + 1) }
              else Some (b, d));
           sp \<leftarrow> and_m [Some (i + j < n), rdp b (i + j) c_isspace];
           Some (u, b, i + (if sp then j + 1 else j), d, count + 1) }
         else do {
           c1 \<leftarrow> rd b i;
           if c1 = 10 then Some (u, b, i + 1, d, count)
           else do { b \<leftarrow> wr b d c1; Some (u, b, i + 1, d + 1, count + 1) } } }
       else Some (u, b, i + 1, d, count)
     else do { b \<leftarrow> wr b d c; Some (u, b, i + 1, d + 1, count + 1) } }"

definition css_decode_inplace :: "bytes option \<Rightarrow> nat \<Rightarrow> (int \<times> bytes option) option" where
  "css_decode_inplace input input_len =
     (case input of
        None \<Rightarrow> Some (-1, None)
      | Some b \<Rightarrow> do {
          (u, b, i, d, count) \<leftarrow>
            inplace_loop (below input_len) (css_decode_body input_len) ((), b, 0, 0, 0);
          b \<leftarrow> wr b d 0;
          Some (int count, Some b) })"

section \<open>What it computes\<close>

text \<open>The byte for the digits \<open>h\<close>, one to six of them.\<close>

definition css_val :: "bytes \<Rightarrow> byte" where
  "css_val h =
     (let j = length h in
      if j = 1 then xsingle2c_val (h ! 0)
      else let v = x2c_val (h ! (j - 2)) (h ! (j - 1)) in
        if j = 4 \<or> (j = 5 \<and> h ! 0 = 48) \<or> (j = 6 \<and> h ! 0 = 48 \<and> h ! 1 = 48)
        then full_width v (h ! (j - 3)) (h ! (j - 4)) else v)"

definition css_digits :: "bytes \<Rightarrow> bytes" where
  "css_digits xs = takeWhile VALID_HEX (take 6 xs)"

definition css_step :: "'u tstep" where
  "css_step u xs =
     (if xs ! 0 = 92 then
        if 1 < length xs then
          let ys = drop 1 xs; h = css_digits ys; j = length h in
          if j > 0 then
            (u, 1 + j + (if j < length ys \<and> c_isspace (ys ! j) then 1 else 0), [css_val h])
          else if ys ! 0 = 10 then (u, 2, [])
          else (u, 2, [ys ! 0])
        else (u, 1, [])
      else (u, 1, [xs ! 0]))"

lemma css_digits_le: "length (css_digits xs) \<le> 6" "length (css_digits xs) \<le> length xs"
proof -
  have "length (css_digits xs) \<le> length (take 6 xs)"
    unfolding css_digits_def by (rule length_takeWhile_le)
  then show "length (css_digits xs) \<le> 6" "length (css_digits xs) \<le> length xs" by simp_all
qed

lemma css_digits_nth: "j < length (css_digits xs) \<Longrightarrow> css_digits xs ! j = xs ! j"
  using css_digits_le(1) [of xs] by (simp add: css_digits_def takeWhile_nth)

text \<open>The switch and the full-width correction together write \<open>css_val\<close>.\<close>

lemma css_switch_run:
  assumes "d < i" "i + j \<le> n" "n < length b" "j = length h" "0 < j" "j \<le> 6"
    and nth: "\<And>k. k < j \<Longrightarrow> h ! k = b ! (i + k)"
  shows "do {
     (b, fullcheck, d) \<leftarrow> css_switch b i j d;
     (if fullcheck then do { b \<leftarrow> full_width_fix b d (i + j - 3) (i + j - 4); Some (b, d + 1) }
      else Some (b, d)) } = Some (blit b d [css_val h], d + 1)"
proof -
  have w: "wr b d v = Some (blit b d [v])" for v using assms by (intro wr_blit) simp
  consider "j = 1" | "j = 2" | "j = 3" | "j = 4" | "j = 5" | "j = 6" using assms(5,6) by linarith
  then show ?thesis
  proof cases
    case 1
    then show ?thesis
      using assms nth [of 0] by (simp add: css_switch_def css_val_def xsingle2c_def w del: wr_in)
  next
    case 2
    then show ?thesis
      using assms nth [of 0] nth [of 1] by (simp add: css_switch_def css_val_def x2c_def w del: wr_in)
  next
    case 3
    then show ?thesis
      using assms nth [of 1] nth [of 2] by (simp add: css_switch_def css_val_def x2c_def w del: wr_in)
  next
    case 4
    then have "full_width_fix (blit b d [v]) d (i + 1) i = Some (blit b d [full_width v (b ! (i + 1)) (b ! i)])" for v
      using assms by (intro full_width_fix_run) auto
    then show ?thesis
      using 4 assms nth [of 0] nth [of 1] nth [of 2] nth [of 3]
      by (simp add: css_switch_def css_val_def x2c_def w numeral_eq_Suc del: wr_in)
  next
    case 5
    then have "full_width_fix (blit b d [v]) d (i + 2) (i + 1) =
        Some (blit b d [full_width v (b ! (i + 2)) (b ! (i + 1))])" for v
      using assms by (intro full_width_fix_run) auto
    then show ?thesis
      using 5 assms nth [of 0] nth [of 1] nth [of 2] nth [of 3] nth [of 4]
      by (simp add: css_switch_def css_val_def x2c_def w numeral_eq_Suc del: wr_in)
  next
    case 6
    then have "full_width_fix (blit b d [v]) d (i + 3) (i + 2) =
        Some (blit b d [full_width v (b ! (i + 3)) (b ! (i + 2))])" for v
      using assms by (intro full_width_fix_run) auto
    then show ?thesis
      using 6 assms nth [of 0] nth [of 1] nth [of 2] nth [of 3] nth [of 4] nth [of 5]
      by (simp add: css_switch_def css_val_def x2c_def w numeral_eq_Suc del: wr_in)
  qed
qed

interpretation cs: inplace_decoder below css_decode_body css_step
proof
  fix n i d count :: nat and s s' :: 'u and b out xs :: bytes and k :: nat
  show "below n (s, b, i, d, count) \<longleftrightarrow> i < n" by simp
  show "0 < k \<and> length out \<le> k \<and> length out \<le> length xs"
    if "xs \<noteq> []" "css_step s xs = (s', k, out)"
    using that by (cases xs) (auto simp: css_step_def Let_def split: if_splits)
  show "css_decode_body n (s, b, i, d, count) =
      Some (s', blit b d out, i + k, d + length out, count + length out)"
    if i: "i < n" and n: "n < length b" and d: "d \<le> i"
      and st: "css_step s (drop i (take n b)) = (s', k, out)"
  proof -
    let ?xs = "drop i (take n b)" and ?ys = "drop (i + 1) (take n b)"
    let ?h = "css_digits ?ys" and ?j = "length (css_digits ?ys)"
    have r: "rd b i = Some (?xs ! 0)" using i n by simp
    have w: "wr b d v = Some (blit b d [v])" for v using i n d by (intro wr_blit) simp
    have ys: "drop 1 ?xs = ?ys" by simp
    show ?thesis
    proof (cases "?xs ! 0 = 92 \<and> i + 1 < n")
      case False
      then have "\<not> (?xs ! 0 = 92 \<and> 1 < length ?xs)" using n by auto
      then show ?thesis
        using st False unfolding css_step_def
        by (cases "?xs ! 0 = 92") (auto simp: r w simp del: rd_in wr_in nth_drop nth_take length_drop length_take)
    next
      case True
      then have len: "1 < length ?xs" "i + 1 < n" using n by auto
      have hs: "?h = takeWhile VALID_HEX (drop (i + 1) (take (min (i + 1 + 6) n) b))"
        using n by (simp add: css_digits_def take_drop add.commute min.commute)
      have scan: "scan VALID_HEX b (min (i + 1 + 6) n) (i + 1) = Some (i + 1 + ?j)"
        using len n unfolding hs by (intro scan_run) simp_all
      show ?thesis
      proof (cases "?j = 0")
        case True
        have "css_decode_body n (s, b, i, d, count) = (if ?ys ! 0 = 10
            then Some (s, b, i + 2, d, count) else Some (s, blit b d [?ys ! 0], i + 2, d + 1, count + 1))"
          using \<open>?xs ! 0 = 92 \<and> i + 1 < n\<close> n w
          by (simp add: r Let_def scan [simplified] True [simplified] del: wr_in)
        then show ?thesis
          using st len True \<open>?xs ! 0 = 92 \<and> i + 1 < n\<close>
          unfolding css_step_def Let_def ys by (auto split: if_splits)
      next
        case False
        have jb: "?j \<le> 6" "i + 1 + ?j \<le> n" using css_digits_le [of ?ys] len n by auto
        have nth: "?h ! k = b ! (i + 1 + k)" if "k < ?j" for k
          using that css_digits_nth [of k ?ys] jb n by simp
        have sw: "do {
           (b, fullcheck, d) \<leftarrow> css_switch b (i + 1) ?j d;
           (if fullcheck then do { b \<leftarrow> full_width_fix b d (i + 1 + ?j - 3) (i + 1 + ?j - 4); Some (b, d + 1) }
            else Some (b, d)) } = Some (blit b d [css_val ?h], d + 1)"
          by (rule css_switch_run [of d "i + 1" ?j n b ?h]) (use False d jb n nth in auto)
        have bd: "n < length (blit b d [css_val ?h])" using d i n by simp
        have sp: "and_m [Some (i + 1 + ?j < n), rdp (blit b d [css_val ?h]) (i + 1 + ?j) c_isspace] =
            Some (?j < length ?ys \<and> c_isspace (?ys ! ?j))"
          using bd d n by (cases "i + 1 + ?j < n") auto
        have "css_decode_body n (s, b, i, d, count) =
           Some (s, blit b d [css_val ?h],
             i + 1 + (if ?j < length ?ys \<and> c_isspace (?ys ! ?j) then ?j + 1 else ?j), d + 1, count + 1)"
        proof -
          let ?f = "\<lambda>(b, d). do {
            sp \<leftarrow> and_m [Some (i + 1 + ?j < n), rdp b (i + 1 + ?j) c_isspace];
            Some (s, b, i + 1 + (if sp then ?j + 1 else ?j), d, count + 1) }"
          have "css_decode_body n (s, b, i, d, count) = Option.bind (do {
             (b, fullcheck, d) \<leftarrow> css_switch b (i + 1) ?j d;
             (if fullcheck then do { b \<leftarrow> full_width_fix b d (i + 1 + ?j - 3) (i + 1 + ?j - 4); Some (b, d + 1) }
              else Some (b, d)) }) ?f"
            using False \<open>?xs ! 0 = 92 \<and> i + 1 < n\<close>
            by (simp only: css_decode_body.simps r Option.bind.bind_lunit simp_thms if_True Let_def scan
                add_diff_cancel_left' neq0_conv) (simp add: Option.bind_assoc case_prod_unfold)
          also have "\<dots> = ?f (blit b d [css_val ?h], d + 1)" by (simp only: sw Option.bind.bind_lunit)
          finally show ?thesis by (simp only: prod.case sp Option.bind.bind_lunit)
        qed
        then show ?thesis
          using st len False \<open>?xs ! 0 = 92 \<and> i + 1 < n\<close>
          unfolding css_step_def Let_def ys by (auto split: if_splits)
      qed
    qed
  qed
qed

definition css_decoded :: "bytes \<Rightarrow> bytes" where
  "css_decoded xs = snd (transduce css_step () xs)"

lemma css_decode_run:
  assumes "n < length b" "b ! n = 0"
  shows "css_decode_inplace (Some b) n =
     (let out = css_decoded (take n b) in
      Some (int (length out), Some (out @ 0 # drop (Suc (length out)) b)))"
proof -
  obtain i' where "inplace_loop (below n) (css_decode_body n) ((), b, 0, 0, 0) =
      Some ((), blit b 0 (css_decoded (take n b)), i', length (css_decoded (take n b)),
            length (css_decoded (take n b)))"
    and "length (css_decoded (take n b)) \<le> n"
    using cs.loop_run [OF assms, of "()"] by (auto simp: css_decoded_def case_prod_beta)
  then show ?thesis
    using assms(1) by (simp add: css_decode_inplace_def wr_terminate Let_def del: wr_in)
qed

lemma css_decoded_plain: "92 \<notin> set xs \<Longrightarrow> css_decoded xs = xs"
  using transduce_id [of 92 css_step "()" xs] by (simp add: css_decoded_def css_step_def)

section \<open>Properties\<close>

lemma css_decoded_length: "length (css_decoded xs) \<le> length xs"
  unfolding css_decoded_def by (rule cs.length_transduce)

text \<open>
  \<open>css_decode_inplace\<close> never leaves its buffer, whatever the input; it writes
  \<open>css_decoded\<close>, NUL-terminated and not longer than the input, and returns its length.
\<close>

theorem css_decode_correct:
  "css_decode_inplace (Some (xs @ 0 # rest)) (length xs) =
     Some (int (length (css_decoded xs)),
           Some (css_decoded xs @ 0 # drop (Suc (length (css_decoded xs))) (xs @ 0 # rest))) \<and>
   length (css_decoded xs) \<le> length xs"
  using css_decode_run [of "length xs" "xs @ 0 # rest"] css_decoded_length [of xs]
  by (simp add: Let_def del: drop_append)

text \<open>The escape \<^verbatim>\<open>\HH \<close> of a byte: a backslash, two digits and a space.\<close>

definition css_escape :: "byte \<Rightarrow> bytes" where
  "css_escape c = [92, c2x_hi c, c2x_lo c, 32]"

lemma css_decoded_escape: "css_decoded (css_escape c @ xs) = c # css_decoded xs"
proof -
  have sp: "\<not> VALID_HEX 32" "c_isspace 32" by (simp_all add: VALID_HEX_def c_isspace_def)
  have "css_digits ([c2x_hi c, c2x_lo c, 32] @ xs) = [c2x_hi c, c2x_lo c]"
    by (simp add: css_digits_def c2x_digits_valid sp numeral_eq_Suc)
  then have "css_step () (css_escape c @ xs) = ((), 4, [c])"
    by (simp add: css_step_def css_escape_def css_val_def sp Let_def)
  then show ?thesis
    using transduce_step [of "css_escape c @ xs" css_step "()" "()" 4 "[c]"]
    by (simp add: css_decoded_def css_escape_def)
qed

lemma css_decoded_escapes: "css_decoded (concat (map css_escape xs)) = xs"
  by (induction xs) (simp add: css_decoded_def, simp add: css_decoded_escape)

text \<open>
  a string in which every byte is written as \<^verbatim>\<open>\HH \<close> is decoded to exactly those bytes,
  the white space behind each escape included in it.
\<close>

theorem css_decode_escapes:
  "\<exists>tail. css_decode_inplace (Some (concat (map css_escape xs) @ 0 # rest)) (length (concat (map css_escape xs))) =
     Some (int (length xs), Some (xs @ 0 # tail))"
  using css_decode_run [of "length (concat (map css_escape xs))" "concat (map css_escape xs) @ 0 # rest"]
  by (simp add: Let_def css_decoded_escapes)

end
