(* ===== verification/FilterLoop.thy ===== *)
theory FilterLoop
  imports InPlace Encoder
begin

text \<open>
  The loop shape of the transformation functions of \<^verbatim>\<open>apache2/re_tfns.c\<close>:
  \<^verbatim>\<open>i = j = 0; while (i < input_len) { ... }\<close> with \<^verbatim>\<open>input[j]\<close> written behind
  \<^verbatim>\<open>input[i]\<close>. A body may owe bytes it has already read (\<open>compressWhitespace\<close> owes the one
  space of a run of white space until the run ends): \<open>pend s\<close> says how many.
\<close>

type_synonym 's fstate = "'s \<times> bytes \<times> nat \<times> nat"

partial_function (option) filter_loop ::
  "nat \<Rightarrow> ('s fstate \<Rightarrow> 's fstate option) \<Rightarrow> 's fstate \<Rightarrow> 's fstate option"
where
  "filter_loop n body st =
     (if fst (snd (snd st)) < n then Option.bind (body st) (filter_loop n body) else Some st)"

locale inplace_filter =
  fixes body :: "nat \<Rightarrow> 's fstate \<Rightarrow> 's fstate option"
    and step :: "'s tstep"
    and pend :: "'s \<Rightarrow> nat"
  assumes step_bounds:
      "xs \<noteq> [] \<Longrightarrow> step s xs = (s', k, out) \<Longrightarrow>
       0 < k \<and> pend s' + length out \<le> pend s + k \<and> pend s' + length out \<le> pend s + length xs"
    and body_step:
      "i < n \<Longrightarrow> n \<le> length b \<Longrightarrow> j + pend s \<le> i \<Longrightarrow> step s (drop i (take n b)) = (s', k, out) \<Longrightarrow>
       body n (s, b, i, j) = Some (s', blit b j out, i + k, j + length out)"
begin

lemma loop_from:
  assumes "n \<le> length b" "j + pend s \<le> i" "j + pend s \<le> n"
  shows "\<exists>i'. filter_loop n (body n) (s, b, i, j) =
           (case transduce step s (drop i (take n b)) of (s', out) \<Rightarrow>
              Some (s', blit b j out, i', j + length out)) \<and>
           j + length (snd (transduce step s (drop i (take n b)))) +
             pend (fst (transduce step s (drop i (take n b)))) \<le> n"
  using assms
proof (induction "n - i" arbitrary: s b i j rule: less_induct)
  case less
  show ?case
  proof (cases "i < n")
    case False
    then show ?thesis
      using less.prems by (simp add: filter_loop.simps [of _ _ "(s, b, i, j)"])
  next
    case True
    let ?xs = "drop i (take n b)"
    obtain s' k out where st: "step s ?xs = (s', k, out)" by (cases "step s ?xs")
    have ne: "?xs \<noteq> []" using True less.prems by simp
    have k: "0 < k" "pend s' + length out \<le> pend s + k" "pend s' + length out \<le> pend s + (n - i)"
      using step_bounds [OF ne st] less.prems(1) by auto
    have body: "body n (s, b, i, j) = Some (s', blit b j out, i + k, j + length out)"
      using body_step [OF True less.prems(1,2) st] .
    let ?b = "blit b j out"
    have inv: "j + length out + pend s' \<le> i + k" "j + length out + pend s' \<le> n"
      using k less.prems True by linarith+
    have len: "length ?b = length b" using inv less.prems(1) by simp
    have loop: "filter_loop n (body n) (s, b, i, j) =
        filter_loop n (body n) (s', ?b, i + k, j + length out)"
      using True by (simp add: filter_loop.simps [of _ _ "(s, b, i, j)"] body)
    have rest: "drop (i + k) (take n ?b) = drop k ?xs"
    proof (rule nth_equalityI)
      show "length (drop (i + k) (take n ?b)) = length (drop k ?xs)"
        using len by simp
    next
      fix m assume "m < length (drop (i + k) (take n ?b))"
      then show "drop (i + k) (take n ?b) ! m = drop k ?xs ! m"
        using inv less.prems(1) len by (simp add: ac_simps)
    qed
    have "\<exists>i'. filter_loop n (body n) (s', ?b, i + k, j + length out) =
         (case transduce step s' (drop (i + k) (take n ?b)) of (s'', o') \<Rightarrow>
            Some (s'', blit ?b (j + length out) o', i', j + length out + length o')) \<and>
         j + length out + length (snd (transduce step s' (drop (i + k) (take n ?b)))) +
           pend (fst (transduce step s' (drop (i + k) (take n ?b)))) \<le> n"
      by (rule less.hyps) (use True k inv less.prems len in simp_all)
    then show ?thesis
      using inv less.prems(1)
      by (simp add: loop rest transduce_step [of ?xs step s s' k out, OF ne st k(1)] case_prod_beta cmem
          add.assoc)
  qed
qed

lemma loop_run:
  assumes "n \<le> length b" "pend s = 0"
  obtains i' where
    "filter_loop n (body n) (s, b, 0, 0) =
       Some (fst (transduce step s (take n b)), blit b 0 (snd (transduce step s (take n b))), i',
             length (snd (transduce step s (take n b))))"
    "length (snd (transduce step s (take n b))) + pend (fst (transduce step s (take n b))) \<le> n"
  using loop_from [of n b 0 s 0] assms by (auto simp: case_prod_beta)

end

section \<open>Loops that look at one byte at a time\<close>

text \<open>A loop that keeps the bytes with property \<open>P\<close> and remembers in \<^verbatim>\<open>changed\<close> that it dropped one.\<close>

lemma transduce_filter:
  assumes "\<And>s x xs. step s (x # xs) = (s \<or> \<not> P x, 1, if P x then [x] else [])"
  shows "transduce step s xs = (s \<or> \<not> list_all P xs, filter P xs)"
proof (induction xs arbitrary: s)
  case Nil
  show ?case by simp
next
  case (Cons x xs)
  show ?case
    using transduce_step [of "x # xs" step, OF list.simps(3) assms] Cons.IH by simp
qed

text \<open>A loop that rewrites every byte where it stands.\<close>

definition map_body :: "(byte \<Rightarrow> byte) \<Rightarrow> nat \<Rightarrow> bool \<times> bytes \<Rightarrow> (bool \<times> bytes) option" where
  "map_body f i = (\<lambda>(changed, b). do {
     x \<leftarrow> rd b i;
     b \<leftarrow> wr b i (f x);
     Some (changed \<or> f x \<noteq> x, b) })"

lemma map_loop_from:
  assumes "n \<le> length b" "i \<le> n"
  shows "for_m i n (map_body f) (changed, b) =
     Some (changed \<or> map f (drop i (take n b)) \<noteq> drop i (take n b),
           take i b @ map f (drop i (take n b)) @ drop n b)"
  using assms
proof (induction "n - i" arbitrary: i changed b)
  case 0
  then show ?case by simp
next
  case (Suc m)
  then have i: "i < n" by simp
  have xs: "drop i (take n b) = b ! i # drop (Suc i) (take n b)"
    using i Suc.prems by (simp add: Cons_nth_drop_Suc [symmetric])
  let ?b = "b[i := f (b ! i)]"
  have body: "map_body f i (changed, b) = Some (changed \<or> f (b ! i) \<noteq> b ! i, ?b)"
    using i Suc.prems by (simp add: map_body_def)
  have b: "drop (Suc i) (take n ?b) = drop (Suc i) (take n b)" "drop n ?b = drop n b"
    "take (Suc i) ?b = take i b @ [f (b ! i)]"
    using i Suc.prems by (simp_all add: take_Suc_conv_app_nth drop_take)
  show ?case
    using Suc.hyps(1) [of "Suc i" ?b] Suc.hyps(2) i Suc.prems
    by (simp add: for_m_step [of i n "map_body f", OF i body] b xs)
qed

lemma map_loop_run:
  "n \<le> length b \<Longrightarrow>
   for_m 0 n (map_body f) (False, b) = Some (map f (take n b) \<noteq> take n b, map f (take n b) @ drop n b)"
  using map_loop_from [of n b 0 f False] by simp

end
