(* ===== verification/HtmlEntities.thy ===== *)
theory HtmlEntities
  imports EscapeDecoders
begin

text \<open>
  \<open>html_entities_decode_inplace\<close> of \<^verbatim>\<open>apache2/msc_util.c\<close>: numeric entities in both
  bases and the five named ones it knows, with or without the semicolon.
\<close>

text \<open>What the scan of an entity finds: a decoded byte and the index behind the entity's name
  or digits, or the number of raw bytes to copy (the \<^verbatim>\<open>goto HTML_ENT_OUT\<close> exits).\<close>

datatype html_result = Decoded byte nat | Copy nat

definition slice :: "bytes \<Rightarrow> nat \<Rightarrow> nat \<Rightarrow> bytes option" where
  "slice b k j = (if j \<le> length b then Some (take (j - k) (drop k b)) else None)"

definition strcasecmp_eq :: "bytes \<Rightarrow> bytes \<Rightarrow> bool" where
  "strcasecmp_eq xs ys \<longleftrightarrow> map c_tolower xs = map c_tolower ys"

definition NBSP :: byte where
  "NBSP = 160"

text \<open>The names are \<^verbatim>\<open>quot\<close>, \<^verbatim>\<open>amp\<close>, \<^verbatim>\<open>lt\<close>, \<^verbatim>\<open>gt\<close> and \<^verbatim>\<open>nbsp\<close>.\<close>

definition html_named :: "bytes \<Rightarrow> byte option" where
  "html_named x =
     (if strcasecmp_eq x [113, 117, 111, 116] then Some 34
      else if strcasecmp_eq x [97, 109, 112] then Some 38
      else if strcasecmp_eq x [108, 116] then Some 60
      else if strcasecmp_eq x [103, 116] then Some 62
      else if strcasecmp_eq x [110, 98, 115, 112] then Some NBSP
      else None)"

definition html_entity :: "bytes \<Rightarrow> nat \<Rightarrow> nat \<Rightarrow> html_result option" where
  "html_entity b n i = do {
     amp \<leftarrow> and_m [rdp b i (\<lambda>c. c = 38), Some (i + 1 < n)];
     if \<not> amp then Some (Copy 1)
     else do {
       let j = i + 1;
       c1 \<leftarrow> rd b j;
       if c1 = 35 then
         if \<not> j + 1 < n then Some (Copy 2)
         else do {
           let j = j + 1;
           c2 \<leftarrow> rd b j;
           if c2 = 120 \<or> c2 = 88 then
             if \<not> j + 1 < n then Some (Copy 3)
             else do {
               let k = j + 1;
               j \<leftarrow> scan c_isxdigit b n k;
               if j > k then do { x \<leftarrow> slice b k j; Some (Decoded (word_of_int (strtol x 16)) j) }
               else Some (Copy 3) }
           else do {
             let k = j;
             j \<leftarrow> scan c_isdigit b n k;
             if j > k then do { x \<leftarrow> slice b k j; Some (Decoded (word_of_int (strtol x 10)) j) }
             else Some (Copy 2) } }
       else do {
         let k = j;
         j \<leftarrow> scan c_isalnum b n k;
         if j > k then do {
           x \<leftarrow> slice b k j;
           case html_named x of
             Some v \<Rightarrow> Some (Decoded v j)
           | None \<Rightarrow> Some (Copy (j - k + 1)) }
         else Some (Copy 1) } } }"

text \<open>\<^verbatim>\<open>for (z = 0; ((z < copy) && (count < input_len)); z++)\<close>; the argument is the number of
  rounds left.\<close>

fun html_copy :: "nat \<Rightarrow> nat \<Rightarrow> 'u lstate \<Rightarrow> 'u lstate option" where
  "html_copy n 0 st = Some st"
| "html_copy n (Suc z) (u, b, i, d, count) =
     (if count < n then do {
        c \<leftarrow> rd b i;
        b \<leftarrow> wr b d c;
        html_copy n z (u, b, i + 1, d + 1, count + 1) }
      else Some (u, b, i, d, count))"

fun html_body :: "nat \<Rightarrow> 'u lstate \<Rightarrow> 'u lstate option" where
  "html_body n (u, b, i, d, count) = do {
     r \<leftarrow> html_entity b n i;
     case r of
       Decoded v j \<Rightarrow> do {
         b \<leftarrow> wr b d v;
         semi \<leftarrow> and_m [Some (j < n), rdp b j (\<lambda>c. c = 59)];
         Some (u, b, if semi then j + 1 else j, d + 1, count + 1) }
     | Copy m \<Rightarrow> html_copy n m (u, b, i, d, count) }"

fun html_guard :: "nat \<Rightarrow> 'u lstate \<Rightarrow> bool" where
  "html_guard n (u, b, i, d, count) = (i < n \<and> count < n)"

definition html_entities_decode_inplace :: "bytes option \<Rightarrow> nat \<Rightarrow> (nat \<times> bytes option) option" where
  "html_entities_decode_inplace input input_len =
     (case input of
        None \<Rightarrow> Some (0, None)
      | Some b \<Rightarrow>
          if input_len = 0 then Some (0, Some b)
          else do {
            (u, b, i, d, count) \<leftarrow>
              inplace_loop (html_guard input_len) (html_body input_len) ((), b, 0, 0, 0);
            b \<leftarrow> wr b d 0;
            Some (count, Some b) })"

section \<open>What it computes\<close>

text \<open>The same scan on the unread input, with relative indices.\<close>

definition html_spec :: "bytes \<Rightarrow> html_result" where
  "html_spec xs =
     (if \<not> (xs ! 0 = 38 \<and> 1 < length xs) then Copy 1
      else if xs ! 1 = 35 then
        if \<not> 2 < length xs then Copy 2
        else if xs ! 2 = 120 \<or> xs ! 2 = 88 then
          if \<not> 3 < length xs then Copy 3
          else let h = takeWhile c_isxdigit (drop 3 xs) in
            if h \<noteq> [] then Decoded (word_of_int (strtol h 16)) (3 + length h) else Copy 3
        else let h = takeWhile c_isdigit (drop 2 xs) in
          if h \<noteq> [] then Decoded (word_of_int (strtol h 10)) (2 + length h) else Copy 2
      else let h = takeWhile c_isalnum (drop 1 xs) in
        if h \<noteq> [] then
          case html_named h of Some v \<Rightarrow> Decoded v (1 + length h) | None \<Rightarrow> Copy (length h + 1)
        else Copy 1)"

definition html_step :: "'u tstep" where
  "html_step u xs =
     (case html_spec xs of
        Decoded v j \<Rightarrow> (u, if j < length xs \<and> xs ! j = 59 then j + 1 else j, [v])
      | Copy m \<Rightarrow> (u, m, take m xs))"

lemma html_spec_bounds:
  assumes "xs \<noteq> []"
  shows "case html_spec xs of Decoded v j \<Rightarrow> 1 < j \<and> j \<le> length xs | Copy m \<Rightarrow> 0 < m \<and> m \<le> length xs"
proof -
  have t: "length (takeWhile P (drop k xs)) \<le> length xs - k" for P k
    using length_takeWhile_le [of P "drop k xs"] by simp
  show ?thesis
    using assms t [of c_isxdigit 3] t [of c_isdigit 2] t [of c_isalnum 1]
    by (auto simp: html_spec_def Let_def Suc_le_eq split: option.splits)
qed

lemma scan_slice:
  assumes "n < length b" "k \<le> n"
  shows "scan P b n k = Some (k + length (takeWhile P (drop k (take n b))))"
    "slice b k (k + length (takeWhile P (drop k (take n b)))) = Some (takeWhile P (drop k (take n b)))"
proof -
  let ?h = "takeWhile P (drop k (take n b))"
  show "scan P b n k = Some (k + length ?h)" using assms by (intro scan_run) simp_all
  have le: "k + length ?h \<le> n"
    using length_takeWhile_le [of P "drop k (take n b)"] assms by simp
  have "take (length ?h) (drop k b) = take (length ?h) (drop k (take n b))"
    using le by (simp add: drop_take min_def)
  also have "\<dots> = ?h" by (metis takeWhile_eq_take)
  finally show "slice b k (k + length ?h) = Some ?h" using le assms by (simp add: slice_def)
qed

lemma html_entity_run:
  assumes "i < n" "n < length b"
  shows "html_entity b n i =
     Some (case html_spec (drop i (take n b)) of Decoded v j \<Rightarrow> Decoded v (i + j) | Copy m \<Rightarrow> Copy m)"
proof -
  let ?xs = "drop i (take n b)"
  have x: "i + k < n \<Longrightarrow> ?xs ! k = b ! (i + k)" for k using assms by simp
  have dr: "drop k ?xs = drop (i + k) (take n b)" for k by (simp add: add.commute)
  show ?thesis
  proof (cases "?xs ! 0 = 38 \<and> i + 1 < n")
    case False
    then show ?thesis using assms by (auto simp: html_entity_def html_spec_def)
  next
    case amp: True
    then have len: "1 < length ?xs" using assms by auto
    have r: "rdp b i (\<lambda>c. c = 38) = Some True" "rd b (i + 1) = Some (?xs ! 1)"
      using amp assms by simp_all
    have r2: "rd b (i + 1 + 1) = Some (?xs ! 2)" if "i + 1 + 1 < n" using that assms by simp
    have sc: "scan P b n (i + k) = Some (i + k + length (takeWhile P (drop k ?xs)))"
      "slice b (i + k) (i + k + length (takeWhile P (drop k ?xs))) = Some (takeWhile P (drop k ?xs))"
      if "i + k \<le> n" for P k
      using scan_slice [OF assms(2) that, of P] by (simp_all only: dr)
    have start: "html_entity b n i =
       (if ?xs ! 1 = 35 then
         if \<not> i + 1 + 1 < n then Some (Copy 2)
         else if ?xs ! 2 = 120 \<or> ?xs ! 2 = 88 then
             if \<not> i + 1 + 1 + 1 < n then Some (Copy 3)
             else do {
               j \<leftarrow> scan c_isxdigit b n (i + 3);
               if j > i + 3 then do { x \<leftarrow> slice b (i + 3) j; Some (Decoded (word_of_int (strtol x 16)) j) }
               else Some (Copy 3) }
           else do {
             j \<leftarrow> scan c_isdigit b n (i + 2);
             if j > i + 2 then do { x \<leftarrow> slice b (i + 2) j; Some (Decoded (word_of_int (strtol x 10)) j) }
             else Some (Copy 2) }
       else do {
         j \<leftarrow> scan c_isalnum b n (i + 1);
         if j > i + 1 then do {
           x \<leftarrow> slice b (i + 1) j;
           case html_named x of
             Some v \<Rightarrow> Some (Decoded v j)
           | None \<Rightarrow> Some (Copy (j - (i + 1) + 1)) }
         else Some (Copy 1) })"
      unfolding html_entity_def and_m.simps Let_def r Option.bind.bind_lunit
      using amp r2 by (simp add: numeral_3_eq_3 numeral_2_eq_2 del: rd_in cong: if_cong)
    have idx: "i + 1 + 1 < n \<longleftrightarrow> 2 < length ?xs" "i + 1 + 1 + 1 < n \<longleftrightarrow> 3 < length ?xs"
      using assms by auto
    consider (named) "?xs ! 1 \<noteq> 35" | (short) "?xs ! 1 = 35" "\<not> 2 < length ?xs"
      | (dec) "?xs ! 1 = 35" "2 < length ?xs" "\<not> (?xs ! 2 = 120 \<or> ?xs ! 2 = 88)"
      | (hshort) "?xs ! 1 = 35" "2 < length ?xs" "?xs ! 2 = 120 \<or> ?xs ! 2 = 88" "\<not> 3 < length ?xs"
      | (hex) "?xs ! 1 = 35" "?xs ! 2 = 120 \<or> ?xs ! 2 = 88" "3 < length ?xs"
      by linarith
    then show ?thesis
    proof cases
      case named
      then show ?thesis
        unfolding start html_spec_def Let_def using amp len sc [of 1]
        by (simp del: nth_drop nth_take drop_drop One_nat_def split: option.split)
    next
      case short
      then show ?thesis unfolding start idx html_spec_def using amp len by simp
    next
      case dec
      then have "i + 2 \<le> n" using assms by simp
      from dec sc [OF this] show ?thesis
        unfolding start idx html_spec_def Let_def using amp len
        by (simp del: nth_drop nth_take drop_drop length_drop)
    next
      case hshort
      then show ?thesis unfolding start idx html_spec_def using amp len by simp
    next
      case hex
      then have "i + 3 \<le> n" "2 < length ?xs" using assms by simp_all
      from hex sc [OF this(1)] this(2) show ?thesis
        unfolding start idx html_spec_def Let_def using amp len
        by (simp del: nth_drop nth_take drop_drop length_drop)
    qed
  qed
qed

lemma html_copy_run:
  "d \<le> i \<Longrightarrow> count \<le> i \<Longrightarrow> i + m \<le> n \<Longrightarrow> n < length b \<Longrightarrow>
   html_copy n m (u, b, i, d, count) = Some (u, blit b d (take m (drop i b)), i + m, d + m, count + m)"
proof (induction m arbitrary: b i d count)
  case 0
  then show ?case by simp
next
  case (Suc m)
  have xs: "take (Suc m) (drop i b) = b ! i # take m (drop (Suc i) b)"
    using Suc.prems by (simp add: Cons_nth_drop_Suc [symmetric])
  have dr: "drop (Suc i) (b[d := b ! i]) = drop (Suc i) b" using Suc.prems by simp
  show ?case
    using Suc.prems Suc.IH [of "Suc d" "Suc i" "Suc count" "b[d := b ! i]"]
    by (simp only: xs html_copy.simps) (simp add: dr blit_update_Cons)
qed

interpretation he: inplace_decoder html_guard html_body html_step
proof
  fix n i d count :: nat and s s' :: 'u and b out xs :: bytes and k :: nat
  show "html_guard n (s, b, i, d, count) \<longleftrightarrow> i < n" if "count \<le> i" using that by auto
  show "0 < k \<and> length out \<le> k \<and> length out \<le> length xs"
    if "xs \<noteq> []" "html_step s xs = (s', k, out)"
    using that html_spec_bounds [OF that(1)]
    by (auto simp: html_step_def Suc_le_eq split: html_result.splits if_splits)
  show "html_body n (s, b, i, d, count) =
      Some (s', blit b d out, i + k, d + length out, count + length out)"
    if i: "i < n" and n: "n < length b" and d: "d \<le> i" and c: "count \<le> i"
      and st: "html_step s (drop i (take n b)) = (s', k, out)"
  proof -
    let ?xs = "drop i (take n b)"
    have ne: "?xs \<noteq> []" using i n by simp
    have w: "wr b d v = Some (blit b d [v])" for v using i n d by (intro wr_blit) simp
    show ?thesis
    proof (cases "html_spec ?xs")
      case (Copy m)
      then have m: "i + m \<le> n" using html_spec_bounds [OF ne] i n by (simp add: le_diff_conv2 add.commute)
      then have "take m (drop i b) = take m ?xs" by (simp add: drop_take min_def)
      moreover have "length (take m ?xs) = m" using m n by simp
      ultimately show ?thesis
        using st Copy html_copy_run [OF d c m n] html_entity_run [OF i n]
        by (auto simp: html_step_def simp del: length_take take_drop)
    next
      case (Decoded v j)
      then have j: "1 < j" "i + j \<le> n" using html_spec_bounds [OF ne] i n by auto
      have "and_m [Some (i + j < n), rdp (blit b d [v]) (i + j) (\<lambda>c. c = 59)] =
          Some (j < length ?xs \<and> ?xs ! j = 59)"
        using j d n by (cases "i + j < n") auto
      then show ?thesis
        using st Decoded html_entity_run [OF i n]
        by (auto simp: html_step_def w simp del: wr_in nth_drop nth_take length_drop)
    qed
  qed
qed

definition html_decoded :: "bytes \<Rightarrow> bytes" where
  "html_decoded xs = snd (transduce html_step () xs)"

lemma html_entities_run:
  assumes "n < length b" "b ! n = 0"
  shows "html_entities_decode_inplace (Some b) n =
     (if n = 0 then Some (0, Some b)
      else let out = html_decoded (take n b) in
        Some (length out, Some (out @ 0 # drop (Suc (length out)) b)))"
proof -
  obtain i' where "inplace_loop (html_guard n) (html_body n) ((), b, 0, 0, 0) =
      Some ((), blit b 0 (html_decoded (take n b)), i', length (html_decoded (take n b)),
            length (html_decoded (take n b)))"
    and "length (html_decoded (take n b)) \<le> n"
    using he.loop_run [OF assms, of "()"] by (auto simp: html_decoded_def case_prod_beta)
  then show ?thesis
    using assms(1) by (simp add: html_entities_decode_inplace_def wr_terminate Let_def del: wr_in)
qed

lemma html_decoded_plain: "38 \<notin> set xs \<Longrightarrow> html_decoded xs = xs"
  using transduce_id [of 38 html_step "()" xs]
  by (simp add: html_decoded_def html_step_def html_spec_def)

section \<open>Properties\<close>

lemma html_decoded_length: "length (html_decoded xs) \<le> length xs"
  unfolding html_decoded_def by (rule he.length_transduce)

lemma html_entities_total:
  "html_entities_decode_inplace (Some (xs @ 0 # rest)) (length xs) =
     Some (length (html_decoded xs),
           Some (html_decoded xs @ 0 # drop (Suc (length (html_decoded xs))) (xs @ 0 # rest)))"
  using html_entities_run [of "length xs" "xs @ 0 # rest"]
  by (cases xs) (simp_all add: Let_def html_decoded_plain del: drop_append)

text \<open>
  \<open>html_entities_decode_inplace\<close> never leaves its buffer, whatever the input; it writes
  \<open>html_decoded\<close>, NUL-terminated and not longer than the input, and returns its length.
\<close>

theorem html_entities_correct:
  "html_entities_decode_inplace (Some (xs @ 0 # rest)) (length xs) =
     Some (length (html_decoded xs),
           Some (html_decoded xs @ 0 # drop (Suc (length (html_decoded xs))) (xs @ 0 # rest))) \<and>
   length (html_decoded xs) \<le> length xs"
  using html_entities_total [of xs rest] html_decoded_length [of xs] by simp

text \<open>The reference \<^verbatim>\<open>&#xHH;\<close> of a byte.\<close>

definition html_escape :: "byte \<Rightarrow> bytes" where
  "html_escape c = [38, 35, 120, c2x_hi c, c2x_lo c, 59]"

lemma c2x_table_digit: "h < 16 \<Longrightarrow> digit_val (c2x_table ! h) = int h"
proof -
  assume h: "h < 16"
  have "list_all (\<lambda>h. digit_val (c2x_table ! h) = int h) [0..<16]"
    by (simp add: upt_conv_Cons c2x_table_def digit_val_def)
  with h show ?thesis by (simp add: list_all_iff del: upt_rec_numeral)
qed

lemma strtol_c2x: "strtol [c2x_hi c, c2x_lo c] 16 = uint c"
proof -
  have d: "digit_val (c2x_hi c) = int (unat (drop_bit 4 c))" "digit_val (c2x_lo c) = int (unat (c AND 15))"
    using c2x_table_digit [OF nibble_hi [of c]] c2x_table_digit [OF nibble_lo [of c]]
    by (simp_all add: c2x_hi_def c2x_lo_def)
  have n: "uint (drop_bit 4 c) < 16" "uint (c AND 15) < 16"
    using nibble_hi [of c] nibble_lo [of c] by (simp_all only: uint_nat of_nat_less_numeral_iff)
  have "int (unat (drop_bit 4 c)) * 16 + int (unat (c AND 15)) = uint c"
  proof -
    have "unat (drop_bit 4 c) = unat c div 16" by (simp only: unat_drop_bit_eq) (simp add: drop_bit_eq_div)
    moreover have "unat (c AND 15) = unat c mod 16"
    proof -
      have "c AND 15 = take_bit 4 c" by (simp add: take_bit_eq_mask mask_eq_exp_minus_1)
      then show ?thesis by (simp only: unsigned_take_bit_eq) (simp add: take_bit_eq_mod)
    qed
    ultimately show ?thesis by (metis div_mult_mod_eq of_nat_add of_nat_mult of_nat_numeral uint_nat)
  qed
  moreover have "uint c < 256" using uint_lt2p [of c] by simp
  ultimately show ?thesis using d n by (simp add: strtol_def)
qed

lemma html_decoded_escape: "html_decoded (html_escape c @ xs) = c # html_decoded xs"
proof -
  have sp: "\<not> c_isxdigit 59" by (simp add: c_isxdigit_def c_isdigit_def)
  have "takeWhile c_isxdigit ([c2x_hi c, c2x_lo c, 59] @ xs) = [c2x_hi c, c2x_lo c]"
    using c2x_digits_valid [of c] by (simp add: sp VALID_HEX_xdigit)
  then have "html_spec (html_escape c @ xs) = Decoded c 5"
    by (simp add: html_spec_def html_escape_def strtol_c2x numeral_3_eq_3)
  then have "html_step () (html_escape c @ xs) = ((), 6, [c])"
    by (simp add: html_step_def html_escape_def)
  then show ?thesis
    using transduce_step [of "html_escape c @ xs" html_step "()" "()" 6 "[c]"]
    by (simp add: html_decoded_def html_escape_def)
qed

lemma html_decoded_escapes: "html_decoded (concat (map html_escape xs)) = xs"
  by (induction xs) (simp add: html_decoded_def, simp add: html_decoded_escape)

text \<open>
  a string in which every byte is written as a hexadecimal character reference is decoded
  to exactly those bytes.
\<close>

theorem html_entities_escapes:
  "\<exists>tail. html_entities_decode_inplace (Some (concat (map html_escape xs) @ 0 # rest))
       (length (concat (map html_escape xs))) =
     Some (length xs, Some (xs @ 0 # tail))"
  using html_entities_total [of "concat (map html_escape xs)" rest]
  by (simp add: html_decoded_escapes)

end
