(* ===== verification/Transforms.thy ===== *)
theory Transforms
  imports FilterLoop HtmlEntities
begin

text \<open>
  The transformation functions of \<^verbatim>\<open>apache2/re_tfns.c\<close> that do their own work:
  \<open>cmdline\<close>, \<open>lowercase\<close>, \<open>trimLeft\<close>, \<open>trimRight\<close>, \<open>trim\<close>, \<open>removeNulls\<close>,
  \<open>replaceNulls\<close>, \<open>compressWhitespace\<close>, \<open>removeWhitespace\<close> and the three parity functions.
  The result of each is the return value, the input buffer as it is left, the offset of
  \<^verbatim>\<open>*rval\<close> in that buffer, and \<^verbatim>\<open>*rval_len\<close>.
\<close>

type_synonym tfn_result = "int \<times> bytes \<times> nat \<times> nat"

definition int_of :: "bool \<Rightarrow> int" where
  "int_of p = (if p then 1 else 0)"

section \<open>Loops that rewrite each byte\<close>

definition lowercase_execute :: "bytes \<Rightarrow> nat \<Rightarrow> tfn_result option" where
  "lowercase_execute input input_len = do {
     (changed, input) \<leftarrow> for_m 0 input_len (map_body c_tolower) (False, input);
     Some (int_of changed, input, 0, input_len) }"

definition replaceNulls_body :: "nat \<Rightarrow> bool \<times> bytes \<Rightarrow> (bool \<times> bytes) option" where
  "replaceNulls_body i = (\<lambda>(changed, b). do {
     c \<leftarrow> rd b i;
     if c = 0 then do { b \<leftarrow> wr b i 32; Some (True, b) } else Some (changed, b) })"

definition replaceNulls_execute :: "bytes \<Rightarrow> nat \<Rightarrow> tfn_result option" where
  "replaceNulls_execute input input_len = do {
     (changed, input) \<leftarrow> for_m 0 input_len replaceNulls_body (False, input);
     Some (int_of changed, input, 0, input_len) }"

text \<open>\<^verbatim>\<open>input[i] ^= input[i] >> 4; input[i] &= 0xf; (0x6996 >> input[i]) & 1\<close>\<close>

definition odd_bits :: "byte \<Rightarrow> bool" where
  "odd_bits x = bit (0x6996 :: nat) (unat ((x XOR drop_bit 4 x) AND 0xf))"

definition even7 :: "byte \<Rightarrow> byte" where
  "even7 x = (if odd_bits x then x OR 0x80 else x AND 0x7f)"

definition odd7 :: "byte \<Rightarrow> byte" where
  "odd7 x = (if odd_bits x then x AND 0x7f else x OR 0x80)"

definition zero7 :: "byte \<Rightarrow> byte" where
  "zero7 x = x AND 0x7f"

definition parityEven7bit_execute :: "bytes \<Rightarrow> nat \<Rightarrow> tfn_result option" where
  "parityEven7bit_execute input input_len = do {
     (changed, input) \<leftarrow> for_m 0 input_len (map_body even7) (False, input);
     Some (int_of changed, input, 0, input_len) }"

definition parityZero7bit_execute :: "bytes \<Rightarrow> nat \<Rightarrow> tfn_result option" where
  "parityZero7bit_execute input input_len = do {
     (changed, input) \<leftarrow> for_m 0 input_len (map_body zero7) (False, input);
     Some (int_of changed, input, 0, input_len) }"

definition parityOdd7bit_execute :: "bytes \<Rightarrow> nat \<Rightarrow> tfn_result option" where
  "parityOdd7bit_execute input input_len = do {
     (changed, input) \<leftarrow> for_m 0 input_len (map_body odd7) (False, input);
     Some (int_of changed, input, 0, input_len) }"

definition null_to_space :: "byte \<Rightarrow> byte" where
  "null_to_space c = (if c = 0 then 32 else c)"

lemma replaceNulls_map: "replaceNulls_body i st = map_body null_to_space i st"
proof (cases st)
  case (Pair changed b)
  then show ?thesis
    by (cases "i < length b") (auto simp: replaceNulls_body_def map_body_def null_to_space_def)
qed

lemma map_loop_ret:
  "(case for_m 0 (length xs) (map_body f) (False, xs @ rest) of
      None \<Rightarrow> None | Some (changed, b) \<Rightarrow> Some (int_of changed, b, 0 :: nat, length xs)) =
   Some (int_of (map f xs \<noteq> xs), map f xs @ rest, 0, length xs)"
  using map_loop_run [of "length xs" "xs @ rest" f] by simp

section \<open>Trimming\<close>

text \<open>The three functions work on the string of \<open>n\<close> bytes at offset \<open>p\<close>, since \<open>trim\<close> passes the
  pointer \<open>trimLeft\<close> has advanced on to \<open>trimRight\<close>.\<close>

definition trimLeft_execute :: "bytes \<Rightarrow> nat \<Rightarrow> nat \<Rightarrow> tfn_result option" where
  "trimLeft_execute b p n = do {
     q \<leftarrow> scan c_isspace b (p + n) p;
     let i = q - p;
     Some (int_of (n - i \<noteq> n), b, q, n - i) }"

text \<open>The second argument is \<^verbatim>\<open>i + 1\<close>.\<close>

fun trimRight_loop :: "bytes \<Rightarrow> nat \<Rightarrow> nat \<Rightarrow> (bytes \<times> nat) option" where
  "trimRight_loop b p 0 = Some (b, 0)"
| "trimRight_loop b p (Suc i) = do {
     c \<leftarrow> rd b (p + i);
     if \<not> c_isspace c then Some (b, Suc i)
     else do { b \<leftarrow> wr b (p + i) 0; trimRight_loop b p i } }"

definition trimRight_execute :: "bytes \<Rightarrow> nat \<Rightarrow> nat \<Rightarrow> tfn_result option" where
  "trimRight_execute b p n = do {
     (b, len) \<leftarrow> trimRight_loop b p n;
     Some (int_of (len \<noteq> n), b, p, len) }"

definition trim_execute :: "bytes \<Rightarrow> nat \<Rightarrow> tfn_result option" where
  "trim_execute input input_len = do {
     (rc, b, rval, rval_len) \<leftarrow> trimLeft_execute input 0 input_len;
     (rc, b, rval, rval_len) \<leftarrow>
       (if rc = 1 then trimRight_execute b rval rval_len else trimRight_execute b 0 input_len);
     Some (int_of (rval_len \<noteq> input_len), b, rval, rval_len) }"

definition rstrip :: "bytes \<Rightarrow> bytes" where
  "rstrip xs = rev (dropWhile c_isspace (rev xs))"

lemma trimRight_loop_run:
  "trimRight_loop (pre @ xs @ post) (length pre) (length xs) =
     Some (pre @ rstrip xs @ replicate (length xs - length (rstrip xs)) 0 @ post, length (rstrip xs))"
proof (induction xs arbitrary: post rule: rev_induct)
  case Nil
  show ?case by (simp add: rstrip_def)
next
  case (snoc x xs)
  show ?case
  proof (cases "c_isspace x")
    case False
    then show ?thesis by (simp add: rstrip_def nth_append)
  next
    case True
    have "length (rstrip xs) \<le> length xs"
      using length_dropWhile_le [of c_isspace "rev xs"] by (simp add: rstrip_def)
    then show ?thesis
      using True snoc.IH [of "0 # post"]
      by (simp add: rstrip_def nth_append list_update_append Suc_diff_le replicate_append_same)
  qed
qed


definition bit_parity :: "byte \<Rightarrow> bool" where
  "bit_parity x = (((bit x 0 \<noteq> bit x 1) \<noteq> (bit x 2 \<noteq> bit x 3)) \<noteq> ((bit x 4 \<noteq> bit x 5) \<noteq> (bit x 6 \<noteq> bit x 7)))"

lemma nib: "n < 16 \<Longrightarrow> bit (0x6996 :: nat) n = (((bit n 0 \<noteq> bit n 1) \<noteq> bit n 2) \<noteq> bit n 3)"
proof -
  assume "n < 16"
  then have "n \<in> {0, 1, 2, 3, 4, 5, 6, 7, 8, 9, 10, 11, 12, 13, 14, 15}" by simp arith
  then show ?thesis by (elim insertE emptyE) (simp_all add: bit_0)
qed

lemma odd_bits_parity: "odd_bits x = bit_parity x"
proof -
  have "unat ((x XOR drop_bit 4 x) AND 15) < 16" by (rule nibble_lo)
  then show ?thesis
    by (simp add: odd_bits_def nib bit_parity_def bit_unsigned_iff bit_and_iff bit_xor_iff bit_drop_bit_eq)
      argo
qed


lemma parity_even7: "bit_parity (even7 c) = bit c 7" and parity_odd7: "bit_parity (odd7 c) = (\<not> bit c 7)"
  by (auto simp: even7_def odd7_def odd_bits_parity bit_parity_def bit_or_iff bit_and_iff)

section \<open>Filters\<close>

fun removeNulls_body :: "nat \<Rightarrow> bool fstate \<Rightarrow> bool fstate option" where
  "removeNulls_body n (changed, b, i, j) = do {
     c \<leftarrow> rd b i;
     if c = 0 then Some (True, b, i + 1, j)
     else do { b \<leftarrow> wr b j c; Some (changed, b, i + 1, j + 1) } }"

fun removeWhitespace_body :: "nat \<Rightarrow> bool fstate \<Rightarrow> bool fstate option" where
  "removeWhitespace_body n (changed, b, i, j) = do {
     c \<leftarrow> rd b i;
     if c_isspace c \<or> c = NBSP then Some (True, b, i + 1, j)
     else do { b \<leftarrow> wr b j c; Some (changed, b, i + 1, j + 1) } }"

text \<open>The local state is \<^verbatim>\<open>changed\<close>, \<^verbatim>\<open>inwhitespace\<close> and \<^verbatim>\<open>count\<close>.\<close>

fun compressWhitespace_body ::
  "nat \<Rightarrow> (bool \<times> bool \<times> nat) fstate \<Rightarrow> (bool \<times> bool \<times> nat) fstate option"
where
  "compressWhitespace_body n ((changed, inwhitespace, count), b, i, j) = do {
     c \<leftarrow> rd b i;
     if c_isspace c \<or> c = NBSP then Some ((changed \<or> inwhitespace, True, count + 1), b, i + 1, j)
     else do {
       (b, count, j) \<leftarrow>
         (if count > 0 then do { b \<leftarrow> wr b j 32; Some (b, 0, j + 1) } else Some (b, count, j));
       c \<leftarrow> rd b i;
       b \<leftarrow> wr b j c;
       Some ((changed, False, count), b, i + 1, j + 1) } }"

definition removeNulls_execute :: "bytes \<Rightarrow> nat \<Rightarrow> tfn_result option" where
  "removeNulls_execute input input_len = do {
     (changed, b, i, j) \<leftarrow> filter_loop input_len (removeNulls_body input_len) (False, input, 0, 0);
     Some (int_of changed, b, 0, j) }"

definition removeWhitespace_execute :: "bytes \<Rightarrow> nat \<Rightarrow> tfn_result option" where
  "removeWhitespace_execute input input_len = do {
     (changed, b, i, j) \<leftarrow> filter_loop input_len (removeWhitespace_body input_len) (False, input, 0, 0);
     Some (int_of changed, b, 0, j) }"

definition compressWhitespace_execute :: "bytes \<Rightarrow> nat \<Rightarrow> tfn_result option" where
  "compressWhitespace_execute input input_len = do {
     ((changed, inwhitespace, count), b, i, j) \<leftarrow>
       filter_loop input_len (compressWhitespace_body input_len) ((False, False, 0), input, 0, 0);
     if count > 0 then do { b \<leftarrow> wr b j 32; Some (int_of changed, b, 0, j + 1) }
     else Some (int_of changed, b, 0, j) }"

definition keep_step :: "(byte \<Rightarrow> bool) \<Rightarrow> bool tstep" where
  "keep_step P ch xs = (ch \<or> \<not> P (xs ! 0), 1, if P (xs ! 0) then [xs ! 0] else [])"

definition no_blank :: "byte \<Rightarrow> bool" where
  "no_blank c \<longleftrightarrow> \<not> (c_isspace c \<or> c = NBSP)"

interpretation rn: inplace_filter removeNulls_body "keep_step (\<lambda>c. c \<noteq> 0)" "\<lambda>_. 0"
proof
  fix n i j k :: nat and s s' :: bool and b out xs :: bytes
  show "0 < k \<and> 0 + length out \<le> 0 + k \<and> 0 + length out \<le> 0 + length xs"
    if "xs \<noteq> []" "keep_step (\<lambda>c. c \<noteq> 0) s xs = (s', k, out)"
    using that by (cases xs) (auto simp: keep_step_def)
  show "removeNulls_body n (s, b, i, j) = Some (s', blit b j out, i + k, j + length out)"
    if "i < n" "n \<le> length b" "j + 0 \<le> i" "keep_step (\<lambda>c. c \<noteq> 0) s (drop i (take n b)) = (s', k, out)"
    using that by (auto simp: keep_step_def blit_single split: if_splits)
qed

interpretation rw: inplace_filter removeWhitespace_body "keep_step no_blank" "\<lambda>_. 0"
proof
  fix n i j k :: nat and s s' :: bool and b out xs :: bytes
  show "0 < k \<and> 0 + length out \<le> 0 + k \<and> 0 + length out \<le> 0 + length xs"
    if "xs \<noteq> []" "keep_step no_blank s xs = (s', k, out)"
    using that by (cases xs) (auto simp: keep_step_def)
  show "removeWhitespace_body n (s, b, i, j) = Some (s', blit b j out, i + k, j + length out)"
    if "i < n" "n \<le> length b" "j + 0 \<le> i" "keep_step no_blank s (drop i (take n b)) = (s', k, out)"
    using that by (auto simp: keep_step_def no_blank_def blit_single split: if_splits)
qed

lemma transduce_keep: "transduce (keep_step P) ch xs = (ch \<or> \<not> list_all P xs, filter P xs)"
  by (rule transduce_filter) (simp add: keep_step_def)

text \<open>White space runs become one space; the flag says whether a run is open.\<close>

fun squeeze :: "bool \<Rightarrow> bytes \<Rightarrow> bytes" where
  "squeeze sp [] = (if sp then [32] else [])"
| "squeeze sp (c # cs) =
     (if no_blank c then (if sp then [32, c] else [c]) @ squeeze False cs else squeeze True cs)"

fun has_run :: "bool \<Rightarrow> bytes \<Rightarrow> bool" where
  "has_run sp [] = False"
| "has_run sp (c # cs) = (if no_blank c then has_run False cs else sp \<or> has_run True cs)"

definition cw_step :: "(bool \<times> bool \<times> nat) tstep" where
  "cw_step s xs =
     (case s of (ch, inw, count) \<Rightarrow>
       if no_blank (xs ! 0) then ((ch, False, 0), 1, if count > 0 then [32, xs ! 0] else [xs ! 0])
       else ((ch \<or> inw, True, count + 1), 1, []))"

definition cw_pend :: "bool \<times> bool \<times> nat \<Rightarrow> nat" where
  "cw_pend s = (if snd (snd s) > 0 then 1 else 0)"

interpretation cw: inplace_filter compressWhitespace_body cw_step cw_pend
proof
  fix n i j k :: nat and s s' :: "bool \<times> bool \<times> nat" and b out xs :: bytes
  show "0 < k \<and> cw_pend s' + length out \<le> cw_pend s + k \<and> cw_pend s' + length out \<le> cw_pend s + length xs"
    if "xs \<noteq> []" "cw_step s xs = (s', k, out)"
    using that by (cases s; cases xs) (auto simp: cw_step_def cw_pend_def split: if_splits)
  show "compressWhitespace_body n (s, b, i, j) = Some (s', blit b j out, i + k, j + length out)"
    if i: "i < n" and n: "n \<le> length b" and j: "j + cw_pend s \<le> i"
      and st: "cw_step s (drop i (take n b)) = (s', k, out)"
  proof -
    obtain ch inw count where s: "s = (ch, inw, count)" by (cases s)
    have two: "(b[j := 32])[Suc j := b ! i] = blit b j [32, b ! i]" "Suc j < length b" if "0 < count"
      using that i n j s blit_blit [of j "[32]" b "[b ! i]"] by (simp_all add: blit_single cw_pend_def)
    show ?thesis
      using st i n j two by (auto simp: s cw_step_def cw_pend_def no_blank_def blit_single split: if_splits)
  qed
qed

lemma transduce_cw:
  "0 < count \<longleftrightarrow> inw \<Longrightarrow>
   snd (transduce cw_step (ch, inw, count) xs) @ (if cw_pend (fst (transduce cw_step (ch, inw, count) xs)) > 0 then [32] else []) =
     squeeze inw xs \<and>
   fst (fst (transduce cw_step (ch, inw, count) xs)) = (ch \<or> has_run inw xs)"
proof (induction xs arbitrary: ch inw count)
  case Nil
  then show ?case by (simp add: cw_pend_def)
next
  case (Cons c cs)
  show ?case
  proof (cases "no_blank c")
    case True
    then have "cw_step (ch, inw, count) (c # cs) = ((ch, False, 0), 1, if count > 0 then [32, c] else [c])"
      by (simp add: cw_step_def)
    from transduce_step [of "c # cs" cw_step, OF list.simps(3) this] show ?thesis
      using Cons.IH [of 0 False ch] Cons.prems True by simp
  next
    case False
    then have "cw_step (ch, inw, count) (c # cs) = ((ch \<or> inw, True, count + 1), 1, [])"
      by (simp add: cw_step_def)
    from transduce_step [of "c # cs" cw_step, OF list.simps(3) this] show ?thesis
      using Cons.IH [of "count + 1" True "ch \<or> inw"] Cons.prems False by simp
  qed
qed

section \<open>Properties\<close>

lemma simple_transforms_run:
  "lowercase_execute (xs @ rest) (length xs) =
     Some (int_of (map c_tolower xs \<noteq> xs), map c_tolower xs @ rest, 0, length xs) \<and>
   replaceNulls_execute (xs @ rest) (length xs) =
     Some (int_of (map null_to_space xs \<noteq> xs), map null_to_space xs @ rest, 0, length xs) \<and>
   removeNulls_execute (xs @ rest) (length xs) =
     Some (int_of (\<not> list_all (\<lambda>c. c \<noteq> 0) xs), blit (xs @ rest) 0 (filter (\<lambda>c. c \<noteq> 0) xs), 0,
           length (filter (\<lambda>c. c \<noteq> 0) xs)) \<and>
   removeWhitespace_execute (xs @ rest) (length xs) =
     Some (int_of (\<not> list_all no_blank xs), blit (xs @ rest) 0 (filter no_blank xs), 0,
           length (filter no_blank xs))"
proof -
  note m = map_loop_run [of "length xs" "xs @ rest"]
  have eq: "replaceNulls_body = map_body null_to_space" by (intro ext) (rule replaceNulls_map)
  show ?thesis
    using m [of c_tolower] m [of null_to_space]
      rn.loop_from [of "length xs" "xs @ rest" 0 0 False] rw.loop_from [of "length xs" "xs @ rest" 0 0 False]
    by (auto simp: lowercase_execute_def replaceNulls_execute_def eq removeNulls_execute_def
        removeWhitespace_execute_def transduce_keep)
qed

text \<open>
  \<open>lowercase\<close>, \<open>replaceNulls\<close>, \<open>removeNulls\<close> and \<open>removeWhitespace\<close> touch only the
  \<^verbatim>\<open>input_len\<close> bytes they are given: the first two rewrite every byte in place, the other
  two keep exactly the wanted bytes, in order, and each returns 1 exactly when it changed something.
\<close>

theorem simple_transforms_correct:
  "lowercase_execute (xs @ rest) (length xs) =
     Some (int_of (map c_tolower xs \<noteq> xs), map c_tolower xs @ rest, 0, length xs) \<and>
   replaceNulls_execute (xs @ rest) (length xs) =
     Some (int_of (map null_to_space xs \<noteq> xs), map null_to_space xs @ rest, 0, length xs) \<and>
   removeNulls_execute (xs @ rest) (length xs) =
     Some (int_of (\<not> list_all (\<lambda>c. c \<noteq> 0) xs), blit (xs @ rest) 0 (filter (\<lambda>c. c \<noteq> 0) xs), 0,
           length (filter (\<lambda>c. c \<noteq> 0) xs)) \<and>
   removeWhitespace_execute (xs @ rest) (length xs) =
     Some (int_of (\<not> list_all no_blank xs), blit (xs @ rest) 0 (filter no_blank xs), 0,
           length (filter no_blank xs))"
  by (rule simple_transforms_run)

lemma compressWhitespace_run:
  "\<exists>b. compressWhitespace_execute (xs @ rest) (length xs) =
     Some (int_of (has_run False xs), b, 0, length (squeeze False xs)) \<and>
     take (length (squeeze False xs)) b = squeeze False xs \<and> length (squeeze False xs) \<le> length xs"
proof -
  let ?t = "transduce cw_step (False, False, 0) xs"
  obtain ch inw count out where t: "?t = ((ch, inw, count), out)" by (metis surj_pair)
  from cw.loop_from [of "length xs" "xs @ rest" 0 "(False, False, 0)" 0] t obtain i' where
    loop: "filter_loop (length xs) (compressWhitespace_body (length xs)) ((False, False, 0), xs @ rest, 0, 0) =
       Some ((ch, inw, count), blit (xs @ rest) 0 out, i', length out)"
    and fits: "length out + cw_pend (ch, inw, count) \<le> length xs"
    by (auto simp: cw_pend_def)
  have sq: "out @ (if count > 0 then [32] else []) = squeeze False xs" "ch = has_run False xs"
    using transduce_cw [of 0 False False xs] t by (auto simp: cw_pend_def)
  show ?thesis
  proof (cases "count > 0")
    case True
    have "(blit (xs @ rest) 0 out)[length out := 32] = blit (xs @ rest) 0 (squeeze False xs)"
      using fits True sq(1) blit_blit [of 0 out "xs @ rest" "[32]"] by (simp add: blit_single cw_pend_def)
    moreover have "length (squeeze False xs) = Suc (length out)" using sq(1) True by (metis length_append_singleton)
    ultimately show ?thesis
      using loop fits True sq(2) take_blit_0 [of "squeeze False xs" "xs @ rest"]
      by (simp add: compressWhitespace_execute_def cw_pend_def)
  next
    case False
    then show ?thesis
      using loop fits sq take_blit_0 [of "squeeze False xs" "xs @ rest"]
      by (simp add: compressWhitespace_execute_def)
  qed
qed

text \<open>
  \<open>compressWhitespace\<close> replaces every run of white space (the non-breaking space counts) by
  one space, in place and without passing the end of the input, and returns 1 exactly when a run
  was longer than one byte: a run of one tab becomes a space without being reported.
\<close>

theorem compressWhitespace_correct:
  "\<exists>b. compressWhitespace_execute (xs @ rest) (length xs) =
     Some (int_of (has_run False xs), b, 0, length (squeeze False xs)) \<and>
     take (length (squeeze False xs)) b = squeeze False xs \<and> length (squeeze False xs) \<le> length xs"
  by (rule compressWhitespace_run)

lemma trimRight_run:
  "trimRight_execute (pre @ xs @ post) (length pre) (length xs) =
     Some (int_of (length (rstrip xs) \<noteq> length xs),
           pre @ rstrip xs @ replicate (length xs - length (rstrip xs)) 0 @ post, length pre, length (rstrip xs))"
  by (simp add: trimRight_execute_def trimRight_loop_run)

lemma trimLeft_run:
  "trimLeft_execute (xs @ post) 0 (length xs) =
     (let k = length (takeWhile c_isspace xs) in Some (int_of (k \<noteq> 0), xs @ post, k, length xs - k))"
proof -
  have "length xs - length (takeWhile c_isspace xs) \<noteq> length xs \<longleftrightarrow> length (takeWhile c_isspace xs) \<noteq> 0"
    using length_takeWhile_le [of c_isspace xs] by arith
  then show ?thesis
    using scan_run [of "length xs" "xs @ post" 0 c_isspace] by (simp add: trimLeft_execute_def Let_def)
qed

lemma trim_run:
  "\<exists>b off. trim_execute (xs @ rest) (length xs) =
     Some (int_of (rstrip (dropWhile c_isspace xs) \<noteq> xs), b, off, length (rstrip (dropWhile c_isspace xs))) \<and>
     take (length (rstrip (dropWhile c_isspace xs))) (drop off b) = rstrip (dropWhile c_isspace xs)"
proof -
  let ?l = "takeWhile c_isspace xs" and ?r = "dropWhile c_isspace xs"
  have lr: "xs = ?l @ ?r" by simp
  have len: "length xs - length ?l = length ?r" by (metis add_diff_cancel_left' length_append lr)
  obtain ys where ys: "?r = rstrip ?r @ ys"
    unfolding rstrip_def by (metis rev_append rev_rev_ident takeWhile_dropWhile_id)
  have eq: "length (rstrip ?r) \<noteq> length xs \<longleftrightarrow> rstrip ?r \<noteq> xs"
  proof (cases "?l = [] \<and> ys = []")
    case True
    then have "rstrip ?r = xs" using lr ys by (metis append_Nil append_Nil2)
    then show ?thesis by simp
  next
    case False
    have "length xs = length ?l + length (rstrip ?r) + length ys"
      using len length_takeWhile_le [of c_isspace xs] arg_cong [OF ys, of length] by simp
    then have "length (rstrip ?r) \<noteq> length xs" using False by auto
    then show ?thesis by auto
  qed
  have R: "trimRight_execute (xs @ rest) (length ?l) (length ?r) =
      Some (int_of (length (rstrip ?r) \<noteq> length ?r),
        ?l @ rstrip ?r @ replicate (length ?r - length (rstrip ?r)) 0 @ rest, length ?l, length (rstrip ?r))"
  proof -
    have "?l @ ?r @ rest = xs @ rest" by (metis append_assoc takeWhile_dropWhile_id)
    then show ?thesis using trimRight_run [of ?l ?r rest] by (simp only:)
  qed
  show ?thesis
  proof (cases "?l = []")
    case True
    then have "?r = xs" using lr by (metis append_Nil)
    then show ?thesis
      using R True eq by (simp add: trim_execute_def trimLeft_run Let_def int_of_def)
  next
    case False
    then show ?thesis
      using R eq len by (simp add: trim_execute_def trimLeft_run Let_def int_of_def)
  qed
qed

text \<open>
  \<open>trim\<close> returns a pointer into its input and a length that select exactly the input without
  the white space at both ends, and reports whether there was any.
\<close>

theorem trim_correct:
  "\<exists>b off. trim_execute (xs @ rest) (length xs) =
     Some (int_of (rstrip (dropWhile c_isspace xs) \<noteq> xs), b, off, length (rstrip (dropWhile c_isspace xs))) \<and>
     take (length (rstrip (dropWhile c_isspace xs))) (drop off b) = rstrip (dropWhile c_isspace xs)"
  by (rule trim_run)

lemma parity_run:
  "parityEven7bit_execute (xs @ rest) (length xs) =
     Some (int_of (map even7 xs \<noteq> xs), map even7 xs @ rest, 0, length xs) \<and>
   map bit_parity (map even7 xs) = map (\<lambda>c. bit c 7) xs \<and>
   parityOdd7bit_execute (xs @ rest) (length xs) =
     Some (int_of (map odd7 xs \<noteq> xs), map odd7 xs @ rest, 0, length xs) \<and>
   map bit_parity (map odd7 xs) = map (\<lambda>c. \<not> bit c 7) xs"
  using map_loop_run [of "length xs" "xs @ rest" even7] map_loop_run [of "length xs" "xs @ rest" odd7]
  by (simp add: parityEven7bit_execute_def parityOdd7bit_execute_def parity_even7 parity_odd7)

text \<open>
  the parity functions rewrite every byte in place; \<open>parityEven7bit\<close> gives a byte of even
  parity, and \<open>parityOdd7bit\<close> one of odd parity, exactly when the eighth bit of the input byte was
  clear: the bit is counted, not masked out, before the parity is taken.
\<close>

theorem parity_correct:
  "parityEven7bit_execute (xs @ rest) (length xs) =
     Some (int_of (map even7 xs \<noteq> xs), map even7 xs @ rest, 0, length xs) \<and>
   map bit_parity (map even7 xs) = map (\<lambda>c. bit c 7) xs \<and>
   parityOdd7bit_execute (xs @ rest) (length xs) =
     Some (int_of (map odd7 xs \<noteq> xs), map odd7 xs @ rest, 0, length xs) \<and>
   map bit_parity (map odd7 xs) = map (\<lambda>c. \<not> bit c 7) xs"
  by (rule parity_run)

end
