(* ===== verification/Comments.thy ===== *)
theory Comments
  imports Transforms
begin

text \<open>
  The comment filters of \<^verbatim>\<open>apache2/re_tfns.c\<close>: \<open>removeCommentsChar\<close>,
  \<open>removeComments\<close> and \<open>replaceComments\<close>. Conditions such as
  \<^verbatim>\<open>(input[i] == '/')&&(i + 1 < input_len)&&(input[i + 1] == '*')\<close>, with the bound tested
  before every byte, are \<open>match_at\<close>.
\<close>

fun match_at :: "bytes \<Rightarrow> nat \<Rightarrow> nat \<Rightarrow> bytes \<Rightarrow> bool option" where
  "match_at b n i [] = Some True"
| "match_at b n i (p # ps) = and_m [Some (i < n), rdp b i (\<lambda>x. x = p), match_at b n (i + 1) ps]"

fun starts :: "bytes \<Rightarrow> bytes \<Rightarrow> bool" where
  "starts [] xs = True"
| "starts (p # ps) [] = False"
| "starts (p # ps) (x # xs) = (x = p \<and> starts ps xs)"

lemma starts_length: "starts ps xs \<Longrightarrow> length ps \<le> length xs"
  by (induction ps xs rule: starts.induct) auto

lemma starts_hd: "starts (p # ps) xs \<Longrightarrow> xs ! 0 = p"
  by (cases xs) auto

lemma match_at_run: "n \<le> length b \<Longrightarrow> match_at b n i ps = Some (starts ps (drop i (take n b)))"
proof (induction ps arbitrary: i)
  case Nil
  show ?case by simp
next
  case (Cons p ps)
  show ?case
  proof (cases "i < n")
    case False
    then show ?thesis by (cases "drop i (take n b)") auto
  next
    case True
    then have "drop i (take n b) = b ! i # drop (i + 1) (take n b)"
      using Cons.prems by (simp add: Cons_nth_drop_Suc [symmetric])
    then show ?thesis using Cons True by simp
  qed
qed

declare match_at.simps [simp del]

section \<open>removeCommentsChar\<close>

fun removeCommentsChar_body :: "nat \<Rightarrow> bool fstate \<Rightarrow> bool fstate option" where
  "removeCommentsChar_body n (changed, b, i, j) = do {
     open_c \<leftarrow> match_at b n i [47, 42];
     if open_c then Some (True, b, i + 2, j)
     else do {
       close_c \<leftarrow> match_at b n i [42, 47];
       if close_c then Some (True, b, i + 2, j)
       else do {
         open_html \<leftarrow> match_at b n i [60, 33, 45, 45];
         if open_html then Some (True, b, i + 4, j)
         else do {
           close_html \<leftarrow> match_at b n i [45, 45, 62];
           if close_html then Some (True, b, i + 3, j)
           else do {
             dashes \<leftarrow> match_at b n i [45, 45];
             if dashes then Some (True, b, i + 2, j)
             else do {
               c \<leftarrow> rd b i;
               if c = 35 then Some (True, b, i + 1, j)
               else do { b \<leftarrow> wr b j c; Some (changed, b, i + 1, j + 1) } } } } } } }"

definition removeCommentsChar_execute :: "bytes \<Rightarrow> nat \<Rightarrow> tfn_result option" where
  "removeCommentsChar_execute input input_len = do {
     (changed, b, i, j) \<leftarrow> filter_loop input_len (removeCommentsChar_body input_len) (False, input, 0, 0);
     b \<leftarrow> wr b j 0;
     Some (int_of changed, b, 0, j) }"

text \<open>The length of the comment marker a string starts with, 0 for none.\<close>

definition marker :: "bytes \<Rightarrow> nat" where
  "marker xs =
     (if starts [47, 42] xs \<or> starts [42, 47] xs then 2
      else if starts [60, 33, 45, 45] xs then 4
      else if starts [45, 45, 62] xs then 3
      else if starts [45, 45] xs then 2
      else if starts [35] xs then 1
      else 0)"

definition rcc_step :: "bool tstep" where
  "rcc_step ch xs = (if marker xs > 0 then (True, marker xs, []) else (ch, 1, [xs ! 0]))"

interpretation rcc: inplace_filter removeCommentsChar_body rcc_step "\<lambda>_. 0"
proof
  fix n i j k :: nat and s s' :: bool and b out xs :: bytes
  show "0 < k \<and> 0 + length out \<le> 0 + k \<and> 0 + length out \<le> 0 + length xs"
    if "xs \<noteq> []" "rcc_step s xs = (s', k, out)"
    using that by (cases xs) (auto simp: rcc_step_def split: if_splits)
  show "removeCommentsChar_body n (s, b, i, j) = Some (s', blit b j out, i + k, j + length out)"
    if i: "i < n" and n: "n \<le> length b" and j: "j + 0 \<le> i" and st: "rcc_step s (drop i (take n b)) = (s', k, out)"
  proof -
    let ?xs = "drop i (take n b)"
    have r: "rd b i = Some (?xs ! 0)" using i n by simp
    have w: "wr b j v = Some (blit b j [v])" for v using i n j by (intro wr_blit) simp
    have hash: "starts [35] ?xs \<longleftrightarrow> ?xs ! 0 = 35"
      using i n by (cases ?xs) auto
    note m = match_at_run [OF n, of i]
    show ?thesis
      using st hash unfolding removeCommentsChar_body.simps m r Option.bind.bind_lunit rcc_step_def marker_def
      by (auto simp: w simp del: wr_in nth_drop nth_take split: if_splits)
  qed
qed

text \<open>The result, by recursion on the input.\<close>

function strip_markers :: "bytes \<Rightarrow> bytes" where
  "strip_markers xs =
     (if xs = [] then []
      else if marker xs > 0 then strip_markers (drop (marker xs) xs)
      else hd xs # strip_markers (tl xs))"
  by pat_completeness auto
termination
  by (relation "measure length") auto

declare strip_markers.simps [simp del]

lemma strip_markers_Nil [simp]: "strip_markers [] = []"
  by (simp add: strip_markers.simps)

lemma transduce_rcc:
  "transduce rcc_step ch xs = (ch \<or> strip_markers xs \<noteq> xs, strip_markers xs) \<and>
   length (strip_markers xs) \<le> length xs"
proof (induction xs arbitrary: ch rule: strip_markers.induct)
  case (1 xs)
  show ?case
  proof (cases "xs = []")
    case True
    then show ?thesis by simp
  next
    case ne: False
    show ?thesis
    proof (cases "marker xs > 0")
      case True
      then have st: "rcc_step ch xs = (True, marker xs, [])" by (simp add: rcc_step_def)
      have ih: "transduce rcc_step True (drop (marker xs) xs) = (True, strip_markers (drop (marker xs) xs))"
        "length (strip_markers (drop (marker xs) xs)) \<le> length xs - marker xs"
        using "1.IH"(1) [OF ne True, of True] by simp_all
      have "length (strip_markers (drop (marker xs) xs)) < length xs"
        using ih(2) True ne by (cases xs) auto
      then show ?thesis
        using transduce_step [of xs rcc_step, OF ne st True] ih True ne by (auto simp: strip_markers.simps [of xs])
    next
      case False
      then have st: "rcc_step ch xs = (ch, 1, [xs ! 0])" by (simp add: rcc_step_def)
      obtain x ys where xs: "xs = x # ys" using ne by (cases xs) auto
      show ?thesis
        using transduce_step [of xs rcc_step, OF ne st zero_less_one] "1.IH"(2) [OF ne False, of ch] False
        by (simp add: xs strip_markers.simps [of "x # ys"])
    qed
  qed
qed

section \<open>replaceComments\<close>

text \<open>The local state is \<^verbatim>\<open>changed\<close> and \<^verbatim>\<open>incomment\<close>.\<close>

fun replaceComments_body :: "nat \<Rightarrow> (bool \<times> bool) fstate \<Rightarrow> (bool \<times> bool) fstate option" where
  "replaceComments_body n ((changed, incomment), b, i, j) =
     (if \<not> incomment then do {
        open_c \<leftarrow> match_at b n i [47, 42];
        if open_c then Some ((True, True), b, i + 2, j)
        else do { c \<leftarrow> rd b i; b \<leftarrow> wr b j c; Some ((changed, incomment), b, i + 1, j + 1) } }
      else do {
        close_c \<leftarrow> match_at b n i [42, 47];
        if close_c then do { b \<leftarrow> wr b j 32; Some ((changed, False), b, i + 2, j + 1) }
        else Some ((changed, incomment), b, i + 1, j) })"

definition replaceComments_execute :: "bytes \<Rightarrow> nat \<Rightarrow> tfn_result option" where
  "replaceComments_execute input input_len = do {
     ((changed, incomment), b, i, j) \<leftarrow>
       filter_loop input_len (replaceComments_body input_len) ((False, False), input, 0, 0);
     if incomment then do { b \<leftarrow> wr b j 32; Some (int_of changed, b, 0, j + 1) }
     else Some (int_of changed, b, 0, j) }"

definition rpc_step :: "(bool \<times> bool) tstep" where
  "rpc_step s xs =
     (case s of (ch, inc) \<Rightarrow>
       if \<not> inc then
         if starts [47, 42] xs then ((True, True), 2, []) else ((ch, False), 1, [xs ! 0])
       else if starts [42, 47] xs then ((ch, False), 2, [32]) else ((ch, True), 1, []))"

definition rpc_pend :: "bool \<times> bool \<Rightarrow> nat" where
  "rpc_pend s = (if snd s then 1 else 0)"

interpretation rpc: inplace_filter replaceComments_body rpc_step rpc_pend
proof
  fix n i j k :: nat and s s' :: "bool \<times> bool" and b out xs :: bytes
  show "0 < k \<and> rpc_pend s' + length out \<le> rpc_pend s + k \<and> rpc_pend s' + length out \<le> rpc_pend s + length xs"
    if "xs \<noteq> []" "rpc_step s xs = (s', k, out)"
    using that by (cases s; cases xs) (auto simp: rpc_step_def rpc_pend_def split: if_splits)
  show "replaceComments_body n (s, b, i, j) = Some (s', blit b j out, i + k, j + length out)"
    if i: "i < n" and n: "n \<le> length b" and j: "j + rpc_pend s \<le> i"
      and st: "rpc_step s (drop i (take n b)) = (s', k, out)"
  proof -
    let ?xs = "drop i (take n b)"
    have r: "rd b i = Some (?xs ! 0)" using i n by simp
    have w: "wr b j v = Some (blit b j [v])" for v using i n j by (intro wr_blit) simp
    show ?thesis
      using st by (cases s) (auto simp: match_at_run [OF n] r w rpc_step_def simp del: wr_in rd_in
          nth_drop nth_take split: if_splits)
  qed
qed

text \<open>Every comment, and an open one at the end, becomes one space. The first component says
  whether a comment was opened.\<close>

function replace_comments :: "bool \<Rightarrow> bytes \<Rightarrow> bool \<times> bytes" where
  "replace_comments inc xs =
     (if xs = [] then (False, if inc then [32] else [])
      else if \<not> inc then
        if starts [47, 42] xs then (True, snd (replace_comments True (drop 2 xs)))
        else map_prod id ((#) (hd xs)) (replace_comments False (tl xs))
      else if starts [42, 47] xs then map_prod id ((#) 32) (replace_comments False (drop 2 xs))
      else replace_comments True (tl xs))"
  by pat_completeness auto
termination
  by (relation "measure (\<lambda>(inc, xs). length xs)") auto

declare replace_comments.simps [simp del]

lemma transduce_rpc:
  "snd (transduce rpc_step (ch, inc) xs) @ (if snd (fst (transduce rpc_step (ch, inc) xs)) then [32] else []) =
     snd (replace_comments inc xs) \<and>
   fst (fst (transduce rpc_step (ch, inc) xs)) = (ch \<or> fst (replace_comments inc xs))"
proof (induction inc xs arbitrary: ch rule: replace_comments.induct)
  case (1 inc xs)
  show ?case
  proof (cases "xs = []")
    case True
    then show ?thesis by (simp add: replace_comments.simps)
  next
    case ne: False
    note tr = transduce_step [of xs rpc_step, OF ne]
    have hd: "xs ! 0 = hd xs" "drop 1 xs = tl xs" using ne by (simp_all add: hd_conv_nth drop_Suc)
    consider (op) "\<not> inc" "starts [47, 42] xs" | (cp) "\<not> inc" "\<not> starts [47, 42] xs"
      | (cl) "inc" "starts [42, 47] xs" | (skip) "inc" "\<not> starts [42, 47] xs" by blast
    then show ?thesis
    proof cases
      case op
      then have "rpc_step (ch, inc) xs = ((True, True), 2, [])" by (simp add: rpc_step_def)
      from tr [OF this] show ?thesis
        using "1.IH"(1) [OF ne op] op ne by (simp add: replace_comments.simps [of False xs])
    next
      case cp
      then have "rpc_step (ch, inc) xs = ((ch, False), 1, [xs ! 0])" by (simp add: rpc_step_def)
      from tr [OF this] show ?thesis
        using "1.IH"(2) [OF ne cp] cp ne hd by (simp add: replace_comments.simps [of False xs])
    next
      case cl
      then have "rpc_step (ch, inc) xs = ((ch, False), 2, [32])" by (simp add: rpc_step_def)
      from tr [OF this] show ?thesis
        using "1.IH"(3) [OF ne _ cl(2)] cl ne by (simp add: replace_comments.simps [of True xs])
    next
      case skip
      then have "rpc_step (ch, inc) xs = ((ch, True), 1, [])" by (simp add: rpc_step_def)
      from tr [OF this] show ?thesis
        using "1.IH"(4) [OF ne _ skip(2)] skip ne hd by (simp add: replace_comments.simps [of True xs])
    qed
  qed
qed

section \<open>removeComments\<close>

text \<open>The body also says whether it left the loop by \<^verbatim>\<open>break\<close>.\<close>

fun removeComments_body ::
  "nat \<Rightarrow> (bool \<times> bool) fstate \<Rightarrow> (bool \<times> (bool \<times> bool) fstate) option"
where
  "removeComments_body n ((changed, incomment), b, i, j) =
     (if \<not> incomment then do {
        open_c \<leftarrow> match_at b n i [47, 42];
        if open_c then Some (False, (True, True), b, i + 2, j)
        else do {
          open_html \<leftarrow> match_at b n i [60, 33, 45, 45];
          if open_html then Some (False, (True, True), b, i + 4, j)
          else do {
            dashes \<leftarrow> match_at b n i [45, 45];
            if dashes then do { b \<leftarrow> wr b i 32; Some (True, (True, incomment), b, i, j) }
            else do {
              c \<leftarrow> rd b i;
              if c = 35 then do { b \<leftarrow> wr b i 32; Some (True, (True, incomment), b, i, j) }
              else do { b \<leftarrow> wr b j c; Some (False, (changed, incomment), b, i + 1, j + 1) } } } } }
      else do {
        close_c \<leftarrow> match_at b n i [42, 47];
        if close_c then do {
          c \<leftarrow> rd b (i + 2);
          b \<leftarrow> wr b j c;
          Some (False, (changed, False), b, i + 3, j + 1) }
        else do {
          close_html \<leftarrow> match_at b n i [45, 45, 62];
          if close_html then do {
            c \<leftarrow> rd b (i + 3);
            b \<leftarrow> wr b j c;
            Some (False, (changed, False), b, i + 4, j + 1) }
          else Some (False, (changed, incomment), b, i + 1, j) } })"

partial_function (option) removeComments_loop ::
  "nat \<Rightarrow> (bool \<times> bool) fstate \<Rightarrow> (bool \<times> bool) fstate option"
where
  "removeComments_loop n st =
     (if fst (snd (snd st)) < n then do {
        (brk, st') \<leftarrow> removeComments_body n st;
        if brk then Some st' else removeComments_loop n st' }
      else Some st)"

definition removeComments_execute :: "bytes \<Rightarrow> nat \<Rightarrow> tfn_result option" where
  "removeComments_execute input input_len = do {
     ((changed, incomment), b, i, j) \<leftarrow> removeComments_loop input_len ((False, False), input, 0, 0);
     if incomment then do { b \<leftarrow> wr b j 32; Some (int_of changed, b, 0, j + 1) }
     else Some (int_of changed, b, 0, j) }"

text \<open>The result: whether a comment was seen, and the output. The byte behind the end of a comment
  is copied unseen; when the input ends there, that byte is the terminating NUL.\<close>

definition behind :: "bytes \<Rightarrow> byte" where
  "behind xs = (case xs of [] \<Rightarrow> 0 | x # _ \<Rightarrow> x)"

function strip_comments :: "bool \<Rightarrow> bytes \<Rightarrow> bool \<times> bytes" where
  "strip_comments inc xs =
     (if xs = [] then (False, if inc then [32] else [])
      else if \<not> inc then
        if starts [47, 42] xs then (True, snd (strip_comments True (drop 2 xs)))
        else if starts [60, 33, 45, 45] xs then (True, snd (strip_comments True (drop 4 xs)))
        else if starts [45, 45] xs \<or> starts [35] xs then (True, [])
        else map_prod id ((#) (hd xs)) (strip_comments False (tl xs))
      else if starts [42, 47] xs then
        map_prod id ((#) (behind (drop 2 xs))) (strip_comments False (drop 3 xs))
      else if starts [45, 45, 62] xs then
        map_prod id ((#) (behind (drop 3 xs))) (strip_comments False (drop 4 xs))
      else strip_comments True (tl xs))"
  by pat_completeness auto
termination
  by (relation "measure (\<lambda>(inc, xs). length xs)") auto

declare strip_comments.simps [simp del]

lemma behind_run:
  "i \<le> n \<Longrightarrow> n < length b \<Longrightarrow> b ! n = 0 \<Longrightarrow> rd b i = Some (behind (drop i (take n b)))"
proof (cases "i < n")
  case True
  assume "n < length b"
  then have "drop i (take n b) = b ! i # drop (Suc i) (take n b)"
    using True by (simp add: Cons_nth_drop_Suc [symmetric])
  then show ?thesis using True \<open>n < length b\<close> by (simp add: behind_def)
next
  case False
  assume "i \<le> n" "n < length b" "b ! n = 0"
  then show ?thesis using False by (simp add: behind_def)
qed

lemma removeComments_loop_run:
  assumes "n < length b" "b ! n = 0" "j + (if inc then 1 else 0) \<le> i" "j + (if inc then 1 else 0) \<le> n"
  shows "\<exists>inc' b' i' j'. removeComments_loop n ((ch, inc), b, i, j) =
      Some ((ch \<or> fst (strip_comments inc (drop i (take n b))), inc'), b', i', j') \<and>
    take j' b' @ (if inc' then [32] else []) = take j b @ snd (strip_comments inc (drop i (take n b))) \<and>
    length b' = length b \<and> j' + (if inc' then 1 else 0) \<le> n"
  using assms
proof (induction "n - i" arbitrary: ch inc b i j rule: less_induct)
  case less
  let ?xs = "drop i (take n b)"
  show ?case
  proof (cases "i < n")
    case False
    then show ?thesis
      using less.prems
      by (intro exI [of _ inc] exI [of _ b] exI [of _ i] exI [of _ j])
         (simp add: removeComments_loop.simps strip_comments.simps)
  next
    case i: True
    then have ne: "?xs \<noteq> []" using less.prems by simp
    have n: "n \<le> length b" using less.prems by simp
    note m = match_at_run [OF n]
    have hd: "b ! i = hd ?xs" using i n by (simp add: hd_drop_conv_nth)
    have tl: "tl ?xs = drop (i + 1) (take n b)" by (simp add: tl_drop drop_Suc)
    have dr: "drop k ?xs = drop (i + k) (take n b)" for k by (simp add: add.commute)
    have r: "rd b i = Some (hd ?xs)" using i n hd by simp
    have step: "?thesis" if body: "removeComments_body n ((ch, inc), b, i, j) = Some (False, (ch', inc'), b', i', j')"
      and spec: "strip_comments inc ?xs = (c, o1 @ snd (strip_comments inc' (drop i' (take n b'))))"
        "ch \<or> c \<longleftrightarrow> ch' \<or> fst (strip_comments inc' (drop i' (take n b')))"
      and b': "take j' b' = take j b @ o1" "length b' = length b" "b' ! n = 0" "i < i'"
        "j' + (if inc' then 1 else 0) \<le> i'" "j' + (if inc' then 1 else 0) \<le> n"
      for ch' inc' b' i' j' c o1
    proof -
      have "removeComments_loop n ((ch, inc), b, i, j) = removeComments_loop n ((ch', inc'), b', i', j')"
        using i by (subst removeComments_loop.simps) (simp add: body del: removeComments_body.simps)
      moreover have "n - i' < n - i" using b'(4) i by simp
      ultimately show ?thesis
        using less.hyps [of i' b' j' inc' ch'] less.prems b' spec by simp
    qed
    have hash: "starts [35] ?xs \<longleftrightarrow> hd ?xs = 35" using ne by (cases ?xs) auto
    have put: "take (Suc j) (b[j := v]) = take j b @ [v]" "(b[j := v]) ! n = 0"
      "drop (i + k) (take n (b[j := v])) = drop (i + k) (take n b)" if "0 < k \<or> j < i" "j \<noteq> n" for v k
      using that less.prems n by (auto simp: take_Suc_conv_app_nth drop_take drop_update_cancel)
    have w: "wr b j v = Some (b[j := v])" for v using i less.prems by simp
    note sc = strip_comments.simps [of _ ?xs]
    consider (op) "\<not> inc" "starts [47, 42] ?xs"
      | (oh) "\<not> inc" "\<not> starts [47, 42] ?xs" "starts [60, 33, 45, 45] ?xs"
      | (stop) "\<not> inc" "\<not> starts [47, 42] ?xs" "\<not> starts [60, 33, 45, 45] ?xs" "starts [45, 45] ?xs \<or> starts [35] ?xs"
      | (cp) "\<not> inc" "\<not> starts [47, 42] ?xs" "\<not> starts [60, 33, 45, 45] ?xs" "\<not> (starts [45, 45] ?xs \<or> starts [35] ?xs)"
      | (cl) "inc" "starts [42, 47] ?xs"
      | (hc) "inc" "\<not> starts [42, 47] ?xs" "starts [45, 45, 62] ?xs"
      | (skip) "inc" "\<not> starts [42, 47] ?xs" "\<not> starts [45, 45, 62] ?xs" by blast
    then show ?thesis
    proof cases
      case op
      then show ?thesis
        using step [of True True b "i + 2" j True "[]"] less.prems sc [of inc] ne starts_length [OF op(2)]
        by (simp add: m dr prod_eq_iff del: drop_drop)
    next
      case oh
      then show ?thesis
        using step [of True True b "i + 4" j True "[]"] less.prems sc [of inc] ne starts_length [OF oh(3)]
        by (simp add: m dr prod_eq_iff del: drop_drop)
    next
      case stop
      have "removeComments_body n ((ch, inc), b, i, j) = Some (True, (True, inc), b[i := 32], i, j)"
        using stop hash i n by (auto simp: m r simp del: rd_in)
      moreover have "strip_comments inc ?xs = (True, [])" using sc [of inc] ne stop by simp
      ultimately show ?thesis
        using i less.prems stop(1)
        by (subst removeComments_loop.simps) (auto simp del: removeComments_body.simps)
    next
      case cp
      have "removeComments_body n ((ch, inc), b, i, j) = Some (False, (ch, False), b[j := hd ?xs], i + 1, j + 1)"
        using cp hash w by (simp add: m r del: rd_in wr_in)
      moreover have "strip_comments inc ?xs =
          map_prod id ((#) (hd ?xs)) (strip_comments False (drop (i + 1) (take n b)))"
        using sc [of inc] ne cp by (simp add: tl)
      ultimately show ?thesis
        using step [of ch False "b[j := hd ?xs]" "i + 1" "j + 1" _ "[hd ?xs]"] put [of 1 "hd ?xs"] less.prems i cp(1)
        by (simp add: prod_eq_iff)
    next
      case cl
      let ?v = "behind (drop 2 ?xs)"
      have "i + 2 \<le> n" using starts_length [OF cl(2)] n i by simp
      then have rb: "rd b (i + 2) = Some ?v" using behind_run [of "i + 2" n b] less.prems dr [of 2] by simp
      have "removeComments_body n ((ch, inc), b, i, j) = Some (False, (ch, False), b[j := ?v], i + 3, j + 1)"
        using cl w rb by (simp add: m del: rd_in wr_in)
      moreover have "strip_comments inc ?xs =
          map_prod id ((#) ?v) (strip_comments False (drop (i + 3) (take n b)))"
        using sc [of inc] ne cl dr [of 3] by simp
      ultimately show ?thesis
        using step [of ch False "b[j := ?v]" "i + 3" "j + 1" _ "[?v]"] put [of 3 ?v] less.prems i cl(1)
        by (simp add: prod_eq_iff)
    next
      case hc
      let ?v = "behind (drop 3 ?xs)"
      have "i + 3 \<le> n" using starts_length [OF hc(3)] n i by simp
      then have rb: "rd b (i + 3) = Some ?v" using behind_run [of "i + 3" n b] less.prems dr [of 3] by simp
      have "removeComments_body n ((ch, inc), b, i, j) = Some (False, (ch, False), b[j := ?v], i + 4, j + 1)"
        using hc w rb by (simp add: m del: rd_in wr_in)
      moreover have "strip_comments inc ?xs =
          map_prod id ((#) ?v) (strip_comments False (drop (i + 4) (take n b)))"
        using sc [of inc] ne hc dr [of 4] by simp
      ultimately show ?thesis
        using step [of ch False "b[j := ?v]" "i + 4" "j + 1" _ "[?v]"] put [of 4 ?v] less.prems i hc(1)
        by (simp add: prod_eq_iff)
    next
      case skip
      then show ?thesis
        using step [of ch True b "i + 1" j _ "[]"] less.prems sc [of inc] ne i
        by (simp add: m tl prod_eq_iff del: drop_drop)
    qed
  qed
qed

lemma removeComments_run:
  "\<exists>b. removeComments_execute (xs @ 0 # rest) (length xs) =
     Some (int_of (fst (strip_comments False xs)), b, 0, length (snd (strip_comments False xs))) \<and>
     take (length (snd (strip_comments False xs))) b = snd (strip_comments False xs) \<and>
     length (snd (strip_comments False xs)) \<le> length xs"
proof -
  obtain ch out where sc: "strip_comments False xs = (ch, out)" by (cases "strip_comments False xs")
  from removeComments_loop_run [of "length xs" "xs @ 0 # rest" 0 False 0 False] sc
  obtain inc b i j where loop: "removeComments_loop (length xs) ((False, False), xs @ 0 # rest, 0, 0) =
      Some ((ch, inc), b, i, j)"
    and out: "take j b @ (if inc then [32] else []) = out" "length b = length xs + Suc (length rest)"
      "j + (if inc then 1 else 0) \<le> length xs" by auto
  have "length out = j + (if inc then 1 else 0)" using arg_cong [OF out(1), of length] out(2,3) by auto
  then show ?thesis
    using loop out sc
    by (cases inc) (auto simp: removeComments_execute_def take_Suc_conv_app_nth)
qed

section \<open>Properties\<close>

text \<open>
  \<open>removeComments\<close> stays inside the input and its terminating NUL and returns
  \<open>strip_comments\<close>, not longer than the input, and 1 exactly when it saw a comment.
\<close>

theorem removeComments_correct:
  "\<exists>b. removeComments_execute (xs @ 0 # rest) (length xs) =
     Some (int_of (fst (strip_comments False xs)), b, 0, length (snd (strip_comments False xs))) \<and>
     take (length (snd (strip_comments False xs))) b = snd (strip_comments False xs) \<and>
     length (snd (strip_comments False xs)) \<le> length xs"
  by (rule removeComments_run)

text \<open>
  a comment that follows another one without a byte in between is not removed, because the
  byte behind the first one is copied without looking at it: \<^verbatim>\<open>/*a*//*b*/\<close> becomes
  \<^verbatim>\<open>/*b*/\<close>; and a comment at the end of the input leaves a NUL in the output.
\<close>

theorem removeComments_adjacent:
  "(\<exists>b. removeComments_execute ([47, 42, 97, 42, 47, 47, 42, 98, 42, 47] @ 0 # rest) 10 = Some (1, b, 0, 5) \<and>
     take 5 b = [47, 42, 98, 42, 47]) \<and>
   (\<exists>b. removeComments_execute ([47, 42, 97, 42, 47] @ 0 # rest) 5 = Some (1, b, 0, 1) \<and> take 1 b = [0])"
proof -
  have "strip_comments False [47, 42, 97, 42, 47, 47, 42, 98, 42, 47] = (True, [47, 42, 98, 42, 47])"
    "strip_comments False [47, 42, 97, 42, 47] = (True, [0])"
    by (simp_all add: strip_comments.simps behind_def)
  then show ?thesis
    using removeComments_run [of "[47, 42, 97, 42, 47, 47, 42, 98, 42, 47]" rest]
      removeComments_run [of "[47, 42, 97, 42, 47]" rest]
    by (simp add: int_of_def numeral_eq_Suc)
qed

lemma replaceComments_run:
  "\<exists>b. replaceComments_execute (xs @ rest) (length xs) =
     Some (int_of (fst (replace_comments False xs)), b, 0, length (snd (replace_comments False xs))) \<and>
     take (length (snd (replace_comments False xs))) b = snd (replace_comments False xs) \<and>
     length (snd (replace_comments False xs)) \<le> length xs"
proof -
  obtain ch inc out where t: "transduce rpc_step (False, False) xs = ((ch, inc), out)" by (metis surj_pair)
  from rpc.loop_from [of "length xs" "xs @ rest" 0 "(False, False)" 0] t obtain i' where
    loop: "filter_loop (length xs) (replaceComments_body (length xs)) ((False, False), xs @ rest, 0, 0) =
       Some ((ch, inc), blit (xs @ rest) 0 out, i', length out)"
    and fits: "length out + rpc_pend (ch, inc) \<le> length xs"
    by (auto simp: rpc_pend_def)
  have sp: "out @ (if inc then [32] else []) = snd (replace_comments False xs)"
    "ch = fst (replace_comments False xs)"
    using transduce_rpc [of False False xs] t by auto
  show ?thesis
  proof (cases inc)
    case True
    have "(blit (xs @ rest) 0 out)[length out := 32] = blit (xs @ rest) 0 (snd (replace_comments False xs))"
      using fits True sp(1) blit_blit [of 0 out "xs @ rest" "[32]"] by (simp add: blit_single rpc_pend_def)
    moreover have "length (snd (replace_comments False xs)) = Suc (length out)"
      using sp(1) True by (metis length_append_singleton)
    ultimately show ?thesis
      using loop fits True sp(2) take_blit_0 [of "snd (replace_comments False xs)" "xs @ rest"]
      by (simp add: replaceComments_execute_def rpc_pend_def)
  next
    case False
    then show ?thesis
      using loop fits sp take_blit_0 [of "snd (replace_comments False xs)" "xs @ rest"]
      by (simp add: replaceComments_execute_def)
  qed
qed

text \<open>
  \<open>replaceComments\<close> stays inside its input; each C comment, and an open one at the end,
  becomes one space, everything else is kept, and it returns 1 exactly when it saw a comment.
\<close>

theorem replaceComments_correct:
  "\<exists>b. replaceComments_execute (xs @ rest) (length xs) =
     Some (int_of (fst (replace_comments False xs)), b, 0, length (snd (replace_comments False xs))) \<and>
     take (length (snd (replace_comments False xs))) b = snd (replace_comments False xs) \<and>
     length (snd (replace_comments False xs)) \<le> length xs"
  by (rule replaceComments_run)

lemma removeCommentsChar_run:
  "removeCommentsChar_execute (xs @ 0 # rest) (length xs) =
     Some (int_of (strip_markers xs \<noteq> xs),
           strip_markers xs @ 0 # drop (Suc (length (strip_markers xs))) (xs @ 0 # rest), 0,
           length (strip_markers xs))"
  using rcc.loop_from [of "length xs" "xs @ 0 # rest" 0 0 False] transduce_rcc [of False xs]
    wr_terminate [of "strip_markers xs" "xs @ 0 # rest"]
  by (auto simp: removeCommentsChar_execute_def simp del: wr_in drop_append)

text \<open>
  \<open>removeCommentsChar\<close> stays inside the input and its terminating NUL, removes exactly the
  comment markers, and returns 1 exactly when it removed one.
\<close>

theorem removeCommentsChar_correct:
  "removeCommentsChar_execute (xs @ 0 # rest) (length xs) =
     Some (int_of (strip_markers xs \<noteq> xs),
           strip_markers xs @ 0 # drop (Suc (length (strip_markers xs))) (xs @ 0 # rest), 0,
           length (strip_markers xs))"
  by (rule removeCommentsChar_run)

end
