(* ===== verification/StringUtil.thy ===== *)
theory StringUtil
  imports Transforms
begin

text \<open>
  The small string helpers of \<^verbatim>\<open>apache2/msc_util.c\<close>: tokens, line ends, quotes, names and
  values, the bounded URL-encoding append, case-insensitive search, netmasks; and the \<open>cmdline\<close>
  transformation of \<^verbatim>\<open>apache2/re_tfns.c\<close>, which also works on NUL-terminated strings.
\<close>

section \<open>Tokens, booleans, blanks\<close>

definition is_token_char :: "byte \<Rightarrow> bool" where
  "is_token_char c \<longleftrightarrow>
     \<not> (c \<le> 32 \<or> 127 \<le> c) \<and>
     c \<notin> set [40, 41, 60, 62, 64, 44, 59, 58, 92, 34, 47, 91, 93, 63, 61]"

definition parse_boolean :: "bytes option \<Rightarrow> int" where
  "parse_boolean input =
     (case input of
        None \<Rightarrow> -1
      | Some s \<Rightarrow>
          if strcasecmp_eq s [111, 110] then 1
          else if strcasecmp_eq s [116, 114, 117, 101] then 1
          else if strcasecmp_eq s [49] then 1
          else if strcasecmp_eq s [111, 102, 102] then 0
          else if strcasecmp_eq s [102, 97, 108, 115, 101] then 0
          else if strcasecmp_eq s [48] then 0
          else -1)"

fun is_empty_loop :: "bytes \<Rightarrow> bool option" where
  "is_empty_loop [] = None"
| "is_empty_loop (c # cs) =
     (if c = 0 then Some True else if \<not> c_isspace c then Some False else is_empty_loop cs)"

definition is_empty_string :: "bytes option \<Rightarrow> bool option" where
  "is_empty_string s = (case s of None \<Rightarrow> Some True | Some b \<Rightarrow> is_empty_loop b)"

section \<open>Line ends and case\<close>

text \<open>The loop that finds the end of the string and counts.\<close>

definition remove_lf_crlf_inplace :: "bytes option \<Rightarrow> (int \<times> bytes option) option" where
  "remove_lf_crlf_inplace txt =
     (case txt of
        None \<Rightarrow> Some (-1, None)
      | Some b \<Rightarrow> do {
          s \<leftarrow> c_str b;
          let count = length s;
          b \<leftarrow>
            (if count > 0 then do {
               last \<leftarrow> rd b (count - 1);
               if last = 10 then do {
                 b \<leftarrow> wr b (count - 1) 0;
                 if count > 1 then do {
                   prev \<leftarrow> rd b (count - 2);
                   if prev = 13 then wr b (count - 2) 0 else Some b }
                 else Some b }
               else Some b }
             else Some b);
          Some (1, Some b) })"

fun strtolower_loop :: "bytes \<Rightarrow> bytes option" where
  "strtolower_loop [] = None"
| "strtolower_loop (c # cs) =
     (if c \<noteq> 0 then map_option ((#) (c_tolower c)) (strtolower_loop cs) else Some (c # cs))"

definition strtolower_inplace :: "bytes option \<Rightarrow> bytes option option" where
  "strtolower_inplace s =
     (case s of None \<Rightarrow> Some None | Some b \<Rightarrow> map_option Some (strtolower_loop b))"

section \<open>Removing characters\<close>

text \<open>The loop of \<open>remove_quotes\<close> and \<open>remove_escape\<close>: \<open>drop_c\<close> is the test of the characters to leave
  out, \<open>left\<close> is \<^verbatim>\<open>len + 1\<close>, so \<^verbatim>\<open>len >= 0\<close> is \<open>left > 0\<close>.\<close>

fun remove_loop :: "(byte \<Rightarrow> bool) \<Rightarrow> bytes \<Rightarrow> nat \<Rightarrow> bytes \<Rightarrow> nat \<Rightarrow> (bytes \<times> nat) option" where
  "remove_loop drop_c [] left parm d = None"
| "remove_loop drop_c (c # cs) left parm d =
     (if c \<noteq> 0 \<and> left > 0 then
        if \<not> drop_c c then do { parm \<leftarrow> wr parm d c; remove_loop drop_c cs (left - 1) parm (d + 1) }
        else remove_loop drop_c cs (left - 1) parm d
      else Some (parm, d))"

definition remove_quotes :: "(nat \<Rightarrow> byte) \<Rightarrow> bytes \<Rightarrow> nat \<Rightarrow> bytes option" where
  "remove_quotes junk input input_len = do {
     (parm, d) \<leftarrow>
       remove_loop (\<lambda>c. c = 39 \<or> c = 34) input (input_len + 1) (apr_palloc junk input_len) 0;
     wr parm d 0 }"

definition remove_escape :: "(nat \<Rightarrow> byte) \<Rightarrow> bytes \<Rightarrow> nat \<Rightarrow> bytes option" where
  "remove_escape junk input input_len = do {
     (parm, d) \<leftarrow> remove_loop (\<lambda>c. c = 92) input (input_len + 1) (apr_palloc junk input_len) 0;
     wr parm d 0 }"

lemma remove_loop_run:
  assumes "0 \<notin> set xs" "length xs < left" "d + length (filter (\<lambda>c. \<not> P c) xs) \<le> length parm"
  shows "remove_loop P (xs @ 0 # rest) left parm d =
     Some (blit parm d (filter (\<lambda>c. \<not> P c) xs), d + length (filter (\<lambda>c. \<not> P c) xs))"
  using assms
proof (induction xs arbitrary: left parm d)
  case Nil
  then show ?case by simp
next
  case (Cons c cs)
  then show ?case by (auto simp: blit_update_Cons)
qed

lemma remove_loop_terminate:
  assumes "0 \<notin> set xs" "dst = apr_palloc junk (length xs)"
  shows "do { (parm, d) \<leftarrow> remove_loop P (xs @ 0 # rest) (length xs + 1) dst 0; wr parm d 0 } =
     (if list_ex P xs
      then Some (filter (\<lambda>c. \<not> P c) xs @ 0 # drop (Suc (length (filter (\<lambda>c. \<not> P c) xs))) dst)
      else None)"
proof -
  let ?ys = "filter (\<lambda>c. \<not> P c) xs"
  have le: "length ?ys \<le> length dst" using assms(2) by simp
  have run: "remove_loop P (xs @ 0 # rest) (length xs + 1) dst 0 = Some (blit dst 0 ?ys, length ?ys)"
    using remove_loop_run [of xs "length xs + 1" 0 P dst rest] assms le by simp
  show ?thesis
  proof (cases "list_ex P xs")
    case True
    then have "length ?ys < length dst"
      using assms(2) by (auto simp: list_ex_iff intro: length_filter_less)
    then show ?thesis using run True wr_terminate [of ?ys dst] by (simp del: wr_in)
  next
    case False
    then have "?ys = xs" by (simp add: filter_id_conv list_ex_iff)
    then show ?thesis using run False assms(2) le by simp
  qed
qed

section \<open>Names and values\<close>

text \<open>The result is the return value and, unless the input is NULL (when the output pointers are
  left alone), \<^verbatim>\<open>*name\<close> and \<^verbatim>\<open>*value\<close> as C strings. The output pointers themselves are
  assumed not to be NULL.\<close>

definition parse_name_eq_value :: "bytes option \<Rightarrow> (int \<times> (bytes option \<times> bytes option) option) option" where
  "parse_name_eq_value input =
     (case input of
        None \<Rightarrow> Some (0, None)
      | Some b \<Rightarrow> do {
          s \<leftarrow> c_str b;
          let p = length (takeWhile (\<lambda>c. c \<noteq> 61) s);
          if p = length s then Some (1, Some (Some s, None))
          else Some (1, Some (Some (take p s), Some (drop (p + 1) s))) })"

text \<open>\<^verbatim>\<open>p = strrchr(d, c); if (p != NULL) d = p + 1;\<close>\<close>

definition after_last :: "byte \<Rightarrow> bytes \<Rightarrow> bytes" where
  "after_last c s = (if c \<in> set s then rev (takeWhile (\<lambda>x. x \<noteq> c) (rev s)) else s)"

definition file_basename :: "bytes option \<Rightarrow> bytes option option" where
  "file_basename filename =
     (case filename of
        None \<Rightarrow> Some None
      | Some b \<Rightarrow> do { d \<leftarrow> c_str b; Some (Some (after_last 92 (after_last 47 d))) })"

section \<open>Bounded URL-encoding append\<close>

text \<open>The source from the pointer \<open>s\<close> on, the destination, its write index, and \<^verbatim>\<open>maxlen\<close>.\<close>

fun strnurlencat_loop :: "bytes \<Rightarrow> bytes \<Rightarrow> nat \<Rightarrow> nat \<Rightarrow> (bytes \<times> nat) option" where
  "strnurlencat_loop [] dst d maxlen = None"
| "strnurlencat_loop (c # cs) dst d maxlen =
     (if c \<noteq> 0 \<and> maxlen > 0 then
        if c = 32 then do { dst \<leftarrow> wr dst d 43; strnurlencat_loop cs dst (d + 1) (maxlen - 1) }
        else if url_unreserved c then do { dst \<leftarrow> wr dst d c; strnurlencat_loop cs dst (d + 1) (maxlen - 1) }
        else if maxlen \<ge> 3 then do {
          dst \<leftarrow> wr dst d 37;
          dst \<leftarrow> c2x c dst (d + 1);
          strnurlencat_loop cs dst (d + 3) (maxlen - 3) }
        else strnurlencat_loop cs dst d 0
      else Some (dst, d))"

definition strnurlencat :: "bytes \<Rightarrow> bytes \<Rightarrow> nat \<Rightarrow> bytes option" where
  "strnurlencat destination source maxlen = do {
     s \<leftarrow> c_str destination;
     (dst, d) \<leftarrow> strnurlencat_loop source destination (length s) maxlen;
     wr dst d 0 }"

text \<open>How many bytes of the source fit: a byte whose escape does not fit ends the copy.\<close>

fun url_fit :: "nat \<Rightarrow> bytes \<Rightarrow> nat" where
  "url_fit m [] = 0"
| "url_fit m (c # cs) =
     (let k = length (snd (url_emit False c)) in if k \<le> m then Suc (url_fit (m - k) cs) else 0)"

lemma url_fit_length: "length (url_encoded (take (url_fit m xs) xs)) \<le> m \<and> url_fit m xs \<le> length xs"
proof (induction m xs rule: url_fit.induct)
  case (2 m c cs)
  then show ?case by (auto simp: Let_def)
qed simp

lemma strnurlencat_loop_run:
  assumes "0 \<notin> set xs" "d + m < length dst"
  shows "strnurlencat_loop (xs @ 0 # rest) dst d m =
     (let out = url_encoded (take (url_fit m xs) xs) in Some (blit dst d out, d + length out))"
  using assms
proof (induction xs arbitrary: dst d m)
  case Nil
  then show ?case by (simp add: Let_def)
next
  case (Cons c cs)
  have un: "url_unreserved c \<Longrightarrow> c \<noteq> 32" by (auto simp: url_unreserved_def)
  have stop: "strnurlencat_loop (cs @ 0 # rest) dst d 0 = Some (dst, d)" by (cases cs) simp_all
  consider (zero) "m = 0" | (plus) "0 < m" "c = 32" | (plain) "0 < m" "url_unreserved c"
    | (esc) "3 \<le> m" "c \<noteq> 32" "\<not> url_unreserved c" | (full) "0 < m" "m < 3" "c \<noteq> 32" "\<not> url_unreserved c"
    by linarith
  then show ?case
  proof cases
    case zero
    then show ?thesis by (auto simp: Let_def url_emit_def)
  next
    case plus
    then show ?thesis
      using Cons.IH [of "Suc d" "m - 1" "dst[d := 43]"] Cons.prems
      by (simp add: Let_def url_emit_def blit_update_Cons)
  next
    case plain
    then show ?thesis
      using Cons.IH [of "Suc d" "m - 1" "dst[d := c]"] Cons.prems un
      by (simp add: Let_def url_emit_def blit_update_Cons)
  next
    case esc
    have "c2x c (dst[d := 37]) (Suc d) = Some (blit dst d [37, c2x_hi c, c2x_lo c])"
      using esc Cons.prems blit_blit [of d "[37]" dst "[c2x_hi c, c2x_lo c]"] by (simp add: blit_single)
    then show ?thesis
      using esc Cons.IH [of "d + 3" "m - 3" "blit dst d [37, c2x_hi c, c2x_lo c]"] Cons.prems
        blit_blit [of d "[37, c2x_hi c, c2x_lo c]" dst]
      by (simp add: Let_def url_emit_def add.assoc numeral_3_eq_3)
  next
    case full
    then show ?thesis using Cons.prems stop by (simp add: Let_def url_emit_def)
  qed
qed

section \<open>Case-insensitive search\<close>

definition strncasecmp_eq :: "bytes \<Rightarrow> bytes \<Rightarrow> bool" where
  "strncasecmp_eq hay needle \<longleftrightarrow>
     map c_tolower (take (length needle) (takeWhile (\<lambda>c. c \<noteq> 0) hay)) = map c_tolower needle"

text \<open>The nested \<^verbatim>\<open>do\<close> loops: the haystack from its pointer on, and the offset of the pointer.
  The inner result \<^term>\<open>None\<close> is the NULL pointer.\<close>

fun strcasestr_loop :: "byte \<Rightarrow> bytes \<Rightarrow> bytes \<Rightarrow> nat \<Rightarrow> nat option option" where
  "strcasestr_loop aux needle [] off = None"
| "strcasestr_loop aux needle (h # hs) off =
     (if h = 0 then Some None
      else if c_tolower h \<noteq> aux then strcasestr_loop aux needle hs (off + 1)
      else if \<not> strncasecmp_eq hs needle then strcasestr_loop aux needle hs (off + 1)
      else Some (Some off))"

definition m_strcasestr :: "bytes \<Rightarrow> bytes \<Rightarrow> nat option option" where
  "m_strcasestr haystack needle = do {
     s \<leftarrow> c_str needle;
     case s of
       [] \<Rightarrow> Some (Some 0)
     | aux # rest \<Rightarrow> strcasestr_loop (c_tolower aux) rest haystack 0 }"

text \<open>The first offset at which the needle occurs, ignoring case.\<close>

definition ci_at :: "bytes \<Rightarrow> bytes \<Rightarrow> nat \<Rightarrow> bool" where
  "ci_at hay needle k \<longleftrightarrow> map c_tolower (take (length needle) (drop k hay)) = map c_tolower needle"

lemma strcasestr_loop_run:
  assumes "0 \<notin> set xs"
  shows "strcasestr_loop (c_tolower n) ns (xs @ 0 # rest) off =
     Some (map_option (\<lambda>k. off + k) (find (ci_at xs (n # ns)) [0..<length xs]))"
  using assms
proof (induction xs arbitrary: off)
  case Nil
  then show ?case by simp
next
  case (Cons x xs)
  have tw: "takeWhile (\<lambda>c. c \<noteq> 0) (xs @ 0 # rest) = xs"
    using Cons.prems by (simp add: takeWhile_append2) (induction xs, auto)
  have hit: "ci_at (x # xs) (n # ns) 0 \<longleftrightarrow> c_tolower x = c_tolower n \<and> strncasecmp_eq (xs @ 0 # rest) ns"
    using tw by (auto simp: ci_at_def strncasecmp_eq_def)
  have upt: "[0..<Suc (length xs)] = 0 # map Suc [0..<length xs]"
    by (simp add: map_Suc_upt upt_conv_Cons del: upt_Suc)
  have shift: "find (ci_at (x # xs) (n # ns)) (map Suc ks) = map_option Suc (find (ci_at xs (n # ns)) ks)" for ks
    by (induction ks) (auto simp: ci_at_def)
  show ?case
  proof (cases "ci_at (x # xs) (n # ns) 0")
    case True
    then show ?thesis using hit Cons.prems by (simp add: upt del: upt_Suc)
  next
    case False
    then have "strcasestr_loop (c_tolower n) ns ((x # xs) @ 0 # rest) off =
        strcasestr_loop (c_tolower n) ns (xs @ 0 # rest) (off + 1)"
      using hit Cons.prems by auto
    then show ?thesis
      using False Cons by (simp add: upt shift option.map_comp comp_def del: upt_Suc)
  qed
qed

section \<open>Netmasks\<close>

text \<open>\<^verbatim>\<open>atoi\<close> of the GNU C library: leading white space, an optional sign, the decimal digits,
  saturated at the limits of \<^verbatim>\<open>long\<close> and then cut to a 32-bit \<^verbatim>\<open>int\<close>.\<close>

definition c_atoi :: "bytes \<Rightarrow> int" where
  "c_atoi s =
     (let s = dropWhile c_isspace s;
          neg = (s \<noteq> [] \<and> hd s = 45);
          s = (if s \<noteq> [] \<and> (hd s = 45 \<or> hd s = 43) then tl s else s);
          v = strtol_acc 10 0 s;
          v = (if neg then max (- v) (- (2 ^ 63)) else min v (2 ^ 63 - 1))
      in sint (word_of_int v :: 32 word))"

text \<open>Both functions cut the string at the slash. The result is the netmask and the string;
  \<open>bad\<close> is the character that must not follow the slash, \<open>full\<close> the full mask.\<close>

definition is_netmask :: "byte \<Rightarrow> int \<Rightarrow> bytes option \<Rightarrow> (int \<times> bytes option) option" where
  "is_netmask bad full ip_str =
     (case ip_str of
        None \<Rightarrow> Some (full, None)
      | Some b \<Rightarrow> do {
          s \<leftarrow> c_str b;
          if 47 \<in> set s then do {
            let p = length (takeWhile (\<lambda>c. c \<noteq> 47) s);
            b \<leftarrow> wr b p 0;
            let mask_str = drop (p + 1) s;
            if bad \<in> set mask_str then Some (0, Some b)
            else
              let cidr = c_atoi mask_str in
              if cidr < 0 \<or> cidr > full then Some (0, Some b) else Some (cidr, Some b) }
          else Some (full, Some b) })"

definition is_netmask_v4 :: "bytes option \<Rightarrow> (int \<times> bytes option) option" where
  "is_netmask_v4 ip_strv4 = is_netmask 46 32 ip_strv4"

definition is_netmask_v6 :: "bytes option \<Rightarrow> (int \<times> bytes option) option" where
  "is_netmask_v6 ip_strv6 = is_netmask 58 128 ip_strv6"

section \<open>The cmdline transformation\<close>

definition cmd_removed :: "byte \<Rightarrow> bool" where
  "cmd_removed c \<longleftrightarrow> c = 34 \<or> c = 39 \<or> c = 92 \<or> c = 94"

definition cmd_blank :: "byte \<Rightarrow> bool" where
  "cmd_blank c \<longleftrightarrow> c = 32 \<or> c = 44 \<or> c = 59 \<or> c = 9 \<or> c = 13 \<or> c = 10"

text \<open>\<^verbatim>\<open>for ( ; *input; input++ ) switch(*input) ...\<close>, with the write index \<open>s\<close>.\<close>

partial_function (option) cmdline_loop :: "bytes \<Rightarrow> nat \<Rightarrow> bool \<Rightarrow> nat \<Rightarrow> (bytes \<times> nat) option" where
  "cmdline_loop b i sp s = do {
     c \<leftarrow> rd b i;
     if c = 0 then Some (b, s)
     else if cmd_removed c then cmdline_loop b (i + 1) sp s
     else if cmd_blank c then
       if \<not> sp then do { b \<leftarrow> wr b s 32; cmdline_loop b (i + 1) True (s + 1) }
       else cmdline_loop b (i + 1) sp s
     else if c = 47 \<or> c = 40 then do {
       let s = (if sp then s - 1 else s);
       b \<leftarrow> wr b s c;
       cmdline_loop b (i + 1) False (s + 1) }
     else do { b \<leftarrow> wr b s (c_tolower c); cmdline_loop b (i + 1) False (s + 1) } }"

definition cmdline_execute :: "bytes \<Rightarrow> nat \<Rightarrow> tfn_result option" where
  "cmdline_execute input input_len = do {
     (b, s) \<leftarrow> cmdline_loop input 0 False 0;
     b \<leftarrow> wr b s 0;
     str \<leftarrow> c_str b;
     Some (1, b, 0, length str) }"

declare cmdline_loop.simps [simp del]

text \<open>The normalised command line; the flag says that a space is due.\<close>

fun cmdline_of :: "bool \<Rightarrow> bytes \<Rightarrow> bytes" where
  "cmdline_of sp [] = (if sp then [32] else [])"
| "cmdline_of sp (c # cs) =
     (if cmd_removed c then cmdline_of sp cs
      else if cmd_blank c then cmdline_of True cs
      else if c = 47 \<or> c = 40 then c # cmdline_of False cs
      else (if sp then [32] else []) @ c_tolower c # cmdline_of False cs)"

lemma cmdline_of_pending: "cmdline_of True xs \<noteq> []"
  by (induction xs) auto

lemma blit_overwrite: "ys \<noteq> [] \<Longrightarrow> t < length b \<Longrightarrow> blit (b[t := v]) t ys = blit b t ys"
  by (cases ys) (auto simp: blit_def)

lemma cmdline_loop_run:
  assumes "drop i b = xs @ 0 # rest" "0 \<notin> set xs" "t + (if sp then 1 else 0) \<le> i"
    "sp \<Longrightarrow> b ! t = 32"
  shows "cmdline_loop b i sp (t + (if sp then 1 else 0)) =
     Some (blit b t (cmdline_of sp xs), t + length (cmdline_of sp xs)) \<and>
     t + length (cmdline_of sp xs) < length b"
  using assms
proof (induction xs arbitrary: b i sp t)
  case Nil
  note c = drop_ConsD [of i b 0 rest]
  have "sp \<Longrightarrow> blit b t [32] = b" using Nil c by (simp add: blit_single [symmetric] list_update_same_conv)
  then show ?case using Nil c by (subst cmdline_loop.simps) auto
next
  case (Cons x xs)
  note c = drop_ConsD [of i b x "xs @ 0 # rest"]
  have r: "rd b i = Some x" "i < length b" "drop (Suc i) b = xs @ 0 # rest" "x \<noteq> 0" "0 \<notin> set xs"
    using c Cons.prems by simp_all
  let ?t = "t + (if sp then 1 else 0)"
  have w: "wr b k v = Some (b[k := v])" "drop (Suc i) (b[k := v]) = xs @ 0 # rest" if "k \<le> i" for k v
    using that r by simp_all
  consider (rem) "cmd_removed x" | (blank) "\<not> cmd_removed x" "cmd_blank x"
    | (slash) "\<not> cmd_removed x" "\<not> cmd_blank x" "x = 47 \<or> x = 40"
    | (plain) "\<not> cmd_removed x" "\<not> cmd_blank x" "\<not> (x = 47 \<or> x = 40)" by blast
  then show ?case
  proof cases
    case rem
    then show ?thesis
      using Cons.IH [of "Suc i" b t sp] Cons.prems r by (subst cmdline_loop.simps) (simp split: if_splits)
  next
    case blank
    then show ?thesis
    proof (cases sp)
      case True
      then show ?thesis
        using blank Cons.IH [of "Suc i" b t True] Cons.prems r by (subst cmdline_loop.simps) simp
    next
      case False
      have "blit (b[t := 32]) t (cmdline_of True xs) = blit b t (cmdline_of True xs)"
        by (rule blit_overwrite) (use cmdline_of_pending r(2) Cons.prems False in auto)
      then show ?thesis
        using blank False Cons.IH [of "Suc i" "b[t := 32]" t True] Cons.prems r w [of t 32]
        by (subst cmdline_loop.simps) (simp del: wr_in)
    qed
  next
    case slash
    then show ?thesis
      using Cons.IH [of "Suc i" "b[t := x]" "Suc t" False] Cons.prems r w [of t x]
      by (subst cmdline_loop.simps) (simp add: Let_def blit_update_Cons split: if_splits del: wr_in)
  next
    case plain
    let ?v = "c_tolower x"
    have body: "cmdline_loop b i sp ?t = cmdline_loop (b[?t := ?v]) (Suc i) False (Suc ?t)"
      using plain r w [of ?t ?v] Cons.prems(3) by (subst cmdline_loop.simps) (simp del: wr_in)
    have ih: "cmdline_loop (b[?t := ?v]) (Suc i) False (Suc ?t) =
        Some (blit (b[?t := ?v]) (Suc ?t) (cmdline_of False xs), Suc ?t + length (cmdline_of False xs)) \<and>
        Suc ?t + length (cmdline_of False xs) < length b"
      using Cons.IH [of "Suc i" "b[?t := ?v]" "Suc ?t" False] Cons.prems r w [of ?t ?v] by simp
    have "blit (b[?t := ?v]) (Suc ?t) ys = blit b t ((if sp then [32] else []) @ ?v # ys)" for ys
    proof (cases sp)
      case True
      have "blit b t [32] = b" using True Cons.prems r by (simp add: blit_single [symmetric] list_update_same_conv)
      then show ?thesis
        using True Cons.prems r blit_blit [of t "[32]" b "?v # ys"] by (simp add: blit_update_Cons)
    next
      case False
      then show ?thesis using Cons.prems r by (simp add: blit_update_Cons)
    qed
    then show ?thesis using body ih plain by (cases sp) simp_all
  qed
qed

section \<open>Properties\<close>

lemma cmdline_run:
  "0 \<notin> set xs \<Longrightarrow>
   \<exists>b. cmdline_execute (xs @ 0 # rest) len = Some (1, b, 0, length (cmdline_of False xs)) \<and>
     take (length (cmdline_of False xs)) b = cmdline_of False xs"
proof -
  assume nul: "0 \<notin> set xs"
  let ?out = "cmdline_of False xs" and ?b = "xs @ 0 # rest"
  have run: "cmdline_loop ?b 0 False 0 = Some (blit ?b 0 ?out, length ?out)" "length ?out < length ?b"
    using cmdline_loop_run [of 0 ?b xs rest 0 False] nul by simp_all
  have low: "c \<noteq> 0 \<Longrightarrow> c_tolower c \<noteq> 0" for c
  proof (cases "c_isupper c")
    case True
    then have "unat (c + 32) = unat c + 32"
      by (simp add: c_isupper_def word_le_nat_alt unat_word_ariths)
    then show "c_tolower c \<noteq> 0" using True by (auto simp: c_tolower_def)
  qed (simp add: c_tolower_def)
  have "0 \<notin> set (cmdline_of sp xs)" for sp
    using nul low by (induction xs arbitrary: sp) auto
  then show ?thesis
    using run wr_terminate [of ?out ?b] by (simp add: cmdline_execute_def del: wr_in)
qed

text \<open>
  on any NUL-terminated string \<open>cmdline\<close> stays inside the string although it moves its write
  pointer back before a slash or parenthesis, and its result is the normalised command line:
  quotes, backslashes and carets gone, separators squeezed into single spaces, none before
  \<^verbatim>\<open>/\<close> and \<^verbatim>\<open>(\<close>, everything in lower case.
\<close>

theorem cmdline_correct:
  "0 \<notin> set xs \<Longrightarrow>
   \<exists>b. cmdline_execute (xs @ 0 # rest) len = Some (1, b, 0, length (cmdline_of False xs)) \<and>
     take (length (cmdline_of False xs)) b = cmdline_of False xs"
  by (rule cmdline_run)

theorem cmdline_correct_witness:
  "\<exists>b. cmdline_execute [67, 94, 77, 68, 44, 32, 47, 67, 0] 8 = Some (1, b, 0, Suc (Suc (Suc (Suc (Suc 0))))) \<and>
     take (Suc (Suc (Suc (Suc (Suc 0))))) b = [99, 109, 100, 47, 99]"
  using cmdline_correct [of "[67, 94, 77, 68, 44, 32, 47, 67]" "[]" 8]
  by (simp add: cmd_removed_def cmd_blank_def c_tolower_def c_isupper_def)

text \<open>
  \<open>remove_quotes\<close> and \<open>remove_escape\<close> allocate as many bytes as the string has, so they
  return the string without the characters exactly when there is one to remove; otherwise the
  terminating NUL is written behind the block.
\<close>

theorem remove_quotes_escape_off_by_one:
  "0 \<notin> set xs \<Longrightarrow>
   remove_quotes junk (xs @ 0 # rest) (length xs) =
     (let ys = filter (\<lambda>c. \<not> (c = 39 \<or> c = 34)) xs in
      if list_ex (\<lambda>c. c = 39 \<or> c = 34) xs
      then Some (ys @ 0 # drop (Suc (length ys)) (apr_palloc junk (length xs))) else None) \<and>
   remove_escape junk (xs @ 0 # rest) (length xs) =
     (let ys = filter (\<lambda>c. \<not> (c = 92)) xs in
      if list_ex (\<lambda>c. c = 92) xs
      then Some (ys @ 0 # drop (Suc (length ys)) (apr_palloc junk (length xs))) else None)"
  using remove_loop_terminate [of xs _ junk "\<lambda>c. c = 39 \<or> c = 34" rest, OF _ refl]
    remove_loop_terminate [of xs _ junk "\<lambda>c. c = 92" rest, OF _ refl]
  unfolding remove_quotes_def remove_escape_def Let_def by blast

theorem remove_quotes_escape_off_by_one_witness:
  "remove_quotes (\<lambda>_. 7) [97, 98, 0] (Suc (Suc 0)) = None \<and>
   remove_escape (\<lambda>_. 7) [97, 92, 0] (Suc (Suc 0)) = Some [97, 0]"
  using remove_quotes_escape_off_by_one [of "[97, 98]" "\<lambda>_. 7" "[]"]
    remove_quotes_escape_off_by_one [of "[97, 92]" "\<lambda>_. 7" "[]"]
  by (simp add: Let_def)

text \<open>
  \<open>strnurlencat\<close> on a destination with room for \<open>m\<close> more bytes and the NUL appends the URL
  encoding of a prefix of the source, at most \<open>m\<close> bytes of it, and never half an escape.
\<close>

theorem strnurlencat_bounded:
  "0 \<notin> set ds \<Longrightarrow> 0 \<notin> set xs \<Longrightarrow> length ds + m < length (ds @ 0 # room) \<Longrightarrow>
   \<exists>k tail. strnurlencat (ds @ 0 # room) (xs @ 0 # rest) m = Some (ds @ url_encoded (take k xs) @ 0 # tail) \<and>
     length (url_encoded (take k xs)) \<le> m \<and>
     length (ds @ url_encoded (take k xs) @ 0 # tail) = length (ds @ 0 # room)"
proof -
  assume a: "0 \<notin> set ds" "0 \<notin> set xs" "length ds + m < length (ds @ 0 # room)"
  let ?dst = "ds @ 0 # room" and ?k = "url_fit m xs"
  let ?out = "url_encoded (take ?k xs)"
  have le: "length ?out \<le> m" using url_fit_length [of m xs] by simp
  have run: "strnurlencat_loop (xs @ 0 # rest) ?dst (length ds) m =
      Some (blit ?dst (length ds) ?out, length ds + length ?out)"
    using strnurlencat_loop_run [OF a(2) a(3)] by (simp add: Let_def)
  have blit: "blit ?dst (length ds) ?out = blit ?dst 0 (ds @ ?out)" by (simp add: blit_def)
  have "wr (blit ?dst 0 (ds @ ?out)) (length (ds @ ?out)) 0 =
      Some ((ds @ ?out) @ 0 # drop (Suc (length (ds @ ?out))) ?dst)"
    by (rule wr_terminate) (use le a(3) in simp)
  then have "strnurlencat ?dst (xs @ 0 # rest) m =
      Some (ds @ ?out @ 0 # drop (Suc (length (ds @ ?out))) ?dst)"
    using run blit a(1) by (simp add: strnurlencat_def del: wr_in drop_append)
  moreover have "length (ds @ ?out @ 0 # drop (Suc (length (ds @ ?out))) ?dst) = length ?dst"
    using le a(3) by simp
  ultimately show ?thesis using le by blast
qed

theorem strnurlencat_bounded_witness:
  "\<exists>k tail. strnurlencat ([97] @ 0 # [1, 2, 3, 4]) ([98, 47, 47] @ 0 # []) 4 =
       Some ([97] @ url_encoded (take k [98, 47, 47]) @ 0 # tail) \<and>
     length (url_encoded (take k [98, 47, 47])) \<le> 4 \<and>
     length ([97] @ url_encoded (take k [98, 47, 47]) @ 0 # tail) = length ([97] @ 0 # [1, 2, 3, 4 :: byte])"
  by (rule strnurlencat_bounded) simp_all

text \<open>
  \<open>m_strcasestr\<close> returns the first offset at which the needle occurs in the haystack when
  case is ignored, and NULL when there is none.
\<close>

theorem m_strcasestr_correct:
  "0 \<notin> set xs \<Longrightarrow> 0 \<notin> set (n # ns) \<Longrightarrow>
   m_strcasestr (xs @ 0 # rest) ((n # ns) @ 0 # rest') = Some (find (ci_at xs (n # ns)) [0..<length xs])"
  using strcasestr_loop_run [of xs n ns rest 0]
  by (simp add: m_strcasestr_def option.map_ident)

theorem m_strcasestr_correct_witness:
  "m_strcasestr [120, 67, 104, 85, 110, 75, 0] [99, 72, 117, 0] = Some (Some 1)"
  using m_strcasestr_correct [of "[120, 67, 104, 85, 110, 75]" 99 "[72, 117]" "[]" "[]"]
  by (simp add: ci_at_def c_tolower_def c_isupper_def upt_conv_Cons)

end
