(* ===== verification/Utf8Unicode.thy ===== *)
theory Utf8Unicode
  imports HexCodec
begin

text \<open>
  \<open>utf8_unicode_inplace_ex\<close> of \<^verbatim>\<open>apache2/msc_util.c\<close>: UTF-8 sequences become
  \<^verbatim>\<open>%uHHHH\<close>. The bytes of a sequence are read one after the other, each only when the one
  before it was a continuation byte, so the terminating NUL stops a truncated sequence.
\<close>

section \<open>The code\<close>

definition hex_digit :: "nat \<Rightarrow> byte" where
  "hex_digit k = c2x_table ! k"

text \<open>\<^verbatim>\<open>apr_psprintf(mp, "%x", d)\<close>\<close>

fun hexstr :: "nat \<Rightarrow> bytes" where
  "hexstr d = (if d < 16 then [hex_digit d] else hexstr (d div 16) @ [hex_digit (d mod 16)])"

declare hexstr.simps [simp del]

fun wr_list :: "bytes \<Rightarrow> nat \<Rightarrow> bytes \<Rightarrow> bytes option" where
  "wr_list b d [] = Some b"
| "wr_list b d (x # xs) = do { b \<leftarrow> wr b d x; wr_list b (d + 1) xs }"

text \<open>The output so far: block, write index, \<^verbatim>\<open>count\<close>, \<^verbatim>\<open>*changed\<close>.\<close>

type_synonym uout = "bytes \<times> nat \<times> nat \<times> bool"

text \<open>\<^verbatim>\<open>count++; if (count <= len) *data++ = c;\<close>\<close>

fun put_counted :: "nat \<Rightarrow> byte \<Rightarrow> uout \<Rightarrow> uout option" where
  "put_counted len c (rval, data, count, changed) =
     (let count = (count + 1) mod 2 ^ 32 in
      if count \<le> len then do { rval \<leftarrow> wr rval data c; Some (rval, data + 1, count, changed) }
      else Some (rval, data, count, changed))"

definition u_escape :: "nat \<Rightarrow> bytes" where
  "u_escape d = [37, 117] @ replicate (4 - length (hexstr d)) 48 @ hexstr d"

text \<open>\<^verbatim>\<open>count += k\<close>, and the \<^verbatim>\<open>%u\<close> escape of \<open>d\<close> when it still fits.\<close>

fun put_escape :: "nat \<Rightarrow> nat \<Rightarrow> nat \<Rightarrow> uout \<Rightarrow> (nat \<times> uout) option" where
  "put_escape len k d (rval, data, count, changed) =
     (let count = (count + k) mod 2 ^ 32 in
      if count \<le> len then do {
        rval \<leftarrow> wr_list rval data (u_escape d);
        Some (d, rval, data + length (u_escape d), count, True) }
      else Some (0, rval, data, count, changed))"

definition is_cont :: "byte \<Rightarrow> bool" where
  "is_cont c \<longleftrightarrow> c AND 0xC0 = 0x80"

definition bits6 :: "byte \<Rightarrow> nat" where
  "bits6 c = unat (c AND 0x3F)"

text \<open>One round of the loop up to the range checks: \<^verbatim>\<open>unicode_len\<close> (\<open>-1\<close>: characters missing,
  \<open>-2\<close>: invalid encoding), \<open>d\<close>, and the output. The branch for a NUL byte reads \<^verbatim>\<open>x2c(&c)\<close>, two
  bytes at the address of the one-byte local \<open>c\<close>.\<close>

definition utf8_sequence :: "bytes \<Rightarrow> nat \<Rightarrow> nat \<Rightarrow> nat \<Rightarrow> byte \<Rightarrow> uout \<Rightarrow> (int \<times> nat \<times> uout) option" where
  "utf8_sequence input bytes_left len i c st =
     (if c AND 0x80 = 0 then
        if c = 0 then do {
          v \<leftarrow> x2c [c] 0;
          Some (0, 0, st) }
        else do { st \<leftarrow> put_counted len c st; Some (0, 0, st) }
      else if c AND 0xE0 = 0xC0 then
        if bytes_left < 2 then Some (-1, 0, st)
        else do {
          u1 \<leftarrow> rd input (i + 1);
          if \<not> is_cont u1 then Some (-2, 0, st)
          else do {
            (d, st) \<leftarrow> put_escape len 6 (push_bit 6 (unat (c AND 0x1F)) OR bits6 u1) st;
            Some (2, d, st) } }
      else if c AND 0xF0 = 0xE0 then
        if bytes_left < 3 then Some (-1, 0, st)
        else do {
          u1 \<leftarrow> rd input (i + 1);
          if \<not> is_cont u1 then Some (-2, 0, st)
          else do {
            u2 \<leftarrow> rd input (i + 2);
            if \<not> is_cont u2 then Some (-2, 0, st)
            else do {
              (d, st) \<leftarrow> put_escape len 6
                (push_bit 12 (unat (c AND 0x0F)) OR push_bit 6 (bits6 u1) OR bits6 u2) st;
              Some (3, d, st) } } }
      else if c AND 0xF8 = 0xF0 then do {
        st \<leftarrow>
          (if 0xF5 \<le> c then
             case st of (rval, data, count, changed) \<Rightarrow> do {
               rval \<leftarrow> wr rval data c;
               Some (rval, data + 1, count, changed) }
           else Some st);
        if bytes_left < 4 then Some (-1, 0, st)
        else do {
          u1 \<leftarrow> rd input (i + 1);
          if \<not> is_cont u1 then Some (-2, 0, st)
          else do {
            u2 \<leftarrow> rd input (i + 2);
            if \<not> is_cont u2 then Some (-2, 0, st)
            else do {
              u3 \<leftarrow> rd input (i + 3);
              if \<not> is_cont u3 then Some (-2, 0, st)
              else do {
                (d, st) \<leftarrow> put_escape len 7
                  (push_bit 18 (unat (c AND 0x07)) OR push_bit 12 (bits6 u1) OR push_bit 6 (bits6 u2) OR bits6 u3) st;
                Some (4, d, st) } } } } }
      else do { st \<leftarrow> put_counted len c st; Some (0, 0, st) })"

text \<open>The surrogate and overlong checks append the first byte once more.\<close>

definition utf8_checks :: "nat \<Rightarrow> byte \<Rightarrow> int \<Rightarrow> nat \<Rightarrow> uout \<Rightarrow> uout option" where
  "utf8_checks len c unicode_len d st = do {
     st \<leftarrow> (if 0xD800 \<le> d \<and> d \<le> 0xDFFF then put_counted len c st else Some st);
     if unicode_len = 4 \<and> d < 0x10000 then put_counted len c st
     else if unicode_len = 3 \<and> d < 0x800 then put_counted len c st
     else if unicode_len = 2 \<and> d < 0x80 then put_counted len c st
     else Some st }"

partial_function (option) utf8_loop :: "bytes \<Rightarrow> nat \<Rightarrow> nat \<Rightarrow> nat \<Rightarrow> uout \<Rightarrow> uout option" where
  "utf8_loop input bytes_left len i st =
     (if i < bytes_left then do {
        c \<leftarrow> rd input i;
        (unicode_len, d, st) \<leftarrow> utf8_sequence input bytes_left len i c st;
        st \<leftarrow> utf8_checks len c unicode_len d st;
        utf8_loop input bytes_left len (i + (if unicode_len > 0 then nat unicode_len else 1)) st }
      else Some st)"

definition utf8_unicode_inplace_ex ::
  "(nat \<Rightarrow> byte) \<Rightarrow> bytes option \<Rightarrow> nat \<Rightarrow> (bytes option \<times> bool) option"
where
  "utf8_unicode_inplace_ex junk input input_len = do {
     let bytes_left = input_len mod 2 ^ 32;
     let len = (input_len * 7 + 1) mod 2 ^ 32;
     let rval = apr_palloc junk len;
     case input of
       None \<Rightarrow> Some (None, False)
     | Some b \<Rightarrow> do {
         (rval, data, count, changed) \<leftarrow> utf8_loop b bytes_left len 0 (rval, 0, 0, False);
         rval \<leftarrow> wr rval data 0;
         Some (Some rval, changed) } }"

declare utf8_loop.simps [simp del]

section \<open>What it computes\<close>

text \<open>The sequence a string starts with: \<^verbatim>\<open>unicode_len\<close> and the code point. Bytes behind the end
  count as NUL, which is no continuation byte.\<close>

definition byte_at :: "bytes \<Rightarrow> nat \<Rightarrow> byte" where
  "byte_at xs k = (if k < length xs then xs ! k else 0)"

definition seq_len :: "nat \<Rightarrow> bytes \<Rightarrow> int" where
  "seq_len n xs =
     (let c = byte_at xs 0 in
      if c AND 0x80 = 0 then 0
      else if c AND 0xE0 = 0xC0 then
        if n < 2 then -1 else if is_cont (byte_at xs 1) then 2 else -2
      else if c AND 0xF0 = 0xE0 then
        if n < 3 then -1 else if is_cont (byte_at xs 1) \<and> is_cont (byte_at xs 2) then 3 else -2
      else if c AND 0xF8 = 0xF0 then
        if n < 4 then -1
        else if is_cont (byte_at xs 1) \<and> is_cont (byte_at xs 2) \<and> is_cont (byte_at xs 3) then 4 else -2
      else 0)"

definition code_of :: "int \<Rightarrow> bytes \<Rightarrow> nat" where
  "code_of k xs =
     (let c = byte_at xs 0 in
      if k = 2 then push_bit 6 (unat (c AND 0x1F)) OR bits6 (byte_at xs 1)
      else if k = 3 then push_bit 12 (unat (c AND 0x0F)) OR push_bit 6 (bits6 (byte_at xs 1)) OR bits6 (byte_at xs 2)
      else if k = 4 then push_bit 18 (unat (c AND 0x07)) OR push_bit 12 (bits6 (byte_at xs 1)) OR
        push_bit 6 (bits6 (byte_at xs 2)) OR bits6 (byte_at xs 3)
      else 0)"

text \<open>What one round appends: a plain byte, the escape, and the first byte again for a surrogate or
  an overlong form. An incomplete sequence appends nothing, unless its first byte is one of
  \<^verbatim>\<open>0xF5\<close> to \<^verbatim>\<open>0xF7\<close>.\<close>

definition seq_out :: "nat \<Rightarrow> bytes \<Rightarrow> bytes" where
  "seq_out n xs =
     (let c = byte_at xs 0; k = seq_len n xs; d = code_of k xs in
      (if k = 0 \<or> c AND 0xF8 = 0xF0 \<and> 0xF5 \<le> c then [c] else []) @
      (if k > 0 then u_escape d else []) @
      (if 0xD800 \<le> d \<and> d \<le> 0xDFFF then [c] else []) @
      (if k = 4 \<and> d < 0x10000 \<or> k = 3 \<and> d < 0x800 \<or> k = 2 \<and> d < 0x80 then [c] else []))"

function utf8_escaped :: "nat \<Rightarrow> bytes \<Rightarrow> bytes" where
  "utf8_escaped n xs =
     (if xs = [] then []
      else seq_out n xs @
        utf8_escaped n (drop (if seq_len n xs > 0 then nat (seq_len n xs) else 1) xs))"
  by pat_completeness auto
termination
  by (relation "measure (\<lambda>(t, xs). length xs)") auto

declare utf8_escaped.simps [simp del]

section \<open>The code computes it\<close>

definition app :: "bytes \<Rightarrow> nat \<Rightarrow> bool \<Rightarrow> uout \<Rightarrow> uout" where
  "app xs k ch' st =
     (case st of (rval, data, count, ch) \<Rightarrow> (blit rval data xs, data + length xs, count + k, ch \<or> ch'))"

definition room :: "nat \<Rightarrow> nat \<Rightarrow> uout \<Rightarrow> bool" where
  "room len m st \<longleftrightarrow>
     (case st of (rval, data, count, ch) \<Rightarrow> data + m < length rval \<and> count + m \<le> len \<and> len < 2 ^ 32)"

lemma room_app: "room len m st \<Longrightarrow> length xs \<le> l \<Longrightarrow> k \<le> l \<Longrightarrow> l \<le> m \<Longrightarrow> room len (m - l) (app xs k ch st)"
  by (cases st) (auto simp: room_def app_def)

lemma app_app:
  "room len m st \<Longrightarrow> length xs \<le> m \<Longrightarrow>
   app ys l c2 (app xs k c1 st) = app (xs @ ys) (k + l) (c1 \<or> c2) st"
  by (cases st) (auto simp: room_def app_def blit_blit add.assoc)

lemma app_Nil [simp]: "app [] 0 False st = st"
  by (cases st) (simp add: app_def)

lemma put_counted_app: "room len m st \<Longrightarrow> 1 \<le> m \<Longrightarrow> put_counted len c st = Some (app [c] 1 False st)"
  by (cases st) (auto simp: room_def app_def Let_def blit_single)

lemma wr_list_run: "d + length xs \<le> length b \<Longrightarrow> wr_list b d xs = Some (blit b d xs)"
proof (induction xs arbitrary: b d)
  case Nil
  show ?case by simp
next
  case (Cons x xs)
  then show ?case by (simp add: blit_update_Cons)
qed

lemma put_escape_app:
  "room len m st \<Longrightarrow> k \<le> m \<Longrightarrow> length (u_escape d) \<le> m \<Longrightarrow>
   put_escape len k d st = Some (d, app (u_escape d) k True st)"
  by (cases st) (auto simp: room_def app_def Let_def wr_list_run)

lemma hexstr_length: "d < 16 ^ m \<Longrightarrow> 0 < m \<Longrightarrow> length (hexstr d) \<le> m"
proof (induction m arbitrary: d)
  case 0
  then show ?case by simp
next
  case (Suc m)
  show ?case
  proof (cases "d < 16")
    case True
    then show ?thesis by (simp add: hexstr.simps)
  next
    case False
    then have "0 < m" using Suc.prems by (cases m) auto
    moreover have "d div 16 < 16 ^ m" using Suc.prems by (simp add: less_mult_imp_div_less mult.commute)
    ultimately show ?thesis using False Suc.IH by (simp add: hexstr.simps [of d])
  qed
qed

lemma u_escape_length: "d < 16 ^ m \<Longrightarrow> 4 \<le> m \<Longrightarrow> length (u_escape d) \<le> 2 + m"
  using hexstr_length [of d m] by (simp add: u_escape_def)

lemma or_less: "a < 2 ^ n \<Longrightarrow> b < 2 ^ n \<Longrightarrow> a OR b < (2 :: nat) ^ n"
  by (metis take_bit_nat_eq_self take_bit_nat_less_exp take_bit_or)

lemma push_less: "a < 2 ^ k \<Longrightarrow> m + k \<le> n \<Longrightarrow> push_bit m a < (2 :: nat) ^ n"
proof -
  assume a: "a < 2 ^ k" and n: "m + k \<le> n"
  have "push_bit m a < 2 ^ (m + k)" using a by (simp add: push_bit_eq_mult power_add mult.commute)
  also have "(2 :: nat) ^ (m + k) \<le> 2 ^ n" using n by (rule power_increasing) simp
  finally show ?thesis .
qed

lemma and_less: "unat (c AND mask m) < 2 ^ m" for c :: byte
  by (metis and_mask_less_size not_le take_bit_eq_mask take_bit_nat_less_exp unsigned_take_bit_eq)

lemma bits6_less: "bits6 c < 2 ^ 6"
  using and_less [of c 6] by (simp add: bits6_def mask_eq_exp_minus_1)

lemma lead_less: "unat (c AND 0x1F) < 2 ^ 5" "unat (c AND 0x0F) < 2 ^ 4" "unat (c AND 0x07) < 2 ^ 3" for c :: byte
  using and_less [of c 5] and_less [of c 4] and_less [of c 3] by (simp_all add: mask_eq_exp_minus_1)

lemma code_of_less:
  "code_of 2 xs < 16 ^ 4" "code_of 3 xs < 16 ^ 4" "code_of 4 xs < 16 ^ 6"
proof -
  let ?c = "byte_at xs 0"
  have b6: "push_bit m (bits6 c) < 2 ^ n" if "m + 6 \<le> n" for m n c
    using push_less [OF bits6_less that] .
  have b0: "bits6 c < 2 ^ n" if "6 \<le> n" for n c
    using b6 [of 0 n c] that by simp
  have "push_bit 6 (unat (?c AND 0x1F)) < 2 ^ 16" by (rule push_less [OF lead_less(1)]) simp
  then have "push_bit 6 (unat (?c AND 0x1F)) OR bits6 (byte_at xs 1) < 2 ^ 16"
    by (rule or_less) (simp add: b0 del: power_numeral)
  then show "code_of 2 xs < 16 ^ 4" by (simp add: code_of_def)
  have "push_bit 12 (unat (?c AND 0x0F)) < 2 ^ 16" by (rule push_less [OF lead_less(2)]) simp
  then have "push_bit 12 (unat (?c AND 0x0F)) OR push_bit 6 (bits6 (byte_at xs 1)) OR bits6 (byte_at xs 2) < 2 ^ 16"
    by (intro or_less b6 b0) simp_all
  then show "code_of 3 xs < 16 ^ 4" by (simp add: code_of_def)
  have "push_bit 18 (unat (?c AND 0x07)) < 2 ^ 24" by (rule push_less [OF lead_less(3)]) simp
  then have "push_bit 18 (unat (?c AND 0x07)) OR push_bit 12 (bits6 (byte_at xs 1)) OR
      push_bit 6 (bits6 (byte_at xs 2)) OR bits6 (byte_at xs 3) < 2 ^ 24"
    by (intro or_less b6 b0) simp_all
  then show "code_of 4 xs < 16 ^ 6" by (simp add: code_of_def)
qed

lemma byte_at_rd:
  "i + k \<le> n \<Longrightarrow> n < length b \<Longrightarrow> b ! n = 0 \<Longrightarrow> rd b (i + k) = Some (byte_at (drop i (take n b)) k)"
proof -
  assume a: "i + k \<le> n" "n < length b" "b ! n = 0"
  then have "i + k = n" if "\<not> i + k < n" using that by simp
  with a show ?thesis by (auto simp: byte_at_def less_diff_conv add.commute)
qed

lemma cont_inside: "is_cont (byte_at xs k) \<Longrightarrow> k < length xs"
  by (rule ccontr) (simp add: byte_at_def is_cont_def)

definition adv :: "int \<Rightarrow> nat" where
  "adv k = (if k > 0 then nat k else 1)"

definition seq_head :: "nat \<Rightarrow> bytes \<Rightarrow> bytes" where
  "seq_head n xs =
     (let c = byte_at xs 0; k = seq_len n xs in
      (if k = 0 \<or> c AND 0xF8 = 0xF0 \<and> 0xF5 \<le> c then [c] else []) @
      (if k > 0 then u_escape (code_of k xs) else []))"

lemma seq_len_bounds: "xs \<noteq> [] \<Longrightarrow> seq_len n xs \<in> {-2, -1, 0, 2, 3, 4} \<and> adv (seq_len n xs) \<le> length xs"
  using cont_inside [of xs 1] cont_inside [of xs 2] cont_inside [of xs 3]
  by (auto simp: seq_len_def adv_def Let_def Suc_le_eq)

lemma lead_disjoint:
  "c AND 0xE0 = 0xC0 \<Longrightarrow> \<not> c AND 0xF8 = 0xF0" "c AND 0xF0 = 0xE0 \<Longrightarrow> \<not> c AND 0xF8 = 0xF0"
  "c AND 0x80 = 0 \<Longrightarrow> \<not> c AND 0xF8 = 0xF0" for c :: byte
proof -
  have "bit (c AND 0xE0) 5 \<longleftrightarrow> bit (c AND 0xF8) 5" "bit (c AND 0xF0) 4 \<longleftrightarrow> bit (c AND 0xF8) 4"
    "bit (c AND 0x80) 7 \<longleftrightarrow> bit (c AND 0xF8) 7" by (simp_all add: bit_and_iff)
  then show "c AND 0xE0 = 0xC0 \<Longrightarrow> \<not> c AND 0xF8 = 0xF0" "c AND 0xF0 = 0xE0 \<Longrightarrow> \<not> c AND 0xF8 = 0xF0"
    "c AND 0x80 = 0 \<Longrightarrow> \<not> c AND 0xF8 = 0xF0" by auto
qed

lemma utf8_sequence_run:
  assumes i: "i < n" and n: "n < length b" "b ! n = 0" and xs: "xs = drop i (take n b)"
    and c: "c = byte_at xs 0" "c \<noteq> 0" and r: "room len (7 * adv (seq_len n xs)) st"
  shows "\<exists>k1 ch1. utf8_sequence b n len i c st =
      Some (seq_len n xs, code_of (seq_len n xs) xs, app (seq_head n xs) k1 ch1 st) \<and>
    k1 \<le> (if seq_len n xs > 0 then 7 else 1)"
proof -
  have rd: "i + k \<le> n \<Longrightarrow> rd b (i + k) = Some (byte_at xs k)" for k
    using byte_at_rd [of i k n b] n xs by simp
  have r1: "rd b (i + 1) = Some (byte_at xs 1)" using rd [of 1] i by simp
  have r2: "is_cont (byte_at xs 1) \<Longrightarrow> rd b (i + 2) = Some (byte_at xs 2)"
    using rd [of 2] cont_inside [of xs 1] xs n by simp
  have r3: "is_cont (byte_at xs 2) \<Longrightarrow> rd b (i + 3) = Some (byte_at xs 3)"
    using rd [of 3] cont_inside [of xs 2] xs n by simp
  consider (one) "c AND 0x80 = 0" | (two) "\<not> c AND 0x80 = 0" "c AND 0xE0 = 0xC0"
    | (three) "\<not> c AND 0x80 = 0" "\<not> c AND 0xE0 = 0xC0" "c AND 0xF0 = 0xE0"
    | (four) "\<not> c AND 0x80 = 0" "\<not> c AND 0xE0 = 0xC0" "\<not> c AND 0xF0 = 0xE0" "c AND 0xF8 = 0xF0"
    | (bad) "\<not> c AND 0x80 = 0" "\<not> c AND 0xE0 = 0xC0" "\<not> c AND 0xF0 = 0xE0" "\<not> c AND 0xF8 = 0xF0" by blast
  then show ?thesis
  proof cases
    case one
    then have "seq_len n xs = 0" using c by (simp add: seq_len_def)
    then show ?thesis
      using one r c put_counted_app [OF r] lead_disjoint(3) [OF one]
      by (auto simp: utf8_sequence_def seq_head_def code_of_def adv_def)
  next
    case two
    have esc: "put_escape len 6 (code_of 2 xs) st = Some (code_of 2 xs, app (u_escape (code_of 2 xs)) 6 True st)"
      if "seq_len n xs = 2"
      using put_escape_app [OF r, of 6] u_escape_length [OF code_of_less(1) [of xs]] that by (simp add: adv_def)
    show ?thesis
    proof (cases "n < 2 \<or> \<not> is_cont (byte_at xs 1)")
      case True
      then show ?thesis
        using two r1 lead_disjoint(1) [OF two(2)]
        by (auto simp: utf8_sequence_def seq_len_def seq_head_def code_of_def c(1) intro!: exI [of _ 0] exI [of _ False])
    next
      case False
      then have k: "seq_len n xs = 2" using two by (simp add: seq_len_def c(1))
      from esc [OF k] show ?thesis
        using two False r1 k lead_disjoint(1) [OF two(2)]
        by (auto simp: utf8_sequence_def seq_head_def code_of_def c(1))
    qed
  next
    case three
    have esc: "put_escape len 6 (code_of 3 xs) st = Some (code_of 3 xs, app (u_escape (code_of 3 xs)) 6 True st)"
      if "seq_len n xs = 3"
      using put_escape_app [OF r, of 6] u_escape_length [OF code_of_less(2) [of xs]] that by (simp add: adv_def)
    show ?thesis
    proof (cases "n < 3 \<or> \<not> (is_cont (byte_at xs 1) \<and> is_cont (byte_at xs 2))")
      case True
      then show ?thesis
        using three r1 r2 lead_disjoint(2) [OF three(3)]
        by (auto simp: utf8_sequence_def seq_len_def seq_head_def code_of_def c(1) intro!: exI [of _ 0] exI [of _ False])
    next
      case False
      then have k: "seq_len n xs = 3" using three by (simp add: seq_len_def c(1))
      from esc [OF k] show ?thesis
        using three False r1 r2 k lead_disjoint(2) [OF three(3)]
        by (auto simp: utf8_sequence_def seq_head_def code_of_def c(1))
    qed
  next
    case four
    let ?o = "if 0xF5 \<le> c then [c] else []"
    have first: "(if 0xF5 \<le> c then
          case st of (rval, data, count, changed) \<Rightarrow> do {
            rval \<leftarrow> wr rval data c;
            Some (rval, data + 1, count, changed) }
        else Some st) = Some (app ?o 0 False st)"
      using r by (cases st) (auto simp: room_def app_def blit_single adv_def split: if_splits)
    show ?thesis
    proof (cases "n < 4 \<or> \<not> (is_cont (byte_at xs 1) \<and> is_cont (byte_at xs 2) \<and> is_cont (byte_at xs 3))")
      case True
      then have k: "seq_len n xs = (if n < 4 then -1 else -2)" using four by (auto simp: seq_len_def c(1))
      then have "seq_head n xs = ?o" using four by (simp add: seq_head_def Let_def c(1))
      then show ?thesis
        using four True r1 r2 r3 k unfolding utf8_sequence_def first
        by (auto simp: code_of_def intro!: exI [of _ 0] exI [of _ False])
    next
      case False
      then have k: "seq_len n xs = 4" using four by (simp add: seq_len_def c(1))
      have "room len 27 (app ?o 0 False st)" using room_app [OF r, of ?o 1 0 False] k by (simp add: adv_def)
      from put_escape_app [OF this, of 7 "code_of 4 xs"] have
        "put_escape len 7 (code_of 4 xs) (app ?o 0 False st) =
           Some (code_of 4 xs, app (u_escape (code_of 4 xs)) 7 True (app ?o 0 False st))"
        using u_escape_length [OF code_of_less(3) [of xs]] by simp
      also have "app (u_escape (code_of 4 xs)) 7 True (app ?o 0 False st) = app (seq_head n xs) 7 True st"
        using app_app [OF r, of ?o] four k by (simp add: seq_head_def c(1) adv_def)
      finally show ?thesis
        using four False r1 r2 r3 k unfolding utf8_sequence_def first
        by (auto simp: code_of_def c(1))
    qed
  next
    case bad
    then have "seq_len n xs = 0" using c by (simp add: seq_len_def)
    then show ?thesis
      using bad r c put_counted_app [OF r]
      by (auto simp: utf8_sequence_def seq_head_def code_of_def adv_def)
  qed
qed

definition seq_tail :: "nat \<Rightarrow> bytes \<Rightarrow> bytes" where
  "seq_tail n xs =
     (let c = byte_at xs 0; k = seq_len n xs; d = code_of k xs in
      (if 0xD800 \<le> d \<and> d \<le> 0xDFFF then [c] else []) @
      (if k = 4 \<and> d < 0x10000 \<or> k = 3 \<and> d < 0x800 \<or> k = 2 \<and> d < 0x80 then [c] else []))"

lemma seq_out_split: "seq_out n xs = seq_head n xs @ seq_tail n xs"
  by (simp add: seq_out_def seq_head_def seq_tail_def Let_def)

lemma seq_tail_length: "length (seq_tail n xs) \<le> (if seq_len n xs > 0 then 2 else 0)"
  by (auto simp: seq_tail_def Let_def code_of_def)

lemma seq_head_length: "xs \<noteq> [] \<Longrightarrow> length (seq_head n xs) \<le> (if seq_len n xs > 0 then 9 else 1)"
  using seq_len_bounds [of xs n] u_escape_length [OF code_of_less(1) [of xs]]
    u_escape_length [OF code_of_less(2) [of xs]] u_escape_length [OF code_of_less(3) [of xs]]
  by (auto simp: seq_head_def Let_def)

lemma utf8_checks_run:
  assumes "room len m st" "length (seq_tail n xs) \<le> m" "m \<le> 2"
  shows "utf8_checks len (byte_at xs 0) (seq_len n xs) (code_of (seq_len n xs) xs) st =
     Some (app (seq_tail n xs) (length (seq_tail n xs)) False st)"
proof -
  define c where "c = byte_at xs 0"
  define d where "d = code_of (seq_len n xs) xs"
  define P where "P \<longleftrightarrow> 0xD800 \<le> d \<and> d \<le> 0xDFFF"
  define Q where "Q \<longleftrightarrow> seq_len n xs = 4 \<and> d < 0x10000 \<or> seq_len n xs = 3 \<and> d < 0x800 \<or> seq_len n xs = 2 \<and> d < 0x80"
  have tail: "seq_tail n xs = (if P then [c] else []) @ (if Q then [c] else [])"
    unfolding seq_tail_def Let_def P_def Q_def c_def d_def by simp
  have checks: "utf8_checks len c (seq_len n xs) d st =
      do { st \<leftarrow> (if P then put_counted len c st else Some st); if Q then put_counted len c st else Some st }"
    unfolding utf8_checks_def P_def [symmetric] Q_def
    by (rule arg_cong [of _ _ "Option.bind _"]) auto
  have one: "put_counted len c st = Some (app [c] 1 False st)" if "P \<or> Q"
    using put_counted_app [OF assms(1)] assms(2) that unfolding tail by (auto split: if_splits)
  have two: "put_counted len c (app [c] 1 False st) = Some (app [c, c] 2 False st)" if "P \<and> Q"
  proof -
    have m: "2 \<le> m" using assms(2) that unfolding tail by simp
    have "room len (m - 1) (app [c] 1 False st)" using room_app [OF assms(1), of "[c]" 1 1] m by simp
    from put_counted_app [OF this, of c] m app_app [OF assms(1), of "[c]" "[c]" 1 False 1 False] show ?thesis
      by (simp add: numeral_2_eq_2)
  qed
  have "utf8_checks len c (seq_len n xs) d st = Some (app (seq_tail n xs) (length (seq_tail n xs)) False st)"
    unfolding checks tail using one two by (cases P; cases Q) (simp_all add: numeral_2_eq_2)
  then show ?thesis by (simp only: c_def d_def)
qed

text \<open>One round of the loop.\<close>

lemma utf8_round:
  assumes "i < n" "n < length b" "b ! n = 0" "xs = drop i (take n b)" "c = byte_at xs 0" "c \<noteq> 0"
    "room len (7 * adv (seq_len n xs)) st"
  shows "\<exists>k1 ch1. do {
       (unicode_len, d, st) \<leftarrow> utf8_sequence b n len i c st;
       st \<leftarrow> utf8_checks len c unicode_len d st;
       Some (unicode_len, st) } = Some (seq_len n xs, app (seq_out n xs) k1 ch1 st) \<and>
     k1 \<le> 7 * adv (seq_len n xs) \<and> length (seq_out n xs) \<le> 7 * adv (seq_len n xs)"
proof -
  obtain k1 ch1 where seq: "utf8_sequence b n len i c st =
      Some (seq_len n xs, code_of (seq_len n xs) xs, app (seq_head n xs) k1 ch1 st)"
    and k1: "k1 \<le> (if seq_len n xs > 0 then 7 else 1)"
    using utf8_sequence_run [OF assms] by blast
  have ne: "xs \<noteq> []" using assms by simp
  let ?l = "if seq_len n xs > 0 then 9 else 1"
  let ?m = "if seq_len n xs > 0 then 2 else 0"
  have bound: "?l + ?m \<le> 7 * adv (seq_len n xs)" using seq_len_bounds [OF ne, of n] by (auto simp: adv_def)
  have "room len (7 * adv (seq_len n xs) - ?l) (app (seq_head n xs) k1 ch1 st)"
    by (rule room_app [OF assms(7)]) (use seq_head_length [OF ne, of n] k1 bound in \<open>auto split: if_splits\<close>)
  then have "room len ?m (app (seq_head n xs) k1 ch1 st)"
    using bound by (auto simp: room_def split: prod.splits)
  from utf8_checks_run [OF this seq_tail_length] have
    "utf8_checks len c (seq_len n xs) (code_of (seq_len n xs) xs) (app (seq_head n xs) k1 ch1 st) =
       Some (app (seq_tail n xs) (length (seq_tail n xs)) False (app (seq_head n xs) k1 ch1 st))"
    using assms(5) by simp
  also have "app (seq_tail n xs) (length (seq_tail n xs)) False (app (seq_head n xs) k1 ch1 st) =
      app (seq_out n xs) (k1 + length (seq_tail n xs)) ch1 st"
    using app_app [OF assms(7), of "seq_head n xs"] seq_head_length [OF ne, of n] bound
    by (simp add: seq_out_split split: if_splits)
  finally show ?thesis
    using seq k1 bound seq_tail_length [of n xs] seq_head_length [OF ne, of n]
    by (intro exI [of _ "k1 + length (seq_tail n xs)"] exI [of _ ch1]) (auto simp: seq_out_split split: if_splits)
qed

lemma utf8_loop_run:
  assumes "n < length b" "b ! n = 0" "0 \<notin> set (take n b)" "i \<le> n" "room len (7 * (n - i)) (rval, data, count, ch)"
  shows "\<exists>count' ch'. utf8_loop b n len i (rval, data, count, ch) =
       Some (blit rval data (utf8_escaped n (drop i (take n b))),
             data + length (utf8_escaped n (drop i (take n b))), count', ch') \<and>
     length (utf8_escaped n (drop i (take n b))) \<le> 7 * (n - i)"
  using assms(4,5)
proof (induction "n - i" arbitrary: i rval data count ch rule: less_induct)
  case less
  let ?xs = "drop i (take n b)" and ?st = "(rval, data, count, ch)"
  show ?case
  proof (cases "i < n")
    case False
    then show ?thesis using less.prems by (simp add: utf8_loop.simps utf8_escaped.simps)
  next
    case i: True
    then have ne: "?xs \<noteq> []" and c: "rd b i = Some (byte_at ?xs 0)"
      using assms(1) byte_at_rd [of i 0 n b] assms(2) by simp_all
    have "byte_at ?xs 0 \<in> set (take n b)" using nth_mem [of i "take n b"] i assms(1) by (simp add: byte_at_def)
    then have c0: "byte_at ?xs 0 \<noteq> 0" using assms(3) by metis
    let ?a = "adv (seq_len n ?xs)"
    have a: "?a \<le> n - i" "0 < ?a" using seq_len_bounds [OF ne, of n] assms(1) by (auto simp: adv_def)
    have "room len (7 * ?a) ?st" using less.prems a by (auto simp: room_def)
    from utf8_round [OF i assms(1,2) refl refl c0 this] obtain k1 ch1 where
      round: "do {
         (unicode_len, d, st) \<leftarrow> utf8_sequence b n len i (byte_at ?xs 0) ?st;
         st \<leftarrow> utf8_checks len (byte_at ?xs 0) unicode_len d st;
         Some (unicode_len, st) } = Some (seq_len n ?xs, app (seq_out n ?xs) k1 ch1 ?st)"
      and k1: "k1 \<le> 7 * ?a" "length (seq_out n ?xs) \<le> 7 * ?a" by blast
    have "utf8_loop b n len i ?st = Option.bind (do {
         (unicode_len, d, st) \<leftarrow> utf8_sequence b n len i (byte_at ?xs 0) ?st;
         st \<leftarrow> utf8_checks len (byte_at ?xs 0) unicode_len d st;
         Some (unicode_len, st) }) (\<lambda>(unicode_len, st). utf8_loop b n len (i + adv unicode_len) st)"
      using i c by (subst utf8_loop.simps) (simp add: Option.bind_assoc case_prod_unfold adv_def cong: if_cong)
    also have "\<dots> = utf8_loop b n len (i + ?a) (app (seq_out n ?xs) k1 ch1 ?st)" by (simp add: round)
    finally have step: "utf8_loop b n len i ?st = utf8_loop b n len (i + ?a) (app (seq_out n ?xs) k1 ch1 ?st)" .
    have "room len (7 * (n - i) - 7 * ?a) (app (seq_out n ?xs) k1 ch1 ?st)"
      by (rule room_app [OF less.prems(2)]) (use k1 a in simp_all)
    moreover have "7 * (n - i) - 7 * ?a = 7 * (n - (i + ?a))" by arith
    ultimately have room: "room len (7 * (n - (i + ?a))) (app (seq_out n ?xs) k1 ch1 ?st)" by simp
    have adv: "n - (i + ?a) < n - i" "i + ?a \<le> n" using a i by linarith+
    obtain count' ch' where ih: "utf8_loop b n len (i + ?a) (app (seq_out n ?xs) k1 ch1 ?st) =
        Some (blit (blit rval data (seq_out n ?xs)) (data + length (seq_out n ?xs)) (utf8_escaped n (drop (i + ?a) (take n b))),
          data + length (seq_out n ?xs) + length (utf8_escaped n (drop (i + ?a) (take n b))), count', ch')"
      "length (utf8_escaped n (drop (i + ?a) (take n b))) \<le> 7 * (n - (i + ?a))"
      using less.hyps [of "i + ?a" "blit rval data (seq_out n ?xs)" "data + length (seq_out n ?xs)" "count + k1" "ch \<or> ch1"]
        adv room by (auto simp: app_def)
    have "utf8_escaped n ?xs = seq_out n ?xs @ utf8_escaped n (drop (i + ?a) (take n b))"
      using ne by (subst utf8_escaped.simps) (simp add: adv_def add.commute)
    moreover have "data + length (seq_out n ?xs) \<le> length rval"
      using less.prems(2) k1 a by (simp add: room_def)
    ultimately show ?thesis
      using step ih k1 a by (simp add: blit_blit add.assoc)
  qed
qed

section \<open>Properties\<close>

lemma utf8_unicode_run:
  assumes "0 \<notin> set xs" "length xs * 7 + 1 < 2 ^ 32"
  shows "\<exists>tail changed. utf8_unicode_inplace_ex junk (Some (xs @ 0 # rest)) (length xs) =
       Some (Some (utf8_escaped (length xs) xs @ 0 # tail), changed) \<and>
     length (utf8_escaped (length xs) xs) \<le> 7 * length xs"
proof -
  let ?n = "length xs" and ?rval = "apr_palloc junk (length xs * 7 + 1)" and ?b = "xs @ 0 # rest"
  let ?out = "utf8_escaped ?n xs"
  have "room (?n * 7 + 1) (7 * (?n - 0)) (?rval, 0, 0, False)" using assms(2) by (simp add: room_def)
  then obtain count' ch' where
    "utf8_loop ?b ?n (?n * 7 + 1) 0 (?rval, 0, 0, False) = Some (blit ?rval 0 ?out, length ?out, count', ch')"
    "length ?out \<le> 7 * ?n"
    using utf8_loop_run [of ?n ?b 0 "?n * 7 + 1" ?rval 0 0 False] assms(1) by auto
  then show ?thesis
    using wr_terminate [of ?out ?rval] assms(2) by (simp add: utf8_unicode_inplace_ex_def Let_def del: wr_in)
qed

text \<open>
  on NUL-terminated input (below the length where its 32-bit size wraps)
  \<open>utf8_unicode_inplace_ex\<close> never reads behind the terminating NUL, although it does not count
  down \<^verbatim>\<open>bytes_left\<close>, and never writes outside its block of seven bytes per input byte; it
  returns \<open>utf8_escaped\<close>, NUL-terminated.
\<close>

theorem utf8_unicode_correct:
  "0 \<notin> set xs \<Longrightarrow> length xs * 7 + 1 < 2 ^ 32 \<Longrightarrow>
   \<exists>tail changed. utf8_unicode_inplace_ex junk (Some (xs @ 0 # rest)) (length xs) =
       Some (Some (utf8_escaped (length xs) xs @ 0 # tail), changed) \<and>
     length (utf8_escaped (length xs) xs) \<le> 7 * length xs"
  by (rule utf8_unicode_run)

theorem utf8_unicode_correct_witness:
  "\<exists>tail changed. utf8_unicode_inplace_ex (\<lambda>_. 7) (Some ([97, 0xC3, 0xA9] @ 0 # [])) (length [97, 0xC3, 0xA9 :: byte]) =
       Some (Some (utf8_escaped (length [97, 0xC3, 0xA9 :: byte]) [97, 0xC3, 0xA9] @ 0 # tail), changed) \<and>
     length (utf8_escaped (length [97, 0xC3, 0xA9 :: byte]) [97, 0xC3, 0xA9]) \<le> 7 * length [97, 0xC3, 0xA9 :: byte]"
  by (rule utf8_unicode_correct) simp_all

text \<open>
  a two-byte sequence is replaced by \<^verbatim>\<open>%u\<close> and the four digits of its code point, as in
  \<^verbatim>\<open>%u00e9\<close>; the same lead byte without its continuation byte is dropped from the output.
\<close>

theorem utf8_unicode_two_bytes:
  "(\<exists>tail changed. utf8_unicode_inplace_ex junk (Some (0xC3 # 0xA9 # 0 # rest)) 2 =
      Some (Some ([37, 117, 48, 48, 101, 57] @ 0 # tail), changed)) \<and>
   (\<exists>tail changed. utf8_unicode_inplace_ex junk (Some (0xC3 # 97 # 0 # rest)) 2 =
      Some (Some ([97] @ 0 # tail), changed))"
proof -
  have n: "length [x, y :: byte] = 2" for x y by simp
  have h: "hexstr 233 = [101, 57]" by (simp add: hexstr.simps hex_digit_def c2x_table_def)
  have b: "byte_at [0xC3, 0xA9] 0 = 0xC3" "byte_at [0xC3, 0xA9] 1 = 0xA9" by (simp_all add: byte_at_def)
  have k: "seq_len 2 [0xC3, 0xA9] = 2" unfolding seq_len_def Let_def b by (simp add: is_cont_def)
  have d: "code_of 2 [0xC3, 0xA9] = 233" unfolding code_of_def Let_def b by (simp add: bits6_def)
  have e: "u_escape 233 = [37, 117, 48, 48, 101, 57]" unfolding u_escape_def h by (simp add: eval_nat_numeral)
  have o: "seq_out 2 [0xC3, 0xA9] = [37, 117, 48, 48, 101, 57]"
    unfolding seq_out_def Let_def k d b e by simp
  have "utf8_escaped 2 [0xC3, 0xA9] = [37, 117, 48, 48, 101, 57]"
    by (subst utf8_escaped.simps) (simp add: o k utf8_escaped.simps [of _ "[]"])
  moreover have "utf8_escaped 2 [0xC3, 97] = [97]"
  proof -
    have b: "byte_at [0xC3, 97] 0 = 0xC3" "byte_at [0xC3, 97] 1 = 97" "byte_at [97] 0 = 97" by (simp_all add: byte_at_def)
    have k: "seq_len 2 [0xC3, 97] = -2" "seq_len 2 [97] = 0"
      unfolding seq_len_def Let_def b by (simp_all add: is_cont_def)
    have o: "seq_out 2 [0xC3, 97] = []" "seq_out 2 [97] = [97]"
      unfolding seq_out_def Let_def k b by (simp_all add: code_of_def)
    show ?thesis
      by (subst utf8_escaped.simps) (simp add: o k utf8_escaped.simps [of _ "[97]"] utf8_escaped.simps [of _ "[]"])
  qed
  ultimately show ?thesis
    using utf8_unicode_run [of "[0xC3, 0xA9]" junk rest] utf8_unicode_run [of "[0xC3, 97]" junk rest]
    unfolding n by auto
qed

text \<open>
  a NUL byte inside the input makes the function read two bytes at the address of a one-byte
  local variable.
\<close>

theorem utf8_unicode_nul_reads_past_local:
  "utf8_unicode_inplace_ex junk (Some (0 # rest)) 1 = None"
  by (simp add: utf8_unicode_inplace_ex_def utf8_loop.simps utf8_sequence_def x2c_def Let_def)

end
