(* ===== verification/Base64Ext.thy ===== *)
theory Base64Ext
  imports Transforms
begin

text \<open>
  \<open>decode_base64_ext\<close> of \<^verbatim>\<open>apache2/msc_util.c\<close> and the transformation \<open>base64DecodeExt\<close> of
  \<^verbatim>\<open>apache2/re_tfns.c\<close>: forgiving Base64 decoding that skips bytes outside the alphabet.
\<close>

section \<open>The code\<close>

definition b64_pad :: byte where
  "b64_pad = 61"

text \<open>The table holds \<open>-1\<close> for white space and \<open>-2\<close> for the other bytes outside the alphabet.\<close>

definition b64_reverse_t :: "byte \<Rightarrow> int" where
  "b64_reverse_t c =
     (if 65 \<le> c \<and> c \<le> 90 then uint c - 65
      else if 97 \<le> c \<and> c \<le> 122 then uint c - 71
      else if 48 \<le> c \<and> c \<le> 57 then uint c + 4
      else if c = 43 then 62
      else if c = 47 then 63
      else if c = 9 \<or> c = 10 \<or> c = 13 \<or> c = 32 then -1
      else -2)"

text \<open>\<^verbatim>\<open>plain_text[j++] |= v; plain_text[j] = w\<close> and the like, for the sextet \<open>ch\<close> and \<^verbatim>\<open>i % 4\<close>.\<close>

definition or_at :: "bytes \<Rightarrow> nat \<Rightarrow> byte \<Rightarrow> bytes option" where
  "or_at b j v = do { x \<leftarrow> rd b j; wr b j (x OR v) }"

definition b64_put :: "bytes \<Rightarrow> nat \<Rightarrow> nat \<Rightarrow> byte \<Rightarrow> (bytes \<times> nat) option" where
  "b64_put plain i j ch =
     (if i mod 4 = 0 then do { plain \<leftarrow> wr plain j (push_bit 2 ch); Some (plain, j) }
      else if i mod 4 = 1 then do {
        plain \<leftarrow> or_at plain j (drop_bit 4 ch);
        plain \<leftarrow> wr plain (j + 1) (push_bit 4 (ch AND 0x0f));
        Some (plain, j + 1) }
      else if i mod 4 = 2 then do {
        plain \<leftarrow> or_at plain j (drop_bit 2 ch);
        plain \<leftarrow> wr plain (j + 1) (push_bit 6 (ch AND 0x03));
        Some (plain, j + 1) }
      else do { plain \<leftarrow> or_at plain j ch; Some (plain, j + 1) })"

text \<open>The end of the loop: an early \<^verbatim>\<open>return 0\<close>, or the values of \<^verbatim>\<open>plain_text\<close>,
  \<open>i\<close>, \<open>j\<close> and \<open>ch\<close>.\<close>

datatype b64_state = Return0 bytes | Exit bytes nat nat byte

fun decode_base64_loop :: "bytes \<Rightarrow> nat \<Rightarrow> nat \<Rightarrow> bytes \<Rightarrow> nat \<Rightarrow> nat \<Rightarrow> b64_state option" where
  "decode_base64_loop input p 0 plain i j = do { ch \<leftarrow> rd input p; Some (Exit plain i j ch) }"
| "decode_base64_loop input p (Suc input_len) plain i j = do {
     ch \<leftarrow> rd input p;
     if ch = 0 then Some (Exit plain i j ch)
     else if ch = b64_pad then do {
       bad \<leftarrow> and_m [rdp input (p + 1) (\<lambda>c. c \<noteq> 61), Some (i mod 4 = 1)];
       if bad then Some (Return0 plain)
       else decode_base64_loop input (p + 1) input_len plain i j }
     else
       let v = b64_reverse_t ch in
       if v < 0 \<or> v = -1 then decode_base64_loop input (p + 1) input_len plain i j
       else if v = -2 then Some (Return0 plain)
       else do {
         (plain, j) \<leftarrow> b64_put plain i j (word_of_int v);
         decode_base64_loop input (p + 1) input_len plain (i + 1) j } }"

text \<open>\<open>input_len\<close> is a natural number, where the code passes the \<^verbatim>\<open>unsigned int\<close> of the value as an \<^verbatim>\<open>int\<close>: lengths from
  \<open>2 ^ 31\<close> on, which become negative there, are outside the model.\<close>

definition decode_base64_ext :: "bytes \<Rightarrow> bytes \<Rightarrow> nat \<Rightarrow> (nat \<times> bytes) option" where
  "decode_base64_ext plain_text input input_len = do {
     st \<leftarrow> decode_base64_loop input 0 input_len plain_text 0 0;
     case st of
       Return0 plain \<Rightarrow> Some (0, plain)
     | Exit plain i j ch \<Rightarrow>
         if ch = b64_pad \<and> i mod 4 = 1 then Some (0, plain)
         else do {
           plain \<leftarrow>
             (if ch = b64_pad \<and> i mod 4 = 2 then wr plain (j + 1) 0
              else if ch = b64_pad \<and> i mod 4 = 3 then wr plain j 0
              else Some plain);
           plain \<leftarrow> wr plain j 0;
           Some (j, plain) } }"

text \<open>The transformation: the return value, \<^verbatim>\<open>*rval\<close> and \<^verbatim>\<open>*rval_len\<close>.\<close>

definition base64DecodeExt_execute :: "(nat \<Rightarrow> byte) \<Rightarrow> bytes \<Rightarrow> nat \<Rightarrow> (int \<times> bytes \<times> nat) option" where
  "base64DecodeExt_execute junk input input_len = do {
     (rval_len, rval) \<leftarrow> decode_base64_ext (apr_palloc junk input_len) input input_len;
     Some (int_of (rval_len \<noteq> 0), rval, rval_len) }"

section \<open>Bounds\<close>

text \<open>After \<open>i\<close> sextets the write index is \<open>3 * i div 4\<close>.\<close>

lemma b64_put_bounds:
  assumes "j = 3 * i div 4" "i < length plain"
  shows "\<exists>plain'. b64_put plain i j ch = Some (plain', 3 * (i + 1) div 4) \<and> length plain' = length plain"
proof -
  have j: "3 * (i + 1) div 4 = (if i mod 4 = 0 then j else j + 1)" using assms(1) by presburger
  have le: "j \<le> i" "i mod 4 \<noteq> 0 \<Longrightarrow> j + 1 \<le> i" using assms(1) by presburger+
  show ?thesis
  proof (cases "i mod 4 = 0")
    case True
    then show ?thesis unfolding j using le assms(2) by (simp add: b64_put_def)
  next
    case False
    then show ?thesis unfolding j using le(2) assms(2) by (simp add: b64_put_def or_at_def)
  qed
qed

fun b64_ok :: "bytes \<Rightarrow> nat \<Rightarrow> nat \<Rightarrow> b64_state \<Rightarrow> bool" where
  "b64_ok input n len (Return0 plain) = (length plain = len)"
| "b64_ok input n len (Exit plain i j ch) = (length plain = len \<and> j = 3 * i div 4 \<and> i \<le> n \<and> ch \<noteq> b64_pad)"

lemma decode_base64_loop_bounds:
  assumes "p + m < length input" "input ! (p + m) = 0" "i + m \<le> length plain" "j = 3 * i div 4"
  shows "\<exists>st. decode_base64_loop input p m plain i j = Some st \<and> b64_ok input (i + m) (length plain) st"
  using assms
proof (induction m arbitrary: p plain i j)
  case 0
  then show ?case by (auto simp: b64_pad_def)
next
  case (Suc m)
  let ?c = "input ! p" and ?v = "b64_reverse_t (input ! p)"
  have mono: "b64_ok input (i + m) l st \<Longrightarrow> b64_ok input (i + Suc m) l st" for l st
    by (cases st) auto
  consider (nul) "?c = 0" | (pad) "?c \<noteq> 0" "?c = b64_pad" | (skip) "?c \<noteq> 0" "?c \<noteq> b64_pad" "?v < 0"
    | (put) "?c \<noteq> 0" "?c \<noteq> b64_pad" "\<not> ?v < 0" by blast
  then show ?case
  proof cases
    case nul
    then show ?thesis using Suc.prems by (auto simp: b64_pad_def)
  next
    case pad
    then show ?thesis
      using Suc.prems Suc.IH [of "p + 1" i plain j] mono
      by (cases "input ! (p + 1) \<noteq> 61 \<and> i mod 4 = 1") auto
  next
    case skip
    then show ?thesis using Suc.prems Suc.IH [of "p + 1" i plain j] mono by (auto simp: Let_def)
  next
    case put
    obtain plain' where p: "b64_put plain i j (word_of_int ?v) = Some (plain', 3 * (i + 1) div 4)"
      "length plain' = length plain"
      using b64_put_bounds [of j i plain "word_of_int ?v"] Suc.prems by auto
    then show ?thesis
      using put Suc.prems Suc.IH [of "p + 1" "i + 1" plain' "3 * (i + 1) div 4"] by (auto simp: Let_def)
  qed
qed

section \<open>Decoding what a Base64 encoder writes\<close>

definition b64_char :: "byte \<Rightarrow> byte" where
  "b64_char s =
     (if s < 26 then s + 65 else if s < 52 then s + 71 else if s < 62 then s - 4
      else if s = 62 then 43 else 47)"

fun b64_encode :: "bytes \<Rightarrow> bytes" where
  "b64_encode [] = []"
| "b64_encode [a] = [b64_char (drop_bit 2 a), b64_char (push_bit 4 (a AND 3)), 61, 61]"
| "b64_encode [a, b] =
     [b64_char (drop_bit 2 a), b64_char (push_bit 4 (a AND 3) OR drop_bit 4 b), b64_char (push_bit 2 (b AND 15)), 61]"
| "b64_encode (a # b # c # xs) =
     b64_char (drop_bit 2 a) # b64_char (push_bit 4 (a AND 3) OR drop_bit 4 b) #
     b64_char (push_bit 2 (b AND 15) OR drop_bit 6 c) # b64_char (c AND 63) # b64_encode xs"

lemma b64_char_reverse:
  assumes "s < 64"
  shows "b64_reverse_t (b64_char s) = uint s \<and> b64_char s \<noteq> 0 \<and> b64_char s \<noteq> b64_pad"
proof -
  have "list_all (\<lambda>k. b64_reverse_t (b64_char (word_of_nat k)) = uint (word_of_nat k :: byte) \<and>
      b64_char (word_of_nat k) \<noteq> 0 \<and> b64_char (word_of_nat k) \<noteq> b64_pad) [0..<64]"
    by (simp add: upt_conv_Cons b64_reverse_t_def b64_char_def b64_pad_def)
  moreover have "unat s < 64" using assms by (simp add: word_less_nat_alt)
  ultimately have "b64_reverse_t (b64_char (word_of_nat (unat s))) = uint (word_of_nat (unat s) :: byte) \<and>
      b64_char (word_of_nat (unat s)) \<noteq> 0 \<and> b64_char (word_of_nat (unat s)) \<noteq> b64_pad"
    unfolding list_all_iff set_upt by (elim ballE [of _ _ "unat s"]) simp_all
  then show ?thesis by simp
qed

lemma loop_char:
  assumes "drop p input = b64_char s # more" "s < 64"
  shows "decode_base64_loop input p (Suc m) plain i j =
     do { (plain, j) \<leftarrow> b64_put plain i j s; decode_base64_loop input (p + 1) m plain (i + 1) j }"
proof -
  have "uint s \<noteq> -1" "uint s \<noteq> -2" using uint_ge_0 [of s] by linarith+
  then show ?thesis using drop_ConsD [OF assms(1)] b64_char_reverse [OF assms(2)] by (simp add: Let_def)
qed

lemma loop_pad:
  assumes "drop p input = 61 # c # more" "i mod 4 \<noteq> 1"
  shows "decode_base64_loop input p (m + 1) plain i j = decode_base64_loop input (p + 1) m plain i j"
  using drop_ConsD [OF assms(1)] drop_ConsD(1,2) [OF drop_ConsD(4) [OF assms(1)]] assms(2)
  by (simp add: b64_pad_def)

lemma less_64: "(\<And>n. bit x n \<Longrightarrow> n < 6) \<Longrightarrow> x < 64" for x :: byte
proof -
  assume "\<And>n. bit x n \<Longrightarrow> n < 6"
  then have "take_bit 6 x = x" by (intro bit_word_eqI) (auto simp: bit_take_bit_iff)
  then show ?thesis using and_mask_less_size [of 6 x] by (simp add: word_size take_bit_eq_mask)
qed

lemma and_take_bit: "a AND 3 = take_bit 2 a" "a AND 15 = take_bit 4 a" "a AND 63 = take_bit 6 a" for a :: byte
  by (simp_all add: take_bit_eq_mask mask_eq_exp_minus_1)

lemma sextets_less:
  "drop_bit 2 a < 64" "push_bit 4 (a AND 3) OR drop_bit 4 b < 64" "push_bit 4 (a AND 3) < 64"
  "push_bit 2 (b AND 15) OR drop_bit 6 c < 64" "push_bit 2 (b AND 15) < 64" "c AND 63 < 64" for a b c :: byte
  by (rule less_64, auto simp: and_take_bit bit_push_bit_iff bit_take_bit_iff bit_or_iff bit_drop_bit_eq
      dest: bit_imp_le_length)+

text \<open>The sextets of three bytes put back together.\<close>

lemma byte_eqI:
  assumes "bit x 0 = bit y 0" "bit x 1 = bit y 1" "bit x 2 = bit y 2" "bit x 3 = bit y 3"
    "bit x 4 = bit y 4" "bit x 5 = bit y 5" "bit x 6 = bit y 6" "bit x 7 = bit y 7"
  shows "x = (y :: byte)"
proof (rule bit_word_eqI)
  fix n assume "n < LENGTH(8)"
  then have "n \<in> {0, 1, 2, 3, 4, 5, 6, 7}" by simp arith
  then show "bit x n = bit y n" using assms by (elim insertE emptyE) simp_all
qed

lemma sextets_join:
  "push_bit 2 (drop_bit 2 a) OR drop_bit 4 (push_bit 4 (a AND 3) OR drop_bit 4 b) = a"
  "push_bit 2 (drop_bit 2 a) OR drop_bit 4 (push_bit 4 (a AND 3)) = a"
  "push_bit 4 ((push_bit 4 (a AND 3) OR drop_bit 4 b) AND 15) OR drop_bit 2 (push_bit 2 (b AND 15) OR drop_bit 6 c) = b"
  "push_bit 4 ((push_bit 4 (a AND 3) OR drop_bit 4 b) AND 15) OR drop_bit 2 (push_bit 2 (b AND 15)) = b"
  "push_bit 6 ((push_bit 2 (b AND 15) OR drop_bit 6 c) AND 3) OR (c AND 63) = c" for a b c :: byte
  by (rule byte_eqI; simp add: and_take_bit bit_push_bit_iff bit_take_bit_iff bit_or_iff bit_drop_bit_eq
      not_le)+

lemma blit3: "j + 2 < length b \<Longrightarrow> b[j := x, j + 1 := y, j + 2 := z] = blit b j [x, y, z]"
  and blit2: "j + 1 < length b \<Longrightarrow> b[j := x, j + 1 := y] = blit b j [x, y]"
proof -
  show 2: "b[j := x, j + 1 := y] = blit b j [x, y]" if "j + 1 < length b"
    using that blit_blit [of j "[x]" b "[y]"] by (simp add: blit_single)
  show "b[j := x, j + 1 := y, j + 2 := z] = blit b j [x, y, z]" if "j + 2 < length b"
    using that 2 blit_blit [of j "[x, y]" b "[z]"] by (simp add: blit_single)
qed

text \<open>The first two characters of a block, the third, and the fourth.\<close>

lemma two_chars:
  assumes "drop p input = b64_char s0 # b64_char s1 # more" "s0 < 64" "s1 < 64" "i mod 4 = 0" "j + 1 < length plain"
  shows "decode_base64_loop input p (m + 2) plain i j =
     decode_base64_loop input (p + 2) m
       (plain[j := push_bit 2 s0 OR drop_bit 4 s1, j + 1 := push_bit 4 (s1 AND 15)]) (i + 2) (j + 1)"
proof -
  have "Suc i mod 4 = 1" using assms(4) by presburger
  then show ?thesis
    using loop_char [OF assms(1,2), of "Suc m" plain i j] assms(4,5)
      loop_char [OF drop_ConsD(4) [OF assms(1)] assms(3), of m "plain[j := push_bit 2 s0]" "Suc i" j]
    by (simp add: b64_put_def or_at_def)
qed

lemma third_char:
  assumes "drop p input = b64_char s2 # more" "s2 < 64" "i mod 4 = 2" "j + 1 < length plain"
  shows "decode_base64_loop input p (m + 1) plain i j =
     decode_base64_loop input (p + 1) m (plain[j := plain ! j OR drop_bit 2 s2, j + 1 := push_bit 6 (s2 AND 3)]) (i + 1) (j + 1)"
  using loop_char [OF assms(1,2), of m plain i j] assms(3,4) by (simp add: b64_put_def or_at_def)

lemma fourth_char:
  assumes "drop p input = b64_char s3 # more" "s3 < 64" "i mod 4 = 3" "j < length plain"
  shows "decode_base64_loop input p (m + 1) plain i j =
     decode_base64_loop input (p + 1) m (plain[j := plain ! j OR s3]) (i + 1) (j + 1)"
  using loop_char [OF assms(1,2), of m plain i j] assms(3,4) by (simp add: b64_put_def or_at_def)

declare decode_base64_loop.simps [simp del]

lemma decode_encoded_loop:
  assumes "drop p input = b64_encode xs @ 0 # rest" "i mod 4 = 0" "j + length (b64_encode xs) \<le> length plain"
  shows "\<exists>plain' i'. decode_base64_loop input p (length (b64_encode xs)) plain i j =
       Some (Exit plain' i' (j + length xs) 0) \<and> take (j + length xs) plain' = take j plain @ xs \<and>
     length plain' = length plain"
  using assms
proof (induction xs arbitrary: p plain i j rule: b64_encode.induct)
  case 1
  then show ?case using drop_ConsD [of p input 0 rest] by (simp add: decode_base64_loop.simps)
next
  case (2 a)
  let ?plain = "blit plain j [a, 0]"
  have z: "push_bit 4 (push_bit 4 (a AND 3) AND 15) = 0"
    by (rule bit_word_eqI) (auto simp: and_take_bit bit_push_bit_iff bit_take_bit_iff)
  have d: "drop p input = b64_char (drop_bit 2 a) # b64_char (push_bit 4 (a AND 3)) # 61 # 61 # 0 # rest"
    using 2 by simp
  have d2: "drop (p + 2) input = 61 # 61 # 0 # rest" "drop (p + 3) input = 61 # 0 # rest" "drop (p + 4) input = 0 # rest"
    using d drop_ConsD(4) [OF d] by (auto simp: eval_nat_numeral dest: drop_ConsD)
  have m: "(i + 2) mod 4 \<noteq> 1" using "2.prems"(2) by presburger
  have len: "j + 1 < length plain" using "2.prems"(3) by simp
  have "decode_base64_loop input p 4 plain i j = decode_base64_loop input (p + 2) 2 ?plain (i + 2) (j + 1)"
    using two_chars [OF d sextets_less(1) sextets_less(3) "2.prems"(2) len, of 2, unfolded sextets_join(2) z] blit2 [OF len, of a 0]
    by simp
  also have "\<dots> = decode_base64_loop input (p + 3) 1 ?plain (i + 2) (j + 1)"
    using loop_pad [OF d2(1) m, of 1 ?plain "j + 1"] by (simp add: eval_nat_numeral)
  also have "\<dots> = decode_base64_loop input (p + 4) 0 ?plain (i + 2) (j + 1)"
    using loop_pad [OF d2(2) m, of 0 ?plain "j + 1"] by (simp add: eval_nat_numeral)
  also have "\<dots> = Some (Exit ?plain (i + 2) (j + 1) 0)"
    using drop_ConsD [OF d2(3)] by (simp add: decode_base64_loop.simps)
  finally show ?case using len by (intro exI [of _ ?plain] exI [of _ "i + 2"]) (simp add: blit_def eval_nat_numeral)
next
  case (3 a b)
  let ?s1 = "push_bit 4 (a AND 3) OR drop_bit 4 b" and ?s2 = "push_bit 2 (b AND 15)"
  let ?plain = "blit plain j [a, b, 0]"
  have z: "push_bit 6 (push_bit 2 (b AND 15) AND 3) = 0"
    by (rule bit_word_eqI) (auto simp: and_take_bit bit_push_bit_iff bit_take_bit_iff)
  have d: "drop p input = b64_char (drop_bit 2 a) # b64_char ?s1 # b64_char ?s2 # 61 # 0 # rest"
    using "3.prems"(1) by simp
  have d2: "drop (p + 2) input = b64_char ?s2 # 61 # 0 # rest" "drop (p + 3) input = 61 # 0 # rest"
    "drop (p + 4) input = 0 # rest"
    using d drop_ConsD(4) [OF d] by (auto simp: eval_nat_numeral dest: drop_ConsD)
  have m: "(i + 2) mod 4 = 2" "(i + 3) mod 4 \<noteq> 1" using "3.prems"(2) by presburger+
  have len: "j + 2 < length plain" "j + 1 < length plain" using "3.prems"(3) by simp_all
  let ?p1 = "plain[j := a, j + 1 := push_bit 4 (?s1 AND 15)]"
  have "decode_base64_loop input p 4 plain i j = decode_base64_loop input (p + 2) 2 ?p1 (i + 2) (j + 1)"
    using two_chars [OF d sextets_less(1) sextets_less(2) "3.prems"(2) len(2), of 2, unfolded sextets_join(1)]
    by (simp add: eval_nat_numeral)
  also have "\<dots> = decode_base64_loop input (p + 3) 1 ?plain (i + 3) (j + 2)"
    using third_char [OF d2(1) sextets_less(5) m(1), of "j + 1" ?p1 1] len blit3 [OF len(1), of a b 0]
      sextets_join(4) [of a b] z
    by (simp add: eval_nat_numeral del: push_bit_and drop_bit_and)
  also have "\<dots> = decode_base64_loop input (p + 4) 0 ?plain (i + 3) (j + 2)"
    using loop_pad [OF d2(2) m(2), of 0 ?plain "j + 2"] by (simp add: eval_nat_numeral)
  also have "\<dots> = Some (Exit ?plain (i + 3) (j + 2) 0)"
    using drop_ConsD [OF d2(3)] by (simp add: decode_base64_loop.simps)
  finally show ?case using len by (intro exI [of _ ?plain] exI [of _ "i + 3"]) (simp add: blit_def eval_nat_numeral)
next
  case (4 a b c xs)
  let ?s1 = "push_bit 4 (a AND 3) OR drop_bit 4 b" and ?s2 = "push_bit 2 (b AND 15) OR drop_bit 6 c"
  let ?plain = "blit plain j [a, b, c]" and ?m = "length (b64_encode xs)"
  have d: "drop p input = b64_char (drop_bit 2 a) # b64_char ?s1 # b64_char ?s2 # b64_char (c AND 63) # b64_encode xs @ 0 # rest"
    using "4.prems"(1) by simp
  have d2: "drop (p + 2) input = b64_char ?s2 # b64_char (c AND 63) # b64_encode xs @ 0 # rest"
    "drop (p + 3) input = b64_char (c AND 63) # b64_encode xs @ 0 # rest"
    "drop (p + 4) input = b64_encode xs @ 0 # rest"
    using d drop_ConsD(4) [OF d] by (auto simp: eval_nat_numeral dest: drop_ConsD)
  have m: "(i + 2) mod 4 = 2" "(i + 3) mod 4 = 3" "(i + 4) mod 4 = 0" using "4.prems"(2) by presburger+
  have len: "j + 2 < length plain" "j + 1 < length plain" "j + 3 + ?m \<le> length plain"
    using "4.prems"(3) by simp_all
  let ?p1 = "plain[j := a, j + 1 := push_bit 4 (?s1 AND 15)]"
  let ?p2 = "plain[j := a, j + 1 := b, j + 2 := push_bit 6 (?s2 AND 3)]"
  have "decode_base64_loop input p (?m + 4) plain i j = decode_base64_loop input (p + 2) (?m + 2) ?p1 (i + 2) (j + 1)"
    using two_chars [OF d sextets_less(1) sextets_less(2) "4.prems"(2) len(2), of "?m + 2", unfolded sextets_join(1)]
    by (simp add: eval_nat_numeral)
  also have "\<dots> = decode_base64_loop input (p + 3) (?m + 1) ?p2 (i + 3) (j + 2)"
    using third_char [OF d2(1) sextets_less(4) m(1), of "j + 1" ?p1 "?m + 1"] len sextets_join(3) [of a b c]
    by (simp add: eval_nat_numeral del: push_bit_and drop_bit_and)
  also have "\<dots> = decode_base64_loop input (p + 4) ?m ?plain (i + 4) (j + 3)"
    using fourth_char [OF d2(2) sextets_less(6) m(2), of "j + 2" ?p2 ?m] len blit3 [OF len(1), of a b c] sextets_join(5) [of b c]
    by (simp add: eval_nat_numeral del: push_bit_and drop_bit_and)
  finally have loop: "decode_base64_loop input p (?m + 4) plain i j = \<dots>" .
  have "length ?plain = length plain" "take (j + 3) ?plain = take j plain @ [a, b, c]" using len by (simp_all add: blit_def)
  moreover obtain plain' i' where "decode_base64_loop input (p + 4) ?m ?plain (i + 4) (j + 3) =
      Some (Exit plain' i' (j + 3 + length xs) 0)"
    "take (j + 3 + length xs) plain' = take (j + 3) ?plain @ xs" "length plain' = length ?plain"
    using "4.IH" [OF d2(3) m(3), of "j + 3" ?plain] len(3) calculation by (auto simp: add.assoc)
  ultimately show ?case
    using loop by (intro exI [of _ plain'] exI [of _ i']) (simp add: eval_nat_numeral)
qed

section \<open>Properties\<close>

lemma length_b64_encode: "length xs < length (b64_encode xs)" if "xs \<noteq> []"
  using that by (induction xs rule: b64_encode.induct) (auto simp: le_Suc_eq less_Suc_eq, fastforce)

text \<open>
  C40: \<open>base64DecodeExt\<close> inverts Base64: given the standard encoding of a non-empty string, NUL-terminated
  as ModSecurity keeps its strings, the transformation returns 1 and exactly the encoded bytes,
  followed by a NUL, whatever the fresh block held.
\<close>

theorem base64_round_trip:
  assumes "xs \<noteq> []"
  shows "\<exists>rval. base64DecodeExt_execute junk (b64_encode xs @ 0 # rest) (length (b64_encode xs)) =
    Some (1, rval, length xs) \<and> take (length xs) rval = xs \<and> rval ! length xs = 0"
proof -
  let ?n = "length (b64_encode xs)"
  have n: "length xs < ?n" using length_b64_encode [OF assms] .
  obtain plain i where st: "decode_base64_loop (b64_encode xs @ 0 # rest) 0 ?n (apr_palloc junk ?n) 0 0 =
      Some (Exit plain i (length xs) 0)" "take (length xs) plain = xs" "length plain = ?n"
    using decode_encoded_loop [of 0 "b64_encode xs @ 0 # rest" xs rest 0 0 "apr_palloc junk ?n"] by auto
  have "base64DecodeExt_execute junk (b64_encode xs @ 0 # rest) ?n =
      Some (1, plain[length xs := 0], length xs)"
    using n st assms by (simp add: base64DecodeExt_execute_def decode_base64_ext_def int_of_def b64_pad_def)
  then show ?thesis using n st by simp
qed

theorem base64_round_trip_witness:
  "\<exists>rval. base64DecodeExt_execute (\<lambda>_. 7) (b64_encode [77, 97, 110, 33] @ 0 # [5])
     (length (b64_encode [77, 97, 110, 33])) = Some (1, rval, length [77 :: byte, 97, 110, 33]) \<and>
     take (length [77 :: byte, 97, 110, 33]) rval = [77, 97, 110, 33] \<and>
     rval ! length [77 :: byte, 97, 110, 33] = 0"
  by (rule base64_round_trip) simp

text \<open>
  \<open>decode_base64_ext\<close> never leaves its buffers on a non-empty NUL-terminated string of any bytes at
  all, and its result fits the block with room for the NUL: three bytes for four characters.
\<close>

theorem base64_safe:
  assumes "input_len < length input" "input ! input_len = 0" "0 < input_len"
  shows "\<exists>n rval. base64DecodeExt_execute junk input input_len = Some (int_of (n \<noteq> 0), rval, n) \<and>
    length rval = input_len \<and> 4 * n \<le> 3 * input_len"
proof -
  obtain st where st: "decode_base64_loop input 0 input_len (apr_palloc junk input_len) 0 0 = Some st"
    "b64_ok input input_len input_len st"
    using decode_base64_loop_bounds [of 0 input_len input 0 "apr_palloc junk input_len" 0] assms by auto
  then show ?thesis
  proof (cases st)
    case (Return0 plain)
    then show ?thesis using st by (simp add: base64DecodeExt_execute_def decode_base64_ext_def)
  next
    case (Exit plain i j ch)
    then have "j = 3 * i div 4" "i \<le> input_len" "length plain = input_len" "ch \<noteq> b64_pad" using st by auto
    moreover from this have "j < input_len" using assms(3) by presburger
    ultimately show ?thesis
      using st Exit by (simp add: base64DecodeExt_execute_def decode_base64_ext_def)
  qed
qed

theorem base64_safe_witness:
  "\<exists>n rval. base64DecodeExt_execute (\<lambda>_. 7) [61, 66, 200, 33, 0] 4 = Some (int_of (n \<noteq> 0), rval, n) \<and>
    length rval = 4 \<and> 4 * n \<le> 3 * 4"
  using base64_safe [of 4 "[61, 66, 200, 33, 0]" "\<lambda>_. 7"] by simp

text \<open>
  for the empty input the code asks for a block of no bytes and still writes the terminating NUL
  into it, whatever the pool returned.
\<close>

theorem base64_empty_overruns: "base64DecodeExt_execute junk (0 # rest) 0 = None"
  by (simp add: base64DecodeExt_execute_def decode_base64_ext_def decode_base64_loop.simps b64_pad_def)

end
