(* ===== verification/NormalizePath.thy ===== *)
theory NormalizePath
  imports Transforms
begin

text \<open>
  \<open>normalize_path_inplace\<close> of \<^verbatim>\<open>apache2/msc_util.c\<close>. Pointers are offsets into the
  one buffer \<open>b\<close>: \<open>src\<close> and \<open>dst\<close> run over it, \<open>lst\<close> is \<^verbatim>\<open>end - input\<close>.
  \<^verbatim>\<open>dst -= 3\<close> may leave the buffer at its front in C before the code sets \<open>dst\<close> back to the
  start; the offset stops at 0 here, which makes no difference to the comparisons that follow.
\<close>

section \<open>The code\<close>

text \<open>The variables of the loop: the buffer, \<open>src\<close>, \<open>dst\<close>, \<open>hitroot\<close> and \<^verbatim>\<open>*changed\<close>.\<close>

type_synonym npath = "bytes \<times> nat \<times> nat \<times> bool \<times> bool"

definition is_slash :: "bool \<Rightarrow> byte \<Rightarrow> bool" where
  "is_slash win c \<longleftrightarrow> c = 47 \<or> win \<and> c = 92"

text \<open>\<^verbatim>\<open>while ((dst > input) && (*dst != '/')) dst--;\<close>\<close>

fun back_to_slash :: "bytes \<Rightarrow> nat \<Rightarrow> nat option" where
  "back_to_slash b 0 = Some 0"
| "back_to_slash b (Suc d) = do {
     c \<leftarrow> rd b (Suc d);
     if c \<noteq> 47 then back_to_slash b d else Some (Suc d) }"

text \<open>Skip to the last of several slashes.\<close>

function skip_slashes :: "bool \<Rightarrow> nat \<Rightarrow> bytes \<Rightarrow> nat \<Rightarrow> nat option" where
  "skip_slashes win lst b src = do {
     more \<leftarrow> and_m [Some (src < lst), rdp b (src + 1) (is_slash win)];
     if src < lst \<and> more then skip_slashes win lst b (src + 1) else Some src }"
  by pat_completeness auto
termination
  by (relation "measure (\<lambda>(win, lst, b, src). lst - src)") auto

text \<open>From the label \<open>copy\<close> to the label \<open>length\<close>.\<close>

definition np_copy :: "bool \<Rightarrow> nat \<Rightarrow> bool \<Rightarrow> npath \<Rightarrow> npath option" where
  "np_copy win lst relative = (\<lambda>(b, src, dst, hitroot, changed). do {
     c \<leftarrow> rd b src;
     src' \<leftarrow> (if c = 47 then skip_slashes win lst b src else Some src);
     if c = 47 \<and> relative \<and> dst = 0 then Some (b, src' + 1, dst, hitroot, changed \<or> src' \<noteq> src)
     else do {
       v \<leftarrow> rd b src';
       b \<leftarrow> wr b dst v;
       Some (b, src' + 1, dst + 1, hitroot, changed \<or> src' \<noteq> src) } })"

text \<open>Backslashes at \<open>src\<close> and \<open>src + 1\<close> become slashes on Windows.\<close>

definition np_win :: "bool \<Rightarrow> nat \<Rightarrow> bytes \<Rightarrow> nat \<Rightarrow> bool \<Rightarrow> (bytes \<times> bool) option" where
  "np_win win lst b src changed =
     (if win then do {
        c \<leftarrow> rd b src;
        (b, changed) \<leftarrow> (if c = 92 then do { b \<leftarrow> wr b src 47; Some (b, True) } else Some (b, changed));
        nxt \<leftarrow> and_m [Some (src < lst), rdp b (src + 1) (\<lambda>c. c = 92)];
        if nxt then do { b \<leftarrow> wr b (src + 1) 47; Some (b, True) } else Some (b, changed) }
      else Some (b, changed))"

text \<open>The part of an iteration that normalises a segment whose last byte is at \<open>src\<close>. The flag
  \<open>done\<close> of the result says that the code jumped to \<open>length\<close> with \<open>done\<close> set.\<close>

definition np_segment :: "bool \<Rightarrow> nat \<Rightarrow> bool \<Rightarrow> npath \<Rightarrow> npath option" where
  "np_segment win lst relative = (\<lambda>(b, src, dst, hitroot, changed). do {
     c \<leftarrow> rd b src;
     let fin = (src = lst);
     if \<not> fin \<and> c = 47 then np_copy win lst relative (b, src, dst, hitroot, True)
     else if c = 46 then do {
       backref \<leftarrow> and_m [Some (0 < dst), rdp b (dst - 1) (\<lambda>c. c = 46)];
       self \<leftarrow> and_m [Some (0 < dst), rdp b (dst - 1) (\<lambda>c. c = 47)];
       if backref then
         if relative \<and> (hitroot \<or> dst \<le> 2) then np_copy win lst relative (b, src, dst, True, changed)
         else do {
           dst \<leftarrow> back_to_slash b (dst - 3);
           let hitroot = (hitroot \<or> dst = 0);
           let dst = (if dst = 0 \<and> \<not> relative \<and> fin then 1 else dst);
           if fin then Some (b, src, dst, hitroot, changed)
           else np_copy win lst relative (b, src + 1, dst, hitroot, True) }
       else if dst = 0 then
         if fin then Some (b, src, dst, hitroot, True)
         else np_copy win lst relative (b, src + 1, dst, hitroot, True)
       else if self then
         if fin then Some (b, src, dst, hitroot, True)
         else np_copy win lst relative (b, src + 1, dst - 1, hitroot, True)
       else np_copy win lst relative (b, src, dst, hitroot, changed) }
     else if 0 < dst then np_copy win lst relative (b, src, dst, False, changed)
     else np_copy win lst relative (b, src, dst, hitroot, changed) })"

definition np_body :: "bool \<Rightarrow> nat \<Rightarrow> bool \<Rightarrow> npath \<Rightarrow> (bool \<times> npath) option" where
  "np_body win lst relative = (\<lambda>(b, src, dst, hitroot, changed). do {
     (b, changed) \<leftarrow> np_win win lst b src changed;
     inside \<leftarrow> and_m [Some (src \<noteq> lst), rdp b (src + 1) (\<lambda>c. c \<noteq> 47)];
     st \<leftarrow> (if inside then np_copy win lst relative (b, src, dst, hitroot, changed)
            else np_segment win lst relative (b, src, dst, hitroot, changed));
     Some (src = lst, st) })"

fun np_guard :: "nat \<Rightarrow> bool \<times> npath \<Rightarrow> bool" where
  "np_guard lst (fin, b, src, dst, hitroot, changed) = (\<not> fin \<and> src \<le> lst \<and> dst \<le> lst)"

partial_function (option) np_loop :: "bool \<Rightarrow> nat \<Rightarrow> bool \<Rightarrow> bool \<times> npath \<Rightarrow> npath option" where
  "np_loop win lst relative st =
     (if np_guard lst st then Option.bind (np_body win lst relative (snd st)) (np_loop win lst relative)
      else Some (snd st))"

text \<open>The result is the new length, the buffer and \<^verbatim>\<open>*changed\<close>.\<close>

definition normalize_path_inplace :: "bytes \<Rightarrow> nat \<Rightarrow> bool \<Rightarrow> (nat \<times> bytes \<times> bool) option" where
  "normalize_path_inplace input input_len win =
     (if input_len = 0 then Some (0, input, False)
      else do {
        let lst = input_len - 1;
        relative \<leftarrow> rdp input 0 (\<lambda>c. \<not> is_slash win c);
        trailing \<leftarrow> rdp input lst (is_slash win);
        (b, src, dst, hitroot, changed) \<leftarrow> np_loop win lst relative (False, input, 0, 0, False, False);
        strip \<leftarrow> and_m [Some (\<not> trailing), Some (0 < dst), rdp b (dst - 1) (\<lambda>c. c = 47)];
        let ldst = (if strip then dst - 1 else dst);
        b \<leftarrow> wr b ldst 0;
        Some (ldst, b, changed) })"

declare skip_slashes.simps [simp del] np_loop.simps [code]

section \<open>It ends and stays in the buffer\<close>

lemma skip_slashes_run:
  "drop src (take (Suc lst) b) = c # ys \<Longrightarrow> lst < length b \<Longrightarrow>
   skip_slashes win lst b src = Some (src + length (takeWhile (is_slash win) ys))"
proof (induction ys arbitrary: src c)
  case Nil
  then have "length (drop src (take (Suc lst) b)) = 1" by simp
  then have "src = lst" using Nil.prems(2) by simp
  then show ?case by (simp add: skip_slashes.simps [of win lst b lst])
next
  case (Cons d ys)
  then have "length (drop src (take (Suc lst) b)) = Suc (Suc (length ys))" by simp
  then have src: "src < lst" using Cons.prems(2) by simp
  have tl: "drop (Suc src) (take (Suc lst) b) = d # ys" using drop_ConsD(4) [OF Cons.prems(1)] .
  then have d: "b ! Suc src = d" using drop_ConsD(2) [OF tl] src by simp
  show ?case
    using Cons.IH [OF tl Cons.prems(2)] src d Cons.prems(2) by (simp add: skip_slashes.simps [of win lst b src])
qed

lemma back_to_slash_le: "d < length b \<Longrightarrow> \<exists>d' \<le> d. back_to_slash b d = Some d'"
proof (induction d)
  case 0
  then show ?case by simp
next
  case (Suc d)
  then obtain d' where "d' \<le> d" "back_to_slash b d = Some d'" by auto
  then show ?case using Suc.prems by (cases "b ! Suc d = 47") auto
qed

text \<open>The states the loop goes through: \<open>dst\<close> never passes \<open>src\<close>, and \<open>src\<close> passes \<open>lst\<close> by one at
  most. An iteration at \<open>src\<close> either is the last one or moves \<open>src\<close> on.\<close>

fun np_after :: "nat \<Rightarrow> nat \<Rightarrow> nat \<Rightarrow> bool \<times> npath \<Rightarrow> bool" where
  "np_after lst len src (fin, b, src', dst, hitroot, changed) =
     (length b = len \<and> (if fin then dst \<le> Suc lst else src < src' \<and> src' \<le> Suc lst \<and> dst \<le> src'))"

lemma np_copy_after:
  assumes "src \<le> lst" "dst \<le> src" "lst < length b"
  shows "\<exists>st. np_copy win lst relative (b, src, dst, hitroot, changed) = Some st \<and>
     np_after lst (length b) src (fin, st) \<and> fst (snd (snd st)) \<le> Suc dst"
proof -
  obtain ys where ys: "drop src (take (Suc lst) b) = b ! src # ys"
    using assms(1,3) by (metis Cons_nth_drop_Suc drop_take le_imp_less_Suc length_take less_SucI
        min.absorb2 nth_take Suc_leI)
  let ?k = "length (takeWhile (is_slash win) ys)"
  have "length ys = lst - src" using arg_cong [OF ys, of length] assms(1,3) by simp
  then have k: "src + ?k \<le> lst" using length_takeWhile_le [of "is_slash win" ys] assms(1) by linarith
  show ?thesis
    using k assms skip_slashes_run [OF ys assms(3), of win]
    by (auto simp: np_copy_def)
qed

lemma np_win_run:
  assumes "src \<le> lst" "lst < length b"
  shows "\<exists>b' changed'. np_win win lst b src changed = Some (b', changed') \<and> length b' = length b"
  using assms by (auto simp: np_win_def)

lemma np_segment_after:
  assumes "src \<le> lst" "dst \<le> src" "lst < length b" "src = lst \<or> b ! (src + 1) = 47"
  shows "\<exists>st. np_segment win lst relative (b, src, dst, hitroot, changed) = Some st \<and>
     np_after lst (length b) src (src = lst, st)"
proof -
  have copy: "\<exists>st. np_copy win lst relative (b, src', dst', h, ch) = Some st \<and> np_after lst (length b) src (src = lst, st)"
    if h: "src \<le> src'" "src' \<le> lst" "dst' \<le> src'" for src' dst' h ch
  proof -
    obtain b2 src2 dst2 h2 ch2 where "np_copy win lst relative (b, src', dst', h, ch) = Some (b2, src2, dst2, h2, ch2)"
      "np_after lst (length b) src' (src = lst, b2, src2, dst2, h2, ch2)" "dst2 \<le> Suc dst'"
      using np_copy_after [OF h(2,3) assms(3), of win relative h ch "src = lst"] by auto
    then show ?thesis using h by (auto split: if_splits)
  qed
  obtain d where d: "back_to_slash b (dst - 3) = Some d" "d \<le> dst - 3"
    using back_to_slash_le [of "dst - 3" b] assms(1-3) by (meson diff_le_self le_less_trans)
  show ?thesis
    using assms d copy [of src dst] copy [of "src + 1" d] copy [of "src + 1" dst] copy [of "src + 1" "dst - 1"]
    by (auto simp: np_segment_def Let_def)
qed

lemma np_body_after:
  assumes "src \<le> lst" "dst \<le> src" "lst < length b"
  shows "\<exists>st. np_body win lst relative (b, src, dst, hitroot, changed) = Some st \<and> np_after lst (length b) src st"
proof -
  obtain b' changed' where w: "np_win win lst b src changed = Some (b', changed')" "length b' = length b"
    using np_win_run assms(1,3) by blast
  show ?thesis
  proof (cases "src \<noteq> lst \<and> b' ! (src + 1) \<noteq> 47")
    case True
    then show ?thesis
      using np_copy_after [of src lst dst b' win relative hitroot changed' False] w assms by (auto simp: np_body_def)
  next
    case False
    then show ?thesis
      using np_segment_after [of src lst dst b' win relative hitroot changed'] w assms
      by (auto simp: np_body_def)
  qed
qed

lemma np_loop_ends:
  assumes "np_after lst (length b) m (fin, b, src, dst, hitroot, changed) \<or> src = 0 \<and> dst = 0" "lst < length b"
  shows "\<exists>b' src' dst' hitroot' changed'. np_loop win lst relative (fin, b, src, dst, hitroot, changed) =
     Some (b', src', dst', hitroot', changed') \<and> length b' = length b \<and> dst' \<le> Suc lst"
  using assms
proof (induction "Suc lst - src" arbitrary: fin b m src dst hitroot changed rule: less_induct)
  case less
  show ?case
  proof (cases "\<not> fin \<and> src \<le> lst \<and> dst \<le> lst")
    case False
    then show ?thesis using less.prems by (auto simp: np_loop.simps [of win lst relative "(fin, b, src, dst, hitroot, changed)"] split: if_splits)
  next
    case True
    note guard = True
    have "dst \<le> src" using True less.prems by auto
    then obtain fin' b' src' dst' hitroot' changed' where
      st: "np_body win lst relative (b, src, dst, hitroot, changed) = Some (fin', b', src', dst', hitroot', changed')"
      "np_after lst (length b) src (fin', b', src', dst', hitroot', changed')"
      using np_body_after [of src lst dst b win relative hitroot changed] True less.prems(2) by auto
    have loop: "np_loop win lst relative (fin, b, src, dst, hitroot, changed) =
        np_loop win lst relative (fin', b', src', dst', hitroot', changed')"
      using True st(1) by (simp add: np_loop.simps [of win lst relative "(False, b, src, dst, hitroot, changed)"])
    show ?thesis
    proof (cases fin')
      case True
      then show ?thesis using st(2) by (simp add: loop np_loop.simps [of win lst relative "(True, b', src', dst', hitroot', changed')"])
    next
      case False
      show ?thesis unfolding loop
        using less.hyps [of src' b' src False dst' hitroot' changed'] st(2) less.prems(2) guard False
        by auto
    qed
  qed
qed

lemma normalize_path_total:
  assumes "n < length b"
  shows "\<exists>len b' changed. normalize_path_inplace b n win = Some (len, b', changed) \<and> len \<le> n \<and>
     length b' = length b \<and> (0 < n \<longrightarrow> b' ! len = 0)"
proof (cases "n = 0")
  case False
  then obtain lst where n: "n = Suc lst" by (cases n) auto
  obtain b' src dst hitroot changed where
    "np_loop win lst (\<not> is_slash win (b ! 0)) (False, b, 0, 0, False, False) = Some (b', src, dst, hitroot, changed)"
    "length b' = length b" "dst \<le> Suc lst"
    using np_loop_ends [of lst b 0 False 0 0 False False win "\<not> is_slash win (b ! 0)"] assms n by auto
  moreover have "rdp b 0 (\<lambda>c. \<not> is_slash win c) = Some (\<not> is_slash win (b ! 0))"
    using assms by (intro rdp_in) (metis gr_zeroI less_nat_zero_code)
  moreover have "b \<noteq> []" using assms by auto
  moreover have "wr b' d 0 = Some (b'[d := 0])" if "d \<le> Suc lst" for d
    using that assms n calculation(2) by (simp add: wr_def)
  ultimately show ?thesis using assms n by (auto simp: normalize_path_inplace_def Let_def simp del: wr_in)
qed (auto simp: normalize_path_inplace_def intro!: exI [of _ False])

section \<open>What it computes\<close>

text \<open>The same loop for \<open>win = 0\<close> as a function of the unread input and the bytes written so far,
  kept as a stack with the last byte written on top.\<close>

fun pop :: "bytes \<Rightarrow> bytes" where
  "pop [] = []"
| "pop (c # s) = (if s = [] \<or> c = 47 then s else pop s)"

fun ncopy :: "bool \<Rightarrow> bytes \<Rightarrow> bytes \<Rightarrow> bytes \<times> bytes" where
  "ncopy relative s [] = (s, [])"
| "ncopy relative s (c # xs) =
     (if c = 47 then (if relative \<and> s = [] then s else 47 # s, dropWhile (\<lambda>c. c = 47) xs) else (c # s, xs))"

fun nstep :: "bool \<Rightarrow> bool \<Rightarrow> bytes \<Rightarrow> bytes \<Rightarrow> bool \<times> bool \<times> bytes \<times> bytes" where
  "nstep relative hit s [] = (True, hit, s, [])"
| "nstep relative hit s (c # xs) =
     (let fin = (xs = []) in
      if \<not> fin \<and> (hd xs \<noteq> 47 \<or> c = 47) then (fin, hit, ncopy relative s (c # xs))
      else if c = 46 then
        if s \<noteq> [] \<and> hd s = 46 then
          if relative \<and> (hit \<or> length s \<le> 2) then (fin, True, ncopy relative s (c # xs))
          else let s' = pop (drop 2 s); hit' = (hit \<or> s' = []) in
            if fin then (fin, hit', if s' = [] \<and> \<not> relative then [List.last s] else s', c # xs)
            else (fin, hit', ncopy relative s' xs)
        else if s = [] then if fin then (fin, hit, s, c # xs) else (fin, hit, ncopy relative s xs)
        else if hd s = 47 then if fin then (fin, hit, s, c # xs) else (fin, hit, ncopy relative (tl s) xs)
        else (fin, hit, ncopy relative s (c # xs))
      else (fin, hit \<and> s = [], ncopy relative s (c # xs)))"

lemma length_ncopy: "length (snd (ncopy relative s (c # xs))) \<le> length xs"
  using length_dropWhile_le [of "\<lambda>c. c = 47" xs] by simp

lemma nstep_less:
  assumes "nstep relative hit s xs = (False, hit', s', xs')"
  shows "length xs' < length xs"
  using assms length_ncopy [of relative _ "hd (tl xs)" "tl (tl xs)"] length_ncopy [of relative _ "hd xs" "tl xs"]
  by (cases xs; cases "tl xs") (auto simp: Let_def less_Suc_eq_le split: if_splits)

function norm_path :: "bool \<Rightarrow> bool \<Rightarrow> bytes \<Rightarrow> bytes \<Rightarrow> bytes" where
  "norm_path relative hit s xs =
     (case nstep relative hit s xs of (fin, hit', s', xs') \<Rightarrow>
        if fin \<or> xs' = [] then s' else norm_path relative hit' s' xs')"
  by pat_completeness auto
termination
  by (relation "measure (\<lambda>(relative, hit, s, xs). length xs)") (auto dest: nstep_less [OF sym])

declare norm_path.simps [simp del]

text \<open>The buffer that holds the stack \<open>s\<close> and the unread input \<open>xs\<close>.\<close>

definition np_rel :: "nat \<Rightarrow> bytes \<Rightarrow> nat \<Rightarrow> nat \<Rightarrow> bytes \<Rightarrow> bytes \<Rightarrow> bool" where
  "np_rel n b src dst s xs \<longleftrightarrow>
     dst \<le> src \<and> src \<le> n \<and> n \<le> length b \<and> drop src (take n b) = xs \<and> rev (take dst b) = s"

lemma np_relD:
  assumes "np_rel n b src dst s (c # xs)"
  shows "src < n" "src < length b" "b ! src = c" "dst \<le> src" "dst < length b" "length s = dst" "n = src + Suc (length xs)"
    "drop src (take n b) = c # xs"
proof -
  have h: "dst \<le> src" "n \<le> length b" "drop src (take n b) = c # xs" "src \<le> n" "rev (take dst b) = s"
    using assms by (auto simp: np_rel_def)
  have "length (drop src (take n b)) = Suc (length xs)" using h(3) by simp
  then show l: "src < n" "src < length b" "dst \<le> src" "dst < length b" "n = src + Suc (length xs)"
    using h(1,2) by auto
  show "length s = dst" using h l by auto
  show "b ! src = c" using drop_ConsD(2) [OF h(3)] l h(2) by simp
  show "drop src (take n b) = c # xs" by (rule h(3))
qed

lemma np_rel_tl: "np_rel n b src dst s (c # xs) \<Longrightarrow> np_rel n b (Suc src) dst s xs"
  using np_relD(1,4,8) [of n b src dst s c xs] drop_ConsD(4) [of src "take n b" c xs]
  unfolding np_rel_def by (elim conjE, intro conjI) simp_all

lemma np_rel_next:
  assumes "np_rel n b src dst s (c # d # xs)"
  shows "b ! Suc src = d"
  using np_relD(3) [OF np_rel_tl [OF assms]] .

lemma np_rel_top:
  assumes "np_rel n b src dst s (c # xs)" "k < dst"
  shows "b ! (dst - Suc k) = s ! k"
proof -
  have "s = rev (take dst b)" using assms(1) by (simp add: np_rel_def)
  then show ?thesis using np_relD(4,5) [OF assms(1)] assms(2) by (simp add: rev_nth)
qed

lemma np_rel_drop:
  assumes "np_rel n b src dst s xs" "k \<le> dst"
  shows "np_rel n b src (dst - k) (drop k s) xs"
proof -
  have "dst \<le> length b" using assms by (simp add: np_rel_def)
  then have "rev (take (dst - k) b) = drop k (rev (take dst b))"
    by (simp add: drop_rev min_absorb2)
  then show ?thesis using assms by (auto simp: np_rel_def)
qed

text \<open>Writing the next byte.\<close>

lemma np_rel_push:
  assumes "np_rel n b src dst s xs" "dst < src"
  shows "np_rel n (b[dst := v]) src (Suc dst) (v # s) xs"
  using assms by (auto simp: np_rel_def take_Suc_conv_app_nth drop_update_cancel drop_take)

lemma np_copy_run:
  assumes "np_rel n b src dst s (c # xs)" "n = Suc lst"
  shows "\<exists>b' src' dst' changed'. np_copy False lst relative (b, src, dst, hit, changed) =
       Some (b', src', dst', hit, changed') \<and> length b' = length b \<and>
     np_rel n b' src' dst' (fst (ncopy relative s (c # xs))) (snd (ncopy relative s (c # xs)))"
proof (cases "c = 47")
  case False
  then show ?thesis
    using np_relD [OF assms(1)] np_rel_push [OF np_rel_tl [OF assms(1)], of c] by (auto simp: np_copy_def)
next
  case True
  let ?k = "length (takeWhile (\<lambda>c. c = 47) xs)" and ?more = "dropWhile (\<lambda>c. c = 47) xs"
  note r = np_relD [OF assms(1)]
  have lst: "lst < length b" using assms by (auto simp: np_rel_def)
  have sl: "is_slash False = (\<lambda>c. c = 47)" by (auto simp: is_slash_def)
  have skip: "skip_slashes False lst b src = Some (src + ?k)"
    using skip_slashes_run [of src lst b c xs False] r(8) lst assms(2) by (simp add: sl)
  have k: "?k \<le> length xs" by (rule length_takeWhile_le)
  have "src + ?k < length b" using k r(7) lst assms(2) by linarith
  moreover have "b ! (src + ?k) = 47"
  proof -
    have "b ! (src + ?k) = (c # xs) ! ?k"
      using arg_cong [OF r(8), of "\<lambda>l. l ! ?k"] k r(7) lst assms(2) by (simp add: nth_append)
    also have "\<dots> = 47"
    proof (cases ?k)
      case (Suc m)
      then have "xs ! m = takeWhile (\<lambda>c. c = 47) xs ! m" by (metis lessI takeWhile_nth)
      moreover have "takeWhile (\<lambda>c. c = 47) xs ! m \<in> set (takeWhile (\<lambda>c. c = 47) xs)" using Suc by simp
      ultimately show ?thesis using Suc by (metis nth_Cons_Suc set_takeWhileD)
    qed (simp add: True)
    finally show ?thesis .
  qed
  moreover have rel: "np_rel n b (Suc (src + ?k)) dst s ?more"
  proof -
    have "drop (Suc (src + ?k)) (take n b) = drop ?k (drop (Suc src) (take n b))" by (simp add: add.commute)
    also have "\<dots> = ?more" using drop_ConsD(4) [OF r(8)] by (simp add: dropWhile_eq_drop)
    finally show ?thesis using assms(1) k r(7) by (auto simp: np_rel_def)
  qed
  ultimately show ?thesis
    using r(1-6) True skip np_rel_push [OF rel, of 47] by (cases "relative \<and> dst = 0") (auto simp: np_copy_def)
qed

lemma back_to_slash_pop:
  assumes "d < length b"
  shows "\<exists>d' \<le> d. back_to_slash b d = Some d' \<and> rev (take d' b) = pop (rev (take (Suc d) b))"
  using assms
proof (induction d)
  case 0
  then show ?case by (simp add: take_Suc_conv_app_nth)
next
  case (Suc d)
  then obtain d' where d: "d' \<le> d" "back_to_slash b d = Some d'" "rev (take d' b) = pop (rev (take (Suc d) b))"
    by auto
  have t: "rev (take (Suc (Suc d)) b) = b ! Suc d # rev (take (Suc d) b)" "rev (take (Suc d) b) \<noteq> []"
    using Suc.prems by (auto simp: take_Suc_conv_app_nth [of "Suc d" b])
  show ?case
  proof (cases "b ! Suc d = 47")
    case True
    then show ?thesis using t Suc.prems by (intro exI [of _ "Suc d"]) (simp del: take_Suc)
  next
    case False
    then show ?thesis using t d Suc.prems by (intro exI [of _ d']) (simp del: take_Suc)
  qed
qed

lemma np_backref:
  assumes "np_rel n b src dst s (c # xs)"
  shows "\<exists>d \<le> dst. back_to_slash b (dst - 3) = Some d \<and> np_rel n b src d (pop (drop 2 s)) (c # xs) \<and>
     (d = 0 \<longleftrightarrow> pop (drop 2 s) = [])"
proof -
  note r = np_relD [OF assms]
  have "\<exists>d \<le> dst. back_to_slash b (dst - 3) = Some d \<and> rev (take d b) = pop (drop 2 s)"
  proof (cases "3 \<le> dst")
    case True
    then have "Suc (dst - 3) = dst - 2" by arith
    then have "rev (take (Suc (dst - 3)) b) = drop 2 s"
      using np_rel_drop [OF assms, of 2] True by (simp add: np_rel_def)
    moreover obtain d where "d \<le> dst - 3" "back_to_slash b (dst - 3) = Some d"
      "rev (take d b) = pop (rev (take (Suc (dst - 3)) b))"
      using back_to_slash_pop [of "dst - 3" b] r(5) by (meson diff_le_self le_less_trans)
    ultimately show ?thesis by (intro exI [of _ d]) simp
  next
    case False
    then have "dst - 3 = 0" "drop 2 s = []" using r(6) by auto
    then show ?thesis by (intro exI [of _ 0]) simp
  qed
  then obtain d where d: "d \<le> dst" "back_to_slash b (dst - 3) = Some d" "rev (take d b) = pop (drop 2 s)" by blast
  have "length (rev (take d b)) = d" using d(1) r(5) by simp
  then have "d = 0 \<longleftrightarrow> pop (drop 2 s) = []" using d(3) by auto
  moreover have "np_rel n b src d (pop (drop 2 s)) (c # xs)" using assms d(1,3) by (simp add: np_rel_def)
  ultimately show ?thesis using d by blast
qed

text \<open>One iteration.\<close>

definition np_sim :: "nat \<Rightarrow> nat \<Rightarrow> bool \<Rightarrow> npath option \<Rightarrow> bool \<times> bytes \<times> bytes \<Rightarrow> bool" where
  "np_sim n len fin r t \<longleftrightarrow>
     (case t of (hit', s', xs') \<Rightarrow> \<exists>b' src' dst' changed'. r = Some (b', src', dst', hit', changed') \<and>
        length b' = len \<and> rev (take dst' b') = s' \<and> dst' \<le> n \<and> (\<not> fin \<longrightarrow> np_rel n b' src' dst' s' xs'))"

lemma np_copy_sim:
  assumes "np_rel n b src dst s (c # xs)" "n = Suc lst"
  shows "np_sim n (length b) fin (np_copy False lst relative (b, src, dst, hit, changed)) (hit, ncopy relative s (c # xs))"
  using np_copy_run [OF assms, of relative hit changed] by (auto simp: np_sim_def np_rel_def case_prod_beta)

lemma np_sim_fin:
  "np_rel n b src dst s xs \<Longrightarrow> np_sim n (length b) True (Some (b, src, dst, hit, changed)) (hit, s, xs')"
  by (auto simp: np_sim_def np_rel_def)

lemma np_segment_sim:
  assumes rel: "np_rel n b src dst s (c # xs)" and n: "n = Suc lst" and seg: "xs = [] \<or> hd xs = 47"
  shows "np_sim n (length b) (xs = []) (np_segment False lst relative (b, src, dst, hit, changed))
     (snd (nstep relative hit s (c # xs)))"
proof -
  note r = np_relD [OF rel]
  have fin: "src = lst \<longleftrightarrow> xs = []" using r(7) n by auto
  have lst: "lst < length b" using rel n by (auto simp: np_rel_def)
  note copy = np_copy_sim [OF rel n, of "xs = []" relative]
  have copy': "np_sim n (length b) False (np_copy False lst relative (b, src + 1, dst', h, ch)) (h, ncopy relative s' xs)"
    if "xs \<noteq> []" "np_rel n b src dst' s' (c # xs)" for dst' s' h ch
    using that np_copy_sim [OF _ n, of b "Suc src" dst' s' "hd xs" "tl xs" False relative h ch] np_rel_tl [OF that(2)]
    by simp
  have s: "s = [] \<longleftrightarrow> dst = 0" "length s = dst" using r(6) by auto
  have top: "b ! (dst - 1) = hd s" if "0 < dst"
    using np_rel_top [OF rel that] s that by (simp add: hd_conv_nth)
  show ?thesis
  proof (cases "c = 46")
    case False
    then show ?thesis
      using r(2,3) fin copy s seg by (cases "xs = []"; cases "dst = 0") (auto simp: np_segment_def Let_def)
  next
    case c: True
    consider (empty) "dst = 0" | (backref) "0 < dst" "hd s = 46" | (self) "0 < dst" "hd s = 47"
      | (other) "0 < dst" "hd s \<noteq> 46" "hd s \<noteq> 47" by blast
    then show ?thesis
    proof cases
      case empty
      then show ?thesis
        using r(2,3) fin s seg c copy' [OF _ rel] np_sim_fin [OF rel]
        by (cases "xs = []") (auto simp: np_segment_def Let_def)
    next
      case other
      then show ?thesis
        using r(2-5) fin s seg c copy top by (cases "xs = []") (auto simp: np_segment_def Let_def)
    next
      case self
      have "np_rel n b src (dst - 1) (tl s) (c # xs)"
        using np_rel_drop [OF rel, of 1] self by (simp add: drop_Suc)
      from copy' [OF _ this] show ?thesis
        using self r(2-5) fin s seg c np_sim_fin [OF rel] top
        by (cases "xs = []") (auto simp: np_segment_def Let_def)
    next
      case backref
      obtain d where d: "d \<le> dst" "back_to_slash b (dst - 3) = Some d" "d = 0 \<longleftrightarrow> pop (drop 2 s) = []"
        and rel': "np_rel n b src d (pop (drop 2 s)) (c # xs)"
        using np_backref [OF rel] by blast
      have "s = rev (take dst b)" using rel by (simp add: np_rel_def)
      then have root: "rev (take 1 b) = [List.last s]"
        using backref(1) r(5) by (cases b) (auto simp: last_rev)
      have b: "rd b src = Some c" "rdp b (dst - 1) (\<lambda>c. c = 46) = Some True" "rdp b (dst - 1) (\<lambda>c. c = 47) = Some False"
        using r(2,3,5) top backref by auto
      show ?thesis
      proof (cases "relative \<and> (hit \<or> dst \<le> 2)")
        case True
        then show ?thesis using b seg c s backref fin copy by (cases "xs = []") (auto simp: np_segment_def Let_def)
      next
        case False
        then have seg': "np_segment False lst relative (b, src, dst, hit, changed) =
           (if xs = [] then Some (b, src, if d = 0 \<and> \<not> relative then 1 else d, hit \<or> d = 0, changed)
            else np_copy False lst relative (b, src + 1, d, hit \<or> d = 0, True))"
          using b c d(2) fin backref(1) by (auto simp: np_segment_def Let_def)
        have step: "snd (nstep relative hit s (c # xs)) =
           (let s' = pop (drop 2 s); hit' = hit \<or> s' = [] in
            if xs = [] then (hit', if s' = [] \<and> \<not> relative then [List.last s] else s', c # xs)
            else (hit', ncopy relative s' xs))"
          using False s backref c seg by (cases "xs = []") (auto simp: Let_def)
        show ?thesis
        proof (cases "xs = []")
          case True
          then show ?thesis
            using root rel' d r n unfolding seg' step by (auto simp: np_sim_def np_rel_def Let_def)
        next
          case False
          then show ?thesis using copy' [OF False rel'] d(3) unfolding seg' step by (simp add: Let_def)
        qed
      qed
    qed
  qed
qed

lemma np_body_sim:
  assumes rel: "np_rel n b src dst s (c # xs)" and n: "n = Suc lst"
  shows "\<exists>r. np_body False lst relative (b, src, dst, hit, changed) = map_option (Pair (xs = [])) r \<and>
     np_sim n (length b) (xs = []) r (snd (nstep relative hit s (c # xs)))"
proof -
  note r = np_relD [OF rel]
  have fin: "src = lst \<longleftrightarrow> xs = []" using r(7) n by auto
  have lst: "lst < length b" using rel n by (auto simp: np_rel_def)
  show ?thesis
  proof (cases "xs = [] \<or> hd xs = 47")
    case True
    have "and_m [Some (src \<noteq> lst), rdp b (src + 1) (\<lambda>c. c \<noteq> 47)] = Some False"
    proof (cases xs)
      case (Cons d ys)
      then show ?thesis using True np_rel_next [of n b src dst s c d ys] rel fin r(7) lst n by simp
    qed (simp add: fin)
    then show ?thesis
      using np_segment_sim [OF rel n True, of relative hit changed] fin
      by (intro exI [of _ "np_segment False lst relative (b, src, dst, hit, changed)"])
        (simp add: np_body_def np_win_def map_option_case split: option.splits)
  next
    case False
    then obtain d ys where xs: "xs = d # ys" "d \<noteq> 47" by (cases xs) auto
    have "and_m [Some (src \<noteq> lst), rdp b (src + 1) (\<lambda>c. c \<noteq> 47)] = Some True"
      using xs np_rel_next [of n b src dst s c d ys] rel fin r(7) lst n by simp
    then show ?thesis
      using np_copy_sim [OF rel n, of False relative hit changed] fin xs
      by (intro exI [of _ "np_copy False lst relative (b, src, dst, hit, changed)"])
        (simp add: np_body_def np_win_def map_option_case split: option.splits)
  qed
qed

lemma nstep_fin: "fst (nstep relative hit s (c # xs)) \<longleftrightarrow> xs = []"
  by (auto simp: Let_def)

lemma np_loop_sim:
  assumes "np_rel n b src dst s xs" "n = Suc lst" "xs \<noteq> []"
  shows "\<exists>b' src' dst' hit' changed'. np_loop False lst relative (False, b, src, dst, hit, changed) =
       Some (b', src', dst', hit', changed') \<and> length b' = length b \<and> dst' \<le> n \<and>
     rev (take dst' b') = norm_path relative hit s xs"
  using assms
proof (induction "length xs" arbitrary: b src dst s xs hit changed rule: less_induct)
  case less
  obtain c ys where xs: "xs = c # ys" using less.prems(3) by (cases xs) auto
  note rel = less.prems(1) [unfolded xs]
  note r = np_relD [OF rel]
  obtain hit' s' xs' where st: "nstep relative hit s (c # ys) = (ys = [], hit', s', xs')"
    using nstep_fin [of relative hit s c ys] by (cases "nstep relative hit s (c # ys)") auto
  obtain b' src' dst' changed' where body:
    "np_body False lst relative (b, src, dst, hit, changed) = Some (ys = [], b', src', dst', hit', changed')"
    "length b' = length b" "rev (take dst' b') = s'" "dst' \<le> n" "ys \<noteq> [] \<longrightarrow> np_rel n b' src' dst' s' xs'"
    using np_body_sim [OF rel less.prems(2), of relative hit changed] st by (auto simp: np_sim_def)
  have loop: "np_loop False lst relative (False, b, src, dst, hit, changed) =
      np_loop False lst relative (ys = [], b', src', dst', hit', changed')"
    using body(1) r less.prems(2) by (simp add: np_loop.simps [of _ _ _ "(False, b, src, dst, hit, changed)"])
  show ?case
  proof (cases "ys = [] \<or> xs' = []")
    case True
    then have "\<not> np_guard lst (ys = [], b', src', dst', hit', changed')"
      using body(5) less.prems(2) by (auto simp: np_rel_def)
    then have "np_loop False lst relative (ys = [], b', src', dst', hit', changed') = Some (b', src', dst', hit', changed')"
      by (subst np_loop.simps) (simp del: np_guard.simps)
    then show ?thesis
      using True body st by (simp add: loop xs norm_path.simps [of relative hit s "c # ys"])
  next
    case False
    then have rel': "np_rel n b' src' dst' s' xs'" using body(5) by blast
    have "length xs' < length xs" using nstep_less [of relative hit s xs hit' s' xs'] st False xs by simp
    then have "\<exists>b'' src'' dst'' hit'' changed''. np_loop False lst relative (False, b', src', dst', hit', changed') =
       Some (b'', src'', dst'', hit'', changed'') \<and> length b'' = length b' \<and> dst'' \<le> n \<and>
       rev (take dst'' b'') = norm_path relative hit' s' xs'"
      using less.hyps [OF _ rel' less.prems(2)] False by blast
    then show ?thesis
      using False st body(2) by (simp add: loop xs norm_path.simps [of relative hit s "c # ys"])
  qed
qed

definition normalized :: "bytes \<Rightarrow> bytes" where
  "normalized xs =
     (if xs = [] then []
      else let s = norm_path (hd xs \<noteq> 47) False [] xs in
        rev (if List.last xs \<noteq> 47 \<and> s \<noteq> [] \<and> hd s = 47 then tl s else s))"

lemma normalize_path_run:
  assumes "xs \<noteq> []"
  shows "\<exists>tail changed. normalize_path_inplace (xs @ 0 # rest) (length xs) False =
     Some (length (normalized xs), normalized xs @ 0 # tail, changed) \<and> length (normalized xs) \<le> length xs"
proof -
  let ?b = "xs @ 0 # rest" and ?s = "norm_path (hd xs \<noteq> 47) False [] xs"
  obtain lst where n: "length xs = Suc lst" using assms by (cases xs) auto
  have "np_rel (length xs) ?b 0 0 [] xs" by (simp add: np_rel_def)
  then obtain b' src dst hit changed where
    loop: "np_loop False lst (hd xs \<noteq> 47) (False, ?b, 0, 0, False, False) = Some (b', src, dst, hit, changed)"
    "length b' = length ?b" "dst \<le> length xs" "rev (take dst b') = ?s"
    using np_loop_sim [of "length xs" ?b 0 0 "[]" xs lst "hd xs \<noteq> 47" False False] n assms by blast
  have rel: "rdp ?b 0 (\<lambda>c. \<not> is_slash False c) = Some (hd xs \<noteq> 47)"
    "rdp ?b lst (is_slash False) = Some (List.last xs = 47)"
    using assms n by (auto simp: is_slash_def nth_append hd_conv_nth last_conv_nth rdp_def rd_def)
  have dst: "dst < length b'" "length ?s = dst"
    using loop(2,3) n by (simp_all add: loop(4) [symmetric])
  let ?strip = "List.last xs \<noteq> 47 \<and> 0 < dst \<and> b' ! (dst - 1) = 47"
  let ?d = "if ?strip then dst - 1 else dst"
  have top: "0 < dst \<Longrightarrow> b' ! (dst - 1) = hd ?s"
    using dst by (cases dst) (auto simp: loop(4) [symmetric] take_Suc_conv_app_nth)
  have res: "normalize_path_inplace ?b (length xs) False = Some (?d, b'[?d := 0], changed)"
  proof -
    have "wr b' d 0 = Some (b'[d := 0])" if "d \<le> dst" for d using that dst(1) by (simp add: wr_def)
    then show ?thesis
      using loop(1) rel dst(1) n by (auto simp: normalize_path_inplace_def Let_def simp del: wr_in)
  qed
  have out: "take ?d b' = normalized xs"
  proof -
    have "tl ?s = rev (take (dst - 1) b')"
      using dst by (cases dst) (auto simp: loop(4) [symmetric] take_Suc_conv_app_nth)
    then show ?thesis using top dst assms by (auto simp: normalized_def Let_def loop(4) [symmetric])
  qed
  have "b'[?d := 0] = take ?d b' @ 0 # drop (Suc ?d) b'" using dst(1) by (intro upd_conv_take_nth_drop) auto
  moreover have "length (take ?d b') = ?d" using dst(1) by auto
  ultimately show ?thesis unfolding res out using loop(3) out by (intro exI conjI) auto
qed

section \<open>Absolute paths, segment by segment\<close>

text \<open>An absolute path is the concatenation of its segments, each behind a slash.\<close>

definition path_of :: "bytes list \<Rightarrow> bytes" where
  "path_of segs = concat (map ((#) 47) segs)"

text \<open>The specification: empty segments and \<open>.\<close> disappear, \<open>..\<close> drops the segment before it. The
  first argument holds the segments kept so far, the latest first.\<close>

fun resolve :: "bytes list \<Rightarrow> bytes list \<Rightarrow> bytes list" where
  "resolve kept [] = kept"
| "resolve kept (s # segs) =
     (if s = [] \<or> s = [46] then resolve kept segs
      else if s = [46, 46] then resolve (tl kept) segs
      else resolve (s # kept) segs)"

text \<open>Segments on which the code agrees with it: no segment but \<open>..\<close> itself ends in two dots.\<close>

fun seg_ok :: "bytes \<Rightarrow> bool" where
  "seg_ok s = (47 \<notin> set s \<and> (s = [46, 46] \<or> take 2 (rev s) \<noteq> [46, 46]))"

text \<open>The bytes written for the kept segments, last byte first.\<close>

fun stk :: "bytes list \<Rightarrow> bytes" where
  "stk [] = []"
| "stk (r # kept) = rev r @ 47 # stk kept"

lemma rev_stk: "rev (stk kept) = path_of (rev kept)"
  by (induction kept) (auto simp: path_of_def)

lemma pop_stk: "list_all (\<lambda>r. r \<noteq> [] \<and> 47 \<notin> set r) kept \<Longrightarrow> pop (stk kept) = stk (tl kept)"
proof (cases kept)
  case (Cons r kept')
  have "47 \<notin> set u \<Longrightarrow> pop (u @ 47 # t) = t" for u t by (induction u) auto
  moreover assume "list_all (\<lambda>r. r \<noteq> [] \<and> 47 \<notin> set r) kept"
  ultimately show ?thesis using Cons by simp
qed simp

lemma stk_top: "list_all (\<lambda>r. r \<noteq> [] \<and> 47 \<notin> set r) kept \<Longrightarrow> stk kept \<noteq> [] \<Longrightarrow> hd (stk kept) \<noteq> 47"
proof (cases kept)
  case (Cons r kept')
  assume "list_all (\<lambda>r. r \<noteq> [] \<and> 47 \<notin> set r) kept"
  then have "rev r \<noteq> []" "hd (rev r) \<in> set r" using Cons by (auto simp: hd_rev)
  then show ?thesis using \<open>list_all _ kept\<close> Cons by (auto simp del: hd_rev)
qed simp

lemma stk_bottom: "stk kept \<noteq> [] \<Longrightarrow> List.last (stk kept) = 47"
  by (induction kept) auto

lemma norm_slash:
  "norm_path False hit s (47 # ys) =
     (let zs = dropWhile (\<lambda>c. c = 47) ys in if zs = [] then 47 # s else norm_path False hit (47 # s) zs)"
  by (simp add: norm_path.simps [of False hit s "47 # ys"] Let_def)

lemma norm_slash_slash: "norm_path False hit s (47 # 47 # ys) = norm_path False hit s (47 # ys)"
  by (simp add: norm_slash)

lemma norm_inner:
  "list_all (\<lambda>c. c \<noteq> 47) (u @ [e]) \<Longrightarrow>
   norm_path False hit s (u @ e # zs) = norm_path False hit (rev u @ s) (e # zs)"
proof (induction u arbitrary: s)
  case (Cons c u)
  then have "norm_path False hit s (c # u @ e # zs) = norm_path False hit (c # s) (u @ e # zs)"
    by (cases u) (auto simp: norm_path.simps [of False hit s "c # _"] Let_def)
  then show ?case using Cons.IH [of "c # s"] Cons.prems by simp
qed simp

text \<open>The last byte \<open>e\<close> of a segment, in front of a slash or the end.\<close>

lemma norm_regular:
  assumes "e \<noteq> 46 \<or> s \<noteq> [] \<and> hd s \<noteq> 46 \<and> hd s \<noteq> 47" "e \<noteq> 47" "zs = [] \<or> hd zs = 47"
  shows "\<exists>hit'. norm_path False hit s (e # zs) = (if zs = [] then e # s else norm_path False hit' (e # s) zs)"
  using assms by (cases zs) (auto simp: norm_path.simps [of False hit s "e # _"] Let_def)

lemma norm_self:
  assumes "zs = [] \<or> hd zs = 47"
  shows "norm_path False hit (47 # s) (46 # zs) = (if zs = [] then 47 # s else norm_path False hit s zs)"
proof (cases zs)
  case (Cons d zs')
  then show ?thesis using assms by (simp add: norm_path.simps [of False hit "47 # s" "46 # _"] norm_slash Let_def)
qed (simp add: norm_path.simps [of False hit "47 # s" "[46]"])

lemma norm_backref:
  assumes "zs = [] \<or> hd zs = 47"
  shows "\<exists>hit'. norm_path False hit (46 # 47 # s) (46 # zs) =
     (if zs = [] then if pop s = [] then [List.last (47 # s)] else pop s else norm_path False hit' (pop s) zs)"
proof (cases zs)
  case (Cons d zs')
  then show ?thesis
    using assms by (intro exI [of _ "hit \<or> pop s = []"])
      (simp add: norm_path.simps [of False hit "46 # 47 # s" "46 # _"] norm_slash Let_def)
qed (simp add: norm_path.simps [of False hit "46 # 47 # s" "[46]"] Let_def)

lemma path_of_Cons: "path_of (s # segs) = 47 # s @ path_of segs"
  by (simp add: path_of_def)

lemma path_of_head: "path_of segs = [] \<or> hd (path_of segs) = 47"
  by (cases segs) (auto simp: path_of_def)

lemma path_of_Nil: "path_of segs = [] \<longleftrightarrow> segs = []"
  by (cases segs) (auto simp: path_of_def)

text \<open>The stack at the end without the slash the code strips, when the last segment is not empty.\<close>

definition strip :: "bool \<Rightarrow> bytes \<Rightarrow> bytes" where
  "strip trailing s = (if \<not> trailing \<and> s \<noteq> [] \<and> hd s = 47 then tl s else s)"

lemma norm_path_segments:
  assumes "segs \<noteq> []" "list_all seg_ok segs" "list_all (\<lambda>r. r \<noteq> [] \<and> 47 \<notin> set r) kept"
  shows "strip (List.last segs = []) (norm_path False hit (stk kept) (path_of segs)) =
     (if List.last segs = [] then [47] else []) @ stk (resolve kept segs)"
  using assms
proof (induction segs arbitrary: kept hit)
  case Nil
  then show ?case by simp
next
  case (Cons s segs)
  note good = Cons.prems(3)
  let ?more = "path_of segs"
  have IH: "strip (List.last (s # segs) = []) (norm_path False h (stk k) ?more) =
      (if List.last (s # segs) = [] then [47] else []) @ stk (resolve k segs)"
    if "segs \<noteq> []" "list_all (\<lambda>r. r \<noteq> [] \<and> 47 \<notin> set r) k" for h k
    using Cons.IH [of k h] that Cons.prems(2) by simp
  note more = path_of_head [of segs]
  have nil: "?more = [] \<longleftrightarrow> segs = []" by (rule path_of_Nil)
  show ?case
  proof (cases "s = []")
    case True
    then show ?thesis
    proof (cases segs)
      case Nil
      then show ?thesis using True by (simp add: path_of_def norm_slash strip_def)
    next
      case (Cons s' segs')
      then have "norm_path False hit (stk kept) (path_of (s # segs)) = norm_path False hit (stk kept) ?more"
        using True norm_slash_slash by (simp add: path_of_Cons)
      then show ?thesis using True Cons IH [of kept hit] good by simp
    qed
  next
    case False
    then obtain u e where s: "s = u @ [e]" by (cases s rule: rev_cases) auto
    have ok: "list_all (\<lambda>c. c \<noteq> 47) (u @ [e])" "e \<noteq> 47" using Cons.prems(2) by (auto simp: s list_all_iff)
    have "norm_path False hit (stk kept) (path_of (s # segs)) = norm_path False hit (47 # stk kept) (u @ e # ?more)"
      using ok by (cases u) (auto simp: path_of_Cons norm_slash s Let_def)
    then have start: "norm_path False hit (stk kept) (path_of (s # segs)) =
        norm_path False hit (rev u @ 47 # stk kept) (e # ?more)"
      using norm_inner [OF ok(1)] by simp
    consider (regular) "s \<noteq> [46]" "s \<noteq> [46, 46]" | (self) "s = [46]" | (backref) "s = [46, 46]" by blast
    then show ?thesis
    proof cases
      case regular
      have "e \<noteq> 46 \<or> rev u @ 47 # stk kept \<noteq> [] \<and> hd (rev u @ 47 # stk kept) \<noteq> 46 \<and> hd (rev u @ 47 # stk kept) \<noteq> 47"
        using regular Cons.prems(2) ok s by (cases u rule: rev_cases) auto
      from norm_regular [OF this ok(2) more, of hit] obtain hit' where
        reg: "norm_path False hit (rev u @ 47 # stk kept) (e # ?more) =
           (if ?more = [] then e # rev u @ 47 # stk kept else norm_path False hit' (e # rev u @ 47 # stk kept) ?more)"
        by blast
      have "stk (s # kept) = e # rev u @ 47 # stk kept" by (simp add: s)
      then have "norm_path False hit (stk kept) (path_of (s # segs)) =
           (if segs = [] then stk (s # kept) else norm_path False hit' (stk (s # kept)) ?more)"
        using start reg nil by presburger
      moreover have "list_all (\<lambda>r. r \<noteq> [] \<and> 47 \<notin> set r) (s # kept)" using ok(1) good by (auto simp: s list_all_iff)
      moreover have "resolve kept (s # segs) = resolve (s # kept) segs" using regular False by simp
      moreover have "strip (List.last [s] = []) (stk (s # kept)) = stk (s # kept)"
        using ok(2) by (simp add: s strip_def)
      ultimately show ?thesis using IH [of "s # kept" hit'] False by (cases "segs = []") simp_all
    next
      case self
      then show ?thesis
        using IH [of kept hit] norm_self [OF more, of hit "stk kept"] start s nil good
        by (auto simp: strip_def)
    next
      case backref
      have tl: "list_all (\<lambda>r. r \<noteq> [] \<and> 47 \<notin> set r) (tl kept)" using good by (cases kept) auto
      obtain hit' where "norm_path False hit (stk kept) (path_of (s # segs)) =
         (if segs = [] then if stk (tl kept) = [] then [List.last (47 # stk kept)] else stk (tl kept)
          else norm_path False hit' (stk (tl kept)) ?more)"
        using norm_backref [OF more, of hit "stk kept"] start backref s nil pop_stk [OF good] by auto
      moreover have "List.last (47 # stk kept) = 47" using stk_bottom [of kept] by auto
      ultimately show ?thesis
        using IH [of "tl kept" hit'] backref tl stk_top [OF tl] by (auto simp: strip_def)
    qed
  qed
qed

section \<open>Properties\<close>

text \<open>
  Path normalisation always ends and stays in its buffer, for every input and in both modes: the
  loop moves \<open>src\<close> on in every iteration, the result is no longer than the input and it is
  NUL-terminated.
\<close>

theorem normalize_path_ends:
  "\<exists>len b changed. normalize_path_inplace (xs @ 0 # rest) (length xs) win = Some (len, b, changed) \<and>
     len \<le> length xs \<and> length b = length (xs @ 0 # rest) \<and> b ! len = 0"
proof (cases "xs = []")
  case True
  then show ?thesis by (auto simp: normalize_path_inplace_def intro!: exI [of _ False])
next
  case False
  then show ?thesis using normalize_path_total [of "length xs" "xs @ 0 # rest" win] by auto
qed

text \<open>
  C35: on an absolute path none of whose segments merely ends in two dots, normalisation is segment
  resolution: empty segments and self references disappear, a back reference drops the segment before
  it and never climbs above the root, and a trailing slash is kept.
\<close>

theorem normalize_path_correct:
  assumes "segs \<noteq> []" "list_all seg_ok segs"
  shows "\<exists>tail changed. normalize_path_inplace (path_of segs @ 0 # rest) (length (path_of segs)) False =
     Some (length (path_of (rev (resolve [] segs)) @ (if List.last segs = [] then [47] else [])),
           (path_of (rev (resolve [] segs)) @ (if List.last segs = [] then [47] else [])) @ 0 # tail, changed)"
proof -
  let ?xs = "path_of segs"
  have ne: "?xs \<noteq> []" "hd ?xs = 47" using assms(1) path_of_head [of segs] path_of_Nil [of segs] by auto
  have "path_of (butlast segs @ [List.last segs]) = path_of (butlast segs) @ 47 # List.last segs"
    by (simp add: path_of_def)
  then have "?xs = path_of (butlast segs) @ 47 # List.last segs" using assms(1) by simp
  moreover have "List.last (List.last segs) \<noteq> 47" if "List.last segs \<noteq> []"
    using assms last_in_set [OF that] by (auto simp: list_all_iff)
  ultimately have "List.last ?xs = 47 \<longleftrightarrow> List.last segs = []" by auto
  then have "normalized ?xs = rev (strip (List.last segs = []) (norm_path False False [] ?xs))"
    using ne by (simp add: normalized_def strip_def Let_def)
  also have "\<dots> = path_of (rev (resolve [] segs)) @ (if List.last segs = [] then [47] else [])"
    using norm_path_segments [OF assms, of "[]" False] by (simp add: rev_stk)
  finally show ?thesis using normalize_path_run [OF ne(1), of rest] by auto
qed

theorem normalize_path_correct_witness:
  "\<exists>tail changed. normalize_path_inplace (path_of [[97], [46, 46], [98, 46], []] @ 0 # [7])
     (length (path_of [[97], [46, 46], [98, 46], []])) False =
     Some (length (path_of (rev (resolve [] [[97], [46, 46], [98, 46], []])) @
              (if List.last [[97], [46, 46], [98, 46], [] :: bytes] = [] then [47] else [])),
           (path_of (rev (resolve [] [[97], [46, 46], [98, 46], []])) @
              (if List.last [[97], [46, 46], [98, 46], [] :: bytes] = [] then [47] else [])) @ 0 # tail, changed)"
  by (rule normalize_path_correct) simp_all

text \<open>
  where the code departs from segment resolution: \<^verbatim>\<open>/a../b\<close> becomes \<^verbatim>\<open>/b\<close>, since a segment that
  ends in two dots is taken for a back reference; \<^verbatim>\<open>a/../b/..\<close> keeps its last back reference; \<^verbatim>\<open>/a/..\<close>
  loses the root slash and \<^verbatim>\<open>*changed\<close> stays 0 although the result differs from the input; and on
  Windows the third of three backslashes survives.
\<close>

theorem normalize_path_quirks:
  "normalize_path_inplace [47, 97, 46, 46, 47, 98, 0] 6 False = Some (2, [47, 98, 0, 46, 47, 98, 0], True) \<and>
   normalize_path_inplace [97, 47, 46, 46, 47, 98, 47, 46, 46, 0] 9 False =
     Some (4, [98, 47, 46, 46, 0, 98, 47, 46, 46, 0], True) \<and>
   normalize_path_inplace [47, 97, 47, 46, 46, 0] 5 False = Some (0, [0, 97, 47, 46, 46, 0], False) \<and>
   normalize_path_inplace [97, 92, 92, 92, 98, 0] 5 True = Some (3, [97, 92, 98, 0, 98, 0], True)"
  by (simp add: normalize_path_inplace_def np_loop.simps np_body_def np_segment_def np_copy_def np_win_def
      is_slash_def skip_slashes.simps Let_def)

end
