(* ===== verification/TfnTable.thy ===== *)
theory TfnTable
  imports SqlHex CssDecoder Comments StringUtil Utf8Unicode Base64Ext NormalizePath
begin

text \<open>
  The transformation functions of \<^verbatim>\<open>apache2/re_tfns.c\<close> that wrap a decoder of
  \<^verbatim>\<open>apache2/msc_util.c\<close> or of the APR library, and the table that binds every transformation
  to its name. APR itself is a parameter: the record \<open>tfn_env\<close> holds the library functions the
  code calls and the values it reads from outside (the Unicode map, fresh memory).
\<close>

section \<open>What the code relies on\<close>

text \<open>\<open>env_invalid\<close> is what the stack slot of \<^verbatim>\<open>invalid_count\<close> holds: \<open>urlDecode\<close> does not initialise
  it. \<open>apr_base64_encode\<close> and \<open>apr_base64_decode\<close> fill the block they are given; \<^term>\<open>None\<close> stands for
  a block that is too small.\<close>

record tfn_env =
  env_junk :: "nat \<Rightarrow> byte"
  env_map :: "(nat \<Rightarrow> int) option"
  env_codepage :: int
  env_invalid :: nat
  apr_base64_encode_len :: "nat \<Rightarrow> nat"
  apr_base64_encode :: "bytes \<Rightarrow> bytes \<Rightarrow> bytes option"
  apr_base64_decode_len :: "bytes \<Rightarrow> nat"
  apr_base64_decode :: "bytes \<Rightarrow> bytes \<Rightarrow> (bytes \<times> nat) option"
  apr_md5 :: "bytes \<Rightarrow> bytes"
  apr_sha1 :: "bytes \<Rightarrow> bytes"

type_synonym tfn = "bytes \<Rightarrow> nat \<Rightarrow> tfn_result option"

text \<open>\<^verbatim>\<open>apr_psprintf(mptmp, "%ld", n)\<close> for \<open>n\<close> not negative.\<close>

fun decstr :: "nat \<Rightarrow> bytes" where
  "decstr n = (if n < 10 then [48 + word_of_nat n] else decstr (n div 10) @ [48 + word_of_nat (n mod 10)])"

declare decstr.simps [simp del]

section \<open>The wrappers\<close>

definition cssDecode_execute :: tfn where
  "cssDecode_execute input input_len = do {
     (length, b) \<leftarrow> css_decode_inplace (Some input) input_len;
     b \<leftarrow> b;
     Some (int_of (length \<noteq> int input_len), b, 0, nat length) }"

definition jsDecode_execute :: tfn where
  "jsDecode_execute input input_len = do {
     (length, b) \<leftarrow> js_decode_nonstrict_inplace (Some input) input_len;
     b \<leftarrow> b;
     Some (int_of (length \<noteq> int input_len), b, 0, nat length) }"

definition urlDecode_execute :: "tfn_env \<Rightarrow> tfn" where
  "urlDecode_execute env input input_len = do {
     (length, b, changed, invalid_count) \<leftarrow>
       urldecode_nonstrict_inplace_ex (Some input) input_len (env_invalid env);
     b \<leftarrow> b;
     Some (int_of changed, b, 0, nat length) }"

definition urlDecodeUni_execute :: "tfn_env \<Rightarrow> tfn" where
  "urlDecodeUni_execute env input input_len = do {
     (length, b, changed) \<leftarrow>
       urldecode_uni_nonstrict_inplace_ex (env_map env) (env_codepage env) (Some input) input_len;
     b \<leftarrow> b;
     Some (int_of changed, b, 0, nat length) }"

definition utf8Unicode_execute :: "tfn_env \<Rightarrow> tfn" where
  "utf8Unicode_execute env input input_len = do {
     (rval, changed) \<leftarrow> utf8_unicode_inplace_ex (env_junk env) (Some input) input_len;
     rval \<leftarrow> rval;
     s \<leftarrow> c_str rval;
     Some (int_of changed, rval, 0, length s) }"

definition urlEncode_execute :: "tfn_env \<Rightarrow> tfn" where
  "urlEncode_execute env input input_len = do {
     (rval, changed) \<leftarrow> url_encode (env_junk env) input input_len;
     s \<leftarrow> c_str rval;
     Some (int_of changed, rval, 0, length s) }"

definition base64Encode_execute :: "tfn_env \<Rightarrow> tfn" where
  "base64Encode_execute env input input_len = do {
     let rval_len = apr_base64_encode_len env input_len;
     rval \<leftarrow> apr_base64_encode env (apr_palloc (env_junk env) rval_len) (take input_len input);
     Some (int_of (rval_len - 1 \<noteq> 0), rval, 0, rval_len - 1) }"

definition base64Decode_execute :: "tfn_env \<Rightarrow> tfn" where
  "base64Decode_execute env input input_len = do {
     s \<leftarrow> c_str input;
     (rval, rval_len) \<leftarrow> apr_base64_decode env (apr_palloc (env_junk env) (apr_base64_decode_len env s)) s;
     Some (int_of (rval_len \<noteq> 0), rval, 0, rval_len) }"

definition length_execute :: tfn where
  "length_execute input input_len = do {
     let rval = decstr input_len @ [0];
     s \<leftarrow> c_str rval;
     Some (1, rval, 0, length s) }"

text \<open>\<^verbatim>\<open>APR_MD5_DIGESTSIZE\<close> is 16, \<^verbatim>\<open>APR_SHA1_DIGESTSIZE\<close> is 20.\<close>

definition md5_execute :: "tfn_env \<Rightarrow> tfn" where
  "md5_execute env input input_len = Some (1, take 16 (apr_md5 env (take input_len input)) @ [0], 0, 16)"

definition sha1_execute :: "tfn_env \<Rightarrow> tfn" where
  "sha1_execute env input input_len = Some (1, take 20 (apr_sha1 env (take input_len input)) @ [0], 0, 20)"

definition sqlHexDecode_execute :: tfn where
  "sqlHexDecode_execute input input_len = do {
     (rval_len, b) \<leftarrow> sql_hex2bytes_inplace (Some input) input_len;
     b \<leftarrow> b;
     Some (1, b, 0, rval_len) }"

definition hexDecode_execute :: tfn where
  "hexDecode_execute input input_len = do {
     (rval_len, b) \<leftarrow> hex2bytes_inplace (Some input) input_len;
     b \<leftarrow> b;
     Some (1, b, 0, rval_len) }"

definition hexEncode_execute :: "tfn_env \<Rightarrow> tfn" where
  "hexEncode_execute env input input_len = do {
     rval \<leftarrow> bytes2hex (env_junk env) input input_len;
     s \<leftarrow> c_str rval;
     Some (1, rval, 0, length s) }"

definition htmlEntityDecode_execute :: tfn where
  "htmlEntityDecode_execute input input_len = do {
     (rval_len, b) \<leftarrow> html_entities_decode_inplace (Some input) input_len;
     b \<leftarrow> b;
     Some (int_of (rval_len \<noteq> input_len), b, 0, rval_len) }"

definition escapeSeqDecode_execute :: tfn where
  "escapeSeqDecode_execute input input_len = do {
     (rval_len, b) \<leftarrow> ansi_c_sequences_decode_inplace input input_len;
     Some (int_of (rval_len \<noteq> input_len), b, 0, rval_len) }"

definition normalizePath_execute :: tfn where
  "normalizePath_execute input input_len = do {
     (rval_len, b, changed) \<leftarrow> normalize_path_inplace input input_len False;
     Some (int_of changed, b, 0, rval_len) }"

definition normalizePathWin_execute :: tfn where
  "normalizePathWin_execute input input_len = do {
     (rval_len, b, changed) \<leftarrow> normalize_path_inplace input input_len True;
     Some (int_of changed, b, 0, rval_len) }"

section \<open>The table\<close>

definition base64DecodeExt_tfn :: "tfn_env \<Rightarrow> tfn" where
  "base64DecodeExt_tfn env input input_len = do {
     (ret, rval, rval_len) \<leftarrow> base64DecodeExt_execute (env_junk env) input input_len;
     Some (ret, rval, 0, rval_len) }"

text \<open>What \<open>msre_engine_register_default_tfns\<close> registers, in its order; \<^verbatim>\<open>none\<close> has no function.\<close>

definition default_tfns :: "tfn_env \<Rightarrow> (string \<times> tfn option) list" where
  "default_tfns env =
     [(''none'', None),
      (''base64Decode'', Some (base64Decode_execute env)),
      (''base64Encode'', Some (base64Encode_execute env)),
      (''compressWhitespace'', Some compressWhitespace_execute),
      (''cssDecode'', Some cssDecode_execute),
      (''escapeSeqDecode'', Some escapeSeqDecode_execute),
      (''sqlHexDecode'', Some sqlHexDecode_execute),
      (''hexDecode'', Some hexDecode_execute),
      (''hexEncode'', Some (hexEncode_execute env)),
      (''htmlEntityDecode'', Some htmlEntityDecode_execute),
      (''jsDecode'', Some jsDecode_execute),
      (''length'', Some length_execute),
      (''lowercase'', Some lowercase_execute),
      (''md5'', Some (md5_execute env)),
      (''normalisePath'', Some normalizePath_execute),
      (''normalizePath'', Some normalizePath_execute),
      (''normalisePathWin'', Some normalizePathWin_execute),
      (''normalizePathWin'', Some normalizePathWin_execute),
      (''parityEven7bit'', Some parityEven7bit_execute),
      (''parityZero7bit'', Some parityZero7bit_execute),
      (''parityOdd7bit'', Some parityOdd7bit_execute),
      (''removeWhitespace'', Some removeWhitespace_execute),
      (''removeNulls'', Some removeNulls_execute),
      (''replaceNulls'', Some replaceNulls_execute),
      (''removeComments'', Some removeComments_execute),
      (''removeCommentsChar'', Some removeCommentsChar_execute),
      (''replaceComments'', Some replaceComments_execute),
      (''sha1'', Some (sha1_execute env)),
      (''trim'', Some trim_execute),
      (''trimLeft'', Some (\<lambda>b n. trimLeft_execute b 0 n)),
      (''cmdline'', Some cmdline_execute),
      (''trimRight'', Some (\<lambda>b n. trimRight_execute b 0 n)),
      (''urlDecode'', Some (urlDecode_execute env)),
      (''urlDecodeUni'', Some (urlDecodeUni_execute env)),
      (''Utf8toUnicode'', Some (utf8Unicode_execute env)),
      (''urlEncode'', Some (urlEncode_execute env)),
      (''base64DecodeExt'', Some (base64DecodeExt_tfn env))]"

text \<open>The engine keeps the metadata in an APR table, whose operations \<^verbatim>\<open>apr_table_setn\<close> and
  \<^verbatim>\<open>apr_table_get\<close> are the parameters \<open>setn\<close> and \<open>get\<close>.\<close>

record msre_tfn_metadata =
  tfn_name :: string
  tfn_run :: "tfn option"

definition msre_engine_tfn_register ::
  "('t \<Rightarrow> string \<Rightarrow> msre_tfn_metadata \<Rightarrow> 't) \<Rightarrow> 't \<Rightarrow> string \<Rightarrow> tfn option \<Rightarrow> 't" where
  "msre_engine_tfn_register setn tfns name execute = setn tfns name \<lparr>tfn_name = name, tfn_run = execute\<rparr>"

definition msre_engine_tfn_resolve ::
  "('t \<Rightarrow> string \<Rightarrow> msre_tfn_metadata option) \<Rightarrow> 't \<Rightarrow> string \<Rightarrow> msre_tfn_metadata option" where
  "msre_engine_tfn_resolve get tfns name = get tfns name"

definition msre_engine_register_default_tfns ::
  "('t \<Rightarrow> string \<Rightarrow> msre_tfn_metadata \<Rightarrow> 't) \<Rightarrow> tfn_env \<Rightarrow> 't \<Rightarrow> 't" where
  "msre_engine_register_default_tfns setn env tfns =
     fold (\<lambda>(name, execute) t. msre_engine_tfn_register setn t name execute) (default_tfns env) tfns"

section \<open>Contracts of the table's functions\<close>

text \<open>On the string \<open>xs\<close> the function returns, stays in its buffers, returns 0 or 1 and a pointer
  and length inside the returned buffer; a \<open>faithful\<close> one returns 0 only when its result is \<open>xs\<close>.\<close>

definition tfn_ok :: "bool \<Rightarrow> tfn \<Rightarrow> bytes \<Rightarrow> bytes \<Rightarrow> bool" where
  "tfn_ok faithful f xs rest \<longleftrightarrow>
     (\<exists>ret b off out. f (xs @ 0 # rest) (length xs) = Some (ret, b, off, length out) \<and>
        take (length out) (drop off b) = out \<and> (ret = 0 \<or> ret = 1) \<and> (faithful \<longrightarrow> ret = 0 \<longrightarrow> out = xs))"

lemma tfn_okI:
  assumes "f (xs @ 0 # rest) (length xs) = Some (int_of p, b, off, n)" "n = length out"
    "take (length out) (drop off b) = out" "faithful \<Longrightarrow> \<not> p \<Longrightarrow> out = xs"
  shows "tfn_ok faithful f xs rest"
  unfolding tfn_ok_def using assms
  by (intro exI [of _ "int_of p"] exI [of _ b] exI [of _ off] exI [of _ out] conjI) (auto simp: int_of_def)

lemma tfn_okI_1:
  assumes "f (xs @ 0 # rest) (length xs) = Some (1, b, off, length out)" "take (length out) (drop off b) = out"
  shows "tfn_ok faithful f xs rest"
  using tfn_okI [of f xs rest True b off "length out" out faithful] assms by (simp add: int_of_def)

lemma filter_eq: "list_all P xs \<Longrightarrow> filter P xs = xs"
  by (simp add: list_all_iff)

lemma simple_ok:
  "tfn_ok True lowercase_execute xs rest" "tfn_ok True replaceNulls_execute xs rest"
  "tfn_ok True removeNulls_execute xs rest" "tfn_ok True removeWhitespace_execute xs rest"
proof -
  note run = simple_transforms_run [of xs "0 # rest"]
  have keep: "take (length (filter P xs)) (drop 0 (blit (xs @ 0 # rest) 0 (filter P xs))) = filter P xs" for P
    using take_blit_0 [of "filter P xs" "xs @ 0 # rest"] le_trans [OF length_filter_le [of P xs], of "length (xs @ 0 # rest)"]
    by simp
  show "tfn_ok True lowercase_execute xs rest"
    by (rule tfn_okI [where out = "map c_tolower xs" and off = 0]) (use run in auto)
  show "tfn_ok True replaceNulls_execute xs rest"
    by (rule tfn_okI [where out = "map null_to_space xs" and off = 0]) (use run in auto)
  show "tfn_ok True removeNulls_execute xs rest"
    by (rule tfn_okI [OF _ refl keep filter_eq]) (use run in auto)
  show "tfn_ok True removeWhitespace_execute xs rest"
    by (rule tfn_okI [OF _ refl keep filter_eq]) (use run in auto)
qed

lemma compressWhitespace_ok: "tfn_ok False compressWhitespace_execute xs rest"
  using compressWhitespace_run [of xs "0 # rest"]
  by (auto intro: tfn_okI [where off = 0 and out = "squeeze False xs"])

lemma trim_ok: "tfn_ok True trim_execute xs rest"
  using trim_run [of xs "0 # rest"] by (auto intro: tfn_okI [where out = "rstrip (dropWhile c_isspace xs)"])

lemma trimLeft_ok: "tfn_ok True (\<lambda>b n. trimLeft_execute b 0 n) xs rest"
proof (rule tfn_okI)
  let ?k = "length (takeWhile c_isspace xs)"
  show "trimLeft_execute (xs @ 0 # rest) 0 (length xs) = Some (int_of (?k \<noteq> 0), xs @ 0 # rest, ?k, length xs - ?k)"
    using trimLeft_run [of xs "0 # rest"] by (simp add: Let_def)
  show "length xs - ?k = length (drop ?k xs)" by simp
  show "take (length (drop ?k xs)) (drop ?k (xs @ 0 # rest)) = drop ?k xs"
    using length_takeWhile_le [of c_isspace xs] by simp
qed auto

lemma trimRight_ok: "tfn_ok True (\<lambda>b n. trimRight_execute b 0 n) xs rest"
proof (rule tfn_okI)
  show "trimRight_execute (xs @ 0 # rest) 0 (length xs) =
     Some (int_of (length (rstrip xs) \<noteq> length xs),
           rstrip xs @ replicate (length xs - length (rstrip xs)) 0 @ 0 # rest, 0, length (rstrip xs))"
    using trimRight_run [of "[]" xs "0 # rest"] by simp
  assume "\<not> length (rstrip xs) \<noteq> length xs"
  then have "length (dropWhile c_isspace (rev xs)) = length (rev xs)" by (simp add: rstrip_def)
  moreover have "takeWhile c_isspace (rev xs) @ dropWhile c_isspace (rev xs) = rev xs" by simp
  ultimately have "dropWhile c_isspace (rev xs) = rev xs"
    by (metis append_Nil append_eq_append_conv)
  then show "rstrip xs = xs" by (simp add: rstrip_def)
qed simp_all

lemma parity_ok:
  "tfn_ok True parityEven7bit_execute xs rest" "tfn_ok True parityOdd7bit_execute xs rest"
  "tfn_ok True parityZero7bit_execute xs rest"
proof -
  note run = parity_run [of xs "0 # rest"] map_loop_run [of "length xs" "xs @ 0 # rest" zero7]
  show "tfn_ok True parityEven7bit_execute xs rest"
    by (rule tfn_okI [where out = "map even7 xs" and off = 0]) (use run in auto)
  show "tfn_ok True parityOdd7bit_execute xs rest"
    by (rule tfn_okI [where out = "map odd7 xs" and off = 0]) (use run in auto)
  show "tfn_ok True parityZero7bit_execute xs rest"
    by (rule tfn_okI [where out = "map zero7 xs" and off = 0]) (use run in \<open>auto simp: parityZero7bit_execute_def\<close>)
qed

lemma no_comment:
  "\<not> fst (strip_comments False xs) \<Longrightarrow> snd (strip_comments False xs) = xs"
  "\<not> fst (replace_comments False xs) \<Longrightarrow> snd (replace_comments False xs) = xs"
proof -
  show "\<not> fst (strip_comments False xs) \<Longrightarrow> snd (strip_comments False xs) = xs"
    by (induction xs) (auto simp: strip_comments.simps [of False "_ # _"] strip_comments.simps [of False "[]"] split: if_splits)
  show "\<not> fst (replace_comments False xs) \<Longrightarrow> snd (replace_comments False xs) = xs"
    by (induction xs) (auto simp: replace_comments.simps [of False "_ # _"] replace_comments.simps [of False "[]"] split: if_splits)
qed

lemma comments_ok:
  "tfn_ok True removeComments_execute xs rest" "tfn_ok True replaceComments_execute xs rest"
  "tfn_ok True removeCommentsChar_execute xs rest"
proof -
  show "tfn_ok True removeComments_execute xs rest"
    using removeComments_run [of xs rest] no_comment(1) by (auto intro: tfn_okI [where off = 0 and out = "snd (strip_comments False xs)"])
  show "tfn_ok True replaceComments_execute xs rest"
    using replaceComments_run [of xs "0 # rest"] no_comment(2)
    by (auto intro: tfn_okI [where off = 0 and out = "snd (replace_comments False xs)"])
  show "tfn_ok True removeCommentsChar_execute xs rest"
    by (rule tfn_okI [where out = "strip_markers xs" and off = 0]) (use removeCommentsChar_run [of xs rest] in auto)
qed

lemma cmdline_ok: "tfn_ok faithful cmdline_execute xs rest"
proof -
  obtain ys more where "xs @ 0 # rest = ys @ 0 # more" "0 \<notin> set ys"
    using split_list_first [of 0 "xs @ 0 # rest"] by auto
  then show ?thesis
    using cmdline_run [of ys more "length xs"]
    by (auto intro: tfn_okI_1 [where off = 0 and out = "cmdline_of False ys"])
qed

text \<open>A decoder whose every step either shortens the string or copies it leaves a string alone when
  the length stays the same.\<close>

lemma transduce_same_length:
  assumes "\<And>s xs s' k out. xs \<noteq> [] \<Longrightarrow> step s xs = (s', k, out) \<Longrightarrow>
    0 < k \<and> k \<le> length xs \<and> (length out < k \<or> out = take k xs)"
  shows "length (snd (transduce step s xs)) \<le> length xs \<and>
    (length (snd (transduce step s xs)) = length xs \<longrightarrow> snd (transduce step s xs) = xs)"
proof (induction "length xs" arbitrary: s xs rule: less_induct)
  case less
  show ?case
  proof (cases "xs = []")
    case False
    obtain s' k out where st: "step s xs = (s', k, out)" by (cases "step s xs")
    have k: "0 < k" "k \<le> length xs" "length out < k \<or> out = take k xs" using assms [OF False st] by auto
    have "length (drop k xs) < length xs" using k False by simp
    from less [OF this, of s'] show ?thesis
      using k append_take_drop_id [of k xs] by (auto simp: transduce_step [of xs step s, OF False st k(1)])
  qed simp
qed

lemma decoder_steps:
  "xs \<noteq> [] \<Longrightarrow> js_step u xs = (u', k, out) \<Longrightarrow> 0 < k \<and> k \<le> length xs \<and> (length out < k \<or> out = take k xs)"
  "xs \<noteq> [] \<Longrightarrow> ansi_c_step u xs = (u', k, out) \<Longrightarrow> 0 < k \<and> k \<le> length xs \<and> (length out < k \<or> out = take k xs)"
  "xs \<noteq> [] \<Longrightarrow> css_step u xs = (u', k, out) \<Longrightarrow> 0 < k \<and> k \<le> length xs \<and> (length out < k \<or> out = take k xs)"
  "xs \<noteq> [] \<Longrightarrow> html_step u xs = (u', k, out) \<Longrightarrow> 0 < k \<and> k \<le> length xs \<and> (length out < k \<or> out = take k xs)"
proof -
  assume xs: "xs \<noteq> []"
  then have one: "take (Suc 0) xs = [xs ! 0]" "0 < length xs" by (cases xs; simp)+
  have oct: "0 < length (octal_digits (drop 1 xs)) \<and> length (octal_digits (drop 1 xs)) < length xs"
    if "1 < length xs" "ISODIGIT (xs ! 1)"
    using octal_digits_bounds [of xs] that by simp
  have js: "look_spec xs 1 [(1, ISODIGIT)] \<Longrightarrow> 1 < length xs \<and> ISODIGIT (xs ! 1)" by (simp add: look_spec_def)
  show "0 < k \<and> k \<le> length xs \<and> (length out < k \<or> out = take k xs)" if "js_step u xs = (u', k, out)"
    using that one js oct js_buf_bounds [of "octal_digits (drop 1 xs)"]
    by (auto simp: js_step_def Let_def look_spec_def [of _ 5] look_spec_def [of _ 3] Suc_le_eq split: if_splits)
  show "0 < k \<and> k \<le> length xs \<and> (length out < k \<or> out = take k xs)" if "ansi_c_step u xs = (u', k, out)"
    using that one oct by (auto simp: ansi_c_step_def ansi_code_def Let_def look_spec_def Suc_le_eq split: if_splits)
  show "0 < k \<and> k \<le> length xs \<and> (length out < k \<or> out = take k xs)" if "css_step u xs = (u', k, out)"
    using that one css_digits_le(2) [of "drop 1 xs"]
    by (auto simp: css_step_def Let_def Suc_le_eq split: if_splits)
  show "0 < k \<and> k \<le> length xs \<and> (length out < k \<or> out = take k xs)" if "html_step u xs = (u', k, out)"
    using that html_spec_bounds [OF xs] by (auto simp: html_step_def split: html_result.splits if_splits)
qed

lemma decoders_same_length:
  "length (js_decoded xs) = length xs \<Longrightarrow> js_decoded xs = xs"
  "length (ansi_c_decoded xs) = length xs \<Longrightarrow> ansi_c_decoded xs = xs"
  "length (css_decoded xs) = length xs \<Longrightarrow> css_decoded xs = xs"
  "length (html_decoded xs) = length xs \<Longrightarrow> html_decoded xs = xs"
  using transduce_same_length [of js_step "()" xs, OF decoder_steps(1)]
    transduce_same_length [of ansi_c_step "()" xs, OF decoder_steps(2)]
    transduce_same_length [of css_step "()" xs, OF decoder_steps(3)]
    transduce_same_length [of html_step "()" xs, OF decoder_steps(4)]
  by (simp_all add: js_decoded_def ansi_c_decoded_def css_decoded_def html_decoded_def)

lemma decoders_ok:
  "tfn_ok True jsDecode_execute xs rest" "tfn_ok True escapeSeqDecode_execute xs rest"
  "tfn_ok True cssDecode_execute xs rest" "tfn_ok True htmlEntityDecode_execute xs rest"
  "tfn_ok True (urlDecode_execute env) xs rest" "tfn_ok False (urlDecodeUni_execute env) xs rest"
proof -
  show "tfn_ok True jsDecode_execute xs rest"
    by (rule tfn_okI [where out = "js_decoded xs" and off = 0])
      (use js_decode_run [of "length xs" "xs @ 0 # rest"] decoders_same_length(1) in
        \<open>auto simp: jsDecode_execute_def Let_def\<close>)
  show "tfn_ok True escapeSeqDecode_execute xs rest"
    by (rule tfn_okI [where out = "ansi_c_decoded xs" and off = 0])
      (use ansi_c_run [of "length xs" "xs @ 0 # rest"] decoders_same_length(2) in
        \<open>auto simp: escapeSeqDecode_execute_def Let_def\<close>)
  show "tfn_ok True cssDecode_execute xs rest"
    by (rule tfn_okI [where out = "css_decoded xs" and off = 0])
      (use css_decode_run [of "length xs" "xs @ 0 # rest"] decoders_same_length(3) in
        \<open>auto simp: cssDecode_execute_def Let_def\<close>)
  show "tfn_ok True htmlEntityDecode_execute xs rest"
    by (rule tfn_okI [where out = "html_decoded xs" and off = 0])
      (use html_entities_total [of xs rest] decoders_same_length(4) in
        \<open>auto simp: htmlEntityDecode_execute_def\<close>)
  show "tfn_ok True (urlDecode_execute env) xs rest"
    by (rule tfn_okI [where out = "url_decode xs" and off = 0])
      (use urldecode_run [of "length xs" "xs @ 0 # rest"] in \<open>auto simp: urlDecode_execute_def Let_def\<close>)
  show "tfn_ok False (urlDecodeUni_execute env) xs rest"
    using urldecode_uni_run [of "length xs" "xs @ 0 # rest" "env_map env" "env_codepage env"]
    by (auto simp: urlDecodeUni_execute_def Let_def
        intro!: tfn_okI [where out = "uni_decode (env_map env) (env_codepage env) xs" and off = 0])
qed

lemma hex_ok: "tfn_ok faithful hexDecode_execute xs rest" "tfn_ok faithful (hexEncode_execute env) xs rest"
proof -
  show "tfn_ok faithful hexDecode_execute xs rest"
  proof (cases "xs = []")
    case True
    then show ?thesis
      by (intro tfn_okI_1 [where out = "[]" and off = 0]) (auto simp: hexDecode_execute_def hex2bytes_inplace_def)
  next
    case False
    then show ?thesis
      using hex2bytes_run [of "length xs" "xs @ 0 # rest"]
      by (intro tfn_okI_1 [where out = "unhex xs" and off = 0]) (auto simp: hexDecode_execute_def Let_def)
  qed
  have "0 \<notin> set (hex_of xs)"
  proof (induction xs)
    case (Cons c xs)
    then show ?case using c2x_digits_valid [of c] by (auto simp: VALID_HEX_def)
  qed simp
  then show "tfn_ok faithful (hexEncode_execute env) xs rest"
    using bytes2hex_run [of "length xs" "xs @ 0 # rest" "env_junk env"]
    by (intro tfn_okI_1 [where out = "hex_of xs" and off = 0]) (auto simp: hexEncode_execute_def)
qed

lemma decstr_no_nul: "0 \<notin> set (decstr n)"
proof (induction n rule: decstr.induct)
  case (1 n)
  have "48 + word_of_nat (n mod 10) \<noteq> (0 :: byte)" if "True"
  proof -
    have "unat (48 + word_of_nat (n mod 10) :: byte) = 48 + n mod 10"
      by (simp add: unat_word_ariths unat_of_nat)
    then show ?thesis by (metis add_is_0 unat_0 zero_neq_numeral)
  qed
  then show ?case using 1 by (cases "n < 10") (auto simp: decstr.simps [of n])
qed

lemma length_ok: "tfn_ok faithful length_execute xs rest"
  using decstr_no_nul [of "length xs"]
  by (intro tfn_okI_1 [where out = "decstr (length xs)" and off = 0]) (auto simp: length_execute_def Let_def)

lemma normalizePath_ok:
  "tfn_ok False normalizePath_execute xs rest" "tfn_ok False normalizePathWin_execute xs rest"
proof -
  have "tfn_ok False (\<lambda>input input_len. do {
     (rval_len, b, changed) \<leftarrow> normalize_path_inplace input input_len win;
     Some (int_of changed, b, 0, rval_len) }) xs rest" for win
  proof -
    obtain len b changed where "normalize_path_inplace (xs @ 0 # rest) (length xs) win = Some (len, b, changed)"
      "len \<le> length xs" "length b = length (xs @ 0 # rest)"
      using normalize_path_total [of "length xs" "xs @ 0 # rest" win] by auto
    then show ?thesis by (intro tfn_okI [where out = "take len b" and off = 0]) auto
  qed
  then show "tfn_ok False normalizePath_execute xs rest" "tfn_ok False normalizePathWin_execute xs rest"
    unfolding normalizePath_execute_def [abs_def] normalizePathWin_execute_def [abs_def] by auto
qed

lemma urlEncode_ok:
  assumes "length xs * 3 + 1 < 2 ^ 32"
  shows "tfn_ok True (urlEncode_execute env) xs rest"
proof -
  obtain tail where run: "url_encode (env_junk env) (xs @ 0 # rest) (length xs) =
      Some (url_encoded xs @ 0 # tail, \<exists>c\<in>set xs. \<not> url_unreserved c)"
    using url_encode_run [of "length xs" "xs @ 0 # rest" "env_junk env"] assms by auto
  moreover have "0 \<notin> set (url_encoded xs)" using url_encoded_no_NUL by simp
  moreover have "\<not> url_unreserved 32" by (simp add: url_unreserved_def)
  then have "url_encoded xs = xs" if "\<not> (\<exists>c\<in>set xs. \<not> url_unreserved c)"
    using that by (induction xs) (auto simp: url_encoded_def url_emit_def)
  ultimately show ?thesis
    by (intro tfn_okI [where out = "url_encoded xs" and off = 0]) (auto simp: urlEncode_execute_def)
qed

text \<open>What the code relies on of the library: digests have their documented size, the Base64
  functions fit the block whose size their \<open>_len\<close> function gives.\<close>

definition env_laws :: "tfn_env \<Rightarrow> bool" where
  "env_laws env \<longleftrightarrow>
     (\<forall>data. length (apr_md5 env data) = 16 \<and> length (apr_sha1 env data) = 20) \<and>
     (\<forall>buf data. length buf = apr_base64_encode_len env (length data) \<longrightarrow>
        (\<exists>r. apr_base64_encode env buf data = Some r \<and> length r = length buf)) \<and>
     (\<forall>buf s. length buf = apr_base64_decode_len env s \<longrightarrow>
        (\<exists>r n. apr_base64_decode env buf s = Some (r, n) \<and> n \<le> length r))"

lemma library_ok:
  assumes "env_laws env"
  shows "tfn_ok faithful (md5_execute env) xs rest" "tfn_ok faithful (sha1_execute env) xs rest"
    "tfn_ok False (base64Encode_execute env) xs rest" "tfn_ok False (base64Decode_execute env) xs rest"
proof -
  note e = assms [unfolded env_laws_def]
  show "tfn_ok faithful (md5_execute env) xs rest"
    by (rule tfn_okI_1 [where out = "apr_md5 env xs" and off = 0]) (use e in \<open>auto simp: md5_execute_def\<close>)
  show "tfn_ok faithful (sha1_execute env) xs rest"
    by (rule tfn_okI_1 [where out = "apr_sha1 env xs" and off = 0]) (use e in \<open>auto simp: sha1_execute_def\<close>)
  let ?n = "apr_base64_encode_len env (length xs)"
  obtain r where "apr_base64_encode env (apr_palloc (env_junk env) ?n) xs = Some r" "length r = ?n"
    using e by (metis length_apr_palloc)
  then show "tfn_ok False (base64Encode_execute env) xs rest"
    by (intro tfn_okI [where out = "take (?n - 1) r" and off = 0]) (auto simp: base64Encode_execute_def Let_def)
  obtain ys more where ys: "xs @ 0 # rest = ys @ 0 # more" "0 \<notin> set ys"
    using split_list_first [of 0 "xs @ 0 # rest"] by auto
  obtain r n where "apr_base64_decode env (apr_palloc (env_junk env) (apr_base64_decode_len env ys)) ys = Some (r, n)"
    "n \<le> length r"
    using e by (metis length_apr_palloc)
  then show "tfn_ok False (base64Decode_execute env) xs rest"
    using ys by (intro tfn_okI [where out = "take n r" and off = 0]) (auto simp: base64Decode_execute_def)
qed

section \<open>Properties\<close>

text \<open>The functions with a contract of their own: they leave their buffers, or read past them, on
  the inputs their theories name.\<close>

definition contract_tfns :: "string list" where
  "contract_tfns = [''sqlHexDecode'', ''Utf8toUnicode'', ''base64DecodeExt'']"

text \<open>The functions that may return 0 although the value is another one, or that the library decides.\<close>

definition silent_tfns :: "string list" where
  "silent_tfns = [''compressWhitespace'', ''normalisePath'', ''normalizePath'', ''normalisePathWin'',
     ''normalizePathWin'', ''urlDecodeUni'', ''base64Encode'', ''base64Decode'']"

lemma default_tfns_ok:
  assumes "env_laws env" "length xs * 3 + 1 < 2 ^ 32"
  shows "list_all (\<lambda>(name, f). name \<in> set contract_tfns \<or>
     (case f of None \<Rightarrow> True | Some f \<Rightarrow> tfn_ok (name \<notin> set silent_tfns) f xs rest)) (default_tfns env)"
  unfolding default_tfns_def contract_tfns_def silent_tfns_def
  using simple_ok compressWhitespace_ok trim_ok trimLeft_ok trimRight_ok parity_ok comments_ok cmdline_ok
    decoders_ok hex_ok length_ok normalizePath_ok urlEncode_ok [OF assms(2)] library_ok [OF assms(1)]
  by simp

text \<open>
  C34: every transformation that ModSecurity registers returns on every NUL-terminated value and stays
  in its buffers, and its result pointer and length lie inside the buffer it returns; and except for
  the functions named in \<open>silent_tfns\<close> a return value of 0 means that the value is unchanged, which is what the
  transformation cache relies on. The three functions of \<open>contract_tfns\<close> are excluded: each has inputs
  on which it leaves a buffer. The value is so short that \<open>length * 3 + 1\<close> fits into 32 bits, the size \<open>url_encode\<close> allocates,
  and the functions of APR do what they are documented to do (\<open>env_laws\<close>).
\<close>

theorem default_tfns_safe:
  "env_laws env \<Longrightarrow> length xs * 3 + 1 < 2 ^ 32 \<Longrightarrow>
   list_all (\<lambda>(name, f). name \<in> set contract_tfns \<or>
     (case f of None \<Rightarrow> True | Some f \<Rightarrow> tfn_ok (name \<notin> set silent_tfns) f xs rest)) (default_tfns env)"
  by (rule default_tfns_ok)

text \<open>An environment that satisfies the laws, with Base64 as this library defines it.\<close>

definition sample_env :: tfn_env where
  "sample_env = \<lparr>env_junk = (\<lambda>_. 7), env_map = None, env_codepage = 20127, env_invalid = 3,
     apr_base64_encode_len = (\<lambda>n. (n + 2) div 3 * 4 + 1),
     apr_base64_encode = (\<lambda>buf data. Some (b64_encode data @ [0])),
     apr_base64_decode_len = (\<lambda>s. length s + 1),
     apr_base64_decode = (\<lambda>buf s. case decode_base64_ext buf (s @ [0]) (length s) of
        None \<Rightarrow> None | Some (n, r) \<Rightarrow> Some (r, n)),
     apr_md5 = (\<lambda>data. replicate 16 1), apr_sha1 = (\<lambda>data. replicate 20 2)\<rparr>"

lemma b64_encode_size: "length (b64_encode xs) = (length xs + 2) div 3 * 4"
  by (induction xs rule: b64_encode.induct) (simp_all, presburger)

lemma sample_env_laws: "env_laws sample_env"
proof -
  have "\<exists>r n. decode_base64_ext buf (s @ [0]) (length s) = Some (n, r) \<and> n \<le> length r"
    if len: "length buf = length s + 1" for buf s
  proof -
    obtain st where st: "decode_base64_loop (s @ [0]) 0 (length s) buf 0 0 = Some st"
      "b64_ok (s @ [0]) (length s) (length buf) st"
      using decode_base64_loop_bounds [of 0 "length s" "s @ [0]" 0 buf 0] len by auto
    then show ?thesis
      using len by (cases st) (auto simp: decode_base64_ext_def wr_def)
  qed
  then have "\<exists>r n. (case decode_base64_ext buf (s @ [0]) (length s) of None \<Rightarrow> None | Some (n, r) \<Rightarrow> Some (r, n)) =
      Some (r, n) \<and> n \<le> length r" if "length buf = length s + 1" for buf s
    using that by fastforce
  then show ?thesis unfolding env_laws_def sample_env_def by (auto simp: b64_encode_size)
qed

theorem default_tfns_safe_witness:
  "list_all (\<lambda>(name, f). name \<in> set contract_tfns \<or>
     (case f of None \<Rightarrow> True | Some f \<Rightarrow> tfn_ok (name \<notin> set silent_tfns) f [37, 52, 49, 0, 92] [5])) (default_tfns sample_env)"
  by (rule default_tfns_safe) (simp_all add: sample_env_laws)

text \<open>
  two of the silent transformations do change a value and report 0: \<open>compressWhitespace\<close> turns a
  single tab into a space, and \<open>normalizePath\<close> resolves a back reference at the end of a path.
\<close>

theorem unreported_changes:
  "\<exists>b b'. compressWhitespace_execute [97, 9, 98, 0] 3 = Some (0, b, 0, 3) \<and> take 3 b = [97, 32, 98] \<and>
     normalizePath_execute [47, 97, 98, 47, 99, 47, 46, 46, 0] 8 = Some (0, b', 0, 3) \<and> take 3 b' = [47, 97, 98]"
proof -
  have "\<exists>b. compressWhitespace_execute [97, 9, 98, 0] 3 = Some (0, b, 0, 3) \<and> take 3 b = [97, 32, 98]"
    using compressWhitespace_run [of "[97, 9, 98]" "[0]"] by (simp add: no_blank_def NBSP_def c_isspace_def int_of_def numeral_3_eq_3)
  moreover have "\<exists>b'. normalizePath_execute [47, 97, 98, 47, 99, 47, 46, 46, 0] 8 = Some (0, b', 0, 3) \<and>
      take 3 b' = [47, 97, 98]"
    by (simp add: normalizePath_execute_def normalize_path_inplace_def np_loop.simps np_body_def np_segment_def
        np_copy_def np_win_def is_slash_def skip_slashes.simps Let_def int_of_def)
  ultimately show ?thesis by blast
qed

text \<open>The documented laws of an APR table: what \<open>get\<close> finds after \<open>setn\<close>, keys compared without case.\<close>

definition lower_char :: "char \<Rightarrow> char" where
  "lower_char c = (let n = of_char c :: nat in if 65 \<le> n \<and> n \<le> 90 then char_of (n + 32) else c)"

definition apr_table_laws :: "('t \<Rightarrow> string \<Rightarrow> 'm \<Rightarrow> 't) \<Rightarrow> ('t \<Rightarrow> string \<Rightarrow> 'm option) \<Rightarrow> bool" where
  "apr_table_laws setn get \<longleftrightarrow>
     (\<forall>t k v k'. get (setn t k v) k' = (if map lower_char k = map lower_char k' then Some v else get t k'))"

lemma default_names_distinct: "distinct (map (map lower_char \<circ> fst) (default_tfns env))"
  by (simp add: default_tfns_def lower_char_def Let_def)

lemma register_all:
  assumes "apr_table_laws setn get" "distinct (map (map lower_char \<circ> fst) kvs)" "(name, f) \<in> set kvs"
  shows "get (fold (\<lambda>(name, f) t. msre_engine_tfn_register setn t name f) kvs t) name =
     Some \<lparr>tfn_name = name, tfn_run = f\<rparr>"
  using assms(2,3)
proof (induction kvs rule: rev_induct)
  case (snoc kv kvs)
  obtain name' f' where kv: "kv = (name', f')" by (cases kv)
  show ?case
  proof (cases "(name, f) = kv")
    case True
    then show ?thesis using assms(1) kv by (simp add: apr_table_laws_def msre_engine_tfn_register_def)
  next
    case False
    then have mem: "(name, f) \<in> set kvs" using snoc.prems by auto
    then have "map lower_char name \<in> set (map (map lower_char \<circ> fst) kvs)" by force
    moreover have "map lower_char name' \<notin> set (map (map lower_char \<circ> fst) kvs)" using snoc.prems(1) kv by simp
    ultimately have "map lower_char name' \<noteq> map lower_char name" by metis
    then show ?thesis
      using assms(1) kv snoc.IH snoc.prems(1) mem by (simp add: apr_table_laws_def msre_engine_tfn_register_def)
  qed
qed simp

text \<open>
  after the default transformations have been registered, resolving each of their names gives the
  metadata with that name and that function: no registration overwrites another, although the engine's
  table ignores case.
\<close>

theorem default_tfns_resolve:
  "apr_table_laws setn get \<Longrightarrow>
   list_all (\<lambda>(name, f). msre_engine_tfn_resolve get (msre_engine_register_default_tfns setn env t) name =
      Some \<lparr>tfn_name = name, tfn_run = f\<rparr>) (default_tfns env)"
  using register_all [OF _ default_names_distinct]
  by (auto simp: list_all_iff msre_engine_tfn_resolve_def msre_engine_register_default_tfns_def)

theorem default_tfns_resolve_witness:
  "list_all (\<lambda>(name, f). msre_engine_tfn_resolve (\<lambda>t k. t (map lower_char k))
      (msre_engine_register_default_tfns (\<lambda>t k v. t(map lower_char k := Some v)) sample_env (\<lambda>_. None)) name =
      Some \<lparr>tfn_name = name, tfn_run = f\<rparr>) (default_tfns sample_env)"
  by (rule default_tfns_resolve) (simp add: apr_table_laws_def)

end
