(* ===== verification/RuleSet.thy ===== *)
theory RuleSet
  imports TfnTable
begin

text \<open>
  The rule sets of \<^verbatim>\<open>apache2/re.c\<close>: one array of rules per phase, in which a chain is a run of
  rules whose action sets have \<open>is_chained\<close> set, closed by a rule that has it clear. Rules are added
  at the end of a phase, looked up by id, and removed together with their chain. Strings are byte
  lists without their NUL; PCRE is the parameter \<open>regexec\<close>, whose result is negative for no match.
\<close>

section \<open>The data\<close>

datatype placeholder = RULE_PH_NONE | RULE_PH_SKIPAFTER | RULE_PH_MARKER

datatype action_type = ACTION_DISRUPTIVE | ACTION_NON_DISRUPTIVE | ACTION_METADATA | ACTION_FLOW

text \<open>\<open>action_name\<close> and \<open>action_type\<close> are fields of \<^verbatim>\<open>action->metadata\<close>; the name is \<^term>\<open>None\<close> for an
  action without metadata. \<open>action_negative\<close> is \<^verbatim>\<open>param_plusminus == NEGATIVE_VALUE\<close>, \<open>action_tfn\<close> the function
  of the transformation that \<^verbatim>\<open>param_data\<close> of a \<^verbatim>\<open>t\<close> action points to.\<close>

record msre_action =
  action_name :: "bytes option"
  action_param :: "bytes option"
  action_type :: action_type
  action_negative :: bool
  action_tfn :: "tfn option"

record msre_actionset =
  as_id :: "bytes option"
  as_msg :: "bytes option"
  as_severity :: int
  as_is_chained :: bool
  as_skip_count :: int
  as_skip_after :: "bytes option"
  as_intercept_action :: int
  as_intercept_uri :: "bytes option"
  as_intercept_action_rec :: "msre_action option"
  as_log :: int
  as_auditlog :: int
  as_actions :: "msre_action option list"

text \<open>A target of a rule, or a value generated from one. \<open>var_value\<close> is the memory from the value pointer to the
  end of its block; \<open>var_cacheable\<close> and \<open>var_availability\<close> are fields of the metadata.\<close>

record msre_var =
  var_name :: bytes
  var_value :: bytes
  var_len :: nat
  var_param :: "bytes option"
  var_negated :: bool
  var_counting :: bool
  var_cacheable :: bool
  var_availability :: int

text \<open>Of the rule that starts a chain only its action set is ever read: \<open>rule_chain_starter\<close> is
  \<^verbatim>\<open>rule->chain_starter->actionset\<close>, and \<^term>\<open>None\<close> when \<^verbatim>\<open>rule->chain_starter\<close> is NULL.\<close>

record msre_rule =
  rule_placeholder :: placeholder
  rule_actionset :: "msre_actionset option"
  rule_chain_starter :: "msre_actionset option"
  rule_targets :: "msre_var list"
  rule_op_negated :: bool

record 'r msre_ruleset =
  phase_request_headers :: "'r list"
  phase_request_body :: "'r list"
  phase_response_headers :: "'r list"
  phase_response_body :: "'r list"
  phase_logging :: "'r list"

datatype exception_type = RULE_EXCEPTION_REMOVE_ID | RULE_EXCEPTION_REMOVE_MSG | RULE_EXCEPTION_REMOVE_TAG

record 're rule_exception =
  re_type :: exception_type
  re_param :: bytes
  re_param_data :: 're

section \<open>Rule ids and ranges\<close>

text \<open>The tokens \<^verbatim>\<open>apr_strtok\<close> returns one after the other: the non-empty pieces between the
  separators.\<close>

fun tokens_acc :: "byte \<Rightarrow> bytes \<Rightarrow> bytes \<Rightarrow> bytes list" where
  "tokens_acc sep acc [] = (if acc = [] then [] else [rev acc])"
| "tokens_acc sep acc (c # cs) =
     (if c = sep then (if acc = [] then [] else [rev acc]) @ tokens_acc sep [] cs
      else tokens_acc sep (c # acc) cs)"

definition tokens :: "byte \<Rightarrow> bytes \<Rightarrow> bytes list" where
  "tokens sep s = tokens_acc sep [] s"

text \<open>One token of a range list: \<^verbatim>\<open>n\<close> or \<^verbatim>\<open>a-b\<close>; \<^verbatim>\<open>atoi\<close> stops at the hyphen by itself.\<close>

definition token_has_id :: "int \<Rightarrow> bytes \<Rightarrow> bool" where
  "token_has_id ruleid p =
     (if 45 \<notin> set p then ruleid = c_atoi p
      else
        let s = tl (dropWhile (\<lambda>c. c \<noteq> 45) p) in
        c_atoi p \<le> ruleid \<and> ruleid \<le> c_atoi s)"

definition rule_id_in_range :: "int \<Rightarrow> bytes option \<Rightarrow> bool" where
  "rule_id_in_range ruleid rng =
     (case rng of None \<Rightarrow> False | Some data \<Rightarrow> list_ex (token_has_id ruleid) (tokens 44 data))"

section \<open>Matching a rule against an exception\<close>

text \<open>The loop over the actions; a \<^verbatim>\<open>tag\<close> action without a parameter would be read through NULL.\<close>

definition tag_name :: bytes where
  "tag_name = [116, 97, 103]"

fun tags_match :: "('re \<Rightarrow> bytes \<Rightarrow> int) \<Rightarrow> 're \<Rightarrow> msre_action option list \<Rightarrow> bool option" where
  "tags_match regexec re [] = Some False"
| "tags_match regexec re (action # acts) =
     (case action of
        Some a \<Rightarrow>
          if action_name a = Some tag_name then do {
            param \<leftarrow> action_param a;
            rest \<leftarrow> tags_match regexec re acts;
            Some (0 \<le> regexec re param \<or> rest) }
          else tags_match regexec re acts
      | None \<Rightarrow> tags_match regexec re acts)"

definition msre_ruleset_rule_matches_exception ::
  "('re \<Rightarrow> bytes \<Rightarrow> int) \<Rightarrow> ('r) msre_rule_scheme \<Rightarrow> 're rule_exception \<Rightarrow> bool option" where
  "msre_ruleset_rule_matches_exception regexec rule re =
     (if rule_placeholder rule \<noteq> RULE_PH_NONE then Some False
      else case rule_actionset rule of
        None \<Rightarrow> Some False
      | Some as \<Rightarrow>
          (case re_type re of
             RULE_EXCEPTION_REMOVE_ID \<Rightarrow>
               Some (case as_id as of None \<Rightarrow> False
                     | Some ident \<Rightarrow> rule_id_in_range (c_atoi ident) (Some (re_param re)))
           | RULE_EXCEPTION_REMOVE_MSG \<Rightarrow>
               Some (case as_msg as of None \<Rightarrow> False | Some msg \<Rightarrow> 0 \<le> regexec (re_param_data re) msg)
           | RULE_EXCEPTION_REMOVE_TAG \<Rightarrow> tags_match regexec (re_param_data re) (as_actions as)))"

section \<open>Adding and looking up\<close>

definition msre_ruleset_create :: "'r msre_ruleset" where
  "msre_ruleset_create = \<lparr>phase_request_headers = [], phase_request_body = [],
     phase_response_headers = [], phase_response_body = [], phase_logging = []\<rparr>"

text \<open>The array of a phase, \<^verbatim>\<open>PHASE_REQUEST_HEADERS\<close> = 1 to \<^verbatim>\<open>PHASE_LOGGING\<close> = 5.\<close>

definition phase_rules :: "'r msre_ruleset \<Rightarrow> int \<Rightarrow> 'r list option" where
  "phase_rules ruleset phase =
     (if phase = 1 then Some (phase_request_headers ruleset)
      else if phase = 2 then Some (phase_request_body ruleset)
      else if phase = 3 then Some (phase_response_headers ruleset)
      else if phase = 4 then Some (phase_response_body ruleset)
      else if phase = 5 then Some (phase_logging ruleset)
      else None)"

text \<open>\<open>set_defaults\<close> stands for \<^verbatim>\<open>msre_actionset_set_defaults\<close> on the rule's action set. The result
  is the return value and the rule set.\<close>

definition msre_ruleset_rule_add ::
  "('r \<Rightarrow> 'r) \<Rightarrow> 'r msre_ruleset \<Rightarrow> 'r \<Rightarrow> int \<Rightarrow> int \<times> 'r msre_ruleset" where
  "msre_ruleset_rule_add set_defaults ruleset rule phase =
     (let rule' = set_defaults rule in
      if phase = 1 then (1, ruleset\<lparr>phase_request_headers := phase_request_headers ruleset @ [rule']\<rparr>)
      else if phase = 2 then (1, ruleset\<lparr>phase_request_body := phase_request_body ruleset @ [rule']\<rparr>)
      else if phase = 3 then (1, ruleset\<lparr>phase_response_headers := phase_response_headers ruleset @ [rule']\<rparr>)
      else if phase = 4 then (1, ruleset\<lparr>phase_response_body := phase_response_body ruleset @ [rule']\<rparr>)
      else if phase = 5 then (1, ruleset\<lparr>phase_logging := phase_logging ruleset @ [rule']\<rparr>)
      else (-1, ruleset))"

text \<open>The rule with the id, or the one \<open>offset\<close> places behind it; \<open>i\<close> is the loop variable.\<close>

fun fetch_from :: "('r) msre_rule_scheme list \<Rightarrow> bytes \<Rightarrow> int \<Rightarrow> nat \<Rightarrow> ('r) msre_rule_scheme list \<Rightarrow>
    ('r) msre_rule_scheme option option" where
  "fetch_from rules ident offset i [] = Some None"
| "fetch_from rules ident offset i (rule # rest) =
     (if (case rule_actionset rule of
            None \<Rightarrow> False
          | Some as \<Rightarrow> (\<not> as_is_chained as \<or> rule_chain_starter rule = None) \<and> as_id as = Some ident)
      then
        if offset = 0 then Some (if rule_placeholder rule = RULE_PH_NONE then Some rule else None)
        else if int i + offset < int (length rules) then
          if int i + offset < 0 then None
          else let rule_off = rules ! nat (int i + offset) in
            Some (if rule_placeholder rule_off = RULE_PH_NONE then Some rule_off else None)
        else fetch_from rules ident offset (i + 1) rest
      else fetch_from rules ident offset (i + 1) rest)"

definition msre_ruleset_fetch_phase_rule ::
  "bytes \<Rightarrow> ('r) msre_rule_scheme list \<Rightarrow> int \<Rightarrow> ('r) msre_rule_scheme option option" where
  "msre_ruleset_fetch_phase_rule ident phase_arr offset = fetch_from phase_arr ident offset 0 phase_arr"

text \<open>The first phase that has the rule; the outer option is the access outside the array that a
  negative \<open>offset\<close> can cause.\<close>

fun first_phase :: "'a option option list \<Rightarrow> 'a option option" where
  "first_phase [] = Some None"
| "first_phase (r # rs) = do { rule \<leftarrow> r; if rule \<noteq> None then Some rule else first_phase rs }"

definition msre_ruleset_fetch_rule ::
  "('r) msre_rule_scheme msre_ruleset option \<Rightarrow> bytes \<Rightarrow> int \<Rightarrow> ('r) msre_rule_scheme option option" where
  "msre_ruleset_fetch_rule ruleset ident offset =
     (case ruleset of None \<Rightarrow> Some None
      | Some rs \<Rightarrow> first_phase (map (\<lambda>arr. msre_ruleset_fetch_phase_rule ident arr offset)
          [phase_request_headers rs, phase_request_body rs, phase_response_headers rs,
           phase_response_body rs, phase_logging rs]))"

section \<open>Removing rules\<close>

text \<open>What the removal loop asks of a rule outside a chain: the same three cases again.\<close>

definition remove_rule_check ::
  "('re \<Rightarrow> bytes \<Rightarrow> int) \<Rightarrow> 're rule_exception \<Rightarrow> ('r) msre_rule_scheme \<Rightarrow> bool option" where
  "remove_rule_check regexec re rule =
     (case (rule_placeholder rule, rule_actionset rule) of
        (RULE_PH_NONE, Some as) \<Rightarrow>
          (case re_type re of
             RULE_EXCEPTION_REMOVE_ID \<Rightarrow>
               Some (as_id as \<noteq> None \<and> rule_id_in_range (c_atoi (the (as_id as))) (Some (re_param re)))
           | RULE_EXCEPTION_REMOVE_MSG \<Rightarrow>
               Some (as_msg as \<noteq> None \<and> 0 \<le> regexec (re_param_data re) (the (as_msg as)))
           | RULE_EXCEPTION_REMOVE_TAG \<Rightarrow> tags_match regexec (re_param_data re) (as_actions as))
      | _ \<Rightarrow> Some False)"

text \<open>\<open>mode\<close> 0 looks at the next rule or chain starter, 1 keeps and 2 removes the rules of a chain.
  The array is compacted in place: \<open>rules[j++] = rules[i]\<close>. A rule outside a chain is read through its action set
  without a check.\<close>

datatype chain_mode = Looking | Keeping | Removing

type_synonym 'r removal = "'r list \<times> nat \<times> chain_mode \<times> nat"

definition remove_step ::
  "('re \<Rightarrow> bytes \<Rightarrow> int) \<Rightarrow> 're rule_exception \<Rightarrow> nat \<Rightarrow> ('r) msre_rule_scheme removal \<Rightarrow>
    ('r) msre_rule_scheme removal option" where
  "remove_step regexec re i = (\<lambda>(rules, j, mode, removed_count).
     let rule = rules ! i in
     if mode = Looking then do {
       remove_rule \<leftarrow> remove_rule_check regexec re rule;
       as \<leftarrow> rule_actionset rule;
       if remove_rule then
         Some (rules, j, if as_is_chained as then Removing else mode, removed_count + 1)
       else
         Some (rules[j := rule], j + 1, if as_is_chained as then Keeping else mode, removed_count) }
     else
       let closed = (case rule_actionset rule of None \<Rightarrow> True | Some as \<Rightarrow> \<not> as_is_chained as);
           mode' = (if closed then Looking else mode) in
       if mode = Removing then Some (rules, j, mode', removed_count + 1)
       else Some (rules[j := rule], j + 1, mode', removed_count))"

text \<open>The result is the return value and the array.\<close>

definition msre_ruleset_phase_rule_remove_with_exception ::
  "('re \<Rightarrow> bytes \<Rightarrow> int) \<Rightarrow> 're rule_exception \<Rightarrow> ('r) msre_rule_scheme list \<Rightarrow>
    (int \<times> ('r) msre_rule_scheme list) option" where
  "msre_ruleset_phase_rule_remove_with_exception regexec re phase_arr = do {
     (rules, j, mode, removed_count) \<leftarrow>
       for_m 0 (length phase_arr) (remove_step regexec re) (phase_arr, 0, Looking, 0);
     Some (0, take (length phase_arr - removed_count) rules) }"

definition msre_ruleset_rule_remove_with_exception ::
  "('re \<Rightarrow> bytes \<Rightarrow> int) \<Rightarrow> 're rule_exception \<Rightarrow> ('r) msre_rule_scheme msre_ruleset option \<Rightarrow>
    (int \<times> ('r) msre_rule_scheme msre_ruleset option) option" where
  "msre_ruleset_rule_remove_with_exception regexec re ruleset =
     (case ruleset of
        None \<Rightarrow> Some (0, None)
      | Some rs \<Rightarrow> do {
          (c1, a1) \<leftarrow> msre_ruleset_phase_rule_remove_with_exception regexec re (phase_request_headers rs);
          (c2, a2) \<leftarrow> msre_ruleset_phase_rule_remove_with_exception regexec re (phase_request_body rs);
          (c3, a3) \<leftarrow> msre_ruleset_phase_rule_remove_with_exception regexec re (phase_response_headers rs);
          (c4, a4) \<leftarrow> msre_ruleset_phase_rule_remove_with_exception regexec re (phase_response_body rs);
          (c5, a5) \<leftarrow> msre_ruleset_phase_rule_remove_with_exception regexec re (phase_logging rs);
          Some (c1 + c2 + c3 + c4 + c5,
                Some \<lparr>phase_request_headers = a1, phase_request_body = a2, phase_response_headers = a3,
                      phase_response_body = a4, phase_logging = a5\<rparr>) })"

section \<open>Updating targets\<close>

text \<open>\<open>update\<close> stands for \<^verbatim>\<open>update_rule_target_ex\<close> on one rule: the new rule, or an error message.
  The result is the error, if any, and the array.\<close>

definition update_step ::
  "('re \<Rightarrow> bytes \<Rightarrow> int) \<Rightarrow> 're rule_exception \<Rightarrow> (('r) msre_rule_scheme \<Rightarrow> bytes + ('r) msre_rule_scheme) \<Rightarrow>
    nat \<Rightarrow> ('r) msre_rule_scheme list \<times> chain_mode \<Rightarrow> (bytes + ('r) msre_rule_scheme list \<times> chain_mode) option" where
  "update_step regexec re update i = (\<lambda>(rules, mode).
     let rule = rules ! i in
     if mode = Looking then do {
       m \<leftarrow> msre_ruleset_rule_matches_exception regexec rule re;
       if m then
         (case update rule of
            Inl err \<Rightarrow> Some (Inl err)
          | Inr rule' \<Rightarrow> do {
              as \<leftarrow> rule_actionset rule';
              Some (Inr (rules[i := rule'], if as_is_chained as then Removing else mode)) })
       else do {
         as \<leftarrow> rule_actionset rule;
         Some (Inr (rules, if as_is_chained as then Keeping else mode)) } }
     else
       case (if mode = Removing then update rule else Inr rule) of
         Inl err \<Rightarrow> Some (Inl err)
       | Inr rule' \<Rightarrow>
           let closed = (case rule_actionset rule' of None \<Rightarrow> True | Some as \<Rightarrow> \<not> as_is_chained as) in
           Some (Inr (rules[i := rule'], if closed then Looking else mode)))"

function update_loop ::
  "('re \<Rightarrow> bytes \<Rightarrow> int) \<Rightarrow> 're rule_exception \<Rightarrow> (('r) msre_rule_scheme \<Rightarrow> bytes + ('r) msre_rule_scheme) \<Rightarrow>
    nat \<Rightarrow> nat \<Rightarrow> ('r) msre_rule_scheme list \<times> chain_mode \<Rightarrow> (bytes option \<times> ('r) msre_rule_scheme list) option" where
  "update_loop regexec re update i n st =
     (if i < n then do {
        r \<leftarrow> update_step regexec re update i st;
        case r of Inl err \<Rightarrow> Some (Some err, fst st)
        | Inr st' \<Rightarrow> update_loop regexec re update (i + 1) n st' }
      else Some (None, fst st))"
  by pat_completeness auto
termination
  by (relation "measure (\<lambda>(regexec, re, update, i, n, st). n - i)") auto

definition msre_ruleset_phase_rule_update_target_matching_exception ::
  "('re \<Rightarrow> bytes \<Rightarrow> int) \<Rightarrow> 're rule_exception \<Rightarrow> (('r) msre_rule_scheme \<Rightarrow> bytes + ('r) msre_rule_scheme) \<Rightarrow>
    ('r) msre_rule_scheme list \<Rightarrow> (bytes option \<times> ('r) msre_rule_scheme list) option" where
  "msre_ruleset_phase_rule_update_target_matching_exception regexec re update phase_arr =
     update_loop regexec re update 0 (length phase_arr) (phase_arr, Looking)"

declare update_loop.simps [simp del]

section \<open>Removal takes whole chains\<close>

definition chained :: "('r) msre_rule_scheme \<Rightarrow> bool" where
  "chained rule = (case rule_actionset rule of None \<Rightarrow> False | Some as \<Rightarrow> as_is_chained as)"

text \<open>The rules of an array, chain by chain: an open chain at the end of the array ends there.\<close>

fun chain_rest :: "('r) msre_rule_scheme list \<Rightarrow> ('r) msre_rule_scheme list \<times> ('r) msre_rule_scheme list" where
  "chain_rest [] = ([], [])"
| "chain_rest (r # rs) =
     (if chained r then (case chain_rest rs of (c, rest) \<Rightarrow> (r # c, rest)) else ([r], rs))"

lemma chain_rest_length: "length (snd (chain_rest rs)) \<le> length rs"
  by (induction rs) (auto split: prod.splits)

lemma chain_rest_shorter: "length (snd (chain_rest (r # rs))) < length (r # rs)"
  using chain_rest_length [of rs] by (simp add: less_Suc_eq_le case_prod_beta)

lemma chain_rest_append: "fst (chain_rest rs) @ snd (chain_rest rs) = rs"
  by (induction rs) (auto split: prod.splits)

function chains :: "('r) msre_rule_scheme list \<Rightarrow> ('r) msre_rule_scheme list list" where
  "chains [] = []"
| "chains (r # rs) = (fst (chain_rest (r # rs))) # chains (snd (chain_rest (r # rs)))"
  by pat_completeness auto
termination
  by (relation "measure length") (simp, simp only: in_measure chain_rest_shorter)

declare chains.simps(2) [simp del]

lemma concat_chains: "concat (chains rs) = rs"
proof (induction rs rule: chains.induct)
  case (2 r rs)
  then show ?case by (simp only: chains.simps(2) concat.simps chain_rest_append)
qed simp

text \<open>The same loop as a function of the unread rules.\<close>

fun removed :: "(('r) msre_rule_scheme \<Rightarrow> bool) \<Rightarrow> chain_mode \<Rightarrow> ('r) msre_rule_scheme list \<Rightarrow>
    ('r) msre_rule_scheme list" where
  "removed P mode [] = []"
| "removed P Looking (r # rs) =
     (if P r then removed P (if chained r then Removing else Looking) rs
      else r # removed P (if chained r then Keeping else Looking) rs)"
| "removed P Keeping (r # rs) = r # removed P (if chained r then Keeping else Looking) rs"
| "removed P Removing (r # rs) = removed P (if chained r then Removing else Looking) rs"

lemma removed_rest:
  "removed P Keeping rs = fst (chain_rest rs) @ removed P Looking (snd (chain_rest rs))"
  "removed P Removing rs = removed P Looking (snd (chain_rest rs))"
  by (induction rs) (auto split: prod.splits)

lemma removed_chains: "removed P Looking rs = concat (filter (\<lambda>c. \<not> P (hd c)) (chains rs))"
proof (induction rs rule: chains.induct)
  case (2 r rs)
  have IH: "removed P Looking (snd (chain_rest (r # rs))) =
      concat (filter (\<lambda>c. \<not> P (hd c)) (chains (snd (chain_rest (r # rs)))))"
    using 2 by simp
  show ?case
    unfolding chains.simps(2) using IH by (auto simp: removed_rest split: prod.splits)
qed simp

lemma take_update_snoc: "j \<le> i \<Longrightarrow> i < length xs \<Longrightarrow> take (Suc j) (xs[j := x]) = take j xs @ [x]"
  by (simp add: take_Suc_conv_app_nth)

lemma remove_rules_run:
  assumes "j + n = i" "i \<le> length rules" "list_all (\<lambda>r. rule_actionset r \<noteq> None \<and> remove_rule_check regexec re r \<noteq> None) (drop i rules)"
  shows "\<exists>rules' j' mode' n'. for_m i (length rules) (remove_step regexec re) (rules, j, mode, n) = Some (rules', j', mode', n') \<and>
     j' + n' = length rules \<and> length rules' = length rules \<and>
     take j' rules' = take j rules @ removed (\<lambda>r. the (remove_rule_check regexec re r)) mode (drop i rules)"
  using assms
proof (induction "length rules - i" arbitrary: i rules j mode n)
  case 0
  then show ?case by simp
next
  case (Suc m)
  then have i: "i < length rules" by simp
  let ?r = "rules ! i" and ?P = "\<lambda>r. the (remove_rule_check regexec re r)"
  have d: "drop i rules = ?r # drop (Suc i) rules" using i by (simp add: Cons_nth_drop_Suc)
  obtain as where as: "rule_actionset ?r = Some as" using Suc.prems(3) by (auto simp: d)
  then have ch: "chained ?r = as_is_chained as" by (simp add: chained_def)
  obtain p where p: "remove_rule_check regexec re ?r = Some p" using Suc.prems(3) by (auto simp: d)
  let ?next = "\<lambda>m'. if as_is_chained as then m' else Looking"
  let ?del = "mode = Removing \<or> mode = Looking \<and> p"
  let ?mode = "case mode of Looking \<Rightarrow> ?next (if p then Removing else Keeping) | _ \<Rightarrow> ?next mode"
  let ?rules = "if ?del then rules else rules[j := ?r]"
  let ?j = "if ?del then j else Suc j" and ?n = "if ?del then Suc n else n"
  have step: "remove_step regexec re i (rules, j, mode, n) = Some (?rules, ?j, ?mode, ?n)"
    using as p by (cases mode) (auto simp: remove_step_def Let_def)
  have tail: "drop (Suc i) ?rules = drop (Suc i) rules" using Suc.prems(1) by simp
  have "\<exists>rules' j' mode' n'. for_m (Suc i) (length ?rules) (remove_step regexec re) (?rules, ?j, ?mode, ?n) = Some (rules', j', mode', n') \<and>
     j' + n' = length ?rules \<and> length rules' = length ?rules \<and>
     take j' rules' = take ?j ?rules @ removed ?P ?mode (drop (Suc i) ?rules)"
    by (rule Suc.hyps(1)) (use Suc.hyps(2) Suc.prems i tail in \<open>auto simp: d\<close>)
  moreover have "take ?j ?rules @ removed ?P ?mode (drop (Suc i) ?rules) = take j rules @ removed ?P mode (drop i rules)"
  proof (cases ?del)
    case True
    then show ?thesis using p by (cases mode) (auto simp: d ch)
  next
    case False
    then show ?thesis using p take_update_snoc [of j i rules ?r] Suc.prems(1) i by (cases mode) (auto simp: d ch)
  qed
  moreover have "length ?rules = length rules" by simp
  ultimately show ?case unfolding for_m_step [of i "length rules" "remove_step regexec re", OF i step] by metis
qed

lemma phase_remove_run:
  assumes "list_all (\<lambda>r. rule_actionset r \<noteq> None \<and> remove_rule_check regexec re r \<noteq> None) rules"
  shows "msre_ruleset_phase_rule_remove_with_exception regexec re rules =
     Some (0, concat (filter (\<lambda>c. \<not> the (remove_rule_check regexec re (hd c))) (chains rules)))"
proof -
  obtain rules' j' mode' n' where
    "for_m 0 (length rules) (remove_step regexec re) (rules, 0, Looking, 0) = Some (rules', j', mode', n')"
    "j' + n' = length rules" "take j' rules' = removed (\<lambda>r. the (remove_rule_check regexec re r)) Looking rules"
    using remove_rules_run [of 0 0 0 rules regexec re Looking] assms by auto
  moreover from this(2) have "length rules - n' = j'" by simp
  ultimately show ?thesis
    by (simp add: msre_ruleset_phase_rule_remove_with_exception_def removed_chains)
qed

section \<open>Looking up what was added\<close>

definition has_id :: "bytes \<Rightarrow> ('r) msre_rule_scheme \<Rightarrow> bool" where
  "has_id ident rule = (case rule_actionset rule of
     None \<Rightarrow> False
   | Some as \<Rightarrow> (\<not> as_is_chained as \<or> rule_chain_starter rule = None) \<and> as_id as = Some ident)"

lemma fetch_from_0:
  "fetch_from rules ident 0 i rs =
     Some (case find (has_id ident) rs of
        None \<Rightarrow> None | Some r \<Rightarrow> if rule_placeholder r = RULE_PH_NONE then Some r else None)"
  by (induction rs arbitrary: i) (auto simp: has_id_def Let_def split: option.splits)

definition all_rules :: "'r msre_ruleset \<Rightarrow> 'r list" where
  "all_rules rs = phase_request_headers rs @ phase_request_body rs @ phase_response_headers rs @
     phase_response_body rs @ phase_logging rs"

lemma find_append: "find P (xs @ ys) = (case find P xs of None \<Rightarrow> find P ys | Some x \<Rightarrow> Some x)"
  by (induction xs) auto

lemma find_None: "\<not> list_ex P xs \<Longrightarrow> find P xs = None"
  by (simp add: find_None_iff list_ex_iff)

section \<open>Properties\<close>

text \<open>
  C31: removing by exception takes exactly the chains whose first rule matches, each as a whole, out of
  every phase, and keeps all others in their order; the count it returns is 0 no matter how many rules
  are gone, because the function for one phase returns 0 and not its counter.
\<close>

theorem remove_with_exception_correct:
  assumes "list_all (\<lambda>r. rule_actionset r \<noteq> None \<and> remove_rule_check regexec re r \<noteq> None) (all_rules rs)"
  shows "msre_ruleset_rule_remove_with_exception regexec re (Some rs) =
     (let keep = (\<lambda>rules. concat (filter (\<lambda>c. \<not> the (remove_rule_check regexec re (hd c))) (chains rules))) in
      Some (0, Some \<lparr>phase_request_headers = keep (phase_request_headers rs),
        phase_request_body = keep (phase_request_body rs),
        phase_response_headers = keep (phase_response_headers rs),
        phase_response_body = keep (phase_response_body rs), phase_logging = keep (phase_logging rs)\<rparr>))"
  using assms
  by (simp add: all_rules_def msre_ruleset_rule_remove_with_exception_def phase_remove_run)

text \<open>Three rules, the first two of them a chain with the id 5.\<close>

definition sample_as :: "bytes option \<Rightarrow> bool \<Rightarrow> msre_actionset" where
  "sample_as ident ch = \<lparr>as_id = ident, as_msg = None, as_severity = -1, as_is_chained = ch, as_skip_count = 0,
     as_skip_after = None, as_intercept_action = 0, as_intercept_uri = None, as_intercept_action_rec = None,
     as_log = 1, as_auditlog = 1, as_actions = []\<rparr>"

definition sample_rule :: "bytes option \<Rightarrow> bool \<Rightarrow> msre_actionset option \<Rightarrow> msre_rule" where
  "sample_rule ident ch starter = \<lparr>rule_placeholder = RULE_PH_NONE, rule_actionset = Some (sample_as ident ch),
     rule_chain_starter = starter, rule_targets = [], rule_op_negated = False\<rparr>"

definition sample_rules :: "msre_rule list" where
  "sample_rules = [sample_rule (Some [53]) True None, sample_rule None False (Some (sample_as (Some [53]) True)),
     sample_rule (Some [54]) False None]"

theorem remove_with_exception_correct_witness:
  "let re = \<lparr>re_type = RULE_EXCEPTION_REMOVE_ID, re_param = [52, 45, 53], re_param_data = ()\<rparr> in
   map_option (\<lambda>(n, rs). (n, map_option phase_request_body rs))
     (msre_ruleset_rule_remove_with_exception (\<lambda>_ _. -1) re
        (Some (msre_ruleset_create\<lparr>phase_request_body := sample_rules\<rparr>))) =
   Some (0, Some [sample_rules ! 2])"
proof -
  let ?re = "\<lparr>re_type = RULE_EXCEPTION_REMOVE_ID, re_param = [52, 45, 53], re_param_data = ()\<rparr>"
  have c: "list_all (\<lambda>r. rule_actionset r \<noteq> None \<and> remove_rule_check (\<lambda>_ _. -1) ?re r \<noteq> None)
      (all_rules (msre_ruleset_create\<lparr>phase_request_body := sample_rules\<rparr>))"
    by (simp add: all_rules_def msre_ruleset_create_def sample_rules_def sample_rule_def sample_as_def remove_rule_check_def
        exI [of Not False])
  have k: "map (\<lambda>r. the (remove_rule_check (\<lambda>_ _. -1) ?re r)) sample_rules = [True, False, False]"
    by (simp add: sample_rules_def sample_rule_def sample_as_def remove_rule_check_def rule_id_in_range_def tokens_def
        token_has_id_def c_atoi_def c_isspace_def digit_val_def)
  have ch: "chains sample_rules = [take 2 sample_rules, [sample_rules ! 2]]"
    by (simp add: sample_rules_def sample_rule_def sample_as_def chains.simps(2) chained_def)
  show ?thesis
    using remove_with_exception_correct [OF c] k
    by (simp add: Let_def msre_ruleset_create_def ch) (simp add: sample_rules_def)
qed

text \<open>
  a rule added to a phase is the one its id finds, when no rule of any phase had that id before
  and the rule is not a later rule of a chain; in an unknown phase nothing is added and -1 returned.
\<close>

theorem fetch_rule_after_add:
  assumes "1 \<le> phase" "phase \<le> 5" "has_id ident (set_defaults rule)"
    "rule_placeholder (set_defaults rule) = RULE_PH_NONE" "\<not> list_ex (has_id ident) (all_rules rs)"
  shows "case msre_ruleset_rule_add set_defaults rs rule phase of (rc, rs') \<Rightarrow>
     rc = 1 \<and> msre_ruleset_fetch_rule (Some rs') ident 0 = Some (Some (set_defaults rule)) \<and>
     phase_rules rs' phase = map_option (\<lambda>rules. rules @ [set_defaults rule]) (phase_rules rs phase)"
proof -
  have none: "find (has_id ident) (phase_request_headers rs) = None" "find (has_id ident) (phase_request_body rs) = None"
    "find (has_id ident) (phase_response_headers rs) = None" "find (has_id ident) (phase_response_body rs) = None"
    "find (has_id ident) (phase_logging rs) = None"
    using assms(5) by (auto simp: all_rules_def intro!: find_None)
  consider "phase = 1" | "phase = 2" | "phase = 3" | "phase = 4" | "phase = 5" using assms(1,2) by linarith
  then show ?thesis
    by cases (simp_all add: msre_ruleset_rule_add_def msre_ruleset_fetch_rule_def phase_rules_def Let_def
        msre_ruleset_fetch_phase_rule_def fetch_from_0 find_append none assms(3,4))
qed

theorem fetch_rule_after_add_witness:
  "case msre_ruleset_rule_add (\<lambda>r. r) msre_ruleset_create (sample_rules ! 2) 3 of (rc, rs') \<Rightarrow>
     rc = 1 \<and> msre_ruleset_fetch_rule (Some rs') [54] 0 = Some (Some (sample_rules ! 2)) \<and>
     phase_rules rs' 3 = map_option (\<lambda>rules. rules @ [sample_rules ! 2]) (phase_rules msre_ruleset_create 3)"
  by (rule fetch_rule_after_add)
    (simp_all add: has_id_def sample_rules_def sample_rule_def sample_as_def all_rules_def msre_ruleset_create_def)

end
