(* ===== verification/TargetException.thy ===== *)
theory TargetException
  imports RuleSet
begin

text \<open>
  Exceptions for single targets, \<^verbatim>\<open>apache2/re.c\<close>: \<open>fetch_target_exception\<close> decides whether a
  list of targets such as \<^verbatim>\<open>ARGS:foo,REQUEST_HEADERS\<close>, set at run time by \<^verbatim>\<open>ctl:ruleRemoveTargetById\<close> and its
  siblings, takes a variable out of the reach of a rule.
\<close>

section \<open>The code\<close>

text \<open>The first call of \<^verbatim>\<open>apr_strtok\<close> on a string: its first token, and what the saved pointer is left at.\<close>

definition first_token :: "byte \<Rightarrow> bytes \<Rightarrow> (bytes \<times> bytes) option" where
  "first_token sep s =
     (let t = dropWhile (\<lambda>c. c = sep) s; tok = takeWhile (\<lambda>c. c \<noteq> sep) t in
      if tok = [] then None else Some (tok, drop (length tok + 1) t))"

text \<open>A name, and what follows its colon if it has one. A string of colons only has no token, and the code would
  pass NULL to \<^verbatim>\<open>strlen\<close>.\<close>

definition split_name :: "bytes \<Rightarrow> (bytes \<times> bytes option) option" where
  "split_name s =
     (if 58 \<in> set s then map_option (\<lambda>(name, value). (name, Some value)) (first_token 58 s) else Some (s, None))"

text \<open>\<^verbatim>\<open>strlen(a) == strlen(b) && strncasecmp(a, b, strlen(a)) == 0\<close>\<close>

definition ci_equal :: "bytes \<Rightarrow> bytes \<Rightarrow> bool" where
  "ci_equal s t \<longleftrightarrow> map c_tolower s = map c_tolower t"

definition target_excluded :: "bytes \<Rightarrow> bytes option \<Rightarrow> bytes \<Rightarrow> bool option" where
  "target_excluded myname myvalue target = do {
     (name, value) \<leftarrow> split_name target;
     Some (ci_equal myname name \<and>
       (case value of
          None \<Rightarrow> True
        | Some v \<Rightarrow> (case myvalue of None \<Rightarrow> False | Some mv \<Rightarrow> ci_equal mv v))) }"

fun any_excluded :: "bytes \<Rightarrow> bytes option \<Rightarrow> bytes list \<Rightarrow> bool option" where
  "any_excluded myname myvalue [] = Some False"
| "any_excluded myname myvalue (t # ts) = do {
     m \<leftarrow> target_excluded myname myvalue t;
     rest \<leftarrow> any_excluded myname myvalue ts;
     Some (m \<or> rest) }"

definition fetch_target_exception :: "msre_rule \<Rightarrow> msre_var \<Rightarrow> bytes option \<Rightarrow> int option" where
  "fetch_target_exception rule var exceptions =
     (case rule_actionset rule of
        None \<Rightarrow> Some 0
      | Some as \<Rightarrow>
          if as_id as = None then Some 0
          else do {
            (myname, myvalue) \<leftarrow> split_name (var_name var);
            case exceptions of
              None \<Rightarrow> Some 0
            | Some targets \<Rightarrow> do {
                match \<leftarrow> any_excluded myname myvalue (tokens 44 targets);
                Some (if match then 1 else 0) } })"

section \<open>What an exception list means\<close>

text \<open>\<open>NAME\<close> covers every variable of that name, \<open>NAME:value\<close> only the member \<open>value\<close>, both without regard to case.\<close>

fun covers :: "bytes \<times> bytes option \<Rightarrow> bytes \<times> bytes option \<Rightarrow> bool" where
  "covers (name, None) (vname, vvalue) \<longleftrightarrow> ci_equal vname name"
| "covers (name, Some value) (vname, Some vvalue) \<longleftrightarrow> ci_equal vname name \<and> ci_equal vvalue value"
| "covers (name, Some value) (vname, None) \<longleftrightarrow> False"

text \<open>Writing a target, and a list of them with commas in between.\<close>

fun show_target :: "bytes \<times> bytes option \<Rightarrow> bytes" where
  "show_target (name, None) = name"
| "show_target (name, Some value) = name @ 58 # value"

fun show_targets :: "(bytes \<times> bytes option) list \<Rightarrow> bytes" where
  "show_targets [] = []"
| "show_targets [t] = show_target t"
| "show_targets (t # ts) = show_target t @ 44 # show_targets ts"

text \<open>A nonempty name without a colon, and no comma anywhere; a value may hold colons, or be empty.\<close>

definition plain_target :: "bytes \<times> bytes option \<Rightarrow> bool" where
  "plain_target t \<longleftrightarrow> fst t \<noteq> [] \<and> 58 \<notin> set (fst t) \<and> 44 \<notin> set (show_target t)"

lemma split_show: "fst t \<noteq> [] \<Longrightarrow> 58 \<notin> set (fst t) \<Longrightarrow> split_name (show_target t) = Some t"
proof (cases t)
  case (Pair name v)
  assume t: "fst t \<noteq> []" "58 \<notin> set (fst t)"
  obtain c cs where name: "name = c # cs" using t Pair by (cases name) auto
  have tw: "takeWhile (\<lambda>c. c \<noteq> 58) (name @ 58 # w) = name" for w
    using t Pair by (auto simp: takeWhile_append)
  have dw: "dropWhile (\<lambda>c. c = 58) (name @ 58 # w) = name @ 58 # w" for w
    using t Pair name by auto
  show ?thesis
    using t Pair tw dw by (cases v) (auto simp: split_name_def first_token_def Let_def)
qed

lemma tokens_acc_run:
  "sep \<notin> set s \<Longrightarrow> tokens_acc sep acc (s @ sep # rest) =
     (if acc = [] \<and> s = [] then [] else [rev acc @ s]) @ tokens_acc sep [] rest"
  by (induction s arbitrary: acc) auto

lemma tokens_acc_end:
  "sep \<notin> set s \<Longrightarrow> tokens_acc sep acc s = (if acc = [] \<and> s = [] then [] else [rev acc @ s])"
  by (induction s arbitrary: acc) auto

lemma tokens_show:
  "list_all plain_target ts \<Longrightarrow> tokens 44 (show_targets ts) = map show_target ts"
proof (induction ts rule: show_targets.induct)
  case (2 t)
  then have "show_target t \<noteq> []" by (cases t rule: show_target.cases) (auto simp: plain_target_def)
  then show ?case using 2 by (simp add: tokens_def plain_target_def tokens_acc_end)
next
  case (3 t u us)
  moreover from "3.prems" have "show_target t \<noteq> []" by (cases t rule: show_target.cases) (auto simp: plain_target_def)
  ultimately show ?case
    using tokens_acc_run [of 44 "show_target t" "[]" "show_targets (u # us)"]
    by (simp add: tokens_def plain_target_def)
qed (simp add: tokens_def)

lemma any_excluded_run:
  "list_all plain_target ts \<Longrightarrow>
   any_excluded n v (map show_target ts) = Some (list_ex (\<lambda>t. covers t (n, v)) ts)"
proof (induction ts)
  case (Cons t ts)
  have "target_excluded n v (show_target t) = Some (covers t (n, v))"
    using split_show [of t] Cons.prems
    by (cases t; cases "snd t"; cases v) (auto simp: target_excluded_def plain_target_def)
  then show ?case using Cons by simp
qed simp

section \<open>Properties\<close>

text \<open>
  C30: given a list of targets written with commas in between (\<^verbatim>\<open>ARGS:foo,FILES\<close>), a variable of a rule with an id is
  excluded exactly when one of the targets covers it: a bare name covers the whole collection, \<open>NAME:value\<close> the one
  member, and case does not matter. A rule without an id is never affected. The names of the targets and of the variable are
  nonempty and hold no colon, and neither they nor the values hold a comma; a value may hold colons, or be empty.
\<close>

theorem fetch_target_exception_correct:
  assumes "list_all plain_target ts" "plain_target v" "var_name var = show_target v" "rule_actionset rule = Some as"
  shows "fetch_target_exception rule var (Some (show_targets ts)) =
     Some (if as_id as \<noteq> None \<and> list_ex (\<lambda>t. covers t v) ts then 1 else 0)"
proof -
  have "split_name (var_name var) = Some v" using assms split_show [of v] by (simp add: plain_target_def)
  then show ?thesis
    using any_excluded_run [OF assms(1), of "fst v" "snd v"] assms
    by (cases v) (auto simp: fetch_target_exception_def tokens_show)
qed

text \<open>\<^verbatim>\<open>ARGS:foo,FILES\<close> takes \<^verbatim>\<open>args:FOO\<close> out of the reach of the rule.\<close>

definition sample_var :: "bytes \<Rightarrow> bytes \<Rightarrow> msre_var" where
  "sample_var name value = \<lparr>var_name = name, var_value = value @ [0], var_len = length value, var_param = None,
     var_negated = False, var_counting = False, var_cacheable = True, var_availability = 1\<rparr>"

theorem fetch_target_exception_correct_witness:
  "fetch_target_exception (sample_rule (Some [55]) False None) (sample_var [97, 114, 103, 115, 58, 70, 79, 79] [])
     (Some [65, 82, 71, 83, 58, 102, 111, 111, 44, 70, 73, 76, 69, 83]) = Some 1"
  using fetch_target_exception_correct [of "[([65, 82, 71, 83], Some [102, 111, 111]), ([70, 73, 76, 69, 83], None)]"
      "([97, 114, 103, 115], Some [70, 79, 79])" "sample_var [97, 114, 103, 115, 58, 70, 79, 79] []"
      "sample_rule (Some [55]) False None" "sample_as (Some [55]) False"]
  by (simp add: plain_target_def sample_var_def sample_rule_def sample_as_def ci_equal_def c_tolower_def c_isupper_def)

end
