(* ===== verification/RuleFlow.thy ===== *)
theory RuleFlow
  imports RuleSet
begin

text \<open>
  The control flow of a phase: \<open>msre_ruleset_process_phase\<close> of \<^verbatim>\<open>apache2/re.c\<close>. It walks over the
  rules of the phase in one of three modes, leaves out the rest of a chain that failed, counts off the rules a
  \<open>skip\<close> action passes over, and looks for the marker of a \<open>skipAfter\<close>. Executing one rule is the parameter
  \<open>process\<close>; it may change the transaction record in any way. Logging is left out.
\<close>

section \<open>The transaction record\<close>

text \<open>The fields of \<^verbatim>\<open>modsec_rec\<close> the flow reads or writes. \<open>intercept_actionset\<close> is a copy of the action set
  the pointer of that name points to; the flow writes its \<open>intercept_uri\<close>, which in the code changes the shared action set
  of the rule as well; the loop returns right after that, so nothing of the phase reads it. What the change means for later
  transactions is not modelled.\<close>

record 're modsec_rec =
  phase :: int
  rule_was_intercepted :: bool
  matched_vars :: "(bytes \<times> bytes) list"
  removed_rules :: "bytes list"
  removed_rules_tag :: "'re rule_exception list"
  removed_rules_msg :: "'re rule_exception list"
  is_enabled :: int
  reqintercept_oe :: int
  intercept_actionset :: "msre_actionset option"

definition MODSEC_DISABLED :: int where
  "MODSEC_DISABLED = 0"

definition RULE_NO_MATCH :: int where
  "RULE_NO_MATCH = 0"

definition RULE_MATCH :: int where
  "RULE_MATCH = 1"

definition clear_vars :: "('re, 'z) modsec_rec_scheme \<Rightarrow> ('re, 'z) modsec_rec_scheme" where
  "clear_vars msr = msr\<lparr>matched_vars := []\<rparr>"

definition reset_intercepted :: "('re, 'z) modsec_rec_scheme \<Rightarrow> ('re, 'z) modsec_rec_scheme" where
  "reset_intercepted msr = msr\<lparr>rule_was_intercepted := False\<rparr>"

section \<open>The code\<close>

datatype flow_mode = NEXT_CHAIN | NEXT_RULE | SKIP_RULES

text \<open>The locals of the loop apart from the index.\<close>

record flow =
  fl_mode :: flow_mode
  fl_skip :: int
  fl_skipped :: bool
  fl_saw_starter :: bool
  fl_skip_after :: "bytes option"

text \<open>What one iteration does: go on at an index, or return.\<close>

datatype ('m) flow_result = Continue nat flow 'm | Return int 'm

text \<open>The parameters: PCRE, macro expansion in tags, and the execution of a rule.\<close>

record ('re, 'm) flow_env =
  env_regexec :: "'re \<Rightarrow> bytes \<Rightarrow> int"
  env_expand :: "'m \<Rightarrow> bytes \<Rightarrow> bytes"
  env_process :: "msre_rule \<Rightarrow> 'm \<Rightarrow> int \<times> 'm"

text \<open>Was the rule removed at run time, by its message, its id, or one of its tags?\<close>

definition rule_removed ::
  "('re, ('re, 'z) modsec_rec_scheme) flow_env \<Rightarrow> ('re, 'z) modsec_rec_scheme \<Rightarrow> msre_actionset \<Rightarrow> bool" where
  "rule_removed env msr as =
     (((as_id as \<noteq> None \<and> removed_rules msr \<noteq> []) \<or> removed_rules_tag msr \<noteq> [] \<or> removed_rules_msg msr \<noteq> []) \<and>
      ((case as_msg as of None \<Rightarrow> False
        | Some msg \<Rightarrow> list_ex (\<lambda>re. 0 \<le> env_regexec env (re_param_data re) msg) (removed_rules_msg msr)) \<or>
       (case as_id as of None \<Rightarrow> False
        | Some ident \<Rightarrow> list_ex (\<lambda>rng. rule_id_in_range (c_atoi ident) (Some rng)) (removed_rules msr)) \<or>
       list_ex (\<lambda>action. case action of None \<Rightarrow> False
         | Some a \<Rightarrow> action_name a = Some tag_name \<and>
             (case action_param a of None \<Rightarrow> False
              | Some param \<Rightarrow> list_ex (\<lambda>re. 0 \<le> env_regexec env (re_param_data re) (env_expand env msr param))
                  (removed_rules_tag msr))) (as_actions as)))"

text \<open>The marker test of \<open>SKIP_RULES\<close>; \<open>skip_after\<close> is only read when the rule is a marker with an id.\<close>

definition marker_found :: "bytes option \<Rightarrow> msre_rule \<Rightarrow> bool option" where
  "marker_found skip_after rule =
     (if rule_placeholder rule = RULE_PH_NONE then Some False
      else do {
        as \<leftarrow> rule_actionset rule;
        case as_id as of None \<Rightarrow> Some False
        | Some ident \<Rightarrow> do { sa \<leftarrow> skip_after; Some (sa = ident) } })"

text \<open>An interception inside a chain takes over the \<open>intercept_uri\<close> of the nearest rule at or before
  \<open>st\<close> that belongs to a chain.\<close>

fun find_starter :: "msre_rule list \<Rightarrow> nat \<Rightarrow> msre_rule option" where
  "find_starter rules 0 = (if rule_chain_starter (rules ! 0) \<noteq> None then Some (rules ! 0) else None)"
| "find_starter rules (Suc st) =
     (if rule_chain_starter (rules ! Suc st) \<noteq> None then Some (rules ! Suc st) else find_starter rules st)"

definition take_over_uri :: "msre_rule list \<Rightarrow> nat \<Rightarrow> ('re, 'z) modsec_rec_scheme \<Rightarrow> ('re, 'z) modsec_rec_scheme" where
  "take_over_uri rules i msr =
     (if chained (rules ! (i - 1)) then
        case (find_starter rules i, intercept_actionset msr) of
          (Some starter, Some target) \<Rightarrow>
            (case rule_actionset starter of
               None \<Rightarrow> msr
             | Some as \<Rightarrow> msr\<lparr>intercept_actionset := Some (target\<lparr>as_intercept_uri := as_intercept_uri as\<rparr>)\<rparr>)
        | _ \<Rightarrow> msr
      else msr)"

text \<open>After a match that did not intercept.\<close>

definition new_skip :: "msre_rule \<Rightarrow> msre_actionset \<Rightarrow> int \<Rightarrow> int" where
  "new_skip rule as skip =
     (case rule_chain_starter rule of
        Some starter \<Rightarrow> if 0 < as_skip_count starter then as_skip_count starter else skip
      | None \<Rightarrow> if 0 < as_skip_count as then as_skip_count as else skip)"

text \<open>What follows the execution of rule \<open>i\<close>, whose action set is \<open>as\<close>.\<close>

definition after_rule ::
  "msre_rule list \<Rightarrow> nat \<Rightarrow> msre_actionset \<Rightarrow> flow \<Rightarrow> int \<Rightarrow> ('re, 'z) modsec_rec_scheme \<Rightarrow>
    (('re, 'z) modsec_rec_scheme) flow_result" where
  "after_rule rules i as st rc msr =
     (let failed = Continue (i + 1)
        (st\<lparr>fl_mode := if as_is_chained as then NEXT_CHAIN else NEXT_RULE, fl_skipped := False, fl_saw_starter := False\<rparr>)
        (clear_vars msr)
      in if rc = RULE_NO_MATCH then failed
      else if rc = RULE_MATCH then
        if rule_was_intercepted msr then Return 1 (clear_vars (take_over_uri rules i msr))
        else if as_skip_after as \<noteq> None then
          Continue (i + 1) (st\<lparr>fl_skip_after := as_skip_after as, fl_mode := SKIP_RULES, fl_saw_starter := True\<rparr>) msr
        else if fl_skipped st then Continue (i + 1) (st\<lparr>fl_mode := SKIP_RULES\<rparr>) msr
        else if as_is_chained as then Continue (i + 1) (st\<lparr>fl_mode := NEXT_RULE\<rparr>) msr
        else Continue (i + 1) (st\<lparr>fl_mode := NEXT_RULE, fl_skip := new_skip (rules ! i) as (fl_skip st)\<rparr>) (clear_vars msr)
      else if rc < 0 then if reqintercept_oe msr = 1 then Return (-1) (clear_vars msr) else failed
      else Return (-1) (clear_vars msr))"

text \<open>One iteration of the loop.\<close>

definition flow_step ::
  "('re, ('re, 'z) modsec_rec_scheme) flow_env \<Rightarrow> msre_rule list \<Rightarrow> nat \<Rightarrow> flow \<Rightarrow> ('re, 'z) modsec_rec_scheme \<Rightarrow>
    (('re, 'z) modsec_rec_scheme) flow_result option" where
  "flow_step env rules i st msr0 =
     (let rule = rules ! i; msr = reset_intercepted msr0 in
      if fl_mode st = SKIP_RULES then do {
        found \<leftarrow> marker_found (fl_skip_after st) rule;
        if \<not> found then
          if chained (rules ! (i - 1)) \<and> fl_saw_starter st
          then Some (Continue i (st\<lparr>fl_mode := NEXT_RULE, fl_skipped := True\<rparr>) msr)
          else Some (Continue (i + 1) (st\<lparr>fl_skipped := False, fl_saw_starter := False\<rparr>) msr)
        else Some (Continue (i + 1)
          (st\<lparr>fl_mode := NEXT_RULE, fl_skipped := False, fl_saw_starter := False, fl_skip_after := None\<rparr>)
          (clear_vars msr)) }
      else if rule_placeholder rule \<noteq> RULE_PH_NONE then Some (Continue (i + 1) st msr)
      else do {
        as \<leftarrow> rule_actionset rule;
        if fl_mode st = NEXT_CHAIN then
          Some (Continue (i + 1) (if as_is_chained as then st else st\<lparr>fl_mode := NEXT_RULE\<rparr>) (clear_vars msr))
        else if 0 < fl_skip st then
          Some (Continue (i + 1)
            (st\<lparr>fl_skip := fl_skip st - 1, fl_mode := if as_is_chained as then NEXT_CHAIN else NEXT_RULE\<rparr>) (clear_vars msr))
        else if rule_removed env msr as then
          Some (Continue (i + 1) (st\<lparr>fl_mode := if as_is_chained as then NEXT_CHAIN else NEXT_RULE,
            fl_skipped := False, fl_saw_starter := False\<rparr>) (clear_vars msr))
        else if is_enabled msr = MODSEC_DISABLED then
          Some (Continue (i + 1) (st\<lparr>fl_mode := NEXT_RULE, fl_skipped := False, fl_saw_starter := False,
            fl_skip_after := None\<rparr>) (clear_vars msr))
        else case env_process env rule msr of (rc, msr) \<Rightarrow> Some (after_rule rules i as st rc msr) })"

partial_function (option) flow_loop ::
  "('re, ('re, 'z) modsec_rec_scheme) flow_env \<Rightarrow> msre_rule list \<Rightarrow> (('re, 'z) modsec_rec_scheme) flow_result \<Rightarrow>
    (int \<times> ('re, 'z) modsec_rec_scheme) option" where
  "flow_loop env rules r =
     (case r of
        Return rc msr \<Rightarrow> Some (rc, msr)
      | Continue i st msr \<Rightarrow>
          if i < length rules then Option.bind (flow_step env rules i st msr) (flow_loop env rules)
          else Some (0, clear_vars msr))"

definition flow_start :: flow where
  "flow_start = \<lparr>fl_mode = NEXT_RULE, fl_skip = 0, fl_skipped = False, fl_saw_starter = False, fl_skip_after = None\<rparr>"

definition msre_ruleset_process_phase ::
  "('re, ('re, 'z) modsec_rec_scheme) flow_env \<Rightarrow> msre_rule msre_ruleset \<Rightarrow> ('re, 'z) modsec_rec_scheme \<Rightarrow>
    (int \<times> ('re, 'z) modsec_rec_scheme) option" where
  "msre_ruleset_process_phase env ruleset msr =
     (case phase_rules ruleset (phase msr) of
        None \<Rightarrow> Some (-1, msr)
      | Some rules \<Rightarrow> flow_loop env rules (Continue 0 flow_start (clear_vars msr)))"

declare flow_loop.simps [code]


section \<open>Every phase ends\<close>

text \<open>The invariant of the loop: in the mode \<open>SKIP_RULES\<close>, and while a chain is executed on the way to a marker,
  the marker is known; the measure counts a step back to \<open>NEXT_RULE\<close> at the same index.\<close>

definition flow_inv :: "flow \<Rightarrow> bool" where
  "flow_inv st = ((fl_mode st = SKIP_RULES \<or> fl_skipped st) \<longrightarrow> fl_skip_after st \<noteq> None)"

definition flow_measure :: "msre_rule list \<Rightarrow> nat \<Rightarrow> flow \<Rightarrow> nat" where
  "flow_measure rules i st = 2 * (length rules - i) + (if fl_mode st = SKIP_RULES then 1 else 0)"

definition good_result :: "msre_rule list \<Rightarrow> nat \<Rightarrow> flow \<Rightarrow> 'm flow_result \<Rightarrow> bool" where
  "good_result rules i st r =
     (case r of Return rc msr \<Rightarrow> rc = 1 \<or> rc = -1
      | Continue j st' msr \<Rightarrow> flow_inv st' \<and> flow_measure rules j st' < flow_measure rules i st)"

lemma flow_step_good:
  assumes "rule_actionset (rules ! i) \<noteq> None" "flow_inv st" "i < length rules"
  shows "\<exists>r. flow_step env rules i st msr = Some r \<and> good_result rules i st r"
proof -
  obtain as where as: "rule_actionset (rules ! i) = Some as" using assms(1) by auto
  obtain m1 k sk saw sa where st: "st = \<lparr>fl_mode = m1, fl_skip = k, fl_skipped = sk, fl_saw_starter = saw, fl_skip_after = sa\<rparr>"
    by (cases st) auto
  have m: "2 * (length rules - Suc i) + 2 = 2 * (length rules - i)" using assms(3) by simp
  show ?thesis
    using assms(2) as m
    by (cases m1; cases sa; cases "as_id as")
      (auto simp: flow_step_def st flow_inv_def good_result_def flow_measure_def marker_found_def after_rule_def
        Let_def split: prod.splits if_splits)
qed

lemma flow_loop_ends:
  assumes "list_all (\<lambda>r. rule_actionset r \<noteq> None) rules" "flow_inv st"
  shows "\<exists>rc msr'. flow_loop env rules (Continue i st msr) = Some (rc, msr') \<and> rc \<in> {-1, 0, 1}"
  using assms(2)
proof (induction "flow_measure rules i st" arbitrary: i st msr rule: less_induct)
  case less
  show ?case
  proof (cases "i < length rules")
    case True
    then have "rule_actionset (rules ! i) \<noteq> None" using assms(1) by (simp add: list_all_length)
    then obtain r where r: "flow_step env rules i st msr = Some r" "good_result rules i st r"
      using flow_step_good less.prems True by blast
    show ?thesis
    proof (cases r)
      case (Continue j st' msr')
      then show ?thesis
        using less.hyps [of j st' msr'] r True
        by (subst flow_loop.simps) (simp add: good_result_def)
    next
      case (Return rc msr')
      then show ?thesis using r True by (auto simp: flow_loop.simps good_result_def)
    qed
  next
    case False
    then show ?thesis by (subst flow_loop.simps) simp
  qed
qed


section \<open>Chains, skips and markers\<close>

text \<open>The specification: the rules are a list of chains and markers. A chain runs rule by rule; its result says
  whether all of it matched, and on the way to which marker.\<close>

datatype 'm chain_result = Matched "bytes option" 'm | Failed 'm | Off 'm | Done int 'm

definition take_uri :: "msre_actionset \<Rightarrow> ('re, 'z) modsec_rec_scheme \<Rightarrow> ('re, 'z) modsec_rec_scheme" where
  "take_uri as msr =
     msr\<lparr>intercept_actionset := map_option (\<lambda>t. t\<lparr>as_intercept_uri := as_intercept_uri as\<rparr>) (intercept_actionset msr)\<rparr>"

fun run_chain ::
  "('re, ('re, 'z) modsec_rec_scheme) flow_env \<Rightarrow> bool \<Rightarrow> bytes option \<Rightarrow> msre_rule list \<Rightarrow> ('re, 'z) modsec_rec_scheme \<Rightarrow>
    ('re, 'z) modsec_rec_scheme chain_result" where
  "run_chain env first sa [] msr = Matched sa msr"
| "run_chain env first sa (r # rs) msr0 =
     (let msr = reset_intercepted msr0; as = the (rule_actionset r) in
      if rule_removed env msr as then Failed (clear_vars msr)
      else if is_enabled msr = MODSEC_DISABLED then Off (clear_vars msr)
      else case env_process env r msr of (rc, msr) \<Rightarrow>
        if rc = RULE_MATCH then
          if rule_was_intercepted msr then Done 1 (clear_vars (if first then msr else take_uri as msr))
          else run_chain env False (if as_skip_after as = None then sa else as_skip_after as) rs msr
        else if rc = RULE_NO_MATCH \<or> rc < 0 \<and> reqintercept_oe msr \<noteq> 1
        then Failed (clear_vars (if rs = [] then msr else reset_intercepted msr))
        else Done (-1) (clear_vars msr))"

definition bump :: "int \<Rightarrow> int \<Rightarrow> int" where
  "bump n skip = (if 0 < n then n else skip)"

definition is_marker :: "msre_rule \<Rightarrow> bool" where
  "is_marker r = (rule_placeholder r \<noteq> RULE_PH_NONE \<and> rule_actionset r \<noteq> None \<and> \<not> chained r)"

definition marks :: "bytes \<Rightarrow> msre_rule \<Rightarrow> bool" where
  "marks sa r = (rule_placeholder r \<noteq> RULE_PH_NONE \<and> as_id (the (rule_actionset r)) = Some sa)"

fun run_chains ::
  "('re, ('re, 'z) modsec_rec_scheme) flow_env \<Rightarrow> msre_rule list list \<Rightarrow> int \<Rightarrow> bytes option \<Rightarrow>
    ('re, 'z) modsec_rec_scheme \<Rightarrow> int \<times> ('re, 'z) modsec_rec_scheme" where
  "run_chains env [] skip sa msr = (0, clear_vars msr)"
| "run_chains env (c # cs) skip (Some sa) msr =
     (if marks sa (hd c) then run_chains env cs skip None (clear_vars (reset_intercepted msr))
      else run_chains env cs skip (Some sa) (reset_intercepted msr))"
| "run_chains env (c # cs) skip None msr =
     (if is_marker (hd c) then run_chains env cs skip None (reset_intercepted msr)
      else if 0 < skip then run_chains env cs (skip - 1) None (clear_vars (reset_intercepted msr))
      else case run_chain env True None c msr of
        Done rc msr \<Rightarrow> (rc, msr)
      | Off msr \<Rightarrow> (0, msr)
      | Failed msr \<Rightarrow> run_chains env cs skip None msr
      | Matched None msr \<Rightarrow>
          run_chains env cs (bump (as_skip_count (the (rule_actionset (hd c)))) skip) None (clear_vars msr)
      | Matched (Some sa) msr \<Rightarrow> run_chains env cs skip (Some sa) msr)"

text \<open>The shape of the rule set the configuration builds.\<close>

definition plain :: "msre_rule \<Rightarrow> bool" where
  "plain r = (rule_placeholder r = RULE_PH_NONE \<and> rule_actionset r \<noteq> None)"

fun closed_chain :: "msre_rule list \<Rightarrow> bool" where
  "closed_chain [] = False"
| "closed_chain (r # rs) = (plain r \<and> (if rs = [] then \<not> chained r else chained r \<and> closed_chain rs))"

definition wf_chain :: "msre_rule list \<Rightarrow> bool" where
  "wf_chain c =
     (c \<noteq> [] \<and> (tl c = [] \<and> is_marker (hd c) \<or>
        closed_chain c \<and> rule_chain_starter (hd c) = None \<and>
        list_all (\<lambda>r. rule_chain_starter r = rule_actionset (hd c)) (tl c)))"

lemma reset_clear [simp]:
  "reset_intercepted (reset_intercepted m) = reset_intercepted m"
  "clear_vars (clear_vars m) = clear_vars m"
  "clear_vars (reset_intercepted m) = reset_intercepted (clear_vars m)"
  "is_enabled (clear_vars m) = is_enabled m" "is_enabled (reset_intercepted m) = is_enabled m"
  by (simp_all add: clear_vars_def reset_intercepted_def)

lemma flow_loop_step:
  "i < length rules \<Longrightarrow> flow_loop env rules (Continue i st m) = Option.bind (flow_step env rules i st m) (flow_loop env rules)"
  by (subst flow_loop.simps) simp

lemma flow_loop_return: "flow_loop env rules (Return rc m) = Some (rc, m)"
  by (subst flow_loop.simps) simp

lemma flow_loop_done: "length rules \<le> i \<Longrightarrow> flow_loop env rules (Continue i st m) = Some (0, clear_vars m)"
  by (subst flow_loop.simps) simp

lemma nth_at: "rules = pre @ r # rs \<Longrightarrow> rules ! length pre = r \<and> length pre < length rules"
  by simp

text \<open>The rest of a chain is passed over in the mode \<open>NEXT_CHAIN\<close>.\<close>

lemma next_chain_run:
  assumes "closed_chain c" "rules = pre @ c @ post" "fl_mode st = NEXT_CHAIN"
  shows "flow_loop env rules (Continue (length pre) st m) =
     flow_loop env rules (Continue (length (pre @ c)) (st\<lparr>fl_mode := NEXT_RULE\<rparr>) (clear_vars (reset_intercepted m)))"
  using assms
proof (induction c arbitrary: pre m)
  case (Cons r rs)
  have at: "rules ! length pre = r" "length pre < length rules" using Cons.prems(2) by auto
  obtain as where as: "rule_placeholder r = RULE_PH_NONE" "rule_actionset r = Some as"
    using Cons.prems(1) by (auto simp: plain_def)
  show ?case
  proof (cases "rs = []")
    case True
    then show ?thesis using Cons.prems(1,3) as
      by (subst flow_loop_step [OF at(2)]) (simp add: flow_step_def at Let_def chained_def)
  next
    case False
    then have rest: "closed_chain rs" "rules = (pre @ [r]) @ rs @ post" "as_is_chained as"
      using Cons.prems as by (auto simp: chained_def)
    show ?thesis using Cons.IH [OF rest(1,2) Cons.prems(3)] Cons.prems(1,3) as rest(3)
      by (subst flow_loop_step [OF at(2)]) (simp add: flow_step_def at Let_def)
  qed
qed simp

text \<open>With the engine switched off nothing is executed any more.\<close>

lemma disabled_run:
  assumes "list_all (\<lambda>r. rule_actionset r \<noteq> None) rules" "fl_mode st \<noteq> SKIP_RULES" "is_enabled m = MODSEC_DISABLED"
    "clear_vars m = m" "reset_intercepted m = m"
  shows "flow_loop env rules (Continue i st m) = Some (0, m)"
  using assms(2)
proof (induction "length rules - i" arbitrary: i st)
  case 0
  then show ?case using assms(4) by (simp add: flow_loop_done)
next
  case (Suc n)
  then have i: "i < length rules" by simp
  then obtain as where as: "rule_actionset (rules ! i) = Some as" using assms(1) by (auto simp: list_all_length)
  have "\<exists>st'. flow_step env rules i st m = Some (Continue (i + 1) st' m) \<and> fl_mode st' \<noteq> SKIP_RULES"
    using Suc.prems assms(3-5) as by (auto simp: flow_step_def Let_def)
  then obtain st' where "flow_step env rules i st m = Some (Continue (i + 1) st' m)" "fl_mode st' \<noteq> SKIP_RULES" by blast
  then show ?case using Suc.hyps(1) [of "i + 1" st'] Suc.hyps(2) by (simp add: flow_loop_step [OF i])
qed


definition ready :: "flow \<Rightarrow> int \<Rightarrow> bytes option \<Rightarrow> bool" where
  "ready st skip sa =
     (fl_skip st = skip \<and>
      (case sa of
         None \<Rightarrow> fl_mode st = NEXT_RULE \<and> \<not> fl_skipped st \<and> \<not> fl_saw_starter st
       | Some s \<Rightarrow> fl_mode st = SKIP_RULES \<and> fl_skip_after st = Some s))"

lemma marker_found_marks:
  "rule_actionset r \<noteq> None \<Longrightarrow> marker_found (Some sa) r = Some (marks sa r)"
  by (auto simp: marker_found_def marks_def split: option.splits)

text \<open>On the way to a marker the other rules are passed over.\<close>

lemma seek_run:
  assumes "list_all (\<lambda>r. rule_actionset r \<noteq> None \<and> \<not> marks sa r) c" "rules = pre @ c @ post" "ready st skip (Some sa)"
    "\<not> (chained (rules ! (length pre - 1)) \<and> fl_saw_starter st)" "c \<noteq> []"
  shows "\<exists>st'. ready st' skip (Some sa) \<and> flow_loop env rules (Continue (length pre) st m) =
     flow_loop env rules (Continue (length (pre @ c)) st' (reset_intercepted m))"
  using assms
proof (induction c arbitrary: pre st m)
  case (Cons r rs)
  have at: "rules ! length pre = r" "length pre < length rules" using Cons.prems(2) by auto
  let ?st = "st\<lparr>fl_skipped := False, fl_saw_starter := False\<rparr>"
  have rd: "ready ?st skip (Some sa)" using Cons.prems(3) by (simp add: ready_def)
  have step: "flow_loop env rules (Continue (length pre) st m) =
      flow_loop env rules (Continue (length (pre @ [r])) ?st (reset_intercepted m))"
    using Cons.prems(1,3,4)
    by (subst flow_loop_step [OF at(2)])
      (simp del: de_Morgan_conj not_not add: flow_step_def at Let_def ready_def marker_found_marks)
  show ?case
  proof (cases "rs = []")
    case True
    then show ?thesis using step rd by auto
  next
    case False
    have "\<exists>st'. ready st' skip (Some sa) \<and> flow_loop env rules (Continue (length (pre @ [r])) ?st (reset_intercepted m)) =
      flow_loop env rules (Continue (length ((pre @ [r]) @ rs)) st' (reset_intercepted (reset_intercepted m)))"
      by (rule Cons.IH) (use Cons.prems rd False in auto)
    then show ?thesis using step by simp
  qed
qed simp

text \<open>What the loop does after a chain, by the result of the chain.\<close>

definition after_chain ::
  "('re, ('re, 'z) modsec_rec_scheme) flow_env \<Rightarrow> msre_rule list \<Rightarrow> nat \<Rightarrow> int \<Rightarrow> int \<Rightarrow>
    ('re, 'z) modsec_rec_scheme chain_result \<Rightarrow> (int \<times> ('re, 'z) modsec_rec_scheme) option \<Rightarrow> bool" where
  "after_chain env rules j skip n res out =
     (case res of
        Done rc m \<Rightarrow> out = Some (rc, m)
      | Off m \<Rightarrow> out = Some (0, m)
      | Failed m \<Rightarrow> \<exists>st. ready st skip None \<and> out = flow_loop env rules (Continue j st m)
      | Matched None m \<Rightarrow> \<exists>st. ready st (bump n skip) None \<and> out = flow_loop env rules (Continue j st (clear_vars m))
      | Matched (Some sa) m \<Rightarrow> \<exists>st. ready st skip (Some sa) \<and> out = flow_loop env rules (Continue j st m))"

text \<open>The state inside a chain: after a \<open>skipAfter\<close> the loop is in the mode \<open>SKIP_RULES\<close> between the rules.\<close>

definition inside :: "flow \<Rightarrow> int \<Rightarrow> bytes option \<Rightarrow> bool" where
  "inside st skip sa =
     (ready st skip sa \<and> skip \<le> 0 \<and> (sa \<noteq> None \<longrightarrow> fl_saw_starter st))"

lemma inside_enter:
  assumes "inside st skip sa" "rule_actionset (rules ! i) \<noteq> None" "rule_placeholder (rules ! i) = RULE_PH_NONE" "i < length rules"
    "sa \<noteq> None \<longrightarrow> chained (rules ! (i - 1))"
  shows "\<exists>st'. fl_mode st' = NEXT_RULE \<and> fl_skip st' = skip \<and> fl_skipped st' = (sa \<noteq> None) \<and>
     fl_saw_starter st' = (sa \<noteq> None) \<and> (sa \<noteq> None \<longrightarrow> fl_skip_after st' = sa) \<and>
     flow_loop env rules (Continue i st m) =
       Option.bind (flow_step env rules i st' (reset_intercepted m)) (flow_loop env rules)"
proof (cases sa)
  case None
  have r: "flow_step env rules i st m = flow_step env rules i st (reset_intercepted m)"
    by (simp add: flow_step_def)
  show ?thesis
    by (rule exI [of _ st]) (use assms(1) None in \<open>simp add: inside_def ready_def flow_loop_step [OF assms(4)] r [symmetric]\<close>)
next
  case (Some s)
  let ?st = "st\<lparr>fl_mode := NEXT_RULE, fl_skipped := True\<rparr>"
  have "flow_step env rules i st m = Some (Continue i ?st (reset_intercepted m))"
    using assms Some by (simp add: flow_step_def inside_def ready_def marker_found_marks marks_def Let_def)
  then show ?thesis
    by (intro exI [of _ ?st]) (use assms(1) Some in \<open>simp add: inside_def ready_def flow_loop_step [OF assms(4)]\<close>)
qed


lemma find_starter_here: "rule_chain_starter (rules ! i) \<noteq> None \<Longrightarrow> find_starter rules i = Some (rules ! i)"
  by (cases i) auto

lemma take_over_uri_run:
  assumes "rule_actionset (rules ! i) = Some as"
    "if first then rule_chain_starter (rules ! i) = None \<and> (i = 0 \<or> \<not> chained (rules ! (i - 1)))
     else i \<noteq> 0 \<and> chained (rules ! (i - 1)) \<and> rule_chain_starter (rules ! i) \<noteq> None"
  shows "take_over_uri rules i m = (if first then m else take_uri as m)"
proof (cases first)
  case True
  then show ?thesis using assms by (cases i) (auto simp: take_over_uri_def)
next
  case False
  then show ?thesis
    using assms find_starter_here [of rules i]
    by (cases m; cases "intercept_actionset m") (auto simp: take_over_uri_def take_uri_def)
qed

lemma plain_step:
  assumes "rules ! i = r" "plain r" "fl_mode st = NEXT_RULE" "fl_skip st \<le> 0" "rule_actionset r = Some as"
  shows "flow_step env rules i st (reset_intercepted m) =
     (let m = reset_intercepted m in
      Some (if rule_removed env m as then
          Continue (i + 1) (st\<lparr>fl_mode := if as_is_chained as then NEXT_CHAIN else NEXT_RULE,
            fl_skipped := False, fl_saw_starter := False\<rparr>) (clear_vars m)
        else if is_enabled m = MODSEC_DISABLED then
          Continue (i + 1) (st\<lparr>fl_mode := NEXT_RULE, fl_skipped := False, fl_saw_starter := False,
            fl_skip_after := None\<rparr>) (clear_vars m)
        else case env_process env r m of (rc, m) \<Rightarrow> after_rule rules i as st rc m))"
  using assms by (auto simp: flow_step_def plain_def Let_def split: prod.splits)

text \<open>After a rule that did not match the loop passes over the rest of the chain.\<close>

lemma failed_run:
  assumes "closed_chain (r # rs)" "rules = pre @ (r # rs) @ post" "rule_actionset r = Some as"
    "fl_mode st = (if as_is_chained as then NEXT_CHAIN else NEXT_RULE)" "fl_skip st = skip"
    "\<not> fl_skipped st" "\<not> fl_saw_starter st"
  shows "after_chain env rules (length (pre @ r # rs)) skip n (Failed (clear_vars (if rs = [] then m else reset_intercepted m)))
     (flow_loop env rules (Continue (Suc (length pre)) st (clear_vars m)))"
proof (cases "rs = []")
  case True
  then have "ready st skip None" using assms by (simp add: ready_def chained_def)
  then show ?thesis using True by (auto simp: after_chain_def)
next
  case False
  then have c: "closed_chain rs" "rules = (pre @ [r]) @ rs @ post" "fl_mode st = NEXT_CHAIN"
    using assms by (auto simp: chained_def)
  have "ready (st\<lparr>fl_mode := NEXT_RULE\<rparr>) skip None" using assms by (simp add: ready_def)
  then show ?thesis using next_chain_run [OF c, of env "clear_vars m"] False
    by (auto simp: after_chain_def intro!: exI [of _ "st\<lparr>fl_mode := NEXT_RULE\<rparr>"])
qed

lemma chain_run:
  assumes "closed_chain c" "rules = pre @ c @ post" "inside st skip sa" "list_all (\<lambda>r. rule_actionset r \<noteq> None) rules"
    "list_all (\<lambda>r. new_skip r (the (rule_actionset r)) skip = bump n skip) c"
    "if first then sa = None \<and> (pre = [] \<or> \<not> chained (last pre)) \<and> rule_chain_starter (hd c) = None
     else pre \<noteq> [] \<and> chained (last pre) \<and> rule_chain_starter (hd c) \<noteq> None"
    "list_all (\<lambda>r. rule_chain_starter r \<noteq> None) (tl c)"
  shows "after_chain env rules (length (pre @ c)) skip n (run_chain env first sa c m)
     (flow_loop env rules (Continue (length pre) st m))"
  using assms
proof (induction c arbitrary: pre st sa first m)
  case (Cons r rs)
  let ?i = "length pre"
  have at: "rules ! ?i = r" "?i < length rules" using Cons.prems(2) by auto
  have prev: "pre \<noteq> [] \<Longrightarrow> rules ! (?i - 1) = last pre" using Cons.prems(2) by (simp add: last_conv_nth nth_append)
  have pl: "plain r" using Cons.prems(1) by simp
  then obtain as where as: "rule_actionset r = Some as" by (auto simp: plain_def)
  have ch: "as_is_chained as = (rs \<noteq> [])" using Cons.prems(1) as by (auto simp: chained_def split: if_splits)
  have "sa \<noteq> None \<longrightarrow> chained (rules ! (?i - 1))" using Cons.prems(6) prev by (cases first) auto
  then obtain st' where st': "fl_mode st' = NEXT_RULE" "fl_skip st' = skip" "fl_skipped st' = (sa \<noteq> None)"
      "fl_saw_starter st' = (sa \<noteq> None)" "sa \<noteq> None \<longrightarrow> fl_skip_after st' = sa"
      "flow_loop env rules (Continue ?i st m) = Option.bind (flow_step env rules ?i st' (reset_intercepted m)) (flow_loop env rules)"
    using inside_enter [OF Cons.prems(3), of rules ?i env m] pl at by (auto simp: plain_def)
  have sk: "skip \<le> 0" using Cons.prems(3) by (simp add: inside_def)
  let ?m = "reset_intercepted m"
  note step = plain_step [OF at(1) pl st'(1) _ as, of env m, unfolded Let_def]
  have uri: "take_over_uri rules ?i m' = (if first then m' else take_uri as m')" for m'
    by (rule take_over_uri_run) (use Cons.prems(6) at as prev in \<open>auto split: if_splits\<close>)
  note failed = failed_run [OF Cons.prems(1,2) as]
  show ?case
  proof (cases "rule_removed env ?m as")
    case True
    then show ?thesis
      using failed [of "st'\<lparr>fl_mode := if as_is_chained as then NEXT_CHAIN else NEXT_RULE,
            fl_skipped := False, fl_saw_starter := False\<rparr>" skip env n ?m] st'(1,2,6) sk step as
      by (simp split del: if_split cong: if_cong)
  next
    case on: False
    show ?thesis
    proof (cases "is_enabled ?m = MODSEC_DISABLED")
      case True
      have "flow_loop env rules (Continue (?i + 1) (st'\<lparr>fl_mode := NEXT_RULE, fl_skipped := False, fl_saw_starter := False,
            fl_skip_after := None\<rparr>) (clear_vars ?m)) = Some (0, clear_vars ?m)"
        using True by (intro disabled_run [OF Cons.prems(4)]) (simp_all flip: reset_clear(3))
      then show ?thesis using on True st' sk step as by (simp add: after_chain_def)
    next
      case en: False
      obtain rc m1 where pr: "env_process env r ?m = (rc, m1)" by fastforce
      have loop: "flow_loop env rules (Continue ?i st m) = flow_loop env rules (after_rule rules ?i as st' rc m1)"
        using on en st' sk step pr by simp
      show ?thesis
      proof (cases "rc = RULE_MATCH")
        case True
        show ?thesis
        proof (cases "rule_was_intercepted m1")
          case True
          then show ?thesis using \<open>rc = RULE_MATCH\<close> on en pr as
            by (simp add: loop after_rule_def RULE_MATCH_def RULE_NO_MATCH_def uri flow_loop_return after_chain_def)
        next
          case False
          let ?sa = "if as_skip_after as = None then sa else as_skip_after as"
          have run: "run_chain env first sa (r # rs) m = run_chain env False ?sa rs m1"
            using True False on en pr as by simp
          show ?thesis
          proof (cases "rs = []")
            case True
            then show ?thesis
              using run False \<open>rc = RULE_MATCH\<close> st'(1-5) as ch Cons.prems(5) at
              by (cases "as_skip_after as"; cases sa)
                (auto simp: loop after_rule_def RULE_MATCH_def RULE_NO_MATCH_def after_chain_def ready_def
                  intro!: exI conjI [rotated])
          next
            case more_rules: False
            then have c: "as_is_chained as" "closed_chain rs" "rules = (pre @ [r]) @ rs @ post" "chained r"
              using ch Cons.prems(1,2) by auto
            obtain st2 where st2: "after_rule rules ?i as st' rc m1 = Continue (Suc ?i) st2 m1" "inside st2 skip ?sa"
              using False \<open>rc = RULE_MATCH\<close> st'(1-5) c(1) sk
              by (cases "as_skip_after as"; cases sa)
                (auto simp: after_rule_def RULE_MATCH_def RULE_NO_MATCH_def inside_def ready_def)
            have "after_chain env rules (length ((pre @ [r]) @ rs)) skip n (run_chain env False ?sa rs m1)
                (flow_loop env rules (Continue (length (pre @ [r])) st2 m1))"
              by (rule Cons.IH [OF c(2,3) st2(2)])
                (use Cons.prems(4,5,7) c more_rules in \<open>cases rs; auto\<close>)+
            then show ?thesis by (simp add: run loop st2(1) del: run_chain.simps)
          qed
        qed
      next
        case False
        then show ?thesis
        proof (cases "rc = RULE_NO_MATCH \<or> rc < 0 \<and> reqintercept_oe m1 \<noteq> 1")
          case True
          then show ?thesis
            using False on en pr as
              failed [of "st'\<lparr>fl_mode := if as_is_chained as then NEXT_CHAIN else NEXT_RULE,
                fl_skipped := False, fl_saw_starter := False\<rparr>" skip env n m1] st'(2)
            by (auto simp: loop after_rule_def RULE_MATCH_def RULE_NO_MATCH_def Let_def split del: if_split)
        next
          case False
          then show ?thesis using \<open>rc \<noteq> RULE_MATCH\<close> on en pr as
            by (auto simp: loop after_rule_def RULE_MATCH_def RULE_NO_MATCH_def Let_def flow_loop_return after_chain_def)
        qed
      qed
    qed
  qed
qed simp


lemma closed_chain_plain: "closed_chain c \<Longrightarrow> list_all plain c"
  by (induction c) (auto split: if_splits)

lemma closed_chain_last: "closed_chain c \<Longrightarrow> \<not> chained (last c)"
  by (induction c) (auto split: if_splits)

lemma wf_chain_some:
  assumes "wf_chain c"
  shows "list_all (\<lambda>r. rule_actionset r \<noteq> None) c"
proof (cases "closed_chain c")
  case True
  then show ?thesis using closed_chain_plain by (auto simp: list_all_iff plain_def)
next
  case False
  then show ?thesis using assms by (cases c) (auto simp: wf_chain_def is_marker_def)
qed

lemma wf_chain_last:
  assumes "wf_chain c"
  shows "\<not> chained (last c)"
proof (cases "closed_chain c")
  case False
  then show ?thesis using assms by (cases c) (auto simp: wf_chain_def is_marker_def)
qed (rule closed_chain_last)

lemma chain_counts:
  assumes "closed_chain c" "rule_chain_starter (hd c) = None" "list_all (\<lambda>r. rule_chain_starter r = rule_actionset (hd c)) (tl c)"
  shows "list_all (\<lambda>r. new_skip r (the (rule_actionset r)) skip = bump (as_skip_count (the (rule_actionset (hd c)))) skip) c"
  using assms by (cases c) (auto simp: list_all_iff new_skip_def bump_def plain_def)

lemma run_chains_correct:
  assumes "list_all wf_chain cs" "rules = pre @ concat cs" "ready st skip sa" "pre = [] \<or> \<not> chained (last pre)"
    "sa \<noteq> None \<longrightarrow> pre \<noteq> []" "list_all (\<lambda>r. rule_actionset r \<noteq> None) rules" "0 \<le> skip"
  shows "flow_loop env rules (Continue (length pre) st m) = Some (run_chains env cs skip sa m)"
  using assms
proof (induction cs arbitrary: pre st skip sa m)
  case Nil
  then show ?case by (simp add: flow_loop_done)
next
  case (Cons c cs)
  have wf: "wf_chain c" and c: "c \<noteq> []" and rules: "rules = pre @ c @ concat cs"
    using Cons.prems(1,2) by (auto simp: wf_chain_def)
  have pre': "pre @ c = [] \<or> \<not> chained (last (pre @ c))" using wf_chain_last [OF wf] c by simp
  have go: "flow_loop env rules (Continue (length (pre @ c)) st' m') = Some (run_chains env cs skip' sa' m')"
    if "ready st' skip' sa'" "0 \<le> skip'" for st' m' skip' sa'
    by (rule Cons.IH) (use Cons.prems(1,2,6) that c pre' in auto)
  obtain r rs where rs: "c = r # rs" using c by (cases c) auto
  have at: "rules ! length pre = r" "length pre < length rules" using rules rs by auto
  have some: "rule_actionset r \<noteq> None" using wf_chain_some [OF wf] rs by simp
  have chain: "rule_placeholder r = RULE_PH_NONE \<Longrightarrow> closed_chain c \<and> rule_chain_starter r = None \<and>
      list_all (\<lambda>q. rule_chain_starter q = rule_actionset r) rs"
    and marker: "rule_placeholder r \<noteq> RULE_PH_NONE \<Longrightarrow> rs = [] \<and> \<not> chained r"
    using wf rs by (auto simp: wf_chain_def is_marker_def plain_def)
  show ?case
  proof (cases sa)
    case (Some s)
    show ?thesis
    proof (cases "marks s r")
      case True
      then have "rs = []" using marker by (simp add: marks_def)
      let ?st = "st\<lparr>fl_mode := NEXT_RULE, fl_skipped := False, fl_saw_starter := False, fl_skip_after := None\<rparr>"
      have "flow_step env rules (length pre) st m =
          Some (Continue (length (pre @ c)) ?st (clear_vars (reset_intercepted m)))"
        using Cons.prems(3) Some True some rs \<open>rs = []\<close>
        by (simp add: flow_step_def at ready_def marker_found_marks Let_def)
      moreover have "ready ?st skip None" using Cons.prems(3) by (simp add: ready_def)
      ultimately show ?thesis
        using go [of ?st skip None] Cons.prems(7) True Some rs \<open>rs = []\<close> by (simp add: flow_loop_step [OF at(2)])
    next
      case False
      have all: "list_all (\<lambda>q. rule_actionset q \<noteq> None \<and> \<not> marks s q) c"
      proof (cases "rule_placeholder r = RULE_PH_NONE")
        case True
        then have "list_all plain c" using chain closed_chain_plain by blast
        then show ?thesis by (auto simp: list_all_iff plain_def marks_def)
      next
        case False
        then show ?thesis using marker \<open>\<not> marks s r\<close> some rs by simp
      qed
      have prev: "\<not> (chained (rules ! (length pre - 1)) \<and> fl_saw_starter st)"
        using Cons.prems(4,5) Some rules by (simp add: last_conv_nth nth_append)
      obtain st' where "ready st' skip (Some s)" "flow_loop env rules (Continue (length pre) st m) =
          flow_loop env rules (Continue (length (pre @ c)) st' (reset_intercepted m))"
        using seek_run [OF all rules _ prev c] Cons.prems(3) Some by blast
      then show ?thesis using go [of st' skip "Some s"] Cons.prems(7) False Some rs by simp
    qed
  next
    case None
    show ?thesis
    proof (cases "is_marker r")
      case True
      then have "rs = []" using marker by (simp add: is_marker_def)
      then have "flow_step env rules (length pre) st m = Some (Continue (length (pre @ c)) st (reset_intercepted m))"
        using Cons.prems(3) None True rs by (simp add: flow_step_def at ready_def is_marker_def Let_def)
      then show ?thesis
        using go [of st skip None] Cons.prems(3,7) True None rs by (simp add: flow_loop_step [OF at(2)])
    next
      case False
      have plain: "rule_placeholder r = RULE_PH_NONE" using False marker some by (auto simp: is_marker_def)
      obtain as where as: "rule_actionset r = Some as" using some by auto
      note cl = chain [OF plain]
      show ?thesis
      proof (cases "0 < skip")
        case True
        let ?st = "st\<lparr>fl_skip := skip - 1, fl_mode := if as_is_chained as then NEXT_CHAIN else NEXT_RULE\<rparr>"
        have "flow_step env rules (length pre) st m = Some (Continue (Suc (length pre)) ?st (clear_vars (reset_intercepted m)))"
          using Cons.prems(3) None True as plain by (auto simp: flow_step_def at ready_def Let_def)
        moreover have "after_chain env rules (length (pre @ r # rs)) (skip - 1) 0
            (Failed (clear_vars (if rs = [] then reset_intercepted m else reset_intercepted (reset_intercepted m))))
            (flow_loop env rules (Continue (Suc (length pre)) ?st (clear_vars (reset_intercepted m))))"
          by (rule failed_run [OF _ _ as]) (use cl rules rs Cons.prems(3) None in \<open>auto simp: ready_def\<close>)
        ultimately show ?thesis
          using go [of _ "skip - 1" None] True None False rs
          by (auto simp: after_chain_def flow_loop_step [OF at(2)])
      next
        case no_skip: False
        have "after_chain env rules (length (pre @ c)) skip (as_skip_count (the (rule_actionset (hd c))))
            (run_chain env True None c m) (flow_loop env rules (Continue (length pre) st m))"
        proof (rule chain_run [OF _ rules _ Cons.prems(6)])
          show "closed_chain c" using cl by simp
          show "inside st skip None" using Cons.prems(3) None no_skip by (simp add: inside_def)
          show "list_all (\<lambda>r. new_skip r (the (rule_actionset r)) skip =
              bump (as_skip_count (the (rule_actionset (hd c)))) skip) c"
            by (rule chain_counts) (use cl rs in auto)
          show "if True then (None :: bytes option) = None \<and> (pre = [] \<or> \<not> chained (last pre)) \<and> rule_chain_starter (hd c) = None
              else pre \<noteq> [] \<and> chained (last pre) \<and> rule_chain_starter (hd c) \<noteq> None"
            using Cons.prems(4) cl rs by simp
          show "list_all (\<lambda>r. rule_chain_starter r \<noteq> None) (tl c)" using cl as rs by (simp add: list_all_iff)
        qed
        then show ?thesis
          using go [of _ skip] go [of _ "bump (as_skip_count as) skip" None] None False no_skip rs as Cons.prems(7)
          by (auto simp: after_chain_def bump_def simp del: run_chain.simps split: chain_result.splits option.splits)
      qed
    qed
  qed
qed


section \<open>Properties\<close>

text \<open>
  C2: a phase always ends: whatever the execution of the rules does and whatever chains, skips and markers the
  phase has, the loop returns 1, 0 or -1, and never compares a rule id with a marker that is not set.
\<close>

theorem process_phase_ends:
  assumes "phase_rules ruleset (phase msr) = Some rules" "list_all (\<lambda>r. rule_actionset r \<noteq> None) rules"
  shows "\<exists>rc msr'. msre_ruleset_process_phase env ruleset msr = Some (rc, msr') \<and> rc \<in> {-1, 0, 1}"
  using flow_loop_ends [OF assms(2), of flow_start env 0 "clear_vars msr"] assms(1)
  by (auto simp: msre_ruleset_process_phase_def flow_inv_def flow_start_def)

text \<open>A chain that sets a \<open>skipAfter\<close>, a rule that would fail, the marker, and a rule that intercepts.\<close>

definition rule_with :: "byte \<Rightarrow> bool \<Rightarrow> bytes option \<Rightarrow> msre_actionset option \<Rightarrow> msre_rule" where
  "rule_with c ch after starter = sample_rule (Some [c]) ch starter
     \<lparr>rule_actionset := Some (sample_as (Some [c]) ch\<lparr>as_skip_after := after\<rparr>)\<rparr>"

definition marker_rule :: "byte \<Rightarrow> msre_rule" where
  "marker_rule c = sample_rule (Some [c]) False None\<lparr>rule_placeholder := RULE_PH_MARKER\<rparr>"

definition sample_chains :: "msre_rule list list" where
  "sample_chains =
     [[rule_with 1 True (Some [77]) None, rule_with 2 False None (rule_actionset (rule_with 1 True (Some [77]) None))],
      [rule_with 3 False None None], [marker_rule 77], [rule_with 4 False None None]]"

definition sample_msr :: "unit modsec_rec" where
  "sample_msr = \<lparr>phase = 2, rule_was_intercepted = False, matched_vars = [], removed_rules = [],
     removed_rules_tag = [], removed_rules_msg = [], is_enabled = 1, reqintercept_oe = 1, intercept_actionset = None\<rparr>"

definition flow_sample_env :: "(unit, unit modsec_rec) flow_env" where
  "flow_sample_env = \<lparr>env_regexec = (\<lambda>_ _. -1), env_expand = (\<lambda>_ s. s),
     env_process = (\<lambda>r m. case map_option as_id (rule_actionset r) of
        Some (Some [c]) \<Rightarrow> if c = 3 then (-1, m) else (1, m\<lparr>rule_was_intercepted := (c = 4)\<rparr>)
      | _ \<Rightarrow> (0, m))\<rparr>"

theorem process_phase_ends_witness:
  "\<exists>rc msr'. msre_ruleset_process_phase flow_sample_env (msre_ruleset_create\<lparr>phase_request_body := concat sample_chains\<rparr>) sample_msr =
     Some (rc, msr') \<and> rc \<in> {-1, 0, 1}"
  by (rule process_phase_ends [of _ _ "concat sample_chains"])
    (simp_all add: phase_rules_def sample_msr_def sample_chains_def rule_with_def marker_rule_def sample_rule_def)

text \<open>
  C1: on a rule set made of closed chains and markers the loop with its three modes runs the chains one after
  the other: a chain stops at its first rule that is removed, does not match or fails; only a chain that matched as a
  whole skips the next chains or goes to a marker; a marker resumes the phase behind it; the engine
  switched off ends the phase with 0; an interception ends it with 1, and a failing rule with -1 only under
  \<open>reqintercept_oe\<close>. Matched variables last from one rule to the next only inside a chain or up to a marker.
\<close>

theorem process_phase_runs_chains:
  assumes "phase_rules ruleset (phase msr) = Some (concat cs)" "list_all wf_chain cs"
  shows "msre_ruleset_process_phase env ruleset msr = Some (run_chains env cs 0 None (clear_vars msr))"
proof -
  have "list_all (\<lambda>r. rule_actionset r \<noteq> None) (concat cs)"
    using assms(2) wf_chain_some by (auto simp: list_all_iff)
  then have "flow_loop env (concat cs) (Continue (length ([] :: msre_rule list)) flow_start (clear_vars msr)) =
      Some (run_chains env cs 0 None (clear_vars msr))"
    using assms(2) by (intro run_chains_correct) (auto simp: ready_def flow_start_def)
  then show ?thesis by (simp add: msre_ruleset_process_phase_def assms(1))
qed

theorem process_phase_runs_chains_witness:
  "map_option fst (msre_ruleset_process_phase flow_sample_env
     (msre_ruleset_create\<lparr>phase_request_body := concat sample_chains\<rparr>) sample_msr) = Some 1"
proof -
  have "phase_rules (msre_ruleset_create\<lparr>phase_request_body := concat sample_chains\<rparr>) (phase sample_msr) =
      Some (concat sample_chains)"
    by (simp add: phase_rules_def sample_msr_def)
  moreover have "list_all wf_chain sample_chains"
    by (simp add: sample_chains_def rule_with_def marker_rule_def sample_rule_def wf_chain_def is_marker_def plain_def chained_def
        sample_as_def)
  moreover have "fst (run_chains flow_sample_env sample_chains 0 None (clear_vars sample_msr)) = 1"
    by (simp add: sample_chains_def rule_with_def marker_rule_def sample_rule_def is_marker_def chained_def sample_as_def flow_sample_env_def
        sample_msr_def rule_removed_def clear_vars_def reset_intercepted_def MODSEC_DISABLED_def RULE_MATCH_def
        RULE_NO_MATCH_def marks_def Let_def)
  ultimately show ?thesis by (subst process_phase_runs_chains) auto
qed

end
