(* ===== verification/RuleExec.thy ===== *)
theory RuleExec
  imports TargetException RuleFlow
begin

text \<open>
  The execution of one rule, \<^verbatim>\<open>msre_rule_process_normal\<close> of \<^verbatim>\<open>apache2/re.c\<close>: the variables of the rule are
  expanded to a list of targets, every target goes through the transformations of the rule, with a cache in
  between, and the operator is invoked on the result. The variables, the operators and the actions themselves are
  parameters, as is the size of a pointer; time measurement and message texts are left out.
\<close>

section \<open>The state\<close>

record msre_cache_rec =
  crec_changed :: nat
  crec_num :: nat
  crec_path :: bytes
  crec_val :: bytes
  crec_val_len :: nat

text \<open>An APR table with one value per key; keys are compared without regard to case.\<close>

type_synonym cachetab = "bytes \<Rightarrow> msre_cache_rec option"

definition tget :: "cachetab \<Rightarrow> bytes \<Rightarrow> msre_cache_rec option" where
  "tget tab key = tab (map c_tolower key)"

definition tset :: "cachetab \<Rightarrow> bytes \<Rightarrow> msre_cache_rec \<Rightarrow> cachetab" where
  "tset tab key crec = tab(map c_tolower key \<mapsto> crec)"

text \<open>The fields of the transaction, its configuration (\<^verbatim>\<open>txcfg\<close>) and the engine that are used here.\<close>

record 're exec_rec = "'re modsec_rec" +
  removed_targets :: "(bytes \<times> 're rule_exception) list"
  matched_rules :: "msre_rule list"
  matched_var :: "bytes \<times> bytes"
  highest_severity :: int
  was_intercepted :: bool
  intercept_phase :: int
  is_relevant :: int
  processing_mode :: int
  tcache :: "bytes \<Rightarrow> cachetab option"
  tcache_items :: nat
  cache_trans :: bool
  cache_trans_incremental :: bool
  cache_trans_min :: nat
  cache_trans_max :: nat
  cache_trans_maxitems :: nat

definition ACTION_NONE :: int where
  "ACTION_NONE = 0"

definition MODSEC_DETECTION_ONLY :: int where
  "MODSEC_DETECTION_ONLY = 1"

definition MODSEC_OFFLINE :: int where
  "MODSEC_OFFLINE = 0"

text \<open>The parameters: PCRE, the generators of the variables, the operators, what an action executes (\<^term>\<open>None\<close> if
  nothing), and the size of a pointer.\<close>

record ('re, 'm) exec_env =
  ex_regexec :: "'re \<Rightarrow> bytes \<Rightarrow> int"
  ex_generate :: "msre_var \<Rightarrow> msre_rule \<Rightarrow> 'm \<Rightarrow> int \<times> (bytes \<times> msre_var) list \<times> 'm"
  ex_operator :: "msre_rule \<Rightarrow> msre_var \<Rightarrow> 'm \<Rightarrow> int \<times> 'm"
  ex_action :: "msre_action \<Rightarrow> (msre_rule \<Rightarrow> 'm \<Rightarrow> 'm) option"
  ex_pointer_size :: nat

section \<open>Actions and operators\<close>

definition run_action :: "('re, 'm) exec_env \<Rightarrow> action_type \<Rightarrow> msre_rule \<Rightarrow> msre_action option \<Rightarrow> 'm \<Rightarrow> 'm option" where
  "run_action env ty rule action msr = do {
     a \<leftarrow> action;
     name \<leftarrow> action_name a;
     Some (if action_type a = ty then (case ex_action env a of None \<Rightarrow> msr | Some execute \<Rightarrow> execute rule msr) else msr) }"

fun run_actions :: "('re, 'm) exec_env \<Rightarrow> action_type \<Rightarrow> msre_rule \<Rightarrow> msre_action option list \<Rightarrow> 'm \<Rightarrow> 'm option" where
  "run_actions env ty rule [] msr = Some msr"
| "run_actions env ty rule (a # as) msr = do {
     msr \<leftarrow> run_action env ty rule a msr;
     run_actions env ty rule as msr }"

definition msre_perform_nondisruptive_actions ::
  "('re, 'm) exec_env \<Rightarrow> msre_rule \<Rightarrow> msre_actionset \<Rightarrow> 'm \<Rightarrow> 'm option" where
  "msre_perform_nondisruptive_actions env rule as msr = run_actions env ACTION_NON_DISRUPTIVE rule (as_actions as) msr"

text \<open>A warning of a level up to 3 counts the transaction as relevant; the code takes that back.\<close>

definition msre_perform_disruptive_actions ::
  "('re, ('re, 'z) exec_rec_scheme) exec_env \<Rightarrow> msre_rule \<Rightarrow> msre_actionset \<Rightarrow> ('re, 'z) exec_rec_scheme \<Rightarrow>
    ('re, 'z) exec_rec_scheme option" where
  "msre_perform_disruptive_actions env rule as msr = do {
     msr \<leftarrow> run_actions env ACTION_DISRUPTIVE rule (as_actions as) msr;
     msr \<leftarrow> run_action env ACTION_DISRUPTIVE rule (as_intercept_action_rec as) msr;
     let msr = (if as_auditlog as \<noteq> 0 then msr\<lparr>is_relevant := is_relevant msr + 1\<rparr> else msr);
     if phase msr = 5 \<or> is_enabled msr = MODSEC_DETECTION_ONLY \<or> processing_mode msr = MODSEC_OFFLINE \<or>
        as_intercept_action as = ACTION_NONE
     then do {
       let log_level = (if as_log as = 0 then 4 else 2 :: int);
       let msr = (if log_level \<le> 3 then msr\<lparr>is_relevant := is_relevant msr + 1\<rparr> else msr);
       Some (if log_level \<le> 3 then msr\<lparr>is_relevant := is_relevant msr - 1\<rparr> else msr) }
     else Some (msr\<lparr>was_intercepted := True, rule_was_intercepted := True, intercept_phase := phase msr,
       intercept_actionset := Some as\<rparr>) }"

text \<open>Is the variable out of the reach of the rule?\<close>

fun target_removed ::
  "('re \<Rightarrow> bytes \<Rightarrow> int) \<Rightarrow> msre_rule \<Rightarrow> msre_var \<Rightarrow> (bytes \<times> 're rule_exception) list \<Rightarrow> bool option" where
  "target_removed regexec rule var [] = Some False"
| "target_removed regexec rule var ((exceptions, re) # rest) = do {
     m \<leftarrow> msre_ruleset_rule_matches_exception regexec rule re;
     excluded \<leftarrow> (if m then fetch_target_exception rule var (Some exceptions) else Some 0);
     if 0 < excluded then Some True else target_removed regexec rule var rest }"

text \<open>\<^verbatim>\<open>apr_pmemdup\<close> and \<^verbatim>\<open>apr_pstrmemdup\<close>: a copy of the first \<open>n\<close> bytes, without and with a NUL.\<close>

definition pmemdup :: "bytes \<Rightarrow> nat \<Rightarrow> bytes option" where
  "pmemdup b n = (if n \<le> length b then Some (take n b) else None)"

definition pstrmemdup :: "bytes \<Rightarrow> nat \<Rightarrow> bytes option" where
  "pstrmemdup b n = map_option (\<lambda>s. s @ [0]) (pmemdup b n)"

text \<open>What follows a match: the variable is recorded and the actions are performed, the disruptive ones unless the
  rule goes on with a chain.\<close>

definition operator_matched ::
  "('re, ('re, 'z) exec_rec_scheme) exec_env \<Rightarrow> msre_var \<Rightarrow> msre_rule \<Rightarrow> msre_actionset \<Rightarrow> ('re, 'z) exec_rec_scheme \<Rightarrow>
    ('re, 'z) exec_rec_scheme option" where
  "operator_matched env var rule acting msr = do {
     value \<leftarrow> pmemdup (var_value var) (var_len var);
     as \<leftarrow> rule_actionset rule;
     let msr = msr\<lparr>matched_rules := matched_rules msr @ [rule], matched_var := (var_name var, value),
       matched_vars := matched_vars msr @ [(var_name var, value)]\<rparr>;
     let msr = (if 0 < as_severity acting \<and> as_severity acting < highest_severity msr \<and> \<not> as_is_chained as
       then msr\<lparr>highest_severity := as_severity acting\<rparr> else msr);
     msr \<leftarrow> msre_perform_nondisruptive_actions env rule as msr;
     if \<not> as_is_chained as then msre_perform_disruptive_actions env rule acting msr else Some msr }"

definition execute_operator ::
  "('re, ('re, 'z) exec_rec_scheme) exec_env \<Rightarrow> msre_var \<Rightarrow> msre_rule \<Rightarrow> msre_actionset \<Rightarrow> ('re, 'z) exec_rec_scheme \<Rightarrow>
    (int \<times> ('re, 'z) exec_rec_scheme) option" where
  "execute_operator env var rule acting msr = do {
     gone \<leftarrow> target_removed (ex_regexec env) rule var (removed_targets msr);
     if gone then Some (RULE_NO_MATCH, msr)
     else
       (case ex_operator env rule var msr of (rc, msr) \<Rightarrow>
          if rc < 0 then Some (-1, msr)
          else if rc = 0 \<and> \<not> rule_op_negated rule \<or> rc = 1 \<and> rule_op_negated rule then Some (RULE_NO_MATCH, msr)
          else map_option (Pair RULE_MATCH) (operator_matched env var rule acting msr)) }"

text \<open>Invoking the operator and acting on its result: the value to return, or the new number of matches.\<close>

definition invoke ::
  "('re, ('re, 'z) exec_rec_scheme) exec_env \<Rightarrow> msre_rule \<Rightarrow> msre_actionset \<Rightarrow> msre_var \<Rightarrow> nat \<Rightarrow> ('re, 'z) exec_rec_scheme \<Rightarrow>
    ((int + nat) \<times> ('re, 'z) exec_rec_scheme) option" where
  "invoke env rule acting var match_count msr = do {
     (rc, msr) \<leftarrow> execute_operator env var rule acting msr;
     Some (if rc < 0 then Inl (-1)
       else if rc = RULE_MATCH then if rule_was_intercepted msr then Inl RULE_MATCH else Inr (match_count + 1)
       else Inr match_count, msr) }"

section \<open>The list of transformations\<close>

definition t_name :: bytes where "t_name = [116]"

definition none_name :: bytes where "none_name = [110, 111, 110, 101]"

definition multi_match_name :: bytes where
  "multi_match_name = [109, 117, 108, 116, 105, 77, 97, 116, 99, 104]"

text \<open>\<^verbatim>\<open>"%s%s%s"\<close> of the path so far, a comma and a name, and \<^verbatim>\<open>"%x;%s"\<close> of a count and a path.\<close>

definition extend_path :: "bytes option \<Rightarrow> bytes \<Rightarrow> bytes" where
  "extend_path path name = (case path of None \<Rightarrow> name | Some p \<Rightarrow> p @ 44 # name)"

definition cache_key :: "nat \<Rightarrow> bytes \<Rightarrow> bytes" where
  "cache_key n path = hexstr n @ 59 # path"

text \<open>The locals of the loop that builds the list. A cache record is kept with its key, so that comparing
  two pointers to records is comparing the keys.\<close>

record norm =
  n_tab :: "msre_action list"
  n_path :: "bytes option"
  n_count :: nat
  n_crec :: "(bytes \<times> msre_cache_rec) option"
  n_last :: "(bytes \<times> msre_cache_rec) option"
  n_last_cached :: nat

definition norm_start :: norm where
  "norm_start = \<lparr>n_tab = [], n_path = None, n_count = 0, n_crec = None, n_last = None, n_last_cached = 0\<rparr>"

definition norm_step :: "cachetab option \<Rightarrow> msre_action \<Rightarrow> norm \<Rightarrow> norm option" where
  "norm_step cachetab action st = do {
     param \<leftarrow> action_param action;
     if param = none_name then
       Some (st\<lparr>n_tab := [], n_path := None, n_count := 0, n_last := None, n_last_cached := 0\<rparr>)
     else if action_negative action then
       Some (st\<lparr>n_tab := filter (\<lambda>a. \<not> ci_equal (the (action_param a)) param) (n_tab st)\<rparr>)
     else do {
       let st = st\<lparr>n_count := n_count st + 1, n_tab := n_tab st @ [action]\<rparr>;
       case cachetab of
         None \<Rightarrow> Some st
       | Some tab \<Rightarrow>
           let path = extend_path (n_path st) param;
               key = cache_key (n_count st) path;
               crec = map_option (\<lambda>c. (map c_tolower key, c)) (tget tab key);
               st = st\<lparr>n_path := Some path, n_crec := crec\<rparr>
           in Some (if crec \<noteq> None then st\<lparr>n_last := crec, n_last_cached := n_count st\<rparr> else st) } }"

fun norm_build :: "cachetab option \<Rightarrow> msre_action option list \<Rightarrow> norm \<Rightarrow> norm option" where
  "norm_build cachetab [] st = Some st"
| "norm_build cachetab (action # as) st = do {
     a \<leftarrow> action;
     name \<leftarrow> action_name a;
     st \<leftarrow> (if name = t_name then norm_step cachetab a st else Some st);
     norm_build cachetab as st }"

section \<open>Running the transformations\<close>

record xform =
  x_path :: "bytes option"
  x_last :: "(bytes \<times> nat) option"
  x_changed :: nat
  x_tfnchanged :: bool
  x_matches :: nat

text \<open>The copy of the value that goes into the cache: the last cached one when nothing changed since.\<close>

definition cached_copy :: "xform \<Rightarrow> msre_var \<Rightarrow> (bytes \<times> nat) option" where
  "cached_copy x var =
     (case x_last x of
        Some (lastval, lastlen) \<Rightarrow>
          if x_tfnchanged x then map_option (\<lambda>v. (v, var_len var)) (pmemdup (var_value var) (var_len var))
          else Some (lastval, lastlen)
      | None \<Rightarrow> map_option (\<lambda>v. (v, var_len var)) (pmemdup (var_value var) (var_len var)))"

text \<open>Caching the result of transformation \<open>k\<close>, \<open>ck\<close> being the key of the table of this variable.\<close>

definition cache_store ::
  "bytes \<Rightarrow> nat \<Rightarrow> nat \<Rightarrow> bytes \<Rightarrow> msre_var \<Rightarrow> xform \<Rightarrow> ('re, 'z) exec_rec_scheme \<Rightarrow> (xform \<times> ('re, 'z) exec_rec_scheme) option" where
  "cache_store ck ntfns k param var x msr = do {
     let path = extend_path (x_path x) param;
     let x = x\<lparr>x_path := Some path\<rparr>;
     let key = cache_key (k + 1) path;
     if cache_trans_maxitems msr \<noteq> 0 \<and> cache_trans_maxitems msr \<le> tcache_items msr then
       Some (x, if tcache_items msr = cache_trans_maxitems msr then msr\<lparr>tcache_items := tcache_items msr + 1\<rparr> else msr)
     else if cache_trans_incremental msr \<or> k + 1 = ntfns then do {
       tab \<leftarrow> tcache msr ck;
       (val, len) \<leftarrow> cached_copy x var;
       let crec = \<lparr>crec_changed = x_changed x, crec_num = k + 1, crec_path = path, crec_val = val,
         crec_val_len = (if x_changed x \<noteq> 0 then len else 0)\<rparr>;
       Some (if x_tfnchanged x then x\<lparr>x_last := Some (val, crec_val_len crec)\<rparr> else x,
         msr\<lparr>tcache_items := tcache_items msr + 1, tcache := (tcache msr)(ck \<mapsto> tset tab key crec)\<rparr>) }
     else Some (x, msr) }"

text \<open>The loop over the transformations from index \<open>k\<close> on: a value to return at once, or the variable and the locals.\<close>

fun run_tfns ::
  "('re, ('re, 'z) exec_rec_scheme) exec_env \<Rightarrow> msre_rule \<Rightarrow> msre_actionset \<Rightarrow> bytes option \<Rightarrow> bool \<Rightarrow> nat \<Rightarrow>
    msre_action list \<Rightarrow> nat \<Rightarrow> msre_var \<Rightarrow> xform \<Rightarrow> ('re, 'z) exec_rec_scheme \<Rightarrow>
    ((int + msre_var \<times> xform) \<times> ('re, 'z) exec_rec_scheme) option" where
  "run_tfns env rule acting cache multi ntfns [] k var x msr = Some (Inr (var, x), msr)"
| "run_tfns env rule acting cache multi ntfns (action # as) k var x msr = do {
     (r, msr) \<leftarrow> (if multi \<and> (k = 0 \<or> x_tfnchanged x) then invoke env rule acting var (x_matches x) msr
       else Some (Inr (x_matches x), msr));
     case r of
       Inl rc \<Rightarrow> Some (Inl rc, msr)
     | Inr matches \<Rightarrow> do {
         execute \<leftarrow> action_tfn action;
         param \<leftarrow> action_param action;
         (tfnchanged, b, off, len) \<leftarrow> execute (var_value var) (var_len var);
         if tfnchanged < 0 then Some (Inl (-1), msr)
         else do {
           let x = x\<lparr>x_matches := matches, x_tfnchanged := tfnchanged \<noteq> 0,
             x_changed := (if tfnchanged \<noteq> 0 then x_changed x + 1 else x_changed x)\<rparr>;
           let var = var\<lparr>var_value := drop off b, var_len := len\<rparr>;
           (x, msr) \<leftarrow> (case cache of None \<Rightarrow> Some (x, msr) | Some ck \<Rightarrow> cache_store ck ntfns k param var x msr);
           run_tfns env rule acting cache multi ntfns as (k + 1) var x msr } } }"

section \<open>One target\<close>

text \<open>May the transformations of this variable be cached?\<close>

definition cacheable :: "('re, 'z) exec_rec_scheme \<Rightarrow> msre_var \<Rightarrow> bool" where
  "cacheable msr var =
     (cache_trans msr \<and> \<not> var_counting var \<and> \<not> phase msr < var_availability var \<and>
      \<not> var_len var < cache_trans_min msr \<and> \<not> (cache_trans_max msr \<noteq> 0 \<and> cache_trans_max msr < var_len var) \<and>
      var_cacheable var)"

text \<open>The hash of the cache tables is keyed with the bytes the value pointer points to, as many as a pointer has.\<close>

definition cache_open ::
  "nat \<Rightarrow> ('re, 'z) exec_rec_scheme \<Rightarrow> msre_var \<Rightarrow> (bytes option \<times> ('re, 'z) exec_rec_scheme) option" where
  "cache_open pointer_size msr var =
     (if cacheable msr var then do {
        ck \<leftarrow> pmemdup (var_value var) pointer_size;
        Some (Some ck, if tcache msr ck = None then msr\<lparr>tcache := (tcache msr)(ck \<mapsto> Map.empty)\<rparr> else msr) }
      else Some (None, msr))"

text \<open>The whole list of transformations was found in the cache.\<close>

definition fully_cached :: "bytes option \<Rightarrow> bool \<Rightarrow> norm \<Rightarrow> bool" where
  "fully_cached cache multi st =
     (cache \<noteq> None \<and> \<not> multi \<and>
      (case (n_crec st, n_last st) of (Some (key, _), Some (last_key, _)) \<Rightarrow> key = last_key | _ \<Rightarrow> False))"

text \<open>Otherwise the transformations run, from the last cached one on when the operator is only invoked at the end.\<close>

definition run_uncached ::
  "('re, ('re, 'z) exec_rec_scheme) exec_env \<Rightarrow> msre_rule \<Rightarrow> msre_actionset \<Rightarrow> bytes option \<Rightarrow> bool \<Rightarrow> norm \<Rightarrow> msre_var \<Rightarrow> nat \<Rightarrow>
    ('re, 'z) exec_rec_scheme \<Rightarrow> ((int + nat) \<times> ('re, 'z) exec_rec_scheme) option" where
  "run_uncached env rule acting cache multi st var match_count msr = do {
     let last = (if multi then None else n_last st);
     let k = (case last of None \<Rightarrow> 0 | Some _ \<Rightarrow> n_last_cached st);
     let x = \<lparr>x_path = map_option (crec_path \<circ> snd) last, x_last = None,
       x_changed = (case last of None \<Rightarrow> 0 | Some (_, crec) \<Rightarrow> crec_changed crec),
       x_tfnchanged = False, x_matches = match_count\<rparr>;
     let var = (case last of
         None \<Rightarrow> var
       | Some (_, crec) \<Rightarrow>
           if 0 < crec_changed crec then var\<lparr>var_value := crec_val crec, var_len := crec_val_len crec\<rparr> else var);
     value \<leftarrow> (if n_tab st \<noteq> [] then pstrmemdup (var_value var) (var_len var) else Some (var_value var));
     (r, msr) \<leftarrow> run_tfns env rule acting cache multi (length (n_tab st)) (drop k (n_tab st)) k
       (var\<lparr>var_value := value\<rparr>) x msr;
     case r of
       Inl rc \<Rightarrow> Some (Inl rc, msr)
     | Inr (var, x) \<Rightarrow>
         if \<not> multi \<or> x_changed x \<noteq> 0 then invoke env rule acting var (x_matches x) msr
         else Some (Inr (x_matches x), msr) }"

definition process_target ::
  "('re, ('re, 'z) exec_rec_scheme) exec_env \<Rightarrow> msre_rule \<Rightarrow> msre_actionset \<Rightarrow> bool \<Rightarrow> msre_var \<Rightarrow> nat \<Rightarrow>
    ('re, 'z) exec_rec_scheme \<Rightarrow> ((int + nat) \<times> ('re, 'z) exec_rec_scheme) option" where
  "process_target env rule acting multi var match_count msr = do {
     as \<leftarrow> rule_actionset rule;
     (cache, msr) \<leftarrow> cache_open (ex_pointer_size env) msr var;
     st \<leftarrow> norm_build (case cache of None \<Rightarrow> None | Some ck \<Rightarrow> tcache msr ck) (as_actions as) norm_start;
     if fully_cached cache multi st
     then do {
       (key, crec) \<leftarrow> n_crec st;
       value \<leftarrow> (if crec_changed crec \<noteq> 0 then pmemdup (crec_val crec) (crec_val_len crec) else Some (var_value var));
       let var = (if crec_changed crec \<noteq> 0 then var\<lparr>var_value := value, var_len := crec_val_len crec\<rparr> else var);
       invoke env rule acting var match_count msr }
     else run_uncached env rule acting cache multi st var match_count msr }"

fun process_targets ::
  "('re, ('re, 'z) exec_rec_scheme) exec_env \<Rightarrow> msre_rule \<Rightarrow> msre_actionset \<Rightarrow> bool \<Rightarrow> (bytes \<times> msre_var) list \<Rightarrow> nat \<Rightarrow>
    ('re, 'z) exec_rec_scheme \<Rightarrow> (int \<times> ('re, 'z) exec_rec_scheme) option" where
  "process_targets env rule acting multi [] match_count msr =
     Some (if match_count \<noteq> 0 then RULE_MATCH else RULE_NO_MATCH, msr)"
| "process_targets env rule acting multi ((key, var) # tartab) match_count msr = do {
     (r, msr) \<leftarrow> process_target env rule acting multi var match_count msr;
     case r of
       Inl rc \<Rightarrow> Some (rc, msr)
     | Inr match_count \<Rightarrow> process_targets env rule acting multi tartab match_count msr }"

section \<open>A rule\<close>

text \<open>\<^verbatim>\<open>apr_psprintf(mptmp, "%d", n)\<close>\<close>

definition dec_of_int :: "int \<Rightarrow> bytes" where
  "dec_of_int n = (if n < 0 then 45 # decstr (nat (- n)) else decstr (nat n))"

definition counted :: "msre_var \<Rightarrow> int \<Rightarrow> msre_var" where
  "counted target n = target\<lparr>var_value := dec_of_int n @ [0], var_len := length (dec_of_int n)\<rparr>"

fun expand_targets ::
  "('re, 'm) exec_env \<Rightarrow> msre_rule \<Rightarrow> msre_var list \<Rightarrow> (bytes \<times> msre_var) list \<Rightarrow> 'm \<Rightarrow> (bytes \<times> msre_var) list \<times> 'm" where
  "expand_targets env rule [] tartab msr = (tartab, msr)"
| "expand_targets env rule (target # targets) tartab msr =
     (case ex_generate env target rule msr of (list_count, vartab, msr) \<Rightarrow>
        expand_targets env rule targets
          (if var_counting target then tartab @ [(var_name target, counted target list_count)]
           else if \<not> var_negated target then tartab @ vartab
           else filter (\<lambda>(key, _). \<not> list_ex (\<lambda>(key', _). ci_equal key' key) vartab) tartab)
          msr)"

definition msre_rule_process_normal ::
  "('re, ('re, 'z) exec_rec_scheme) exec_env \<Rightarrow> msre_rule \<Rightarrow> ('re, 'z) exec_rec_scheme \<Rightarrow>
    (int \<times> ('re, 'z) exec_rec_scheme) option" where
  "msre_rule_process_normal env rule msr = do {
     as \<leftarrow> rule_actionset rule;
     let acting = (case rule_chain_starter rule of None \<Rightarrow> as | Some starter \<Rightarrow> starter);
     let multi = list_ex (\<lambda>a. case a of None \<Rightarrow> False | Some a \<Rightarrow>
       (case action_name a of None \<Rightarrow> False | Some name \<Rightarrow> ci_equal name multi_match_name)) (as_actions as);
     (case expand_targets env rule (rule_targets rule) [] msr of (tartab, msr) \<Rightarrow>
        process_targets env rule acting multi tartab 0 msr) }"

end
