(* ===== verification/TransformCache.thy ===== *)
theory TransformCache
  imports RuleExec
begin

text \<open>
  The transformation pipeline and its cache: when the cache tables hold results of the value at hand, the operator
  sees the composition of the transformations, whatever part of it was cached. The theory also shows where the cache
  of \<^verbatim>\<open>apache2/re.c\<close> breaks that condition.
\<close>

section \<open>Contracts\<close>

text \<open>What a transformation has to do for the pipeline: compute the function \<open>g\<close> on every NUL-terminated string,
  leave the result NUL-terminated, and return 0 only for an unchanged value.\<close>

definition tfn_computes :: "tfn \<Rightarrow> (bytes \<Rightarrow> bytes) \<Rightarrow> bool" where
  "tfn_computes f g \<longleftrightarrow>
     (\<forall>xs rest. \<exists>ret b off rest'. f (xs @ 0 # rest) (length xs) = Some (ret, b, off, length (g xs)) \<and>
        drop off b = g xs @ 0 # rest' \<and> 0 \<le> ret \<and> (ret = 0 \<longrightarrow> g xs = xs))"

text \<open>The meaning \<open>D\<close> of the transformations, by their names in lower case.\<close>

definition tname :: "msre_action \<Rightarrow> bytes" where
  "tname a = map c_tolower (the (action_param a))"

definition t_ok :: "(bytes \<Rightarrow> bytes \<Rightarrow> bytes) \<Rightarrow> msre_action \<Rightarrow> bool" where
  "t_ok D a \<longleftrightarrow>
     (case (action_param a, action_tfn a) of
        (Some p, Some f) \<Rightarrow> p \<noteq> [] \<and> 44 \<notin> set p \<and> tfn_computes f (D (map c_tolower p))
      | _ \<Rightarrow> False)"

definition compose :: "(bytes \<Rightarrow> bytes \<Rightarrow> bytes) \<Rightarrow> bytes list \<Rightarrow> bytes \<Rightarrow> bytes" where
  "compose D names v = fold D names v"

fun join :: "bytes list \<Rightarrow> bytes" where
  "join [] = []"
| "join [n] = n"
| "join (n # ns) = n @ 44 # join ns"

text \<open>A cache record is right for the value \<open>v\<close> and the transformations \<open>names\<close>.\<close>

definition crec_ok :: "(bytes \<Rightarrow> bytes \<Rightarrow> bytes) \<Rightarrow> bytes \<Rightarrow> bytes list \<Rightarrow> msre_cache_rec \<Rightarrow> bool" where
  "crec_ok D v names crec \<longleftrightarrow>
     map c_tolower (crec_path crec) = join names \<and>
     (if crec_changed crec = 0 then compose D names v = v
      else crec_val_len crec = length (compose D names v) \<and>
        pmemdup (crec_val crec) (crec_val_len crec) = Some (compose D names v))"

definition names_ok :: "bytes list \<Rightarrow> bool" where
  "names_ok names \<longleftrightarrow> names \<noteq> [] \<and> list_all (\<lambda>n. n \<noteq> [] \<and> 44 \<notin> set n) names"

definition table_ok :: "(bytes \<Rightarrow> bytes \<Rightarrow> bytes) \<Rightarrow> bytes \<Rightarrow> cachetab \<Rightarrow> bool" where
  "table_ok D v tab \<longleftrightarrow>
     (\<forall>names crec. names_ok names \<longrightarrow> tab (cache_key (length names) (join names)) = Some crec \<longrightarrow> crec_ok D v names crec)"

section \<open>Cache keys\<close>

lemma c_tolower_44 [simp]: "c_tolower c = 44 \<longleftrightarrow> c = 44"
  using c_tolower_idem [of c] by (auto simp: c_tolower_def c_isupper_def split: if_splits)

lemma hexstr_digits: "c \<in> set (hexstr n) \<Longrightarrow> c \<noteq> 59 \<and> c_tolower c = c"
proof (induction n rule: hexstr.induct)
  case (1 d)
  have "list_all (\<lambda>c. c \<noteq> 59 \<and> c_tolower c = c) c2x_table" "length c2x_table = 16"
    by (simp_all add: c2x_table_def c_tolower_def c_isupper_def)
  then have "hex_digit k \<noteq> 59 \<and> c_tolower (hex_digit k) = hex_digit k" if "k < 16" for k
    using that by (simp add: hex_digit_def list_all_length)
  then show ?case using 1 by (auto simp: hexstr.simps [of d] split: if_splits)
qed

lemma cache_key_lower: "map c_tolower (cache_key n path) = cache_key n (map c_tolower path)"
proof -
  have "map c_tolower (hexstr n) = hexstr n" using hexstr_digits by (intro map_idI) blast
  then show ?thesis by (simp add: cache_key_def c_tolower_def c_isupper_def)
qed

lemma cache_key_inj:
  assumes "cache_key m p = cache_key n q"
  shows "p = q"
proof -
  have "dropWhile (\<lambda>c. c \<noteq> 59) (cache_key m r) = 59 # r" for m r
    using hexstr_digits [of _ m] by (auto simp: cache_key_def dropWhile_append)
  then show ?thesis using assms by (metis list.inject)
qed

lemma join_Cons: "ns \<noteq> [] \<Longrightarrow> join (n # ns) = n @ 44 # join ns"
  by (cases ns) auto

lemma join_snoc: "ns \<noteq> [] \<Longrightarrow> join (ns @ [n]) = join ns @ 44 # n"
  by (induction ns rule: join.induct) (auto simp: join_Cons)

lemma split_at_sep: "sep \<notin> set x \<Longrightarrow> sep \<notin> set y \<Longrightarrow> x @ sep # xs = y @ sep # ys \<Longrightarrow> x = y \<and> xs = ys"
  by (induction x arbitrary: y) (case_tac y; auto)+

lemma join_inj:
  assumes "names_ok ns" "names_ok ms" "join ns = join ms"
  shows "ns = ms"
  using assms
proof (induction ns arbitrary: ms)
  case (Cons n ns)
  then obtain m ms' where ms: "ms = m # ms'" by (cases ms) (auto simp: names_ok_def)
  have sep: "44 \<notin> set n" "44 \<notin> set m" using Cons.prems ms by (auto simp: names_ok_def)
  show ?case
  proof (cases "ns = []")
    case True
    then have "44 \<notin> set (join ms)" using Cons.prems(3) sep by auto
    then have "ms' = []" using ms by (cases ms') auto
    then show ?thesis using True Cons.prems(3) ms by simp
  next
    case False
    then have "44 \<in> set (join (n # ns))" by (simp add: join_Cons)
    then have ms': "ms' \<noteq> []" using Cons.prems(3) ms sep by (cases ms') auto
    have "n = m \<and> join ns = join ms'"
      using Cons.prems(3) ms False ms' split_at_sep [OF sep] by (simp add: join_Cons)
    then show ?thesis using Cons.IH [of ms'] Cons.prems ms False ms' by (auto simp: names_ok_def)
  qed
qed (simp add: names_ok_def)

lemma extend_path_names:
  assumes "map_option (map c_tolower) path = (if ns = [] then None else Some (join ns))"
  shows "map c_tolower (extend_path path p) = join (ns @ [map c_tolower p])"
  using assms by (cases path; cases "ns = []") (auto simp: extend_path_def join_snoc c_tolower_def [of 44] c_isupper_def)

text \<open>A right record keeps the table right.\<close>

lemma table_ok_tset:
  assumes "table_ok D v tab" "names_ok ns" "crec_ok D v ns crec" "map c_tolower key = cache_key (length ns) (join ns)"
  shows "table_ok D v (tset tab key crec)"
  unfolding table_ok_def
proof (intro allI impI)
  fix names c
  assume n: "names_ok names" and c: "tset tab key crec (cache_key (length names) (join names)) = Some c"
  show "crec_ok D v names c"
  proof (cases "cache_key (length names) (join names) = cache_key (length ns) (join ns)")
    case True
    then have "names = ns" using cache_key_inj join_inj [OF n assms(2)] by blast
    then show ?thesis using c assms by (simp add: tset_def)
  next
    case False
    then show ?thesis using c n assms by (auto simp: tset_def table_ok_def split: if_splits)
  qed
qed


section \<open>The list of transformations\<close>

text \<open>The transformations of a rule: what follows the last \<^verbatim>\<open>t:none\<close>.\<close>

fun final_tfns :: "msre_action option list \<Rightarrow> msre_action list \<Rightarrow> msre_action list" where
  "final_tfns [] acc = acc"
| "final_tfns (None # as) acc = final_tfns as acc"
| "final_tfns (Some a # as) acc =
     final_tfns as (if action_name a = Some t_name then (if action_param a = Some none_name then [] else acc @ [a]) else acc)"

text \<open>A rule whose transformations are known and none of which is removed again with a minus sign.\<close>

definition tfns_ok :: "(bytes \<Rightarrow> bytes \<Rightarrow> bytes) \<Rightarrow> msre_action option list \<Rightarrow> bool" where
  "tfns_ok D as \<longleftrightarrow>
     list_all (\<lambda>action. case action of None \<Rightarrow> False
       | Some a \<Rightarrow> action_name a \<noteq> None \<and>
           (action_name a = Some t_name \<longrightarrow> action_param a = Some none_name \<or> t_ok D a \<and> \<not> action_negative a)) as"

definition norm_inv :: "(bytes \<Rightarrow> bytes \<Rightarrow> bytes) \<Rightarrow> bytes \<Rightarrow> cachetab option \<Rightarrow> norm \<Rightarrow> bool" where
  "norm_inv D v tab st \<longleftrightarrow>
     (let names = map tname (n_tab st) in
      list_all (t_ok D) (n_tab st) \<and> n_count st = length names \<and>
      (tab \<noteq> None \<longrightarrow> map_option (map c_tolower) (n_path st) = (if names = [] then None else Some (join names))) \<and>
      (tab = None \<longrightarrow> n_crec st = None \<and> n_last st = None) \<and>
      (case n_last st of None \<Rightarrow> True
       | Some (key, crec) \<Rightarrow> 0 < n_last_cached st \<and> n_last_cached st \<le> length names \<and>
           crec_ok D v (take (n_last_cached st) names) crec \<and>
           (\<forall>key crec. n_crec st = Some (key, crec) \<longrightarrow> crec_ok D v names crec)))"

lemma t_okD:
  assumes "t_ok D a"
  obtains p f where "action_param a = Some p" "action_tfn a = Some f" "p \<noteq> []" "44 \<notin> set p"
    "tfn_computes f (D (tname a))"
  using assms by (auto simp: t_ok_def tname_def split: option.splits)

lemma t_ok_names:
  assumes "list_all (t_ok D) as" "as \<noteq> []"
  shows "names_ok (map tname as)"
proof -
  have comma: "44 \<in> set (map c_tolower p) \<longleftrightarrow> 44 \<in> set p" for p
    by (induction p) (simp_all add: eq_commute [of 44])
  have "tname a \<noteq> [] \<and> 44 \<notin> set (tname a)" if "t_ok D a" for a
    using that by (rule t_okD) (simp add: tname_def comma del: set_map)
  then show ?thesis using assms by (simp add: names_ok_def list_all_iff)
qed

lemma norm_step_inv:
  assumes "norm_inv D v tab st" "t_ok D a" "\<not> action_negative a" "action_param a \<noteq> Some none_name"
    "case tab of None \<Rightarrow> True | Some tab \<Rightarrow> table_ok D v tab"
  shows "\<exists>st'. norm_step tab a st = Some st' \<and> norm_inv D v tab st' \<and> n_tab st' = n_tab st @ [a]"
proof -
  obtain p f where p: "action_param a = Some p" "action_tfn a = Some f"
    using assms(2) by (auto simp: t_ok_def split: option.splits)
  have tn: "map c_tolower p = tname a" using p by (simp add: tname_def)
  let ?names = "map tname (n_tab st)"
  have all: "list_all (t_ok D) (n_tab st @ [a])" using assms(1,2) by (simp add: norm_inv_def Let_def)
  show ?thesis
  proof (cases tab)
    case None
    then show ?thesis using assms(1,3,4) p all by (auto simp: norm_step_def norm_inv_def Let_def)
  next
    case (Some t)
    let ?path = "extend_path (n_path st) p" and ?n = "Suc (n_count st)"
    have path: "map c_tolower ?path = join (?names @ [tname a])"
      using extend_path_names [of "n_path st" ?names p] assms(1) Some tn by (auto simp: norm_inv_def Let_def)
    have key: "map c_tolower (cache_key ?n ?path) = cache_key (length (?names @ [tname a])) (join (?names @ [tname a]))"
      using path assms(1) by (simp add: cache_key_lower norm_inv_def Let_def)
    have hit: "crec_ok D v (?names @ [tname a]) c" if "tget t (cache_key ?n ?path) = Some c" for c
      using that assms(5) Some t_ok_names [OF all] by (simp add: tget_def key table_ok_def)
    show ?thesis
    proof (cases "tget t (cache_key ?n ?path)")
      case None
      then show ?thesis using assms(1,3,4) p all path Some
        by (auto simp: norm_step_def norm_inv_def Let_def split: option.splits)
    next
      case hit': (Some c)
      then show ?thesis using assms(1,3,4) p all path Some hit [OF hit']
        by (auto simp: norm_step_def norm_inv_def Let_def split: option.splits)
    qed
  qed
qed

lemma norm_build_run:
  assumes "norm_inv D v tab st" "tfns_ok D as" "case tab of None \<Rightarrow> True | Some tab \<Rightarrow> table_ok D v tab"
  shows "\<exists>st'. norm_build tab as st = Some st' \<and> norm_inv D v tab st' \<and> n_tab st' = final_tfns as (n_tab st)"
  using assms(1,2)
proof (induction as arbitrary: st)
  case (Cons action as)
  then obtain a name where a: "action = Some a" "action_name a = Some name"
    by (auto simp: tfns_ok_def split: option.splits)
  have rest: "tfns_ok D as" using Cons.prems(2) by (simp add: tfns_ok_def)
  have "\<exists>st2. (if name = t_name then norm_step tab a st else Some st) = Some st2 \<and> norm_inv D v tab st2 \<and>
      n_tab st2 = (if name = t_name then (if action_param a = Some none_name then [] else n_tab st @ [a]) else n_tab st)"
  proof (cases "name = t_name \<and> action_param a \<noteq> Some none_name")
    case True
    then have "t_ok D a" "\<not> action_negative a" using Cons.prems(2) a by (auto simp: tfns_ok_def)
    then show ?thesis using norm_step_inv [OF Cons.prems(1) _ _ _ assms(3)] True by auto
  next
    case False
    then show ?thesis using Cons.prems(1) by (auto simp: norm_step_def norm_inv_def Let_def)
  qed
  then obtain st2 where st2: "(if name = t_name then norm_step tab a st else Some st) = Some st2" "norm_inv D v tab st2"
      "n_tab st2 = (if name = t_name then (if action_param a = Some none_name then [] else n_tab st @ [a]) else n_tab st)"
    by blast
  show ?case using Cons.IH [OF st2(2) rest] st2(1,3) a by auto
qed simp


section \<open>The loop\<close>

text \<open>What is visible of a variable, and that its value is followed by a NUL.\<close>

definition holds :: "msre_var \<Rightarrow> bytes \<Rightarrow> bool" where
  "holds var xs \<longleftrightarrow> var_len var = length xs \<and> (\<exists>rest. var_value var = xs @ 0 # rest)"

definition full :: "('re, 'z) exec_rec_scheme \<Rightarrow> bool" where
  "full msr \<longleftrightarrow> cache_trans_maxitems msr \<noteq> 0 \<and> cache_trans_maxitems msr \<le> tcache_items msr"

text \<open>Only the cache changed, and in it only the table \<open>ck\<close>, which is still right.\<close>

definition only_cache ::
  "(bytes \<Rightarrow> bytes \<Rightarrow> bytes) \<Rightarrow> bytes \<Rightarrow> bytes option \<Rightarrow> ('re, 'z) exec_rec_scheme \<Rightarrow> ('re, 'z) exec_rec_scheme \<Rightarrow> bool" where
  "only_cache D v cache msr msr' \<longleftrightarrow>
     (\<exists>tc items. msr' = msr\<lparr>tcache := tc, tcache_items := items\<rparr> \<and>
        (case cache of None \<Rightarrow> tc = tcache msr \<and> items = tcache_items msr
         | Some ck \<Rightarrow> (\<forall>k. k \<noteq> ck \<longrightarrow> tc k = tcache msr k) \<and> (\<exists>tab. tc ck = Some tab \<and> table_ok D v tab)))"

definition cache_ready :: "(bytes \<Rightarrow> bytes \<Rightarrow> bytes) \<Rightarrow> bytes \<Rightarrow> bytes option \<Rightarrow> ('re, 'z) exec_rec_scheme \<Rightarrow> bool" where
  "cache_ready D v cache msr \<longleftrightarrow>
     (case cache of None \<Rightarrow> True | Some ck \<Rightarrow> (\<exists>tab. tcache msr ck = Some tab \<and> table_ok D v tab))"

text \<open>The locals after the transformations \<open>names\<close>; \<open>final\<close> says that none is left.\<close>

definition x_inv ::
  "(bytes \<Rightarrow> bytes \<Rightarrow> bytes) \<Rightarrow> bytes \<Rightarrow> bytes option \<Rightarrow> bytes list \<Rightarrow> bool \<Rightarrow> ('re, 'z) exec_rec_scheme \<Rightarrow> xform \<Rightarrow> bool" where
  "x_inv D v cache names final msr x \<longleftrightarrow>
     (x_changed x = 0 \<longrightarrow> compose D names v = v) \<and> (cache = None \<longrightarrow> x_last x = None) \<and>
     (cache \<noteq> None \<longrightarrow> map_option (map c_tolower) (x_path x) = (if names = [] then None else Some (join names))) \<and>
     (case x_last x of None \<Rightarrow> True
      | Some (lv, ll) \<Rightarrow> x_changed x \<noteq> 0 \<and>
          (final \<or> full msr \<or>
           cache_trans_incremental msr \<and> ll = length (compose D names v) \<and> pmemdup lv ll = Some (compose D names v)))"

lemma compose_snoc: "compose D (ns @ [n]) v = D n (compose D ns v)"
  by (simp add: compose_def)

lemma holds_pmemdup: "holds var xs \<Longrightarrow> pmemdup (var_value var) (var_len var) = Some xs"
  by (auto simp: holds_def pmemdup_def)

lemma cache_store_full:
  "full msr \<Longrightarrow> cache_store ck n k p var x msr =
     Some (x\<lparr>x_path := Some (extend_path (x_path x) p)\<rparr>,
       if tcache_items msr = cache_trans_maxitems msr then msr\<lparr>tcache_items := tcache_items msr + 1\<rparr> else msr)"
  unfolding cache_store_def Let_def full_def [symmetric] by simp

lemma cache_store_skip:
  "\<not> full msr \<Longrightarrow> \<not> (cache_trans_incremental msr \<or> Suc k = n) \<Longrightarrow>
   cache_store ck n k p var x msr = Some (x\<lparr>x_path := Some (extend_path (x_path x) p)\<rparr>, msr)"
  unfolding cache_store_def Let_def full_def [symmetric] by simp

lemma cached_copy_path [simp]: "cached_copy (x\<lparr>x_path := q\<rparr>) var = cached_copy x var"
  by (simp add: cached_copy_def split: option.splits)

lemma pmemdup_all [simp]: "pmemdup xs (length xs) = Some xs"
  by (simp add: pmemdup_def)

lemma cache_store_new:
  "\<not> full msr \<Longrightarrow> cache_trans_incremental msr \<or> Suc k = n \<Longrightarrow> tcache msr ck = Some tab \<Longrightarrow>
   cached_copy x var = Some (val, len) \<Longrightarrow>
   cache_store ck n k p var x msr =
     (let path = extend_path (x_path x) p;
          crec = \<lparr>crec_changed = x_changed x, crec_num = k + 1, crec_path = path, crec_val = val,
            crec_val_len = (if x_changed x \<noteq> 0 then len else 0)\<rparr>;
          x = x\<lparr>x_path := Some path\<rparr>
      in Some (if x_tfnchanged x then x\<lparr>x_last := Some (val, crec_val_len crec)\<rparr> else x,
        msr\<lparr>tcache_items := tcache_items msr + 1, tcache := (tcache msr)(ck \<mapsto> tset tab (cache_key (k + 1) path) crec)\<rparr>))"
  unfolding cache_store_def Let_def full_def [symmetric] by (cases "cache_trans_incremental msr") simp_all

text \<open>One step of the cache.\<close>

lemma cache_store_run:
  assumes "x_inv D v (Some ck) ns False msr x" "cache_ready D v (Some ck) msr" "length ns = k"
    "t_ok D a" "action_param a = Some p" "names_ok (ns @ [tname a])"
    "holds var (compose D (ns @ [tname a]) v)" "k < n"
    "x' = x\<lparr>x_tfnchanged := tc, x_changed := (if tc then x_changed x + 1 else x_changed x)\<rparr>"
    "\<not> tc \<longrightarrow> compose D (ns @ [tname a]) v = compose D ns v"
  shows "\<exists>x'' msr'. cache_store ck n k p var x' msr = Some (x'', msr') \<and> only_cache D v (Some ck) msr msr' \<and>
     cache_ready D v (Some ck) msr' \<and> x_inv D v (Some ck) (ns @ [tname a]) (Suc k = n) msr' x'' \<and> x_matches x'' = x_matches x"
proof -
  obtain tab where tab: "tcache msr ck = Some tab" "table_ok D v tab" using assms(2) by (auto simp: cache_ready_def)
  let ?names = "ns @ [tname a]" and ?path = "extend_path (x_path x) p"
  let ?r = "compose D ?names v"
  have tn: "map c_tolower p = tname a" using assms(5) by (simp add: tname_def)
  have path: "map c_tolower ?path = join ?names"
    using extend_path_names [of "x_path x" ns p] assms(1) tn by (simp add: x_inv_def)
  have key: "map c_tolower (cache_key (Suc k) ?path) = cache_key (length ?names) (join ?names)"
    using path assms(3) by (simp add: cache_key_lower)
  have dup: "pmemdup (var_value var) (var_len var) = Some ?r" "var_len var = length ?r"
    using holds_pmemdup [OF assms(7)] assms(7) by (auto simp: holds_def)
  have changed0: "x_changed x' = 0 \<longrightarrow> ?r = v"
    using assms(1,9,10) by (auto simp: x_inv_def split: if_splits)
  consider (full) "full msr" | (skip) "\<not> full msr" "\<not> (cache_trans_incremental msr \<or> Suc k = n)"
    | (store) "\<not> full msr" "cache_trans_incremental msr \<or> Suc k = n" by blast
  then show ?thesis
  proof cases
    case full
    let ?msr' = "if tcache_items msr = cache_trans_maxitems msr then msr\<lparr>tcache_items := tcache_items msr + 1\<rparr> else msr"
    have "cache_store ck n k p var x' msr = Some (x'\<lparr>x_path := Some ?path\<rparr>, ?msr')"
      using full assms(9) by (simp add: cache_store_full)
    moreover have "only_cache D v (Some ck) msr ?msr'"
      using tab by (cases msr) (auto simp: only_cache_def)
    moreover have "x_inv D v (Some ck) ?names (Suc k = n) ?msr' (x'\<lparr>x_path := Some ?path\<rparr>)"
      using full changed0 path assms(1,9) by (auto simp: x_inv_def full_def split: option.splits)
    ultimately show ?thesis using tab assms(9) by (auto simp: cache_ready_def)
  next
    case skip
    have "cache_store ck n k p var x' msr = Some (x'\<lparr>x_path := Some ?path\<rparr>, msr)"
      using skip assms(9) by (simp add: cache_store_skip)
    moreover have "only_cache D v (Some ck) msr msr"
      using tab by (cases msr) (auto simp: only_cache_def)
    moreover have "x_inv D v (Some ck) ?names (Suc k = n) msr (x'\<lparr>x_path := Some ?path\<rparr>)"
      using skip changed0 path assms(1,9) by (auto simp: x_inv_def split: option.splits)
    ultimately show ?thesis using tab assms(9) by (auto simp: cache_ready_def)
  next
    case store
    define val where "val = (case x_last x of None \<Rightarrow> ?r | Some (lv, ll) \<Rightarrow> if tc then ?r else lv)"
    have old: "compose D ns v = ?r" "x_changed x \<noteq> 0" "ll = length ?r" "pmemdup lv ll = Some ?r" "cache_trans_incremental msr"
      if "x_last x = Some (lv, ll)" "\<not> tc" for lv ll
      using that assms(1,10) store(1) by (auto simp: x_inv_def)
    let ?crec = "\<lparr>crec_changed = x_changed x', crec_num = k + 1, crec_path = ?path, crec_val = val,
      crec_val_len = (if x_changed x' \<noteq> 0 then length ?r else 0)\<rparr>"
    let ?x = "x'\<lparr>x_path := Some ?path\<rparr>"
    let ?x' = "if tc then ?x\<lparr>x_last := Some (val, crec_val_len ?crec)\<rparr> else ?x"
    let ?msr' = "msr\<lparr>tcache_items := tcache_items msr + 1,
      tcache := (tcache msr)(ck \<mapsto> tset tab (cache_key (k + 1) ?path) ?crec)\<rparr>"
    have run: "cache_store ck n k p var x' msr = Some (?x', ?msr')"
    proof -
      have "cached_copy x' var = Some (val, length ?r)"
        using assms(9) dup old by (auto simp: cached_copy_def val_def split: option.splits)
      moreover have "x_path x' = x_path x" "x_tfnchanged x' = tc" using assms(9) by simp_all
      ultimately show ?thesis
        using cache_store_new [OF store tab(1), of x' var val "length ?r" p] by (simp add: Let_def split del: if_split cong: if_cong)
    qed
    have val: "pmemdup val (length ?r) = Some ?r"
      using old by (auto simp: val_def split: option.splits)
    have "crec_ok D v ?names ?crec"
      using path changed0 val by (simp add: crec_ok_def)
    then have "table_ok D v (tset tab (cache_key (k + 1) ?path) ?crec)"
      using table_ok_tset [OF tab(2) assms(6) _ key, of ?crec] by simp
    moreover from this have "only_cache D v (Some ck) msr ?msr'"
      by (cases msr) (auto simp: only_cache_def)
    moreover have "x_inv D v (Some ck) ?names (Suc k = n) ?msr' ?x'"
      using store old changed0 path assms(9) val by (auto simp: x_inv_def split: option.splits)
    ultimately show ?thesis using run assms(9) by (auto simp: cache_ready_def)
  qed
qed


lemma only_cache_trans:
  "only_cache D v cache m1 m2 \<Longrightarrow> only_cache D v cache m2 m3 \<Longrightarrow> only_cache D v cache m1 m3"
  by (cases m1) (auto simp: only_cache_def split: option.splits)

lemma only_cache_refl: "cache_ready D v cache m \<Longrightarrow> only_cache D v cache m m"
  by (cases m) (auto simp: only_cache_def cache_ready_def split: option.splits)

text \<open>The loop without \<^verbatim>\<open>multiMatch\<close>: it computes the rest of the composition.\<close>

lemma run_tfns_run:
  assumes "list_all (t_ok D) as" "list_all (t_ok D) bs" "k = length bs" "n = k + length as"
    "x_inv D v cache (map tname bs) (as = []) msr x" "cache_ready D v cache msr" "holds var (compose D (map tname bs) v)"
  shows "\<exists>var' x' msr'. run_tfns env rule acting cache False n as k var x msr = Some (Inr (var', x'), msr') \<and>
     only_cache D v cache msr msr' \<and> holds var' (compose D (map tname (bs @ as)) v) \<and> x_matches x' = x_matches x \<and>
     (\<exists>b len. var' = var\<lparr>var_value := b, var_len := len\<rparr>)"
  using assms
proof (induction as arbitrary: bs k var x msr)
  case Nil
  then show ?case by (cases var) (auto intro: only_cache_refl)
next
  case (Cons a as)
  let ?ns = "map tname bs" and ?r = "compose D (map tname bs) v"
  have a: "t_ok D a" using Cons.prems(1) by simp
  then obtain p f where pf: "action_param a = Some p" "action_tfn a = Some f" "tfn_computes f (D (tname a))"
    by (rule t_okD)
  obtain rest where val: "var_value var = ?r @ 0 # rest" "var_len var = length ?r"
    using Cons.prems(7) by (auto simp: holds_def)
  obtain ret b off rest' where f: "f (?r @ 0 # rest) (length ?r) = Some (ret, b, off, length (D (tname a) ?r))"
    "drop off b = D (tname a) ?r @ 0 # rest'" "0 \<le> ret" "ret = 0 \<longrightarrow> D (tname a) ?r = ?r"
    using pf(3) by (fastforce simp: tfn_computes_def)
  let ?x = "x\<lparr>x_tfnchanged := ret \<noteq> 0, x_changed := (if ret \<noteq> 0 then x_changed x + 1 else x_changed x)\<rparr>"
  let ?var = "var\<lparr>var_value := drop off b, var_len := length (D (tname a) ?r)\<rparr>"
  have names: "map tname (bs @ [a]) = ?ns @ [tname a]" by simp
  have h: "holds ?var (compose D (?ns @ [tname a]) v)" using f by (auto simp: holds_def compose_snoc)
  have step: "run_tfns env rule acting cache False n (a # as) k var x msr =
      Option.bind (case cache of None \<Rightarrow> Some (?x, msr) | Some ck \<Rightarrow> cache_store ck n k p ?var ?x msr)
        (\<lambda>(x, msr). run_tfns env rule acting cache False n as (k + 1) ?var x msr)"
    using f pf val by (simp add: Let_def split del: if_split)
  have "\<exists>x'' msr'. (case cache of None \<Rightarrow> Some (?x, msr) | Some ck \<Rightarrow> cache_store ck n k p ?var ?x msr) = Some (x'', msr') \<and>
      only_cache D v cache msr msr' \<and> cache_ready D v cache msr' \<and> x_inv D v cache (?ns @ [tname a]) (as = []) msr' x'' \<and>
      x_matches x'' = x_matches x"
  proof (cases cache)
    case None
    have "x_inv D v cache (?ns @ [tname a]) (as = []) msr ?x"
      using None Cons.prems(5) f(4) by (auto simp: x_inv_def compose_snoc)
    then show ?thesis using None Cons.prems(6) by (auto intro: only_cache_refl)
  next
    case (Some ck)
    have "\<exists>x'' msr'. cache_store ck n k p ?var ?x msr = Some (x'', msr') \<and> only_cache D v (Some ck) msr msr' \<and>
     cache_ready D v (Some ck) msr' \<and> x_inv D v (Some ck) (?ns @ [tname a]) (Suc k = n) msr' x'' \<and> x_matches x'' = x_matches x"
      by (rule cache_store_run [where tc = "ret \<noteq> 0"])
        (use Cons.prems Some a pf h f t_ok_names [of D "bs @ [a]"] in \<open>simp_all add: compose_snoc\<close>)
    then show ?thesis using Some Cons.prems(4) by simp
  qed
  then obtain x'' msr' where s: "(case cache of None \<Rightarrow> Some (?x, msr) | Some ck \<Rightarrow> cache_store ck n k p ?var ?x msr) = Some (x'', msr')"
      "only_cache D v cache msr msr'" "cache_ready D v cache msr'" "x_inv D v cache (?ns @ [tname a]) (as = []) msr' x''"
      "x_matches x'' = x_matches x"
    by blast
  have "\<exists>var' x' msr2. run_tfns env rule acting cache False n as (k + 1) ?var x'' msr' = Some (Inr (var', x'), msr2) \<and>
     only_cache D v cache msr' msr2 \<and> holds var' (compose D (map tname ((bs @ [a]) @ as)) v) \<and> x_matches x' = x_matches x'' \<and>
     (\<exists>b len. var' = ?var\<lparr>var_value := b, var_len := len\<rparr>)"
    by (rule Cons.IH) (use Cons.prems s h names a in simp_all)
  then show ?case using s only_cache_trans [OF s(2)] step by fastforce
qed


section \<open>A target\<close>

lemma cache_open_run:
  assumes "ex_pointer_size env \<le> length (var_value var)"
    "\<forall>tab. tcache msr (take (ex_pointer_size env) (var_value var)) = Some tab \<longrightarrow> table_ok D v tab"
  shows "\<exists>cache msr'. cache_open (ex_pointer_size env) msr var = Some (cache, msr') \<and> only_cache D v cache msr msr' \<and>
     cache_ready D v cache msr'"
proof (cases "cacheable msr var")
  case True
  let ?ck = "take (ex_pointer_size env) (var_value var)"
  have "table_ok D v Map.empty" by (simp add: table_ok_def)
  then show ?thesis using True assms
    by (cases msr; cases "tcache msr ?ck") (auto simp: cache_open_def pmemdup_def only_cache_def cache_ready_def)
next
  case False
  then show ?thesis by (cases msr) (auto simp: cache_open_def only_cache_def cache_ready_def)
qed

lemma norm_start_inv: "norm_inv D v tab norm_start"
  by (simp add: norm_inv_def norm_start_def Let_def)

lemma run_uncached_run:
  assumes "norm_inv D v tab st" "n_tab st = as" "cache \<noteq> None \<longleftrightarrow> tab \<noteq> None" "cache_ready D v cache msr"
    "pmemdup (var_value var) (var_len var) = Some v" "length v = var_len var"
  shows "\<exists>b msr'. run_uncached env rule acting cache False st var mc msr =
       invoke env rule acting (var\<lparr>var_value := b, var_len := length (compose D (map tname as) v)\<rparr>) mc msr' \<and>
     pmemdup b (length (compose D (map tname as) v)) = Some (compose D (map tname as) v) \<and> only_cache D v cache msr msr'"
proof -
  let ?r = "compose D (map tname as) v"
  define k where "k = (case n_last st of None \<Rightarrow> 0 | Some _ \<Rightarrow> n_last_cached st)"
  define x where "x = \<lparr>x_path = map_option (crec_path \<circ> snd) (n_last st), x_last = None,
      x_changed = (case n_last st of None \<Rightarrow> 0 | Some (_, crec) \<Rightarrow> crec_changed crec), x_tfnchanged = False, x_matches = mc\<rparr>"
  define var0 where "var0 = (case n_last st of None \<Rightarrow> var
      | Some (_, crec) \<Rightarrow> if 0 < crec_changed crec then var\<lparr>var_value := crec_val crec, var_len := crec_val_len crec\<rparr> else var)"
  let ?names = "map tname (take k as)"
  have inv: "list_all (t_ok D) as" using assms(1,2) by (simp add: norm_inv_def Let_def)
  have k: "k \<le> length as" using assms(1,2) by (auto simp: k_def norm_inv_def Let_def split: option.splits)
  have x: "x_inv D v cache ?names final msr x" for final
    using assms(1-3) k
    by (auto simp: x_def k_def x_inv_def norm_inv_def Let_def crec_ok_def compose_def take_map split: option.splits if_splits)
  have var0: "pmemdup (var_value var0) (var_len var0) = Some (compose D ?names v)" "var_len var0 = length (compose D ?names v)"
    using assms(1,2,5,6)
    by (auto simp: var0_def k_def norm_inv_def Let_def crec_ok_def compose_def take_map split: option.splits if_splits)
  have shape: "\<exists>b len. var0 = var\<lparr>var_value := b, var_len := len\<rparr>"
    by (cases var) (auto simp: var0_def split: option.splits)
  have run: "run_uncached env rule acting cache False st var mc msr = do {
      value \<leftarrow> (if as \<noteq> [] then pstrmemdup (var_value var0) (var_len var0) else Some (var_value var0));
      (r, msr) \<leftarrow> run_tfns env rule acting cache False (length as) (drop k as) k (var0\<lparr>var_value := value\<rparr>) x msr;
      case r of
        Inl rc \<Rightarrow> Some (Inl rc, msr)
      | Inr (var, x) \<Rightarrow>
          if \<not> False \<or> x_changed x \<noteq> 0 then invoke env rule acting var (x_matches x) msr
          else Some (Inr (x_matches x), msr) }"
    unfolding run_uncached_def k_def x_def var0_def Let_def assms(2) if_False by (rule refl)
  show ?thesis
  proof (cases "as = []")
    case True
    then show ?thesis
      using run var0 shape assms(4) only_cache_refl [OF assms(4)] k
      by (intro exI [of _ "var_value var0"] exI [of _ msr]) (auto simp: x_def)
  next
    case False
    let ?var = "var0\<lparr>var_value := compose D ?names v @ [0]\<rparr>"
    have "\<exists>var' x' msr'. run_tfns env rule acting cache False (length as) (drop k as) k ?var x msr = Some (Inr (var', x'), msr') \<and>
       only_cache D v cache msr msr' \<and> holds var' (compose D (map tname (take k as @ drop k as)) v) \<and> x_matches x' = x_matches x \<and>
       (\<exists>b len. var' = ?var\<lparr>var_value := b, var_len := len\<rparr>)"
      by (rule run_tfns_run) (use inv k x assms(4) var0 in \<open>auto simp: holds_def list_all_iff dest: in_set_takeD in_set_dropD\<close>)
    then obtain var' x' msr' where r: "run_tfns env rule acting cache False (length as) (drop k as) k ?var x msr =
          Some (Inr (var', x'), msr')" "only_cache D v cache msr msr'" "holds var' ?r" "x_matches x' = x_matches x"
        "\<exists>b len. var' = ?var\<lparr>var_value := b, var_len := len\<rparr>"
      unfolding append_take_drop_id by blast
    have "var' = var\<lparr>var_value := var_value var', var_len := length ?r\<rparr>"
      using r(3,5) shape by (auto simp: holds_def)
    moreover have "pmemdup (var_value var') (length ?r) = Some ?r"
      using r(3) by (auto simp: holds_def pmemdup_def)
    moreover have "run_uncached env rule acting cache False st var mc msr = invoke env rule acting var' mc msr'"
      using run False r(1,4) var0 by (simp add: pstrmemdup_def x_def)
    ultimately show ?thesis using r(2) by metis
  qed
qed

text \<open>The state \<open>msr'\<close> the operator sees differs from \<open>msr\<close> in the cache only.\<close>

lemma process_target_run:
  assumes "rule_actionset rule = Some as" "tfns_ok D (as_actions as)"
    "take (var_len var) (var_value var) = v" "length v = var_len var" "ex_pointer_size env \<le> length (var_value var)"
    "\<forall>tab. tcache msr (take (ex_pointer_size env) (var_value var)) = Some tab \<longrightarrow> table_ok D v tab"
  shows "\<exists>b msr' cache. process_target env rule acting False var mc msr =
       invoke env rule acting
         (var\<lparr>var_value := b, var_len := length (compose D (map tname (final_tfns (as_actions as) [])) v)\<rparr>) mc msr' \<and>
     pmemdup b (length (compose D (map tname (final_tfns (as_actions as) [])) v)) =
       Some (compose D (map tname (final_tfns (as_actions as) [])) v) \<and>
     only_cache D v cache msr msr'"
proof -
  let ?as = "final_tfns (as_actions as) []"
  let ?r = "compose D (map tname ?as) v"
  obtain cache m1 where open_: "cache_open (ex_pointer_size env) msr var = Some (cache, m1)" "only_cache D v cache msr m1"
      "cache_ready D v cache m1"
    using cache_open_run [OF assms(5,6)] by blast
  define tab where "tab = (case cache of None \<Rightarrow> None | Some ck \<Rightarrow> tcache m1 ck)"
  have tab: "case tab of None \<Rightarrow> True | Some tab \<Rightarrow> table_ok D v tab" "cache \<noteq> None \<longleftrightarrow> tab \<noteq> None"
    using open_(3) by (auto simp: tab_def cache_ready_def split: option.splits)
  have "n_tab norm_start = []" by (simp add: norm_start_def)
  then obtain st where st: "norm_build tab (as_actions as) norm_start = Some st" "norm_inv D v tab st" "n_tab st = ?as"
    using norm_build_run [OF norm_start_inv assms(2) tab(1)] by auto
  note open_ = open_ and build = st(1) [unfolded tab_def]
  have v: "pmemdup (var_value var) (var_len var) = Some v"
  proof -
    have "min (length (var_value var)) (var_len var) = var_len var"
      using assms(3,4) length_take [of "var_len var" "var_value var"] by simp
    then show ?thesis using assms(3) by (simp add: pmemdup_def)
  qed
  show ?thesis
  proof (cases "fully_cached cache False st")
    case True
    then obtain key crec where crec: "n_crec st = Some (key, crec)"
      by (auto simp: fully_cached_def split: option.splits)
    have ok: "crec_ok D v (map tname ?as) crec"
      using True st(2,3) crec by (auto simp: norm_inv_def Let_def fully_cached_def split: option.splits)
    have run: "process_target env rule acting False var mc msr = do {
       value \<leftarrow> (if crec_changed crec \<noteq> 0 then pmemdup (crec_val crec) (crec_val_len crec) else Some (var_value var));
       let var = (if crec_changed crec \<noteq> 0 then var\<lparr>var_value := value, var_len := crec_val_len crec\<rparr> else var);
       invoke env rule acting var mc m1 }"
      using True crec open_(1) build assms(1) by (simp add: process_target_def split del: if_split)
    show ?thesis
    proof (cases "crec_changed crec = 0")
      case True
      then have "?r = v" using ok by (simp add: crec_ok_def)
      then show ?thesis
        using True run open_ assms(4) v
        by (intro exI [of _ "var_value var"] exI [of _ m1] exI [of _ cache]) simp
    next
      case False
      then have "crec_val_len crec = length ?r" "pmemdup (crec_val crec) (length ?r) = Some ?r"
        using ok by (auto simp: crec_ok_def)
      then show ?thesis
        using False run open_ by (intro exI [of _ ?r] exI [of _ m1] exI [of _ cache]) simp
    qed
  next
    case False
    have "process_target env rule acting False var mc msr = run_uncached env rule acting cache False st var mc m1"
      using False open_(1) build assms(1) by (simp add: process_target_def)
    then show ?thesis
      using run_uncached_run [OF st(2,3) tab(2) open_(3) v assms(4)] only_cache_trans [OF open_(2)] by metis
  qed
qed


section \<open>Two values in one table\<close>

text \<open>The loop stores its last result under the names of all transformations.\<close>

lemma cache_store_path:
  "cache_store ck n k p var x msr = Some (x', msr') \<Longrightarrow>
   x_path x' = Some (extend_path (x_path x) p) \<and> cache_trans_maxitems msr' = cache_trans_maxitems msr"
  unfolding cache_store_def Let_def by (auto simp: bind_eq_Some_conv split: if_splits)

lemma cache_store_last:
  "cache_store ck n k p var x msr = Some (x', msr') \<Longrightarrow> k + 1 = n \<Longrightarrow> cache_trans_maxitems msr = 0 \<Longrightarrow>
   \<exists>tab crec. tcache msr' ck = Some (tset tab (cache_key (k + 1) (extend_path (x_path x) p)) crec)"
  unfolding cache_store_def Let_def by (auto simp: bind_eq_Some_conv) blast+

lemma run_tfns_stores:
  assumes "run_tfns env rule acting (Some ck) False n as k var x msr = Some (Inr r, msr')" "as \<noteq> []" "n = k + length as"
    "length ns = k" "map_option (map c_tolower) (x_path x) = (if ns = [] then None else Some (join ns))"
    "cache_trans_maxitems msr = 0" "list_all (t_ok D) as"
  shows "\<exists>tab crec. tcache msr' ck = Some tab \<and> tab (cache_key n (join (ns @ map tname as))) = Some crec"
  using assms
proof (induction as arbitrary: ns k var x msr)
  case (Cons a as)
  obtain p where p: "action_param a = Some p" "tname a = map c_tolower p"
    using Cons.prems(7) by (auto simp: t_ok_def tname_def split: option.splits)
  obtain var1 x1 x2 m2 where run: "cache_store ck n k p var1 x1 msr = Some (x2, m2)" "x_path x1 = x_path x"
    "run_tfns env rule acting (Some ck) False n as (k + 1) var1 x2 m2 = Some (Inr r, msr')"
    using Cons.prems(1) p(1) by (fastforce simp: bind_eq_Some_conv Let_def split: prod.splits if_splits)
  have path: "map c_tolower (extend_path (x_path x) p) = join (ns @ [tname a])"
    using extend_path_names [OF Cons.prems(5)] by (simp add: p(2))
  have x2: "map_option (map c_tolower) (x_path x2) = Some (join (ns @ [tname a]))" "cache_trans_maxitems m2 = 0"
    using cache_store_path [OF run(1)] run(2) path Cons.prems(6) by simp_all
  show ?case
  proof (cases "as = []")
    case True
    then have "k + 1 = n" "m2 = msr'" using Cons.prems(3) run(3) by simp_all
    then obtain tab crec where "tcache msr' ck = Some (tset tab (cache_key (k + 1) (extend_path (x_path x) p)) crec)"
      using cache_store_last [OF run(1) _ Cons.prems(6)] run(2) by auto
    moreover have "map c_tolower (cache_key (k + 1) (extend_path (x_path x) p)) = cache_key n (join (ns @ [tname a]))"
      using \<open>k + 1 = n\<close> path by (simp add: cache_key_lower)
    ultimately show ?thesis using True by (auto simp: tset_def)
  next
    case False
    then show ?thesis
      using Cons.IH [OF run(3), of "ns @ [tname a]"] Cons.prems x2 by simp
  qed
qed simp

text \<open>Building the list of transformations finds that record.\<close>

definition norm_hit :: "cachetab \<Rightarrow> norm \<Rightarrow> bool" where
  "norm_hit tab st \<longleftrightarrow> n_tab st = [] \<or>
     (let key = cache_key (length (n_tab st)) (join (map tname (n_tab st))) in
      \<forall>crec. tab key = Some crec \<longrightarrow> n_crec st = Some (key, crec) \<and> n_last st = Some (key, crec))"

lemma norm_step_hit:
  assumes "norm_inv D v (Some tab) st" "t_ok D a" "\<not> action_negative a" "action_param a \<noteq> Some none_name"
    "norm_step (Some tab) a st = Some st'"
  shows "norm_hit tab st'"
proof -
  obtain p where p: "action_param a = Some p" "tname a = map c_tolower p"
    using assms(2) by (auto simp: t_ok_def tname_def split: option.splits)
  let ?names = "map tname (n_tab st)"
  let ?path = "extend_path (n_path st) p" and ?n = "Suc (n_count st)"
  have path: "map c_tolower ?path = join (?names @ [tname a])"
    using extend_path_names [of "n_path st" ?names p] assms(1) by (auto simp: norm_inv_def Let_def p(2))
  have key: "map c_tolower (cache_key ?n ?path) = cache_key (Suc (length (n_tab st))) (join (?names @ [tname a]))"
    using path assms(1) by (simp add: cache_key_lower norm_inv_def Let_def)
  have "st' = (let st = st\<lparr>n_count := ?n, n_tab := n_tab st @ [a], n_path := Some ?path,
      n_crec := map_option (\<lambda>c. (map c_tolower (cache_key ?n ?path), c)) (tget tab (cache_key ?n ?path))\<rparr> in
    if n_crec st \<noteq> None then st\<lparr>n_last := n_crec st, n_last_cached := n_count st\<rparr> else st)"
    using assms(3-5) p(1) by (auto simp: norm_step_def Let_def)
  then show ?thesis by (auto simp: norm_hit_def Let_def tget_def key split: if_splits)
qed

lemma norm_build_hit:
  assumes "norm_inv D v (Some tab) st" "tfns_ok D as" "table_ok D v tab" "norm_hit tab st" "norm_build (Some tab) as st = Some st'"
  shows "norm_hit tab st'"
  using assms
proof (induction as arbitrary: st)
  case (Cons action as)
  obtain a name where a: "action = Some a" "action_name a = Some name"
    using Cons.prems(2) by (auto simp: tfns_ok_def split: option.splits)
  obtain st1 where st1: "(if name = t_name then norm_step (Some tab) a st else Some st) = Some st1"
    "norm_build (Some tab) as st1 = Some st'"
    using Cons.prems(5) a by (auto simp: bind_eq_Some_conv)
  have rest: "tfns_ok D as" using Cons.prems(2) by (simp add: tfns_ok_def)
  have "norm_inv D v (Some tab) st1 \<and> norm_hit tab st1"
  proof (cases "name = t_name \<and> action_param a \<noteq> Some none_name")
    case True
    then have "t_ok D a" "\<not> action_negative a" using Cons.prems(2) a by (auto simp: tfns_ok_def)
    then show ?thesis
      using True st1(1) norm_step_inv [OF Cons.prems(1), of a] norm_step_hit [OF Cons.prems(1), of a st1] Cons.prems(3) by auto
  next
    case False
    then show ?thesis
      using Cons.prems(1,4) st1(1) by (auto simp: norm_step_def norm_inv_def norm_hit_def Let_def split: if_splits)
  qed
  then show ?case using Cons.IH rest Cons.prems(3) st1(2) by blast
qed simp

lemma norm_build_empty:
  "norm_build (Some Map.empty) as st = Some st' \<Longrightarrow> n_last st = None \<Longrightarrow> n_crec st = None \<Longrightarrow> n_last st' = None \<and> n_crec st' = None"
proof (induction as arbitrary: st)
  case (Cons action as)
  then obtain a name st1 where st1: "(if name = t_name then norm_step (Some Map.empty) a st else Some st) = Some st1"
    "norm_build (Some Map.empty) as st1 = Some st'"
    by (auto simp: bind_eq_Some_conv)
  have "n_last st1 = None \<and> n_crec st1 = None"
    using st1(1) Cons.prems(2,3) by (auto simp: norm_step_def bind_eq_Some_conv tget_def Let_def split: if_splits)
  then show ?case using Cons.IH st1(2) by blast
qed simp

text \<open>The first value with its prefix, and what the cache holds when its operator is invoked.\<close>

lemma first_value_run:
  assumes "rule_actionset rule = Some as" "tfns_ok D (as_actions as)" "final_tfns (as_actions as) [] \<noteq> []"
    "holds var v" "ck = take (ex_pointer_size env) (var_value var)" "ex_pointer_size env \<le> length (var_value var)"
    "cacheable msr var" "tcache msr ck = None" "cache_trans_maxitems msr = 0"
  shows "let names = map tname (final_tfns (as_actions as) []) in
    \<exists>b m1 tab crec. process_target env rule acting False var mc msr =
        invoke env rule acting (var\<lparr>var_value := b, var_len := length (compose D names v)\<rparr>) mc m1 \<and>
      pmemdup b (length (compose D names v)) = Some (compose D names v) \<and>
      tcache m1 ck = Some tab \<and> table_ok D v tab \<and> tab (cache_key (length names) (join names)) = Some crec"
proof -
  let ?as = "final_tfns (as_actions as) []"
  let ?names = "map tname ?as"
  let ?m = "msr\<lparr>tcache := (tcache msr)(ck \<mapsto> Map.empty)\<rparr>"
  have dup: "pmemdup (var_value var) (var_len var) = Some v" "var_len var = length v"
    using holds_pmemdup [OF assms(4)] assms(4) by (auto simp: holds_def)
  have open_: "cache_open (ex_pointer_size env) msr var = Some (Some ck, ?m)"
    using assms(5-8) by (simp add: cache_open_def pmemdup_def)
  have empty: "table_ok D v Map.empty" by (simp add: table_ok_def)
  have start: "n_tab norm_start = []" "n_last norm_start = None" "n_crec norm_start = None" by (simp_all add: norm_start_def)
  obtain st where st: "norm_build (Some Map.empty) (as_actions as) norm_start = Some st" "norm_inv D v (Some Map.empty) st" "n_tab st = ?as"
    using norm_build_run [where tab = "Some Map.empty", OF norm_start_inv assms(2), of v] empty start(1) by auto
  have none: "n_last st = None" using norm_build_empty [OF st(1) start(2,3)] by simp
  define x where "x = \<lparr>x_path = None, x_last = None, x_changed = 0, x_tfnchanged = False, x_matches = mc\<rparr>"
  let ?var = "var\<lparr>var_value := v @ [0]\<rparr>"
  have ready: "cache_ready D v (Some ck) ?m" using empty by (simp add: cache_ready_def)
  have all: "list_all (t_ok D) ?as" using st(2,3) by (simp add: norm_inv_def Let_def)
  have "\<exists>var' x' m1. run_tfns env rule acting (Some ck) False (length ?as) ?as 0 ?var x ?m = Some (Inr (var', x'), m1) \<and>
     only_cache D v (Some ck) ?m m1 \<and> holds var' (compose D (map tname ([] @ ?as)) v) \<and> x_matches x' = x_matches x \<and>
     (\<exists>b len. var' = ?var\<lparr>var_value := b, var_len := len\<rparr>)"
    by (rule run_tfns_run)
      (use all ready dup in \<open>auto simp: x_def x_inv_def compose_def holds_def\<close>)
  then obtain var' x' m1 where run': "run_tfns env rule acting (Some ck) False (length ?as) ?as 0 ?var x ?m = Some (Inr (var', x'), m1)"
    "only_cache D v (Some ck) ?m m1" "holds var' (compose D (map tname ([] @ ?as)) v)" "x_matches x' = x_matches x"
    "\<exists>b len. var' = ?var\<lparr>var_value := b, var_len := len\<rparr>"
    by blast
  have r3: "holds var' (compose D ?names v)" using run'(3) by simp
  have r4: "x_matches x' = mc" using run'(4) by (simp add: x_def)
  note r = run'(1,2) r3 r4 run'(5)
  obtain tab crec where tab: "tcache m1 ck = Some tab" "tab (cache_key (length ?as) (join ?names)) = Some crec"
    using run_tfns_stores [OF r(1) assms(3), of "[]" D] all assms(9) by (auto simp: x_def)
  have ok: "table_ok D v tab" using r(2) tab(1) by (auto simp: only_cache_def)
  have "process_target env rule acting False var mc msr = run_uncached env rule acting (Some ck) False st var mc ?m"
    using open_ st(1) assms(1) none by (simp add: process_target_def fully_cached_def split: option.splits)
  also have "\<dots> = invoke env rule acting var' mc m1"
    using none r(1,4) dup assms(3) st(3) by (simp add: run_uncached_def x_def pstrmemdup_def)
  also have "var' = var\<lparr>var_value := var_value var', var_len := length (compose D ?names v)\<rparr>"
    using r(3,5) by (auto simp: holds_def)
  finally have run: "process_target env rule acting False var mc msr =
      invoke env rule acting (var\<lparr>var_value := var_value var', var_len := length (compose D ?names v)\<rparr>) mc m1" .
  have "pmemdup (var_value var') (length (compose D ?names v)) = Some (compose D ?names v)"
    using r(3) by (auto simp: holds_def pmemdup_def)
  then show ?thesis using run tab ok unfolding Let_def length_map by blast
qed

text \<open>A later value whose table holds the record of another value \<open>v\<close>.\<close>

lemma later_value_run:
  assumes "rule_actionset rule = Some as" "tfns_ok D (as_actions as)" "final_tfns (as_actions as) [] \<noteq> []"
    "ck = take (ex_pointer_size env) (var_value var)" "ex_pointer_size env \<le> length (var_value var)"
    "cacheable msr var" "tcache msr ck = Some tab" "table_ok D v tab"
    "names = map tname (final_tfns (as_actions as) [])" "tab (cache_key (length names) (join names)) = Some crec"
    "compose D names v \<noteq> v"
  shows "process_target env rule acting False var mc msr =
      invoke env rule acting (var\<lparr>var_value := compose D names v, var_len := length (compose D names v)\<rparr>) mc msr"
proof -
  let ?as = "final_tfns (as_actions as) []"
  have open_: "cache_open (ex_pointer_size env) msr var = Some (Some ck, msr)"
    using assms(4-7) by (simp add: cache_open_def pmemdup_def)
  have start: "n_tab norm_start = []" by (simp add: norm_start_def)
  obtain st where st: "norm_build (Some tab) (as_actions as) norm_start = Some st" "norm_inv D v (Some tab) st" "n_tab st = ?as"
    using norm_build_run [where tab = "Some tab", OF norm_start_inv assms(2), of v] assms(8) start by auto
  have "norm_hit tab st"
    by (rule norm_build_hit [OF norm_start_inv assms(2,8) _ st(1)]) (simp add: norm_hit_def start)
  then obtain key where hit: "n_crec st = Some (key, crec)" "n_last st = Some (key, crec)"
    using assms(3,9,10) st(3) by (auto simp: norm_hit_def Let_def)
  have "list_all (t_ok D) ?as" using st(2,3) by (simp add: norm_inv_def Let_def)
  then have "names_ok names" using t_ok_names assms(3,9) by blast
  then have "crec_ok D v names crec" using assms(8,10) by (auto simp: table_ok_def)
  then have crec: "crec_changed crec \<noteq> 0" "crec_val_len crec = length (compose D names v)"
    "pmemdup (crec_val crec) (length (compose D names v)) = Some (compose D names v)"
    using assms(11) by (auto simp: crec_ok_def split: if_splits)
  show ?thesis
    using open_ st(1) assms(1,7) hit crec by (simp add: process_target_def fully_cached_def)
qed

section \<open>Transformations that meet the contract\<close>

lemma tfn_computesI:
  assumes "\<And>xs rest. f (xs @ 0 # rest) (length xs) = Some (int_of (p xs), g xs @ 0 # rest, 0, length (g xs))"
    "\<And>xs. \<not> p xs \<Longrightarrow> g xs = xs"
  shows "tfn_computes f g"
  unfolding tfn_computes_def
proof (intro allI)
  fix xs rest
  show "\<exists>ret b off rest'. f (xs @ 0 # rest) (length xs) = Some (ret, b, off, length (g xs)) \<and>
        drop off b = g xs @ 0 # rest' \<and> 0 \<le> ret \<and> (ret = 0 \<longrightarrow> g xs = xs)"
    using assms(1) [of xs rest] assms(2) [of xs]
    by (intro exI [of _ "int_of (p xs)"] exI [of _ "g xs @ 0 # rest"] exI [of _ "0 :: nat"] exI [of _ rest])
      (auto simp: int_of_def)
qed

lemma tfn_computes_lowercase: "tfn_computes lowercase_execute (map c_tolower)"
  by (rule tfn_computesI [where p = "\<lambda>xs. map c_tolower xs \<noteq> xs"])
    (use simple_transforms_run in \<open>auto simp: Let_def\<close>)

lemma tfn_computes_replaceNulls: "tfn_computes replaceNulls_execute (map null_to_space)"
  by (rule tfn_computesI [where p = "\<lambda>xs. map null_to_space xs \<noteq> xs"])
    (use simple_transforms_run in \<open>auto simp: Let_def\<close>)


section \<open>Properties\<close>

text \<open>
  C3: the transformations of a rule without \<open>multiMatch\<close>, and their cache. When the transformations meet their contract
  (\<open>tfns_ok\<close>: each computes a function on strings, and none is taken back with a minus sign), the buffer of the value is at least as
  long as the value and as a pointer, and the cache table the value finds, if any, holds results of this value, processing a target is one
  invocation of the operator, on the composition of the transformations behind the last \<^verbatim>\<open>t:none\<close>, whether it came from the
  cache in full, in part, or not at all; the transaction changes in the cache only, and the table stays right. (With \<open>multiMatch\<close> the
  operator is invoked between the transformations as well.)
\<close>

theorem transformations_cache_transparent:
  assumes "rule_actionset rule = Some as" "tfns_ok D (as_actions as)"
    "take (var_len var) (var_value var) = v" "length v = var_len var" "ex_pointer_size env \<le> length (var_value var)"
    "\<forall>tab. tcache msr (take (ex_pointer_size env) (var_value var)) = Some tab \<longrightarrow> table_ok D v tab"
  shows "let r = compose D (map tname (final_tfns (as_actions as) [])) v in
     \<exists>b msr' cache. process_target env rule acting False var mc msr =
         invoke env rule acting (var\<lparr>var_value := b, var_len := length r\<rparr>) mc msr' \<and>
       pmemdup b (length r) = Some r \<and> only_cache D v cache msr msr'"
  unfolding Let_def by (rule process_target_run [OF assms])

text \<open>A rule of a chain with some \<open>t\<close> actions, and an operator that always matches.\<close>

definition t_action :: "bytes \<Rightarrow> bool \<Rightarrow> tfn \<Rightarrow> msre_action" where
  "t_action name neg f = \<lparr>action_name = Some t_name, action_param = Some name, action_type = ACTION_NON_DISRUPTIVE,
     action_negative = neg, action_tfn = Some f\<rparr>"

definition lowercase_name :: bytes where
  "lowercase_name = [108, 111, 119, 101, 114, 99, 97, 115, 101]"

definition length_name :: bytes where
  "length_name = [108, 101, 110, 103, 116, 104]"

definition t_rule :: "msre_action list \<Rightarrow> msre_rule" where
  "t_rule as = sample_rule None True None\<lparr>rule_actionset := Some (sample_as None True\<lparr>as_actions := map Some as\<rparr>)\<rparr>"

definition match_env :: "(unit, unit exec_rec) exec_env" where
  "match_env = \<lparr>ex_regexec = (\<lambda>_ _. -1), ex_generate = (\<lambda>_ _ m. (0, [], m)), ex_operator = (\<lambda>_ _ m. (1, m)),
     ex_action = (\<lambda>_. None), ex_pointer_size = 8\<rparr>"

definition cache_msr :: "unit exec_rec" where
  "cache_msr = \<lparr>phase = 2, rule_was_intercepted = False, matched_vars = [], removed_rules = [],
     removed_rules_tag = [], removed_rules_msg = [], is_enabled = 1, reqintercept_oe = 1, intercept_actionset = None,
     removed_targets = [], matched_rules = [], matched_var = ([], []), highest_severity = 255, was_intercepted = False,
     intercept_phase = 0, is_relevant = 0, processing_mode = 1, tcache = Map.empty, tcache_items = 0, cache_trans = True,
     cache_trans_incremental = True, cache_trans_min = 0, cache_trans_max = 0, cache_trans_maxitems = 0\<rparr>"

definition lower_D :: "bytes \<Rightarrow> bytes \<Rightarrow> bytes" where
  "lower_D name = map c_tolower"

theorem transformations_cache_transparent_witness:
  "let rule = t_rule [t_action lowercase_name False lowercase_execute]; var = sample_var [86] [65, 66, 67, 68, 69, 70, 71, 72, 73] in
   \<exists>b msr' cache. process_target match_env rule (sample_as None True) False var 0 cache_msr =
       invoke match_env rule (sample_as None True) (var\<lparr>var_value := b, var_len := 9\<rparr>) 0 msr' \<and>
     pmemdup b 9 = Some [97, 98, 99, 100, 101, 102, 103, 104, 105] \<and>
     only_cache lower_D [65, 66, 67, 68, 69, 70, 71, 72, 73] cache cache_msr msr'"
proof -
  let ?as = "sample_as None True\<lparr>as_actions := [Some (t_action lowercase_name False lowercase_execute)]\<rparr>"
  let ?v = "[65, 66, 67, 68, 69, 70, 71, 72, 73] :: bytes"
  have ok: "tfns_ok lower_D (as_actions ?as)"
    using tfn_computes_lowercase
    by (simp add: tfns_ok_def t_action_def t_ok_def lower_D_def lowercase_name_def none_name_def)
  have r: "compose lower_D (map tname (final_tfns (as_actions ?as) [])) ?v = [97, 98, 99, 100, 101, 102, 103, 104, 105]"
    by (simp add: t_action_def lowercase_name_def none_name_def compose_def lower_D_def c_tolower_def c_isupper_def)
  let ?rule = "t_rule [t_action lowercase_name False lowercase_execute]" and ?var = "sample_var [86] ?v"
  have "rule_actionset ?rule = Some ?as" "take (var_len ?var) (var_value ?var) = ?v" "length ?v = var_len ?var"
    "ex_pointer_size match_env \<le> length (var_value ?var)"
    "\<forall>tab. tcache cache_msr (take (ex_pointer_size match_env) (var_value ?var)) = Some tab \<longrightarrow> table_ok lower_D ?v tab"
    by (simp_all add: t_rule_def sample_rule_def sample_var_def match_env_def cache_msr_def)
  note tr = transformations_cache_transparent [OF this(1) ok this(2-5), of "sample_as None True" 0, unfolded Let_def r]
  have "length [97, 98, 99, 100, 101, 102, 103, 104, 105 :: byte] = 9" by simp
  from tr [unfolded this] show ?thesis unfolding Let_def .
qed

text \<open>
  C5: the cache tables are found by the first bytes of a value, as many as a pointer has, and not by its address. Let \<open>v1\<close> be
  the first cacheable value with its prefix in the transaction, for a rule without \<open>multiMatch\<close> whose transformations (at least
  one, meeting their contract) change it, and let the number of cached items be unlimited. Then the operator sees \<open>v1\<close> transformed; and
  for every later variable that is cacheable and whose value begins with the same bytes, whatever follows them, the operator sees
  the transformed \<open>v1\<close> as well instead of its own value, as long as that table is as the first one left it.
\<close>

theorem cache_shared_by_prefix:
  assumes "rule_actionset rule = Some as" "tfns_ok D (as_actions as)" "final_tfns (as_actions as) [] \<noteq> []"
    "ck = take (ex_pointer_size env) (var_value var1)" "ex_pointer_size env \<le> length (var_value var1)" "holds var1 v1"
    "cacheable msr var1" "tcache msr ck = None" "cache_trans_maxitems msr = 0"
    "r = compose D (map tname (final_tfns (as_actions as) [])) v1" "r \<noteq> v1"
    "take (ex_pointer_size env) (var_value var2) = ck" "ex_pointer_size env \<le> length (var_value var2)"
  shows "\<exists>b m1. process_target env rule acting False var1 mc msr =
      invoke env rule acting (var1\<lparr>var_value := b, var_len := length r\<rparr>) mc m1 \<and> pmemdup b (length r) = Some r \<and>
    (\<forall>m2 mc2. cacheable m2 var2 \<and> tcache m2 ck = tcache m1 ck \<longrightarrow>
      process_target env rule acting False var2 mc2 m2 =
        invoke env rule acting (var2\<lparr>var_value := r, var_len := length r\<rparr>) mc2 m2)"
proof -
  obtain b m1 tab crec where first: "process_target env rule acting False var1 mc msr =
        invoke env rule acting (var1\<lparr>var_value := b, var_len := length r\<rparr>) mc m1" "pmemdup b (length r) = Some r"
      "tcache m1 ck = Some tab" "table_ok D v1 tab"
      "tab (cache_key (length (map tname (final_tfns (as_actions as) []))) (join (map tname (final_tfns (as_actions as) [])))) = Some crec"
    using first_value_run [OF assms(1-3,6,4,5,7-9), of acting mc] unfolding Let_def assms(10) by blast
  have "process_target env rule acting False var2 mc2 m2 =
        invoke env rule acting (var2\<lparr>var_value := r, var_len := length r\<rparr>) mc2 m2"
    if "cacheable m2 var2" "tcache m2 ck = tcache m1 ck" for m2 mc2
    unfolding assms(10)
    by (rule later_value_run [OF assms(1-3) assms(12) [symmetric] assms(13) that(1) _ first(4) refl first(5)])
      (use that(2) first(3) assms(10,11) in auto)
  then show ?thesis using first(1,2) by blast
qed

text \<open>\<^verbatim>\<open>t:lowercase\<close> on \<^verbatim>\<open>ABCDEFGHI\<close> and then on \<^verbatim>\<open>ABCDEFGHZ\<close>.\<close>

theorem cache_shared_by_prefix_witness:
  "let rule = t_rule [t_action lowercase_name False lowercase_execute]; acting = sample_as None True;
       var1 = sample_var [49] [65, 66, 67, 68, 69, 70, 71, 72, 73]; var2 = sample_var [50] [65, 66, 67, 68, 69, 70, 71, 72, 90];
       r = [97, 98, 99, 100, 101, 102, 103, 104, 105] in
   \<exists>b m1. process_target match_env rule acting False var1 0 cache_msr =
       invoke match_env rule acting (var1\<lparr>var_value := b, var_len := 9\<rparr>) 0 m1 \<and> pmemdup b 9 = Some r \<and>
     (\<forall>m2 mc2. cacheable m2 var2 \<and> tcache m2 [65, 66, 67, 68, 69, 70, 71, 72] = tcache m1 [65, 66, 67, 68, 69, 70, 71, 72] \<longrightarrow>
       process_target match_env rule acting False var2 mc2 m2 =
         invoke match_env rule acting (var2\<lparr>var_value := r, var_len := 9\<rparr>) mc2 m2)"
proof -
  let ?as = "sample_as None True\<lparr>as_actions := [Some (t_action lowercase_name False lowercase_execute)]\<rparr>"
  let ?v = "[65, 66, 67, 68, 69, 70, 71, 72, 73] :: bytes" and ?r = "[97, 98, 99, 100, 101, 102, 103, 104, 105] :: bytes"
  let ?rule = "t_rule [t_action lowercase_name False lowercase_execute]"
  let ?var1 = "sample_var [49] ?v" and ?var2 = "sample_var [50] [65, 66, 67, 68, 69, 70, 71, 72, 90]"
  let ?ck = "[65, 66, 67, 68, 69, 70, 71, 72] :: bytes"
  have ok: "tfns_ok lower_D (as_actions ?as)"
    using tfn_computes_lowercase
    by (simp add: tfns_ok_def t_action_def t_ok_def lower_D_def lowercase_name_def none_name_def)
  have list: "final_tfns (as_actions ?as) [] \<noteq> []" by (simp add: t_action_def lowercase_name_def none_name_def)
  have r: "?r = compose lower_D (map tname (final_tfns (as_actions ?as) [])) ?v"
    by (simp add: t_action_def lowercase_name_def none_name_def compose_def lower_D_def c_tolower_def c_isupper_def)
  have rule: "rule_actionset ?rule = Some ?as" by (simp add: t_rule_def sample_rule_def)
  have var1: "?ck = take (ex_pointer_size match_env) (var_value ?var1)" "ex_pointer_size match_env \<le> length (var_value ?var1)"
    "holds ?var1 ?v" "cacheable cache_msr ?var1" "tcache cache_msr ?ck = None" "cache_trans_maxitems cache_msr = 0"
    by (simp_all add: sample_var_def match_env_def holds_def cacheable_def cache_msr_def)
  have var2: "take (ex_pointer_size match_env) (var_value ?var2) = ?ck" "ex_pointer_size match_env \<le> length (var_value ?var2)"
    by (simp_all add: sample_var_def match_env_def)
  have ne: "?r \<noteq> ?v" and nine: "length ?r = 9" by simp_all
  from cache_shared_by_prefix [OF rule ok list var1 r ne var2, of "sample_as None True" 0, unfolded nine]
  show ?thesis unfolding Let_def .
qed

text \<open>
  a transformation taken back with a minus sign still counts for the keys of the cache: after \<^verbatim>\<open>t:lowercase\<close>
  was cached, \<^verbatim>\<open>t:lowercase,t:-lowercase,t:length\<close> starts behind it and skips \<^verbatim>\<open>t:length\<close>: the operator sees the value in
  lower case instead of its length. Without the cache it sees the length.
\<close>

theorem cache_skips_after_minus:
  "let rule1 = t_rule [t_action lowercase_name False lowercase_execute];
       rule2 = t_rule [t_action lowercase_name False lowercase_execute, t_action lowercase_name True lowercase_execute,
         t_action length_name False length_execute];
       acting = sample_as None True; var = sample_var [49] [65, 66, 67, 68, 69, 70, 71, 72, 73];
       both = (\<lambda>msr. do {
         (r, msr) \<leftarrow> process_target match_env rule1 acting False var 0 msr;
         (r, msr) \<leftarrow> process_target match_env rule2 acting False var 0 msr;
         Some (snd (matched_var msr)) })
   in both cache_msr = Some [97, 98, 99, 100, 101, 102, 103, 104, 105] \<and>
      both (cache_msr\<lparr>cache_trans := False\<rparr>) = Some [57]"
proof -
  note run = simple_transforms_run [of "[65, 66, 67, 68, 69, 70, 71, 72, 73]" "[0]", simplified]
  have len: "length_execute b (Suc (Suc (Suc (Suc (Suc (Suc (Suc (Suc (Suc 0))))))))) = Some (1, [57, 0], 0, Suc 0)" for b
    by (simp add: length_execute_def Let_def decstr.simps)
  note defs = Let_def process_target_def cache_open_def cacheable_def t_rule_def sample_rule_def sample_as_def
        sample_var_def match_env_def cache_msr_def pmemdup_def norm_start_def norm_step_def t_action_def t_name_def
        none_name_def lowercase_name_def length_name_def fully_cached_def run_uncached_def pstrmemdup_def run run_tfns.simps
        cache_store_def cached_copy_def invoke_def execute_operator_def operator_matched_def RULE_MATCH_def RULE_NO_MATCH_def
        msre_perform_nondisruptive_actions_def run_action_def tget_def tset_def extend_path_def cache_key_def ci_equal_def
        hexstr.simps hex_digit_def c2x_table_def c_tolower_def c_isupper_def int_of_def len
  show ?thesis by (simp add: defs)
qed

end
