(* ===== verification/ChainQuiet.thy ===== *)
theory ChainQuiet
  imports TransformCache
begin

text \<open>
  Why \<open>msre_ruleset_process_phase\<close> may rely on a rule to know whether it is part of a chain: a rule that is not the
  last one of its chain never intercepts the transaction, whatever its operator says.
\<close>

definition intercept_state :: "('re, 'z) exec_rec_scheme \<Rightarrow> bool \<times> bool \<times> msre_actionset option \<times> int" where
  "intercept_state msr = (was_intercepted msr, rule_was_intercepted msr, intercept_actionset msr, intercept_phase msr)"

text \<open>What runs outside the code of the rule engine while a rule is executed: the generators of its variables, its operator,
  and its non-disruptive actions. A step is a call of one of them, seen through the interception state.\<close>

definition callback ::
  "('re, ('re, 'z) exec_rec_scheme) exec_env \<Rightarrow> msre_rule \<Rightarrow> bool \<times> bool \<times> msre_actionset option \<times> int \<Rightarrow>
    bool \<times> bool \<times> msre_actionset option \<times> int \<Rightarrow> bool" where
  "callback env rule s s' \<longleftrightarrow>
     (\<exists>msr. intercept_state msr = s \<and>
       ((\<exists>var. s' = intercept_state (snd (ex_operator env rule var msr))) \<or>
        (\<exists>var. s' = intercept_state (snd (snd (ex_generate env var rule msr)))) \<or>
        (\<exists>as a f. rule_actionset rule = Some as \<and> Some a \<in> set (as_actions as) \<and> action_type a = ACTION_NON_DISRUPTIVE \<and>
           ex_action env a = Some f \<and> s' = intercept_state (f rule msr))))"

text \<open>In the source none of these writes the four fields: only \<open>msre_perform_disruptive_actions\<close> (and the hooks of Apache,
  which reset them) does.\<close>

definition quiet :: "('re, ('re, 'z) exec_rec_scheme) exec_env \<Rightarrow> msre_rule \<Rightarrow> bool" where
  "quiet env rule \<longleftrightarrow> (\<forall>s s'. callback env rule s s' \<longrightarrow> s' = s)"

lemma intercept_state_upd [simp]:
  "intercept_state (msr\<lparr>matched_vars := a\<rparr>) = intercept_state msr"
  "intercept_state (msr\<lparr>matched_rules := b\<rparr>) = intercept_state msr"
  "intercept_state (msr\<lparr>matched_var := c\<rparr>) = intercept_state msr"
  "intercept_state (msr\<lparr>highest_severity := d\<rparr>) = intercept_state msr"
  "intercept_state (msr\<lparr>tcache := e\<rparr>) = intercept_state msr"
  "intercept_state (msr\<lparr>tcache_items := f\<rparr>) = intercept_state msr"
  by (simp_all add: intercept_state_def)

text \<open>\<open>seen\<close>: callbacks alone lead from \<open>s\<close> to the interception state of \<open>msr\<close>. \<open>keeps\<close>: if there is a result, they lead to
  its state.\<close>

definition seen ::
  "('re, ('re, 'z) exec_rec_scheme) exec_env \<Rightarrow> msre_rule \<Rightarrow> bool \<times> bool \<times> msre_actionset option \<times> int \<Rightarrow>
    ('re, 'z) exec_rec_scheme \<Rightarrow> bool" where
  "seen env rule s msr \<longleftrightarrow> rtranclp (callback env rule) s (intercept_state msr)"

definition keeps ::
  "('re, ('re, 'z) exec_rec_scheme) exec_env \<Rightarrow> msre_rule \<Rightarrow> bool \<times> bool \<times> msre_actionset option \<times> int \<Rightarrow>
    ('a \<times> ('re, 'z) exec_rec_scheme) option \<Rightarrow> bool" where
  "keeps env rule s r \<longleftrightarrow> (\<forall>x msr. r = Some (x, msr) \<longrightarrow> seen env rule s msr)"

lemma seen_upd [simp]:
  "seen env rule s (msr\<lparr>matched_vars := a\<rparr>) = seen env rule s msr"
  "seen env rule s (msr\<lparr>matched_rules := b\<rparr>) = seen env rule s msr"
  "seen env rule s (msr\<lparr>matched_var := c\<rparr>) = seen env rule s msr"
  "seen env rule s (msr\<lparr>highest_severity := d\<rparr>) = seen env rule s msr"
  "seen env rule s (msr\<lparr>tcache := e\<rparr>) = seen env rule s msr"
  "seen env rule s (msr\<lparr>tcache_items := f\<rparr>) = seen env rule s msr"
  by (simp_all add: seen_def)

lemma seen_step: "seen env rule s msr \<Longrightarrow> callback env rule (intercept_state msr) (intercept_state msr') \<Longrightarrow> seen env rule s msr'"
  unfolding seen_def by (rule rtranclp.rtrancl_into_rtrancl)

lemma seen_operator: "seen env rule s msr \<Longrightarrow> seen env rule s (snd (ex_operator env rule var msr))"
  by (erule seen_step) (auto simp: callback_def)

lemma seen_generate: "seen env rule s msr \<Longrightarrow> seen env rule s (snd (snd (ex_generate env var rule msr)))"
  by (erule seen_step) (auto simp: callback_def)

lemma seen_action:
  "seen env rule s msr \<Longrightarrow> rule_actionset rule = Some as \<Longrightarrow> Some a \<in> set (as_actions as) \<Longrightarrow>
    action_type a = ACTION_NON_DISRUPTIVE \<Longrightarrow> ex_action env a = Some f \<Longrightarrow> seen env rule s (f rule msr)"
  by (erule seen_step) (auto simp: callback_def)

lemma keeps_Some [simp]: "keeps env rule s (Some (x, msr)) \<longleftrightarrow> seen env rule s msr"
  by (simp add: keeps_def)

lemma keeps_None [simp]: "keeps env rule s None"
  by (simp add: keeps_def)

lemma keeps_bind:
  assumes "keeps env rule s r" "\<And>x msr. seen env rule s msr \<Longrightarrow> keeps env rule s (f (x, msr))"
  shows "keeps env rule s (Option.bind r f)"
proof (cases r)
  case (Some y)
  then show ?thesis using assms by (cases y) simp
qed simp

lemma keeps_bind_value: "(\<And>x. keeps env rule s (f x)) \<Longrightarrow> keeps env rule s (Option.bind r f)"
  by (cases r) simp_all

lemma run_actions_seen:
  "rule_actionset rule = Some as \<Longrightarrow> set acts \<subseteq> set (as_actions as) \<Longrightarrow> seen env rule s msr \<Longrightarrow>
   run_actions env ACTION_NON_DISRUPTIVE rule acts msr = Some msr' \<Longrightarrow> seen env rule s msr'"
proof (induction acts arbitrary: msr)
  case (Cons a acts)
  from Cons.prems(4) obtain m where m: "run_action env ACTION_NON_DISRUPTIVE rule a msr = Some m"
      "run_actions env ACTION_NON_DISRUPTIVE rule acts m = Some msr'"
    by (auto simp: bind_eq_Some_conv)
  have "seen env rule s m"
    using m(1) Cons.prems(1-3) seen_action [OF Cons.prems(3,1)]
    by (auto simp: run_action_def bind_eq_Some_conv split: option.splits if_splits)
  then show ?case using Cons.IH [OF Cons.prems(1) _ _ m(2)] Cons.prems(2) by simp
qed simp

lemma operator_matched_quiet:
  assumes "chained rule" "seen env rule s msr" "operator_matched env var rule acting msr = Some msr'"
  shows "seen env rule s msr'"
proof -
  obtain as where as: "rule_actionset rule = Some as" "as_is_chained as" using assms(1) by (auto simp: chained_def split: option.splits)
  obtain m where m: "run_actions env ACTION_NON_DISRUPTIVE rule (as_actions as) m = Some msr'" "intercept_state m = intercept_state msr"
    using assms(3) as by (auto simp: operator_matched_def bind_eq_Some_conv Let_def msre_perform_nondisruptive_actions_def)
  then have "seen env rule s m" using assms(2) by (simp add: seen_def)
  then show ?thesis by (rule run_actions_seen [OF as(1) subset_refl _ m(1)])
qed

lemma execute_operator_quiet:
  assumes rule: "chained rule" and s: "seen env rule s msr"
  shows "keeps env rule s (execute_operator env var rule acting msr)"
proof -
  obtain rc m where op: "ex_operator env rule var msr = (rc, m)" by fastforce
  have m: "seen env rule s m" using seen_operator [OF s, of var] by (simp add: op)
  have "keeps env rule s (map_option (Pair RULE_MATCH) (operator_matched env var rule acting m))"
    using operator_matched_quiet [OF rule m, of var acting] by (cases "operator_matched env var rule acting m") auto
  then show ?thesis
    unfolding execute_operator_def op using s m by (intro keeps_bind_value) simp
qed

lemma invoke_quiet: "chained rule \<Longrightarrow> seen env rule s msr \<Longrightarrow> keeps env rule s (invoke env rule acting var mc msr)"
  unfolding invoke_def by (rule keeps_bind [OF execute_operator_quiet]) auto

lemma cache_store_quiet: "seen env rule s msr \<Longrightarrow> keeps env rule s (cache_store ck n k p var x msr)"
  unfolding cache_store_def Let_def by (auto intro!: keeps_bind_value)

lemma run_tfns_quiet: "chained rule \<Longrightarrow> seen env rule s msr \<Longrightarrow> keeps env rule s (run_tfns env rule acting cache multi n ts k var x msr)"
proof (induction ts arbitrary: k var x msr)
  case (Cons a ts)
  have store: "keeps env rule s (Option.bind (case cache of None \<Rightarrow> Some (x, m) | Some ck \<Rightarrow> cache_store ck n k p var x m)
      (\<lambda>(x, msr). run_tfns env rule acting cache multi n ts j var x msr))" if "seen env rule s m" for x m p var j
  proof (rule keeps_bind)
    show "keeps env rule s (case cache of None \<Rightarrow> Some (x, m) | Some ck \<Rightarrow> cache_store ck n k p var x m)"
      using that by (cases cache) (simp_all add: cache_store_quiet)
  qed (use Cons.IH [OF Cons.prems(1)] in simp)
  show ?case
    unfolding run_tfns.simps Let_def
  proof (rule keeps_bind)
    show "keeps env rule s (if multi \<and> (k = 0 \<or> x_tfnchanged x) then invoke env rule acting var (x_matches x) msr
        else Some (Inr (x_matches x), msr))"
      using Cons.prems by (simp add: invoke_quiet)
  next
    fix r and m :: "('a, 'b) exec_rec_scheme"
    assume m: "seen env rule s m"
    then show "keeps env rule s (case (r, m) of (r, msr) \<Rightarrow> case r of
        Inl rc \<Rightarrow> Some (Inl rc, msr)
      | Inr matches \<Rightarrow> action_tfn a \<bind> (\<lambda>execute. action_param a \<bind> (\<lambda>param.
          execute (var_value var) (var_len var) \<bind> (\<lambda>(tfnchanged, b, off, len).
            if tfnchanged < 0 then Some (Inl (- 1), msr)
            else (case cache of None \<Rightarrow>
                Some (x\<lparr>x_matches := matches, x_tfnchanged := tfnchanged \<noteq> 0,
                  x_changed := (if tfnchanged \<noteq> 0 then x_changed x + 1 else x_changed x)\<rparr>, msr)
              | Some ck \<Rightarrow> cache_store ck n k param (var\<lparr>var_value := drop off b, var_len := len\<rparr>)
                  (x\<lparr>x_matches := matches, x_tfnchanged := tfnchanged \<noteq> 0,
                    x_changed := (if tfnchanged \<noteq> 0 then x_changed x + 1 else x_changed x)\<rparr>) msr) \<bind>
              (\<lambda>(x, msr). run_tfns env rule acting cache multi n ts (k + 1)
                (var\<lparr>var_value := drop off b, var_len := len\<rparr>) x msr)))))"
      by (cases r) (simp_all only: prod.case sum.case keeps_Some, intro keeps_bind_value, simp add: store split: prod.split)
  qed
qed simp

lemma run_uncached_quiet: "chained rule \<Longrightarrow> seen env rule s msr \<Longrightarrow> keeps env rule s (run_uncached env rule acting cache multi st var mc msr)"
  unfolding run_uncached_def Let_def
  by (rule keeps_bind_value, rule keeps_bind, erule (1) run_tfns_quiet) (auto split: sum.splits intro: invoke_quiet)

lemma process_target_quiet: "chained rule \<Longrightarrow> seen env rule s msr \<Longrightarrow> keeps env rule s (process_target env rule acting multi var mc msr)"
  unfolding process_target_def Let_def
  by (rule keeps_bind_value, rule keeps_bind)
    (auto simp: cache_open_def intro!: keeps_bind_value invoke_quiet run_uncached_quiet)

lemma process_targets_quiet: "chained rule \<Longrightarrow> seen env rule s msr \<Longrightarrow> keeps env rule s (process_targets env rule acting multi tartab mc msr)"
proof (induction tartab arbitrary: mc msr)
  case (Cons t tartab)
  then show ?case
    by (cases t) (auto split: sum.splits intro!: keeps_bind process_target_quiet)
qed simp

lemma expand_targets_quiet:
  "seen env rule s msr \<Longrightarrow> expand_targets env rule targets tartab msr = (tab, msr') \<Longrightarrow> seen env rule s msr'"
proof (induction targets arbitrary: tartab msr)
  case (Cons t targets)
  obtain n vartab m1 where g: "ex_generate env t rule msr = (n, vartab, m1)" by (metis prod_cases3)
  then have "seen env rule s m1" using seen_generate [OF Cons.prems(1), of t] by simp
  then show ?case using Cons.IH Cons.prems g by simp
qed simp

section \<open>Property\<close>

text \<open>
  C4: the rule engine itself never intercepts while it executes a rule that is not the last of its chain: when the execution returns,
  the interception state of the transaction (\<open>was_intercepted\<close>, \<open>rule_was_intercepted\<close>, \<open>intercept_actionset\<close>, \<open>intercept_phase\<close>)
  was changed by nothing but calls of the generators of the rule's variables, its operator and its non-disruptive actions,
  whatever its targets and transformations and whether or not it matched. This holds for any such functions. If none of them
  writes the state (\<open>quiet\<close>), it is as it was; in the source none does, the only place that sets it is the end of
  \<open>msre_perform_disruptive_actions\<close>, which is left to the last rule of the chain.
\<close>

theorem chained_rule_never_intercepts:
  assumes "rule_actionset rule = Some as" "as_is_chained as" "msre_rule_process_normal env rule msr = Some (rc, msr')"
  shows "rtranclp (callback env rule) (intercept_state msr) (intercept_state msr') \<and>
    (quiet env rule \<longrightarrow> intercept_state msr' = intercept_state msr)"
proof -
  have chained: "chained rule" using assms(1,2) by (simp add: chained_def)
  obtain tab m1 where m1: "expand_targets env rule (rule_targets rule) [] msr = (tab, m1)" by fastforce
  have start: "seen env rule (intercept_state msr) msr" by (simp add: seen_def)
  obtain acting multi where "process_targets env rule acting multi tab 0 m1 = Some (rc, msr')"
    using assms(1,3) m1 by (auto simp: msre_rule_process_normal_def Let_def)
  then have steps: "rtranclp (callback env rule) (intercept_state msr) (intercept_state msr')"
    using process_targets_quiet [OF chained expand_targets_quiet [OF start m1]]
    by (auto simp: keeps_def seen_def)
  moreover have "intercept_state msr' = intercept_state msr" if "quiet env rule"
    using steps
  proof (induction rule: rtranclp_induct)
    case (step y z)
    then show ?case using that unfolding quiet_def by metis
  qed (rule refl)
  ultimately show ?thesis by blast
qed

text \<open>A chained rule with one target, whose operator matches.\<close>

definition one_target_env :: "(unit, unit exec_rec) exec_env" where
  "one_target_env = match_env\<lparr>ex_generate := (\<lambda>v _ m. (1, [(var_name v, v)], m))\<rparr>"

theorem chained_rule_never_intercepts_witness:
  "let rule = t_rule []\<lparr>rule_targets := [sample_var [49] [65]]\<rparr>; msr = cache_msr\<lparr>cache_trans := False\<rparr> in
   \<exists>msr'. msre_rule_process_normal one_target_env rule msr = Some (RULE_MATCH, msr') \<and>
     intercept_state msr' = intercept_state msr \<and> matched_vars msr' = [([49], [65])]"
proof -
  let ?rule = "t_rule []\<lparr>rule_targets := [sample_var [49] [65]]\<rparr>" and ?msr = "cache_msr\<lparr>cache_trans := False\<rparr>"
  let ?msr' = "?msr\<lparr>matched_rules := [?rule], matched_var := ([49], [65]), matched_vars := [([49], [65])]\<rparr>"
  have "msre_rule_process_normal one_target_env ?rule ?msr = Some (RULE_MATCH, ?msr')"
    by (simp add: msre_rule_process_normal_def Let_def one_target_env_def match_env_def t_rule_def sample_rule_def sample_as_def
        sample_var_def cache_msr_def process_target_def cache_open_def cacheable_def norm_start_def fully_cached_def
        run_uncached_def invoke_def execute_operator_def operator_matched_def pmemdup_def RULE_MATCH_def
        msre_perform_nondisruptive_actions_def)
  moreover from this have "intercept_state ?msr' = intercept_state ?msr"
    using chained_rule_never_intercepts [of ?rule "sample_as None True\<lparr>as_actions := []\<rparr>" one_target_env ?msr]
    by (auto simp: quiet_def callback_def one_target_env_def match_env_def t_rule_def sample_rule_def sample_as_def)
  moreover have "matched_vars ?msr' = [([49], [65])]" by simp
  ultimately show ?thesis unfolding Let_def by blast
qed

end
