(* ===== verification/RuleParser.thy ===== *)
theory RuleParser
  imports TargetException
begin

text \<open>
  The parser of rule targets and actions, \<open>msre_parse_generic\<close> of \<^verbatim>\<open>apache2/re.c\<close>, the creation of variables from
  what it returns, and the function that writes the targets of a rule back as text. Strings are byte lists without
  their NUL. The table of known variables and the validation of their parameters are arguments.
\<close>

section \<open>Names, values and separators\<close>

definition name_char :: "byte \<Rightarrow> bool" where
  "name_char c \<longleftrightarrow> c \<noteq> 124 \<and> c \<noteq> 58 \<and> c \<noteq> 44 \<and> \<not> c_isspace c"

definition value_char :: "byte \<Rightarrow> bool" where
  "value_char c \<longleftrightarrow> c \<noteq> 44 \<and> c \<noteq> 124 \<and> \<not> c_isspace c"

definition separator :: "byte \<Rightarrow> bool" where
  "separator c \<longleftrightarrow> c_isspace c \<or> c = 44 \<or> c = 124"

text \<open>The error messages, with the position they name.\<close>

datatype parse_error = Missing_quote nat | Invalid_pair nat | Unexpected_character nat

section \<open>The code\<close>

text \<open>A quoted value behind its opening quote: the value and what follows the closing quote. \<open>n\<close> is the length of
  the whole text.\<close>

fun quoted :: "nat \<Rightarrow> bytes \<Rightarrow> bytes \<Rightarrow> parse_error + bytes \<times> bytes" where
  "quoted n acc [] = Inl (Missing_quote n)"
| "quoted n acc (c # p) =
     (if c = 92 then
        (case p of
           [] \<Rightarrow> Inl (Invalid_pair (n - length (c # p)))
         | e # q \<Rightarrow> if e \<noteq> 39 \<and> e \<noteq> 92 then Inl (Invalid_pair (n - length (c # p))) else quoted n (acc @ [e]) q)
      else if c = 39 then Inr (acc, p)
      else quoted n (acc @ [c]) p)"

lemma quoted_length: "quoted n acc p = Inr (v, q) \<Longrightarrow> length q < length p"
  by (induction n acc p rule: quoted.induct) (auto split: if_splits list.splits)

lemma shorter_tl: "q \<noteq> [] \<Longrightarrow> length q \<le> m \<Longrightarrow> length (tl q) < m"
  by (cases q) auto

text \<open>The table the pairs are put into, and the error, if any.\<close>

type_synonym pairs = "(bytes \<times> bytes option) list"

text \<open>The loop; \<open>p\<close> is the unread text.\<close>

function parse_items :: "nat \<Rightarrow> bytes \<Rightarrow> pairs \<Rightarrow> pairs \<times> parse_error option" where
  "parse_items n p tab =
     (let p = dropWhile c_isspace p in
      if p = [] then (tab, None)
      else
        let name = takeWhile name_char p; q = dropWhile name_char p in
        if q = [] \<or> hd q \<noteq> 58 then
          let tab = tab @ [(name, None)]; q = dropWhile c_isspace q in
          if q = [] then (tab, None)
          else if hd q = 44 \<or> hd q = 124 then parse_items n (tl q) tab
          else (tab, Some (Unexpected_character (n - length q)))
        else
          let q = tl q in
          if q = [] then (tab @ [(name, None)], None)
          else if hd q = 44 \<or> hd q = 124 then parse_items n (tl q) (tab @ [(name, None)])
          else if hd q = 39 then
            (case quoted n [] (tl q) of
               Inl err \<Rightarrow> (tab, Some err)
             | Inr (v, q) \<Rightarrow> parse_items n (dropWhile separator q) (tab @ [(name, Some v)]))
          else parse_items n (dropWhile separator (dropWhile value_char q)) (tab @ [(name, Some (takeWhile value_char q))]))"
  by pat_completeness auto

termination
proof (relation "measure (\<lambda>(n, p, tab). length p)", goal_cases)
  case (2 n p tab p1 name q1 tab1 q2)
  have "length q2 \<le> length p" unfolding 2 by (meson length_dropWhile_le le_trans)
  then show ?case using shorter_tl [of q2 "length p"] 2 by simp
next
  case (3 n p tab p1 name q1 q2)
  have "length (tl q1) < length p"
    using 3 by (intro shorter_tl) (auto intro: le_trans length_dropWhile_le)
  then show ?case using 3 by (simp add: Nat.diff_le_self le_less_trans [of "length (tl q2)" "length q2"])
next
  case (4 n p tab p1 name q1 q2 b x y)
  have "length (tl q1) < length p"
    using 4 by (intro shorter_tl) (auto intro: le_trans length_dropWhile_le)
  moreover have "length y < length (tl q2)" using 4 quoted_length by metis
  ultimately show ?case
    using 4 length_dropWhile_le [of separator y] by simp
next
  case (5 n p tab p1 name q1 q2)
  have "length (tl q1) < length p"
    using 5 by (intro shorter_tl) (auto intro: le_trans length_dropWhile_le)
  moreover have "length (dropWhile separator (dropWhile value_char q2)) \<le> length q2"
    by (meson length_dropWhile_le le_trans)
  ultimately show ?case using 5 by simp
qed simp

declare parse_items.simps [simp del]

definition msre_parse_generic :: "bytes \<Rightarrow> pairs \<times> parse_error option" where
  "msre_parse_generic text = parse_items (length text) text []"


section \<open>Variables\<close>

text \<open>The metadata of a variable, and the parameters: the engine's table of variables, and the message of the
  \<open>validate\<close> function of a variable (\<^term>\<open>None\<close> when it has none or accepts the parameter).\<close>

record var_metadata =
  vm_simple :: bool
  vm_argc_min :: nat
  vm_argc_max :: nat
  vm_cacheable :: bool
  vm_availability :: int

record var_engine =
  resolve_var :: "bytes \<Rightarrow> var_metadata option"
  validate_var :: "msre_var \<Rightarrow> bytes option"

datatype var_error = Unknown_variable bytes | Not_a_collection | Missing_parameter bytes | No_parameter bytes
  | Invalid_parameter bytes

definition http_prefix :: bytes where
  "http_prefix = [72, 84, 84, 80, 95]"

definition request_headers_name :: bytes where
  "request_headers_name = [82, 69, 81, 85, 69, 83, 84, 95, 72, 69, 65, 68, 69, 82, 83]"

definition msre_create_var_ex :: "var_engine \<Rightarrow> bytes \<Rightarrow> bytes option \<Rightarrow> var_error + msre_var" where
  "msre_create_var_ex engine name param =
     (let negated = (name \<noteq> [] \<and> hd name = 33);
          counting = (name \<noteq> [] \<and> hd name = 38);
          vname = (if negated \<or> counting then tl name else name);
          alias = (5 < length vname \<and> take 5 vname = http_prefix);
          varparam = (if alias then Some (drop 5 vname) else param);
          vname = (if alias then request_headers_name else vname)
      in case resolve_var engine vname of
           None \<Rightarrow> Inl (Unknown_variable name)
         | Some meta \<Rightarrow>
             if counting \<and> vm_simple meta then Inl Not_a_collection
             else if varparam = None \<and> 0 < vm_argc_min meta then Inl (Missing_parameter name)
             else if varparam \<noteq> None \<and> vm_argc_max meta = 0 then Inl (No_parameter name)
             else Inr \<lparr>var_name = vname, var_value = [], var_len = 0, var_param = varparam, var_negated = negated,
               var_counting = counting, var_cacheable = vm_cacheable meta, var_availability = vm_availability meta\<rparr>)"

definition msre_create_var :: "var_engine \<Rightarrow> bytes \<Rightarrow> bytes option \<Rightarrow> var_error + msre_var" where
  "msre_create_var engine name param =
     (case msre_create_var_ex engine name param of
        Inl err \<Rightarrow> Inl err
      | Inr var \<Rightarrow> (case validate_var engine var of Some err \<Rightarrow> Inl (Invalid_parameter err) | None \<Rightarrow> Inr var))"

text \<open>The loop over the pairs appends to the array; at an error it keeps what it appended before.\<close>

fun create_vars :: "var_engine \<Rightarrow> pairs \<Rightarrow> msre_var list \<Rightarrow> msre_var list \<times> var_error option" where
  "create_vars engine [] arr = (arr, None)"
| "create_vars engine ((name, param) # tab) arr =
     (case msre_create_var engine name param of
        Inl err \<Rightarrow> (arr, Some err)
      | Inr var \<Rightarrow> create_vars engine tab (arr @ [var]))"

definition msre_parse_targets ::
  "var_engine \<Rightarrow> bytes \<Rightarrow> msre_var list \<Rightarrow> msre_var list \<times> (parse_error + var_error) option" where
  "msre_parse_targets engine text arr =
     (case msre_parse_generic text of
        (tab, Some err) \<Rightarrow> (arr, Some (Inl err))
      | (tab, None) \<Rightarrow> (case create_vars engine tab arr of (arr, err) \<Rightarrow> (arr, map_option Inr err)))"

section \<open>Writing targets\<close>

definition show_var :: "msre_var \<Rightarrow> bytes" where
  "show_var v =
     (if var_negated v then [33] else []) @ (if var_counting v then [38] else []) @ var_name v @
     (case var_param v of None \<Rightarrow> [] | Some p \<Rightarrow> 58 # p)"

fun generate_from :: "bytes option \<Rightarrow> msre_var list \<Rightarrow> bytes option" where
  "generate_from str [] = str"
| "generate_from str (v # vs) =
     generate_from
       (if var_name v \<noteq> [] then Some ((case str of None \<Rightarrow> [] | Some s \<Rightarrow> s @ [124]) @ show_var v) else str) vs"

definition msre_generate_target_string :: "msre_var list \<Rightarrow> bytes option" where
  "msre_generate_target_string targets = generate_from None targets"

section \<open>What is written can be read\<close>

definition plain_name :: "bytes \<Rightarrow> bool" where
  "plain_name s \<longleftrightarrow> s \<noteq> [] \<and> list_all name_char s"

definition plain_value :: "bytes \<Rightarrow> bool" where
  "plain_value s \<longleftrightarrow> s \<noteq> [] \<and> hd s \<noteq> 39 \<and> list_all value_char s"

text \<open>A pair as text; a value in quotes has a backslash before every quote and backslash.\<close>

definition escape_value :: "bytes \<Rightarrow> bytes" where
  "escape_value v = concat (map (\<lambda>c. if c = 39 \<or> c = 92 then [92, c] else [c]) v)"

definition write_value :: "bool \<Rightarrow> bytes \<Rightarrow> bytes" where
  "write_value q v = (if q then 39 # escape_value v @ [39] else v)"

fun write_pair :: "bool \<Rightarrow> bytes \<times> bytes option \<Rightarrow> bytes" where
  "write_pair q (name, None) = name"
| "write_pair q (name, Some v) = name @ 58 # write_value q v"

text \<open>An item of a list: a pair, whether its value is in quotes, and the white space around it.\<close>

record item =
  it_before :: bytes
  it_pair :: "bytes \<times> bytes option"
  it_quoted :: bool
  it_after :: bytes

definition write_item :: "item \<Rightarrow> bytes" where
  "write_item it = it_before it @ write_pair (it_quoted it) (it_pair it) @ it_after it"

fun write_items :: "byte \<Rightarrow> item list \<Rightarrow> bytes" where
  "write_items sep [] = []"
| "write_items sep [it] = write_item it"
| "write_items sep (it # its) = write_item it @ sep # write_items sep its"

text \<open>Any value may be written in quotes, a plain one also without.\<close>

definition item_ok :: "item \<Rightarrow> bool" where
  "item_ok it \<longleftrightarrow> list_all c_isspace (it_before it) \<and> list_all c_isspace (it_after it) \<and> plain_name (fst (it_pair it)) \<and>
     (case snd (it_pair it) of None \<Rightarrow> True | Some v \<Rightarrow> it_quoted it \<or> plain_value v)"

text \<open>What may follow an item: nothing, or a bar or comma, white space and the start of a name.\<close>

definition follows :: "bytes \<Rightarrow> bool" where
  "follows rest \<longleftrightarrow> rest = [] \<or>
     (\<exists>sep ws c r. rest = sep # ws @ c # r \<and> (sep = 124 \<or> sep = 44) \<and> list_all c_isspace ws \<and> name_char c)"

lemma takeWhile_plain: "list_all P s \<Longrightarrow> rest = [] \<or> \<not> P (hd rest) \<Longrightarrow> takeWhile P (s @ rest) = s \<and> dropWhile P (s @ rest) = rest"
  by (induction s) (auto, (cases rest; simp)+)

lemma name_no_space: "name_char c \<Longrightarrow> \<not> c_isspace c \<and> c \<noteq> 58 \<and> c \<noteq> 44 \<and> c \<noteq> 124 \<and> \<not> separator c"
  by (simp add: name_char_def separator_def)

lemma quoted_escape: "quoted n acc (escape_value v @ 39 # r) = Inr (acc @ v, r)"
  by (induction v arbitrary: acc) (auto simp: escape_value_def)

lemma drop_spaces: "list_all c_isspace ws \<Longrightarrow> dropWhile c_isspace (ws @ p) = dropWhile c_isspace p"
  by (induction ws) auto

lemma parse_skip: "list_all c_isspace ws \<Longrightarrow> parse_items n (ws @ p) tab = parse_items n p tab"
  by (simp only: parse_items.simps [of n "ws @ p"] parse_items.simps [of n p] drop_spaces)

lemma drop_separators: "list_all separator ws \<Longrightarrow> dropWhile separator (ws @ p) = dropWhile separator p"
  by (induction ws) auto

lemma spaces_separate: "list_all c_isspace ws \<Longrightarrow> list_all separator ws"
  by (auto simp: list_all_iff separator_def)

text \<open>Behind a value: white space, the separator, and white space.\<close>

lemma parse_behind:
  assumes "follows rest" "list_all c_isspace ws"
  shows "parse_items n (dropWhile separator (ws @ rest)) tab = (if rest = [] then (tab, None) else parse_items n (tl rest) tab)"
proof (cases "rest = []")
  case True
  have none: "dropWhile separator ws = []" using spaces_separate [OF assms(2)] by (simp add: list_all_iff)
  show ?thesis unfolding True append_Nil2 none by (simp add: parse_items.simps [of n "[]"])
next
  case False
  then obtain sep us c r where rest: "rest = sep # us @ c # r" "sep = 124 \<or> sep = 44" "list_all c_isspace us" "name_char c"
    using assms(1) by (auto simp: follows_def)
  have "dropWhile separator (ws @ rest) = dropWhile separator (us @ c # r)"
    using drop_separators [OF spaces_separate [OF assms(2)]] rest(1,2) by (auto simp: separator_def)
  also have "\<dots> = c # r" using drop_separators [OF spaces_separate [OF rest(3)]] name_no_space [OF rest(4)] by simp
  finally show ?thesis using rest(1) parse_skip [OF rest(3)] by simp
qed

lemma parse_item:
  assumes "item_ok it" "follows rest"
  shows "parse_items n (write_item it @ rest) tab =
     (if rest = [] then (tab @ [it_pair it], None) else parse_items n (tl rest) (tab @ [it_pair it]))"
proof -
  obtain name v where t: "it_pair it = (name, v)" by fastforce
  let ?q = "it_quoted it" and ?a = "it_after it"
  have spaces: "list_all c_isspace (it_before it)" "list_all c_isspace ?a" and name: "plain_name name"
    using assms(1) t by (simp_all add: item_ok_def)
  obtain c cs where c: "name = c # cs" "name_char c" using name by (cases name) (auto simp: plain_name_def)
  have skip: "parse_items n (write_item it @ rest) tab = parse_items n (write_pair ?q (name, v) @ ?a @ rest) tab"
    using parse_skip [OF spaces(1)] by (simp add: write_item_def t)
  have no_space: "dropWhile c_isspace (name @ r) = name @ r" for r
    using c name_no_space by simp
  have nm: "takeWhile name_char (name @ r) = name" "dropWhile name_char (name @ r) = r"
    if "r = [] \<or> \<not> name_char (hd r)" for r
    using takeWhile_plain [of name_char name r] name that by (auto simp: plain_name_def)
  have first: "?a @ rest = [] \<or> c_isspace (hd (?a @ rest)) \<or> hd (?a @ rest) = 124 \<or> hd (?a @ rest) = 44"
    using spaces(2) assms(2) by (cases ?a) (auto simp: follows_def)
  have behind: "?a @ rest = [] \<or> \<not> name_char (hd (?a @ rest))" "?a @ rest = [] \<or> hd (?a @ rest) \<noteq> 58"
    "?a @ rest = [] \<or> \<not> value_char (hd (?a @ rest))"
    using first by (auto simp: name_char_def value_char_def c_isspace_def)
  show ?thesis
  proof (cases v)
    case None
    have "dropWhile c_isspace (?a @ rest) = rest"
      using drop_spaces [OF spaces(2)] assms(2) by (auto simp: follows_def c_isspace_def)
    then show ?thesis
      using None no_space [of "?a @ rest"] nm [OF behind(1)] behind(2) assms(2) c unfolding skip t
      by (subst parse_items.simps) (auto simp: Let_def follows_def)
  next
    case (Some val)
    have bar: "\<not> name_char 58" by (simp add: name_char_def)
    have "parse_items n (write_pair ?q (name, v) @ ?a @ rest) tab = parse_items n (dropWhile separator (?a @ rest)) (tab @ [(name, v)])"
    proof (cases ?q)
      case True
      have q: "quoted n [] (escape_value val @ 39 # ?a @ rest) = Inr (val, ?a @ rest)"
        using quoted_escape [of n "[]"] by simp
      show ?thesis
        using Some True no_space [of "58 # 39 # escape_value val @ 39 # ?a @ rest"] nm [of "58 # 39 # escape_value val @ 39 # ?a @ rest"]
          bar c q
        by (subst parse_items.simps) (simp add: Let_def write_value_def)
    next
      case False
      then have val: "val \<noteq> []" "hd val \<noteq> 39" "list_all value_char val" using assms(1) t Some
        by (auto simp: item_ok_def plain_value_def)
      have h: "value_char (hd val)" using val by (cases val) auto
      have vv: "takeWhile value_char (val @ ?a @ rest) = val" "dropWhile value_char (val @ ?a @ rest) = ?a @ rest"
        using takeWhile_plain [OF val(3) behind(3)] by simp_all
      show ?thesis
        using Some False no_space [of "58 # val @ ?a @ rest"] nm [of "58 # val @ ?a @ rest"] bar vv val h c
        by (subst parse_items.simps) (simp add: Let_def value_char_def write_value_def)
    qed
    then show ?thesis unfolding skip parse_behind [OF assms(2) spaces(2)] t .
  qed
qed

lemma parse_list:
  assumes "list_all item_ok its" "sep = 124 \<or> sep = 44"
  shows "parse_items n (write_items sep its) tab = (tab @ map it_pair its, None)"
  using assms
proof (induction sep its arbitrary: tab rule: write_items.induct)
  case (1 sep)
  then show ?case by (simp add: parse_items.simps)
next
  case (2 sep it)
  then show ?case using parse_item [of it "[]"] by (simp add: follows_def)
next
  case (3 sep it u us)
  obtain c cs where c: "fst (it_pair u) = c # cs" "name_char c"
    using 3 by (cases "fst (it_pair u)") (auto simp: item_ok_def plain_name_def)
  have "\<exists>r. write_items sep (u # us) = it_before u @ c # r"
    using c by (cases us; cases "it_pair u"; cases "snd (it_pair u)") (auto simp: write_item_def)
  then have "follows (sep # write_items sep (u # us))" using 3 c(2) by (auto simp: follows_def item_ok_def)
  then show ?case using 3 parse_item [of it "sep # write_items sep (u # us)"] by simp
qed

text \<open>Pairs written without quotes and white space.\<close>

fun show_pair :: "bytes \<times> bytes option \<Rightarrow> bytes" where
  "show_pair (name, None) = name"
| "show_pair (name, Some v) = name @ 58 # v"

definition plain_pair :: "bytes \<times> bytes option \<Rightarrow> bool" where
  "plain_pair t \<longleftrightarrow> plain_name (fst t) \<and> (case snd t of None \<Rightarrow> True | Some v \<Rightarrow> plain_value v)"

fun show_pairs :: "byte \<Rightarrow> pairs \<Rightarrow> bytes" where
  "show_pairs sep [] = []"
| "show_pairs sep [t] = show_pair t"
| "show_pairs sep (t # ts) = show_pair t @ sep # show_pairs sep ts"

definition bare_item :: "bytes \<times> bytes option \<Rightarrow> item" where
  "bare_item t = \<lparr>it_before = [], it_pair = t, it_quoted = False, it_after = []\<rparr>"

lemma write_bare: "write_item (bare_item t) = show_pair t"
  by (cases t rule: show_pair.cases) (simp_all add: write_item_def bare_item_def write_value_def)

lemma write_bares: "write_items sep (map bare_item ts) = show_pairs sep ts"
  by (induction sep ts rule: show_pairs.induct) (simp_all add: write_bare)

lemma parse_pairs:
  assumes "list_all plain_pair ts" "sep = 124 \<or> sep = 44"
  shows "parse_items n (show_pairs sep ts) tab = (tab @ ts, None)"
proof -
  have "list_all item_ok (map bare_item ts)"
    using assms(1) by (auto simp: list_all_iff item_ok_def plain_pair_def bare_item_def split: option.splits)
  then show ?thesis
    using parse_list [OF _ assms(2), of "map bare_item ts" n tab] by (simp add: write_bares comp_def) (simp add: bare_item_def)
qed

lemma parse_generic_pairs:
  "list_all plain_pair ts \<Longrightarrow> sep = 124 \<or> sep = 44 \<Longrightarrow> msre_parse_generic (show_pairs sep ts) = (ts, None)"
  using parse_pairs [of ts sep _ "[]"] by (simp add: msre_parse_generic_def)

lemma generate_from_run:
  "list_all (\<lambda>v. var_name v \<noteq> []) vs \<Longrightarrow>
   generate_from (Some s) vs = Some (s @ concat (map (\<lambda>v. 124 # show_var v) vs))"
  by (induction vs arbitrary: s) auto

text \<open>The pair a variable is written as.\<close>

definition pair_of :: "msre_var \<Rightarrow> bytes \<times> bytes option" where
  "pair_of v = ((if var_negated v then [33] else []) @ (if var_counting v then [38] else []) @ var_name v, var_param v)"

lemma show_pair_of: "show_pair (pair_of v) = show_var v"
  by (simp add: pair_of_def show_var_def split: option.splits)

text \<open>A variable as the engine creates it, with a parameter that needs no quotes.\<close>

definition plain_var :: "var_engine \<Rightarrow> msre_var \<Rightarrow> bool" where
  "plain_var engine v \<longleftrightarrow>
     plain_name (var_name v) \<and> (case var_param v of None \<Rightarrow> True | Some p \<Rightarrow> plain_value p) \<and>
     \<not> (var_negated v \<and> var_counting v) \<and>
     (\<not> var_negated v \<and> \<not> var_counting v \<longrightarrow> hd (var_name v) \<noteq> 33 \<and> hd (var_name v) \<noteq> 38) \<and>
     \<not> (5 < length (var_name v) \<and> take 5 (var_name v) = http_prefix) \<and>
     (case resolve_var engine (var_name v) of
        None \<Rightarrow> False
      | Some meta \<Rightarrow>
          \<not> (var_counting v \<and> vm_simple meta) \<and>
          (case var_param v of None \<Rightarrow> vm_argc_min meta = 0 | Some _ \<Rightarrow> vm_argc_max meta \<noteq> 0) \<and>
          var_value v = [] \<and> var_len v = 0 \<and> var_cacheable v = vm_cacheable meta \<and>
          var_availability v = vm_availability meta) \<and>
     validate_var engine v = None"

lemma plain_var_pair: "plain_var engine v \<Longrightarrow> plain_pair (pair_of v)"
  by (auto simp: plain_var_def plain_pair_def pair_of_def plain_name_def name_char_def c_isspace_def)

lemma create_plain:
  assumes "plain_var engine v"
  shows "msre_create_var engine (fst (pair_of v)) (snd (pair_of v)) = Inr v"
proof -
  obtain meta where meta: "resolve_var engine (var_name v) = Some meta"
    using assms by (auto simp: plain_var_def split: option.splits)
  have ne: "var_name v \<noteq> []" using assms by (simp add: plain_var_def plain_name_def)
  let ?n = "fst (pair_of v)"
  have split: "(?n \<noteq> [] \<and> hd ?n = 33) = var_negated v" "(?n \<noteq> [] \<and> hd ?n = 38) = var_counting v"
    "(if var_negated v \<or> var_counting v then tl ?n else ?n) = var_name v"
    using assms ne by (auto simp: pair_of_def plain_var_def)
  have no_http: "\<not> (5 < length (var_name v) \<and> take 5 (var_name v) = http_prefix)" using assms by (simp add: plain_var_def)
  have param: "snd (pair_of v) = var_param v" by (simp add: pair_of_def)
  have flags: "\<not> (var_counting v \<and> vm_simple meta)" "\<not> (var_param v = None \<and> 0 < vm_argc_min meta)"
    "\<not> (var_param v \<noteq> None \<and> vm_argc_max meta = 0)" "var_value v = []" "var_len v = 0"
    "var_cacheable v = vm_cacheable meta" "var_availability v = vm_availability meta"
    using assms meta by (simp_all add: plain_var_def split: option.splits)
  have "msre_create_var_ex engine ?n (snd (pair_of v)) = Inr v"
    unfolding msre_create_var_ex_def Let_def split param if_not_P [OF no_http] meta option.case if_not_P [OF flags(1)]
      if_not_P [OF flags(2)] if_not_P [OF flags(3)]
    using flags(4-7) by simp
  then show ?thesis using assms by (simp add: msre_create_var_def plain_var_def)
qed

lemma create_vars_plain:
  "list_all (plain_var engine) vs \<Longrightarrow> create_vars engine (map pair_of vs) arr = (arr @ vs, None)"
proof (induction vs arbitrary: arr)
  case (Cons v vs)
  then show ?case using create_plain [of engine v] by (simp add: pair_of_def)
qed simp

lemma show_pairs_of:
  "v # vs \<noteq> [] \<Longrightarrow> show_pairs 124 (map pair_of (v # vs)) = show_var v @ concat (map (\<lambda>v. 124 # show_var v) vs)"
  by (induction vs arbitrary: v) (simp_all add: show_pair_of)

section \<open>Properties\<close>

text \<open>
  C33: the targets of a rule survive being written out and parsed again: for variables as the engine creates them
  whose parameters need no quotes, parsing what \<open>msre_generate_target_string\<close> writes appends the same variables,
  with their negation, counting and parameters, in the same order.
\<close>

theorem target_string_round_trip:
  assumes "list_all (plain_var engine) vs" "vs \<noteq> []"
  shows "case msre_generate_target_string vs of
     None \<Rightarrow> False
   | Some text \<Rightarrow> msre_parse_targets engine text arr = (arr @ vs, None)"
proof -
  obtain v ws where vs: "vs = v # ws" using assms(2) by (cases vs) auto
  have ne: "list_all (\<lambda>v. var_name v \<noteq> []) vs"
    using assms(1) by (auto simp: list_all_iff plain_var_def plain_name_def)
  have str: "msre_generate_target_string vs = Some (show_pairs 124 (map pair_of vs))"
    using ne vs show_pairs_of [of v ws] generate_from_run [of ws "show_var v"]
    by (simp add: msre_generate_target_string_def)
  have "list_all plain_pair (map pair_of vs)"
    using assms(1) plain_var_pair by (auto simp: list_all_iff)
  then show ?thesis
    using str parse_pairs [of "map pair_of vs" 124] create_vars_plain [OF assms(1)]
    by (simp add: msre_parse_targets_def msre_parse_generic_def)
qed

text \<open>
  C32: a list of actions or targets of any length, with commas or with bars in between and white space around its items, is
  parsed to exactly its pairs of names and values, without an error. A name is nonempty and holds no white space, colon,
  comma or bar. A value may be any bytes, or empty, when it is written in single quotes with a backslash before every quote
  and backslash (\<^verbatim>\<open>msg:'it\'s, here'\<close>); a nonempty value without white space, commas and bars that does not start with
  a quote may also be written as it is.
\<close>

theorem parse_generic_round_trip:
  assumes "list_all item_ok its" "sep = 124 \<or> sep = 44"
  shows "msre_parse_generic (write_items sep its) = (map it_pair its, None)"
  using parse_list [OF assms, of _ "[]"] by (simp add: msre_parse_generic_def)

text \<open>An engine that knows the collection \<^verbatim>\<open>ARGS\<close>.\<close>

definition args_engine :: var_engine where
  "args_engine = \<lparr>resolve_var = (\<lambda>n. if n = [65, 82, 71, 83] then
       Some \<lparr>vm_simple = False, vm_argc_min = 0, vm_argc_max = 1, vm_cacheable = True, vm_availability = 2\<rparr> else None),
     validate_var = (\<lambda>_. None)\<rparr>"

definition args_var :: "bytes option \<Rightarrow> bool \<Rightarrow> bool \<Rightarrow> msre_var" where
  "args_var p neg cnt = \<lparr>var_name = [65, 82, 71, 83], var_value = [], var_len = 0, var_param = p, var_negated = neg,
     var_counting = cnt, var_cacheable = True, var_availability = 2\<rparr>"

theorem target_string_round_trip_witness:
  "let vs = [args_var None False True, args_var (Some [102, 111, 111]) True False] in
   msre_generate_target_string vs = Some [38, 65, 82, 71, 83, 124, 33, 65, 82, 71, 83, 58, 102, 111, 111] \<and>
   msre_parse_targets args_engine [38, 65, 82, 71, 83, 124, 33, 65, 82, 71, 83, 58, 102, 111, 111] [] = (vs, None)"
proof -
  let ?vs = "[args_var None False True, args_var (Some [102, 111, 111]) True False]"
  have "list_all (plain_var args_engine) ?vs"
    by (simp add: plain_var_def args_var_def args_engine_def plain_name_def plain_value_def name_char_def value_char_def
        c_isspace_def)
  from target_string_round_trip [OF this, of "[]"] show ?thesis
    by (simp add: msre_generate_target_string_def show_var_def args_var_def)
qed

text \<open>\<^verbatim>\<open>t:a, msg:'x\', ' \<close>\<close>

theorem parse_generic_round_trip_witness:
  "msre_parse_generic [116, 58, 97, 44, 32, 109, 115, 103, 58, 39, 120, 92, 39, 44, 32, 39, 32] =
     ([([116], Some [97]), ([109, 115, 103], Some [120, 39, 44, 32])], None)"
  using parse_generic_round_trip [of "[\<lparr>it_before = [], it_pair = ([116], Some [97]), it_quoted = False, it_after = []\<rparr>,
      \<lparr>it_before = [32], it_pair = ([109, 115, 103], Some [120, 39, 44, 32]), it_quoted = True, it_after = [32]\<rparr>]" 44]
  by (simp add: item_ok_def write_item_def write_value_def escape_value_def plain_name_def plain_value_def name_char_def
      value_char_def c_isspace_def)

text \<open>
  a parameter that was written in quotes is written back without them, and what was one variable becomes
  two, the second of them unknown.
\<close>

theorem target_string_drops_quotes:
  "msre_parse_targets args_engine [65, 82, 71, 83, 58, 39, 97, 32, 98, 39] [] = ([args_var (Some [97, 32, 98]) False False], None) \<and>
   msre_generate_target_string [args_var (Some [97, 32, 98]) False False] = Some [65, 82, 71, 83, 58, 97, 32, 98] \<and>
   msre_parse_targets args_engine [65, 82, 71, 83, 58, 97, 32, 98] [] =
     ([args_var (Some [97]) False False], Some (Inr (Unknown_variable [98])))"
  by (simp add: msre_parse_targets_def msre_parse_generic_def parse_items.simps Let_def name_char_def value_char_def
      separator_def c_isspace_def msre_create_var_def msre_create_var_ex_def args_engine_def args_var_def
      msre_generate_target_string_def show_var_def)

end
