(* ===== verification/ActionTable.thy ===== *)
theory ActionTable
  imports RuleExec RuleParser
begin

text \<open>
  The actions a rule can have (\<^verbatim>\<open>apache2/re_actions.c\<close>): the metadata of each, the table the engine registers, and
  the functions that validate the parameter of an action and that note the action in the action set when the
  configuration is read. Strings are byte lists without their NUL. A result \<^term>\<open>None\<close> is a read through NULL.
\<close>

definition ascii :: "string \<Rightarrow> bytes" where
  "ascii s = map of_char s"

lemma of_char_byte_eq: "(of_char c :: byte) = of_char d \<longleftrightarrow> c = d"
proof
  assume "(of_char c :: byte) = of_char d"
  then have "(of_nat (of_char c) :: byte) = of_nat (of_char d)" by (simp only: of_nat_of_char)
  then have "take_bit 8 (of_char c :: nat) = take_bit 8 (of_char d)"
    by (simp add: word_of_nat_eq_iff)
  then have "(of_char c :: nat) = of_char d"
    by (simp add: take_bit_eq_mod)
  then show "c = d" by simp
qed simp

lemma ascii_eq [simp]: "ascii s = ascii t \<longleftrightarrow> s = t"
  unfolding ascii_def by (rule inj_map_eq_map) (simp add: inj_def of_char_byte_eq)

lemma c_isupper_of_nat: "n < 256 \<Longrightarrow> c_isupper (word_of_nat n) \<longleftrightarrow> 65 \<le> n \<and> n \<le> 90"
  by (simp add: c_isupper_def word_le_nat_alt unat_of_nat)

lemma c_tolower_of_char: "c_tolower (of_char c) = of_char (lower_char c)"
proof -
  let ?n = "of_char c :: nat"
  have n: "?n < 256" by simp
  have c: "(of_char c :: byte) = word_of_nat ?n" by (simp only: of_nat_of_char)
  show ?thesis
  proof (cases "65 \<le> ?n \<and> ?n \<le> 90")
    case True
    have "(of_char (char_of (?n + 32) :: char) :: nat) = ?n + 32" using True by simp
    then have "(of_char (char_of (?n + 32) :: char) :: byte) = word_of_nat (?n + 32)"
      by (metis of_nat_of_char)
    then show ?thesis using True n c by (simp add: c_tolower_def c_isupper_of_nat lower_char_def Let_def)
  next
    case False
    then show ?thesis using n c by (auto simp: c_tolower_def c_isupper_of_nat lower_char_def Let_def)
  qed
qed

lemma ci_equal_ascii [simp]: "ci_equal (ascii s) (ascii t) \<longleftrightarrow> map lower_char s = map lower_char t"
proof -
  have "map c_tolower (ascii s) = ascii (map lower_char s)" for s by (simp add: ascii_def c_tolower_of_char)
  then show ?thesis by (simp add: ci_equal_def)
qed

text \<open>A pointer field of an action set: \<^verbatim>\<open>NOT_SET_P\<close>, NULL, or what it points to.\<close>

datatype 'a cptr = NOT_SET_P | NULL_P | Ptr 'a

fun of_param :: "'a option \<Rightarrow> 'a cptr" where
  "of_param None = NULL_P"
| "of_param (Some x) = Ptr x"

section \<open>Metadata\<close>

datatype cardinality = ACTION_CARDINALITY_ONE | ACTION_CARDINALITY_MANY

datatype cgroup = ACTION_CGROUP_NONE | ACTION_CGROUP_DISRUPTIVE | ACTION_CGROUP_LOG | ACTION_CGROUP_AUDITLOG

text \<open>The function pointers of the metadata, by the names of the functions.\<close>

datatype validate_fn = No_validate | allow_validate | ctl_validate | exec_validate | id_validate
  | pause_validate | phase_validate | proxy_validate | redirect_validate | skipAfter_validate
  | skip_validate | status_validate | t_validate | xmlns_validate

datatype init_fn = No_init | accuracy_init | allow_init | auditlog_init | block_init | chain_init
  | ctl_init | deny_init | drop_init | id_init | log_init | logdata_init | marker_init | maturity_init
  | msg_init | noauditlog_init | nolog_init | pass_init | pause_init | phase_init | proxy_init
  | redirect_init | rev_init | sanitizeMatchedBytes_init | severity_init | skipAfter_init | skip_init
  | status_init | t_init | ver_init

datatype execute_fn = No_execute | append_execute | ctl_execute | deprecatevar_execute | exec_execute
  | expirevar_execute | initcol_execute | prepend_execute | proxy_execute | redirect_execute
  | sanitizeArg_execute | sanitizeMatched_execute | sanitizeRequestHeader_execute
  | sanitizeResponseHeader_execute | setenv_execute | setrsc_execute | setsid_execute | setuid_execute
  | setvar_parse

record action_metadata =
  am_name :: string
  am_type :: action_type
  am_argc_min :: nat
  am_argc_max :: nat
  am_plusminus :: bool
  am_cardinality :: cardinality
  am_cgroup :: cgroup
  am_validate :: validate_fn
  am_init :: init_fn
  am_execute :: execute_fn

text \<open>The metadata \<open>msre_engine_action_register\<close> puts into the table of the engine.\<close>

definition register ::
  "string \<Rightarrow> action_type \<Rightarrow> nat \<Rightarrow> nat \<Rightarrow> bool \<Rightarrow> cardinality \<Rightarrow> cgroup \<Rightarrow> validate_fn \<Rightarrow> init_fn \<Rightarrow> execute_fn \<Rightarrow>
   action_metadata" where
  "register name type argc_min argc_max allow_param_plusminus cardinality cardinality_group validate init execute =
     \<lparr>am_name = name, am_type = type, am_argc_min = argc_min, am_argc_max = argc_max,
      am_plusminus = allow_param_plusminus, am_cardinality = cardinality, am_cgroup = cardinality_group,
      am_validate = validate, am_init = init, am_execute = execute\<rparr>"

text \<open>What \<open>msre_engine_register_default_actions\<close> registers, in its order.\<close>

definition metadata_actions :: "action_metadata list" where
  "metadata_actions =
    [register ''id'' ACTION_METADATA 1 1 False ACTION_CARDINALITY_ONE ACTION_CGROUP_NONE
       id_validate id_init No_execute,
     register ''marker'' ACTION_METADATA 1 1 False ACTION_CARDINALITY_ONE ACTION_CGROUP_NONE
       No_validate marker_init No_execute,
     register ''rev'' ACTION_METADATA 1 1 False ACTION_CARDINALITY_ONE ACTION_CGROUP_NONE
       No_validate rev_init No_execute,
     register ''msg'' ACTION_METADATA 1 1 False ACTION_CARDINALITY_ONE ACTION_CGROUP_NONE
       No_validate msg_init No_execute,
     register ''logdata'' ACTION_METADATA 1 1 False ACTION_CARDINALITY_ONE ACTION_CGROUP_NONE
       No_validate logdata_init No_execute,
     register ''accuracy'' ACTION_METADATA 1 1 False ACTION_CARDINALITY_ONE ACTION_CGROUP_NONE
       No_validate accuracy_init No_execute,
     register ''maturity'' ACTION_METADATA 1 1 False ACTION_CARDINALITY_ONE ACTION_CGROUP_NONE
       No_validate maturity_init No_execute,
     register ''ver'' ACTION_METADATA 1 1 False ACTION_CARDINALITY_ONE ACTION_CGROUP_NONE
       No_validate ver_init No_execute,
     register ''severity'' ACTION_METADATA 1 1 False ACTION_CARDINALITY_ONE ACTION_CGROUP_NONE
       No_validate severity_init No_execute]"

definition flow_actions :: "action_metadata list" where
  "flow_actions =
    [register ''chain'' ACTION_FLOW 0 0 False ACTION_CARDINALITY_ONE ACTION_CGROUP_NONE
       No_validate chain_init No_execute,
     register ''log'' ACTION_NON_DISRUPTIVE 0 0 False ACTION_CARDINALITY_ONE ACTION_CGROUP_LOG
       No_validate log_init No_execute,
     register ''nolog'' ACTION_NON_DISRUPTIVE 0 0 False ACTION_CARDINALITY_ONE ACTION_CGROUP_LOG
       No_validate nolog_init No_execute,
     register ''auditlog'' ACTION_NON_DISRUPTIVE 0 0 False ACTION_CARDINALITY_ONE ACTION_CGROUP_AUDITLOG
       No_validate auditlog_init No_execute,
     register ''noauditlog'' ACTION_NON_DISRUPTIVE 0 0 False ACTION_CARDINALITY_ONE ACTION_CGROUP_AUDITLOG
       No_validate noauditlog_init No_execute]"

definition disruptive_actions :: "action_metadata list" where
  "disruptive_actions =
    [register ''block'' ACTION_DISRUPTIVE 0 0 False ACTION_CARDINALITY_ONE ACTION_CGROUP_DISRUPTIVE
       No_validate block_init No_execute,
     register ''deny'' ACTION_DISRUPTIVE 0 0 False ACTION_CARDINALITY_ONE ACTION_CGROUP_DISRUPTIVE
       No_validate deny_init No_execute,
     register ''status'' ACTION_DISRUPTIVE 1 1 False ACTION_CARDINALITY_ONE ACTION_CGROUP_NONE
       status_validate status_init No_execute,
     register ''drop'' ACTION_DISRUPTIVE 0 0 False ACTION_CARDINALITY_ONE ACTION_CGROUP_DISRUPTIVE
       No_validate drop_init No_execute,
     register ''pause'' ACTION_DISRUPTIVE 1 1 False ACTION_CARDINALITY_ONE ACTION_CGROUP_NONE
       pause_validate pause_init No_execute,
     register ''redirect'' ACTION_DISRUPTIVE 1 1 False ACTION_CARDINALITY_ONE ACTION_CGROUP_DISRUPTIVE
       redirect_validate redirect_init redirect_execute,
     register ''proxy'' ACTION_DISRUPTIVE 1 1 False ACTION_CARDINALITY_ONE ACTION_CGROUP_DISRUPTIVE
       proxy_validate proxy_init proxy_execute,
     register ''pass'' ACTION_DISRUPTIVE 0 0 False ACTION_CARDINALITY_ONE ACTION_CGROUP_DISRUPTIVE
       No_validate pass_init No_execute,
     register ''skip'' ACTION_DISRUPTIVE 1 1 False ACTION_CARDINALITY_ONE ACTION_CGROUP_DISRUPTIVE
       skip_validate skip_init No_execute,
     register ''skipAfter'' ACTION_DISRUPTIVE 1 1 False ACTION_CARDINALITY_ONE ACTION_CGROUP_DISRUPTIVE
       skipAfter_validate skipAfter_init No_execute,
     register ''allow'' ACTION_DISRUPTIVE 0 1 False ACTION_CARDINALITY_ONE ACTION_CGROUP_DISRUPTIVE
       allow_validate allow_init No_execute,
     register ''phase'' ACTION_DISRUPTIVE 1 1 False ACTION_CARDINALITY_ONE ACTION_CGROUP_NONE
       phase_validate phase_init No_execute]"

definition plain_actions :: "action_metadata list" where
  "plain_actions =
    [register ''t'' ACTION_NON_DISRUPTIVE 1 1 True ACTION_CARDINALITY_MANY ACTION_CGROUP_NONE
       t_validate t_init No_execute,
     register ''ctl'' ACTION_NON_DISRUPTIVE 1 1 False ACTION_CARDINALITY_MANY ACTION_CGROUP_NONE
       ctl_validate ctl_init ctl_execute,
     register ''xmlns'' ACTION_NON_DISRUPTIVE 1 1 False ACTION_CARDINALITY_MANY ACTION_CGROUP_NONE
       xmlns_validate No_init No_execute,
     register ''capture'' ACTION_NON_DISRUPTIVE 0 0 False ACTION_CARDINALITY_ONE ACTION_CGROUP_NONE
       No_validate No_init No_execute,
     register ''sanitiseArg'' ACTION_NON_DISRUPTIVE 1 1 False ACTION_CARDINALITY_MANY ACTION_CGROUP_NONE
       No_validate No_init sanitizeArg_execute,
     register ''sanitiseMatchedBytes'' ACTION_NON_DISRUPTIVE 0 1 False ACTION_CARDINALITY_MANY ACTION_CGROUP_NONE
       No_validate sanitizeMatchedBytes_init sanitizeMatched_execute,
     register ''sanitizeMatchedBytes'' ACTION_NON_DISRUPTIVE 0 1 False ACTION_CARDINALITY_MANY ACTION_CGROUP_NONE
       No_validate sanitizeMatchedBytes_init sanitizeMatched_execute,
     register ''sanitizeArg'' ACTION_NON_DISRUPTIVE 1 1 False ACTION_CARDINALITY_MANY ACTION_CGROUP_NONE
       No_validate No_init sanitizeArg_execute]"

definition sanitize_actions :: "action_metadata list" where
  "sanitize_actions =
    [register ''sanitiseMatched'' ACTION_NON_DISRUPTIVE 0 0 False ACTION_CARDINALITY_MANY ACTION_CGROUP_NONE
       No_validate No_init sanitizeMatched_execute,
     register ''sanitizeMatched'' ACTION_NON_DISRUPTIVE 0 0 False ACTION_CARDINALITY_MANY ACTION_CGROUP_NONE
       No_validate No_init sanitizeMatched_execute,
     register ''sanitiseRequestHeader'' ACTION_NON_DISRUPTIVE 1 1 False ACTION_CARDINALITY_MANY ACTION_CGROUP_NONE
       No_validate No_init sanitizeRequestHeader_execute,
     register ''sanitizeRequestHeader'' ACTION_NON_DISRUPTIVE 1 1 False ACTION_CARDINALITY_MANY ACTION_CGROUP_NONE
       No_validate No_init sanitizeRequestHeader_execute,
     register ''sanitiseResponseHeader'' ACTION_NON_DISRUPTIVE 1 1 False ACTION_CARDINALITY_MANY ACTION_CGROUP_NONE
       No_validate No_init sanitizeResponseHeader_execute,
     register ''sanitizeResponseHeader'' ACTION_NON_DISRUPTIVE 1 1 False ACTION_CARDINALITY_MANY ACTION_CGROUP_NONE
       No_validate No_init sanitizeResponseHeader_execute]"

definition collection_actions :: "action_metadata list" where
  "collection_actions =
    [register ''setenv'' ACTION_NON_DISRUPTIVE 1 1 False ACTION_CARDINALITY_MANY ACTION_CGROUP_NONE
       No_validate No_init setenv_execute,
     register ''setvar'' ACTION_NON_DISRUPTIVE 1 1 False ACTION_CARDINALITY_MANY ACTION_CGROUP_NONE
       No_validate No_init setvar_parse,
     register ''expirevar'' ACTION_NON_DISRUPTIVE 1 1 False ACTION_CARDINALITY_MANY ACTION_CGROUP_NONE
       No_validate No_init expirevar_execute,
     register ''deprecatevar'' ACTION_NON_DISRUPTIVE 1 1 False ACTION_CARDINALITY_MANY ACTION_CGROUP_NONE
       No_validate No_init deprecatevar_execute,
     register ''initcol'' ACTION_NON_DISRUPTIVE 1 1 False ACTION_CARDINALITY_MANY ACTION_CGROUP_NONE
       No_validate No_init initcol_execute,
     register ''setsid'' ACTION_NON_DISRUPTIVE 1 1 False ACTION_CARDINALITY_ONE ACTION_CGROUP_NONE
       No_validate No_init setsid_execute,
     register ''setrsc'' ACTION_NON_DISRUPTIVE 1 1 False ACTION_CARDINALITY_ONE ACTION_CGROUP_NONE
       No_validate No_init setrsc_execute,
     register ''setuid'' ACTION_NON_DISRUPTIVE 1 1 False ACTION_CARDINALITY_ONE ACTION_CGROUP_NONE
       No_validate No_init setuid_execute]"

definition other_actions :: "action_metadata list" where
  "other_actions =
    [register ''exec'' ACTION_NON_DISRUPTIVE 1 1 False ACTION_CARDINALITY_MANY ACTION_CGROUP_NONE
       exec_validate No_init exec_execute,
     register ''multiMatch'' ACTION_NON_DISRUPTIVE 0 0 False ACTION_CARDINALITY_ONE ACTION_CGROUP_NONE
       No_validate No_init No_execute,
     register ''tag'' ACTION_METADATA 1 1 False ACTION_CARDINALITY_MANY ACTION_CGROUP_NONE
       No_validate No_init No_execute,
     register ''prepend'' ACTION_NON_DISRUPTIVE 1 1 False ACTION_CARDINALITY_ONE ACTION_CGROUP_NONE
       No_validate No_init prepend_execute,
     register ''append'' ACTION_NON_DISRUPTIVE 1 1 False ACTION_CARDINALITY_ONE ACTION_CGROUP_NONE
       No_validate No_init append_execute]"

definition default_actions :: "action_metadata list" where
  "default_actions =
     metadata_actions @ flow_actions @ disruptive_actions @ plain_actions @ sanitize_actions @ collection_actions @ other_actions"

section \<open>Actions and action sets\<close>

text \<open>\<open>act_tfn\<close> is what \<^verbatim>\<open>param_data\<close> of a \<^verbatim>\<open>t\<close> action points to. \<open>act_sign\<close> is \<^verbatim>\<open>param_plusminus\<close>.\<close>

datatype plusminus = ABSOLUTE_VALUE | POSITIVE_VALUE | NEGATIVE_VALUE

record act =
  act_meta :: action_metadata
  act_param :: "bytes option"
  act_tfn :: "msre_tfn_metadata option"
  act_sign :: plusminus

text \<open>The table of the actions is its list of entries; the rule an action set belongs to is named by its address.\<close>

record actionset =
  s_actions :: "(bytes \<times> act) list"
  s_id :: "bytes cptr"
  s_rev :: "bytes cptr"
  s_msg :: "bytes cptr"
  s_logdata :: "bytes cptr"
  s_version :: "bytes cptr"
  s_maturity :: int
  s_accuracy :: int
  s_severity :: int
  s_phase :: int
  s_rule :: "nat cptr"
  s_arg_min :: int
  s_arg_max :: int
  s_is_chained :: int
  s_skip_count :: int
  s_skip_after :: "bytes cptr"
  s_intercept_action :: int
  s_intercept_uri :: "bytes cptr"
  s_intercept_status :: int
  s_intercept_pause :: "bytes cptr"
  s_parent_intercept_action_rec :: "act cptr"
  s_intercept_action_rec :: "act cptr"
  s_parent_intercept_action :: int
  s_log :: int
  s_auditlog :: int
  s_block :: int

text \<open>The parameters: the tables of actions and transformations of the engine, PCRE, the Lua compiler (when built
  with one), which gives a message or NULL, and the operations of APR tables.\<close>

record act_engine =
  ae_resolve :: "bytes \<Rightarrow> action_metadata option"
  ae_tfn :: "bytes \<Rightarrow> msre_tfn_metadata option"
  ae_pregcomp :: "bytes \<Rightarrow> bool"
  ae_lua_compile :: "(bytes \<Rightarrow> bytes option) option"
  ae_setn :: "(bytes \<times> act) list \<Rightarrow> bytes \<Rightarrow> act \<Rightarrow> (bytes \<times> act) list"
  ae_unset :: "(bytes \<times> act) list \<Rightarrow> bytes \<Rightarrow> (bytes \<times> act) list"

section \<open>Constants\<close>

definition ACTION_DENY :: int where
  "ACTION_DENY = 1"

definition ACTION_REDIRECT :: int where
  "ACTION_REDIRECT = 2"

definition ACTION_PROXY :: int where
  "ACTION_PROXY = 3"

definition ACTION_DROP :: int where
  "ACTION_DROP = 4"

definition ACTION_ALLOW :: int where
  "ACTION_ALLOW = 5"

definition ACTION_ALLOW_REQUEST :: int where
  "ACTION_ALLOW_REQUEST = 6"

definition ACTION_ALLOW_PHASE :: int where
  "ACTION_ALLOW_PHASE = 7"

definition ACTION_PAUSE :: int where
  "ACTION_PAUSE = 8"

section \<open>Validation\<close>

datatype validate_error = Invalid_id bytes | Invalid_allow bytes | Invalid_tfn bytes | Ctl_missing_value bytes
  | Ctl_invalid bytes bytes | Ctl_regex bytes | Ctl_hard_limit | Ctl_variable bytes | Ctl_unknown bytes
  | Xmlns_missing_href bytes | Lua_message bytes

text \<open>\<^verbatim>\<open>strtol(s, NULL, 10)\<close>; \<open>c_atoi\<close> cuts the result to an \<^verbatim>\<open>int\<close>.\<close>

definition c_strtol :: "bytes \<Rightarrow> int" where
  "c_strtol s =
     (let s = dropWhile c_isspace s;
          neg = (s \<noteq> [] \<and> hd s = 45);
          s = (if s \<noteq> [] \<and> (hd s = 45 \<or> hd s = 43) then tl s else s);
          v = strtol_acc 10 0 s
      in (if neg then max (- v) (- (2 ^ 63)) else min v (2 ^ 63 - 1)))"

lemma c_atoi_strtol: "c_atoi s = sint (word_of_int (c_strtol s) :: 32 word)"
  unfolding c_atoi_def c_strtol_def Let_def by (rule refl)

definition LONG_MAX :: int where
  "LONG_MAX = 2 ^ 63 - 1"

definition LONG_MIN :: int where
  "LONG_MIN = - (2 ^ 63)"

definition BODY_HARD_LIMIT :: int where
  "BODY_HARD_LIMIT = 1073741824"

definition act_id_validate :: "bytes \<Rightarrow> validate_error option" where
  "act_id_validate param =
     (if \<not> list_all c_isdigit param then Some (Invalid_id param)
      else
        let i = c_atoi param in
        if i = LONG_MAX \<or> i = LONG_MIN \<or> i \<le> 0 then Some (Invalid_id param) else None)"

definition act_allow_validate :: "bytes \<Rightarrow> validate_error option" where
  "act_allow_validate param =
     (if ci_equal param (ascii ''phase'') then None
      else if ci_equal param (ascii ''request'') then None
      else Some (Invalid_allow param))"

definition is_valid_parts_specification :: "bytes \<Rightarrow> bool" where
  "is_valid_parts_specification p = list_all (\<lambda>c. c = 90 \<or> (65 \<le> c \<and> c \<le> 75)) p"

definition ctl_body_limit :: "bytes \<Rightarrow> bytes \<Rightarrow> validate_error option" where
  "ctl_body_limit name val =
     (let limit = c_strtol val in
      if limit = LONG_MAX \<or> limit = LONG_MIN \<or> limit \<le> 0 then Some (Ctl_invalid name val)
      else if limit > BODY_HARD_LIMIT then Some Ctl_hard_limit else None)"

definition one_of :: "bytes \<Rightarrow> string list \<Rightarrow> bool" where
  "one_of val names = list_ex (\<lambda>n. ci_equal val (ascii n)) names"

definition ctl_validate_value :: "act_engine \<Rightarrow> bytes \<Rightarrow> bytes \<Rightarrow> validate_error option" where
  "ctl_validate_value e name val =
     (let named = (\<lambda>n. ci_equal name (ascii n)); invalid = Some (Ctl_invalid name val) in
      if named ''ruleEngine'' then (if one_of val [''on'', ''off'', ''detectiononly''] then None else invalid)
      else if named ''ruleRemoveById'' then None
      else if named ''ruleRemoveByTag'' then (if \<not> ae_pregcomp e val then Some (Ctl_regex val) else None)
      else if named ''ruleRemoveByMsg'' then (if \<not> ae_pregcomp e val then Some (Ctl_regex val) else None)
      else if named ''requestBodyAccess'' then (if parse_boolean (Some val) = -1 then invalid else None)
      else if named ''requestBodyProcessor'' then None
      else if named ''forceRequestBodyVariable'' then (if one_of val [''on'', ''off''] then None else invalid)
      else if named ''responseBodyAccess'' then (if parse_boolean (Some val) = -1 then invalid else None)
      else if named ''auditEngine'' then (if one_of val [''on'', ''off'', ''relevantonly''] then None else invalid)
      else if named ''auditLogParts'' then
        (if val \<noteq> [] \<and> (hd val = 43 \<or> hd val = 45)
         then (if \<not> is_valid_parts_specification (tl val) then invalid else None)
         else (if \<not> is_valid_parts_specification val then invalid else None))
      else if named ''debugLogLevel'' then (if 0 \<le> c_atoi val \<and> c_atoi val \<le> 9 then None else invalid)
      else if named ''requestBodyLimit'' then ctl_body_limit name val
      else if named ''responseBodyLimit'' then ctl_body_limit name val
      else if named ''ruleRemoveTargetById'' then
        (case first_token 59 val of None \<Rightarrow> Some (Ctl_variable name) | Some _ \<Rightarrow> None)
      else if named ''ruleRemoveTargetByTag'' then
        (case first_token 59 val of
           None \<Rightarrow> Some (Ctl_variable name)
         | Some (parm, _) \<Rightarrow> if \<not> ae_pregcomp e parm then Some (Ctl_regex parm) else None)
      else if named ''ruleRemoveTargetByMsg'' then
        (case first_token 59 val of
           None \<Rightarrow> Some (Ctl_variable name)
         | Some (parm, _) \<Rightarrow> if \<not> ae_pregcomp e parm then Some (Ctl_regex parm) else None)
      else if named ''HashEnforcement'' then (if one_of val [''on'', ''off''] then None else invalid)
      else if named ''HashEngine'' then (if one_of val [''on'', ''off''] then None else invalid)
      else Some (Ctl_unknown name))"

text \<open>The call of \<open>parse_name_eq_value\<close>, which returns 1 for a parameter that is not NULL.\<close>

definition name_and_value :: "bytes \<Rightarrow> (bytes \<times> bytes option) option" where
  "name_and_value param =
     (case parse_name_eq_value (Some (param @ [0])) of
        Some (_, Some (Some name, val)) \<Rightarrow> Some (name, val)
      | _ \<Rightarrow> None)"

definition act_ctl_validate :: "act_engine \<Rightarrow> bytes \<Rightarrow> validate_error option option" where
  "act_ctl_validate e param = do {
     (name, val) \<leftarrow> name_and_value param;
     Some (case val of None \<Rightarrow> Some (Ctl_missing_value name) | Some v \<Rightarrow> ctl_validate_value e name v) }"

definition act_xmlns_validate :: "bytes \<Rightarrow> validate_error option option" where
  "act_xmlns_validate param = do {
     (name, val) \<leftarrow> name_and_value param;
     Some (case val of None \<Rightarrow> Some (Xmlns_missing_href name) | Some v \<Rightarrow> None) }"

definition act_exec_validate :: "act_engine \<Rightarrow> bytes \<Rightarrow> validate_error option" where
  "act_exec_validate e param =
     (case ae_lua_compile e of
        None \<Rightarrow> None
      | Some compile \<Rightarrow>
          if 4 < length param \<and> drop (length param - 4) param = ascii ''.lua'' then map_option Lua_message (compile param)
          else None)"

text \<open>The call through the \<^verbatim>\<open>validate\<close> pointer, for an action with a parameter. Only \<^verbatim>\<open>t\<close> changes the action.\<close>

definition run_validate :: "act_engine \<Rightarrow> act \<Rightarrow> (validate_error + act) option" where
  "run_validate e a =
     (let result = (\<lambda>err. case err of None \<Rightarrow> Inr a | Some msg \<Rightarrow> Inl msg) in
      case am_validate (act_meta a) of
        id_validate \<Rightarrow> do { param \<leftarrow> act_param a; Some (result (act_id_validate param)) }
      | allow_validate \<Rightarrow> do { param \<leftarrow> act_param a; Some (result (act_allow_validate param)) }
      | t_validate \<Rightarrow> do {
          param \<leftarrow> act_param a;
          Some (case ae_tfn e param of None \<Rightarrow> Inl (Invalid_tfn param) | Some meta \<Rightarrow> Inr (a\<lparr>act_tfn := Some meta\<rparr>)) }
      | ctl_validate \<Rightarrow> do { param \<leftarrow> act_param a; err \<leftarrow> act_ctl_validate e param; Some (result err) }
      | xmlns_validate \<Rightarrow> do { param \<leftarrow> act_param a; err \<leftarrow> act_xmlns_validate param; Some (result err) }
      | exec_validate \<Rightarrow> do { param \<leftarrow> act_param a; Some (result (act_exec_validate e param)) }
      | status_validate \<Rightarrow> Some (Inr a)
      | pause_validate \<Rightarrow> Some (Inr a)
      | redirect_validate \<Rightarrow> Some (Inr a)
      | proxy_validate \<Rightarrow> Some (Inr a)
      | skip_validate \<Rightarrow> Some (Inr a)
      | skipAfter_validate \<Rightarrow> Some (Inr a)
      | phase_validate \<Rightarrow> Some (Inr a)
      | No_validate \<Rightarrow> Some (Inr a))"

section \<open>Noting an action in its action set\<close>

definition sanitize_range :: "bytes option \<Rightarrow> (int \<times> int) option" where
  "sanitize_range param =
     (case param of
        Some p \<Rightarrow>
          if length p = 3 then do {
            (parse_parm, savedptr) \<leftarrow> first_token 47 p;
            if c_isdigit (hd parse_parm) \<and> savedptr \<noteq> [] \<and> c_isdigit (hd savedptr)
            then Some (c_atoi savedptr, c_atoi parse_parm) else Some (0, 0) }
          else Some (0, 0)
      | None \<Rightarrow> Some (0, 0))"

definition severity_of :: "bytes \<Rightarrow> int" where
  "severity_of param =
     (if ci_equal param (ascii ''emergency'') then 0
      else if ci_equal param (ascii ''alert'') then 1
      else if ci_equal param (ascii ''critical'') then 2
      else if ci_equal param (ascii ''error'') then 3
      else if ci_equal param (ascii ''warning'') then 4
      else if ci_equal param (ascii ''notice'') then 5
      else if ci_equal param (ascii ''info'') then 6
      else if ci_equal param (ascii ''debug'') then 7
      else c_atoi param)"

definition phase_of :: "bytes \<Rightarrow> int" where
  "phase_of param =
     (if ci_equal param (ascii ''request'') then 2
      else if ci_equal param (ascii ''response'') then 4
      else if ci_equal param (ascii ''logging'') then 5
      else c_atoi param)"

definition skip_of :: "bytes \<Rightarrow> int" where
  "skip_of param = (if c_atoi param \<le> 0 then 1 else c_atoi param)"

definition allow_of :: "bytes option \<Rightarrow> int" where
  "allow_of param =
     (case param of
        None \<Rightarrow> ACTION_ALLOW
      | Some p \<Rightarrow>
          if ci_equal p (ascii ''phase'') then ACTION_ALLOW_PHASE
          else if ci_equal p (ascii ''request'') then ACTION_ALLOW_REQUEST
          else ACTION_ALLOW)"

text \<open>The call through the \<^verbatim>\<open>init\<close> pointer.\<close>

definition run_init :: "act \<Rightarrow> actionset \<Rightarrow> actionset option" where
  "run_init a s =
     (let param = act_param a; deref = of_param param; intercept = (\<lambda>v. s\<lparr>s_intercept_action := v, s_intercept_action_rec := Ptr a\<rparr>) in
      case am_init (act_meta a) of
        No_init \<Rightarrow> Some s
      | marker_init \<Rightarrow> Some (s\<lparr>s_id := deref\<rparr>)
      | id_init \<Rightarrow> Some (s\<lparr>s_id := deref\<rparr>)
      | rev_init \<Rightarrow> Some (s\<lparr>s_rev := deref\<rparr>)
      | msg_init \<Rightarrow> Some (s\<lparr>s_msg := deref\<rparr>)
      | logdata_init \<Rightarrow> Some (s\<lparr>s_logdata := deref\<rparr>)
      | sanitizeMatchedBytes_init \<Rightarrow>
          map_option (\<lambda>(arg_min, arg_max). s\<lparr>s_arg_min := arg_min, s_arg_max := arg_max\<rparr>) (sanitize_range param)
      | accuracy_init \<Rightarrow> map_option (\<lambda>p. s\<lparr>s_accuracy := c_atoi p\<rparr>) param
      | maturity_init \<Rightarrow> map_option (\<lambda>p. s\<lparr>s_maturity := c_atoi p\<rparr>) param
      | ver_init \<Rightarrow> Some (s\<lparr>s_version := deref\<rparr>)
      | severity_init \<Rightarrow> map_option (\<lambda>p. s\<lparr>s_severity := severity_of p\<rparr>) param
      | chain_init \<Rightarrow> Some (s\<lparr>s_is_chained := 1\<rparr>)
      | log_init \<Rightarrow> Some (s\<lparr>s_log := 1\<rparr>)
      | nolog_init \<Rightarrow> Some (s\<lparr>s_log := 0, s_auditlog := 0\<rparr>)
      | auditlog_init \<Rightarrow> Some (s\<lparr>s_auditlog := 1\<rparr>)
      | noauditlog_init \<Rightarrow> Some (s\<lparr>s_auditlog := 0\<rparr>)
      | block_init \<Rightarrow> Some (s\<lparr>s_block := 1\<rparr>)
      | deny_init \<Rightarrow> Some (intercept ACTION_DENY)
      | status_init \<Rightarrow> map_option (\<lambda>p. s\<lparr>s_intercept_status := c_atoi p\<rparr>) param
      | drop_init \<Rightarrow> Some (intercept ACTION_DROP)
      | pause_init \<Rightarrow> Some (s\<lparr>s_intercept_action := ACTION_PAUSE, s_intercept_pause := deref\<rparr>)
      | redirect_init \<Rightarrow> Some ((intercept ACTION_REDIRECT)\<lparr>s_intercept_uri := deref\<rparr>)
      | proxy_init \<Rightarrow> Some ((intercept ACTION_PROXY)\<lparr>s_intercept_uri := deref\<rparr>)
      | pass_init \<Rightarrow> Some (intercept ACTION_NONE)
      | skip_init \<Rightarrow> map_option (\<lambda>p. s\<lparr>s_skip_count := skip_of p\<rparr>) param
      | skipAfter_init \<Rightarrow> Some (s\<lparr>s_skip_after := deref\<rparr>)
      | allow_init \<Rightarrow> Some (intercept (allow_of param))
      | phase_init \<Rightarrow> map_option (\<lambda>p. s\<lparr>s_phase := phase_of p\<rparr>) param
      | t_init \<Rightarrow> Some s
      | ctl_init \<Rightarrow> Some s)"

section \<open>Facts about the table\<close>

lemmas default_actions_defs = default_actions_def metadata_actions_def flow_actions_def disruptive_actions_def
  plain_actions_def sanitize_actions_def collection_actions_def other_actions_def register_def

lemma default_action_names: "distinct (map (\<lambda>m. map lower_char (am_name m)) default_actions)"
  by (simp add: default_actions_defs lower_char_def Let_def)

text \<open>Names that differ in case only are the same action.\<close>

lemma default_action_unique:
  assumes "m \<in> set default_actions" "m' \<in> set default_actions" "ci_equal (ascii (am_name m)) (ascii (am_name m'))"
  shows "m = m'"
proof -
  have "inj_on (\<lambda>m. map lower_char (am_name m)) (set default_actions)"
    using default_action_names by (simp add: distinct_map)
  then show ?thesis using assms by (auto dest: inj_onD)
qed

text \<open>An action whose \<open>init\<close> function reads the parameter must have one.\<close>

definition reads_param :: "init_fn \<Rightarrow> bool" where
  "reads_param f \<longleftrightarrow> f \<in> {accuracy_init, maturity_init, severity_init, status_init, skip_init, phase_init}"

lemma default_actions_read: "list_all (\<lambda>m. reads_param (am_init m) \<longrightarrow> 0 < am_argc_min m) default_actions"
  by (simp add: default_actions_defs reads_param_def)

lemma default_actions_sanitize:
  "list_all (\<lambda>m. am_init m = sanitizeMatchedBytes_init \<longrightarrow> \<not> am_plusminus m) default_actions"
  by (simp add: default_actions_defs)

end
