(* ===== verification/ActionSet.thy ===== *)
theory ActionSet
  imports ActionTable
begin

text \<open>
  Action sets of \<^verbatim>\<open>apache2/re.c\<close>: creating an action from its name and parameter, adding it to a set (at most one
  action of a cardinality group stays), creating a set from text, copying, merging and completing sets, and writing
  the actions back as text. A result \<^term>\<open>None\<close> is a read through NULL or a loop that does not end.
\<close>

section \<open>Creating actions\<close>

datatype action_error = Unknown_action bytes | Missing_action_parameter bytes | Extra_parameter bytes
  | No_modificators bytes | Not_valid validate_error | Parse_error parse_error

definition msre_create_action :: "act_engine \<Rightarrow> bytes \<Rightarrow> bytes option \<Rightarrow> (action_error + act) option" where
  "msre_create_action e name param =
     (case ae_resolve e name of
        None \<Rightarrow> Some (Inl (Unknown_action name))
      | Some meta \<Rightarrow>
          let a = \<lparr>act_meta = meta, act_param = None, act_tfn = None, act_sign = ABSOLUTE_VALUE\<rparr> in
          case param of
            None \<Rightarrow> Some (if 0 < am_argc_min meta then Inl (Missing_action_parameter name) else Inr a)
          | Some p \<Rightarrow>
              if am_argc_max meta = 0 then Some (Inl (Extra_parameter name))
              else
                let signed = (p \<noteq> [] \<and> (hd p = 43 \<or> hd p = 45)) in
                if signed \<and> \<not> am_plusminus meta then Some (Inl (No_modificators name))
                else do {
                  r \<leftarrow> run_validate e
                    (if signed then a\<lparr>act_param := Some (tl p), act_sign := (if hd p = 43 then POSITIVE_VALUE else NEGATIVE_VALUE)\<rparr>
                     else a\<lparr>act_param := Some p\<rparr>);
                  Some (case r of Inl err \<Rightarrow> Inl (Not_valid err) | Inr a \<Rightarrow> Inr a) })"

section \<open>Adding an action\<close>

abbreviation name_of :: "act \<Rightarrow> bytes" where
  "name_of a \<equiv> ascii (am_name (act_meta a))"

abbreviation group_of :: "act \<Rightarrow> cgroup" where
  "group_of a \<equiv> am_cgroup (act_meta a)"

text \<open>The loop re-reads the number of elements after each removal, but does not stay at the position.\<close>

partial_function (option) fixup_loop ::
  "act_engine \<Rightarrow> cgroup \<Rightarrow> nat \<Rightarrow> (bytes \<times> act) list \<Rightarrow> (bytes \<times> act) list option" where
  "fixup_loop e g i tab =
     (if i < length tab then
        fixup_loop e g (i + 1)
          (if group_of (snd (tab ! i)) = g then ae_unset e tab (name_of (snd (tab ! i))) else tab)
      else Some tab)"

definition msre_actionset_cardinality_fixup :: "act_engine \<Rightarrow> (bytes \<times> act) list \<Rightarrow> act \<Rightarrow> (bytes \<times> act) list option" where
  "msre_actionset_cardinality_fixup e tab a = fixup_loop e (group_of a) 0 tab"

text \<open>The placeholder \<^verbatim>\<open>block\<close> stands for the action of the parent.\<close>

definition revert_block :: "actionset \<Rightarrow> act \<Rightarrow> actionset \<times> act" where
  "revert_block s a =
     (case s_parent_intercept_action_rec s of
        Ptr p \<Rightarrow>
          if am_name (act_meta a) = ''block'' then (s\<lparr>s_intercept_action := s_parent_intercept_action s\<rparr>, p) else (s, a)
      | _ \<Rightarrow> (s, a))"

definition msre_actionset_action_add :: "act_engine \<Rightarrow> actionset \<Rightarrow> act \<Rightarrow> actionset option" where
  "msre_actionset_action_add e s a =
     (case revert_block s a of (s, a) \<Rightarrow> do {
        tab \<leftarrow> (if group_of a \<noteq> ACTION_CGROUP_NONE then msre_actionset_cardinality_fixup e (s_actions s) a
               else Some (s_actions s));
        Some (s\<lparr>s_actions :=
          (if am_cardinality (act_meta a) = ACTION_CARDINALITY_ONE then ae_setn e tab (name_of a) a
           else tab @ [(name_of a, a)])\<rparr>) })"

section \<open>Creating action sets\<close>

fun add_actions :: "act_engine \<Rightarrow> pairs \<Rightarrow> actionset \<Rightarrow> (action_error + actionset) option" where
  "add_actions e [] s = Some (Inr s)"
| "add_actions e ((name, param) # tab) s = do {
     r \<leftarrow> msre_create_action e name param;
     case r of
       Inl err \<Rightarrow> Some (Inl err)
     | Inr a \<Rightarrow> do {
         s \<leftarrow> run_init a s;
         s \<leftarrow> msre_actionset_action_add e s a;
         add_actions e tab s } }"

definition msre_parse_actions :: "act_engine \<Rightarrow> actionset \<Rightarrow> bytes \<Rightarrow> (action_error + actionset) option" where
  "msre_parse_actions e s text =
     (case msre_parse_generic text of
        (tab, Some err) \<Rightarrow> Some (Inl (Parse_error err))
      | (tab, None) \<Rightarrow> add_actions e tab s)"

definition NOT_SET :: int where
  "NOT_SET = -1"

definition empty_actionset :: actionset where
  "empty_actionset =
     \<lparr>s_actions = [], s_id = NOT_SET_P, s_rev = NOT_SET_P, s_msg = NOT_SET_P, s_logdata = NOT_SET_P,
      s_version = NOT_SET_P, s_maturity = -1, s_accuracy = -1, s_severity = -1, s_phase = NOT_SET, s_rule = NOT_SET_P,
      s_arg_min = -1, s_arg_max = -1, s_is_chained = NOT_SET, s_skip_count = NOT_SET, s_skip_after = NOT_SET_P,
      s_intercept_action = NOT_SET, s_intercept_uri = NOT_SET_P, s_intercept_status = NOT_SET,
      s_intercept_pause = NOT_SET_P, s_parent_intercept_action_rec = NOT_SET_P, s_intercept_action_rec = NOT_SET_P,
      s_parent_intercept_action = NOT_SET, s_log = NOT_SET, s_auditlog = NOT_SET, s_block = 0\<rparr>"

definition msre_actionset_create :: "act_engine \<Rightarrow> bytes option \<Rightarrow> (action_error + actionset) option" where
  "msre_actionset_create e text =
     (case text of None \<Rightarrow> Some (Inr empty_actionset) | Some t \<Rightarrow> msre_parse_actions e empty_actionset t)"

definition msre_actionset_create_default :: "act_engine \<Rightarrow> (action_error + actionset) option" where
  "msre_actionset_create_default e = msre_actionset_create e (Some (ascii ''phase:2,log,auditlog,pass''))"

section \<open>Merging\<close>

text \<open>\<^verbatim>\<open>if (child->f != NOT_SET) merged->f = child->f;\<close>\<close>

definition over :: "int \<Rightarrow> int \<Rightarrow> int" where
  "over child merged = (if child \<noteq> NOT_SET then child else merged)"

definition over_p :: "'a cptr \<Rightarrow> 'a cptr \<Rightarrow> 'a cptr" where
  "over_p child merged = (if child \<noteq> NOT_SET_P then child else merged)"

definition merge_fields :: "actionset \<Rightarrow> actionset \<Rightarrow> actionset" where
  "merge_fields child merged =
     (let merged = merged
        \<lparr>s_id := over_p (s_id child) (s_id merged), s_rev := over_p (s_rev child) (s_rev merged),
         s_msg := over_p (s_msg child) (s_msg merged), s_version := over_p (s_version child) (s_version merged),
         s_logdata := over_p (s_logdata child) (s_logdata merged), s_severity := over (s_severity child) (s_severity merged),
         s_accuracy := over (s_accuracy child) (s_accuracy merged), s_maturity := over (s_maturity child) (s_maturity merged),
         s_phase := over (s_phase child) (s_phase merged), s_rule := over_p (s_rule child) (s_rule merged),
         s_arg_min := over (s_arg_min child) (s_arg_min merged), s_arg_max := over (s_arg_max child) (s_arg_max merged),
         s_is_chained := s_is_chained child, s_skip_count := over (s_skip_count child) (s_skip_count merged),
         s_skip_after := over_p (s_skip_after child) (s_skip_after merged)\<rparr>;
      merged =
        (if s_intercept_action child \<noteq> NOT_SET then
           merged\<lparr>s_intercept_action_rec := s_intercept_action_rec child, s_intercept_action := s_intercept_action child,
             s_intercept_uri := s_intercept_uri child\<rparr>
         else merged)
      in merged
        \<lparr>s_intercept_status := over (s_intercept_status child) (s_intercept_status merged),
         s_intercept_pause := over_p (s_intercept_pause child) (s_intercept_pause merged),
         s_auditlog := over (s_auditlog child) (s_auditlog merged), s_log := over (s_log child) (s_log merged)\<rparr>)"

fun add_all :: "act_engine \<Rightarrow> act list \<Rightarrow> actionset \<Rightarrow> actionset option" where
  "add_all e [] s = Some s"
| "add_all e (a # as) s = do { s \<leftarrow> msre_actionset_action_add e s a; add_all e as s }"

text \<open>The shallow copy of an action set has the same value.\<close>

definition msre_actionset_merge ::
  "act_engine \<Rightarrow> actionset option \<Rightarrow> actionset option \<Rightarrow> bool \<Rightarrow> actionset option option" where
  "msre_actionset_merge e parent child inherit_by_default =
     (if \<not> inherit_by_default then Some child
      else case parent of
        None \<Rightarrow> Some None
      | Some merged \<Rightarrow>
          (case child of
             None \<Rightarrow> Some (Some merged)
           | Some child \<Rightarrow> map_option Some (add_all e (map snd (s_actions child)) (merge_fields child merged))))"

section \<open>Defaults\<close>

definition dflt :: "int \<Rightarrow> int \<Rightarrow> int" where
  "dflt v d = (if v = NOT_SET then d else v)"

definition dflt_p :: "'a cptr \<Rightarrow> 'a cptr" where
  "dflt_p v = (if v = NOT_SET_P then NULL_P else v)"

definition msre_actionset_set_defaults :: "actionset \<Rightarrow> actionset" where
  "msre_actionset_set_defaults s = s
     \<lparr>s_id := dflt_p (s_id s), s_rev := dflt_p (s_rev s), s_msg := dflt_p (s_msg s), s_version := dflt_p (s_version s),
      s_logdata := dflt_p (s_logdata s), s_phase := dflt (s_phase s) 2, s_rule := dflt_p (s_rule s),
      s_arg_max := dflt (s_arg_max s) (-1), s_arg_min := dflt (s_arg_min s) (-1),
      s_is_chained := dflt (s_is_chained s) 0, s_skip_count := dflt (s_skip_count s) 0,
      s_skip_after := dflt_p (s_skip_after s),
      s_parent_intercept_action_rec := dflt_p (s_parent_intercept_action_rec s),
      s_intercept_action_rec := dflt_p (s_intercept_action_rec s),
      s_parent_intercept_action := dflt (s_parent_intercept_action s) ACTION_NONE,
      s_intercept_action := dflt (s_intercept_action s) ACTION_NONE, s_intercept_uri := dflt_p (s_intercept_uri s),
      s_intercept_status := dflt (s_intercept_status s) 403, s_intercept_pause := dflt_p (s_intercept_pause s),
      s_auditlog := dflt (s_auditlog s) 1, s_log := dflt (s_log s) 1\<rparr>"

section \<open>Writing actions\<close>

definition skipped_in_chain :: "act \<Rightarrow> bool" where
  "skipped_in_chain a \<longleftrightarrow>
     am_type (act_meta a) = ACTION_DISRUPTIVE \<or> am_type (act_meta a) = ACTION_METADATA \<or>
     am_name (act_meta a) \<in> set [''log'', ''auditlog'', ''nolog'', ''noauditlog'', ''severity'', ''ver'', ''maturity'',
       ''accuracy'', ''tag'', ''phase'']"

definition show_action :: "act \<Rightarrow> bytes" where
  "show_action a =
     (case act_param a of
        None \<Rightarrow> name_of a
      | Some p \<Rightarrow>
          let quote = (if p = [] \<or> list_ex c_isspace p then [39] else []) in
          name_of a @ [58] @ quote @ p @ quote)"

fun show_actions :: "bool \<Rightarrow> bytes option \<Rightarrow> act list \<Rightarrow> bytes option" where
  "show_actions chain str [] = str"
| "show_actions chain str (a # as) =
     show_actions chain
       (if chain \<and> skipped_in_chain a then str
        else Some ((case str of None \<Rightarrow> [] | Some s \<Rightarrow> s @ [44]) @ show_action a)) as"

text \<open>\<open>starter\<close> says of a rule whether its \<^verbatim>\<open>chain_starter\<close> is set; the rule of the action set must not be NULL.\<close>

definition msre_actionset_generate_action_string :: "(nat \<Rightarrow> bool) \<Rightarrow> actionset option \<Rightarrow> bytes option option" where
  "msre_actionset_generate_action_string starter actionset =
     (case actionset of
        None \<Rightarrow> Some None
      | Some s \<Rightarrow>
          (case s_rule s of
             NOT_SET_P \<Rightarrow> Some (show_actions False None (map snd (s_actions s)))
           | Ptr r \<Rightarrow> Some (show_actions (starter r) None (map snd (s_actions s)))
           | NULL_P \<Rightarrow> None))"


section \<open>Laws and invariant\<close>

text \<open>The documented behaviour of an APR table, whose keys are compared without regard to case: \<^verbatim>\<open>apr_table_unset\<close>
  removes the entries with the key, \<^verbatim>\<open>apr_table_setn\<close> leaves one entry with the key, and both leave the other
  entries alone.\<close>

definition table_laws :: "act_engine \<Rightarrow> bool" where
  "table_laws e \<longleftrightarrow>
     (\<forall>t k. ae_unset e t k = filter (\<lambda>x. \<not> ci_equal (fst x) k) t) \<and>
     (\<forall>t k a. filter (\<lambda>x. ci_equal (fst x) k) (ae_setn e t k a) = [(k, a)]) \<and>
     (\<forall>t k a. filter (\<lambda>x. \<not> ci_equal (fst x) k) (ae_setn e t k a) = filter (\<lambda>x. \<not> ci_equal (fst x) k) t)"

text \<open>An engine that knows no other actions than the default ones.\<close>

definition default_engine :: "act_engine \<Rightarrow> bool" where
  "default_engine e \<longleftrightarrow> table_laws e \<and> (\<forall>n m. ae_resolve e n = Some m \<longrightarrow> m \<in> set default_actions)"

definition keyed :: "(bytes \<times> act) list \<Rightarrow> bool" where
  "keyed tab = list_all (\<lambda>x. fst x = name_of (snd x) \<and> act_meta (snd x) \<in> set default_actions) tab"

definition count_of :: "('a \<Rightarrow> bool) \<Rightarrow> 'a list \<Rightarrow> nat" where
  "count_of P xs = length (filter P xs)"

abbreviation in_group :: "cgroup \<Rightarrow> bytes \<times> act \<Rightarrow> bool" where
  "in_group g x \<equiv> group_of (snd x) = g"

abbreviation has_key :: "bytes \<Rightarrow> bytes \<times> act \<Rightarrow> bool" where
  "has_key k x \<equiv> ci_equal (fst x) k"

text \<open>At most one disruptive, one log and one audit log action, and one of each name that may occur once.\<close>

definition exclusive :: "(bytes \<times> act) list \<Rightarrow> bool" where
  "exclusive tab \<longleftrightarrow>
     list_all (\<lambda>g. count_of (in_group g) tab \<le> 1)
       [ACTION_CGROUP_DISRUPTIVE, ACTION_CGROUP_LOG, ACTION_CGROUP_AUDITLOG] \<and>
     list_all (\<lambda>x. am_cardinality (act_meta (snd x)) = ACTION_CARDINALITY_ONE \<longrightarrow> count_of (has_key (fst x)) tab \<le> 1) tab"

definition aset_ok :: "actionset \<Rightarrow> bool" where
  "aset_ok s \<longleftrightarrow> keyed (s_actions s) \<and> exclusive (s_actions s) \<and>
     (case s_parent_intercept_action_rec s of
        Ptr p \<Rightarrow> act_meta p \<in> set default_actions \<and> group_of p = ACTION_CGROUP_DISRUPTIVE
      | _ \<Rightarrow> True)"

lemma exclusive_group: "exclusive tab \<Longrightarrow> g \<noteq> ACTION_CGROUP_NONE \<Longrightarrow> count_of (in_group g) tab \<le> 1"
  by (cases g) (auto simp: exclusive_def)

lemma ci_equal_refl [simp]: "ci_equal k k"
  by (simp add: ci_equal_def)

lemma keyed_same:
  assumes "keyed tab" "x \<in> set tab" "act_meta a \<in> set default_actions" "ci_equal (fst x) (name_of a)"
  shows "act_meta (snd x) = act_meta a"
  using assms default_action_unique by (auto simp: keyed_def list_all_iff)

section \<open>Removing a group\<close>

lemma fixup_none:
  "list_all (\<lambda>x. \<not> in_group g x) tab \<Longrightarrow> fixup_loop e g i tab = Some tab"
proof (induction "length tab - i" arbitrary: i)
  case 0
  then show ?case by (subst fixup_loop.simps) simp
next
  case (Suc n)
  then have i: "i < length tab" "n = length tab - (i + 1)" by auto
  have "fixup_loop e g (i + 1) tab = Some tab" by (rule Suc.hyps(1) [OF i(2) Suc.prems])
  moreover have "\<not> in_group g (tab ! i)" using Suc.prems i(1) by (simp add: list_all_length)
  ultimately show ?case using i(1) by (subst fixup_loop.simps) simp
qed

lemma count_of_one:
  assumes "count_of P xs \<le> 1" "x \<in> set xs" "P x" "y \<in> set xs" "P y"
  shows "x = y"
proof -
  have "x \<in> set (filter P xs)" "y \<in> set (filter P xs)" using assms by auto
  moreover obtain z where "set (filter P xs) \<subseteq> {z}"
  proof (cases "filter P xs")
    case (Cons z zs)
    then have "zs = []" using assms(1) by (simp add: count_of_def)
    then show ?thesis using that [of z] Cons by simp
  qed simp
  ultimately show ?thesis by blast
qed

lemma fixup_loop_removes:
  assumes "table_laws e" "keyed tab" "count_of (in_group g) tab \<le> 1" "list_all (\<lambda>x. \<not> in_group g x) (take i tab)"
  shows "fixup_loop e g i tab = Some (filter (\<lambda>x. \<not> in_group g x) tab)"
  using assms(4)
proof (induction "length tab - i" arbitrary: i)
  case 0
  then have "list_all (\<lambda>x. \<not> in_group g x) tab" by simp
  then show ?case using 0 by (subst fixup_loop.simps) (auto simp: list_all_iff intro: filter_True [symmetric])
next
  case (Suc n)
  then have i: "i < length tab" "n = length tab - (i + 1)" by auto
  show ?case
  proof (cases "in_group g (tab ! i)")
    case True
    let ?x = "tab ! i"
    have x: "?x \<in> set tab" using i(1) by simp
    then have meta: "act_meta (snd ?x) \<in> set default_actions" using assms(2) by (auto simp: keyed_def list_all_iff)
    have key: "fst ?x = name_of (snd ?x)" using assms(2) x by (simp add: keyed_def list_all_iff)
    have same: "has_key (name_of (snd ?x)) y \<longleftrightarrow> in_group g y" if y: "y \<in> set tab" for y
    proof
      assume "has_key (name_of (snd ?x)) y"
      from keyed_same [OF assms(2) y meta this] show "in_group g y" using True by simp
    next
      assume "in_group g y"
      from count_of_one [OF assms(3) x True y this] show "has_key (name_of (snd ?x)) y" using key by simp
    qed
    have "ae_unset e tab (name_of (snd ?x)) = filter (\<lambda>y. \<not> has_key (name_of (snd ?x)) y) tab"
      using assms(1) unfolding table_laws_def by blast
    also have "\<dots> = filter (\<lambda>x. \<not> in_group g x) tab" using same by (intro filter_cong) auto
    finally have unset: "ae_unset e tab (name_of (snd ?x)) = filter (\<lambda>x. \<not> in_group g x) tab" .
    have "fixup_loop e g (i + 1) (filter (\<lambda>x. \<not> in_group g x) tab) = Some (filter (\<lambda>x. \<not> in_group g x) tab)"
      by (rule fixup_none) (simp add: list_all_iff)
    then show ?thesis using i(1) True unset by (subst fixup_loop.simps) simp
  next
    case False
    have "list_all (\<lambda>x. \<not> in_group g x) (take (i + 1) tab)"
      using Suc.prems False i(1) by (simp add: take_Suc_conv_app_nth)
    from Suc.hyps(1) [OF i(2) this] show ?thesis using i(1) False by (subst fixup_loop.simps) simp
  qed
qed

lemma fixup_removes:
  "table_laws e \<Longrightarrow> keyed tab \<Longrightarrow> count_of (in_group (group_of a)) tab \<le> 1 \<Longrightarrow>
   msre_actionset_cardinality_fixup e tab a = Some (filter (\<lambda>x. \<not> in_group (group_of a) x) tab)"
  unfolding msre_actionset_cardinality_fixup_def by (rule fixup_loop_removes) auto

section \<open>Adding an action\<close>

text \<open>The table after the removal, and after the action was added.\<close>

definition without_group :: "cgroup \<Rightarrow> (bytes \<times> act) list \<Rightarrow> (bytes \<times> act) list" where
  "without_group g tab = (if g \<noteq> ACTION_CGROUP_NONE then filter (\<lambda>x. \<not> in_group g x) tab else tab)"

definition put_action :: "act_engine \<Rightarrow> (bytes \<times> act) list \<Rightarrow> act \<Rightarrow> (bytes \<times> act) list" where
  "put_action e tab a =
     (if am_cardinality (act_meta a) = ACTION_CARDINALITY_ONE then ae_setn e tab (name_of a) a else tab @ [(name_of a, a)])"

lemma action_add_run:
  assumes "table_laws e" "keyed (s_actions s)" "exclusive (s_actions s)" "revert_block s a = (s', a')"
  shows "msre_actionset_action_add e s a =
     Some (s'\<lparr>s_actions := put_action e (without_group (group_of a') (s_actions s)) a'\<rparr>)"
proof -
  have s': "s_actions s' = s_actions s" using assms(4) by (auto simp: revert_block_def split: cptr.splits if_splits)
  show ?thesis
    using fixup_removes [OF assms(1,2), of a'] exclusive_group [OF assms(3), of "group_of a'"]
    by (simp add: msre_actionset_action_add_def assms(4) s' put_action_def without_group_def)
qed

lemma filter_split: "count_of P xs = count_of (\<lambda>x. P x \<and> Q x) xs + count_of (\<lambda>x. P x \<and> \<not> Q x) xs"
  unfolding count_of_def by (induction xs) auto

lemma setn_key: "table_laws e \<Longrightarrow> filter (has_key k) (ae_setn e t k a) = [(k, a)]"
  and setn_other: "table_laws e \<Longrightarrow> filter (\<lambda>x. \<not> has_key k x) (ae_setn e t k a) = filter (\<lambda>x. \<not> has_key k x) t"
  unfolding table_laws_def by blast+

lemma count_of_and: "count_of (\<lambda>x. P x \<and> Q x) xs = count_of P (filter Q xs)"
  by (simp add: count_of_def conj_commute)

lemma setn_counts:
  assumes "table_laws e"
  shows "count_of P (ae_setn e tab k a) = (if P (k, a) then 1 else 0) + count_of (\<lambda>x. P x \<and> \<not> has_key k x) tab"
  unfolding filter_split [of P "ae_setn e tab k a" "has_key k"] count_of_and
    setn_key [OF assms] setn_other [OF assms]
  by (simp add: count_of_def)

lemma setn_members:
  assumes "table_laws e" "x \<in> set (ae_setn e tab k a)"
  shows "x = (k, a) \<or> x \<in> set tab \<and> \<not> has_key k x"
proof (cases "has_key k x")
  case True
  then have "x \<in> set (filter (has_key k) (ae_setn e tab k a))" using assms(2) by simp
  then show ?thesis unfolding setn_key [OF assms(1)] by simp
next
  case False
  then have "x \<in> set (filter (\<lambda>x. \<not> has_key k x) (ae_setn e tab k a))" using assms(2) by simp
  then show ?thesis unfolding setn_other [OF assms(1)] by simp
qed

lemma put_members: "table_laws e \<Longrightarrow> x \<in> set (put_action e tab a) \<Longrightarrow> x = (name_of a, a) \<or> x \<in> set tab"
  using setn_members [of e x tab "name_of a" a] unfolding put_action_def by (auto split: if_splits)

lemma count_of_mono: "(\<And>x. P x \<Longrightarrow> Q x) \<Longrightarrow> count_of P xs \<le> count_of Q xs"
  unfolding count_of_def by (induction xs) auto

lemma count_of_filter: "count_of P (filter Q xs) = count_of (\<lambda>x. P x \<and> Q x) xs"
  by (simp add: count_of_def conj_commute)

lemma count_of_zero: "(\<And>x. x \<in> set xs \<Longrightarrow> \<not> P x) \<Longrightarrow> count_of P xs = 0"
  by (simp add: count_of_def filter_empty_conv)

text \<open>An entry counted by \<open>P\<close> is added; the others become no more.\<close>

lemma put_counts:
  assumes "table_laws e"
  shows "count_of P (put_action e tab a) \<le> (if P (name_of a, a) then 1 else 0) + count_of P tab"
proof -
  have "count_of (\<lambda>x. P x \<and> \<not> has_key (name_of a) x) tab \<le> count_of P tab" by (rule count_of_mono) simp
  then show ?thesis
    using setn_counts [OF assms, of P tab "name_of a" a] by (simp add: put_action_def) (simp add: count_of_def)
qed

lemma without_group_mono: "count_of P (without_group g tab) \<le> count_of P tab"
  unfolding without_group_def using count_of_mono [of "\<lambda>x. P x \<and> \<not> in_group g x" P tab]
  by (auto simp: count_of_filter)

lemma put_exclusive:
  assumes "table_laws e" "keyed tab" "exclusive tab" "act_meta a \<in> set default_actions"
  shows "keyed (put_action e (without_group (group_of a) tab) a) \<and> exclusive (put_action e (without_group (group_of a) tab) a)"
    (is "keyed ?new \<and> exclusive ?new")
proof
  have sub: "set (without_group (group_of a) tab) \<subseteq> set tab" by (auto simp: without_group_def)
  have mem: "x = (name_of a, a) \<or> x \<in> set tab" if "x \<in> set ?new" for x
    using put_members [OF assms(1) that] sub by auto
  show "keyed ?new" using mem assms(2,4) by (fastforce simp: keyed_def list_all_iff)
  have groups: "count_of (in_group g) ?new \<le> 1" if "g \<noteq> ACTION_CGROUP_NONE" for g
  proof (cases "group_of a = g")
    case True
    then have "count_of (in_group g) (without_group (group_of a) tab) = 0"
      using that by (intro count_of_zero) (auto simp: without_group_def)
    then show ?thesis using put_counts [OF assms(1), of "in_group g" "without_group (group_of a) tab" a] True by simp
  next
    case False
    then show ?thesis
      using put_counts [OF assms(1), of "in_group g" "without_group (group_of a) tab" a]
        without_group_mono [of "in_group g" "group_of a" tab] exclusive_group [OF assms(3) that] by simp
  qed
  have names: "count_of (has_key (fst x)) ?new \<le> 1"
    if x: "x \<in> set ?new" and one: "am_cardinality (act_meta (snd x)) = ACTION_CARDINALITY_ONE" for x
  proof (cases "has_key (fst x) (name_of a, a)")
    case True
    have meta: "act_meta (snd x) = act_meta a"
    proof (cases "x = (name_of a, a)")
      case False
      then have "x \<in> set tab" using mem [OF x] by simp
      moreover have "ci_equal (fst x) (name_of a)" using True by (simp add: ci_equal_def)
      ultimately show ?thesis using keyed_same [OF assms(2) _ assms(4)] by blast
    qed simp
    then have "count_of (has_key (fst x)) ?new =
        1 + count_of (\<lambda>y. has_key (fst x) y \<and> \<not> has_key (name_of a) y) (without_group (group_of a) tab)"
      using one True setn_counts [OF assms(1), of "has_key (fst x)"] by (simp add: put_action_def)
    moreover have "count_of (\<lambda>y. has_key (fst x) y \<and> \<not> has_key (name_of a) y) (without_group (group_of a) tab) = 0"
      using True by (intro count_of_zero) (auto simp: ci_equal_def)
    ultimately show ?thesis by simp
  next
    case False
    then have "x \<in> set tab" using mem [OF x] by auto
    then have "count_of (has_key (fst x)) tab \<le> 1" using assms(3) one by (auto simp: exclusive_def list_all_iff)
    then show ?thesis
      using put_counts [OF assms(1), of "has_key (fst x)" "without_group (group_of a) tab" a] False
        without_group_mono [of "has_key (fst x)" "group_of a" tab] by simp
  qed
  show "exclusive ?new" unfolding exclusive_def using groups names by (auto simp: list_all_iff)
qed

lemma action_add_ok:
  assumes "table_laws e" "aset_ok s" "act_meta a \<in> set default_actions"
  shows "\<exists>s'. msre_actionset_action_add e s a = Some s' \<and> aset_ok s'"
proof -
  obtain s1 a1 where r: "revert_block s a = (s1, a1)" by (cases "revert_block s a")
  have s1: "s_parent_intercept_action_rec s1 = s_parent_intercept_action_rec s" "act_meta a1 \<in> set default_actions"
    using r assms(2,3) by (auto simp: revert_block_def aset_ok_def split: cptr.splits if_splits)
  show ?thesis
    using action_add_run [OF assms(1) _ _ r] put_exclusive [OF assms(1) _ _ s1(2), of "s_actions s"] assms(2) s1
    by (simp add: aset_ok_def)
qed

section \<open>Merging\<close>

text \<open>What an action of the child stands for, the actions of a group, and the actions that may be repeated, in order.\<close>

definition unblock :: "actionset \<Rightarrow> act \<Rightarrow> act" where
  "unblock s a = snd (revert_block s a)"

definition group_actions :: "cgroup \<Rightarrow> actionset \<Rightarrow> act list" where
  "group_actions g s = map snd (filter (in_group g) (s_actions s))"

definition repeatable :: "act \<Rightarrow> bool" where
  "repeatable a \<longleftrightarrow> am_cardinality (act_meta a) = ACTION_CARDINALITY_MANY"

definition repeated :: "actionset \<Rightarrow> act list" where
  "repeated s = filter repeatable (map snd (s_actions s))"

lemma setn_filter:
  assumes "table_laws e" "\<not> P (k, a)" "\<And>x. x \<in> set t \<Longrightarrow> has_key k x \<Longrightarrow> \<not> P x"
  shows "filter P (ae_setn e t k a) = filter P t"
proof -
  have "P x = (\<not> has_key k x \<and> P x)" if "x \<in> set (ae_setn e t k a)" for x
    using setn_members [OF assms(1) that] assms(2) by auto
  then have "filter P (ae_setn e t k a) = filter P (filter (\<lambda>x. \<not> has_key k x) (ae_setn e t k a))"
    unfolding filter_filter by (intro filter_cong) auto
  also have "\<dots> = filter P (filter (\<lambda>x. \<not> has_key k x) t)" unfolding setn_other [OF assms(1)] by (rule refl)
  also have "\<dots> = filter P t" unfolding filter_filter using assms(3) by (intro filter_cong) auto
  finally show ?thesis .
qed

lemma setn_filter_new:
  assumes "table_laws e" "P (k, a)" "\<And>x. x \<in> set t \<Longrightarrow> \<not> P x"
  shows "filter P (ae_setn e t k a) = [(k, a)]"
proof -
  have "P x = (has_key k x \<and> P x)" if "x \<in> set (ae_setn e t k a)" for x
    using setn_members [OF assms(1) that] assms(3) [of x] by auto
  then have "filter P (ae_setn e t k a) = filter P (filter (has_key k) (ae_setn e t k a))"
    unfolding filter_filter by (intro filter_cong) auto
  then show ?thesis unfolding setn_key [OF assms(1)] using assms(2) by simp
qed

lemma default_actions_many: "list_all (\<lambda>m. am_cardinality m = ACTION_CARDINALITY_MANY \<longrightarrow> am_cgroup m = ACTION_CGROUP_NONE) default_actions"
  by (simp add: default_actions_defs)

lemma default_actions_block: "list_all (\<lambda>m. am_name m = ''block'' \<longrightarrow> am_cgroup m = ACTION_CGROUP_DISRUPTIVE) default_actions"
  by (simp add: default_actions_defs)

lemma put_group:
  assumes "table_laws e" "keyed tab" "act_meta a \<in> set default_actions" "g \<noteq> ACTION_CGROUP_NONE"
  shows "filter (in_group g) (put_action e (without_group (group_of a) tab) a) =
     (if group_of a = g then [(name_of a, a)] else filter (in_group g) tab)"
proof (cases "group_of a = g")
  case True
  have none: "\<not> in_group g x" if "x \<in> set (without_group (group_of a) tab)" for x
    using that True assms(4) by (auto simp: without_group_def)
  then have "filter (in_group g) (without_group (group_of a) tab) = []" by (simp add: filter_empty_conv)
  then show ?thesis
    using True setn_filter_new [OF assms(1), of "in_group g" "name_of a" a "without_group (group_of a) tab"] none
    by (simp add: put_action_def)
next
  case False
  have wo: "filter (in_group g) (without_group (group_of a) tab) = filter (in_group g) tab"
    using False by (auto simp: without_group_def intro: filter_cong)
  have "\<not> in_group g x" if "x \<in> set (without_group (group_of a) tab)" "has_key (name_of a) x" for x
    using keyed_same [OF assms(2) _ assms(3), of x] that False by (auto simp: without_group_def split: if_splits)
  then show ?thesis
    using False setn_filter [OF assms(1), of "in_group g" "name_of a" a "without_group (group_of a) tab"] wo
    by (simp add: put_action_def)
qed

lemma put_repeated:
  assumes "table_laws e" "keyed tab" "act_meta a \<in> set default_actions"
  shows "filter (\<lambda>x. repeatable (snd x)) (put_action e (without_group (group_of a) tab) a) =
     filter (\<lambda>x. repeatable (snd x)) tab @ (if repeatable a then [(name_of a, a)] else [])"
proof -
  have wo: "filter (\<lambda>x. repeatable (snd x)) (without_group (group_of a) tab) = filter (\<lambda>x. repeatable (snd x)) tab"
    using assms(2) default_actions_many
    by (auto simp: without_group_def keyed_def list_all_iff repeatable_def intro!: filter_cong)
  show ?thesis
  proof (cases "repeatable a")
    case True
    then show ?thesis using wo by (simp add: put_action_def repeatable_def)
  next
    case False
    then have one: "am_cardinality (act_meta a) = ACTION_CARDINALITY_ONE"
      unfolding repeatable_def by (cases "am_cardinality (act_meta a)") auto
    have "\<not> repeatable (snd x)" if "x \<in> set (without_group (group_of a) tab)" "has_key (name_of a) x" for x
    proof -
      have "x \<in> set tab" using that(1) by (auto simp: without_group_def split: if_splits)
      from keyed_same [OF assms(2) this assms(3) that(2)] show ?thesis using False by (simp add: repeatable_def)
    qed
    then show ?thesis
      using False one setn_filter [OF assms(1), of "\<lambda>x. repeatable (snd x)" "name_of a" a "without_group (group_of a) tab"] wo
      by (simp add: put_action_def)
  qed
qed

lemma unblock_meta:
  assumes "aset_ok s" "act_meta a \<in> set default_actions"
  shows "act_meta (unblock s a) \<in> set default_actions" "group_of (unblock s a) = group_of a"
    "repeatable (unblock s a) = repeatable a" "repeatable a \<Longrightarrow> unblock s a = a"
proof -
  have grp: "group_of a = ACTION_CGROUP_DISRUPTIVE" if "am_name (act_meta a) = ''block''"
    using default_actions_block assms(2) that by (simp add: list_all_iff)
  have many: "\<not> repeatable b" if "group_of b = ACTION_CGROUP_DISRUPTIVE" "act_meta b \<in> set default_actions" for b
    using default_actions_many that by (auto simp: list_all_iff repeatable_def)
  show "act_meta (unblock s a) \<in> set default_actions" "group_of (unblock s a) = group_of a"
    using assms grp by (auto simp: unblock_def revert_block_def aset_ok_def split: cptr.splits)
  show "repeatable (unblock s a) = repeatable a" "repeatable a \<Longrightarrow> unblock s a = a"
    using assms grp many by (auto simp: unblock_def revert_block_def aset_ok_def split: cptr.splits)
qed

text \<open>One addition.\<close>

lemma action_add_step:
  assumes "table_laws e" "aset_ok s" "act_meta a \<in> set default_actions"
  obtains s' where "msre_actionset_action_add e s a = Some s'" "aset_ok s'"
    "s_parent_intercept_action_rec s' = s_parent_intercept_action_rec s"
    "\<And>g. g \<noteq> ACTION_CGROUP_NONE \<Longrightarrow> group_actions g s' = (if group_of a = g then [unblock s a] else group_actions g s)"
    "repeated s' = repeated s @ (if repeatable a then [a] else [])"
proof -
  obtain s1 a1 where r: "revert_block s a = (s1, a1)" by (cases "revert_block s a")
  have a1: "a1 = unblock s a" using r by (simp add: unblock_def)
  note um = unblock_meta [OF assms(2,3)]
  have s1: "s_parent_intercept_action_rec s1 = s_parent_intercept_action_rec s"
    using r by (auto simp: revert_block_def split: cptr.splits if_splits)
  have ok: "keyed (s_actions s)" "exclusive (s_actions s)" using assms(2) by (simp_all add: aset_ok_def)
  let ?s' = "s1\<lparr>s_actions := put_action e (without_group (group_of a1) (s_actions s)) a1\<rparr>"
  have run: "msre_actionset_action_add e s a = Some ?s'" by (rule action_add_run [OF assms(1) ok r])
  have meta: "act_meta a1 \<in> set default_actions" using um(1) a1 by simp
  show ?thesis
  proof (rule that [OF run])
    show "aset_ok ?s'" using put_exclusive [OF assms(1) ok meta] assms(2) s1 by (simp add: aset_ok_def)
    show "s_parent_intercept_action_rec ?s' = s_parent_intercept_action_rec s" using s1 by simp
    show "group_actions g ?s' = (if group_of a = g then [unblock s a] else group_actions g s)"
      if "g \<noteq> ACTION_CGROUP_NONE" for g
      using put_group [OF assms(1) ok(1) meta that] um(2) a1 by (simp add: group_actions_def)
    show "repeated ?s' = repeated s @ (if repeatable a then [a] else [])"
      using put_repeated [OF assms(1) ok(1) meta] um(3,4) a1
      by (auto simp: repeated_def filter_map comp_def)
  qed
qed

lemma unblock_cong: "s_parent_intercept_action_rec s' = s_parent_intercept_action_rec s \<Longrightarrow> unblock s' a = unblock s a"
  by (simp add: unblock_def revert_block_def split: cptr.splits)

lemma add_all_ok:
  assumes "table_laws e"
  shows "aset_ok s \<Longrightarrow> list_all (\<lambda>a. act_meta a \<in> set default_actions) as \<Longrightarrow>
     \<exists>s'. add_all e as s = Some s' \<and> aset_ok s' \<and> s_parent_intercept_action_rec s' = s_parent_intercept_action_rec s \<and>
       (\<forall>g. g \<noteq> ACTION_CGROUP_NONE \<longrightarrow> group_actions g s' =
          (let own = filter (\<lambda>a. group_of a = g) as in
           if own = [] then group_actions g s else [unblock s (last own)])) \<and>
       repeated s' = repeated s @ filter repeatable as"
proof (induction as arbitrary: s)
  case (Cons a as)
  have a: "act_meta a \<in> set default_actions" using Cons.prems(2) by simp
  obtain s1 where s1: "msre_actionset_action_add e s a = Some s1" "aset_ok s1"
    "s_parent_intercept_action_rec s1 = s_parent_intercept_action_rec s"
    "\<And>g. g \<noteq> ACTION_CGROUP_NONE \<Longrightarrow> group_actions g s1 = (if group_of a = g then [unblock s a] else group_actions g s)"
    "repeated s1 = repeated s @ (if repeatable a then [a] else [])"
    by (rule action_add_step [OF assms Cons.prems(1) a]) blast
  obtain s' where s': "add_all e as s1 = Some s'" "aset_ok s'"
    "s_parent_intercept_action_rec s' = s_parent_intercept_action_rec s1"
    "\<And>g. g \<noteq> ACTION_CGROUP_NONE \<Longrightarrow> group_actions g s' =
        (let own = filter (\<lambda>a. group_of a = g) as in
         if own = [] then group_actions g s1 else [unblock s1 (last own)])"
    "repeated s' = repeated s1 @ filter repeatable as"
    using Cons.IH [OF s1(2)] Cons.prems(2) by auto
  have "group_actions g s' = (let own = filter (\<lambda>a. group_of a = g) (a # as) in
         if own = [] then group_actions g s else [unblock s (last own)])" if "g \<noteq> ACTION_CGROUP_NONE" for g
    using s'(4) [OF that] s1(4) [OF that] unblock_cong [OF s1(3)] by (simp add: Let_def)
  then show ?case using s1(1,3,5) s'(1,2,3,5) by simp
qed simp

lemma merge_fields_keeps [simp]:
  "s_actions (merge_fields c p) = s_actions p"
  "s_parent_intercept_action_rec (merge_fields c p) = s_parent_intercept_action_rec p"
  by (simp_all add: merge_fields_def Let_def)

lemma filter_single: "count_of P xs \<le> 1 \<Longrightarrow> filter P xs \<noteq> [] \<Longrightarrow> filter P xs = [last (filter P xs)]"
  by (cases "filter P xs") (auto simp: count_of_def)

text \<open>
  C9: merging the actions of a rule with those it inherits never fails, and the merged set again has at most one
  disruptive, one log and one audit log action: that of the rule where the rule has one (with \<^verbatim>\<open>block\<close> standing for
  the action of the parent) and the inherited one otherwise. Actions that may be repeated, such as transformations,
  are the inherited ones followed by those of the rule, in order.
\<close>

theorem actionset_merge_correct:
  assumes "table_laws e" "aset_ok parent" "aset_ok child"
  shows "\<exists>m. msre_actionset_merge e (Some parent) (Some child) True = Some (Some m) \<and> aset_ok m \<and>
     list_all (\<lambda>g. group_actions g m =
         (if group_actions g child = [] then group_actions g parent else map (unblock parent) (group_actions g child)))
       [ACTION_CGROUP_DISRUPTIVE, ACTION_CGROUP_LOG, ACTION_CGROUP_AUDITLOG] \<and>
     repeated m = repeated parent @ repeated child"
proof -
  let ?as = "map snd (s_actions child)" and ?f = "merge_fields child parent"
  have ok: "aset_ok ?f" using assms(2) by (simp add: aset_ok_def)
  have metas: "list_all (\<lambda>a. act_meta a \<in> set default_actions) ?as"
    using assms(3) by (auto simp: aset_ok_def keyed_def list_all_iff)
  obtain m where m: "add_all e ?as ?f = Some m" "aset_ok m"
    "\<And>g. g \<noteq> ACTION_CGROUP_NONE \<Longrightarrow> group_actions g m =
        (let own = filter (\<lambda>a. group_of a = g) ?as in
         if own = [] then group_actions g ?f else [unblock ?f (last own)])"
    "repeated m = repeated ?f @ filter repeatable ?as"
    using add_all_ok [OF assms(1) ok metas] by auto
  have own: "filter (\<lambda>a. group_of a = g) ?as = group_actions g child" for g
    by (simp add: group_actions_def filter_map comp_def)
  have single: "group_actions g child = [last (group_actions g child)]"
    if "g \<noteq> ACTION_CGROUP_NONE" "group_actions g child \<noteq> []" for g
    using filter_single [OF exclusive_group [OF _ that(1)]] assms(3) that(2)
    unfolding group_actions_def aset_ok_def by (metis (no_types, lifting) last_map list.map(1) list.map(2))
  have ub: "unblock ?f a = unblock parent a" for a by (rule unblock_cong) simp
  have "group_actions g m = (if group_actions g child = [] then group_actions g parent else map (unblock parent) (group_actions g child))"
    if "g \<noteq> ACTION_CGROUP_NONE" for g
  proof (cases "group_actions g child = []")
    case False
    then have "map (unblock parent) (group_actions g child) = [unblock parent (last (group_actions g child))]"
      using single [OF that False] by (metis list.map(1) list.map(2))
    then show ?thesis using m(3) [OF that] False ub unfolding own by (simp add: Let_def)
  qed (use m(3) [OF that] in \<open>simp add: own group_actions_def [of g ?f] group_actions_def [of g parent]\<close>)
  then show ?thesis
    using m(1,2,4) by (simp add: msre_actionset_merge_def repeated_def)
qed

section \<open>Creating from text\<close>

lemma name_and_value_total: "\<exists>name val. name_and_value p = Some (name, val)"
proof -
  have "\<exists>s. c_str (p @ [0]) = Some s" by (induction p) auto
  then show ?thesis by (auto simp: name_and_value_def parse_name_eq_value_def Let_def)
qed

lemma run_validate_total:
  assumes "act_param a = Some p"
  shows "\<exists>r. run_validate e a = Some r \<and> (\<forall>a'. r = Inr a' \<longrightarrow> act_meta a' = act_meta a \<and> act_param a' = act_param a)"
proof -
  obtain name val where nv: "name_and_value p = Some (name, val)" using name_and_value_total by blast
  show ?thesis
    by (cases "am_validate (act_meta a)")
      (auto simp: run_validate_def Let_def assms act_ctl_validate_def act_xmlns_validate_def nv split: option.splits)
qed

text \<open>What the \<open>init\<close> functions rely on.\<close>

definition init_ready :: "act \<Rightarrow> bool" where
  "init_ready a \<longleftrightarrow> act_meta a \<in> set default_actions \<and> (reads_param (am_init (act_meta a)) \<longrightarrow> act_param a \<noteq> None) \<and>
     (am_init (act_meta a) = sanitizeMatchedBytes_init \<longrightarrow> act_param a \<noteq> Some [47, 47, 47])"

lemma sanitize_range_total: "param \<noteq> Some [47, 47, 47] \<Longrightarrow> \<exists>r. sanitize_range param = Some r"
proof (cases param)
  case (Some p)
  assume "param \<noteq> Some [47, 47, 47]"
  then have p: "p \<noteq> [47, 47, 47]" using Some by simp
  show ?thesis
  proof (cases "length p = 3")
    case True
    then obtain a b c where abc: "p = [a, b, c]" by (auto simp: numeral_3_eq_3 length_Suc_conv)
    then have "first_token 47 p \<noteq> None" using p by (auto simp: first_token_def Let_def)
    then show ?thesis using Some True by (auto simp: sanitize_range_def)
  qed (use Some in \<open>simp add: sanitize_range_def\<close>)
qed (simp add: sanitize_range_def)

lemma run_init_total:
  assumes "init_ready a"
  shows "\<exists>s'. run_init a s = Some s' \<and> s_actions s' = s_actions s \<and>
     s_parent_intercept_action_rec s' = s_parent_intercept_action_rec s"
proof -
  obtain lo hi where range: "am_init (act_meta a) = sanitizeMatchedBytes_init \<Longrightarrow> sanitize_range (act_param a) = Some (lo, hi)"
    using assms sanitize_range_total [of "act_param a"] by (cases "am_init (act_meta a) = sanitizeMatchedBytes_init")
      (auto simp: init_ready_def)
  show ?thesis
    using assms range
    by (cases "am_init (act_meta a)") (auto simp: init_ready_def reads_param_def run_init_def Let_def)
qed

lemma create_action_total:
  assumes "default_engine e" "param \<noteq> Some [47, 47, 47]"
  shows "\<exists>r. msre_create_action e name param = Some r \<and> (\<forall>a. r = Inr a \<longrightarrow> init_ready a)"
proof (cases "ae_resolve e name")
  case (Some meta)
  then have meta: "meta \<in> set default_actions" using assms(1) by (auto simp: default_engine_def)
  have needs: "reads_param (am_init meta) \<Longrightarrow> 0 < am_argc_min meta"
    "am_init meta = sanitizeMatchedBytes_init \<Longrightarrow> \<not> am_plusminus meta"
    using default_actions_read default_actions_sanitize meta by (auto simp: list_all_iff)
  show ?thesis
  proof (cases param)
    case None
    then show ?thesis using Some needs meta by (auto simp: msre_create_action_def init_ready_def)
  next
    case (Some p)
    let ?signed = "p \<noteq> [] \<and> (hd p = 43 \<or> hd p = 45)"
    let ?a0 = "\<lparr>act_meta = meta, act_param = None, act_tfn = None, act_sign = ABSOLUTE_VALUE\<rparr>"
    let ?a = "if ?signed then ?a0\<lparr>act_param := Some (tl p), act_sign := (if hd p = 43 then POSITIVE_VALUE else NEGATIVE_VALUE)\<rparr>
      else ?a0\<lparr>act_param := Some p\<rparr>"
    have a: "act_meta ?a = meta" "act_param ?a = Some (if ?signed then tl p else p)" by auto
    obtain r where r: "run_validate e ?a = Some r"
      "\<And>a'. r = Inr a' \<Longrightarrow> act_meta a' = meta \<and> act_param a' = Some (if ?signed then tl p else p)"
      using run_validate_total [OF a(2), of e] unfolding a by blast
    have ready: "init_ready a'" if "r = Inr a'" "\<not> (?signed \<and> \<not> am_plusminus meta)" for a'
      using r(2) [OF that(1)] that(2) meta needs assms(2) Some by (auto simp: init_ready_def)
    show ?thesis
    proof (cases "am_argc_max meta = 0 \<or> ?signed \<and> \<not> am_plusminus meta")
      case True
      then show ?thesis using Some \<open>ae_resolve e name = Some meta\<close> by (auto simp: msre_create_action_def Let_def)
    next
      case False
      then have "msre_create_action e name param = Some (case r of Inl err \<Rightarrow> Inl (Not_valid err) | Inr a \<Rightarrow> Inr a)"
        using Some \<open>ae_resolve e name = Some meta\<close> r(1) unfolding msre_create_action_def Let_def by (auto split: if_splits)
      then show ?thesis using ready False by (auto split: sum.splits)
    qed
  qed
qed (simp add: msre_create_action_def)

lemma add_actions_ok:
  assumes "default_engine e"
  shows "aset_ok s \<Longrightarrow> list_all (\<lambda>t. snd t \<noteq> Some [47, 47, 47]) tab \<Longrightarrow>
     \<exists>r. add_actions e tab s = Some r \<and> (\<forall>s'. r = Inr s' \<longrightarrow> aset_ok s')"
proof (induction tab arbitrary: s)
  case (Cons t tab)
  obtain name param where t: "t = (name, param)" by (cases t)
  obtain r where r: "msre_create_action e name param = Some r" "\<And>a. r = Inr a \<Longrightarrow> init_ready a"
    using create_action_total [OF assms, of param name] Cons.prems(2) t by auto
  show ?case
  proof (cases r)
    case (Inr a)
    obtain s1 where s1: "run_init a s = Some s1" "aset_ok s1"
      using run_init_total [OF r(2) [OF Inr], of s] Cons.prems(1) by (auto simp: aset_ok_def)
    obtain s2 where s2: "msre_actionset_action_add e s1 a = Some s2" "aset_ok s2"
      using action_add_ok [OF _ s1(2), of e a] r(2) [OF Inr] assms by (auto simp: default_engine_def init_ready_def)
    show ?thesis using Cons.IH [OF s2(2)] Cons.prems(2) t r(1) Inr s1(1) s2(1) by simp
  qed (simp add: t r(1))
qed simp

lemma empty_ok: "aset_ok empty_actionset"
  by (simp add: aset_ok_def empty_actionset_def keyed_def exclusive_def count_of_def)

text \<open>
  C10: reading any action list either reports an error or gives an action set with at most one disruptive, one log
  and one audit log action and at most one of every action that may occur once; no action is initialised through a
  NULL parameter, and the loop that removes the members of a group ends. The parameter \<^verbatim>\<open>///\<close> is excluded.
\<close>

theorem actionset_create_exclusive:
  assumes "default_engine e" "list_all (\<lambda>t. snd t \<noteq> Some [47, 47, 47]) (fst (msre_parse_generic text))"
  shows "case msre_actionset_create e (Some text) of
     None \<Rightarrow> False
   | Some (Inl err) \<Rightarrow> True
   | Some (Inr s) \<Rightarrow> aset_ok s"
proof -
  obtain tab err where p: "msre_parse_generic text = (tab, err)" by (cases "msre_parse_generic text")
  show ?thesis
  proof (cases err)
    case None
    then show ?thesis
      using add_actions_ok [OF assms(1) empty_ok, of tab] assms(2) p
      by (auto simp: msre_actionset_create_def msre_parse_actions_def split: sum.splits)
  qed (simp add: msre_actionset_create_def msre_parse_actions_def p)
qed

section \<open>The chain flag\<close>

lemma action_add_chained: "msre_actionset_action_add e s a = Some s' \<Longrightarrow> s_is_chained s' = s_is_chained s"
  by (auto simp: msre_actionset_action_add_def revert_block_def bind_eq_Some_conv split: cptr.splits if_splits)

lemma run_init_chained: "run_init a s = Some s' \<Longrightarrow> s_is_chained s' = s_is_chained s \<or> s_is_chained s' = 1"
  by (cases "am_init (act_meta a)") (auto simp: run_init_def Let_def)

lemma not_Inl: "(\<forall>e. y \<noteq> Inl e) \<longleftrightarrow> (\<exists>a. y = Inr a)"
  by (cases y) auto

lemma add_actions_chained:
  "add_actions e tab s = Some (Inr s') \<Longrightarrow> s_is_chained s' = s_is_chained s \<or> s_is_chained s' = 1"
proof (induction tab arbitrary: s)
  case (Cons t tab)
  obtain name param where t: "t = (name, param)" by (cases t)
  obtain a s1 s2 where run: "run_init a s = Some s1" "msre_actionset_action_add e s1 a = Some s2"
    "add_actions e tab s2 = Some (Inr s')"
    using Cons.prems t by (auto simp: bind_eq_Some_conv not_Inl split: sum.splits)
  show ?case using Cons.IH [OF run(3)] action_add_chained [OF run(2)] run_init_chained [OF run(1)] by auto
qed simp

lemma create_chained: "msre_actionset_create e text = Some (Inr s) \<Longrightarrow> s_is_chained s = NOT_SET \<or> s_is_chained s = 1"
  using add_actions_chained [of e _ empty_actionset s]
  by (auto simp: msre_actionset_create_def msre_parse_actions_def empty_actionset_def split: option.splits prod.splits)

lemma add_all_chained: "add_all e as s = Some s' \<Longrightarrow> s_is_chained s' = s_is_chained s"
  by (induction as arbitrary: s) (auto simp: bind_eq_Some_conv dest: action_add_chained)

lemma merge_chained:
  "msre_actionset_merge e (Some parent) child True = Some (Some m) \<Longrightarrow>
   s_is_chained m = (case child of None \<Rightarrow> s_is_chained parent | Some c \<Rightarrow> s_is_chained c)"
  by (auto simp: msre_actionset_merge_def merge_fields_def Let_def dest!: add_all_chained split: option.splits if_splits)

section \<open>Completed sets\<close>

text \<open>What the rule engine sees of a set once it is complete: nothing while a field is not set.\<close>

definition rt_action :: "act \<Rightarrow> msre_action" where
  "rt_action a =
     \<lparr>action_name = Some (name_of a), action_param = act_param a, action_type = am_type (act_meta a),
      action_negative = (act_sign a = NEGATIVE_VALUE), action_tfn = Option.bind (act_tfn a) tfn_run\<rparr>"

fun rt_ptr :: "'a cptr \<Rightarrow> 'a option option" where
  "rt_ptr NOT_SET_P = None"
| "rt_ptr NULL_P = Some None"
| "rt_ptr (Ptr x) = Some (Some x)"

definition rt_int :: "int \<Rightarrow> int option" where
  "rt_int v = (if v = NOT_SET then None else Some v)"

definition rt_actionset :: "actionset \<Rightarrow> msre_actionset option" where
  "rt_actionset s = do {
     ident \<leftarrow> rt_ptr (s_id s);
     msg \<leftarrow> rt_ptr (s_msg s);
     chained \<leftarrow> rt_int (s_is_chained s);
     skip_count \<leftarrow> rt_int (s_skip_count s);
     skip_after \<leftarrow> rt_ptr (s_skip_after s);
     intercept_action \<leftarrow> rt_int (s_intercept_action s);
     intercept_uri \<leftarrow> rt_ptr (s_intercept_uri s);
     intercept_action_rec \<leftarrow> rt_ptr (s_intercept_action_rec s);
     log \<leftarrow> rt_int (s_log s);
     auditlog \<leftarrow> rt_int (s_auditlog s);
     Some \<lparr>as_id = ident, as_msg = msg, as_severity = s_severity s, as_is_chained = (chained \<noteq> 0),
       as_skip_count = skip_count, as_skip_after = skip_after, as_intercept_action = intercept_action,
       as_intercept_uri = intercept_uri, as_intercept_action_rec = map_option rt_action intercept_action_rec,
       as_log = log, as_auditlog = auditlog, as_actions = map (\<lambda>x. Some (rt_action (snd x))) (s_actions s)\<rparr> }"

lemma rt_ptr_dflt [simp]: "rt_ptr (dflt_p v) = Some (case v of Ptr x \<Rightarrow> Some x | _ \<Rightarrow> None)"
  by (cases v) (simp_all add: dflt_p_def)

lemma rt_int_dflt [simp]: "d \<noteq> NOT_SET \<Longrightarrow> rt_int (dflt v d) = Some (dflt v d)"
  by (simp add: rt_int_def dflt_def)

lemma dflt_idem [simp]: "dflt (dflt v d) d = dflt v d" "dflt_p (dflt_p q) = dflt_p q"
  by (simp_all add: dflt_def dflt_p_def)

text \<open>
  After the defaults have been filled in every field the rule engine reads is set, so that the run-time view of
  the action set exists; its chain flag, skip count and intercept action are those the actions set, and filling in
  the defaults again changes nothing.
\<close>

theorem set_defaults_complete:
  "(case rt_actionset (msre_actionset_set_defaults s) of
      None \<Rightarrow> False
    | Some rt \<Rightarrow> as_is_chained rt = (s_is_chained s \<noteq> NOT_SET \<and> s_is_chained s \<noteq> 0) \<and>
        as_skip_count rt = (if s_skip_count s = NOT_SET then 0 else s_skip_count s) \<and>
        as_intercept_action rt = (if s_intercept_action s = NOT_SET then ACTION_NONE else s_intercept_action s)) \<and>
   msre_actionset_set_defaults (msre_actionset_set_defaults s) = msre_actionset_set_defaults s"
  by (simp add: rt_actionset_def msre_actionset_set_defaults_def NOT_SET_def ACTION_NONE_def)
    (simp add: dflt_def NOT_SET_def)

section \<open>Witnesses\<close>

text \<open>An engine with a few of the default actions.\<close>

definition few_actions :: "action_metadata list" where
  "few_actions =
     [register ''deny'' ACTION_DISRUPTIVE 0 0 False ACTION_CARDINALITY_ONE ACTION_CGROUP_DISRUPTIVE
        No_validate deny_init No_execute,
      register ''pass'' ACTION_DISRUPTIVE 0 0 False ACTION_CARDINALITY_ONE ACTION_CGROUP_DISRUPTIVE
        No_validate pass_init No_execute,
      register ''log'' ACTION_NON_DISRUPTIVE 0 0 False ACTION_CARDINALITY_ONE ACTION_CGROUP_LOG
        No_validate log_init No_execute,
      register ''tag'' ACTION_METADATA 1 1 False ACTION_CARDINALITY_MANY ACTION_CGROUP_NONE
        No_validate No_init No_execute,
      register ''sanitiseMatchedBytes'' ACTION_NON_DISRUPTIVE 0 1 False ACTION_CARDINALITY_MANY ACTION_CGROUP_NONE
        No_validate sanitizeMatchedBytes_init sanitizeMatched_execute]"

definition few_engine :: act_engine where
  "few_engine =
     \<lparr>ae_resolve = (\<lambda>n. find (\<lambda>m. ci_equal (ascii (am_name m)) n) few_actions), ae_tfn = (\<lambda>_. None),
      ae_pregcomp = (\<lambda>_. True), ae_lua_compile = None,
      ae_setn = (\<lambda>t k a. filter (\<lambda>x. \<not> has_key k x) t @ [(k, a)]), ae_unset = (\<lambda>t k. filter (\<lambda>x. \<not> has_key k x) t)\<rparr>"

lemma few_engine_default: "default_engine few_engine"
proof -
  have "set few_actions \<subseteq> set default_actions" by (simp add: few_actions_def default_actions_defs)
  then show ?thesis
    by (auto simp: default_engine_def table_laws_def few_engine_def find_Some_iff)
qed

definition few_act :: "nat \<Rightarrow> bytes option \<Rightarrow> act" where
  "few_act i param = \<lparr>act_meta = few_actions ! i, act_param = param, act_tfn = None, act_sign = ABSOLUTE_VALUE\<rparr>"

definition few_pairs :: pairs where
  "few_pairs = [(ascii ''deny'', None), (ascii ''tag'', Some (ascii ''a'')), (ascii ''log'', None), (ascii ''pass'', None)]"

lemma few_pairs_parse: "msre_parse_generic (ascii ''deny,tag:a,log,pass'') = (few_pairs, None)"
proof -
  have "list_all plain_pair few_pairs"
    by (simp add: few_pairs_def plain_pair_def plain_name_def plain_value_def name_char_def value_char_def c_isspace_def
        ascii_def)
  from parse_generic_pairs [OF this, of 44]
  have "msre_parse_generic (show_pairs 44 few_pairs) = (few_pairs, None)" by simp
  moreover have "show_pairs 44 few_pairs = ascii ''deny,tag:a,log,pass''" by (simp add: few_pairs_def ascii_def)
  ultimately show ?thesis by simp
qed

lemmas few_run = msre_create_action_def few_engine_def few_actions_def register_def few_act_def lower_char_def Let_def
  run_init_def run_validate_def msre_actionset_action_add_def revert_block_def empty_actionset_def fixup_loop.simps
  msre_actionset_cardinality_fixup_def

lemma few_create:
  "\<exists>s. msre_actionset_create few_engine (Some (ascii ''deny,tag:a,log,pass'')) = Some (Inr s) \<and>
     map snd (s_actions s) = [few_act 3 (Some (ascii ''a'')), few_act 2 None, few_act 1 None]"
proof -
  have a: "hd (ascii ''a'') = 97" "ascii ''a'' \<noteq> []" by (simp_all add: ascii_def)
  show ?thesis
    by (simp add: msre_actionset_create_def msre_parse_actions_def few_pairs_parse few_pairs_def few_run a)
qed

theorem actionset_create_exclusive_witness:
  "(case msre_actionset_create few_engine (Some (ascii ''deny,tag:a,log,pass'')) of
      Some (Inr s) \<Rightarrow> aset_ok s \<and> map snd (s_actions s) = [few_act 3 (Some (ascii ''a'')), few_act 2 None, few_act 1 None]
    | _ \<Rightarrow> False)"
proof -
  have "list_all (\<lambda>t. snd t \<noteq> Some [47, 47, 47]) (fst (msre_parse_generic (ascii ''deny,tag:a,log,pass'')))"
    unfolding few_pairs_parse by (simp add: few_pairs_def ascii_def)
  from actionset_create_exclusive [OF few_engine_default this] few_create show ?thesis by auto
qed

text \<open>Two action sets as the configuration builds them.\<close>

definition few_set :: "(bytes option \<times> nat) list \<Rightarrow> act cptr \<Rightarrow> actionset" where
  "few_set as rec = empty_actionset\<lparr>s_actions := map (\<lambda>(param, i). (name_of (few_act i param), few_act i param)) as,
     s_parent_intercept_action_rec := rec\<rparr>"

theorem actionset_merge_correct_witness:
  "map_option (map_option (\<lambda>m. (group_actions ACTION_CGROUP_DISRUPTIVE m, repeated m)))
     (msre_actionset_merge few_engine
       (Some (few_set [(None, 0), (Some [97], 3)] NULL_P)) (Some (few_set [(Some [98], 3), (None, 1)] NOT_SET_P)) True) =
   Some (Some ([few_act 1 None], [few_act 3 (Some [97]), few_act 3 (Some [98])]))"
proof -
  have metas: "act_meta (few_act i param) \<in> set default_actions" if "i < 5" for i param
    using that few_actions_def nth_mem [of i few_actions] few_engine_default
    by (auto simp: few_act_def few_actions_def default_actions_defs less_Suc_eq numeral_eq_Suc)
  have ok: "aset_ok (few_set [(None, 0), (Some [97], 3)] NULL_P)" "aset_ok (few_set [(Some [98], 3), (None, 1)] NOT_SET_P)"
    using metas [of 0 None] metas [of 3 "Some [97]"] metas [of 3 "Some [98]"] metas [of 1 None]
    by (simp_all add: aset_ok_def few_set_def keyed_def exclusive_def count_of_def few_act_def few_actions_def register_def
        empty_actionset_def)
  have laws: "table_laws few_engine" using few_engine_default by (simp add: default_engine_def)
  from actionset_merge_correct [OF laws ok] show ?thesis
    by (auto simp: group_actions_def repeated_def repeatable_def few_set_def few_act_def few_actions_def register_def
        unblock_def revert_block_def empty_actionset_def)
qed

text \<open>
  Where the parameter of \<^verbatim>\<open>sanitiseMatchedBytes\<close> is three slashes, \<^verbatim>\<open>apr_strtok\<close> finds no token and the code
  reads through NULL.
\<close>

theorem sanitise_matched_bytes_null:
  "msre_actionset_create few_engine (Some (ascii ''sanitiseMatchedBytes:///'')) = None"
proof -
  let ?t = "(ascii ''sanitiseMatchedBytes'', Some (ascii ''///''))"
  have "plain_pair ?t"
    by (simp add: plain_pair_def plain_name_def plain_value_def name_char_def value_char_def c_isspace_def ascii_def)
  then have "msre_parse_generic (show_pairs 44 [?t]) = ([?t], None)"
    by (intro parse_generic_pairs) simp_all
  moreover have "show_pairs 44 [?t] = ascii ''sanitiseMatchedBytes:///''" by (simp add: ascii_def)
  ultimately have p: "msre_parse_generic (ascii ''sanitiseMatchedBytes:///'') = ([?t], None)" by simp
  have a: "hd (ascii ''///'') = 47" "ascii ''///'' \<noteq> []" by (simp_all add: ascii_def)
  have s: "sanitize_range (Some (ascii ''///'')) = None" by (simp add: sanitize_range_def first_token_def ascii_def)
  show ?thesis
    by (simp add: msre_actionset_create_def msre_parse_actions_def p few_run a s)
qed

end
