(* ===== verification/RuleConfig.thy ===== *)
theory RuleConfig
  imports RuleFlow ActionSet
begin

text \<open>
  How the configuration directives build the rule sets: \<open>msre_rule_create\<close> of \<^verbatim>\<open>apache2/re.c\<close>, and \<open>add_rule\<close>
  (\<^verbatim>\<open>SecRule\<close>, \<^verbatim>\<open>SecAction\<close>), \<open>add_marker\<close> (\<^verbatim>\<open>SecMarker\<close>), \<open>cmd_default_action\<close> (\<^verbatim>\<open>SecDefaultAction\<close>) and
  \<open>update_rule_action\<close> (\<^verbatim>\<open>SecRuleUpdateActionById\<close>) of \<^verbatim>\<open>apache2/apache2_config.c\<close>. Rules and their action
  sets live in a heap, because a rule, its placeholder, the array of its phase and the rules of its chain share them.
  The build without Lua is modelled, with unique rule ids. A result \<^term>\<open>None\<close> is a read through NULL.
\<close>

section \<open>Creating a rule\<close>

record rule_env =
  re_act :: act_engine
  re_var :: var_engine
  re_op :: "bytes \<Rightarrow> (bytes \<Rightarrow> bytes option) option"

text \<open>\<open>re_op\<close> is the table of operators: what it gives for a name is the \<^verbatim>\<open>param_init\<close> of the operator, which
  reports an error or nothing.\<close>

datatype config_error = Bad_targets "parse_error + var_error" | Unknown_operator bytes | Bad_operator_param bytes
  | Bad_actions action_error | No_actions | No_id | Duplicate_id bytes | Chained_disruptive | Chained_skipAfter
  | Chained_phase | Chained_metadata | Chained_skip | Logging_disruptive | Bad_phase | Invalid_id_for_update bytes | Id_changed | Phase_changed
  | Default_not_disruptive | Default_no_phase | Default_metadata | Default_chain | Default_skip | Default_skipAfter

record new_rule =
  nr_targets :: "msre_var list"
  nr_op_negated :: bool
  nr_op_name :: bytes
  nr_op_param :: bytes
  nr_actionset :: "actionset option"

text \<open>The operator argument: negation, the name behind an at sign (\<^verbatim>\<open>rx\<close> without one), and its parameter.\<close>

definition parse_args :: "bytes \<Rightarrow> bool \<times> bytes \<times> bytes" where
  "parse_args args =
     (let negated = (args \<noteq> [] \<and> hd args = 33);
          argsp = (if negated then dropWhile c_isspace (tl args) else args)
      in if argsp = [] \<or> hd argsp \<noteq> 64 then (negated, ascii ''rx'', argsp)
         else (negated, takeWhile (\<lambda>c. \<not> c_isspace c) (tl argsp),
           dropWhile c_isspace (dropWhile (\<lambda>c. \<not> c_isspace c) (tl argsp))))"

definition msre_rule_create ::
  "rule_env \<Rightarrow> bytes \<Rightarrow> bytes \<Rightarrow> bytes option \<Rightarrow> (config_error + new_rule) option" where
  "msre_rule_create env targets args actions =
     (case msre_parse_targets (re_var env) targets [] of
        (_, Some err) \<Rightarrow> Some (Inl (Bad_targets err))
      | (vars, None) \<Rightarrow>
          (case parse_args args of (negated, op, param) \<Rightarrow>
             (case re_op env op of
                None \<Rightarrow> Some (Inl (Unknown_operator op))
              | Some param_init \<Rightarrow>
                  (case param_init param of
                     Some msg \<Rightarrow> Some (Inl (Bad_operator_param msg))
                   | None \<Rightarrow>
                       let rule = \<lparr>nr_targets = vars, nr_op_negated = negated, nr_op_name = op, nr_op_param = param,
                         nr_actionset = None\<rparr> in
                       (case actions of
                          None \<Rightarrow> Some (Inr rule)
                        | Some text \<Rightarrow> do {
                            r \<leftarrow> msre_actionset_create (re_act env) (Some text);
                            Some (case r of Inl err \<Rightarrow> Inl (Bad_actions err) | Inr s \<Rightarrow> Inr (rule\<lparr>nr_actionset := Some s\<rparr>)) })))))"

section \<open>The configuration\<close>

text \<open>A rule in the heap; \<open>cr_set\<close> is the address of its action set, \<open>cr_starter\<close> that of its chain starter.\<close>

record cfg_rule =
  cr_placeholder :: placeholder
  cr_targets :: "msre_var list"
  cr_op_negated :: bool
  cr_op_name :: bytes
  cr_op_param :: bytes
  cr_set :: nat
  cr_starter :: "nat option"

text \<open>\<open>d_next\<close> is the next free address, \<open>d_ids\<close> the hash of the rule ids, and \<open>d_watch\<close> the table of the ids a
  \<open>skipAfter\<close> waits for, whose keys are compared without regard to case.\<close>

record dcfg =
  d_rules :: "nat \<Rightarrow> cfg_rule"
  d_sets :: "nat \<Rightarrow> actionset"
  d_next :: nat
  d_ruleset :: "nat msre_ruleset"
  d_chain_starter :: "nat option"
  d_default :: "actionset option"
  d_ids :: "bytes \<Rightarrow> bool"
  d_watch :: "bytes \<Rightarrow> bool"

text \<open>A step gives an error message or none, and the new state.\<close>

type_synonym step = "(config_error option \<times> dcfg) option"

definition set_of :: "dcfg \<Rightarrow> nat \<Rightarrow> actionset" where
  "set_of d a = d_sets d (cr_set (d_rules d a))"

text \<open>\<open>msre_ruleset_rule_add\<close> on the heap: the defaults of the action set, its rule, the end of the array.\<close>

definition rule_add :: "dcfg \<Rightarrow> nat \<Rightarrow> int \<Rightarrow> int \<times> dcfg" where
  "rule_add d a ph =
     (case msre_ruleset_rule_add (\<lambda>r. r) (d_ruleset d) a ph of (rc, ruleset) \<Rightarrow>
        if rc < 0 then (rc, d)
        else (rc, d\<lparr>d_ruleset := ruleset,
          d_sets := (d_sets d)(cr_set (d_rules d a) := (msre_actionset_set_defaults (set_of d a))\<lparr>s_rule := Ptr a\<rparr>)\<rparr>))"

section \<open>SecRule and SecAction\<close>

text \<open>The checks of the id, which only the first rule of a chain has.\<close>

definition check_id :: "dcfg \<Rightarrow> actionset option \<Rightarrow> step" where
  "check_id d s =
     (if d_chain_starter d \<noteq> None then Some (None, d)
      else case s of
        None \<Rightarrow> Some (Some No_actions, d)
      | Some s \<Rightarrow>
          (case s_id s of
             NOT_SET_P \<Rightarrow> Some (Some No_id, d)
           | NULL_P \<Rightarrow> None
           | Ptr i \<Rightarrow>
               if d_ids d i then Some (Some (Duplicate_id i), d) else Some (None, d\<lparr>d_ids := (d_ids d)(i := True)\<rparr>)))"

definition check_chained :: "actionset \<Rightarrow> config_error option" where
  "check_chained s =
     (if s_intercept_action s \<noteq> NOT_SET then Some Chained_disruptive
      else if s_skip_after s \<noteq> NOT_SET_P then Some Chained_skipAfter
      else if s_phase s \<noteq> NOT_SET then Some Chained_phase
      else if s_id s \<noteq> NOT_SET_P \<or> s_rev s \<noteq> NOT_SET_P \<or> s_msg s \<noteq> NOT_SET_P \<or> s_severity s \<noteq> NOT_SET \<or>
        s_version s \<noteq> NOT_SET_P \<or> s_accuracy s \<noteq> NOT_SET \<or> s_maturity s \<noteq> NOT_SET \<or> s_logdata s \<noteq> NOT_SET_P
      then Some Chained_metadata
      else if s_skip_count s \<noteq> NOT_SET then Some Chained_skip
      else None)"

text \<open>The action set of the new rule: the merged one, with the action of the parent and the phase of the chain.\<close>

definition logging_disruptive :: "actionset \<Rightarrow> bool" where
  "logging_disruptive s \<longleftrightarrow> s_phase s = 5 \<and> s_intercept_action s \<noteq> ACTION_ALLOW \<and>
     s_intercept_action s \<noteq> ACTION_ALLOW_REQUEST \<and> s_intercept_action s \<noteq> ACTION_NONE"

definition with_parent :: "actionset \<Rightarrow> actionset \<Rightarrow> actionset" where
  "with_parent s parent = s\<lparr>s_parent_intercept_action_rec := s_intercept_action_rec parent,
     s_parent_intercept_action := s_intercept_action parent\<rparr>"

definition chain_phase :: "dcfg \<Rightarrow> actionset \<Rightarrow> actionset" where
  "chain_phase d s = (case d_chain_starter d of None \<Rightarrow> s | Some st \<Rightarrow> s\<lparr>s_phase := s_phase (set_of d st)\<rparr>)"

definition next_chain :: "dcfg \<Rightarrow> nat \<Rightarrow> actionset \<Rightarrow> nat option" where
  "next_chain d a s =
     (if s_is_chained s \<noteq> 1 then None
      else case d_chain_starter d of None \<Rightarrow> Some a | Some st \<Rightarrow> Some st)"

text \<open>The new rule and its action set enter the heap; \<open>skipAfter\<close> is noted.\<close>

definition new_watch :: "dcfg \<Rightarrow> actionset \<Rightarrow> (bytes \<Rightarrow> bool) option" where
  "new_watch d s =
     (case s_skip_after s of
        NOT_SET_P \<Rightarrow> Some (d_watch d)
      | NULL_P \<Rightarrow> None
      | Ptr i \<Rightarrow> Some ((d_watch d)(map c_tolower i := True)))"

definition enter_rule :: "dcfg \<Rightarrow> new_rule \<Rightarrow> actionset \<Rightarrow> (bytes \<Rightarrow> bool) \<Rightarrow> dcfg" where
  "enter_rule d rule s watch =
     (let a = d_next d in
      d\<lparr>d_rules := (d_rules d)(a := \<lparr>cr_placeholder = RULE_PH_NONE, cr_targets = nr_targets rule,
           cr_op_negated = nr_op_negated rule, cr_op_name = nr_op_name rule, cr_op_param = nr_op_param rule,
           cr_set = a, cr_starter = d_chain_starter d\<rparr>),
         d_sets := (d_sets d)(a := s), d_next := a + 1, d_chain_starter := next_chain d a s, d_watch := watch\<rparr>)"

text \<open>The placeholder behind a rule whose id a \<open>skipAfter\<close> waits for is a shallow copy of the rule.\<close>

definition add_placeholder :: "dcfg \<Rightarrow> nat \<Rightarrow> config_error option \<times> dcfg" where
  "add_placeholder d a =
     (case s_id (set_of d a) of
        Ptr i \<Rightarrow>
          if d_watch d (map c_tolower i) then
            let ph = d_next d;
                d = d\<lparr>d_rules := (d_rules d)(ph := (d_rules d a)\<lparr>cr_placeholder := RULE_PH_SKIPAFTER\<rparr>), d_next := ph + 1\<rparr>
            in case rule_add d ph (s_phase (set_of d ph)) of (rc, d) \<Rightarrow>
                 if rc < 0 then (Some Bad_phase, d) else (None, d\<lparr>d_watch := (d_watch d)(map c_tolower i := False)\<rparr>)
          else (None, d)
      | _ \<Rightarrow> (None, d))"

definition place_rule :: "dcfg \<Rightarrow> new_rule \<Rightarrow> actionset \<Rightarrow> step" where
  "place_rule d rule s = do {
     watch \<leftarrow> new_watch d s;
     let a = d_next d;
     let d = enter_rule d rule s watch;
     case rule_add d a (s_phase s) of (rc, d) \<Rightarrow>
       Some (if rc < 0 then (Some Bad_phase, d) else add_placeholder d a) }"

definition default_set :: "rule_env \<Rightarrow> dcfg \<Rightarrow> (config_error + actionset) option" where
  "default_set env d =
     (case d_default d of
        Some s \<Rightarrow> Some (Inr s)
      | None \<Rightarrow> map_option (\<lambda>r. case r of Inl err \<Rightarrow> Inl (Bad_actions err) | Inr s \<Rightarrow> Inr s)
          (msre_actionset_create_default (re_act env)))"

definition add_rule :: "rule_env \<Rightarrow> dcfg \<Rightarrow> bytes \<Rightarrow> bytes \<Rightarrow> bytes option \<Rightarrow> step" where
  "add_rule env d p1 p2 p3 = do {
     r \<leftarrow> msre_rule_create env p1 p2 p3;
     case r of
       Inl err \<Rightarrow> Some (Some err, d)
     | Inr rule \<Rightarrow> do {
         (err, d) \<leftarrow> check_id d (nr_actionset rule);
         if err \<noteq> None then Some (err, d)
         else do {
           r \<leftarrow> default_set env d;
           case r of
             Inl err \<Rightarrow> Some (Some err, d)
           | Inr parent \<Rightarrow>
               let d = d\<lparr>d_default := Some parent\<rparr> in
               if d_chain_starter d \<noteq> None \<and> Option.bind (nr_actionset rule) check_chained \<noteq> None
               then Some (Option.bind (nr_actionset rule) check_chained, d)
               else do {
                 merged \<leftarrow> msre_actionset_merge (re_act env) (Some parent) (nr_actionset rule) True;
                 s \<leftarrow> merged;
                 let s = with_parent s parent;
                 if logging_disruptive s then Some (Some Logging_disruptive, d)
                 else place_rule d rule (chain_phase d s) } } } }"

section \<open>SecMarker\<close>

fun add_to_phases :: "dcfg \<Rightarrow> nat \<Rightarrow> int list \<Rightarrow> config_error option \<times> dcfg" where
  "add_to_phases d a [] = (None, d)"
| "add_to_phases d a (p # ps) =
     (case rule_add d a p of (rc, d) \<Rightarrow> if rc < 0 then (Some Bad_phase, d) else add_to_phases d a ps)"

definition add_marker :: "rule_env \<Rightarrow> dcfg \<Rightarrow> bytes \<Rightarrow> bytes \<Rightarrow> bytes option \<Rightarrow> step" where
  "add_marker env d p1 p2 p3 = do {
     r \<leftarrow> msre_rule_create env p1 p2 p3;
     case r of
       Inl err \<Rightarrow> Some (Some err, d)
     | Inr rule \<Rightarrow> do {
         s \<leftarrow> nr_actionset rule;
         let a = d_next d;
         let d = d\<lparr>d_rules := (d_rules d)(a := \<lparr>cr_placeholder = RULE_PH_MARKER, cr_targets = nr_targets rule,
               cr_op_negated = nr_op_negated rule, cr_op_name = nr_op_name rule, cr_op_param = nr_op_param rule,
               cr_set = a, cr_starter = None\<rparr>),
             d_sets := (d_sets d)(a := s), d_next := a + 1\<rparr>;
         case add_to_phases d a [1, 2, 3, 4, 5] of
           (Some err, d) \<Rightarrow> Some (Some err, d)
         | (None, d) \<Rightarrow>
             (case s_id (set_of d a) of
                Ptr i \<Rightarrow> Some (None, d\<lparr>d_watch := (d_watch d)(map c_tolower i := False)\<rparr>)
              | _ \<Rightarrow> None) } }"

definition cmd_marker :: "rule_env \<Rightarrow> dcfg \<Rightarrow> bytes \<Rightarrow> step" where
  "cmd_marker env d p1 =
     add_marker env d (ascii ''REMOTE_ADDR'') (ascii ''@noMatch'') (Some (ascii ''t:none,pass,marker:'' @ p1))"

definition cmd_action :: "rule_env \<Rightarrow> dcfg \<Rightarrow> bytes \<Rightarrow> step" where
  "cmd_action env d p1 = add_rule env d (ascii ''REMOTE_ADDR'') (ascii ''@unconditionalMatch'') (Some p1)"

section \<open>SecDefaultAction\<close>

definition check_default :: "actionset \<Rightarrow> config_error option" where
  "check_default s =
     (if s_intercept_action s = NOT_SET then Some Default_not_disruptive
      else if s_phase s = NOT_SET then Some Default_no_phase
      else if s_id s \<noteq> NOT_SET_P \<or> s_rev s \<noteq> NOT_SET_P \<or> s_version s \<noteq> NOT_SET_P \<or> s_maturity s \<noteq> NOT_SET \<or>
        s_accuracy s \<noteq> NOT_SET \<or> s_msg s \<noteq> NOT_SET_P then Some Default_metadata
      else if s_is_chained s \<noteq> NOT_SET then Some Default_chain
      else if s_skip_count s \<noteq> NOT_SET then Some Default_skip
      else if s_skip_after s \<noteq> NOT_SET_P then Some Default_skipAfter
      else None)"

definition cmd_default_action :: "rule_env \<Rightarrow> dcfg \<Rightarrow> bytes \<Rightarrow> step" where
  "cmd_default_action env d p1 = do {
     r \<leftarrow> msre_actionset_create (re_act env) (Some p1);
     Some (case r of
       Inl err \<Rightarrow> (Some (Bad_actions err), d\<lparr>d_default := None\<rparr>)
     | Inr s \<Rightarrow> (check_default s, d\<lparr>d_default := Some s\<rparr>)) }"

section \<open>The rules as the engine sees them\<close>

definition rt_set :: "dcfg \<Rightarrow> nat \<Rightarrow> msre_actionset option" where
  "rt_set d a = rt_actionset (set_of d a)"

definition rt_rule :: "dcfg \<Rightarrow> nat \<Rightarrow> msre_rule" where
  "rt_rule d a =
     \<lparr>rule_placeholder = cr_placeholder (d_rules d a), rule_actionset = rt_set d a,
      rule_chain_starter = Option.bind (cr_starter (d_rules d a)) (rt_set d),
      rule_targets = cr_targets (d_rules d a), rule_op_negated = cr_op_negated (d_rules d a)\<rparr>"

text \<open>A rule together with its address.\<close>

record addr_rule = msre_rule +
  rule_addr :: nat

definition addr_view :: "dcfg \<Rightarrow> nat \<Rightarrow> addr_rule" where
  "addr_view d a = msre_rule.extend (rt_rule d a) \<lparr>rule_addr = a\<rparr>"

definition map_ruleset :: "('a \<Rightarrow> 'b) \<Rightarrow> 'a msre_ruleset \<Rightarrow> 'b msre_ruleset" where
  "map_ruleset f rs =
     \<lparr>phase_request_headers = map f (phase_request_headers rs), phase_request_body = map f (phase_request_body rs),
      phase_response_headers = map f (phase_response_headers rs), phase_response_body = map f (phase_response_body rs),
      phase_logging = map f (phase_logging rs)\<rparr>"

section \<open>SecRuleUpdateActionById\<close>

definition same_id :: "bytes cptr \<Rightarrow> bytes cptr \<Rightarrow> bool" where
  "same_id new old = (case (new, old) of (Ptr i, Ptr j) \<Rightarrow> i = j | _ \<Rightarrow> False)"

definition update_set :: "rule_env \<Rightarrow> dcfg \<Rightarrow> nat \<Rightarrow> actionset \<Rightarrow> step" where
  "update_set env d a new =
     (let old = set_of d a in
      if s_id new \<noteq> NOT_SET_P \<and> s_id old \<noteq> NULL_P \<and> \<not> same_id (s_id old) (s_id new)
      then Some (Some Id_changed, d)
      else if s_phase new \<noteq> NOT_SET \<and> s_phase old \<noteq> s_phase new then Some (Some Phase_changed, d)
      else do {
        merged \<leftarrow> msre_actionset_merge (re_act env) (Some old) (Some new) True;
        s \<leftarrow> merged;
        let b = d_next d;
        Some (None, d\<lparr>d_sets := (d_sets d)(b := msre_actionset_set_defaults s),
          d_rules := (d_rules d)(a := (d_rules d a)\<lparr>cr_set := b\<rparr>), d_next := b + 1\<rparr>) })"

definition update_rule_action :: "rule_env \<Rightarrow> dcfg \<Rightarrow> bytes \<Rightarrow> bytes \<Rightarrow> int \<Rightarrow> step" where
  "update_rule_action env d p1 p2 offset = do {
     found \<leftarrow> msre_ruleset_fetch_rule (Some (map_ruleset (addr_view d) (d_ruleset d))) p1 offset;
     case found of
       None \<Rightarrow> Some (None, d)
     | Some rule \<Rightarrow> do {
         r \<leftarrow> msre_actionset_create (re_act env) (Some p2);
         case r of
           Inl err \<Rightarrow> Some (Some (Bad_actions err), d)
         | Inr new \<Rightarrow> update_set env d (rule_addr rule) new } }"

definition cmd_rule_update_action_by_id :: "rule_env \<Rightarrow> dcfg \<Rightarrow> bytes \<Rightarrow> bytes \<Rightarrow> step" where
  "cmd_rule_update_action_by_id env d p1 p2 =
     (let rule_id = c_atoi p1 in
      if rule_id = LONG_MAX \<or> rule_id = LONG_MIN \<or> rule_id \<le> 0 then Some (Some (Invalid_id_for_update p1), d)
      else if 58 \<in> set p1 then do {
        (opt, _) \<leftarrow> first_token 58 p1;
        update_rule_action env d opt p2 (c_atoi (tl (dropWhile (\<lambda>c. c \<noteq> 58) p1))) }
      else update_rule_action env d p1 p2 0)"

section \<open>Directives\<close>

datatype directive = SecRule bytes bytes "bytes option" | SecAction bytes | SecMarker bytes | SecDefaultAction bytes
  | SecRuleUpdateActionById bytes bytes

definition directive_step :: "rule_env \<Rightarrow> dcfg \<Rightarrow> directive \<Rightarrow> step" where
  "directive_step env d dir =
     (case dir of
        SecRule p1 p2 p3 \<Rightarrow> add_rule env d p1 p2 p3
      | SecAction p1 \<Rightarrow> cmd_action env d p1
      | SecMarker p1 \<Rightarrow> cmd_marker env d p1
      | SecDefaultAction p1 \<Rightarrow> cmd_default_action env d p1
      | SecRuleUpdateActionById p1 p2 \<Rightarrow> cmd_rule_update_action_by_id env d p1 p2)"

text \<open>The directives of a context; the server gives up at the first error.\<close>

fun configure :: "rule_env \<Rightarrow> directive list \<Rightarrow> dcfg \<Rightarrow> step" where
  "configure env [] d = Some (None, d)"
| "configure env (dir # dirs) d = do {
     (err, d) \<leftarrow> directive_step env d dir;
     case err of Some e \<Rightarrow> Some (Some e, d) | None \<Rightarrow> configure env dirs d }"

section \<open>The chains of a phase\<close>

text \<open>Reading the rules of a phase in order, placeholders aside: \<open>cur\<close> is the action set of the starter of the chain
  that is open. Every rule must name the starter of the open chain, and none outside a chain.\<close>

fun chain_state :: "msre_actionset option \<Rightarrow> msre_rule list \<Rightarrow> msre_actionset option option" where
  "chain_state cur [] = Some cur"
| "chain_state cur (r # rs) =
     (if rule_placeholder r \<noteq> RULE_PH_NONE then chain_state cur rs
      else case rule_actionset r of
        None \<Rightarrow> None
      | Some as \<Rightarrow>
          if rule_chain_starter r \<noteq> cur then None
          else chain_state (if as_is_chained as then (case cur of None \<Rightarrow> Some as | Some s \<Rightarrow> Some s) else None) rs)"

text \<open>The chain the configuration still has open, seen from a phase.\<close>

definition open_chain :: "dcfg \<Rightarrow> int \<Rightarrow> msre_actionset option" where
  "open_chain d p =
     (case d_chain_starter d of None \<Rightarrow> None | Some st \<Rightarrow> if s_phase (set_of d st) = p then rt_set d st else None)"

definition addr_ok :: "dcfg \<Rightarrow> nat \<Rightarrow> bool" where
  "addr_ok d a \<longleftrightarrow> a < d_next d \<and> cr_set (d_rules d a) < d_next d \<and> rt_set d a \<noteq> None"

definition rule_ok :: "dcfg \<Rightarrow> nat \<Rightarrow> bool" where
  "rule_ok d a \<longleftrightarrow> addr_ok d a \<and> (case cr_starter (d_rules d a) of None \<Rightarrow> True | Some st \<Rightarrow> addr_ok d st)"

definition phase_ok :: "dcfg \<Rightarrow> int \<Rightarrow> bool" where
  "phase_ok d p =
     (case phase_rules (d_ruleset d) p of
        None \<Rightarrow> True
      | Some arr \<Rightarrow> list_all (rule_ok d) arr \<and> chain_state None (map (rt_rule d) arr) = Some (open_chain d p))"

definition starter_ok :: "dcfg \<Rightarrow> bool" where
  "starter_ok d =
     (case d_chain_starter d of None \<Rightarrow> True | Some st \<Rightarrow> addr_ok d st \<and> s_phase (set_of d st) \<noteq> NOT_SET)"

definition config_ok :: "dcfg \<Rightarrow> bool" where
  "config_ok d \<longleftrightarrow> list_all (phase_ok d) [1, 2, 3, 4, 5] \<and> starter_ok d \<and>
     (case d_default d of None \<Rightarrow> True | Some s \<Rightarrow> s_is_chained s = NOT_SET)"

lemma chain_state_append:
  "chain_state cur (xs @ ys) = Option.bind (chain_state cur xs) (\<lambda>c. chain_state c ys)"
  by (induction cur xs rule: chain_state.induct) (auto split: option.splits)

section \<open>Growing heaps\<close>

lemma rt_complete_defaults:
  assumes "rt_actionset s = Some as"
  shows "rt_actionset (msre_actionset_set_defaults s) = Some as"
proof -
  have p: "dflt_p q = q" if "rt_ptr q = Some x" for q :: "'a cptr" and x
    using that by (cases q) (auto simp: dflt_p_def)
  have i: "dflt v k = v" if "rt_int v = Some x" for v k x
    using that by (auto simp: dflt_def rt_int_def split: if_splits)
  show ?thesis
    using assms unfolding rt_actionset_def msre_actionset_set_defaults_def
    by (auto simp: p i bind_eq_Some_conv simp del: rt_ptr_dflt rt_int_dflt)
qed

lemma rt_defaults: "\<exists>as. rt_actionset (msre_actionset_set_defaults s) = Some as \<and>
    as_is_chained as = (s_is_chained s \<noteq> NOT_SET \<and> s_is_chained s \<noteq> 0)"
  by (simp add: rt_actionset_def msre_actionset_set_defaults_def NOT_SET_def ACTION_NONE_def)
    (simp add: dflt_def NOT_SET_def)

lemma rt_rule_field [simp]: "rt_actionset (s\<lparr>s_rule := r\<rparr>) = rt_actionset s"
  by (simp add: rt_actionset_def)

text \<open>The new heap has everything complete of the old one unchanged.\<close>

definition grows :: "dcfg \<Rightarrow> dcfg \<Rightarrow> bool" where
  "grows d d' \<longleftrightarrow> d_next d \<le> d_next d' \<and> (\<forall>a < d_next d. d_rules d' a = d_rules d a) \<and>
     (\<forall>b < d_next d. (rt_actionset (d_sets d b) \<noteq> None \<longrightarrow> rt_actionset (d_sets d' b) = rt_actionset (d_sets d b)) \<and>
       (s_phase (d_sets d b) \<noteq> NOT_SET \<longrightarrow> s_phase (d_sets d' b) = s_phase (d_sets d b)))"

lemma grows_refl: "grows d d"
  by (simp add: grows_def)

lemma grows_trans: "grows d d1 \<Longrightarrow> grows d1 d2 \<Longrightarrow> grows d d2"
  unfolding grows_def by (metis order.strict_trans2 order.trans)

lemma grows_addr:
  assumes "grows d d'" "addr_ok d a"
  shows "addr_ok d' a" "rt_set d' a = rt_set d a" "s_phase (set_of d a) \<noteq> NOT_SET \<Longrightarrow> s_phase (set_of d' a) = s_phase (set_of d a)"
  using assms by (auto simp: grows_def addr_ok_def rt_set_def set_of_def)

lemma grows_rule:
  assumes "grows d d'" "rule_ok d a"
  shows "rule_ok d' a" "rt_rule d' a = rt_rule d a"
proof -
  have same: "d_rules d' a = d_rules d a" using assms by (simp add: grows_def rule_ok_def addr_ok_def)
  show "rule_ok d' a" using assms grows_addr [OF assms(1)] same by (auto simp: rule_ok_def split: option.splits)
  show "rt_rule d' a = rt_rule d a"
    using assms grows_addr [OF assms(1)] same
    by (auto simp: rule_ok_def rt_rule_def split: option.splits)
qed

lemma grows_rules:
  assumes "grows d d'" "list_all (rule_ok d) arr"
  shows "list_all (rule_ok d') arr" "map (rt_rule d') arr = map (rt_rule d) arr"
  using assms grows_rule [OF assms(1)] by (auto simp: list_all_iff)

text \<open>\<open>rule_add\<close> appends the rule to the array of its phase, completes its action set, and leaves the rest.\<close>

lemma rule_add_ok:
  assumes "rule_add d a ph = (rc, d')" "0 \<le> rc" "cr_set (d_rules d a) < d_next d"
  shows "ph \<in> {1, 2, 3, 4, 5}" "grows d d'"
    "phase_rules (d_ruleset d') q = (if q = ph then map_option (\<lambda>arr. arr @ [a]) (phase_rules (d_ruleset d) q)
       else phase_rules (d_ruleset d) q)"
    "d_next d' = d_next d" "d_rules d' = d_rules d" "d_chain_starter d' = d_chain_starter d"
    "d_default d' = d_default d" "d_watch d' = d_watch d"
    "set_of d' a = (msre_actionset_set_defaults (set_of d a))\<lparr>s_rule := Ptr a\<rparr>"
proof -
  obtain rs where rs: "msre_ruleset_rule_add (\<lambda>r. r) (d_ruleset d) a ph = (rc, rs)"
    and d': "d' = d\<lparr>d_ruleset := rs,
      d_sets := (d_sets d)(cr_set (d_rules d a) := (msre_actionset_set_defaults (set_of d a))\<lparr>s_rule := Ptr a\<rparr>)\<rparr>"
    using assms(1,2) by (auto simp: rule_add_def split: prod.splits if_splits)
  show "ph \<in> {1, 2, 3, 4, 5}"
    using rs assms(2) by (auto simp: msre_ruleset_rule_add_def Let_def split: if_splits)
  show "phase_rules (d_ruleset d') q = (if q = ph then map_option (\<lambda>arr. arr @ [a]) (phase_rules (d_ruleset d) q)
       else phase_rules (d_ruleset d) q)"
    using rs assms(2) by (auto simp: d' msre_ruleset_rule_add_def phase_rules_def Let_def split: if_splits)
  show "d_next d' = d_next d" "d_rules d' = d_rules d" "d_chain_starter d' = d_chain_starter d"
    "d_default d' = d_default d" "d_watch d' = d_watch d"
    "set_of d' a = (msre_actionset_set_defaults (set_of d a))\<lparr>s_rule := Ptr a\<rparr>"
    by (simp_all add: d' set_of_def)
  have keeps: "rt_actionset (set_of d a) \<noteq> None \<Longrightarrow> rt_actionset (msre_actionset_set_defaults (set_of d a)) = rt_actionset (set_of d a)"
    "s_phase (set_of d a) \<noteq> NOT_SET \<Longrightarrow> s_phase (msre_actionset_set_defaults (set_of d a)) = s_phase (set_of d a)"
    using rt_complete_defaults [of "set_of d a"] by auto (simp add: msre_actionset_set_defaults_def dflt_def)
  then show "grows d d'"
    unfolding grows_def d' set_of_def by simp
qed

lemma config_ok_append:
  assumes "config_ok d" "grows d d'" "d_default d' = d_default d"
    "\<And>q. phase_rules (d_ruleset d') q = (if q = ph then map_option (\<lambda>arr. arr @ [a]) (phase_rules (d_ruleset d) q)
       else phase_rules (d_ruleset d) q)"
    "rule_ok d' a" "starter_ok d'" "chain_state (open_chain d ph) [rt_rule d' a] = Some (open_chain d' ph)"
    "\<And>q. q \<noteq> ph \<Longrightarrow> open_chain d' q = open_chain d q"
  shows "config_ok d'"
proof -
  have "phase_ok d' q" if "phase_ok d q" for q
  proof (cases "phase_rules (d_ruleset d) q")
    case (Some arr)
    then have arr: "list_all (rule_ok d) arr" "chain_state None (map (rt_rule d) arr) = Some (open_chain d q)"
      using that by (simp_all add: phase_ok_def)
    have "chain_state None (map (rt_rule d') arr) = Some (open_chain d q)"
      by (simp only: grows_rules(2) [OF assms(2) arr(1)] arr(2))
    then show ?thesis
      using Some assms(4) [of q] assms(5,7,8) grows_rules(1) [OF assms(2) arr(1)]
      by (auto simp: phase_ok_def chain_state_append simp del: chain_state.simps)
  qed (use assms(4) [of q] in \<open>auto simp: phase_ok_def\<close>)
  then show ?thesis using assms(1,3,6) by (auto simp: config_ok_def)
qed

text \<open>Changes of the heap that leave the arrays and the open chain alone.\<close>

lemma config_ok_grows:
  assumes "config_ok d" "grows d d'" "d_default d' = d_default d" "d_ruleset d' = d_ruleset d"
    "d_chain_starter d' = d_chain_starter d"
  shows "config_ok d'" "starter_ok d'" "\<And>q. open_chain d' q = open_chain d q"
proof -
  have st: "starter_ok d" using assms(1) by (simp add: config_ok_def)
  then show st': "starter_ok d'"
    using assms(5) grows_addr [OF assms(2)] by (auto simp: starter_ok_def split: option.splits)
  show open_same: "open_chain d' q = open_chain d q" for q
    using st assms(5) grows_addr [OF assms(2)] by (auto simp: starter_ok_def open_chain_def split: option.splits)
  have "phase_ok d' q" if "phase_ok d q" for q
  proof (cases "phase_rules (d_ruleset d) q")
    case (Some arr)
    then have arr: "list_all (rule_ok d) arr" "chain_state None (map (rt_rule d) arr) = Some (open_chain d q)"
      using that by (simp_all add: phase_ok_def)
    have "chain_state None (map (rt_rule d') arr) = Some (open_chain d' q)"
      by (simp only: grows_rules(2) [OF assms(2) arr(1)] arr(2) open_same)
    then show ?thesis using Some assms(4) grows_rules(1) [OF assms(2) arr(1)] by (simp add: phase_ok_def)
  qed (use assms(4) in \<open>simp add: phase_ok_def\<close>)
  then show "config_ok d'" using assms(1,3) st' by (auto simp: config_ok_def)
qed

text \<open>A placeholder does not change the chains of any phase.\<close>

lemma add_placeholder_rule:
  assumes "config_ok d" "rule_add d a ph = (rc, d')" "0 \<le> rc" "a < d_next d" "cr_set (d_rules d a) < d_next d"
    "cr_placeholder (d_rules d a) \<noteq> RULE_PH_NONE"
    "case cr_starter (d_rules d a) of None \<Rightarrow> True | Some st \<Rightarrow> addr_ok d st"
  shows "config_ok d'" "rule_ok d' a"
proof -
  note add = rule_add_ok [OF assms(2,3,5)]
  have st: "starter_ok d" using assms(1) by (simp add: config_ok_def)
  have open_same: "open_chain d' q = open_chain d q" "starter_ok d'" for q
    using st add(6) grows_addr [OF add(2)] by (auto simp: starter_ok_def open_chain_def split: option.splits)
  obtain as where as: "rt_set d' a = Some as"
    using rt_defaults [of "set_of d a"] by (auto simp: rt_set_def add(9))
  show ok: "rule_ok d' a"
    using assms(4,5,7) add(4,5) grows_addr [OF add(2)] as by (auto simp: rule_ok_def addr_ok_def [of d' a] split: option.splits)
  show "config_ok d'"
  proof (rule config_ok_append [OF assms(1) add(2,7) add(3) ok open_same(2)])
    show "chain_state (open_chain d ph) [rt_rule d' a] = Some (open_chain d' ph)"
      using assms(6) add(5) open_same(1) by (simp add: rt_rule_def)
  qed (rule open_same(1))
qed

section \<open>Every directive keeps the chains\<close>

lemma enter_rule_grows: "grows d (enter_rule d rule s watch)"
  by (simp add: grows_def enter_rule_def Let_def)

lemma place_rule_ok:
  assumes "config_ok d" "place_rule d rule s = Some (None, d')" "s_is_chained s = NOT_SET \<or> s_is_chained s = 1"
    "\<And>st. d_chain_starter d = Some st \<Longrightarrow> s_phase s = s_phase (set_of d st)"
  shows "config_ok d'"
proof -
  define a where "a = d_next d"
  obtain watch where w: "new_watch d s = Some watch"
    using assms(2) by (auto simp: place_rule_def bind_eq_Some_conv)
  obtain rc d2 where r: "rule_add (enter_rule d rule s watch) a (s_phase s) = (rc, d2)" by fastforce
  have d2: "rule_add (enter_rule d rule s watch) a (s_phase s) = (rc, d2)" "0 \<le> rc" "add_placeholder d2 a = (None, d')"
    using assms(2) r w by (auto simp: place_rule_def Let_def a_def split: if_splits)
  define d1 where "d1 = enter_rule d rule s watch"
  have d1: "d_next d1 = a + 1" "d_ruleset d1 = d_ruleset d" "d_default d1 = d_default d"
    "d_chain_starter d1 = next_chain d a s" "set_of d1 a = s" "cr_set (d_rules d1 a) = a"
    "cr_placeholder (d_rules d1 a) = RULE_PH_NONE" "cr_starter (d_rules d1 a) = d_chain_starter d"
    by (simp_all add: d1_def enter_rule_def Let_def a_def set_of_def)
  note add = rule_add_ok [OF d2(1) [folded d1_def] d2(2), unfolded d1, OF less_add_one]
  have g: "grows d d2" using grows_trans [OF enter_rule_grows add(2) [unfolded d1_def]] .
  have st: "starter_ok d" using assms(1) by (simp add: config_ok_def)
  obtain as where as: "rt_set d2 a = Some as" "as_is_chained as = (s_is_chained s = 1)"
    using rt_defaults [of s] assms(3) by (auto simp: rt_set_def add(9) NOT_SET_def)
  have ph: "s_phase s \<noteq> NOT_SET" "s_phase (set_of d2 a) = s_phase s"
    using add(1) by (auto simp: NOT_SET_def add(9) msre_actionset_set_defaults_def dflt_def)
  have ok: "rule_ok d2 a"
    using st as d1(6,8) add(4,5) grows_addr [OF g]
    by (auto simp: rule_ok_def addr_ok_def [of d2 a] starter_ok_def split: option.splits)
  have starter: "starter_ok d2"
    using st as(1) ph d1(4,6) add(4,5,6) grows_addr [OF g]
    by (auto simp: starter_ok_def next_chain_def addr_ok_def [of d2 a] split: option.splits)
  have start_same: "rt_set d2 st = rt_set d st" "s_phase (set_of d2 st) = s_phase (set_of d st)" "rt_set d st \<noteq> None"
    "s_phase s = s_phase (set_of d st)"
    if "d_chain_starter d = Some st" for st
    using st that grows_addr [OF g, of st] assms(4) by (auto simp: starter_ok_def addr_ok_def)
  have c2: "config_ok d2"
  proof (rule config_ok_append [OF assms(1) g, of "s_phase s" a])
    show "d_default d2 = d_default d" using add(7) d1(3) by simp
    show "phase_rules (d_ruleset d2) q = (if q = s_phase s then map_option (\<lambda>arr. arr @ [a]) (phase_rules (d_ruleset d) q)
       else phase_rules (d_ruleset d) q)" for q using add(3) by simp
    show "rule_ok d2 a" "starter_ok d2" by (rule ok, rule starter)
    show "chain_state (open_chain d (s_phase s)) [rt_rule d2 a] = Some (open_chain d2 (s_phase s))"
      using d1(4,7,8) as ph add(5,6) start_same
      by (auto simp: rt_rule_def open_chain_def next_chain_def split: option.splits)
    show "open_chain d2 q = open_chain d q" if "q \<noteq> s_phase s" for q
      using that d1(4) ph add(6) start_same
      by (auto simp: open_chain_def next_chain_def split: option.splits)
  qed
  show ?thesis
  proof (cases "\<exists>i. s_id (set_of d2 a) = Ptr i \<and> d_watch d2 (map c_tolower i)")
    case False
    then have "d' = d2" using d2(3) by (auto simp: add_placeholder_def split: cptr.splits)
    then show ?thesis using c2 by simp
  next
    case True
    then obtain i where i: "s_id (set_of d2 a) = Ptr i" "d_watch d2 (map c_tolower i)" by blast
    define b where "b = d_next d2"
    define d3 where "d3 = d2\<lparr>d_rules := (d_rules d2)(b := (d_rules d2 a)\<lparr>cr_placeholder := RULE_PH_SKIPAFTER\<rparr>), d_next := b + 1\<rparr>"
    obtain rc d4 where r4: "rule_add d3 b (s_phase (set_of d3 b)) = (rc, d4)" by fastforce
    have d4: "rule_add d3 b (s_phase (set_of d3 b)) = (rc, d4)" "0 \<le> rc"
      "d' = d4\<lparr>d_watch := (d_watch d4)(map c_tolower i := False)\<rparr>"
      using d2(3) i r4 unfolding add_placeholder_def Let_def b_def [symmetric] d3_def [symmetric]
      by (auto split: if_splits)
    have g3: "grows d2 d3" by (simp add: grows_def d3_def b_def)
    note c3 = config_ok_grows [OF c2 g3]
    have "config_ok d4"
    proof (rule add_placeholder_rule [OF c3(1) d4(1,2)])
      show "b < d_next d3" "cr_set (d_rules d3 b) < d_next d3" "cr_placeholder (d_rules d3 b) \<noteq> RULE_PH_NONE"
        using ok by (simp_all add: d3_def b_def rule_ok_def addr_ok_def)
      show "case cr_starter (d_rules d3 b) of None \<Rightarrow> True | Some st \<Rightarrow> addr_ok d3 st"
        using ok grows_addr(1) [OF g3] by (auto simp: rule_ok_def d3_def split: option.splits)
    qed (simp_all add: d3_def)
    then show ?thesis
      by (rule config_ok_grows(1)) (simp_all add: d4(3) grows_def)
  qed
qed

lemma default_irrelevant [simp]:
  "set_of (d\<lparr>d_default := x\<rparr>) = set_of d" "rt_set (d\<lparr>d_default := x\<rparr>) = rt_set d"
  "rt_rule (d\<lparr>d_default := x\<rparr>) = rt_rule d" "addr_ok (d\<lparr>d_default := x\<rparr>) = addr_ok d"
  "rule_ok (d\<lparr>d_default := x\<rparr>) = rule_ok d" "phase_ok (d\<lparr>d_default := x\<rparr>) = phase_ok d"
  "starter_ok (d\<lparr>d_default := x\<rparr>) = starter_ok d"
proof -
  show a: "set_of (d\<lparr>d_default := x\<rparr>) = set_of d" by (rule ext) (simp add: set_of_def)
  show b: "rt_set (d\<lparr>d_default := x\<rparr>) = rt_set d" by (rule ext) (simp add: rt_set_def a)
  show c: "rt_rule (d\<lparr>d_default := x\<rparr>) = rt_rule d" by (rule ext) (simp add: rt_rule_def b)
  show e: "addr_ok (d\<lparr>d_default := x\<rparr>) = addr_ok d" by (rule ext) (simp add: addr_ok_def b)
  show f: "rule_ok (d\<lparr>d_default := x\<rparr>) = rule_ok d" by (rule ext) (simp add: rule_ok_def e split: option.splits)
  show "phase_ok (d\<lparr>d_default := x\<rparr>) = phase_ok d" by (rule ext) (simp add: phase_ok_def open_chain_def a b c f split: option.splits)
  show "starter_ok (d\<lparr>d_default := x\<rparr>) = starter_ok d" by (simp add: starter_ok_def a e split: option.splits)
qed

lemma check_id_state:
  "check_id d s = Some (None, d') \<Longrightarrow> \<exists>ids. d' = d\<lparr>d_ids := ids\<rparr>"
  by (auto simp: check_id_def split: if_splits option.splits cptr.splits intro: exI [of _ "d_ids d"])

lemma default_set_chained:
  "config_ok d \<Longrightarrow> default_set env d = Some (Inr parent) \<Longrightarrow> s_is_chained parent = NOT_SET \<or> s_is_chained parent = 1"
  by (auto simp: default_set_def config_ok_def msre_actionset_create_default_def not_Inl split: option.splits sum.splits
      dest: create_chained)

lemma chain_phase_simps [simp]:
  "s_is_chained (chain_phase d s) = s_is_chained s"
  "d_chain_starter d = Some st \<Longrightarrow> s_phase (chain_phase d s) = s_phase (set_of d st)"
  by (simp_all add: chain_phase_def split: option.splits)

text \<open>The default set \<^verbatim>\<open>phase:2,log,auditlog,pass\<close> of an engine does not chain.\<close>

definition plain_default :: "rule_env \<Rightarrow> bool" where
  "plain_default env \<longleftrightarrow>
     (case msre_actionset_create_default (re_act env) of Some (Inr s) \<Rightarrow> s_is_chained s = NOT_SET | _ \<Rightarrow> True)"

lemma add_rule_ok:
  assumes "config_ok d" "plain_default env" "add_rule env d p1 p2 p3 = Some (None, d')"
  shows "config_ok d'"
proof -
  obtain rule where r: "msre_rule_create env p1 p2 p3 = Some (Inr rule)"
    using assms(3) by (auto simp: add_rule_def bind_eq_Some_conv not_Inl split: sum.splits)
  obtain err d1 where c: "check_id d (nr_actionset rule) = Some (err, d1)"
    using assms(3) r by (auto simp: add_rule_def bind_eq_Some_conv)
  have err: "err = None" using assms(3) r c by (auto simp: add_rule_def split: if_splits)
  obtain ids where d1: "d1 = d\<lparr>d_ids := ids\<rparr>" using check_id_state c err by blast
  obtain parent where p: "default_set env d1 = Some (Inr parent)"
    using assms(3) r c err by (auto simp: add_rule_def bind_eq_Some_conv not_Inl split: sum.splits)
  define d2 where "d2 = d1\<lparr>d_default := Some parent\<rparr>"
  obtain s where m: "msre_actionset_merge (re_act env) (Some parent) (nr_actionset rule) True = Some (Some s)"
    and pl: "place_rule d2 rule (chain_phase d2 (with_parent s parent)) = Some (None, d')"
    using assms(3) r c err p unfolding add_rule_def d2_def
    by (auto simp: Let_def bind_eq_Some_conv split: if_splits)
  have c1: "config_ok d1" by (rule config_ok_grows(1) [OF assms(1)]) (simp_all add: d1 grows_def)
  have pc: "s_is_chained parent = NOT_SET"
    using p c1 assms(2) by (auto simp: default_set_def config_ok_def plain_default_def split: option.splits sum.splits)
  have c2: "config_ok d2" using c1 pc by (simp add: config_ok_def d2_def)
  have child: "s_is_chained t = NOT_SET \<or> s_is_chained t = 1" if "nr_actionset rule = Some t" for t
  proof -
    have "\<exists>text. msre_actionset_create (re_act env) (Some text) = Some (Inr t)"
      using r that unfolding msre_rule_create_def
      by (auto simp: Let_def bind_eq_Some_conv not_Inl split: prod.splits option.splits sum.splits) blast
    then show ?thesis using create_chained by blast
  qed
  have ch: "s_is_chained s = NOT_SET \<or> s_is_chained s = 1"
    using merge_chained [OF m] child pc by (auto split: option.splits)
  show ?thesis
    by (rule place_rule_ok [OF c2 pl]) (use ch in \<open>simp_all add: with_parent_def\<close>)
qed

lemma add_to_phases_ok:
  assumes "config_ok d" "a < d_next d" "cr_set (d_rules d a) < d_next d"
    "cr_placeholder (d_rules d a) \<noteq> RULE_PH_NONE" "cr_starter (d_rules d a) = None" "add_to_phases d a ps = (None, d')"
  shows "config_ok d'"
  using assms
proof (induction ps arbitrary: d)
  case (Cons ph ps)
  obtain rc d1 where r: "rule_add d a ph = (rc, d1)" by fastforce
  then have run: "0 \<le> rc" "add_to_phases d1 a ps = (None, d')" using Cons.prems(6) by (auto split: if_splits)
  note add = rule_add_ok [OF r run(1) Cons.prems(3)]
  have "config_ok d1"
    using add_placeholder_rule(1) [OF Cons.prems(1) r run(1) Cons.prems(2-4)] Cons.prems(5) by simp
  then show ?case using Cons.IH Cons.prems add(4,5) run(2) by simp
qed simp

lemma add_marker_ok:
  assumes "config_ok d" "add_marker env d p1 p2 p3 = Some (None, d')"
  shows "config_ok d'"
proof -
  define a where "a = d_next d"
  obtain rule s where r: "msre_rule_create env p1 p2 p3 = Some (Inr rule)" "nr_actionset rule = Some s"
    using assms(2) by (auto simp: add_marker_def bind_eq_Some_conv not_Inl split: sum.splits)
  define d1 where "d1 = d\<lparr>d_rules := (d_rules d)(a := \<lparr>cr_placeholder = RULE_PH_MARKER, cr_targets = nr_targets rule,
               cr_op_negated = nr_op_negated rule, cr_op_name = nr_op_name rule, cr_op_param = nr_op_param rule,
               cr_set = a, cr_starter = None\<rparr>),
             d_sets := (d_sets d)(a := s), d_next := a + 1\<rparr>"
  obtain err d2 where t: "add_to_phases d1 a [1, 2, 3, 4, 5] = (err, d2)" by fastforce
  have "add_marker env d p1 p2 p3 = (case add_to_phases d1 a [1, 2, 3, 4, 5] of
           (Some err, d) \<Rightarrow> Some (Some err, d)
         | (None, d) \<Rightarrow>
             (case s_id (set_of d a) of
                Ptr i \<Rightarrow> Some (None, d\<lparr>d_watch := (d_watch d)(map c_tolower i := False)\<rparr>)
              | _ \<Rightarrow> None))"
    unfolding a_def d1_def by (simp add: add_marker_def r Let_def del: add_to_phases.simps)
  then have e: "err = None \<and> (\<exists>watch. d' = d2\<lparr>d_watch := watch\<rparr>)"
    using assms(2) unfolding t by (auto split: option.splits cptr.splits)
  have g: "grows d d1" by (simp add: grows_def d1_def a_def)
  have c1: "config_ok d1" by (rule config_ok_grows(1) [OF assms(1) g]) (simp_all add: d1_def)
  have "config_ok d2"
  proof (rule add_to_phases_ok [OF c1])
    show "add_to_phases d1 a [1, 2, 3, 4, 5] = (None, d2)" using t e by simp
  qed (simp_all add: d1_def)
  then show ?thesis using e by (auto intro: config_ok_grows(1) simp: grows_def)
qed

lemma default_action_ok:
  assumes "config_ok d" "cmd_default_action env d p1 = Some (None, d')"
  shows "config_ok d'"
proof -
  obtain s where d': "d' = d\<lparr>d_default := Some s\<rparr>" "s_is_chained s = NOT_SET"
    using assms(2) by (auto simp: cmd_default_action_def check_default_def bind_eq_Some_conv not_Inl split: sum.splits if_splits)
  show ?thesis using assms(1) d' by (simp add: config_ok_def)
qed

text \<open>A context before its first directive.\<close>

definition fresh_config :: "dcfg \<Rightarrow> bool" where
  "fresh_config d \<longleftrightarrow> d_ruleset d = msre_ruleset_create \<and> d_chain_starter d = None \<and> d_default d = None"

definition is_update :: "directive \<Rightarrow> bool" where
  "is_update dir = (case dir of SecRuleUpdateActionById _ _ \<Rightarrow> True | _ \<Rightarrow> False)"

lemma fresh_ok: "fresh_config d \<Longrightarrow> config_ok d"
  by (simp add: fresh_config_def config_ok_def phase_ok_def msre_ruleset_create_def phase_rules_def open_chain_def
      starter_ok_def)

lemma directive_ok:
  "config_ok d \<Longrightarrow> plain_default env \<Longrightarrow> \<not> is_update dir \<Longrightarrow> directive_step env d dir = Some (None, d') \<Longrightarrow> config_ok d'"
  by (cases dir) (auto simp: directive_step_def is_update_def cmd_action_def cmd_marker_def
      intro: add_rule_ok add_marker_ok default_action_ok)

lemma configure_ok:
  "config_ok d \<Longrightarrow> plain_default env \<Longrightarrow> list_all (\<lambda>dir. \<not> is_update dir) dirs \<Longrightarrow> configure env dirs d = Some (None, d') \<Longrightarrow>
   config_ok d'"
proof (induction dirs arbitrary: d)
  case (Cons dir dirs)
  obtain err d1 where s: "directive_step env d dir = Some (err, d1)"
    using Cons.prems(4) by (auto simp: bind_eq_Some_conv)
  then have "err = None" "configure env dirs d1 = Some (None, d')"
    using Cons.prems(4) by (auto split: option.splits)
  then show ?case using Cons.IH [of d1] directive_ok [OF Cons.prems(1,2), of dir d1] Cons.prems(2,3) s by simp
qed simp

section \<open>What the rule engine gets\<close>





section \<open>Witnesses\<close>

text \<open>An engine with the actions and the operator two rules use.\<close>

definition cfg_actions :: "action_metadata list" where
  "cfg_actions = map (\<lambda>i. default_actions ! i) [0, 9, 10, 12, 21, 25]"

lemma cfg_actions_eval:
  "cfg_actions =
     [register ''id'' ACTION_METADATA 1 1 False ACTION_CARDINALITY_ONE ACTION_CGROUP_NONE id_validate id_init No_execute,
      register ''chain'' ACTION_FLOW 0 0 False ACTION_CARDINALITY_ONE ACTION_CGROUP_NONE No_validate chain_init No_execute,
      register ''log'' ACTION_NON_DISRUPTIVE 0 0 False ACTION_CARDINALITY_ONE ACTION_CGROUP_LOG No_validate log_init No_execute,
      register ''auditlog'' ACTION_NON_DISRUPTIVE 0 0 False ACTION_CARDINALITY_ONE ACTION_CGROUP_AUDITLOG No_validate auditlog_init No_execute,
      register ''pass'' ACTION_DISRUPTIVE 0 0 False ACTION_CARDINALITY_ONE ACTION_CGROUP_DISRUPTIVE No_validate pass_init No_execute,
      register ''phase'' ACTION_DISRUPTIVE 1 1 False ACTION_CARDINALITY_ONE ACTION_CGROUP_NONE phase_validate phase_init No_execute]"
  by (simp add: cfg_actions_def default_actions_defs)

definition cfg_act :: act_engine where
  "cfg_act = few_engine\<lparr>ae_resolve := (\<lambda>n. find (\<lambda>m. ci_equal (ascii (am_name m)) n) cfg_actions)\<rparr>"

definition cfg_env :: rule_env where
  "cfg_env = \<lparr>re_act = cfg_act, re_var = args_engine, re_op = (\<lambda>n. if n = ascii ''rx'' then Some (\<lambda>_. None) else None)\<rparr>"

definition cfg_start :: dcfg where
  "cfg_start = \<lparr>d_rules = (\<lambda>_. \<lparr>cr_placeholder = RULE_PH_NONE, cr_targets = [], cr_op_negated = False, cr_op_name = [],
       cr_op_param = [], cr_set = 0, cr_starter = None\<rparr>), d_sets = (\<lambda>_. empty_actionset), d_next = 0,
     d_ruleset = msre_ruleset_create, d_chain_starter = None, d_default = None, d_ids = (\<lambda>_. False), d_watch = (\<lambda>_. False)\<rparr>"

lemma parse_ascii:
  "list_all plain_pair ts \<Longrightarrow> show_pairs 44 ts = ascii text \<Longrightarrow> msre_parse_generic (ascii text) = (ts, None)"
  using parse_generic_pairs [of ts 44] by simp

lemmas plain_eval = plain_pair_def plain_name_def plain_value_def name_char_def value_char_def c_isspace_def ascii_def

lemma cfg_parse:
  "msre_parse_generic (ascii ''phase:2,log,auditlog,pass'') =
     ([(ascii ''phase'', Some (ascii ''2'')), (ascii ''log'', None), (ascii ''auditlog'', None), (ascii ''pass'', None)], None)"
  "msre_parse_generic (ascii ''id:1,chain'') = ([(ascii ''id'', Some (ascii ''1'')), (ascii ''chain'', None)], None)"
  "msre_parse_generic (ascii ''ARGS'') = ([(ascii ''ARGS'', None)], None)"
  by (rule parse_ascii; simp add: plain_eval)+

lemma cfg_bytes:
  "hd (ascii ''2'') = 50" "ascii ''2'' \<noteq> []" "hd (ascii ''1'') = 49" "ascii ''1'' \<noteq> []" "c_atoi (ascii ''2'') = 2"
  "act_id_validate (ascii ''1'') = None" "phase_of (ascii ''2'') = 2"
  by (simp_all add: ascii_def c_atoi_def strtol_acc.simps digit_val_def c_isspace_def act_id_validate_def c_isdigit_def phase_of_def ci_equal_def c_tolower_def c_isupper_def Let_def LONG_MAX_def LONG_MIN_def)

definition cfg_a :: "nat \<Rightarrow> bytes option \<Rightarrow> act" where
  "cfg_a i param = \<lparr>act_meta = cfg_actions ! i, act_param = param, act_tfn = None, act_sign = ABSOLUTE_VALUE\<rparr>"

definition cfg_entry :: "nat \<Rightarrow> bytes option \<Rightarrow> bytes \<times> act" where
  "cfg_entry i param = (name_of (cfg_a i param), cfg_a i param)"

lemma cfg_resolve:
  "ae_resolve cfg_act (ascii ''id'') = Some (cfg_actions ! 0)" "ae_resolve cfg_act (ascii ''chain'') = Some (cfg_actions ! 1)"
  "ae_resolve cfg_act (ascii ''log'') = Some (cfg_actions ! 2)" "ae_resolve cfg_act (ascii ''auditlog'') = Some (cfg_actions ! 3)"
  "ae_resolve cfg_act (ascii ''pass'') = Some (cfg_actions ! 4)" "ae_resolve cfg_act (ascii ''phase'') = Some (cfg_actions ! 5)"
  by (simp_all add: cfg_act_def cfg_actions_eval register_def lower_char_def Let_def)

lemma cfg_tables:
  "ae_setn cfg_act t k a = filter (\<lambda>x. \<not> has_key k x) t @ [(k, a)]" "ae_unset cfg_act t k = filter (\<lambda>x. \<not> has_key k x) t"
  by (simp_all add: cfg_act_def few_engine_def)

lemmas cfg_acts = msre_create_action_def cfg_resolve cfg_tables cfg_actions_eval register_def Let_def
  run_init_def run_validate_def msre_actionset_action_add_def revert_block_def fixup_loop.simps cfg_a_def cfg_entry_def
  msre_actionset_cardinality_fixup_def msre_actionset_create_def msre_parse_actions_def cfg_parse cfg_bytes
  empty_actionset_def lower_char_def

definition cfg_dset :: actionset where
  "cfg_dset = empty_actionset\<lparr>s_actions := [cfg_entry 5 (Some (ascii ''2'')), cfg_entry 2 None, cfg_entry 3 None, cfg_entry 4 None],
     s_phase := 2, s_log := 1, s_auditlog := 1, s_intercept_action := 0, s_intercept_action_rec := Ptr (cfg_a 4 None)\<rparr>"

lemma cfg_default: "msre_actionset_create_default cfg_act = Some (Inr cfg_dset)"
  by (simp add: msre_actionset_create_default_def cfg_acts cfg_dset_def ACTION_NONE_def)

definition cfg_child :: actionset where
  "cfg_child = empty_actionset\<lparr>s_actions := [cfg_entry 0 (Some (ascii ''1'')), cfg_entry 1 None], s_id := Ptr (ascii ''1''),
     s_is_chained := 1\<rparr>"

lemma cfg_create: "msre_actionset_create cfg_act (Some (ascii ''id:1,chain'')) = Some (Inr cfg_child)"
  by (simp add: cfg_acts cfg_child_def)

lemma cfg_merge:
  "msre_actionset_merge cfg_act (Some cfg_dset) (Some cfg_child) True =
     Some (Some (cfg_dset\<lparr>s_actions := s_actions cfg_dset @ s_actions cfg_child, s_id := Ptr (ascii ''1''), s_is_chained := 1\<rparr>))"
  "msre_actionset_merge cfg_act (Some cfg_dset) None True = Some (Some cfg_dset)"
  by (simp_all add: msre_actionset_merge_def merge_fields_def over_def over_p_def NOT_SET_def cfg_dset_def cfg_child_def cfg_acts)

lemma cfg_env_act [simp]: "re_act cfg_env = cfg_act"
  by (simp add: cfg_env_def)

lemma cfg_rule:
  "msre_rule_create cfg_env (ascii ''ARGS'') (ascii ''x'') acts =
     (case acts of
        None \<Rightarrow> Some (Inr \<lparr>nr_targets = [args_var None False False], nr_op_negated = False, nr_op_name = ascii ''rx'',
          nr_op_param = ascii ''x'', nr_actionset = None\<rparr>)
      | Some text \<Rightarrow> map_option (\<lambda>r. case r of Inl err \<Rightarrow> Inl (Bad_actions err)
          | Inr s \<Rightarrow> Inr \<lparr>nr_targets = [args_var None False False], nr_op_negated = False, nr_op_name = ascii ''rx'',
              nr_op_param = ascii ''x'', nr_actionset = Some s\<rparr>) (msre_actionset_create cfg_act (Some text)))"
proof -
  have t: "msre_parse_targets (re_var cfg_env) (ascii ''ARGS'') [] = ([args_var None False False], None)"
    unfolding msre_parse_targets_def cfg_parse
    by (simp add: cfg_env_def msre_create_var_def msre_create_var_ex_def args_engine_def args_var_def Let_def ascii_def)
  have a: "parse_args (ascii ''x'') = (False, ascii ''rx'', ascii ''x'')"
    by (simp add: parse_args_def ascii_def Let_def)
  have rx: "re_op cfg_env (ascii ''rx'') = Some (\<lambda>_. None)" by (simp add: cfg_env_def)
  show ?thesis
  proof (cases acts)
    case (Some str)
    then show ?thesis
      by (cases "msre_actionset_create cfg_act (Some str)") (simp_all add: msre_rule_create_def t a rx Let_def split: sum.splits)
  qed (simp add: msre_rule_create_def t a rx Let_def)
qed

definition cfg_m1 :: actionset where
  "cfg_m1 = with_parent (cfg_dset\<lparr>s_actions := s_actions cfg_dset @ s_actions cfg_child, s_id := Ptr (ascii ''1''), s_is_chained := 1\<rparr>)
     cfg_dset"

definition cfg_m2 :: actionset where
  "cfg_m2 = (with_parent cfg_dset cfg_dset)\<lparr>s_phase := 2\<rparr>"

definition cfg_r :: "nat \<Rightarrow> nat option \<Rightarrow> cfg_rule" where
  "cfg_r a starter = \<lparr>cr_placeholder = RULE_PH_NONE, cr_targets = [args_var None False False], cr_op_negated = False,
     cr_op_name = ascii ''rx'', cr_op_param = ascii ''x'', cr_set = a, cr_starter = starter\<rparr>"

definition cfg_one :: dcfg where
  "cfg_one = cfg_start\<lparr>d_rules := (d_rules cfg_start)(0 := cfg_r 0 None),
     d_sets := (d_sets cfg_start)(0 := (msre_actionset_set_defaults cfg_m1)\<lparr>s_rule := Ptr 0\<rparr>), d_next := 1,
     d_ruleset := msre_ruleset_create\<lparr>phase_request_body := [0]\<rparr>, d_chain_starter := Some 0, d_default := Some cfg_dset,
     d_ids := (d_ids cfg_start)(ascii ''1'' := True)\<rparr>"

definition cfg_two :: dcfg where
  "cfg_two = cfg_one\<lparr>d_rules := (d_rules cfg_one)(1 := cfg_r 1 (Some 0)),
     d_sets := (d_sets cfg_one)(1 := (msre_actionset_set_defaults cfg_m2)\<lparr>s_rule := Ptr 1\<rparr>), d_next := 2,
     d_ruleset := msre_ruleset_create\<lparr>phase_request_body := [0, 1]\<rparr>, d_chain_starter := None\<rparr>"

lemmas cfg_sets = cfg_m1_def cfg_m2_def with_parent_def cfg_dset_def empty_actionset_def msre_actionset_set_defaults_def
  dflt_def dflt_p_def NOT_SET_def

lemma cfg_first:
  "add_rule cfg_env cfg_start (ascii ''ARGS'') (ascii ''x'') (Some (ascii ''id:1,chain'')) = Some (None, cfg_one)"
proof -
  have s: "s_phase cfg_m1 = 2" "s_is_chained cfg_m1 = 1" "s_skip_after cfg_m1 = NOT_SET_P"
    "s_id (msre_actionset_set_defaults cfg_m1) = Ptr (ascii ''1'')" "s_id cfg_child = Ptr (ascii ''1'')"
    by (simp_all add: cfg_sets cfg_child_def)
  show ?thesis
    by (simp add: add_rule_def cfg_rule cfg_create check_id_def default_set_def cfg_default cfg_merge
        cfg_m1_def [symmetric] s logging_disruptive_def chain_phase_def place_rule_def new_watch_def enter_rule_def
        next_chain_def rule_add_def set_of_def msre_ruleset_rule_add_def add_placeholder_def cfg_r_def cfg_one_def cfg_start_def
        msre_ruleset_create_def Let_def)
qed

lemma cfg_second:
  "add_rule cfg_env cfg_one (ascii ''ARGS'') (ascii ''x'') None = Some (None, cfg_two)"
proof -
  have s: "s_phase (msre_actionset_set_defaults cfg_m1) = 2" "s_is_chained cfg_m2 = -1" "s_skip_after cfg_m2 = NOT_SET_P" "s_phase cfg_m2 = 2"
    "s_id (msre_actionset_set_defaults cfg_m2) = NULL_P" "s_phase (with_parent cfg_dset cfg_dset) = 2"
    by (simp_all add: cfg_sets)
  show ?thesis
    by (simp add: add_rule_def cfg_rule cfg_create check_id_def default_set_def cfg_merge
        cfg_m2_def [symmetric] s logging_disruptive_def chain_phase_def place_rule_def new_watch_def enter_rule_def
        next_chain_def rule_add_def set_of_def msre_ruleset_rule_add_def add_placeholder_def cfg_r_def cfg_two_def cfg_one_def cfg_start_def
        msre_ruleset_create_def Let_def)
qed

definition cfg_directives :: "directive list" where
  "cfg_directives = [SecRule (ascii ''ARGS'') (ascii ''x'') (Some (ascii ''id:1,chain'')), SecRule (ascii ''ARGS'') (ascii ''x'') None]"

lemma cfg_run: "configure cfg_env cfg_directives cfg_start = Some (None, cfg_two)"
  by (simp add: cfg_directives_def directive_step_def cfg_first cfg_second)

lemma cfg_hyps: "fresh_config cfg_start" "plain_default cfg_env" "list_all (\<lambda>dir. \<not> is_update dir) cfg_directives"
  by (simp_all add: fresh_config_def cfg_start_def plain_default_def cfg_env_def cfg_default cfg_dset_def empty_actionset_def
      is_update_def cfg_directives_def)



definition cfg_new :: actionset where
  "cfg_new = empty_actionset\<lparr>s_actions := [cfg_entry 2 None], s_log := 1\<rparr>"

lemma cfg_log: "msre_actionset_create cfg_act (Some (ascii ''log'')) = Some (Inr cfg_new)"
proof -
  have "msre_parse_generic (ascii ''log'') = ([(ascii ''log'', None)], None)"
    by (rule parse_ascii; simp add: plain_eval)
  then show ?thesis by (simp add: cfg_acts cfg_new_def)
qed

lemma cfg_set_0: "set_of cfg_two 0 = (msre_actionset_set_defaults cfg_m1)\<lparr>s_rule := Ptr 0\<rparr>"
  by (simp add: set_of_def cfg_two_def cfg_one_def cfg_r_def)

lemma cfg_fetch:
  "map_option (map_option rule_addr)
     (msre_ruleset_fetch_rule (Some (map_ruleset (addr_view cfg_two) (d_ruleset cfg_two))) (ascii ''1'') 0) = Some (Some 0)"
proof -
  have rt: "rt_set cfg_two 0 = Some as \<Longrightarrow> as_id as = Some (ascii ''1'')" for as
    by (simp add: rt_set_def cfg_set_0 rt_actionset_def cfg_sets ACTION_NONE_def rt_int_def)
      (auto simp: rt_actionset_def)
  have "rt_set cfg_two 0 \<noteq> None"
    using rt_defaults [of cfg_m1] by (auto simp: rt_set_def cfg_set_0)
  then obtain as where "rt_set cfg_two 0 = Some as" "as_id as = Some (ascii ''1'')" using rt by blast
  then show ?thesis
    by (simp add: cfg_two_def map_ruleset_def msre_ruleset_create_def msre_ruleset_fetch_rule_def
        msre_ruleset_fetch_phase_rule_def addr_view_def msre_rule.defs rt_rule_def cfg_one_def cfg_r_def)
qed

section \<open>Updating the actions of a chained rule\<close>

text \<open>Where an update leaves the heap: the rule has a new action set, which has the chain flag of the update.\<close>

lemma update_shape:
  assumes "update_rule_action env d p1 p2 offset = Some (None, d')"
    "msre_ruleset_fetch_rule (Some (map_ruleset (addr_view d) (d_ruleset d))) p1 offset = Some (Some rule)"
    "msre_actionset_create (re_act env) (Some p2) = Some (Inr new)"
  shows "\<exists>s. d' = d\<lparr>d_sets := (d_sets d)(d_next d := msre_actionset_set_defaults s),
      d_rules := (d_rules d)(rule_addr rule := (d_rules d (rule_addr rule))\<lparr>cr_set := d_next d\<rparr>), d_next := d_next d + 1\<rparr> \<and>
    s_is_chained s = s_is_chained new"
  using assms(1) unfolding update_rule_action_def assms(2,3)
  by (auto simp: update_set_def Let_def bind_eq_Some_conv dest!: merge_chained split: if_splits)

text \<open>A rule that is not updated keeps its action set.\<close>

lemma update_other:
  assumes "d' = d\<lparr>d_sets := (d_sets d)(d_next d := s), d_rules := (d_rules d)(a := r), d_next := n\<rparr>"
    "b \<noteq> a" "addr_ok d b"
  shows "rt_set d' b = rt_set d b" "d_rules d' b = d_rules d b"
  using assms by (auto simp: rt_set_def set_of_def addr_ok_def)

text \<open>The flow is about to execute rule \<open>j\<close>: it is in the mode \<open>NEXT_RULE\<close> with nothing to skip, and the rule is neither a
  placeholder nor removed at run time. Executing it is one call of \<open>msre_rule_process\<close>.\<close>

definition may_run ::
  "('re, ('re, 'z) modsec_rec_scheme) flow_env \<Rightarrow> msre_rule list \<Rightarrow> nat \<Rightarrow> ('re, 'z) modsec_rec_scheme \<Rightarrow> bool" where
  "may_run fenv rules j msr \<longleftrightarrow> is_enabled msr \<noteq> MODSEC_DISABLED \<and>
     (case rule_actionset (rules ! j) of None \<Rightarrow> False | Some as \<Rightarrow> \<not> rule_removed fenv (reset_intercepted msr) as)"

definition in_turn :: "flow \<Rightarrow> bool" where
  "in_turn st \<longleftrightarrow> fl_mode st = NEXT_RULE \<and> fl_skip st \<le> 0"

definition executes ::
  "('re, ('re, 'z) modsec_rec_scheme) flow_env \<Rightarrow> msre_rule list \<Rightarrow> nat \<Rightarrow> flow \<Rightarrow> ('re, 'z) modsec_rec_scheme \<Rightarrow> bool" where
  "executes fenv rules j st msr \<longleftrightarrow>
     (case env_process fenv (rules ! j) (reset_intercepted msr) of (rc, m) \<Rightarrow>
        flow_step fenv rules j st msr = Some (after_rule rules j (the (rule_actionset (rules ! j))) st rc m))"

text \<open>The flow passes over rule \<open>j\<close> without executing it.\<close>

definition passes_over ::
  "('re, ('re, 'z) modsec_rec_scheme) flow_env \<Rightarrow> msre_rule list \<Rightarrow> nat \<Rightarrow> flow \<Rightarrow> ('re, 'z) modsec_rec_scheme \<Rightarrow> bool" where
  "passes_over fenv rules j st msr \<longleftrightarrow>
     (\<exists>st'. flow_step fenv rules j st msr = Some (Continue (j + 1) st' (clear_vars (reset_intercepted msr))))"

text \<open>The result of rule \<open>j\<close> lets the flow go on with nothing to skip.\<close>

definition goes_on :: "msre_rule list \<Rightarrow> nat \<Rightarrow> flow \<Rightarrow> int \<Rightarrow> ('re, 'z) modsec_rec_scheme \<Rightarrow> bool" where
  "goes_on rules j st rc m \<longleftrightarrow>
     rc = RULE_NO_MATCH \<or>
     rc = RULE_MATCH \<and> \<not> rule_was_intercepted m \<and> \<not> fl_skipped st \<and>
       (case rule_actionset (rules ! j) of None \<Rightarrow> False
        | Some as \<Rightarrow> as_skip_after as = None \<and> new_skip (rules ! j) as (fl_skip st) \<le> 0)"

lemma executesI:
  assumes "in_turn st" "may_run fenv rules j msr" "rule_placeholder (rules ! j) = RULE_PH_NONE"
  shows "executes fenv rules j st msr"
  using assms by (auto simp: executes_def flow_step_def in_turn_def may_run_def Let_def split: option.splits prod.splits)

text \<open>Behind a rule that belongs to a chain and did not match, the next one is passed over; behind a rule that is not
  chained, the next one is in turn.\<close>

lemma chained_failure:
  assumes "chained (rules ! j)" "executes fenv rules j st msr" "env_process fenv (rules ! j) (reset_intercepted msr) = (RULE_NO_MATCH, m)"
    "rule_placeholder (rules ! (j + 1)) = RULE_PH_NONE" "rule_actionset (rules ! (j + 1)) \<noteq> None"
  shows "\<exists>st'. flow_step fenv rules j st msr = Some (Continue (j + 1) st' (clear_vars m)) \<and>
    passes_over fenv rules (j + 1) st' (clear_vars m)"
  using assms by (auto simp: executes_def after_rule_def chained_def passes_over_def flow_step_def Let_def split: option.splits)

lemma unchained_goes_on:
  assumes "rule_actionset (rules ! j) = Some as" "\<not> as_is_chained as" "executes fenv rules j st msr" "in_turn st"
    "env_process fenv (rules ! j) (reset_intercepted msr) = (rc, m)" "goes_on rules j st rc m"
  shows "\<exists>st'. flow_step fenv rules j st msr = Some (Continue (j + 1) st' (clear_vars m)) \<and> in_turn st'"
  using assms
  by (auto simp: executes_def after_rule_def goes_on_def in_turn_def RULE_MATCH_def RULE_NO_MATCH_def Let_def)

text \<open>
  C8: \<^verbatim>\<open>SecRuleUpdateActionById\<close> with actions that do not repeat \<^verbatim>\<open>chain\<close> takes the rule out of its chain. Let
  the update find the rule at place \<open>i\<close> of a phase of a configuration \<open>d\<close> whose chains are in order, the rule be chained, and let
  another one follow it, neither of them a placeholder. Take a flow that has come to the rule with nothing to skip (\<open>in_turn\<close>), the engine
  on and the rule not removed (\<open>may_run\<close>). Before the update, if the rule does not match, the flow passes over the next one. Afterwards the rules of the
  phase are the same but the rule is no longer chained, and the next rule is executed in its own right when the updated one did not
  match just as when it matched without an interception or a skip (\<open>goes_on\<close>), if it may run too.
\<close>

theorem update_action_breaks_chain:
  assumes "config_ok d"
    "msre_ruleset_fetch_rule (Some (map_ruleset (addr_view d) (d_ruleset d))) p1 offset = Some (Some rule)"
    "msre_actionset_create (re_act env) (Some p2) = Some (Inr new)" "s_is_chained new = NOT_SET"
    "update_rule_action env d p1 p2 offset = Some (None, d')"
    "p \<in> {1, 2, 3, 4, 5}" "phase_rules (d_ruleset d) p = Some arr" "Suc i < length arr"
    "arr ! i = rule_addr rule" "arr ! Suc i \<noteq> rule_addr rule"
    "chained (rt_rule d (arr ! i))" "cr_placeholder (d_rules d (arr ! i)) = RULE_PH_NONE"
    "cr_placeholder (d_rules d (arr ! Suc i)) = RULE_PH_NONE"
    "rules = map (rt_rule d) arr" "rules' = map (rt_rule d') arr"
  shows "phase_rules (d_ruleset d') p = Some arr \<and> \<not> chained (rules' ! i) \<and>
    (\<forall>fenv st msr m. in_turn st \<and> may_run fenv rules i msr \<and>
       env_process fenv (rules ! i) (reset_intercepted msr) = (RULE_NO_MATCH, m) \<longrightarrow>
       (\<exists>st'. flow_step fenv rules i st msr = Some (Continue (i + 1) st' (clear_vars m)) \<and>
          passes_over fenv rules (i + 1) st' (clear_vars m))) \<and>
    (\<forall>fenv st msr rc m. in_turn st \<and> may_run fenv rules' i msr \<and>
       env_process fenv (rules' ! i) (reset_intercepted msr) = (rc, m) \<and> goes_on rules' i st rc m \<and>
       may_run fenv rules' (i + 1) (clear_vars m) \<longrightarrow>
       (\<exists>st'. flow_step fenv rules' i st msr = Some (Continue (i + 1) st' (clear_vars m)) \<and>
          executes fenv rules' (i + 1) st' (clear_vars m)))"
proof -
  let ?a = "rule_addr rule" and ?b = "arr ! Suc i"
  obtain s where s: "d' = d\<lparr>d_sets := (d_sets d)(d_next d := msre_actionset_set_defaults s),
      d_rules := (d_rules d)(?a := (d_rules d ?a)\<lparr>cr_set := d_next d\<rparr>), d_next := d_next d + 1\<rparr>" "s_is_chained s = NOT_SET"
    using update_shape [OF assms(5,2,3)] assms(4) by auto
  have "phase_ok d p" using assms(1,6) by (auto simp: config_ok_def)
  then have "list_all (rule_ok d) arr" using assms(7) by (simp add: phase_ok_def)
  then have b: "addr_ok d ?b" using assms(8) by (simp add: list_all_length rule_ok_def)
  obtain as where as: "rt_set d' ?a = Some as" "\<not> as_is_chained as"
    using rt_defaults [of s] s by (auto simp: rt_set_def set_of_def)
  have at: "rules ! i = rt_rule d ?a" "rules ! (i + 1) = rt_rule d ?b" "rules' ! i = rt_rule d' ?a" "rules' ! (i + 1) = rt_rule d' ?b"
    using assms(8,9,14,15) by simp_all
  have old: "rule_placeholder (rules ! i) = RULE_PH_NONE" "rule_placeholder (rules ! (i + 1)) = RULE_PH_NONE"
    "rule_actionset (rules ! (i + 1)) \<noteq> None" "chained (rules ! i)"
    using assms(9,11,12,13) b at by (auto simp: rt_rule_def addr_ok_def)
  have upd: "rule_placeholder (rules' ! i) = RULE_PH_NONE" "rule_placeholder (rules' ! (i + 1)) = RULE_PH_NONE"
    "rule_actionset (rules' ! i) = Some as"
    using assms(9,12,13) at as(1) s(1) update_other [OF s(1) assms(10) b] by (simp_all add: rt_rule_def)
  have "phase_rules (d_ruleset d') p = Some arr" using s(1) assms(7) by simp
  moreover have "\<not> chained (rules' ! i)" using upd(3) as(2) by (simp add: chained_def)
  moreover note chained_failure [OF old(4) executesI [OF _ _ old(1)] _ old(2,3)]
  moreover have "\<exists>st'. flow_step fenv rules' i st msr = Some (Continue (i + 1) st' (clear_vars m)) \<and>
      executes fenv rules' (i + 1) st' (clear_vars m)"
    if "in_turn st" "may_run fenv rules' i msr" "env_process fenv (rules' ! i) (reset_intercepted msr) = (rc, m)"
      "goes_on rules' i st rc m" "may_run fenv rules' (i + 1) (clear_vars m)"
    for fenv :: "('re, ('re, 'z) modsec_rec_scheme) flow_env" and st msr rc m
    using unchained_goes_on [OF upd(3) as(2) executesI [OF that(1,2) upd(1)] that(1,3,4)] executesI [OF _ that(5) upd(2)] by blast
  ultimately show ?thesis by blast
qed

text \<open>The chain of \<open>cfg_two\<close>, whose starter gets \<^verbatim>\<open>log\<close>, in a transaction where no operator matches.\<close>

definition no_match_env :: "(unit, unit modsec_rec) flow_env" where
  "no_match_env = \<lparr>env_regexec = (\<lambda>_ _. -1), env_expand = (\<lambda>_ s. s), env_process = (\<lambda>_ m. (RULE_NO_MATCH, m))\<rparr>"

lemma cfg_may_run:
  "rt_set d a \<noteq> None \<Longrightarrow> is_enabled msr = 1 \<Longrightarrow> removed_rules msr = [] \<Longrightarrow> removed_rules_tag msr = [] \<Longrightarrow>
   removed_rules_msg msr = [] \<Longrightarrow> j < length arr \<Longrightarrow> arr ! j = a \<Longrightarrow> may_run fenv (map (rt_rule d) arr) j msr"
  by (auto simp: may_run_def rt_rule_def rule_removed_def reset_intercepted_def MODSEC_DISABLED_def)

lemma cfg_update:
  "\<exists>d. update_rule_action cfg_env cfg_two (ascii ''1'') (ascii ''log'') 0 = Some (None, d)"
proof -
  have new: "s_id cfg_new = NOT_SET_P" "s_phase cfg_new = NOT_SET" by (simp_all add: cfg_new_def empty_actionset_def)
  obtain m where m: "msre_actionset_merge cfg_act (Some (set_of cfg_two 0)) (Some cfg_new) True = Some (Some m)"
    by (simp add: msre_actionset_merge_def merge_fields_def over_def over_p_def cfg_set_0 cfg_sets cfg_child_def cfg_new_def cfg_acts)
  obtain r where r: "msre_ruleset_fetch_rule (Some (map_ruleset (addr_view cfg_two) (d_ruleset cfg_two))) (ascii ''1'') 0 = Some (Some r)"
    "rule_addr r = 0" using cfg_fetch by auto
  show ?thesis
    by (simp add: update_rule_action_def r cfg_log update_set_def m new Let_def)
qed

theorem update_action_breaks_chain_witness:
  "let rules = map (rt_rule cfg_two) [0, 1]; msr = sample_msr; m = reset_intercepted sample_msr in
   \<exists>d. update_rule_action cfg_env cfg_two (ascii ''1'') (ascii ''log'') 0 = Some (None, d) \<and>
     (\<exists>st. flow_step no_match_env rules 0 flow_start msr = Some (Continue 1 st (clear_vars m)) \<and>
        passes_over no_match_env rules 1 st (clear_vars m)) \<and>
     (\<exists>st. flow_step no_match_env (map (rt_rule d) [0, 1]) 0 flow_start msr = Some (Continue 1 st (clear_vars m)) \<and>
        executes no_match_env (map (rt_rule d) [0, 1]) 1 st (clear_vars m))"
proof -
  let ?msr = "sample_msr" and ?m = "reset_intercepted sample_msr"
  let ?fetch = "msre_ruleset_fetch_rule (Some (map_ruleset (addr_view cfg_two) (d_ruleset cfg_two))) (ascii ''1'') 0"
  obtain d where d: "update_rule_action cfg_env cfg_two (ascii ''1'') (ascii ''log'') 0 = Some (None, d)" using cfg_update by blast
  obtain r where r: "?fetch = Some (Some r)" "rule_addr r = 0" using cfg_fetch by auto
  have ok: "config_ok cfg_two" by (rule configure_ok [OF fresh_ok [OF cfg_hyps(1)] cfg_hyps(2,3) cfg_run])
  have new: "msre_actionset_create (re_act cfg_env) (Some (ascii ''log'')) = Some (Inr cfg_new)" "s_is_chained cfg_new = NOT_SET"
    by (simp_all add: cfg_log cfg_new_def empty_actionset_def)
  have two: "phase_rules (d_ruleset cfg_two) 2 = Some [0, 1]" "cr_placeholder (d_rules cfg_two ([0, 1] ! 0)) = RULE_PH_NONE"
    "cr_placeholder (d_rules cfg_two ([0, 1] ! Suc 0)) = RULE_PH_NONE"
    by (simp_all add: phase_rules_def cfg_two_def cfg_one_def cfg_r_def)
  have ch: "chained (rt_rule cfg_two ([0, 1] ! 0))"
    using rt_defaults [of cfg_m1]
    by (auto simp: chained_def rt_rule_def rt_set_def cfg_set_0 cfg_m1_def with_parent_def NOT_SET_def)
  have some: "rt_actionset (msre_actionset_set_defaults s) \<noteq> None" for s using rt_defaults [of s] by auto
  have addr: "rt_set cfg_two 0 \<noteq> None" "addr_ok cfg_two 1"
    using some [of cfg_m1] some [of cfg_m2]
    by (simp_all del: not_None_eq add: rt_set_def addr_ok_def set_of_def cfg_two_def cfg_one_def cfg_r_def)
  obtain s where s: "d = cfg_two\<lparr>d_sets := (d_sets cfg_two)(d_next cfg_two := msre_actionset_set_defaults s),
      d_rules := (d_rules cfg_two)(0 := (d_rules cfg_two 0)\<lparr>cr_set := d_next cfg_two\<rparr>), d_next := d_next cfg_two + 1\<rparr>"
    using update_shape [OF d r(1) new(1)] unfolding r(2) by blast
  have "rt_set d 0 \<noteq> None" using some [of s] by (simp del: not_None_eq add: s rt_set_def set_of_def)
  moreover have "rt_set d 1 \<noteq> None" using update_other(1) [OF s _ addr(2)] addr(2) by (simp add: addr_ok_def)
  ultimately have sets: "rt_set cfg_two 0 \<noteq> None" "rt_set d 0 \<noteq> None" "rt_set d 1 \<noteq> None" using addr(1) by simp_all
  have lists: "removed_rules ?msr = []" "removed_rules_tag ?msr = []" "removed_rules_msg ?msr = []" "is_enabled ?msr = 1"
    by (simp_all add: sample_msr_def)
  have start: "in_turn flow_start" by (simp add: in_turn_def flow_start_def)
  have proc: "env_process no_match_env x m = (RULE_NO_MATCH, m)" for x m by (simp add: no_match_env_def)
  have go: "goes_on rules j st RULE_NO_MATCH m" for rules j st m by (simp add: goes_on_def)
  have on: "is_enabled (clear_vars ?m) = 1" "removed_rules (clear_vars ?m) = []" "removed_rules_tag (clear_vars ?m) = []"
    "removed_rules_msg (clear_vars ?m) = []"
    by (simp_all add: sample_msr_def reset_intercepted_def clear_vars_def)
  have run: "may_run no_match_env (map (rt_rule cfg_two) [0, 1]) 0 ?msr" "may_run no_match_env (map (rt_rule d) [0, 1]) 0 ?msr"
    "may_run no_match_env (map (rt_rule d) [0, 1]) (0 + 1) (clear_vars ?m)"
    by (rule cfg_may_run [OF sets(1) lists(4,1-3)] cfg_may_run [OF sets(2) lists(4,1-3)] cfg_may_run [OF sets(3) on]; simp)+
  have len: "Suc 0 < length [0 :: nat, 1]" "[0 :: nat, 1] ! 0 = rule_addr r" "[0 :: nat, 1] ! Suc 0 \<noteq> rule_addr r" "(2 :: int) \<in> {1, 2, 3, 4, 5}"
    using r(2) by simp_all
  note all = update_action_breaks_chain [OF ok r(1) new d len(4) two(1) len(1-3) ch two(2,3) refl refl]
  let ?after = "\<lambda>rules. flow_step no_match_env rules 0 flow_start ?msr"
  have "\<exists>st. ?after (map (rt_rule cfg_two) [0, 1]) = Some (Continue (0 + 1) st (clear_vars ?m)) \<and>
      passes_over no_match_env (map (rt_rule cfg_two) [0, 1]) (0 + 1) st (clear_vars ?m)"
    by (rule all [THEN conjunct2, THEN conjunct2, THEN conjunct1, rule_format]) (use start run proc in blast)
  moreover have "\<exists>st. ?after (map (rt_rule d) [0, 1]) = Some (Continue (0 + 1) st (clear_vars ?m)) \<and>
      executes no_match_env (map (rt_rule d) [0, 1]) (0 + 1) st (clear_vars ?m)"
    by (rule all [THEN conjunct2, THEN conjunct2, THEN conjunct2, rule_format, of flow_start no_match_env ?msr RULE_NO_MATCH])
      (use start run proc go in blast)
  ultimately show ?thesis using d unfolding Let_def add_0 by blast
qed

end
