(* ===== verification/MscParsers.thy ===== *)
theory MscParsers
  imports LogEscape UrlCodec
begin

text \<open>
  The parsers of \<^verbatim>\<open>apache2/msc_parsers.c\<close>: URL-encoded arguments and the two versions of cookies. An
  \<^verbatim>\<open>apr_table_t\<close> that is only added to is the list of its entries. The arguments are parsed in a block of
  \<^verbatim>\<open>inputlength + 1\<close> bytes, byte by byte; cookies are strings without their NUL.
\<close>

section \<open>Arguments\<close>

record msc_arg =
  arg_name :: bytes
  arg_name_len :: nat
  arg_name_origin_offset :: nat
  arg_name_origin_len :: nat
  arg_value :: bytes
  arg_value_len :: nat
  arg_value_origin_offset :: nat
  arg_value_origin_len :: nat
  arg_origin :: bytes

text \<open>\<^verbatim>\<open>apr_pcalloc\<close> and the assignment of \<open>origin\<close>.\<close>

definition fresh_arg :: "bytes \<Rightarrow> msc_arg" where
  "fresh_arg origin =
     \<lparr>arg_name = [], arg_name_len = 0, arg_name_origin_offset = 0, arg_name_origin_len = 0,
      arg_value = [], arg_value_len = 0, arg_value_origin_offset = 0, arg_value_origin_len = 0, arg_origin = origin\<rparr>"

text \<open>\<open>junk\<close> is what freshly allocated memory holds. The key of the table entry is the C string that
  \<open>log_escape_nq_ex\<close> returns.\<close>

definition add_argument ::
  "(nat \<Rightarrow> byte) \<Rightarrow> (bytes \<times> msc_arg) list \<Rightarrow> msc_arg \<Rightarrow> (bytes \<times> msc_arg) list option"
where
  "add_argument junk arguments arg = do {
     esc \<leftarrow> log_escape_nq_ex junk (Some (arg_name arg)) (arg_name_len arg);
     key \<leftarrow> Option.bind esc c_str;
     Some (arguments @ [(key, arg)]) }"

text \<open>The two inner loops: \<open>stop\<close> is the test of the separators. The byte is read before the index is compared
  with the length.\<close>

function copy_until :: "(byte \<Rightarrow> bool) \<Rightarrow> nat \<Rightarrow> bytes \<Rightarrow> nat \<Rightarrow> nat \<Rightarrow> bytes \<Rightarrow> (nat \<times> nat \<times> bytes) option" where
  "copy_until stop n s i j buf = do {
     c \<leftarrow> rd s i;
     if \<not> stop c \<and> i < n then do {
       buf \<leftarrow> wr buf j c;
       copy_until stop n s (i + 1) (j + 1) buf }
     else Some (i, j, buf) }"
  by pat_completeness auto
termination by (relation "measure (\<lambda>(stop, n, s, i, j, buf). n - i)") auto

declare copy_until.simps [simp del]

record parse_state =
  pa_i :: nat
  pa_j :: nat
  pa_status :: nat
  pa_value :: nat
  pa_buf :: bytes
  pa_arg :: msc_arg
  pa_invalid :: nat
  pa_arguments :: "(bytes \<times> msc_arg) list"

text \<open>The first half of an iteration: copying a name or a value.\<close>

definition copy_item :: "nat \<Rightarrow> bytes \<Rightarrow> nat \<Rightarrow> byte \<Rightarrow> parse_state \<Rightarrow> parse_state option" where
  "copy_item status s inputlength sep st =
     (if status = 0 then do {
        (i, j, buf) \<leftarrow> copy_until (\<lambda>c. c = 61 \<or> c = sep) inputlength s (pa_i st) (pa_j st) (pa_buf st);
        buf \<leftarrow> wr buf j 0;
        Some (st\<lparr>pa_i := i, pa_j := j + 1, pa_buf := buf,
                pa_arg := (pa_arg st)\<lparr>arg_name_origin_offset := pa_i st, arg_name_origin_len := i - pa_i st\<rparr>\<rparr>) }
      else do {
        (i, j, buf) \<leftarrow> copy_until (\<lambda>c. c = sep) inputlength s (pa_i st) (pa_j st) (pa_buf st);
        buf \<leftarrow> wr buf j 0;
        Some (st\<lparr>pa_i := i, pa_j := j + 1, pa_buf := buf,
                pa_arg := (pa_arg st)\<lparr>arg_value_origin_offset := pa_i st, arg_value_origin_len := i - pa_i st\<rparr>\<rparr>) })"

text \<open>\<^verbatim>\<open>urldecode_nonstrict_inplace_ex\<close> on the part of the buffer behind \<open>p\<close>, and \<^verbatim>\<open>apr_pstrmemdup\<close> of the result.\<close>

definition decode_at :: "bytes \<Rightarrow> nat \<Rightarrow> nat \<Rightarrow> nat \<Rightarrow> (bytes \<times> bytes \<times> nat) option" where
  "decode_at buf p len invalid = do {
     (rlen, out, changed, invalid) \<leftarrow> urldecode_nonstrict_inplace_ex (Some (drop p buf)) len invalid;
     out \<leftarrow> out;
     Some (take (nat rlen) out, take p buf @ out, invalid) }"

text \<open>The second half: decoding it, and adding the argument when it is complete.\<close>

definition finish_item :: "(nat \<Rightarrow> byte) \<Rightarrow> bytes \<Rightarrow> bytes \<Rightarrow> byte \<Rightarrow> parse_state \<Rightarrow> parse_state option" where
  "finish_item junk origin s sep st =
     (if pa_status st = 0 then do {
        (name, buf, invalid) \<leftarrow> decode_at (pa_buf st) 0 (arg_name_origin_len (pa_arg st)) (pa_invalid st);
        let arg = (pa_arg st)\<lparr>arg_name_len := length name, arg_name := name\<rparr>;
        c \<leftarrow> rd s (pa_i st);
        if c = sep then do {
          arguments \<leftarrow> add_argument junk (pa_arguments st) (arg\<lparr>arg_value_len := 0, arg_value := []\<rparr>);
          Some (st\<lparr>pa_buf := buf, pa_invalid := invalid, pa_arguments := arguments, pa_arg := fresh_arg origin,
                  pa_status := 0, pa_j := 0\<rparr>) }
        else Some (st\<lparr>pa_buf := buf, pa_invalid := invalid, pa_arg := arg, pa_status := 1, pa_value := pa_j st\<rparr>) }
      else do {
        (v, buf, invalid) \<leftarrow> decode_at (pa_buf st) (pa_value st) (arg_value_origin_len (pa_arg st)) (pa_invalid st);
        arguments \<leftarrow> add_argument junk (pa_arguments st) ((pa_arg st)\<lparr>arg_value_len := length v, arg_value := v\<rparr>);
        Some (st\<lparr>pa_buf := buf, pa_invalid := invalid, pa_arguments := arguments, pa_arg := fresh_arg origin,
                pa_status := 0, pa_j := 0\<rparr>) })"

partial_function (option) arguments_loop ::
  "(nat \<Rightarrow> byte) \<Rightarrow> bytes \<Rightarrow> bytes \<Rightarrow> nat \<Rightarrow> byte \<Rightarrow> parse_state \<Rightarrow> parse_state option"
where
  "arguments_loop junk origin s inputlength sep st =
     (if pa_i st < inputlength then do {
        st \<leftarrow> copy_item (pa_status st) s inputlength sep st;
        st \<leftarrow> finish_item junk origin s sep st;
        arguments_loop junk origin s inputlength sep (st\<lparr>pa_i := pa_i st + 1\<rparr>) }
      else Some st)"

text \<open>Behind the loop: the last parameter may have been empty.\<close>

definition last_argument :: "(nat \<Rightarrow> byte) \<Rightarrow> parse_state \<Rightarrow> (bytes \<times> msc_arg) list option" where
  "last_argument junk st =
     (if pa_status st = 1 then add_argument junk (pa_arguments st) ((pa_arg st)\<lparr>arg_value_len := 0, arg_value := []\<rparr>)
      else Some (pa_arguments st))"

text \<open>\<^verbatim>\<open>apr_size_t\<close> has 64 bits. The result is the return value, the arguments and \<^verbatim>\<open>*invalid_count\<close>.\<close>

definition parse_arguments ::
  "(nat \<Rightarrow> byte) \<Rightarrow> bytes option \<Rightarrow> nat \<Rightarrow> byte \<Rightarrow> bytes \<Rightarrow> (bytes \<times> msc_arg) list \<Rightarrow> nat \<Rightarrow>
   (int \<times> (bytes \<times> msc_arg) list \<times> nat) option"
where
  "parse_arguments junk s inputlength argument_separator origin arguments invalid_count =
     (case s of
        None \<Rightarrow> Some (-1, arguments, invalid_count)
      | Some s \<Rightarrow>
          if inputlength = 0 then Some (1, arguments, invalid_count)
          else if (inputlength + 1) mod 2 ^ 64 = 0 then Some (-1, arguments, invalid_count)
          else do {
            let buf = apr_palloc junk (inputlength + 1);
            st \<leftarrow> arguments_loop junk origin s inputlength argument_separator
                   \<lparr>pa_i = 0, pa_j = 0, pa_status = 0, pa_value = 0, pa_buf = buf, pa_arg = fresh_arg origin,
                    pa_invalid = 0, pa_arguments = arguments\<rparr>;
            arguments \<leftarrow> last_argument junk st;
            Some (1, arguments, pa_invalid st) })"

section \<open>What the arguments are\<close>

text \<open>The arguments of the input \<open>xs\<close>, which starts at offset \<open>off\<close> of the whole: the pieces between the
  separators, each cut at its first equals sign. A separator at the end starts no further argument; the offset of a value
  is not set when the input ends behind the equals sign.\<close>

definition value_of :: "bytes \<Rightarrow> bytes" where
  "value_of p = tl (dropWhile (\<lambda>c. c \<noteq> 61) p)"

definition name_of_arg :: "bytes \<Rightarrow> bytes" where
  "name_of_arg p = takeWhile (\<lambda>c. c \<noteq> 61) p"

definition argument_at :: "bytes \<Rightarrow> nat \<Rightarrow> bytes \<Rightarrow> bool \<Rightarrow> msc_arg" where
  "argument_at origin off p final =
     (let nm = name_of_arg p; v = value_of p in
      \<lparr>arg_name = url_decode nm, arg_name_len = length (url_decode nm),
       arg_name_origin_offset = off, arg_name_origin_len = length nm,
       arg_value = url_decode v, arg_value_len = length (url_decode v),
       arg_value_origin_offset = (if 61 \<notin> set p \<or> (final \<and> v = []) then 0 else off + length nm + 1),
       arg_value_origin_len = length v, arg_origin = origin\<rparr>)"

function arguments_of :: "bytes \<Rightarrow> byte \<Rightarrow> nat \<Rightarrow> bytes \<Rightarrow> msc_arg list" where
  "arguments_of origin sep off xs =
     (if xs = [] then []
      else
        let p = takeWhile (\<lambda>c. c \<noteq> sep) xs; rest = dropWhile (\<lambda>c. c \<noteq> sep) xs in
        argument_at origin off p (rest = []) # arguments_of origin sep (off + length p + 1) (tl rest))"
  by pat_completeness auto
termination
  by (relation "measure (\<lambda>(origin, sep, off, xs). length xs)")
     (auto simp: neq_Nil_conv length_dropWhile_le less_Suc_eq_le intro: le_trans [OF diff_le_self length_dropWhile_le])

declare arguments_of.simps [simp del]

text \<open>The number of percent signs left undecoded in all of them.\<close>

function invalid_in :: "byte \<Rightarrow> bytes \<Rightarrow> nat" where
  "invalid_in sep xs =
     (if xs = [] then 0
      else
        let p = takeWhile (\<lambda>c. c \<noteq> sep) xs in
        url_invalid (name_of_arg p) + url_invalid (value_of p) + invalid_in sep (tl (dropWhile (\<lambda>c. c \<noteq> sep) xs)))"
  by pat_completeness auto
termination
  by (relation "measure (\<lambda>(sep, xs). length xs)")
     (auto simp: neq_Nil_conv length_dropWhile_le less_Suc_eq_le intro: le_trans [OF diff_le_self length_dropWhile_le])

declare invalid_in.simps [simp del]

definition arg_key :: "msc_arg \<Rightarrow> bytes" where
  "arg_key a = concat (map (log_emit False False False) (arg_name a))"

definition keyed_args :: "msc_arg list \<Rightarrow> (bytes \<times> msc_arg) list" where
  "keyed_args as = map (\<lambda>a. (arg_key a, a)) as"

section \<open>The loops\<close>

lemma copy_until_run:
  assumes "i \<le> n" "n < length s" "j + length (takeWhile (\<lambda>c. \<not> stop c) (drop i (take n s))) \<le> length buf"
  shows "copy_until stop n s i j buf =
    (let xs = takeWhile (\<lambda>c. \<not> stop c) (drop i (take n s)) in Some (i + length xs, j + length xs, blit buf j xs))"
  using assms
proof (induction "n - i" arbitrary: i j buf)
  case 0
  then show ?case by (subst copy_until.simps) simp
next
  case (Suc k)
  then have i: "i < n" by simp
  have front: "drop i (take n s) = s ! i # drop (i + 1) (take n s)"
    using i Suc.prems(2) Cons_nth_drop_Suc [of i "take n s"] by simp
  show ?case
  proof (cases "stop (s ! i)")
    case True
    then show ?thesis using front Suc.prems(2) i by (subst copy_until.simps) simp
  next
    case False
    let ?ys = "takeWhile (\<lambda>c. \<not> stop c) (drop (i + 1) (take n s))"
    have j: "j < length buf" "j + 1 + length ?ys \<le> length buf" using Suc.prems(3) front False by simp_all
    have "copy_until stop n s (i + 1) (j + 1) (buf[j := s ! i]) =
        Some (i + 1 + length ?ys, j + 1 + length ?ys, blit (buf[j := s ! i]) (j + 1) ?ys)"
      using Suc.hyps(1) [of "i + 1" "j + 1" "buf[j := s ! i]"] Suc.hyps(2) Suc.prems(2) i j by (simp add: Let_def)
    then show ?thesis
      using False front Suc.prems(2) i j by (subst copy_until.simps) (simp add: blit_update_Cons)
  qed
qed

lemma decode_at_run:
  assumes "p + n < length buf" "buf ! (p + n) = 0"
  shows "\<exists>buf'. decode_at buf p n invalid =
    Some (url_decode (take n (drop p buf)), buf', invalid + url_invalid (take n (drop p buf))) \<and> length buf' = length buf"
proof -
  let ?xs = "take n (drop p buf)"
  have "length (url_decode ?xs) \<le> n" using length_url_decode [of ?xs] by simp
  then show ?thesis
    using urldecode_run [of n "drop p buf" invalid] assms by (simp add: decode_at_def Let_def)
qed

lemma add_argument_run:
  assumes "arg_name_len a = length (arg_name a)"
  shows "add_argument junk args a = Some (args @ [(arg_key a, a)])"
proof -
  have "list_all printable (arg_key a)"
    unfolding arg_key_def by (rule list_all_concat) (rule log_emit_printable)
  then have "0 \<notin> set (arg_key a)" by (auto simp: list_all_iff printable_def)
  then show ?thesis
    using log_escape_impl_run [of "length (arg_name a)" "arg_name a" junk False False False] assms
    by (auto simp: add_argument_def log_escape_nq_ex_def arg_key_def)
qed

lemma takeWhile_fits: "i \<le> n \<Longrightarrow> n < length s \<Longrightarrow> i + length (takeWhile P (drop i (take n s))) \<le> n"
  using length_takeWhile_le [of P "drop i (take n s)"] by simp

lemma name_item:
  fixes sep :: byte and origin :: bytes
  assumes "i < n" "n < length s" "length buf = n + 1"
  defines "nm \<equiv> takeWhile (\<lambda>c. \<not> (c = 61 \<or> c = sep)) (drop i (take n s))"
  defines "arg \<equiv> (fresh_arg origin)\<lparr>arg_name_origin_offset := i, arg_name_origin_len := length nm,
                      arg_name_len := length (url_decode nm), arg_name := url_decode nm\<rparr>"
  shows "\<exists>buf'. length buf' = n + 1 \<and>
    Option.bind (copy_item 0 s n sep \<lparr>pa_i = i, pa_j = 0, pa_status = 0, pa_value = v, pa_buf = buf,
                    pa_arg = fresh_arg origin, pa_invalid = bad, pa_arguments = args\<rparr>) (finish_item junk origin s sep) =
    Some (if s ! (i + length nm) = sep
       then \<lparr>pa_i = i + length nm, pa_j = 0, pa_status = 0, pa_value = v, pa_buf = buf', pa_arg = fresh_arg origin,
             pa_invalid = bad + url_invalid nm, pa_arguments = args @ [(arg_key arg, arg)]\<rparr>
       else \<lparr>pa_i = i + length nm, pa_j = length nm + 1, pa_status = 1, pa_value = length nm + 1, pa_buf = buf',
             pa_arg = arg, pa_invalid = bad + url_invalid nm, pa_arguments = args\<rparr>)"
proof -
  have len: "i + length nm \<le> n"
    unfolding nm_def using assms(1,2) by (intro takeWhile_fits) simp_all
  let ?b = "(blit buf 0 nm)[length nm := 0]"
  have copy: "copy_until (\<lambda>c. c = 61 \<or> c = sep) n s i 0 buf = Some (i + length nm, length nm, blit buf 0 nm)"
    using copy_until_run [of i n s 0 "\<lambda>c. c = 61 \<or> c = sep" buf] assms(1-3) len by (simp add: Let_def nm_def)
  have b: "length ?b = n + 1" "?b ! length nm = 0" "take (length nm) ?b = nm"
    using assms(3) len by simp_all
  obtain buf' where dec: "decode_at ?b 0 (length nm) bad = Some (url_decode nm, buf', bad + url_invalid nm)"
    "length buf' = n + 1"
    using decode_at_run [of 0 "length nm" ?b bad] b len assms(1) by auto
  show ?thesis
    using copy dec len assms(2,3)
    by (intro exI [of _ buf']) (simp add: copy_item_def finish_item_def add_argument_run arg_def fresh_arg_def arg_key_def Let_def)
qed

lemma value_item:
  fixes sep :: byte and arg :: msc_arg
  assumes "i < n" "n < length s" "length buf = n + 1" "v + n \<le> n + i"
  defines "xs \<equiv> takeWhile (\<lambda>c. c \<noteq> sep) (drop i (take n s))"
  defines "arg' \<equiv> arg\<lparr>arg_value_origin_offset := i, arg_value_origin_len := length xs,
                      arg_value_len := length (url_decode xs), arg_value := url_decode xs\<rparr>"
  assumes "arg_name_len arg = length (arg_name arg)"
  shows "\<exists>buf'. length buf' = n + 1 \<and>
    Option.bind (copy_item 1 s n sep \<lparr>pa_i = i, pa_j = v, pa_status = 1, pa_value = v, pa_buf = buf,
                    pa_arg = arg, pa_invalid = bad, pa_arguments = args\<rparr>) (finish_item junk origin s sep) =
    Some \<lparr>pa_i = i + length xs, pa_j = 0, pa_status = 0, pa_value = v, pa_buf = buf', pa_arg = fresh_arg origin,
          pa_invalid = bad + url_invalid xs, pa_arguments = args @ [(arg_key arg', arg')]\<rparr>"
proof -
  have len: "i + length xs \<le> n"
    unfolding xs_def using assms(1,2) by (intro takeWhile_fits) simp_all
  let ?b = "(blit buf v xs)[v + length xs := 0]"
  have copy: "copy_until (\<lambda>c. c = sep) n s i v buf = Some (i + length xs, v + length xs, blit buf v xs)"
    using copy_until_run [of i n s v "\<lambda>c. c = sep" buf] assms(1-4) len by (simp add: Let_def xs_def)
  have b: "length ?b = n + 1" "?b ! (v + length xs) = 0" using assms(3,4) len by simp_all
  have "take (length xs) (drop v ?b) = take (length xs) (drop v (blit buf v xs))" by (simp add: drop_update_swap)
  also have "\<dots> = xs" using assms(3,4) len by (simp add: blit_def)
  finally have "take (length xs) (drop v ?b) = xs" .
  note b = b this
  obtain buf' where dec: "decode_at ?b v (length xs) bad = Some (url_decode xs, buf', bad + url_invalid xs)"
    "length buf' = n + 1"
    using decode_at_run [of v "length xs" ?b bad] b len assms(4) by auto
  show ?thesis
    using copy dec len assms(2,3,4,7)
    by (intro exI [of _ buf']) (simp add: copy_item_def finish_item_def add_argument_run arg'_def Let_def)
qed

text \<open>One argument after the other: what is left of the input from offset \<open>i\<close> on.\<close>

lemma takeWhile_both: "takeWhile P (takeWhile Q xs) = takeWhile (\<lambda>x. Q x \<and> P x) xs"
  by (induction xs) auto

lemma piece_split:
  assumes "i \<le> n" "n < length s"
  defines "xs \<equiv> drop i (take n s)"
  shows "dropWhile P xs = drop (i + length (takeWhile P xs)) (take n s)"
    "i + length (takeWhile P xs) < n \<Longrightarrow> \<not> P (s ! (i + length (takeWhile P xs)))"
proof -
  show d: "dropWhile P xs = drop (i + length (takeWhile P xs)) (take n s)"
    by (simp add: xs_def dropWhile_eq_drop add.commute)
  assume len: "i + length (takeWhile P xs) < n"
  then have "dropWhile P xs \<noteq> []" using d assms(2) by simp
  then have "\<not> P (hd (dropWhile P xs))" by (rule hd_dropWhile)
  then show "\<not> P (s ! (i + length (takeWhile P xs)))" using d len assms(2) by (simp add: hd_drop_conv_nth)
qed

lemma arguments_loop_step:
  assumes "pa_i st < n" "pa_status st = k" "Option.bind (copy_item k s n sep st) (finish_item junk origin s sep) = Some st'"
  shows "arguments_loop junk origin s n sep st = arguments_loop junk origin s n sep (st'\<lparr>pa_i := pa_i st' + 1\<rparr>)"
  using assms by (subst arguments_loop.simps) (simp flip: Option.bind_assoc)

lemma arguments_loop_end: "n \<le> pa_i st \<Longrightarrow> arguments_loop junk origin s n sep st = Some st"
  by (simp add: arguments_loop.simps)

lemma arguments_run:
  assumes "i \<le> n" "n < length s" "length buf = n + 1"
  shows "\<exists>st. arguments_loop junk origin s n sep \<lparr>pa_i = i, pa_j = 0, pa_status = 0, pa_value = v, pa_buf = buf,
             pa_arg = fresh_arg origin, pa_invalid = bad, pa_arguments = args\<rparr> = Some st \<and>
     last_argument junk st = Some (args @ keyed_args (arguments_of origin sep i (drop i (take n s)))) \<and>
     pa_invalid st = bad + invalid_in sep (drop i (take n s))"
  using assms(1,3)
proof (induction "n - i" arbitrary: i v buf bad args rule: less_induct)
  case less
  define xs where "xs = drop i (take n s)"
  define p where "p = takeWhile (\<lambda>c. c \<noteq> sep) xs"
  define nm where "nm = takeWhile (\<lambda>c. c \<noteq> 61) p"
  define r where "r = value_of p"
  define j where "j = i + length nm"
  define arg where "arg = (fresh_arg origin)\<lparr>arg_name_origin_offset := i, arg_name_origin_len := length nm,
                  arg_name_len := length (url_decode nm), arg_name := url_decode nm\<rparr>"
  let ?st = "\<lparr>pa_i = i, pa_j = 0, pa_status = 0, pa_value = v, pa_buf = buf,
             pa_arg = fresh_arg origin, pa_invalid = bad, pa_arguments = args\<rparr>"
  note split = piece_split [OF less.prems(1) assms(2), of "\<lambda>c. c \<noteq> sep", folded xs_def, folded p_def]
  show ?case unfolding xs_def [symmetric]
  proof (cases "i < n")
    case False
    then show "\<exists>st. arguments_loop junk origin s n sep ?st = Some st \<and>
       last_argument junk st = Some (args @ keyed_args (arguments_of origin sep i xs)) \<and> pa_invalid st = bad + invalid_in sep xs"
      using assms(2) less.prems
      by (simp add: xs_def arguments_loop_end arguments_of.simps invalid_in.simps last_argument_def keyed_args_def)
  next
    case True
    then have ne: "xs \<noteq> []" using assms(2) by (simp add: xs_def)
    have nm: "takeWhile (\<lambda>c. \<not> (c = 61 \<or> c = sep)) (drop i (take n s)) = nm"
      unfolding nm_def p_def xs_def takeWhile_both by (rule arg_cong [of _ _ "\<lambda>P. takeWhile P (drop i (take n s))"]) auto
    obtain buf1 where buf1: "length buf1 = n + 1" and name: "Option.bind (copy_item 0 s n sep ?st) (finish_item junk origin s sep) =
      Some (if s ! j = sep
         then \<lparr>pa_i = j, pa_j = 0, pa_status = 0, pa_value = v, pa_buf = buf1, pa_arg = fresh_arg origin,
               pa_invalid = bad + url_invalid nm, pa_arguments = args @ [(arg_key arg, arg)]\<rparr>
         else \<lparr>pa_i = j, pa_j = length nm + 1, pa_status = 1, pa_value = length nm + 1, pa_buf = buf1,
               pa_arg = arg, pa_invalid = bad + url_invalid nm, pa_arguments = args\<rparr>)"
      using name_item [OF True assms(2) less.prems(2), where sep = sep and origin = origin and v = v and bad = bad and args = args and junk = junk]
      unfolding nm arg_def j_def by blast
    have step1: "arguments_loop junk origin s n sep ?st = arguments_loop junk origin s n sep (st'\<lparr>pa_i := pa_i st' + 1\<rparr>)"
      if "Option.bind (copy_item 0 s n sep ?st) (finish_item junk origin s sep) = Some st'" for st'
      using that True by (intro arguments_loop_step [of _ _ 0]) simp_all
    have args: "arguments_of origin sep i xs = argument_at origin i p (dropWhile (\<lambda>c. c \<noteq> sep) xs = []) #
        arguments_of origin sep (i + length p + 1) (drop (i + length p + 1) (take n s))"
      and bads: "invalid_in sep xs = url_invalid nm + url_invalid r + invalid_in sep (drop (i + length p + 1) (take n s))"
      using ne split(1)
      by (simp_all add: arguments_of.simps [of _ _ _ xs] invalid_in.simps [of _ xs] p_def nm_def r_def name_of_arg_def Let_def
          tl_drop drop_Suc)
    have tail: "\<exists>st. arguments_loop junk origin s n sep \<lparr>pa_i = j, pa_j = 0, pa_status = 0, pa_value = v, pa_buf = buf,
             pa_arg = fresh_arg origin, pa_invalid = bad, pa_arguments = args\<rparr> = Some st \<and>
        last_argument junk st = Some (args @ keyed_args (arguments_of origin sep j (drop j (take n s)))) \<and>
        pa_invalid st = bad + invalid_in sep (drop j (take n s))"
      if "i < j" "length buf = n + 1" for j v buf bad args
    proof (cases "j \<le> n")
      case True
      then show ?thesis using less.hyps [of j buf v bad args] that \<open>i < n\<close> by simp
    next
      case False
      then show ?thesis
        by (simp add: arguments_loop_end last_argument_def arguments_of.simps invalid_in.simps keyed_args_def)
    qed
    have fits: "i + length p \<le> n" unfolding p_def xs_def by (rule takeWhile_fits [OF less.prems(1) assms(2)])
    show "\<exists>st. arguments_loop junk origin s n sep ?st = Some st \<and>
       last_argument junk st = Some (args @ keyed_args (arguments_of origin sep i xs)) \<and> pa_invalid st = bad + invalid_in sep xs"
    proof (cases "61 \<in> set p")
      case False
      then have whole: "nm = p" by (auto simp: nm_def takeWhile_eq_all_conv)
      have no_eq: "dropWhile (\<lambda>c. c \<noteq> 61) p = []" using False by (auto simp: dropWhile_eq_Nil_conv)
      have vals: "name_of_arg p = nm" "value_of p = []" "r = []"
        unfolding name_of_arg_def value_of_def r_def no_eq nm_def by simp_all
      have at: "argument_at origin i p e = arg" for e
        using False vals by (simp add: argument_at_def arg_def fresh_arg_def Let_def)
      note args = args [unfolded at]
      show ?thesis
      proof (cases "s ! j = sep")
        case True
        then show ?thesis
          using step1 [OF name] tail [of "j + 1" buf1 v "bad + url_invalid nm" "args @ [(arg_key arg, arg)]"] buf1
          by (simp add: args bads vals whole keyed_args_def j_def add.assoc)
      next
        case False
        then have "j = n" using split(2) fits whole by (fastforce simp: j_def)
        then show ?thesis
          using step1 [OF name] False
          by (simp add: args bads vals whole [symmetric] j_def keyed_args_def arguments_loop_end last_argument_def add_argument_run
              arguments_of.simps [of _ _ _ "[]"] invalid_in.simps [of _ "[]"]) (simp add: arg_def fresh_arg_def add_argument_run)
      qed
    next
      case True
      have "dropWhile (\<lambda>c. c \<noteq> 61) p \<noteq> []" using True by (auto simp: dropWhile_eq_Nil_conv)
      moreover from this have "hd (dropWhile (\<lambda>c. c \<noteq> 61) p) = 61" using hd_dropWhile by blast
      ultimately have "dropWhile (\<lambda>c. c \<noteq> 61) p = 61 # r" unfolding r_def value_of_def by (metis list.collapse)
      then have p: "p = nm @ 61 # r" using takeWhile_dropWhile_id [of "\<lambda>c. c \<noteq> 61" p] by (simp add: nm_def)
      have len: "j + 1 + length r \<le> n" "length p = length nm + 1 + length r"
        using fits arg_cong [OF p, of length] by (simp_all add: j_def)
      have xs: "xs = nm @ 61 # r @ drop (i + length p) (take n s)"
        using takeWhile_dropWhile_id [of "\<lambda>c. c \<noteq> sep" xs, folded p_def] p split(1) by (metis append.assoc append_Cons)
      have "s ! j = 61" using arg_cong [OF xs, of "\<lambda>l. l ! length nm"] len assms(2) by (simp add: xs_def j_def)
      moreover have no_sep: "sep \<notin> set p" unfolding p_def using set_takeWhileD by fastforce
      ultimately have name1: "Option.bind (copy_item 0 s n sep ?st) (finish_item junk origin s sep) =
        Some \<lparr>pa_i = j, pa_j = length nm + 1, pa_status = 1, pa_value = length nm + 1, pa_buf = buf1,
              pa_arg = arg, pa_invalid = bad + url_invalid nm, pa_arguments = args\<rparr>"
        using name True by auto
      have behind: "drop (j + 1) (take n s) = r @ drop (i + length p) (take n s)"
        using arg_cong [OF xs, of "drop (length nm + 1)"] by (simp add: xs_def j_def add.commute add.left_commute)
      show ?thesis
      proof (cases "j + 1 < n")
        case False
        then have "length r = 0" "j + 1 = n" using len(1) by linarith+
        then have end_facts: "r = []" "j + 1 = n" by simp_all
        then have "argument_at origin i p (dropWhile (\<lambda>c. c \<noteq> sep) xs = []) = arg"
          using len(2) split(1)
          by (simp add: argument_at_def name_of_arg_def r_def [symmetric] nm_def [symmetric] arg_def fresh_arg_def Let_def j_def)
        then show ?thesis
          using step1 [OF name1] end_facts len(2)
          by (simp add: args bads keyed_args_def arguments_loop_end last_argument_def j_def
              arguments_of.simps [of _ _ _ "[]"] invalid_in.simps [of _ "[]"]) (simp add: arg_def fresh_arg_def add_argument_run)
      next
        case True
        have "p = takeWhile (\<lambda>c. c \<noteq> sep) (nm @ 61 # drop (j + 1) (take n s))"
          using xs behind unfolding p_def by metis
        also have "\<dots> = nm @ 61 # takeWhile (\<lambda>c. c \<noteq> sep) (drop (j + 1) (take n s))"
          using no_sep p by (subst takeWhile_append2) auto
        finally have vals: "takeWhile (\<lambda>c. c \<noteq> sep) (drop (j + 1) (take n s)) = r" using p by simp
        define arg1 where "arg1 = arg\<lparr>arg_value_origin_offset := j + 1, arg_value_origin_len := length r,
                      arg_value_len := length (url_decode r), arg_value := url_decode r\<rparr>"
        obtain buf2 where buf2: "length buf2 = n + 1" and item2:
          "Option.bind (copy_item 1 s n sep \<lparr>pa_i = j + 1, pa_j = length nm + 1, pa_status = 1, pa_value = length nm + 1,
              pa_buf = buf1, pa_arg = arg, pa_invalid = bad + url_invalid nm, pa_arguments = args\<rparr>) (finish_item junk origin s sep) =
           Some \<lparr>pa_i = j + 1 + length r, pa_j = 0, pa_status = 0, pa_value = length nm + 1, pa_buf = buf2,
              pa_arg = fresh_arg origin, pa_invalid = bad + url_invalid nm + url_invalid r,
              pa_arguments = args @ [(arg_key arg1, arg1)]\<rparr>"
          using value_item [OF True assms(2) buf1, of "length nm + 1" arg sep "bad + url_invalid nm" args junk origin]
          unfolding vals arg1_def [symmetric] by (auto simp: arg_def fresh_arg_def j_def)
        have "\<not> (dropWhile (\<lambda>c. c \<noteq> sep) xs = [] \<and> r = [])"
          using True len(2) split(1) assms(2) by (auto simp: j_def)
        then have "argument_at origin i p (dropWhile (\<lambda>c. c \<noteq> sep) xs = []) = arg1"
          using \<open>61 \<in> set p\<close>
          by (simp add: argument_at_def name_of_arg_def r_def [symmetric] nm_def [symmetric] arg1_def arg_def fresh_arg_def Let_def j_def)
        then show ?thesis
          using step1 [OF name1] arguments_loop_step [OF _ _ item2] True len(2)
            tail [of "j + 1 + length r + 1" buf2 "length nm + 1" "bad + url_invalid nm + url_invalid r" "args @ [(arg_key arg1, arg1)]"] buf2
          by (simp add: args bads keyed_args_def add.assoc j_def)
      qed
    qed
  qed
qed

section \<open>Encoding and parsing\<close>

lemma parse_arguments_run:
  assumes "n < length s" "n + 1 < 2 ^ 64"
  shows "parse_arguments junk (Some s) n sep origin args bad =
    Some (1, args @ keyed_args (arguments_of origin sep 0 (take n s)), if n = 0 then bad else invalid_in sep (take n s))"
proof (cases "n = 0")
  case True
  then show ?thesis by (simp add: parse_arguments_def keyed_args_def arguments_of.simps)
next
  case False
  then show ?thesis
    using arguments_run [of 0 n s "apr_palloc junk (n + 1)" junk origin sep 0 0 args] assms
    by (auto simp: parse_arguments_def Let_def)
qed

text \<open>The query string of a list of names and values.\<close>

fun query_string :: "(bytes \<times> bytes) list \<Rightarrow> bytes" where
  "query_string [] = []"
| "query_string [(k, v)] = url_encoded k @ 61 # url_encoded v"
| "query_string ((k, v) # kvs) = url_encoded k @ 61 # url_encoded v @ 38 # query_string kvs"

lemma url_encoded_plain: "61 \<notin> set (url_encoded xs) \<and> 38 \<notin> set (url_encoded xs)"
proof -
  have "61 \<notin> set (snd (url_emit False c)) \<and> 38 \<notin> set (snd (url_emit False c))" for c
    using c2x_digits_valid [of c] by (auto simp: url_emit_def url_unreserved_def VALID_HEX_def)
  then show ?thesis by (induction xs) auto
qed

abbreviation arg_pair :: "msc_arg \<Rightarrow> bytes \<times> bytes" where
  "arg_pair a \<equiv> (arg_name a, arg_value a)"

lemma item_of_pair:
  fixes k v :: bytes
  defines "p \<equiv> url_encoded k @ 61 # url_encoded v"
  shows "name_of_arg p = url_encoded k" "value_of p = url_encoded v" "38 \<notin> set p"
  using url_encoded_plain [of k] url_encoded_plain [of v]
  by (auto simp: p_def name_of_arg_def value_of_def takeWhile_append dropWhile_append)

lemma arguments_of_single:
  assumes "p \<noteq> []" "sep \<notin> set p"
  shows "arguments_of origin sep off p = [argument_at origin off p True]"
    "invalid_in sep p = url_invalid (name_of_arg p) + url_invalid (value_of p)"
proof -
  have d: "dropWhile (\<lambda>c. c \<noteq> sep) p = []" using assms(2) by (auto simp: dropWhile_eq_Nil_conv)
  moreover from d have "takeWhile (\<lambda>c. c \<noteq> sep) p = p" using takeWhile_dropWhile_id [of "\<lambda>c. c \<noteq> sep" p] by simp
  ultimately show "arguments_of origin sep off p = [argument_at origin off p True]"
    "invalid_in sep p = url_invalid (name_of_arg p) + url_invalid (value_of p)"
    using assms(1) unfolding arguments_of.simps [of _ _ _ p] invalid_in.simps [of _ p]
    by (simp_all only: Let_def if_False list.sel arguments_of.simps [of _ _ _ "[]"] invalid_in.simps [of _ "[]"] if_True simp_thms)
qed

lemma arguments_of_piece:
  assumes "sep \<notin> set p"
  shows "arguments_of origin sep off (p @ sep # xs) =
      argument_at origin off p False # arguments_of origin sep (off + length p + 1) xs"
    "invalid_in sep (p @ sep # xs) = url_invalid (name_of_arg p) + url_invalid (value_of p) + invalid_in sep xs"
proof -
  have "takeWhile (\<lambda>c. c \<noteq> sep) (p @ sep # xs) = p" using assms by (subst takeWhile_append2) auto
  moreover have "dropWhile (\<lambda>c. c \<noteq> sep) (p @ sep # xs) = sep # xs" using assms by (subst dropWhile_append2) auto
  ultimately show "arguments_of origin sep off (p @ sep # xs) =
      argument_at origin off p False # arguments_of origin sep (off + length p + 1) xs"
    "invalid_in sep (p @ sep # xs) = url_invalid (name_of_arg p) + url_invalid (value_of p) + invalid_in sep xs"
    by (subst arguments_of.simps invalid_in.simps, simp add: Let_def)+
qed

lemma query_string_args:
  "map arg_pair (arguments_of origin 38 off (query_string kvs)) = kvs \<and> invalid_in 38 (query_string kvs) = 0"
proof (induction kvs arbitrary: off rule: query_string.induct)
  case 1
  show ?case by (simp add: arguments_of.simps invalid_in.simps)
next
  case (2 k v)
  show ?case
    using item_of_pair [of k v] arguments_of_single [where sep = 38, of "url_encoded k @ 61 # url_encoded v"]
    by (simp add: argument_at_def url_decode_encoded url_invalid_encoded Let_def)
next
  case (3 k v kv kvs)
  let ?p = "url_encoded k @ 61 # url_encoded v"
  have "query_string ((k, v) # kv # kvs) = ?p @ 38 # query_string (kv # kvs)" by simp
  then show ?case
    using item_of_pair [of k v] "3.IH"
      arguments_of_piece(1) [of 38 ?p origin off "query_string (kv # kvs)"] arguments_of_piece(2) [of 38 ?p "query_string (kv # kvs)"]
    by (simp add: argument_at_def url_decode_encoded url_invalid_encoded Let_def del: append_assoc query_string.simps)
qed

section \<open>Cookies\<close>

text \<open>The tokens \<^verbatim>\<open>apr_strtok\<close> returns one after the other: the non-empty pieces between bytes of \<open>delim\<close>.\<close>

fun strtok_acc :: "bytes \<Rightarrow> bytes \<Rightarrow> bytes \<Rightarrow> bytes list" where
  "strtok_acc delim acc [] = (if acc = [] then [] else [rev acc])"
| "strtok_acc delim acc (c # cs) =
     (if c \<in> set delim then (if acc = [] then [] else [rev acc]) @ strtok_acc delim [] cs
      else strtok_acc delim (c # acc) cs)"

text \<open>One turn of the loop of \<open>parse_cookies_v0\<close>: a cookie with an empty name is left out.\<close>

definition cookie_v0 :: "bytes \<Rightarrow> (bytes \<times> bytes) list" where
  "cookie_v0 p =
     (let p = dropWhile c_isspace p;
          attr_name = takeWhile (\<lambda>c. c \<noteq> 61) p;
          attr_value = (if 61 \<in> set p then Some (tl (dropWhile (\<lambda>c. c \<noteq> 61) p)) else None)
      in if attr_name \<noteq> [] then [(attr_name, case attr_value of Some v \<Rightarrow> v | None \<Rightarrow> [])] else [])"

text \<open>The result is the return value and what was added to the table.\<close>

definition parse_cookies_v0 ::
  "bytes option \<Rightarrow> bytes option \<Rightarrow> (bytes \<times> bytes) list \<Rightarrow> bytes \<Rightarrow> int \<times> (bytes \<times> bytes) list"
where
  "parse_cookies_v0 cookiev0_separator cookie_header cookies delim =
     (case cookie_header of
        None \<Rightarrow> (-1, cookies)
      | Some h \<Rightarrow>
          let toks = strtok_acc (case cookiev0_separator of None \<Rightarrow> delim | Some sep \<Rightarrow> sep) [] h;
              added = concat (map cookie_v0 toks)
          in (int (length added), cookies @ added))"

definition trim_end :: "bytes \<Rightarrow> bytes" where
  "trim_end s = rev (dropWhile c_isspace (rev s))"

text \<open>The value of a cookie of \<open>parse_cookies_v1\<close>, from behind the equals sign on, and what is left.\<close>

definition value_v1 :: "bytes \<Rightarrow> bytes option \<times> bytes" where
  "value_v1 p =
     (let p = dropWhile c_isspace p in
      if p = [] then (None, [])
      else if hd p = 34 then
        let p = tl p in
        if p = [] then (None, [])
        else (Some (takeWhile (\<lambda>c. c \<noteq> 34) p), tl (dropWhile (\<lambda>c. c \<noteq> 34) p))
      else
        (Some (trim_end (takeWhile (\<lambda>c. c \<noteq> 44 \<and> c \<noteq> 59) p)), tl (dropWhile (\<lambda>c. c \<noteq> 44 \<and> c \<noteq> 59) p)))"

text \<open>The first half of a turn of its loop: name, value and the rest of the header.\<close>

definition cookie_v1 :: "bytes \<Rightarrow> bytes \<times> bytes option \<times> bytes" where
  "cookie_v1 p =
     (let p = dropWhile c_isspace p;
          attr_name = takeWhile (\<lambda>c. c \<noteq> 61 \<and> c \<noteq> 59 \<and> c \<noteq> 44) p;
          p = dropWhile (\<lambda>c. c \<noteq> 61 \<and> c \<noteq> 59 \<and> c \<noteq> 44) p
      in if p = [] then (attr_name, None, [])
         else if hd p = 59 \<or> hd p = 44 then (attr_name, None, tl p)
         else (attr_name, value_v1 (tl p)))"

lemma length_value_v1: "length (snd (value_v1 p)) \<le> length p"
proof -
  let ?q = "dropWhile c_isspace p"
  have q: "length ?q \<le> length p" by (rule length_dropWhile_le)
  have "length (tl (dropWhile P xs)) \<le> length xs" for P and xs :: bytes
    using length_dropWhile_le [of P xs] by simp
  from this [of "\<lambda>c. c \<noteq> 34" "tl ?q"] this [of "\<lambda>c. c \<noteq> 44 \<and> c \<noteq> 59" ?q] q show ?thesis
    by (auto simp: value_v1_def Let_def simp del: dropWhile_eq_Nil_conv)
qed

lemma length_cookie_v1: "p \<noteq> [] \<Longrightarrow> length (snd (snd (cookie_v1 p))) < length p"
proof -
  assume "p \<noteq> []"
  let ?q = "dropWhile (\<lambda>c. c \<noteq> 61 \<and> c \<noteq> 59 \<and> c \<noteq> 44) (dropWhile c_isspace p)"
  have q: "length ?q \<le> length p" by (rule order_trans [OF length_dropWhile_le length_dropWhile_le])
  show ?thesis
  proof (cases "?q = []")
    case True
    then show ?thesis using \<open>p \<noteq> []\<close> by (simp add: cookie_v1_def Let_def)
  next
    case False
    then have "length (tl ?q) < length p" using q by (cases ?q) simp_all
    then show ?thesis
      using False length_value_v1 [of "tl ?q"] by (auto simp: cookie_v1_def Let_def simp del: dropWhile_eq_Nil_conv)
  qed
qed

lemma rest_v1_shorter: "p \<noteq> [] \<Longrightarrow> (a, v, rest) = cookie_v1 p \<Longrightarrow> length (dropWhile P rest) < length p"
  using length_cookie_v1 [of p] length_dropWhile_le [of P rest] by (metis le_less_trans snd_conv)

text \<open>The whole loop; \<open>prev\<close> is \<^verbatim>\<open>prev_attr_name\<close>.\<close>

function cookies_v1_loop :: "bytes option \<Rightarrow> (bytes \<times> bytes) list \<Rightarrow> bytes \<Rightarrow> (bytes \<times> bytes) list" where
  "cookies_v1_loop prev added p =
     (if p = [] then added
      else
        let (attr_name, attr_value, rest) = cookie_v1 p;
            attr_name = trim_end attr_name;
            rest = dropWhile (\<lambda>c. c = 44 \<or> c = 59 \<or> c_isspace c) rest
        in
        if attr_name = [] then cookies_v1_loop prev added rest
        else
          let attr_name =
                (if hd attr_name = 36 then
                   case prev of Some pn \<Rightarrow> [36] @ pn @ [95] @ tl attr_name | None \<Rightarrow> attr_name
                 else attr_name);
              added = added @ [(attr_name, case attr_value of Some v \<Rightarrow> v | None \<Rightarrow> [])]
          in cookies_v1_loop (if hd attr_name \<noteq> 36 then Some attr_name else prev) added rest)"
  by pat_completeness auto
termination
  by (relation "measure (\<lambda>(prev, added, p). length p)") (auto intro: rest_v1_shorter)

declare cookies_v1_loop.simps [simp del]

definition parse_cookies_v1 :: "bytes option \<Rightarrow> (bytes \<times> bytes) list \<Rightarrow> int \<times> (bytes \<times> bytes) list" where
  "parse_cookies_v1 cookie_header cookies =
     (case cookie_header of
        None \<Rightarrow> (-1, cookies)
      | Some h \<Rightarrow> let added = cookies_v1_loop None [] h in (int (length added), cookies @ added))"

section \<open>Well-formed cookie headers\<close>

definition cookie_name_ok :: "bytes \<Rightarrow> bool" where
  "cookie_name_ok n \<longleftrightarrow> n \<noteq> [] \<and> hd n \<noteq> 36 \<and> list_all (\<lambda>c. c \<notin> {61, 59, 44} \<and> \<not> c_isspace c) n"

definition cookie_value_ok :: "bytes \<Rightarrow> bool" where
  "cookie_value_ok v \<longleftrightarrow> list_all (\<lambda>c. c \<notin> {59, 44, 34} \<and> \<not> c_isspace c) v"

definition cookie_ok :: "bytes \<times> bytes \<Rightarrow> bool" where
  "cookie_ok c \<longleftrightarrow> cookie_name_ok (fst c) \<and> cookie_value_ok (snd c)"

fun cookie_header :: "(bytes \<times> bytes) list \<Rightarrow> bytes" where
  "cookie_header [] = []"
| "cookie_header [(n, v)] = n @ 61 # v"
| "cookie_header ((n, v) # cs) = n @ 61 # v @ 59 # 32 # cookie_header cs"

lemma strtok_acc_piece:
  assumes "list_all (\<lambda>c. c \<notin> set delim) t"
  shows "strtok_acc delim acc (t @ xs) = strtok_acc delim (rev t @ acc) xs"
  using assms by (induction t arbitrary: acc) auto

lemma blank_start: "cookie_name_ok n \<Longrightarrow> dropWhile c_isspace (n @ xs) = n @ xs"
  by (cases n) (auto simp: cookie_name_ok_def)

lemma takeWhile_all: "list_all P t \<Longrightarrow> takeWhile P (t @ xs) = t @ takeWhile P xs"
  and dropWhile_all: "list_all P t \<Longrightarrow> dropWhile P (t @ xs) = dropWhile P xs"
  by (induction t) auto

lemma cookie_v0_piece:
  assumes "cookie_ok (n, v)" "list_all c_isspace b"
  shows "cookie_v0 (b @ n @ 61 # v) = [(n, v)]"
proof -
  have n: "cookie_name_ok n" using assms(1) by (simp add: cookie_ok_def)
  then have all: "list_all (\<lambda>c. c \<noteq> 61) n" "n \<noteq> []" by (auto simp: cookie_name_ok_def list_all_iff)
  have "dropWhile c_isspace (b @ n @ 61 # v) = n @ 61 # v"
    using dropWhile_all [OF assms(2), of "n @ 61 # v"] blank_start [OF n, of "61 # v"] by simp
  then show ?thesis using takeWhile_all [OF all(1), of "61 # v"] dropWhile_all [OF all(1), of "61 # v"] all(2)
    by (simp add: cookie_v0_def Let_def)
qed

lemma cookies_v0_run:
  assumes "list_all cookie_ok cs" "list_all c_isspace b" "59 \<notin> set b" "cs \<noteq> []"
  shows "concat (map cookie_v0 (strtok_acc [59] [] (b @ cookie_header cs))) = cs"
  using assms
proof (induction cs arbitrary: b rule: cookie_header.induct)
  case 1
  then show ?case by simp
next
  case (2 n v)
  have "list_all (\<lambda>c. c \<notin> set [59]) (b @ n @ 61 # v)"
    using 2 by (auto simp: cookie_ok_def cookie_name_ok_def cookie_value_ok_def list_all_iff)
  from strtok_acc_piece [OF this, of "[]" "[]"] show ?case
    using cookie_v0_piece [of n v b] 2 by simp
next
  case (3 n v c cs)
  let ?t = "b @ n @ 61 # v"
  have "list_all (\<lambda>c. c \<notin> set [59]) ?t"
    using 3 by (auto simp: cookie_ok_def cookie_name_ok_def cookie_value_ok_def list_all_iff)
  from strtok_acc_piece [OF this, of "[]" "59 # 32 # cookie_header (c # cs)"]
  have "strtok_acc [59] [] (?t @ 59 # 32 # cookie_header (c # cs)) =
      ?t # strtok_acc [59] [] ([32] @ cookie_header (c # cs))"
    by (simp del: cookie_header.simps)
  moreover have "concat (map cookie_v0 (strtok_acc [59] [] ([32] @ cookie_header (c # cs)))) = c # cs"
    using "3.prems"(1) by (intro "3.IH") (simp_all add: c_isspace_def)
  ultimately show ?case
    using cookie_v0_piece [of n v b] 3 by (simp del: strtok_acc.simps)
qed

lemma trim_end_solid: "list_all (\<lambda>c. \<not> c_isspace c) s \<Longrightarrow> trim_end s = s"
  by (cases s rule: rev_cases) (auto simp: trim_end_def)

lemma cookie_v1_piece:
  assumes "cookie_ok (n, v)" "rest = [] \<or> hd rest = 59"
  shows "\<exists>v'. cookie_v1 (n @ 61 # v @ rest) = (n, v', tl rest) \<and> (case v' of Some x \<Rightarrow> x | None \<Rightarrow> []) = v"
proof -
  have n: "cookie_name_ok n" using assms(1) by (simp add: cookie_ok_def)
  then have all: "list_all (\<lambda>c. c \<noteq> 61 \<and> c \<noteq> 59 \<and> c \<noteq> 44) n" by (auto simp: cookie_name_ok_def list_all_iff)
  have name: "cookie_v1 (n @ 61 # v @ rest) = (n, value_v1 (v @ rest))"
    using blank_start [OF n] takeWhile_all [OF all] dropWhile_all [OF all] by (simp add: cookie_v1_def Let_def)
  have v: "list_all (\<lambda>c. c \<noteq> 44 \<and> c \<noteq> 59) v" "list_all (\<lambda>c. \<not> c_isspace c) v" "34 \<notin> set v"
    using assms(1) by (auto simp: cookie_ok_def cookie_value_ok_def list_all_iff)
  have stop: "takeWhile (\<lambda>c. c \<noteq> 44 \<and> c \<noteq> 59) rest = []" "dropWhile (\<lambda>c. c \<noteq> 44 \<and> c \<noteq> 59) rest = rest"
    using assms(2) by (cases rest; simp)+
  have solid: "dropWhile c_isspace (v @ rest) = v @ rest" "v @ rest \<noteq> [] \<Longrightarrow> hd (v @ rest) \<noteq> 34"
    using v assms(2) by (cases v; cases rest; auto simp: c_isspace_def)+
  show ?thesis
  proof (cases "v @ rest = []")
    case True
    then show ?thesis using name by (simp add: value_v1_def)
  next
    case False
    then have "value_v1 (v @ rest) = (Some v, tl rest)"
      using solid takeWhile_all [OF v(1), of rest] dropWhile_all [OF v(1), of rest] stop trim_end_solid [OF v(2)]
      by (simp add: value_v1_def Let_def)
    then show ?thesis using name by simp
  qed
qed

lemma cookies_v1_step:
  assumes "cookie_ok (n, v)" "rest = [] \<or> hd rest = 59"
  shows "\<exists>prev'. cookies_v1_loop prev added (n @ 61 # v @ rest) =
    cookies_v1_loop prev' (added @ [(n, v)]) (dropWhile (\<lambda>c. c = 44 \<or> c = 59 \<or> c_isspace c) (tl rest))"
proof -
  obtain v' where c: "cookie_v1 (n @ 61 # v @ rest) = (n, v', tl rest)" "(case v' of Some x \<Rightarrow> x | None \<Rightarrow> []) = v"
    using cookie_v1_piece [OF assms] by blast
  have n: "n \<noteq> []" "hd n \<noteq> 36" "trim_end n = n"
    using assms(1) by (auto simp: cookie_ok_def cookie_name_ok_def list_all_iff intro: trim_end_solid)
  then show ?thesis using c by (subst cookies_v1_loop.simps) auto
qed

lemma cookies_v1_run:
  "list_all cookie_ok cs \<Longrightarrow> cookies_v1_loop prev added (cookie_header cs) = added @ cs"
proof (induction cs arbitrary: prev added rule: cookie_header.induct)
  case 1
  show ?case by (simp add: cookies_v1_loop.simps)
next
  case (2 n v)
  then show ?case using cookies_v1_step [of n v "[]" prev added] by (auto simp: cookies_v1_loop.simps [of _ _ "[]"])
next
  case (3 n v c cs)
  obtain m w where c: "c = (m, w)" by (cases c)
  then have m: "cookie_name_ok m" using "3.prems" by (simp add: cookie_ok_def)
  have header: "\<exists>xs. cookie_header (c # cs) = m @ 61 # xs" unfolding c by (cases cs) simp_all
  have sep: "c_isspace 32" by (simp add: c_isspace_def)
  have "dropWhile (\<lambda>c. c = 44 \<or> c = 59 \<or> c_isspace c) (32 # cookie_header (c # cs)) = cookie_header (c # cs)"
    using header m sep by (cases m) (auto simp: cookie_name_ok_def)
  then show ?case
    using cookies_v1_step [of n v "59 # 32 # cookie_header (c # cs)" prev added] "3.IH" "3.prems" by auto
qed

section \<open>Properties\<close>

text \<open>
  C28: \<open>parse_arguments\<close> stays inside the input (one byte of which it reads beyond the length) and the block
  it allocates, returns 1 for every input and every separator, and adds exactly one argument for each piece between
  separators, cut at its first equals sign and URL-decoded, with the offsets of its raw text; \<^verbatim>\<open>*invalid_count\<close> becomes the
  number of invalid escapes, but is not set for an empty input.
\<close>

theorem parse_arguments_correct:
  assumes "n < length s" "n + 1 < 2 ^ 64"
  shows "parse_arguments junk (Some s) n sep origin args bad =
    Some (1, args @ keyed_args (arguments_of origin sep 0 (take n s)), if n = 0 then bad else invalid_in sep (take n s))"
  using assms by (rule parse_arguments_run)

theorem parse_arguments_correct_witness:
  "parse_arguments (\<lambda>_. 7) (Some [97, 61, 37, 52, 49, 38, 98, 0]) 7 38 [] [] 5 =
    Some (1, [] @ keyed_args (arguments_of [] 38 0 (take 7 [97, 61, 37, 52, 49, 38, 98, 0])),
      if 7 = (0::nat) then 5 else invalid_in 38 (take 7 [97, 61, 37, 52, 49, 38, 98, 0]))"
  by (rule parse_arguments_correct) simp_all

text \<open>
  C29: a query string made of URL-encoded names and values parses to exactly these names and values, in order, with no
  invalid escape counted, whatever bytes they hold (NUL, ampersand and equals signs included).
\<close>

theorem arguments_round_trip:
  assumes "length (query_string kvs) + 1 < 2 ^ 64"
  shows "\<exists>args. parse_arguments junk (Some (query_string kvs @ [0])) (length (query_string kvs)) 38 origin [] 0 =
      Some (1, args, 0) \<and> map (arg_pair \<circ> snd) args = kvs"
proof -
  let ?q = "query_string kvs"
  have "map (arg_pair \<circ> snd) (keyed_args (arguments_of origin 38 0 ?q)) = map arg_pair (arguments_of origin 38 0 ?q)"
    by (simp add: keyed_args_def)
  then show ?thesis
    using parse_arguments_run [of "length ?q" "?q @ [0]" junk 38 origin "[]" 0] assms query_string_args [of origin 0 kvs]
    by simp
qed

theorem arguments_round_trip_witness:
  "\<exists>args. parse_arguments (\<lambda>_. 7) (Some (query_string [([97], [38, 0])] @ [0])) (length (query_string [([97], [38, 0])])) 38 [] [] 0 =
      Some (1, args, 0) \<and> map (arg_pair \<circ> snd) args = [([97], [38, 0])]"
  by (rule arguments_round_trip) (simp add: url_emit_def url_unreserved_def)

text \<open>
  on a header of well-formed cookies (names and values without separators, quotes and white space, joined by
  semicolon and blank) the two versions of the cookie parser agree: both add exactly these cookies in order and return
  their number.
\<close>

theorem cookie_parsers_agree:
  assumes "list_all cookie_ok cs" "cs \<noteq> []"
  shows "parse_cookies_v0 None (Some (cookie_header cs)) cookies [59] = (int (length cs), cookies @ cs) \<and>
    parse_cookies_v1 (Some (cookie_header cs)) cookies = (int (length cs), cookies @ cs)"
  using assms cookies_v0_run [of cs "[]"] cookies_v1_run [of cs None "[]"]
  by (simp_all add: parse_cookies_v0_def parse_cookies_v1_def Let_def)

theorem cookie_parsers_agree_witness:
  "parse_cookies_v0 None (Some (cookie_header [([97], [49]), ([98], [])])) [] [59] =
      (int (length [([97 :: byte], [49 :: byte]), ([98], [])]), [] @ [([97], [49]), ([98], [])]) \<and>
    parse_cookies_v1 (Some (cookie_header [([97], [49]), ([98], [])])) [] =
      (int (length [([97 :: byte], [49 :: byte]), ([98], [])]), [] @ [([97], [49]), ([98], [])])"
  by (rule cookie_parsers_agree) (simp_all add: cookie_ok_def cookie_name_ok_def cookie_value_ok_def c_isspace_def)

end
