(* ===== verification/MultipartData.thy ===== *)
theory MultipartData
  imports MscParsers StringUtil ActionTable
begin

text \<open>
  The data of the multipart parser (\<^verbatim>\<open>apache2/msc_multipart.h\<close>) and the functions of
  \<^verbatim>\<open>apache2/msc_multipart.c\<close> that work on a single line of a part: the Content-Disposition header, header lines,
  data lines, and the boundary that closes a part.

  The flags of \<open>multipart_data\<close> only ever go from 0 to 1 (\<open>flag_boundary_quoted\<close> is set to 0 only where it is 0), so they are
  kept as the set of those that are 1. The line buffer is the list of the bytes between its start and \<open>bufptr\<close>: a
  read behind them is undefined here, which is stricter than C, where stale bytes follow. \<open>reserve\<close> is the
  list of reserved bytes, whose length is \<^verbatim>\<open>reserve[0]\<close>. The messages are values of \<open>mp_error\<close>. Debug logging is left out.
\<close>

section \<open>State\<close>

definition MULTIPART_BUF_SIZE :: nat where
  "MULTIPART_BUF_SIZE = 4096"

definition MULTIPART_FORMDATA :: int where
  "MULTIPART_FORMDATA = 1"

definition MULTIPART_FILE :: int where
  "MULTIPART_FILE = 2"

datatype mp_flag =
    Flag_error | Flag_data_before | Flag_data_after | Flag_header_folding | Flag_boundary_quoted
  | Flag_lf_line | Flag_crlf_line | Flag_unmatched_boundary | Flag_boundary_whitespace | Flag_missing_semicolon
  | Flag_invalid_quoting | Flag_invalid_part | Flag_invalid_header_folding | Flag_file_limit_exceeded

datatype mp_error =
    Nul_in_headers | Missing_disposition | Invalid_disposition int bytes | Disposition_name_missing
  | Disposition_filename | Folding_error | Header_too_long | Colon_missing bytes | Header_name_missing
  | Duplicate_header bytes | File_limit_exceeded int | File_create_failed bytes | File_write_failed bytes
  | Unknown_part_type int | Boundary_final_duplicate | Invalid_boundary bytes | Boundary_quotes
  | Boundary_space | Header_line_too_long | No_space_left | Final_boundary_missing | No_boundaries
  | Content_type_missing | Boundary_length | Invalid_mime_type | Multiple_boundaries | Boundary_malformed
  | Boundary_parameter_name | Boundary_quote | Boundary_content | Boundary_characters | Boundary_empty
  | Boundary_case | Boundary_not_found

type_synonym header_table = "(bytes \<times> bytes) list"

text \<open>A \<open>value_part_t\<close> is the list of its bytes.\<close>

record multipart_part =
  mp_type :: int
  mp_name :: "bytes option"
  mp_value :: "bytes option"
  mp_value_parts :: "bytes list"
  mp_tmp_file_name :: "bytes option"
  mp_tmp_file_fd :: int
  mp_tmp_file_size :: "32 word"
  mp_filename :: "bytes option"
  mp_last_header_name :: "bytes option"
  mp_headers :: header_table
  mp_offset :: "32 word"
  mp_length :: "32 word"

record multipart_data =
  md_parts :: "multipart_part list"
  md_nfiles :: int
  md_boundary :: "bytes option"
  md_boundary_count :: nat
  md_buf :: bytes
  md_buf_contains_line :: bool
  md_bufleft :: nat
  md_buf_offset :: "32 word"
  md_mpp :: "multipart_part option"
  md_mpp_state :: nat
  md_reserve :: bytes
  md_seen_data :: bool
  md_is_complete :: bool
  md_flags :: "mp_flag set"

text \<open>What the parser does to files, in order.\<close>

datatype io_event =
    Created bytes int
  | Written int bytes
  | Closed int
  | Unlinked bytes
  | Renamed bytes bytes

text \<open>The fields of \<open>modsec_rec\<close> the parser changes, with \<^verbatim>\<open>*error_msg\<close> and the file events so far.\<close>

record mp_state = multipart_data +
  mr_no_files_length :: "64 word"
  mr_multipart_name :: "bytes option"
  mr_multipart_filename :: "bytes option"
  mr_error_msg :: "mp_error option"
  mr_io :: "io_event list"

text \<open>The fields it only reads, and the outside world: APR tables, and the system calls, whose answers may depend on all
  file events so far.\<close>

record mp_env =
  me_upload_extract_files :: bool
  me_upload_file_limit :: int
  me_table_get :: "header_table \<Rightarrow> bytes \<Rightarrow> bytes option"
  me_table_set :: "header_table \<Rightarrow> bytes \<Rightarrow> bytes \<Rightarrow> header_table"
  me_mkstemp :: "io_event list \<Rightarrow> bytes \<times> int"
  me_write :: "io_event list \<Rightarrow> int \<Rightarrow> bytes \<Rightarrow> int"

definition raise_flag :: "mp_flag \<Rightarrow> mp_state \<Rightarrow> mp_state" where
  "raise_flag f st = st\<lparr>md_flags := insert f (md_flags st)\<rparr>"

text \<open>\<^verbatim>\<open>MULTIPART_BUF_SIZE - msr->mpd->bufleft\<close>\<close>

definition used :: "mp_state \<Rightarrow> nat" where
  "used st = MULTIPART_BUF_SIZE - md_bufleft st"

definition set_error :: "mp_error \<Rightarrow> mp_state \<Rightarrow> mp_state" where
  "set_error e st = st\<lparr>mr_error_msg := Some e\<rparr>"

text \<open>The result of a handler is its return value and the new state; \<^term>\<open>None\<close> is an access outside an object.\<close>

type_synonym mp_result = "(int \<times> mp_state) option"

definition fail :: "mp_error \<Rightarrow> mp_state \<Rightarrow> mp_result" where
  "fail e st = Some (-1, set_error e st)"

section \<open>Content-Disposition\<close>

definition validate_quotes :: "bytes \<Rightarrow> mp_state \<Rightarrow> mp_state" where
  "validate_quotes data st = (if 39 \<in> set data then raise_flag Flag_invalid_quoting st else st)"

definition skip_blank :: "bytes \<Rightarrow> bytes" where
  "skip_blank p = dropWhile (\<lambda>c. c = 9 \<or> c = 32) p"

text \<open>The loop over a quoted value: \<open>t\<close> is what was copied so far, \<open>p\<close> what is left of the string.\<close>

fun quoted_value :: "byte \<Rightarrow> bytes \<Rightarrow> bytes \<Rightarrow> int + (bytes \<times> bytes)" where
  "quoted_value quote t [] = Inl (-10)"
| "quoted_value quote t (c # p) =
     (if c = 92 then
        (case p of
           [] \<Rightarrow> Inl (-8)
         | c1 # p1 \<Rightarrow>
             if c1 = quote \<or> c1 = 92 then quoted_value quote (t @ [c1]) p1
             else quoted_value quote (t @ [c]) p)
      else if c = quote then Inr (t, p)
      else quoted_value quote (t @ [c]) p)"

text \<open>The first half of a turn of the loop over the parameters: name, value and the rest of the string, or the return
  value. The flag tells whether single quotes were seen.\<close>

definition cd_value :: "bytes \<Rightarrow> bool \<times> (int + (bytes \<times> bytes))" where
  "cd_value p =
     (if hd p = 34 \<or> hd p = 39 then
        let quote = hd p; p = tl p in
        (quote = 39, if p = [] then Inl (-7) else quoted_value quote [] p)
      else (False, Inr (takeWhile is_token_char p, dropWhile is_token_char p)))"

definition cd_param :: "bytes \<Rightarrow> bool \<times> (int + (bytes \<times> bytes \<times> bytes))" where
  "cd_param p =
     (let p = skip_blank p in
      if p = [] then (False, Inl (-3))
      else
        let name = takeWhile (\<lambda>c. c \<noteq> 61 \<and> c \<noteq> 9 \<and> c \<noteq> 32) p;
            p = dropWhile (\<lambda>c. c \<noteq> 61 \<and> c \<noteq> 9 \<and> c \<noteq> 32) p
        in
        if p = [] then (False, Inl (-4))
        else
          let p = skip_blank p in
          if p = [] then (False, Inl (-5))
          else if hd p \<noteq> 61 then (False, Inl (-13))
          else
            let p = skip_blank (tl p) in
            if p = [] then (False, Inl (-6))
            else
              let (single, r) = cd_value p in
              (single, case r of Inl e \<Rightarrow> Inl e | Inr (val, p) \<Rightarrow> Inr (name, val, p)))"

text \<open>The second half: what the parameter means.\<close>

definition cd_assign :: "bytes \<Rightarrow> bytes \<Rightarrow> mp_state \<Rightarrow> (int option \<times> mp_state) option" where
  "cd_assign name val st = do {
     mpp \<leftarrow> md_mpp st;
     if name = ascii ''name'' then
       let st = (validate_quotes val st)\<lparr>mr_multipart_name := Some val\<rparr> in
       if mp_name mpp \<noteq> None then Some (Some (-14), st)
       else Some (None, st\<lparr>md_mpp := Some (mpp\<lparr>mp_name := Some val\<rparr>)\<rparr>)
     else if name = ascii ''filename'' then
       let st = (validate_quotes val st)\<lparr>mr_multipart_filename := Some val\<rparr> in
       if mp_filename mpp \<noteq> None then Some (Some (-15), st)
       else Some (None, st\<lparr>md_mpp := Some (mpp\<lparr>mp_filename := Some val\<rparr>)\<rparr>)
     else Some (Some (-11), st) }"

lemma length_skip_blank: "length (skip_blank p) \<le> length p"
  unfolding skip_blank_def by (rule length_dropWhile_le)

lemma length_quoted_value: "quoted_value quote t p = Inr (val, rest) \<Longrightarrow> length rest < length p"
  by (induction quote t p rule: quoted_value.induct) (auto split: if_splits list.splits)

lemma length_cd_value: "cd_value p = (single, Inr (val, rest)) \<Longrightarrow> length rest \<le> length p"
  using length_dropWhile_le [of is_token_char p] length_quoted_value [of "hd p" "[]" "tl p" val rest]
  by (auto simp: cd_value_def Let_def split: if_splits)

lemma length_cd_param:
  assumes "cd_param p = (single, Inr (name, val, rest))"
  shows "length rest < length p"
proof -
  define q where "q = skip_blank (dropWhile (\<lambda>c. c \<noteq> 61 \<and> c \<noteq> 9 \<and> c \<noteq> 32) (skip_blank p))"
  have q: "length q \<le> length p"
    unfolding q_def by (rule order_trans [OF length_skip_blank order_trans [OF length_dropWhile_le length_skip_blank]])
  have "q \<noteq> [] \<and> length rest \<le> length (skip_blank (tl q))"
    using assms length_cd_value [of "skip_blank (tl q)" single val rest]
    by (auto simp: cd_param_def Let_def q_def [symmetric] split: if_splits sum.splits prod.splits)
  then show ?thesis using q length_skip_blank [of "tl q"] by (cases q) auto
qed

lemma cd_params_shorter:
  "(single, Inr (name, val, rest)) = cd_param p \<Longrightarrow> length (skip_blank rest) - Suc 0 < length p"
  using length_cd_param [of p single name val rest] length_skip_blank [of rest] by simp

text \<open>\<open>s\<close> is the whole string; the byte before \<open>p\<close> is looked at when a semicolon is missing.\<close>

function cd_params :: "bytes \<Rightarrow> bytes \<Rightarrow> mp_state \<Rightarrow> mp_result" where
  "cd_params s p st =
     (if p = [] then Some (1, st)
      else
        let (single, r) = cd_param p;
            st = (if single then raise_flag Flag_invalid_quoting st else st)
        in
        case r of
          Inl e \<Rightarrow> Some (e, st)
        | Inr (name, val, rest) \<Rightarrow>
            Option.bind (cd_assign name val st) (\<lambda>(err, st).
              case err of
                Some e \<Rightarrow> Some (e, st)
              | None \<Rightarrow>
                  if rest = [] then Some (1, st)
                  else
                    let p' = skip_blank rest in
                    if p' = [] then Some (1, st)
                    else if hd p' \<noteq> 59 then
                      Option.bind (rd s (length s - length p' - 1)) (\<lambda>prev.
                        Some (-12, if prev = 39 \<or> prev = 34 then raise_flag Flag_invalid_quoting st else st))
                    else cd_params s (tl p') st))"
  by pat_completeness auto
termination
  by (relation "measure (\<lambda>(s, p, st). length p)") (auto intro: cd_params_shorter)

declare cd_params.simps [simp del]

definition multipart_parse_content_disposition :: "bytes \<Rightarrow> mp_state \<Rightarrow> mp_result" where
  "multipart_parse_content_disposition c_d_value st =
     (if take 9 c_d_value \<noteq> ascii ''form-data'' then Some (-1, st)
      else
        let p = skip_blank (drop 9 c_d_value) in
        if p = [] then Some (1, st)
        else if hd p \<noteq> 59 then Some (-2, st)
        else cd_params c_d_value (tl p) st)"

section \<open>Header lines\<close>

text \<open>\<^verbatim>\<open>strstr\<close>: the offset of the first occurrence.\<close>

fun strstr_at :: "bytes \<Rightarrow> bytes \<Rightarrow> nat option" where
  "strstr_at needle [] = (if needle = [] then Some 0 else None)"
| "strstr_at needle (c # cs) =
     (if take (length needle) (c # cs) = needle then Some 0 else map_option Suc (strstr_at needle cs))"

text \<open>\<^verbatim>\<open>apr_pstrdup\<close> followed by \<^verbatim>\<open>remove_lf_crlf_inplace\<close>.\<close>

definition dup_chomp :: "bytes \<Rightarrow> bytes option" where
  "dup_chomp s = do {
     (rc, b) \<leftarrow> remove_lf_crlf_inplace (Some (s @ [0]));
     b \<leftarrow> b;
     c_str b }"

text \<open>The empty line at the end of the headers.\<close>

definition part_headers_end :: "mp_env \<Rightarrow> mp_state \<Rightarrow> mp_result" where
  "part_headers_end env st = do {
     mpp \<leftarrow> md_mpp st;
     case me_table_get env (mp_headers mpp) (ascii ''Content-Disposition'') of
       None \<Rightarrow> fail Missing_disposition st
     | Some header_value \<Rightarrow> do {
         (rc, st) \<leftarrow> multipart_parse_content_disposition header_value st;
         if rc < 0 then fail (Invalid_disposition rc header_value) st
         else do {
           mpp \<leftarrow> md_mpp st;
           if mp_name mpp = None then fail Disposition_name_missing st
           else if mp_filename mpp \<noteq> None \<and> strstr_at (ascii ''filename='') header_value = None
           then fail Disposition_filename st
           else
             let type = (if mp_filename mpp \<noteq> None then MULTIPART_FILE else MULTIPART_FORMDATA) in
             Some (1, st\<lparr>md_mpp := Some (mpp\<lparr>mp_type := type, mp_last_header_name := None\<rparr>), md_mpp_state := 1\<rparr>) } } }"

text \<open>A line that starts with white space continues the header before it. \<^verbatim>\<open>apr_pstrcat\<close> stops at a first
  argument that is NULL.\<close>

definition part_header_fold :: "mp_env \<Rightarrow> bytes \<Rightarrow> mp_state \<Rightarrow> mp_result" where
  "part_header_fold env line st = do {
     let st = raise_flag Flag_header_folding st;
     let odd = (\<lambda>c. c \<noteq> 9 \<and> c \<noteq> 32);
     let st = (if odd (hd line) then raise_flag Flag_invalid_header_folding st else st);
     mpp \<leftarrow> md_mpp st;
     case mp_last_header_name mpp of
       None \<Rightarrow> fail Folding_error st
     | Some name \<Rightarrow> do {
         let st = (if list_ex odd (takeWhile c_isspace line) then raise_flag Flag_invalid_header_folding st else st);
         new_value \<leftarrow> dup_chomp (dropWhile c_isspace line);
         let new_value = (case me_table_get env (mp_headers mpp) name of None \<Rightarrow> [] | Some v \<Rightarrow> v @ [32] @ new_value);
         let st = st\<lparr>md_mpp := Some (mpp\<lparr>mp_headers := me_table_set env (mp_headers mpp) name new_value\<rparr>)\<rparr>;
         if length new_value > MULTIPART_BUF_SIZE then fail Header_too_long st else Some (1, st) } }"

definition part_header_new :: "mp_env \<Rightarrow> bytes \<Rightarrow> mp_state \<Rightarrow> mp_result" where
  "part_header_new env line st =
     (if 58 \<notin> set line then fail (Colon_missing line) st
      else
        let header_name = takeWhile (\<lambda>c. c \<noteq> 58) line in
        if header_name = [] then fail Header_name_missing st
        else do {
          header_value \<leftarrow> dup_chomp (skip_blank (tl (dropWhile (\<lambda>c. c \<noteq> 58) line)));
          mpp \<leftarrow> md_mpp st;
          if me_table_get env (mp_headers mpp) header_name \<noteq> None then fail (Duplicate_header header_name) st
          else
            Some (1, st\<lparr>md_mpp := Some (mpp\<lparr>mp_headers := me_table_set env (mp_headers mpp) header_name header_value,
                                         mp_last_header_name := Some header_name\<rparr>)\<rparr>) })"

text \<open>The line is terminated by a NUL behind its last byte.\<close>

definition multipart_process_part_header :: "mp_env \<Rightarrow> mp_state \<Rightarrow> mp_result" where
  "multipart_process_part_header env st = do {
     let st = st\<lparr>mr_error_msg := None\<rparr>;
     let len = used st;
     let b = md_buf st @ [0];
     if 0 \<in> set (take len (md_buf st)) then fail Nul_in_headers st
     else do {
       let st = st\<lparr>mr_no_files_length := mr_no_files_length st + of_nat len\<rparr>;
       crlf \<leftarrow> (if len > 1 then rdp b (len - 2) (\<lambda>c. c = 13) else Some False);
       let st = raise_flag (if crlf then Flag_crlf_line else Flag_lf_line) st;
       empty1 \<leftarrow> and_m [rdp b 0 (\<lambda>c. c = 13), rdp b 1 (\<lambda>c. c = 10), rdp b 2 (\<lambda>c. c = 0)];
       empty2 \<leftarrow> and_m [rdp b 0 (\<lambda>c. c = 10), rdp b 1 (\<lambda>c. c = 0)];
       if empty1 \<or> empty2 then part_headers_end env st
       else do {
         line \<leftarrow> c_str b;
         c \<leftarrow> rd b 0;
         if c_isspace c then part_header_fold env line st else part_header_new env line st } } }"

section \<open>Data lines\<close>

text \<open>The line end at the end of the buffer is kept for later: it is not data when a boundary follows.\<close>

definition reserve_bytes :: "mp_state \<Rightarrow> (bytes \<times> mp_state) option" where
  "reserve_bytes st = do {
     let n = used st;
     lf \<leftarrow> and_m [Some (n \<ge> 1), rdp (md_buf st) (n - 1) (\<lambda>c. c = 10)];
     if lf then do {
       crlf \<leftarrow> and_m [Some (n \<ge> 2), rdp (md_buf st) (n - 2) (\<lambda>c. c = 13)];
       if crlf then do {
         b \<leftarrow> wr (md_buf st) (n - 2) 0;
         Some ([13, 10], st\<lparr>md_bufleft := md_bufleft st + 2, md_buf := b\<rparr>) }
       else do {
         b \<leftarrow> wr (md_buf st) (n - 1) 0;
         Some ([10], st\<lparr>md_bufleft := md_bufleft st + 1, md_buf := b\<rparr>) } }
     else Some ([], st) }"

definition do_write :: "mp_env \<Rightarrow> int \<Rightarrow> bytes \<Rightarrow> mp_state \<Rightarrow> int \<times> mp_state" where
  "do_write env fd data st =
     (let r = me_write env (mr_io st) fd data in
      (r, st\<lparr>mr_io := mr_io st @ [Written fd (take (nat r) data)]\<rparr>))"

text \<open>One \<^verbatim>\<open>write\<close> of \<open>data\<close> to the temporary file of the part, and its size and length updated.\<close>

definition write_part :: "mp_env \<Rightarrow> bytes \<Rightarrow> mp_state \<Rightarrow> mp_result" where
  "write_part env data st = do {
     mpp \<leftarrow> md_mpp st;
     let (r, st) = do_write env (mp_tmp_file_fd mpp) data st;
     if r \<noteq> int (length data) then do {
       name \<leftarrow> mp_tmp_file_name mpp;
       fail (File_write_failed name) st }
     else
       Some (1, st\<lparr>md_mpp := Some (mpp\<lparr>mp_tmp_file_size := mp_tmp_file_size mpp + of_nat (length data),
                                    mp_length := mp_length mpp + of_nat (length data)\<rparr>)\<rparr>) }"

definition open_part :: "mp_env \<Rightarrow> mp_state \<Rightarrow> mp_result" where
  "open_part env st = do {
     mpp \<leftarrow> md_mpp st;
     if mp_tmp_file_fd mpp = 0 then
       let (name, fd) = me_mkstemp env (mr_io st);
           st = st\<lparr>md_mpp := Some (mpp\<lparr>mp_tmp_file_name := Some name, mp_tmp_file_fd := fd\<rparr>)\<rparr>
       in
       if fd < 0 then fail (File_create_failed name) st
       else Some (1, st\<lparr>md_nfiles := md_nfiles st + 1, mr_io := mr_io st @ [Created name fd]\<rparr>)
     else Some (1, st) }"

text \<open>A step that returned a negative value ends the handler.\<close>

definition and_then :: "mp_result \<Rightarrow> (mp_state \<Rightarrow> mp_result) \<Rightarrow> mp_result" where
  "and_then r f = Option.bind r (\<lambda>(rc, st). if rc < 0 then Some (rc, st) else f st)"

definition mark_offset :: "mp_state \<Rightarrow> mp_state option" where
  "mark_offset st = do {
     mpp \<leftarrow> md_mpp st;
     Some (if mp_length mpp = 0 then st\<lparr>md_mpp := Some (mpp\<lparr>mp_offset := md_buf_offset st\<rparr>)\<rparr> else st) }"

definition file_data :: "mp_env \<Rightarrow> bytes \<Rightarrow> mp_state \<Rightarrow> mp_result" where
  "file_data env data st = do {
     st \<leftarrow> mark_offset st;
     let over = me_upload_extract_files env \<and> md_nfiles st \<ge> me_upload_file_limit env;
     let st =
       (if over \<and> Flag_file_limit_exceeded \<notin> md_flags st
        then raise_flag Flag_file_limit_exceeded (set_error (File_limit_exceeded (me_upload_file_limit env)) st)
        else st);
     if me_upload_extract_files env \<and> \<not> over then
       and_then (open_part env st) (\<lambda>st.
       and_then (if md_reserve st \<noteq> [] then write_part env (md_reserve st) st else Some (1, st)) (\<lambda>st.
       write_part env data st))
     else do {
       mpp \<leftarrow> md_mpp st;
       let n = length data + length (md_reserve st);
       Some (1, st\<lparr>md_mpp := Some (mpp\<lparr>mp_tmp_file_size := mp_tmp_file_size mpp + of_nat n,
                                    mp_length := mp_length mpp + of_nat n\<rparr>)\<rparr>) } }"

definition form_data :: "bytes \<Rightarrow> mp_state \<Rightarrow> mp_result" where
  "form_data data st = do {
     let value_part = md_reserve st @ data;
     let st = st\<lparr>mr_no_files_length := mr_no_files_length st + of_nat (length value_part)\<rparr>;
     st \<leftarrow> mark_offset st;
     mpp \<leftarrow> md_mpp st;
     Some (1, st\<lparr>md_mpp := Some (mpp\<lparr>mp_value_parts := mp_value_parts mpp @ [value_part],
                                  mp_length := mp_length mpp + of_nat (length value_part)\<rparr>)\<rparr>) }"

definition multipart_process_part_data :: "mp_env \<Rightarrow> mp_state \<Rightarrow> mp_result" where
  "multipart_process_part_data env st = do {
     (reserved, st) \<leftarrow> reserve_bytes (st\<lparr>mr_error_msg := None\<rparr>);
     let data = take (used st) (md_buf st);
     mpp \<leftarrow> md_mpp st;
     and_then
       (if mp_type mpp = MULTIPART_FILE then file_data env data st
        else if mp_type mpp = MULTIPART_FORMDATA then form_data data st
        else fail (Unknown_part_type (mp_type mpp)) st)
       (\<lambda>st. Some (1,
          if reserved \<noteq> [] then
            st\<lparr>md_reserve := reserved, md_buf_offset := md_buf_offset st + of_nat (length reserved)\<rparr>
          else
            st\<lparr>md_buf_offset := md_buf_offset st - of_nat (length (md_reserve st)), md_reserve := []\<rparr>)) }"

section \<open>Boundaries\<close>

text \<open>The bytes of the parts, as long as they fit into the block of \<open>mpp->length + 1\<close> bytes.\<close>

definition multipart_combine_value_parts :: "multipart_part \<Rightarrow> bytes" where
  "multipart_combine_value_parts mpp =
     fold (\<lambda>d out. if length out + length d \<le> unat (mp_length mpp) then out @ d else out) (mp_value_parts mpp) []"

definition new_part :: multipart_part where
  "new_part =
     \<lparr>mp_type = MULTIPART_FORMDATA, mp_name = None, mp_value = None, mp_value_parts = [], mp_tmp_file_name = None,
      mp_tmp_file_fd = 0, mp_tmp_file_size = 0, mp_filename = None, mp_last_header_name = None, mp_headers = [],
      mp_offset = 0, mp_length = 0\<rparr>"

text \<open>Finishing the part being built: closing its file, or combining its value; a part without a name is dropped.\<close>

definition finish_part :: "multipart_part \<Rightarrow> mp_state \<Rightarrow> mp_state" where
  "finish_part mpp st =
     (let closing = mp_type mpp = MULTIPART_FILE \<and> mp_tmp_file_name mpp \<noteq> None \<and> mp_tmp_file_fd mpp \<noteq> 0;
          st = (if closing then st\<lparr>mr_io := mr_io st @ [Closed (mp_tmp_file_fd mpp)]\<rparr> else st);
          mpp = (if closing then mpp\<lparr>mp_tmp_file_fd := -1\<rparr> else mpp);
          mpp = (if mp_type mpp \<noteq> MULTIPART_FILE then mpp\<lparr>mp_value := Some (multipart_combine_value_parts mpp)\<rparr> else mpp);
          st = (if mp_name mpp \<noteq> None then st\<lparr>md_parts := md_parts st @ [mpp]\<rparr> else raise_flag Flag_invalid_part st)
      in st\<lparr>md_mpp := None\<rparr>)"

definition multipart_process_boundary :: "bool \<Rightarrow> mp_state \<Rightarrow> mp_result" where
  "multipart_process_boundary last_part st =
     (let st = (case md_mpp st of None \<Rightarrow> st | Some mpp \<Rightarrow> finish_part mpp st) in
      Some (1, if \<not> last_part then st\<lparr>md_mpp := Some new_part, md_mpp_state := 0, md_reserve := []\<rparr> else st))"

end
