(* ===== verification/MultipartSafe.thy ===== *)
theory MultipartSafe
  imports MultipartParse
begin

text \<open>
  The invariant of the multipart parser: its handlers never leave their buffers, the two internal errors of the code
  cannot happen, and the length of a form value is the number of its bytes.
\<close>

section \<open>The invariant\<close>

definition part_ok :: "multipart_part \<Rightarrow> bool" where
  "part_ok p \<longleftrightarrow>
     (mp_type p = MULTIPART_FORMDATA \<or> mp_type p = MULTIPART_FILE) \<and>
     (mp_tmp_file_fd p \<noteq> 0 \<longrightarrow> mp_tmp_file_name p \<noteq> None) \<and>
     (mp_type p = MULTIPART_FORMDATA \<longrightarrow> mp_length p = of_nat (length (concat (mp_value_parts p))))"

definition mpp_ok :: "nat \<Rightarrow> multipart_part option \<Rightarrow> bool" where
  "mpp_ok mpp_state mpp \<longleftrightarrow>
     (case mpp of
        None \<Rightarrow> True
      | Some p \<Rightarrow> part_ok p \<and>
          (if mpp_state = 0 then mp_length p = 0 \<and> mp_value_parts p = [] else mp_name p \<noteq> None))"

definition core_inv :: "bytes \<Rightarrow> bool \<Rightarrow> mp_state \<Rightarrow> bool" where
  "core_inv b sd st \<longleftrightarrow>
     md_boundary st = Some b \<and> md_seen_data st = sd \<and> length (md_reserve st) \<le> 2 \<and> list_all part_ok (md_parts st) \<and>
     mpp_ok (md_mpp_state st) (md_mpp st)"

definition mp_inv :: "bytes \<Rightarrow> bool \<Rightarrow> mp_state \<Rightarrow> bool" where
  "mp_inv b sd st \<longleftrightarrow> core_inv b sd st \<and> length (md_buf st) + md_bufleft st = MULTIPART_BUF_SIZE \<and> 0 < md_bufleft st"

text \<open>The errors the code calls internal.\<close>

definition internal_error :: "mp_error \<Rightarrow> bool" where
  "internal_error e \<longleftrightarrow> e = No_space_left \<or> (\<exists>t. e = Unknown_part_type t)"

definition reported :: "mp_state \<Rightarrow> bool" where
  "reported st \<longleftrightarrow> (\<exists>e. mr_error_msg st = Some e \<and> \<not> internal_error e)"

definition ok_with :: "(mp_state \<Rightarrow> bool) \<Rightarrow> mp_result \<Rightarrow> bool" where
  "ok_with P r \<longleftrightarrow> (\<exists>rc st. r = Some (rc, st) \<and> (rc = 1 \<and> P st \<or> rc = -1 \<and> reported st))"

abbreviation ok_result :: "bytes \<Rightarrow> bool \<Rightarrow> mp_result \<Rightarrow> bool" where
  "ok_result b sd r \<equiv> ok_with (core_inv b sd) r"

lemma raise_flag_fields [simp]:
  "md_parts (raise_flag f st) = md_parts st" "md_nfiles (raise_flag f st) = md_nfiles st"
  "md_boundary (raise_flag f st) = md_boundary st" "md_boundary_count (raise_flag f st) = md_boundary_count st"
  "md_buf (raise_flag f st) = md_buf st" "md_buf_contains_line (raise_flag f st) = md_buf_contains_line st"
  "md_bufleft (raise_flag f st) = md_bufleft st" "md_buf_offset (raise_flag f st) = md_buf_offset st"
  "md_mpp (raise_flag f st) = md_mpp st" "md_mpp_state (raise_flag f st) = md_mpp_state st"
  "md_reserve (raise_flag f st) = md_reserve st" "md_seen_data (raise_flag f st) = md_seen_data st"
  "md_is_complete (raise_flag f st) = md_is_complete st" "md_flags (raise_flag f st) = insert f (md_flags st)"
  "mr_no_files_length (raise_flag f st) = mr_no_files_length st" "mr_error_msg (raise_flag f st) = mr_error_msg st"
  "mr_io (raise_flag f st) = mr_io st" "used (raise_flag f st) = used st"
  by (simp_all add: raise_flag_def used_def)

lemma core_inv_raise [simp]: "core_inv b sd (raise_flag f st) = core_inv b sd st"
  by (simp add: core_inv_def)

lemma reported_raise [simp]: "reported (raise_flag f st) = reported st"
  by (simp add: reported_def)

lemma core_inv_fields [simp]:
  "core_inv b sd (st\<lparr>mr_error_msg := e\<rparr>) = core_inv b sd st"
  "core_inv b sd (st\<lparr>mr_io := io\<rparr>) = core_inv b sd st"
  "core_inv b sd (st\<lparr>md_nfiles := n\<rparr>) = core_inv b sd st"
  "core_inv b sd (st\<lparr>mr_no_files_length := w\<rparr>) = core_inv b sd st"
  "core_inv b sd (st\<lparr>mr_multipart_name := nm\<rparr>) = core_inv b sd st"
  "core_inv b sd (st\<lparr>mr_multipart_filename := nm\<rparr>) = core_inv b sd st"
  "core_inv b sd (st\<lparr>md_buf := bf\<rparr>) = core_inv b sd st"
  "core_inv b sd (st\<lparr>md_bufleft := n'\<rparr>) = core_inv b sd st"
  "core_inv b sd (st\<lparr>md_buf_offset := w'\<rparr>) = core_inv b sd st"
  "core_inv b sd (st\<lparr>md_buf_contains_line := cl\<rparr>) = core_inv b sd st"
  "core_inv b sd (st\<lparr>md_is_complete := cl\<rparr>) = core_inv b sd st"
  "core_inv b sd (st\<lparr>md_boundary_count := n'\<rparr>) = core_inv b sd st"
  by (simp_all add: core_inv_def)

lemma ok_fail [simp]: "ok_with P (fail e st) \<longleftrightarrow> \<not> internal_error e"
  by (simp add: ok_with_def fail_def set_error_def reported_def)

lemma ok_1 [simp]: "ok_with P (Some (1, st)) \<longleftrightarrow> P st"
  by (simp add: ok_with_def)

lemma ok_and_then: "ok_with P r \<Longrightarrow> (\<And>st. P st \<Longrightarrow> ok_with Q (f st)) \<Longrightarrow> ok_with Q (and_then r f)"
  by (auto simp: ok_with_def and_then_def)

lemma not_internal [simp]:
  "\<not> internal_error Nul_in_headers" "\<not> internal_error Missing_disposition" "\<not> internal_error (Invalid_disposition i s)"
  "\<not> internal_error Disposition_name_missing" "\<not> internal_error Disposition_filename" "\<not> internal_error Folding_error"
  "\<not> internal_error Header_too_long" "\<not> internal_error (Colon_missing s)" "\<not> internal_error Header_name_missing"
  "\<not> internal_error (Duplicate_header s)" "\<not> internal_error (File_create_failed s)" "\<not> internal_error (File_write_failed s)"
  "\<not> internal_error Boundary_final_duplicate" "\<not> internal_error (Invalid_boundary s)" "\<not> internal_error Boundary_quotes"
  "\<not> internal_error Boundary_space" "\<not> internal_error Header_line_too_long"
  by (simp_all add: internal_error_def)

section \<open>Content-Disposition\<close>

lemma validate_quotes_cases: "validate_quotes v st = st \<or> validate_quotes v st = raise_flag Flag_invalid_quoting st"
  by (simp add: validate_quotes_def)

lemma cd_assign_ok:
  assumes "core_inv b sd st" "md_mpp st = Some p" "md_mpp_state st = 0"
  shows "\<exists>err st' p'. cd_assign name v st = Some (err, st') \<and> core_inv b sd st' \<and> md_mpp st' = Some p' \<and> md_mpp_state st' = 0 \<and>
    mp_type p' = mp_type p"
proof -
  define vq where "vq = validate_quotes v st"
  have "vq = st \<or> vq = raise_flag Flag_invalid_quoting st" by (simp add: vq_def validate_quotes_cases)
  then have vq: "core_inv b sd vq" "md_mpp vq = Some p" "md_mpp_state vq = 0" using assms by auto
  have set: "core_inv b sd (vq\<lparr>mr_multipart_name := nm, md_mpp := Some p'\<rparr>)" "core_inv b sd (vq\<lparr>mr_multipart_filename := nm, md_mpp := Some p'\<rparr>)"
    if "part_ok p'" "mp_length p' = 0" "mp_value_parts p' = []" for p' nm
    using vq that by (simp_all add: core_inv_def mpp_ok_def)
  have p: "part_ok p" "mp_length p = 0" "mp_value_parts p = []" using vq by (simp_all add: core_inv_def mpp_ok_def)
  then show ?thesis
    using assms(1-3) vq set [of "p\<lparr>mp_name := Some v\<rparr>" "Some v"] set [of "p\<lparr>mp_filename := Some v\<rparr>" "Some v"]
    by (simp add: cd_assign_def Let_def vq_def [symmetric] part_ok_def)
qed

lemma cd_params_ok:
  assumes "core_inv b sd st" "md_mpp st = Some q" "md_mpp_state st = 0" "s \<noteq> []"
  shows "\<exists>rc st' p'. cd_params s p st = Some (rc, st') \<and> core_inv b sd st' \<and> md_mpp st' = Some p' \<and> md_mpp_state st' = 0"
  using assms
proof (induction s p st arbitrary: q rule: cd_params.induct)
  case (1 s p st)
  show ?case
  proof (cases "p = []")
    case True
    then show ?thesis using 1 by (auto simp: cd_params.simps)
  next
    case False
    obtain single r where cp: "cd_param p = (single, r)" by (cases "cd_param p")
    define st1 where "st1 = (if single then raise_flag Flag_invalid_quoting st else st)"
    have st1: "core_inv b sd st1" "md_mpp st1 = Some q" "md_mpp_state st1 = 0" using "1.prems" by (simp_all add: st1_def)
    show ?thesis
    proof (cases r)
      case (Inl e)
      then show ?thesis using False cp st1 by (subst cd_params.simps) (simp add: st1_def [symmetric] Let_def)
    next
      case (Inr x)
      obtain name v rest where x: "x = (name, v, rest)" by (cases x)
      obtain err st2 q2 where as: "cd_assign name v st1 = Some (err, st2)" "core_inv b sd st2" "md_mpp st2 = Some q2" "md_mpp_state st2 = 0"
        using cd_assign_ok [OF st1, of name v] by blast
      have unfold: "cd_params s p st =
          (case err of
             Some e \<Rightarrow> Some (e, st2)
           | None \<Rightarrow>
               if rest = [] then Some (1, st2)
               else
                 let p' = skip_blank rest in
                 if p' = [] then Some (1, st2)
                 else if hd p' \<noteq> 59 then
                   Option.bind (rd s (length s - length p' - 1)) (\<lambda>prev.
                     Some (-12, if prev = 39 \<or> prev = 34 then raise_flag Flag_invalid_quoting st2 else st2))
                 else cd_params s (tl p') st2)"
        using False cp Inr x as(1) by (subst cd_params.simps) (simp add: st1_def [symmetric] Let_def)
      show ?thesis
      proof (cases "err = None \<and> rest \<noteq> [] \<and> skip_blank rest \<noteq> [] \<and> hd (skip_blank rest) = 59")
        case True
        have "\<exists>rc st' p'. cd_params s (tl (skip_blank rest)) st2 = Some (rc, st') \<and> core_inv b sd st' \<and> md_mpp st' = Some p' \<and> md_mpp_state st' = 0"
          by (rule "1.IH" [of "(single, r)" single r st1 x name "(v, rest)" v rest "(err, st2)" err st2 "skip_blank rest" q2])
            (use True False cp Inr x as st1 "1.prems"(4) in \<open>simp_all add: st1_def\<close>)
        then show ?thesis using True unfold by (simp add: Let_def)
      next
        case False
        have "length s - Suc (length (skip_blank rest)) < length s" using "1.prems"(4) by simp
        then show ?thesis using False unfold as by (auto simp: Let_def split: option.splits)
      qed
    qed
  qed
qed

lemma content_disposition_ok:
  assumes "core_inv b sd st" "md_mpp st = Some q" "md_mpp_state st = 0"
  shows "\<exists>rc st' p'. multipart_parse_content_disposition s st = Some (rc, st') \<and> core_inv b sd st' \<and> md_mpp st' = Some p' \<and> md_mpp_state st' = 0"
proof (cases "take 9 s = ascii ''form-data''")
  case True
  then have "s \<noteq> []" by (auto simp: ascii_def)
  then show ?thesis
    using True assms cd_params_ok [OF assms, of s] by (auto simp: multipart_parse_content_disposition_def Let_def)
next
  case False
  then show ?thesis using assms by (simp add: multipart_parse_content_disposition_def)
qed

section \<open>Header lines\<close>

definition chomp :: "bytes \<Rightarrow> bytes" where
  "chomp s =
     (if s \<noteq> [] \<and> List.last s = 10 then
        (let t = butlast s in if t \<noteq> [] \<and> List.last t = 13 then butlast t else t)
      else s)"

lemma dup_chomp_run:
  assumes "0 \<notin> set s"
  shows "dup_chomp s = Some (chomp s)"
proof (cases s rule: rev_cases)
  case Nil
  then show ?thesis by (simp add: dup_chomp_def remove_lf_crlf_inplace_def chomp_def)
next
  case (snoc t c)
  show ?thesis
  proof (cases t rule: rev_cases)
    case Nil
    then show ?thesis using snoc assms by (simp add: dup_chomp_def remove_lf_crlf_inplace_def chomp_def)
  next
    case (snoc u d)
    have s: "s = u @ [d, c]" using snoc \<open>s = t @ [c]\<close> by simp
    have "c_str (u @ [d, c, 0]) = Some s"
      using c_str_append_0 [of s "[]"] assms s by simp
    moreover have "c_str (u @ d # 0 # xs) = Some (u @ [d])" for xs
      using c_str_append_0 [of "u @ [d]" xs] assms s by simp
    moreover have "c_str (u @ 0 # xs) = Some u" for xs using assms s by simp
    ultimately show ?thesis
      using s assms by (auto simp: dup_chomp_def remove_lf_crlf_inplace_def chomp_def nth_append list_update_append butlast_append)
  qed
qed

lemma set_dropWhile: "0 \<notin> set xs \<Longrightarrow> 0 \<notin> set (dropWhile P xs)"
  by (meson set_dropWhileD)

lemma part_headers_end_ok:
  assumes "core_inv b sd st" "md_mpp st = Some q" "md_mpp_state st = 0"
  shows "ok_result b sd (part_headers_end env st)"
proof (cases "me_table_get env (mp_headers q) (ascii ''Content-Disposition'')")
  case None
  then show ?thesis using assms by (simp add: part_headers_end_def)
next
  case (Some hv)
  obtain rc st' q' where cd: "multipart_parse_content_disposition hv st = Some (rc, st')"
    "core_inv b sd st'" "md_mpp st' = Some q'" "md_mpp_state st' = 0"
    using content_disposition_ok [OF assms] by blast
  then show ?thesis
    using Some assms by (auto simp: part_headers_end_def Let_def core_inv_def mpp_ok_def part_ok_def)
qed

lemma part_header_fold_ok:
  assumes "core_inv b sd st" "md_mpp st = Some q" "md_mpp_state st = 0" "0 \<notin> set line"
  shows "ok_result b sd (part_header_fold env line st)"
  using assms
  by (auto simp: part_header_fold_def Let_def dup_chomp_run set_dropWhile core_inv_def mpp_ok_def part_ok_def split: option.splits)

lemma part_header_new_ok:
  assumes "core_inv b sd st" "md_mpp st = Some q" "md_mpp_state st = 0" "0 \<notin> set line"
  shows "ok_result b sd (part_header_new env line st)"
proof -
  have "0 \<notin> set (tl (dropWhile (\<lambda>c. c \<noteq> 58) line))"
    using assms(4) set_dropWhile [of line "\<lambda>c. c \<noteq> 58"] by (metis list.set_sel(2) tl_Nil)
  then have "dup_chomp (skip_blank (tl (dropWhile (\<lambda>c. c \<noteq> 58) line))) =
      Some (chomp (skip_blank (tl (dropWhile (\<lambda>c. c \<noteq> 58) line))))"
    by (intro dup_chomp_run) (simp add: skip_blank_def set_dropWhile)
  then show ?thesis
    using assms by (auto simp: part_header_new_def Let_def core_inv_def mpp_ok_def part_ok_def)
qed

lemma part_header_ok:
  assumes "core_inv b sd st" "md_mpp st = Some q" "md_mpp_state st = 0"
    "length (md_buf st) + md_bufleft st = MULTIPART_BUF_SIZE" "md_buf st \<noteq> []"
  shows "ok_result b sd (multipart_process_part_header env st)"
proof (cases "0 \<in> set (md_buf st)")
  case True
  then show ?thesis using assms(4) by (simp add: multipart_process_part_header_def used_def)
next
  case False
  let ?bf = "md_buf st"
  have used: "used st = length ?bf" using assms(4) by (simp add: used_def)
  have b: "c_str (?bf @ [0]) = Some ?bf" using False by simp
  have read1: "\<exists>e. and_m [rdp (?bf @ [0]) 0 (\<lambda>c. c = 13), rdp (?bf @ [0]) 1 (\<lambda>c. c = 10), rdp (?bf @ [0]) 2 (\<lambda>c. c = 0)] = Some e"
  proof (cases "1 < length ?bf")
    case True
    then show ?thesis using assms(5) by auto
  next
    case False
    then have "length ?bf = 1" using assms(5) by (cases ?bf) auto
    then show ?thesis by (cases ?bf) auto
  qed
  have read2: "\<exists>e. and_m [rdp (?bf @ [0]) 0 (\<lambda>c. c = 10), rdp (?bf @ [0]) 1 (\<lambda>c. c = 0)] = Some e"
    using assms(5) by auto
  have crlf: "\<exists>e. (if length ?bf > 1 then rdp (?bf @ [0]) (length ?bf - 2) (\<lambda>c. c = 13) else Some False) = Some e"
    by (cases "length ?bf > 1") auto
  obtain e1 e2 e3 where e:
    "and_m [rdp (?bf @ [0]) 0 (\<lambda>c. c = 13), rdp (?bf @ [0]) 1 (\<lambda>c. c = 10), rdp (?bf @ [0]) 2 (\<lambda>c. c = 0)] = Some e1"
    "and_m [rdp (?bf @ [0]) 0 (\<lambda>c. c = 10), rdp (?bf @ [0]) 1 (\<lambda>c. c = 0)] = Some e2"
    "(if length ?bf > 1 then rdp (?bf @ [0]) (length ?bf - 2) (\<lambda>c. c = 13) else Some False) = Some e3"
    using read1 read2 crlf by blast
  define st1 where "st1 = raise_flag (if e3 then Flag_crlf_line else Flag_lf_line)
     (st\<lparr>mr_error_msg := None, mr_no_files_length := mr_no_files_length st + of_nat (length ?bf)\<rparr>)"
  have st1: "core_inv b sd st1" "md_mpp st1 = Some q" "md_mpp_state st1 = 0" using assms by (simp_all add: st1_def)
  have run: "multipart_process_part_header env st =
      (if e1 \<or> e2 then part_headers_end env st1
       else if c_isspace (?bf ! 0) then part_header_fold env ?bf st1 else part_header_new env ?bf st1)"
    using e False used assms(5)
    by (simp add: multipart_process_part_header_def b st1_def used_def nth_append del: and_m.simps rdp_in)
  show ?thesis
    unfolding run using st1 False
    by (simp add: part_headers_end_ok part_header_fold_ok part_header_new_ok)
qed

section \<open>Data lines\<close>

lemma and_then_1 [simp]: "and_then (Some (1, st)) f = f st"
  by (simp add: and_then_def)

lemma and_then_fail [simp]: "and_then (fail e st) f = fail e st"
  by (simp add: and_then_def fail_def)

text \<open>The bytes of the buffer without the line end that is reserved.\<close>

definition line_end :: "bytes \<Rightarrow> bytes" where
  "line_end s =
     (if s \<noteq> [] \<and> List.last s = 10 then
        (if butlast s \<noteq> [] \<and> List.last (butlast s) = 13 then [13, 10] else [10])
      else [])"

lemma butlast_two [simp]: "butlast (xs @ [a, c]) = xs @ [a]"
  by (simp add: butlast_append)

lemma chomp_cases:
  "(\<exists>t. s = t @ [13, 10] \<and> chomp s = t \<and> line_end s = [13, 10]) \<or>
   (\<exists>t. s = t @ [10] \<and> (t = [] \<or> List.last t \<noteq> 13) \<and> chomp s = t \<and> line_end s = [10]) \<or>
   ((s = [] \<or> List.last s \<noteq> 10) \<and> chomp s = s \<and> line_end s = [])"
  by (cases s rule: rev_cases; cases "butlast s" rule: rev_cases) (auto simp: chomp_def line_end_def)

lemma chomp_line_end: "chomp s @ line_end s = s"
  using chomp_cases [of s] by auto

lemma reserve_bytes_run:
  assumes "length (md_buf st) + md_bufleft st = MULTIPART_BUF_SIZE"
  shows "\<exists>bf n. reserve_bytes st = Some (line_end (md_buf st), st\<lparr>md_buf := bf, md_bufleft := n\<rparr>) \<and>
    n + length (chomp (md_buf st)) = MULTIPART_BUF_SIZE \<and> take (length (chomp (md_buf st))) bf = chomp (md_buf st)"
proof -
  have used: "used st = length (md_buf st)" using assms by (simp add: used_def)
  consider t where "md_buf st = t @ [13, 10]" "chomp (md_buf st) = t" "line_end (md_buf st) = [13, 10]"
    | t where "md_buf st = t @ [10]" "t = [] \<or> List.last t \<noteq> 13" "chomp (md_buf st) = t" "line_end (md_buf st) = [10]"
    | "md_buf st = [] \<or> List.last (md_buf st) \<noteq> 10" "chomp (md_buf st) = md_buf st" "line_end (md_buf st) = []"
    using chomp_cases [of "md_buf st"] by blast
  then show ?thesis
  proof cases
    case 1
    then show ?thesis
      using assms used
      by (intro exI [of _ "(md_buf st)[length (md_buf st) - 2 := 0]"] exI [of _ "md_bufleft st + 2"])
        (simp add: reserve_bytes_def nth_append)
  next
    case 2
    then have "\<not> (t \<noteq> [] \<and> (t @ [10]) ! (length t - 1) = 13)" by (cases t rule: rev_cases) (auto simp: nth_append)
    then show ?thesis
      using assms used 2
      by (intro exI [of _ "(md_buf st)[length (md_buf st) - 1 := 0]"] exI [of _ "md_bufleft st + 1"])
        (auto simp: reserve_bytes_def nth_append)
  next
    case 3
    then show ?thesis
      using assms used
      by (intro exI [of _ "md_buf st"] exI [of _ "md_bufleft st"])
        (cases "md_buf st" rule: rev_cases; simp add: reserve_bytes_def)
  qed
qed

text \<open>A file part whose temporary file has a name.\<close>

definition file_open :: "bytes \<Rightarrow> bool \<Rightarrow> mp_state \<Rightarrow> bool" where
  "file_open b sd st \<longleftrightarrow> core_inv b sd st \<and> md_mpp_state st \<noteq> 0 \<and>
     (\<exists>q. md_mpp st = Some q \<and> mp_type q = MULTIPART_FILE \<and> mp_tmp_file_name q \<noteq> None)"

lemma form_not_file [simp]: "MULTIPART_FORMDATA \<noteq> MULTIPART_FILE" "MULTIPART_FILE \<noteq> MULTIPART_FORMDATA"
  by (simp_all add: MULTIPART_FORMDATA_def MULTIPART_FILE_def)

lemma write_part_ok: "file_open b sd st \<Longrightarrow> ok_with (file_open b sd) (write_part env data st)"
  by (auto simp: write_part_def do_write_def file_open_def Let_def core_inv_def mpp_ok_def part_ok_def)

lemma open_part_ok:
  assumes "core_inv b sd st" "md_mpp_state st \<noteq> 0" "md_mpp st = Some q" "mp_type q = MULTIPART_FILE"
  shows "ok_with (file_open b sd) (open_part env st)"
  using assms
  by (auto simp: open_part_def file_open_def Let_def core_inv_def mpp_ok_def part_ok_def split: prod.splits)

lemma mark_offset_ok:
  assumes "core_inv b sd st" "md_mpp st = Some q"
  shows "\<exists>q'. mark_offset st = Some (st\<lparr>md_mpp := Some q'\<rparr>) \<and> core_inv b sd (st\<lparr>md_mpp := Some q'\<rparr>) \<and>
    (\<exists>off. q' = q\<lparr>mp_offset := off\<rparr>)"
proof (cases "mp_length q = 0")
  case True
  then show ?thesis using assms
    by (intro exI [of _ "q\<lparr>mp_offset := md_buf_offset st\<rparr>"]) (auto simp: mark_offset_def core_inv_def mpp_ok_def part_ok_def)
next
  case False
  have same: "st\<lparr>md_mpp := Some q\<rparr> = st" using assms(2) by (cases st) simp
  have off: "\<exists>off. q = q\<lparr>mp_offset := off\<rparr>" by (rule exI [of _ "mp_offset q"]) simp
  have "mark_offset st = Some (st\<lparr>md_mpp := Some q\<rparr>)" using False assms(2) by (simp add: mark_offset_def same)
  then show ?thesis using assms(1) same off by (intro exI [of _ q] conjI) simp_all
qed

lemma file_data_ok:
  assumes "core_inv b sd st" "md_mpp_state st \<noteq> 0" "md_mpp st = Some q" "mp_type q = MULTIPART_FILE"
  shows "ok_result b sd (file_data env data st)"
proof -
  obtain q' off where mark: "mark_offset st = Some (st\<lparr>md_mpp := Some q'\<rparr>)" "core_inv b sd (st\<lparr>md_mpp := Some q'\<rparr>)" "q' = q\<lparr>mp_offset := off\<rparr>"
    using mark_offset_ok [OF assms(1,3)] by blast
  define st1 where "st1 = st\<lparr>md_mpp := Some q'\<rparr>"
  define over where "over \<longleftrightarrow> me_upload_extract_files env \<and> md_nfiles st1 \<ge> me_upload_file_limit env"
  define st2 where "st2 = (if over \<and> Flag_file_limit_exceeded \<notin> md_flags st1
        then raise_flag Flag_file_limit_exceeded (set_error (File_limit_exceeded (me_upload_file_limit env)) st1) else st1)"
  have st2: "core_inv b sd st2" "md_mpp_state st2 \<noteq> 0" "md_mpp st2 = Some q'" "mp_type q' = MULTIPART_FILE"
    using mark assms by (auto simp: st2_def st1_def set_error_def)
  have "core_inv b sd st" if "file_open b sd st" for st using that by (simp add: file_open_def)
  then have last_write: "ok_result b sd (write_part env data st)" if "file_open b sd st" for st
    using write_part_ok [OF that, of env data] by (auto simp: ok_with_def)
  have reserve: "ok_with (file_open b sd) (if md_reserve st \<noteq> [] then write_part env (md_reserve st) st else Some (1, st))"
    if "file_open b sd st" for st
    using that by (simp add: write_part_ok)
  have chain: "ok_result b sd (and_then (open_part env st2) (\<lambda>st.
       and_then (if md_reserve st \<noteq> [] then write_part env (md_reserve st) st else Some (1, st)) (\<lambda>st. write_part env data st)))"
    by (rule ok_and_then [OF open_part_ok [OF st2]], rule ok_and_then [OF reserve], assumption, rule last_write)
  have "file_data env data st =
     (if me_upload_extract_files env \<and> \<not> over then
       and_then (open_part env st2) (\<lambda>st.
       and_then (if md_reserve st \<noteq> [] then write_part env (md_reserve st) st else Some (1, st)) (\<lambda>st.
       write_part env data st))
     else do {
       mpp \<leftarrow> md_mpp st2;
       let n = length data + length (md_reserve st2);
       Some (1, st2\<lparr>md_mpp := Some (mpp\<lparr>mp_tmp_file_size := mp_tmp_file_size mpp + of_nat n,
                                    mp_length := mp_length mpp + of_nat n\<rparr>)\<rparr>) })"
    unfolding file_data_def mark(1) st2_def over_def st1_def by (simp only: Let_def bind.simps)
  then show ?thesis
    using chain st2 by (simp add: core_inv_def mpp_ok_def part_ok_def)
qed

lemma form_data_ok:
  assumes "core_inv b sd st" "md_mpp_state st \<noteq> 0" "md_mpp st = Some q" "mp_type q = MULTIPART_FORMDATA"
  shows "ok_result b sd (form_data data st)"
proof -
  let ?st = "st\<lparr>mr_no_files_length := mr_no_files_length st + of_nat (length (md_reserve st @ data))\<rparr>"
  have st: "core_inv b sd ?st" "md_mpp ?st = Some q" using assms by simp_all
  obtain q' off where mark: "mark_offset ?st = Some (?st\<lparr>md_mpp := Some q'\<rparr>)" "core_inv b sd (?st\<lparr>md_mpp := Some q'\<rparr>)" "q' = q\<lparr>mp_offset := off\<rparr>"
    using mark_offset_ok [OF st] by blast
  then show ?thesis using assms
    by (simp add: form_data_def Let_def core_inv_def mpp_ok_def part_ok_def)
qed

lemma part_data_ok:
  assumes "core_inv b sd st" "md_mpp_state st \<noteq> 0" "md_mpp st = Some q"
    "length (md_buf st) + md_bufleft st = MULTIPART_BUF_SIZE"
  shows "ok_result b sd (multipart_process_part_data env st)"
proof -
  obtain bf n where r: "reserve_bytes (st\<lparr>mr_error_msg := None\<rparr>) =
      Some (line_end (md_buf st), st\<lparr>mr_error_msg := None, md_buf := bf, md_bufleft := n\<rparr>)"
    using reserve_bytes_run [of "st\<lparr>mr_error_msg := None\<rparr>"] assms(4) by auto
  define st1 where "st1 = st\<lparr>mr_error_msg := None, md_buf := bf, md_bufleft := n\<rparr>"
  have st1: "core_inv b sd st1" "md_mpp_state st1 \<noteq> 0" "md_mpp st1 = Some q" using assms by (simp_all add: st1_def)
  have type: "mp_type q = MULTIPART_FORMDATA \<or> mp_type q = MULTIPART_FILE"
    using assms(1,3) by (simp add: core_inv_def mpp_ok_def part_ok_def)
  have res: "length (line_end (md_buf st)) \<le> 2" by (simp add: line_end_def)
  have stored: "ok_result b sd (Some (1,
          if line_end (md_buf st) \<noteq> [] then
            st'\<lparr>md_reserve := line_end (md_buf st), md_buf_offset := md_buf_offset st' + of_nat (length (line_end (md_buf st)))\<rparr>
          else st'\<lparr>md_buf_offset := md_buf_offset st' - of_nat (length (md_reserve st')), md_reserve := []\<rparr>))"
    if "core_inv b sd st'" for st'
    using that res by (simp add: core_inv_def)
  show ?thesis
    unfolding multipart_process_part_data_def
    using r st1 type
    by (simp add: st1_def [symmetric] Let_def del: ok_1)
      (auto intro!: ok_and_then [OF file_data_ok [OF st1]] ok_and_then [OF form_data_ok [OF st1]] stored simp del: ok_1)
qed

section \<open>Lines and chunks\<close>

lemma c_str_snoc_0 [simp]: "c_str (xs @ [0]) = Some (takeWhile (\<lambda>c. c \<noteq> 0) xs)"
  by (induction xs) auto

lemma finish_part_ok:
  assumes "core_inv b sd st" "md_mpp st = Some q"
  shows "core_inv b sd (finish_part q st)" "md_mpp (finish_part q st) = None"
  using assms by (auto simp: finish_part_def Let_def core_inv_def mpp_ok_def part_ok_def)

lemma new_part_ok: "part_ok new_part" "mp_length new_part = 0" "mp_value_parts new_part = []"
  by (simp_all add: new_part_def part_ok_def)

lemma boundary_ok:
  assumes "core_inv b sd st"
  shows "\<exists>st'. multipart_process_boundary last_part st = Some (1, st') \<and> core_inv b sd st'"
proof (cases "md_mpp st")
  case None
  then show ?thesis
    using assms new_part_ok by (auto simp: multipart_process_boundary_def core_inv_def mpp_ok_def)
next
  case (Some q)
  then show ?thesis
    using finish_part_ok [OF assms Some] new_part_ok
    by (auto simp: multipart_process_boundary_def core_inv_def mpp_ok_def Let_def)
qed

lemma check_boundary_ok:
  assumes "core_inv b sd st"
  shows "\<exists>rc processed st'. check_boundary st = Some (rc, processed, st') \<and>
    (rc = 1 \<and> core_inv b sd st' \<or> rc = -1 \<and> reported st') \<and>
    (rc = 1 \<and> \<not> processed \<longrightarrow> st' = st \<or> st' = raise_flag Flag_unmatched_boundary st)"
proof -
  let ?s = "takeWhile (\<lambda>c. c \<noteq> 0) (md_buf st)"
  have bd: "md_boundary st = Some b" using assms by (simp add: core_inv_def)
  have matched: "\<exists>rc processed st'. matched_boundary b ?s st = Some (rc, processed, st') \<and>
      (rc = 1 \<and> core_inv b sd st' \<and> processed \<or> rc = -1 \<and> reported st')"
  proof -
    let ?final = "starts_with [45, 45] (drop (2 + length b) ?s)"
    let ?st = "\<lambda>f. raise_flag f st"
    obtain st1 where "multipart_process_boundary ?final (?st Flag_lf_line) = Some (1, st1)" "core_inv b sd st1"
      using boundary_ok [of b sd "?st Flag_lf_line"] assms by auto
    moreover obtain st2 where "multipart_process_boundary ?final (?st Flag_crlf_line) = Some (1, st2)" "core_inv b sd st2"
      using boundary_ok [of b sd "?st Flag_crlf_line"] assms by auto
    ultimately show ?thesis
      by (auto simp: matched_boundary_def Let_def set_error_def reported_def)
  qed
  show ?thesis
  proof (cases "md_buf_contains_line st \<and> length ?s > 3 \<and> ?s ! 0 = 45 \<and> ?s ! 1 = 45")
    case False
    then have "check_boundary st = Some (1, False,
         if md_buf_contains_line st \<and> resembles_boundary b (take (used st) (md_buf st))
         then raise_flag Flag_unmatched_boundary st else st)"
      using bd by (simp only: check_boundary_def bind.simps c_str_snoc_0 if_False)
    then show ?thesis using assms by auto
  next
    case dash: True
    show ?thesis
    proof (cases "length ?s \<ge> length b + 2 \<and> starts_with b (drop 2 ?s)")
      case True
      then have "check_boundary st = matched_boundary b ?s st"
        using bd dash by (simp only: check_boundary_def bind.simps c_str_snoc_0 if_True simp_thms)
      then show ?thesis using matched by fastforce
    next
      case False
      then have "check_boundary st = Some (unmatched_boundary b ?s st)"
        using bd dash by (simp only: check_boundary_def bind.simps c_str_snoc_0 if_True if_False simp_thms)
      then show ?thesis
        using assms by (auto simp: unmatched_boundary_def Let_def set_error_def reported_def)
    qed
  qed
qed

lemma with_flag_error_ok: "ok_with P r \<Longrightarrow> (\<And>f st. reported (raise_flag f st) = reported st) \<Longrightarrow> ok_with P (with_flag_error r)"
  by (auto simp: ok_with_def with_flag_error_def)

lemma process_content_ok:
  assumes "core_inv b sd st" "length (md_buf st) + md_bufleft st = MULTIPART_BUF_SIZE" "md_buf st \<noteq> []"
  shows "ok_result b sd (process_content env process_buffer st)"
proof (cases "md_mpp st")
  case None
  then show ?thesis using assms by (simp add: process_content_def)
next
  case (Some q)
  show ?thesis
  proof (cases "md_mpp_state st = 0")
    case True
    have "ok_result b sd (Some (-1, raise_flag Flag_error (set_error Header_line_too_long st)))"
      by (simp add: ok_with_def reported_def set_error_def)
    then show ?thesis
      using True Some with_flag_error_ok [OF part_header_ok [OF assms(1) Some True assms(2,3), of env] reported_raise]
      by (simp add: process_content_def del: ok_1)
  next
    case False
    then show ?thesis
      using Some with_flag_error_ok [OF part_data_ok [OF assms(1) False Some assms(2), of env] reported_raise]
      by (simp add: process_content_def)
  qed
qed

lemma process_line_ok:
  assumes "core_inv b sd st" "length (md_buf st) + md_bufleft st = MULTIPART_BUF_SIZE" "md_buf st \<noteq> []"
  shows "ok_result b sd (process_line env process_buffer st)"
proof -
  obtain rc processed st' where check: "check_boundary st = Some (rc, processed, st')"
    "rc = 1 \<and> core_inv b sd st' \<or> rc = -1 \<and> reported st'"
    "rc = 1 \<and> \<not> processed \<longrightarrow> st' = st \<or> st' = raise_flag Flag_unmatched_boundary st"
    using check_boundary_ok [OF assms(1)] by blast
  have len: "length (md_buf st) < MULTIPART_BUF_SIZE + 2" using assms(2) by simp
  have "ok_result b sd (process_content env process_buffer st')" if "rc = 1" "\<not> processed"
    using check(3) that assms by (auto intro!: process_content_ok)
  then show ?thesis
    using check len by (auto simp: process_line_def ok_with_def)
qed

lemma chunk_step_ok:
  assumes "mp_inv b sd st"
  shows "\<exists>rc consumed st'. chunk_step env c st = Some (rc, consumed, st') \<and>
    (rc = 1 \<and> mp_inv b sd st' \<or> rc = -1 \<and> reported st')"
proof -
  let ?pb = "c = 13 \<and> md_bufleft st = 1"
  have inv: "core_inv b sd st" "length (md_buf st) + md_bufleft st = MULTIPART_BUF_SIZE" "0 < md_bufleft st"
    using assms by (simp_all add: mp_inv_def)
  define st1 where "st1 = (if ?pb then st else st\<lparr>md_buf := md_buf st @ [c], md_bufleft := md_bufleft st - 1\<rparr>)"
  have put: "(if ?pb then Some st else put_byte c st) = Some st1" using inv by (auto simp: st1_def put_byte_def)
  have "md_buf st \<noteq> []" if ?pb using that inv(2) by (auto simp: MULTIPART_BUF_SIZE_def)
  then have st1: "core_inv b sd st1" "length (md_buf st1) + md_bufleft st1 = MULTIPART_BUF_SIZE" "md_buf st1 \<noteq> []"
    using inv by (auto simp: st1_def)
  have next_ok: "mp_inv b sd (next_line c st')" if "core_inv b sd st'" for st'
    using that by (simp add: mp_inv_def next_line_def MULTIPART_BUF_SIZE_def)
  have run: "chunk_step env c st =
    (if c = 10 \<or> md_bufleft st1 = 0 \<or> ?pb then
       Option.bind (process_line env ?pb st1) (\<lambda>(rc, st). Some (rc, \<not> ?pb, if rc < 0 then st else next_line c st))
     else Some (1, True, st1))"
    unfolding chunk_step_def Let_def put by simp
  show ?thesis
  proof (cases "c = 10 \<or> md_bufleft st1 = 0 \<or> ?pb")
    case True
    then show ?thesis
      using process_line_ok [OF st1, of env ?pb] next_ok unfolding run by (auto simp: ok_with_def)
  next
    case False
    then show ?thesis using st1 unfolding run by (auto simp: mp_inv_def)
  qed
qed

lemma mp_inv_raise [simp]: "mp_inv b sd (raise_flag f st) = mp_inv b sd st"
  by (simp add: mp_inv_def)

lemma chunk_loop_ok: "mp_inv b sd st \<Longrightarrow> ok_with (mp_inv b sd) (chunk_loop env inp st)"
proof (induction env inp st rule: chunk_loop.induct)
  case (1 env inp st)
  show ?case
  proof (cases inp)
    case Nil
    then show ?thesis using "1.prems" by (simp add: chunk_loop.simps)
  next
    case (Cons c rest)
    obtain rc consumed st' where step: "chunk_step env c st = Some (rc, consumed, st')"
      "rc = 1 \<and> mp_inv b sd st' \<or> rc = -1 \<and> reported st'"
      using chunk_step_ok [OF "1.prems"] by blast
    let ?inp = "if consumed then rest else c # rest"
    have run: "chunk_loop env inp st =
      (if rc < 0 then Some (-1, st')
       else if md_is_complete st' \<and> ?inp \<noteq> [] then Some (1, raise_flag Flag_data_after st')
       else chunk_loop env ?inp st')"
      using Cons step(1) by (subst chunk_loop.simps) (simp add: Let_def)
    show ?thesis
    proof (cases "rc < 0 \<or> md_is_complete st' \<and> ?inp \<noteq> []")
      case True
      then show ?thesis using step(2) unfolding run by (auto simp: ok_with_def)
    next
      case False
      then have "ok_with (mp_inv b sd) (chunk_loop env ?inp st')"
        using step by (intro "1.IH" [OF Cons step(1) refl refl]) auto
      then show ?thesis using False unfolding run by (auto simp del: ok_1 split del: if_split)
    qed
  qed
qed

lemma process_chunk_ok:
  assumes "mp_inv b sd st"
  shows "ok_with (mp_inv b (sd \<or> buf \<noteq> [])) (multipart_process_chunk env buf st)"
proof -
  have "mp_inv b sd (st\<lparr>mr_error_msg := None\<rparr>)" "mp_inv b True (st\<lparr>mr_error_msg := None, md_seen_data := True\<rparr>)"
    using assms by (simp_all add: mp_inv_def) (simp add: core_inv_def)
  then show ?thesis
    using chunk_loop_ok [of b True "st\<lparr>mr_error_msg := None, md_seen_data := True\<rparr>" env buf] assms
    by (auto simp: multipart_process_chunk_def Let_def mp_inv_def)
qed

lemma complete_ok:
  assumes "mp_inv b sd st"
  shows "\<exists>rc st'. multipart_complete (Some st) = Some (rc, Some st') \<and> (rc = 1 \<or> rc = -1 \<and> reported st')"
proof -
  have used: "used st = length (md_buf st)" and bd: "md_boundary st = Some b" and core: "core_inv b sd st"
    using assms by (auto simp: mp_inv_def core_inv_def used_def)
  let ?n = "length b"
  have "\<exists>final. and_m [Some (md_buf_contains_line st), Some (used st = 4 + ?n),
                  rdp (md_buf st) 0 (\<lambda>c. c = 45), rdp (md_buf st) 1 (\<lambda>c. c = 45), Some (starts_with b (drop 2 (md_buf st))),
                  rdp (md_buf st) (2 + ?n) (\<lambda>c. c = 45), rdp (md_buf st) (2 + ?n + 1) (\<lambda>c. c = 45)] = Some final"
  proof (cases "used st = 4 + ?n")
    case True
    then show ?thesis using used by auto
  qed auto
  then show ?thesis
    using bd boundary_ok [OF core, of True]
    by (auto simp: multipart_complete_def Let_def set_error_def reported_def internal_error_def simp del: and_m.simps)
qed

section \<open>Cutting the body into chunks\<close>

lemma chunk_loop_Nil [simp]: "chunk_loop env [] st = Some (1, st)"
  by (simp add: chunk_loop.simps)

text \<open>What the loop does with more input behind a chunk.\<close>

lemma chunk_loop_append:
  assumes "ys \<noteq> []" "\<not> md_is_complete st"
  shows "chunk_loop env (xs @ ys) st =
    Option.bind (chunk_loop env xs st) (\<lambda>(rc, st').
      if rc < 0 then Some (rc, st')
      else if md_is_complete st' then Some (1, raise_flag Flag_data_after st')
      else chunk_loop env ys st')"
  using assms(2)
proof (induction env xs st rule: chunk_loop.induct)
  case (1 env xs st)
  show ?case
  proof (cases xs)
    case Nil
    then show ?thesis using "1.prems" by simp
  next
    case (Cons c rest)
    show ?thesis
    proof (cases "chunk_step env c st")
      case None
      then show ?thesis using Cons by (simp add: chunk_loop.simps)
    next
      case (Some x)
      obtain rc consumed st1 where x: "x = (rc, consumed, st1)" by (cases x)
      let ?inp = "if consumed then rest else c # rest"
      have whole: "chunk_loop env (xs @ ys) st =
        (if rc < 0 then Some (-1, st1)
         else if md_is_complete st1 then Some (1, raise_flag Flag_data_after st1)
         else chunk_loop env (?inp @ ys) st1)"
        using Cons Some x assms by (subst chunk_loop.simps) (simp add: Let_def)
      have part: "chunk_loop env xs st =
        (if rc < 0 then Some (-1, st1)
         else if md_is_complete st1 \<and> ?inp \<noteq> [] then Some (1, raise_flag Flag_data_after st1)
         else chunk_loop env ?inp st1)"
        using Cons Some x by (subst chunk_loop.simps) (simp add: Let_def)
      show ?thesis
      proof (cases "rc < 0 \<or> md_is_complete st1")
        case True
        then show ?thesis unfolding whole part by (auto simp: raise_flag_def)
      next
        case False
        have "chunk_loop env (?inp @ ys) st1 =
          Option.bind (chunk_loop env ?inp st1) (\<lambda>(rc, st').
            if rc < 0 then Some (rc, st')
            else if md_is_complete st' then Some (1, raise_flag Flag_data_after st')
            else chunk_loop env ys st')"
          by (rule "1.IH" [of c rest x rc "(consumed, st1)" consumed st1 ?inp]) (use Cons Some x False in simp_all)
        moreover have "chunk_loop env (xs @ ys) st = chunk_loop env (?inp @ ys) st1" using False whole by simp
        moreover have "chunk_loop env xs st = chunk_loop env ?inp st1" using False part by auto
        ultimately show ?thesis by simp
      qed
    qed
  qed
qed

lemma process_chunk_append:
  assumes "mp_inv b sd st" "multipart_process_chunk env xs st = Some (1, st1)" "xs \<noteq> []" "ys \<noteq> []" "\<not> md_is_complete st"
  shows "md_is_complete st1 \<Longrightarrow> multipart_process_chunk env (xs @ ys) st = Some (1, raise_flag Flag_data_after st1)"
    and "\<not> md_is_complete st1 \<Longrightarrow> mr_error_msg st1 = None \<Longrightarrow>
      multipart_process_chunk env (xs @ ys) st = multipart_process_chunk env ys st1"
proof -
  let ?st = "st\<lparr>mr_error_msg := None, md_seen_data := True\<rparr>"
  have left: "md_bufleft st \<noteq> 0" using assms(1) by (simp add: mp_inv_def)
  have run: "multipart_process_chunk env zs st = chunk_loop env zs ?st" if "zs \<noteq> []" for zs
    using that assms(5) left by (simp add: multipart_process_chunk_def Let_def)
  have one: "chunk_loop env xs ?st = Some (1, st1)" using run [OF assms(3)] assms(2) by simp
  have two: "chunk_loop env (xs @ ys) ?st =
      (if md_is_complete st1 then Some (1, raise_flag Flag_data_after st1) else chunk_loop env ys st1)"
    using chunk_loop_append [OF assms(4), of ?st env xs] one assms(5) by simp
  show "md_is_complete st1 \<Longrightarrow> multipart_process_chunk env (xs @ ys) st = Some (1, raise_flag Flag_data_after st1)"
    using run [of "xs @ ys"] two assms(4) by simp
  have "mp_inv b (sd \<or> xs \<noteq> []) st1"
    using process_chunk_ok [OF assms(1), of xs env] assms(2) by simp
  then have st1: "md_bufleft st1 \<noteq> 0" "md_seen_data st1" using assms(3) by (simp_all add: mp_inv_def core_inv_def)
  show "multipart_process_chunk env (xs @ ys) st = multipart_process_chunk env ys st1"
    if "\<not> md_is_complete st1" "mr_error_msg st1 = None"
  proof -
    have "st1\<lparr>mr_error_msg := None, md_seen_data := True\<rparr> = st1" using that(2) st1(2) by (cases st1) simp
    then have "chunk_loop env ys (st1\<lparr>mr_error_msg := None, md_seen_data := True\<rparr>) = chunk_loop env ys st1" by (simp only:)
    then have "multipart_process_chunk env ys st1 = chunk_loop env ys st1"
      using that st1 assms(4) by (simp add: multipart_process_chunk_def Let_def)
    then show ?thesis using run [of "xs @ ys"] two assms(4) that by simp
  qed
qed

end
