(* ===== verification/MultipartValues.thy ===== *)
theory MultipartValues
  imports MultipartSafe
begin

text \<open>
  What the multipart parser delivers: the value of a form field is exactly the bytes between the empty line and the line end
  before the next boundary, and the body built from a list of names and values parses to that list.
\<close>

section \<open>Collecting a value\<close>

text \<open>No line of the data starts with two hyphens. The first argument tells whether a line starts here.\<close>

fun dash_free :: "bool \<Rightarrow> bytes \<Rightarrow> bool" where
  "dash_free start [] \<longleftrightarrow> True"
| "dash_free start (c # cs) \<longleftrightarrow> \<not> (start \<and> c = 45 \<and> cs \<noteq> [] \<and> hd cs = 45) \<and> dash_free (c = 10) cs"

lemma dash_free_line:
  assumes "dash_free start (p @ s @ rest)" "if p = [] then start else List.last p = 10"
  shows "\<not> (length s > 3 \<and> s ! 0 = 45 \<and> s ! 1 = 45)"
  using assms
proof (induction p arbitrary: start)
  case Nil
  show ?case
  proof
    assume s: "length s > 3 \<and> s ! 0 = 45 \<and> s ! 1 = 45"
    then obtain a c t where "s = a # c # t" by (cases s; cases "tl s"; auto)
    then show False using Nil s by simp
  qed
next
  case (Cons x p)
  have "dash_free (x = 10) (p @ s @ rest)" using Cons.prems(1) by simp
  moreover have "if p = [] then x = 10 else List.last p = 10" using Cons.prems(2) by (simp split: if_splits)
  ultimately show ?case by (rule Cons.IH)
qed

lemma dash_free_calm:
  assumes "dash_free True (p @ s @ rest)" "p = [] \<or> List.last p = 10"
  shows "\<not> (length s > 3 \<and> s ! 0 = 45 \<and> s ! 1 = 45)"
  using assms by (intro dash_free_line [of True p s rest]) auto

text \<open>The state while the value of the form field \<open>p0\<close> is read: of the data, \<open>done\<close> has been processed, and the
  buffer holds what follows it.\<close>

definition frame :: "mp_state \<Rightarrow> mp_state \<Rightarrow> bool" where
  "frame st0 st \<longleftrightarrow>
     md_parts st = md_parts st0 \<and> md_boundary st = md_boundary st0 \<and> md_boundary_count st = md_boundary_count st0 \<and>
     md_mpp_state st = md_mpp_state st0 \<and> md_is_complete st = md_is_complete st0 \<and> mr_io st = mr_io st0 \<and>
     md_flags st0 \<subseteq> md_flags st \<and> md_flags st \<subseteq> insert Flag_unmatched_boundary (md_flags st0)"

definition holds_value :: "mp_state \<Rightarrow> multipart_part \<Rightarrow> bytes \<Rightarrow> mp_state \<Rightarrow> bool" where
  "holds_value st0 p0 done st \<longleftrightarrow>
     frame st0 st \<and> md_mpp_state st \<noteq> 0 \<and> \<not> md_is_complete st \<and> md_boundary st \<noteq> None \<and>
     mp_type p0 = MULTIPART_FORMDATA \<and>
     (\<exists>vp off. md_mpp st = Some (p0\<lparr>mp_value_parts := vp, mp_length := of_nat (length (concat vp)), mp_offset := off\<rparr>) \<and>
        concat vp @ md_reserve st = done) \<and>
     md_reserve st = line_end done"

definition collecting :: "mp_state \<Rightarrow> multipart_part \<Rightarrow> bytes \<Rightarrow> mp_state \<Rightarrow> bool" where
  "collecting st0 p0 done st \<longleftrightarrow>
     holds_value st0 p0 done st \<and>
     length (md_buf st) + md_bufleft st = MULTIPART_BUF_SIZE \<and> 0 < md_bufleft st \<and>
     (md_buf_contains_line st \<longleftrightarrow> done = [] \<or> List.last done = 10) \<and>
     (done \<noteq> [] \<and> List.last done = 13 \<longrightarrow> md_buf st \<noteq> [] \<and> hd (md_buf st) = 13) \<and> 10 \<notin> set (md_buf st)"

lemma line_end_append:
  assumes "s \<noteq> []" "p \<noteq> [] \<and> List.last p = 13 \<longrightarrow> hd s = 13"
  shows "line_end (p @ s) = line_end s"
proof -
  consider t where "s = t @ [13, 10]" | t where "s = t @ [10]" "t = [] \<or> List.last t \<noteq> 13" | "List.last s \<noteq> 10"
    using chomp_cases [of s] assms(1) by blast
  then show ?thesis
  proof cases
    case 1
    then show ?thesis by (simp add: line_end_def butlast_append)
  next
    case 2
    then show ?thesis using assms(2) by (cases t rule: rev_cases) (auto simp: line_end_def butlast_append)
  next
    case 3
    then show ?thesis using assms(1) by (simp add: line_end_def)
  qed
qed

text \<open>A full buffer that is no boundary becomes part of the value.\<close>

lemma check_boundary_calm:
  assumes "md_boundary st \<noteq> None"
    "\<not> (md_buf_contains_line st \<and> length (md_buf st) > 3 \<and> md_buf st ! 0 = 45 \<and> md_buf st ! 1 = 45)"
  shows "\<exists>st'. check_boundary st = Some (1, False, st') \<and> (st' = st \<or> st' = raise_flag Flag_unmatched_boundary st)"
proof -
  obtain b where b: "md_boundary st = Some b" using assms(1) by blast
  let ?s = "takeWhile (\<lambda>c. c \<noteq> 0) (md_buf st)"
  have "\<not> (md_buf_contains_line st \<and> length ?s > 3 \<and> ?s ! 0 = 45 \<and> ?s ! 1 = 45)"
  proof
    assume s: "md_buf_contains_line st \<and> length ?s > 3 \<and> ?s ! 0 = 45 \<and> ?s ! 1 = 45"
    moreover have "length ?s \<le> length (md_buf st)" by (rule length_takeWhile_le)
    moreover have "?s ! 0 = md_buf st ! 0" by (rule takeWhile_nth) (use s in linarith)
    moreover have "?s ! 1 = md_buf st ! 1" by (rule takeWhile_nth) (use s in linarith)
    ultimately show False using assms(2) by simp
  qed
  then have "check_boundary st = Some (1, False,
       if md_buf_contains_line st \<and> resembles_boundary b (take (used st) (md_buf st))
       then raise_flag Flag_unmatched_boundary st else st)"
    using b by (simp only: check_boundary_def bind.simps c_str_snoc_0 if_False)
  then show ?thesis by auto
qed

lemma form_data_run:
  assumes "md_mpp st = Some q"
  shows "\<exists>off. form_data data st = Some (1, st\<lparr>
    mr_no_files_length := mr_no_files_length st + of_nat (length (md_reserve st @ data)),
    md_mpp := Some (q\<lparr>mp_value_parts := mp_value_parts q @ [md_reserve st @ data],
                      mp_length := mp_length q + of_nat (length (md_reserve st @ data)), mp_offset := off\<rparr>)\<rparr>)"
proof (cases "mp_length q = 0")
  case True
  then show ?thesis using assms
    by (intro exI [of _ "md_buf_offset st"]) (simp add: form_data_def mark_offset_def Let_def)
next
  case False
  then show ?thesis using assms
    by (intro exI [of _ "mp_offset q"]) (simp add: form_data_def mark_offset_def Let_def)
qed

lemma part_data_run:
  assumes "md_mpp st = Some q" "mp_type q = MULTIPART_FORMDATA" "length (md_buf st) + md_bufleft st = MULTIPART_BUF_SIZE"
  shows "\<exists>off bf n w w' e. multipart_process_part_data env st = Some (1, st\<lparr>
    md_mpp := Some (q\<lparr>mp_value_parts := mp_value_parts q @ [md_reserve st @ chomp (md_buf st)],
                      mp_length := mp_length q + of_nat (length (md_reserve st @ chomp (md_buf st))), mp_offset := off\<rparr>),
    md_reserve := line_end (md_buf st), md_buf := bf, md_bufleft := n, md_buf_offset := w, mr_no_files_length := w', mr_error_msg := e\<rparr>)"
proof -
  obtain bf n where r: "reserve_bytes (st\<lparr>mr_error_msg := None\<rparr>) =
      Some (line_end (md_buf st), st\<lparr>mr_error_msg := None, md_buf := bf, md_bufleft := n\<rparr>)"
    "n + length (chomp (md_buf st)) = MULTIPART_BUF_SIZE" "take (length (chomp (md_buf st))) bf = chomp (md_buf st)"
    using reserve_bytes_run [of "st\<lparr>mr_error_msg := None\<rparr>"] assms(3) by auto
  define st1 where "st1 = st\<lparr>mr_error_msg := None, md_buf := bf, md_bufleft := n\<rparr>"
  have "MULTIPART_BUF_SIZE - n = length (chomp (md_buf st))" using r(2) by arith
  then have st1: "md_mpp st1 = Some q" "take (used st1) (md_buf st1) = chomp (md_buf st)" "md_reserve st1 = md_reserve st"
    using r assms(1) by (auto simp: st1_def used_def)
  obtain off where f: "form_data (chomp (md_buf st)) st1 = Some (1, st1\<lparr>
    mr_no_files_length := mr_no_files_length st1 + of_nat (length (md_reserve st1 @ chomp (md_buf st))),
    md_mpp := Some (q\<lparr>mp_value_parts := mp_value_parts q @ [md_reserve st1 @ chomp (md_buf st)],
                      mp_length := mp_length q + of_nat (length (md_reserve st1 @ chomp (md_buf st))), mp_offset := off\<rparr>)\<rparr>)"
    using form_data_run [OF st1(1)] by blast
  have run: "multipart_process_part_data env st = Some (1,
      let st' = st1\<lparr>mr_no_files_length := mr_no_files_length st1 + of_nat (length (md_reserve st1 @ chomp (md_buf st))),
          md_mpp := Some (q\<lparr>mp_value_parts := mp_value_parts q @ [md_reserve st1 @ chomp (md_buf st)],
                      mp_length := mp_length q + of_nat (length (md_reserve st1 @ chomp (md_buf st))), mp_offset := off\<rparr>)\<rparr> in
      if line_end (md_buf st) \<noteq> [] then
        st'\<lparr>md_reserve := line_end (md_buf st), md_buf_offset := md_buf_offset st' + of_nat (length (line_end (md_buf st)))\<rparr>
      else st'\<lparr>md_buf_offset := md_buf_offset st' - of_nat (length (md_reserve st')), md_reserve := []\<rparr>)"
    using r(1) st1 assms(2) f
    by (simp add: multipart_process_part_data_def st1_def [symmetric] Let_def)
  show ?thesis
  proof (cases "line_end (md_buf st) = []")
    case True
    show ?thesis unfolding run
      by (rule exI [of _ off], rule exI [of _ bf], rule exI [of _ n],
          rule exI [of _ "md_buf_offset st - of_nat (length (md_reserve st))"],
          rule exI [of _ "mr_no_files_length st1 + of_nat (length (md_reserve st1 @ chomp (md_buf st)))"],
          rule exI [of _ None]) (use True st1 in \<open>cases st; simp add: st1_def Let_def\<close>)
  next
    case False
    show ?thesis unfolding run
      by (rule exI [of _ off], rule exI [of _ bf], rule exI [of _ n],
          rule exI [of _ "md_buf_offset st + of_nat (length (line_end (md_buf st)))"],
          rule exI [of _ "mr_no_files_length st1 + of_nat (length (md_reserve st1 @ chomp (md_buf st)))"],
          rule exI [of _ None]) (use False st1 in \<open>cases st; simp add: st1_def Let_def\<close>)
  qed
qed

lemma collect_line:
  assumes "holds_value st0 p0 done st" "length (md_buf st) + md_bufleft st = MULTIPART_BUF_SIZE" "md_buf st \<noteq> []"
    "\<not> (md_buf_contains_line st \<and> length (md_buf st) > 3 \<and> md_buf st ! 0 = 45 \<and> md_buf st ! 1 = 45)"
    "done \<noteq> [] \<and> List.last done = 13 \<longrightarrow> hd (md_buf st) = 13"
  shows "\<exists>st'. process_line env pb st = Some (1, st') \<and> holds_value st0 p0 (done @ md_buf st) (next_line c st')"
proof -
  have bd: "md_boundary st \<noteq> None" using assms(1) by (simp add: holds_value_def)
  obtain st1 where check: "check_boundary st = Some (1, False, st1)" "st1 = st \<or> st1 = raise_flag Flag_unmatched_boundary st"
    using check_boundary_calm [OF bd assms(4)] by blast
  have same: "md_mpp st1 = md_mpp st" "md_buf st1 = md_buf st" "md_bufleft st1 = md_bufleft st" "md_reserve st1 = md_reserve st"
    "md_mpp_state st1 = md_mpp_state st"
    using check(2) by auto
  obtain vp off where q: "md_mpp st = Some (p0\<lparr>mp_value_parts := vp, mp_length := of_nat (length (concat vp)), mp_offset := off\<rparr>)"
    "concat vp @ md_reserve st = done" and type: "mp_type p0 = MULTIPART_FORMDATA"
    using assms(1) by (auto simp: holds_value_def)
  obtain off' bf n w w' e where data: "multipart_process_part_data env st1 = Some (1, st1\<lparr>
    md_mpp := Some (p0\<lparr>mp_value_parts := vp @ [md_reserve st @ chomp (md_buf st)],
       mp_length := of_nat (length (concat vp)) + of_nat (length (md_reserve st @ chomp (md_buf st))), mp_offset := off'\<rparr>),
    md_reserve := line_end (md_buf st), md_buf := bf, md_bufleft := n, md_buf_offset := w, mr_no_files_length := w', mr_error_msg := e\<rparr>)"
    using part_data_run [of st1 "p0\<lparr>mp_value_parts := vp, mp_length := of_nat (length (concat vp)), mp_offset := off\<rparr>" env]
      q(1) type assms(2) same by auto
  let ?st' = "st1\<lparr>
    md_mpp := Some (p0\<lparr>mp_value_parts := vp @ [md_reserve st @ chomp (md_buf st)],
       mp_length := of_nat (length (concat vp)) + of_nat (length (md_reserve st @ chomp (md_buf st))), mp_offset := off'\<rparr>),
    md_reserve := line_end (md_buf st), md_buf := bf, md_bufleft := n, md_buf_offset := w, mr_no_files_length := w', mr_error_msg := e\<rparr>"
  have "process_line env pb st = Some (1, ?st')"
    using check(1) data same q(1) assms(1,2)
    by (simp add: process_line_def process_content_def with_flag_error_def holds_value_def)
  moreover have "holds_value st0 p0 (done @ md_buf st) (next_line c ?st')"
    unfolding holds_value_def
  proof (intro conjI)
    have "concat (vp @ [md_reserve st @ chomp (md_buf st)]) @ line_end (md_buf st) = done @ md_buf st"
      using q(2) chomp_line_end [of "md_buf st"] by simp
    then show "\<exists>vp off. md_mpp (next_line c ?st') =
        Some (p0\<lparr>mp_value_parts := vp, mp_length := of_nat (length (concat vp)), mp_offset := off\<rparr>) \<and>
        concat vp @ md_reserve (next_line c ?st') = done @ md_buf st"
      by (intro exI [of _ "vp @ [md_reserve st @ chomp (md_buf st)]"] exI [of _ off']) (simp add: next_line_def)
    show "md_reserve (next_line c ?st') = line_end (done @ md_buf st)"
      using line_end_append [OF assms(3,5)] by (simp add: next_line_def)
    show "frame st0 (next_line c ?st')"
      using assms(1) check(2) by (auto simp: holds_value_def frame_def next_line_def)
    show "md_mpp_state (next_line c ?st') \<noteq> 0" "\<not> md_is_complete (next_line c ?st')" "md_boundary (next_line c ?st') \<noteq> None"
      using assms(1) check(2) by (auto simp: holds_value_def next_line_def)
  qed (fact type)
  ultimately show ?thesis by blast
qed

text \<open>One turn of the loop, unfolded for a byte at hand.\<close>

lemma chunk_loop_put:
  assumes "\<not> (c = 13 \<and> md_bufleft st = 1)" "length (md_buf st) + md_bufleft st = MULTIPART_BUF_SIZE" "0 < md_bufleft st"
    "c \<noteq> 10" "md_bufleft st \<noteq> 1" "\<not> md_is_complete st"
  shows "chunk_loop env (c # later) st = chunk_loop env later (st\<lparr>md_buf := md_buf st @ [c], md_bufleft := md_bufleft st - 1\<rparr>)"
proof -
  have "chunk_step env c st = Some (1, True, st\<lparr>md_buf := md_buf st @ [c], md_bufleft := md_bufleft st - 1\<rparr>)"
    using assms by (auto simp: chunk_step_def put_byte_def Let_def)
  then show ?thesis using assms(6) by (subst chunk_loop.simps) (simp add: Let_def)
qed

lemma chunk_loop_flush:
  assumes "\<not> (c = 13 \<and> md_bufleft st = 1)" "length (md_buf st) + md_bufleft st = MULTIPART_BUF_SIZE" "0 < md_bufleft st"
    "c = 10 \<or> md_bufleft st = 1"
    "process_line env False (st\<lparr>md_buf := md_buf st @ [c], md_bufleft := md_bufleft st - 1\<rparr>) = Some (1, st')"
  shows "chunk_loop env (c # later) st =
    (if md_is_complete st' \<and> later \<noteq> [] then Some (1, raise_flag Flag_data_after (next_line c st'))
     else chunk_loop env later (next_line c st'))"
proof -
  have pb: "(c = 13 \<and> md_bufleft st = 1) = False" using assms(1) by simp
  have put: "put_byte c st = Some (st\<lparr>md_buf := md_buf st @ [c], md_bufleft := md_bufleft st - 1\<rparr>)"
    using assms(2) by (simp add: put_byte_def)
  have "c = 10 \<or> md_bufleft st - 1 = 0" using assms(3,4) by auto
  then have "chunk_step env c st = Some (1, True, next_line c st')"
    using assms(5) unfolding chunk_step_def pb Let_def put by simp
  then show ?thesis by (subst chunk_loop.simps) (simp add: Let_def next_line_def)
qed

lemma holds_value_buf [simp]:
  "holds_value st0 p0 d (st\<lparr>md_buf := bf, md_bufleft := n\<rparr>) = holds_value st0 p0 d st"
  "holds_value st0 p0 d (st\<lparr>md_bufleft := n\<rparr>) = holds_value st0 p0 d st"
  "holds_value st0 p0 d (st\<lparr>md_buf := bf\<rparr>) = holds_value st0 p0 d st"
  by (simp_all add: holds_value_def frame_def)

lemma next_line_fields [simp]:
  "md_buf (next_line c st) = []" "md_bufleft (next_line c st) = MULTIPART_BUF_SIZE" "md_buf_contains_line (next_line c st) = (c = 10)"
  "md_is_complete (next_line c st) = md_is_complete st"
  by (simp_all add: next_line_def)

lemma collect_byte:
  assumes "collecting st0 p0 done st" "dash_free True (done @ md_buf st @ c # rest)"
  shows "\<exists>st' done'. chunk_loop env (c # later) st = chunk_loop env later st' \<and> collecting st0 p0 done' st' \<and>
    done' @ md_buf st' = done @ md_buf st @ [c]"
proof -
  have inv: "holds_value st0 p0 done st" "length (md_buf st) + md_bufleft st = MULTIPART_BUF_SIZE" "0 < md_bufleft st"
    "md_buf_contains_line st \<longleftrightarrow> done = [] \<or> List.last done = 10" "10 \<notin> set (md_buf st)"
    "done \<noteq> [] \<and> List.last done = 13 \<longrightarrow> md_buf st \<noteq> [] \<and> hd (md_buf st) = 13"
    using assms(1) by (simp_all add: collecting_def)
  have open_st: "\<not> md_is_complete st" using inv(1) by (simp add: holds_value_def)
  show ?thesis
  proof (cases "c = 13 \<and> md_bufleft st = 1")
    case True
    have ne: "md_buf st \<noteq> []" using inv(2) True by (auto simp: MULTIPART_BUF_SIZE_def)
    have calm: "\<not> (md_buf_contains_line st \<and> length (md_buf st) > 3 \<and> md_buf st ! 0 = 45 \<and> md_buf st ! 1 = 45)"
      using dash_free_calm [of "done" "md_buf st" "c # rest"] assms(2) inv(4) by blast
    obtain st1 where line: "process_line env True st = Some (1, st1)" "holds_value st0 p0 (done @ md_buf st) (next_line c st1)"
      using collect_line [OF inv(1,2) ne calm, of env True c] inv(6) by blast
    let ?st1 = "next_line c st1"
    have open1: "\<not> md_is_complete ?st1" using line(2) unfolding holds_value_def by blast
    have step: "chunk_step env c st = Some (1, False, ?st1)"
      using True line(1) by (simp add: chunk_step_def)
    have "chunk_loop env (c # later) st = chunk_loop env (c # later) ?st1"
      using step open1 by (subst chunk_loop.simps) (simp add: Let_def)
    also have "\<dots> = chunk_loop env later (?st1\<lparr>md_buf := md_buf ?st1 @ [c], md_bufleft := md_bufleft ?st1 - 1\<rparr>)"
      using True open1 by (intro chunk_loop_put) (simp_all add: MULTIPART_BUF_SIZE_def)
    finally have "chunk_loop env (c # later) st = chunk_loop env later (?st1\<lparr>md_buf := [c], md_bufleft := MULTIPART_BUF_SIZE - 1\<rparr>)"
      by simp
    moreover have "List.last (done @ md_buf st) \<noteq> 10" using ne inv(5) by (cases "md_buf st" rule: rev_cases) auto
    then have "collecting st0 p0 (done @ md_buf st) (?st1\<lparr>md_buf := [c], md_bufleft := MULTIPART_BUF_SIZE - 1\<rparr>)"
      using line(2) True ne by (simp add: collecting_def MULTIPART_BUF_SIZE_def)
    ultimately show ?thesis by fastforce
  next
    case pb: False
    let ?st1 = "st\<lparr>md_buf := md_buf st @ [c], md_bufleft := md_bufleft st - 1\<rparr>"
    show ?thesis
    proof (cases "c = 10 \<or> md_bufleft st = 1")
      case False
      have "chunk_loop env (c # later) st = chunk_loop env later ?st1"
        using chunk_loop_put [OF pb inv(2,3)] False open_st by simp
      moreover have "collecting st0 p0 done ?st1" using inv False by (auto simp: collecting_def)
      ultimately show ?thesis by fastforce
    next
      case True
      have calm: "\<not> (md_buf_contains_line ?st1 \<and> length (md_buf ?st1) > 3 \<and> md_buf ?st1 ! 0 = 45 \<and> md_buf ?st1 ! 1 = 45)"
        using dash_free_calm [of "done" "md_buf st @ [c]" rest] assms(2) inv(4) by auto
      have len: "length (md_buf ?st1) + md_bufleft ?st1 = MULTIPART_BUF_SIZE" "md_buf ?st1 \<noteq> []" using inv(2,3) by simp_all
      have "holds_value st0 p0 done ?st1" using inv(1) by simp
      moreover have "done \<noteq> [] \<and> List.last done = 13 \<longrightarrow> hd (md_buf ?st1) = 13" using inv(6) by auto
      ultimately obtain st2 where line: "process_line env False ?st1 = Some (1, st2)"
        "holds_value st0 p0 (done @ md_buf ?st1) (next_line c st2)"
        using collect_line [OF _ len calm] by blast
      have open2: "\<not> md_is_complete st2" using line(2) by (simp add: holds_value_def)
      have "c \<noteq> 13" using True pb by auto
      then have "collecting st0 p0 (done @ md_buf ?st1) (next_line c st2)"
        using line(2) by (simp add: collecting_def MULTIPART_BUF_SIZE_def)
      moreover have "chunk_loop env (c # later) st = chunk_loop env later (next_line c st2)"
        using chunk_loop_flush [OF pb inv(2,3) True line(1)] open2 by simp
      ultimately show ?thesis by fastforce
    qed
  qed
qed

lemma collect_bytes:
  assumes "collecting st0 p0 done st" "dash_free True (done @ md_buf st @ xs)"
  shows "\<exists>st' done'. chunk_loop env (xs @ later) st = chunk_loop env later st' \<and> collecting st0 p0 done' st' \<and>
    done' @ md_buf st' = done @ md_buf st @ xs"
  using assms
proof (induction xs arbitrary: st "done")
  case Nil
  then show ?case by auto
next
  case (Cons c xs)
  obtain st1 done1 where one: "chunk_loop env (c # xs @ later) st = chunk_loop env (xs @ later) st1" "collecting st0 p0 done1 st1"
    "done1 @ md_buf st1 = done @ md_buf st @ [c]"
    using collect_byte [OF Cons.prems, of env "xs @ later"] by blast
  have eq: "done1 @ md_buf st1 @ xs = done @ md_buf st @ c # xs" using one(3) by (metis append.assoc append_Cons append_Nil)
  then show ?case using Cons.IH [OF one(2), unfolded eq, OF Cons.prems(2)] one(1) by simp
qed

text \<open>When the data ends with a line end, all of it has been processed.\<close>

lemma collect_lines:
  assumes "collecting st0 p0 done st" "dash_free True (done @ md_buf st @ xs @ [10])"
  shows "\<exists>st'. chunk_loop env (xs @ 10 # later) st = chunk_loop env later st' \<and>
    collecting st0 p0 (done @ md_buf st @ xs @ [10]) st' \<and> md_buf st' = []"
proof -
  obtain st' done' where run: "chunk_loop env ((xs @ [10]) @ later) st = chunk_loop env later st'" "collecting st0 p0 done' st'"
    "done' @ md_buf st' = done @ md_buf st @ xs @ [10]"
    using collect_bytes [OF assms(1), of "xs @ [10]" env later] assms(2) by auto
  have "md_buf st' = []"
  proof (cases "md_buf st'" rule: rev_cases)
    case (snoc ys y)
    then have "y = 10" using run(3) by (metis append.assoc last_appendR last_snoc snoc_eq_iff_butlast)
    then show ?thesis using run(2) snoc by (simp add: collecting_def)
  qed
  then show ?thesis using run by auto
qed

section \<open>Short lines\<close>

lemma feed_prefix:
  assumes "length (md_buf st) + md_bufleft st = MULTIPART_BUF_SIZE" "length xs + 1 < md_bufleft st" "10 \<notin> set xs" "\<not> md_is_complete st"
  shows "chunk_loop env (xs @ later) st = chunk_loop env later (st\<lparr>md_buf := md_buf st @ xs, md_bufleft := md_bufleft st - length xs\<rparr>)"
  using assms
proof (induction xs arbitrary: st)
  case Nil
  then show ?case by simp
next
  case (Cons c xs)
  let ?st = "st\<lparr>md_buf := md_buf st @ [c], md_bufleft := md_bufleft st - 1\<rparr>"
  have "chunk_loop env (c # xs @ later) st = chunk_loop env (xs @ later) ?st"
    using Cons.prems by (intro chunk_loop_put) auto
  moreover have "chunk_loop env (xs @ later) ?st =
      chunk_loop env later (?st\<lparr>md_buf := md_buf ?st @ xs, md_bufleft := md_bufleft ?st - length xs\<rparr>)"
    using Cons.prems by (intro Cons.IH) auto
  ultimately show ?case by simp
qed

text \<open>A fresh buffer at the start of a line.\<close>

definition line_start :: "mp_state \<Rightarrow> bool" where
  "line_start st \<longleftrightarrow> md_buf st = [] \<and> md_bufleft st = MULTIPART_BUF_SIZE \<and> md_buf_contains_line st"

definition with_line :: "bytes \<Rightarrow> mp_state \<Rightarrow> mp_state" where
  "with_line l st = st\<lparr>md_buf := l, md_bufleft := MULTIPART_BUF_SIZE - length l\<rparr>"

lemma feed_line:
  assumes "line_start st" "\<not> md_is_complete st" "length xs + 2 < MULTIPART_BUF_SIZE" "10 \<notin> set xs"
    "process_line env False (with_line (xs @ [10]) st) = Some (1, st')"
  shows "chunk_loop env (xs @ 10 # later) st =
    (if md_is_complete st' \<and> later \<noteq> [] then Some (1, raise_flag Flag_data_after (next_line 10 st'))
     else chunk_loop env later (next_line 10 st'))"
proof -
  let ?st = "st\<lparr>md_buf := md_buf st @ xs, md_bufleft := md_bufleft st - length xs\<rparr>"
  have "chunk_loop env (xs @ 10 # later) st = chunk_loop env (10 # later) ?st"
    using assms by (intro feed_prefix) (auto simp: line_start_def)
  moreover have "?st\<lparr>md_buf := md_buf ?st @ [10], md_bufleft := md_bufleft ?st - 1\<rparr> = with_line (xs @ [10]) st"
    using assms(1) by (simp add: with_line_def line_start_def)
  moreover have "chunk_loop env (10 # later) ?st =
    (if md_is_complete st' \<and> later \<noteq> [] then Some (1, raise_flag Flag_data_after (next_line 10 st'))
     else chunk_loop env later (next_line 10 st'))"
    using assms calculation(2) by (intro chunk_loop_flush) (auto simp: line_start_def)
  ultimately show ?thesis by simp
qed

section \<open>Boundary lines\<close>

definition boundary_line :: "bytes \<Rightarrow> bool \<Rightarrow> bytes" where
  "boundary_line b final = [45, 45] @ b @ (if final then [45, 45] else []) @ [13]"

lemma boundary_line_run:
  assumes "md_buf st = boundary_line b final @ [10]" "md_buf_contains_line st" "md_boundary st = Some b" "0 \<notin> set b"
    "\<not> md_is_complete st" "length b + 10 < MULTIPART_BUF_SIZE"
    "multipart_process_boundary final (raise_flag Flag_crlf_line st) = Some (1, st')"
  shows "process_line env pb st = Some (1, st'\<lparr>md_is_complete := md_is_complete st' \<or> final, md_boundary_count := md_boundary_count st' + 1\<rparr>)"
proof -
  let ?s = "boundary_line b final @ [10]"
  have s: "takeWhile (\<lambda>c. c \<noteq> 0) (md_buf st) = ?s"
    unfolding assms(1) using assms(4) by (auto simp: boundary_line_def takeWhile_eq_all_conv)
  have dash: "length ?s > 3" "?s ! 0 = 45" "?s ! 1 = 45" "length ?s \<ge> length b + 2" "starts_with b (drop 2 ?s)"
    "drop (2 + length b) ?s = (if final then [45, 45, 13, 10] else [13, 10])"
    by (simp_all add: boundary_line_def starts_with_def)
  have "matched_boundary b ?s st =
      Some (1, True, st'\<lparr>md_is_complete := md_is_complete st' \<or> final, md_boundary_count := md_boundary_count st' + 1\<rparr>)"
    using assms(5,7) dash(6) by (cases final) (simp_all add: matched_boundary_def starts_with_def)
  then have "check_boundary st =
      Some (1, True, st'\<lparr>md_is_complete := md_is_complete st' \<or> final, md_boundary_count := md_boundary_count st' + 1\<rparr>)"
    using assms(2,3) s dash(1-5) by (simp only: check_boundary_def bind.simps c_str_snoc_0 if_True simp_thms)
  moreover have "length (md_buf st) < MULTIPART_BUF_SIZE + 2" using assms(1,6) by (simp add: boundary_line_def)
  ultimately show ?thesis by (simp add: process_line_def)
qed

lemma combine_all:
  assumes "length (concat vp) < 2 ^ 32"
  shows "multipart_combine_value_parts (p\<lparr>mp_value_parts := vp, mp_length := of_nat (length (concat vp)), mp_offset := off\<rparr>) = concat vp"
proof -
  have fold: "fold (\<lambda>d out. if length out + length d \<le> n then out @ d else out) vs out = out @ concat vs"
    if "length out + length (concat vs) \<le> n" for vs n and out :: bytes
    using that by (induction vs arbitrary: out) auto
  have "unat (of_nat (length (concat vp)) :: 32 word) = length (concat vp)"
    using assms by (simp add: unat_of_nat take_bit_nat_eq_self)
  then show ?thesis using fold [of "[]" vp "length (concat vp)"] by (simp add: multipart_combine_value_parts_def)
qed

text \<open>The boundary line behind a value: the line end before it belongs to the boundary.\<close>

lemma chomp_crlf [simp]: "chomp (v @ [13, 10]) = v" "line_end (v @ [13, 10]) = [13, 10]"
  by (simp_all add: chomp_def line_end_def)

definition finished :: "multipart_part \<Rightarrow> bytes \<Rightarrow> multipart_part \<Rightarrow> bool" where
  "finished p0 v p \<longleftrightarrow> mp_type p = MULTIPART_FORMDATA \<and> mp_name p = mp_name p0 \<and> mp_value p = Some v \<and>
     mp_length p = of_nat (length v) \<and> mp_filename p = mp_filename p0"

lemma value_then_boundary:
  assumes "collecting st0 p0 (v @ [13, 10]) st" "md_buf st = []" "md_boundary st = Some b" "0 \<notin> set b" "10 \<notin> set b"
    "length b + 10 < MULTIPART_BUF_SIZE" "length v < 2 ^ 32" "mp_name p0 \<noteq> None"
  shows "\<exists>p st'. chunk_loop env (boundary_line b final @ 10 # later) st =
      (if final \<and> later \<noteq> [] then Some (1, raise_flag Flag_data_after st') else chunk_loop env later st') \<and>
    finished p0 v p \<and> md_parts st' = md_parts st @ [p] \<and> md_boundary st' = Some b \<and> line_start st' \<and>
    md_is_complete st' = final \<and> md_mpp st' = (if final then None else Some new_part) \<and> (\<not> final \<longrightarrow> md_mpp_state st' = 0 \<and> md_reserve st' = []) \<and>
    md_flags st' = insert Flag_crlf_line (md_flags st) \<and> mr_io st' = mr_io st"
proof -
  obtain vp off where q: "md_mpp st = Some (p0\<lparr>mp_value_parts := vp, mp_length := of_nat (length (concat vp)), mp_offset := off\<rparr>)"
    "concat vp @ md_reserve st = v @ [13, 10]" "md_reserve st = line_end (v @ [13, 10])" "mp_type p0 = MULTIPART_FORMDATA"
    using assms(1) by (auto simp: collecting_def holds_value_def)
  then have v: "concat vp = v" by simp
  let ?l = "boundary_line b final"
  let ?st = "with_line (?l @ [10]) st"
  let ?q = "p0\<lparr>mp_value_parts := vp, mp_length := of_nat (length (concat vp)), mp_offset := off\<rparr>"
  let ?p = "?q\<lparr>mp_value := Some v\<rparr>"
  have start: "line_start st" "\<not> md_is_complete st"
    using assms(1,2) by (auto simp: collecting_def line_start_def holds_value_def)
  define st1 where "st1 = (raise_flag Flag_crlf_line ?st)\<lparr>md_parts := md_parts st @ [?p], md_mpp := None\<rparr>"
  define st2 where "st2 = (if final then st1 else st1\<lparr>md_mpp := Some new_part, md_mpp_state := 0, md_reserve := []\<rparr>)"
  have "finish_part ?q (raise_flag Flag_crlf_line ?st) = st1"
    using q(4) assms(7,8) v combine_all [where vp = vp and p = p0 and off = off]
    by (simp add: finish_part_def st1_def with_line_def)
  then have pb: "multipart_process_boundary final (raise_flag Flag_crlf_line ?st) = Some (1, st2)"
    using q(1) by (simp add: multipart_process_boundary_def st2_def with_line_def)
  have line: "process_line env False ?st = Some (1, st2\<lparr>md_is_complete := md_is_complete st2 \<or> final, md_boundary_count := md_boundary_count st2 + 1\<rparr>)"
    using start assms pb by (intro boundary_line_run) (simp_all add: with_line_def line_start_def)
  let ?st3 = "st2\<lparr>md_is_complete := md_is_complete st2 \<or> final, md_boundary_count := md_boundary_count st2 + 1\<rparr>"
  have compl: "md_is_complete ?st3 = final" using start(2) by (simp add: st2_def st1_def with_line_def)
  have run: "chunk_loop env (?l @ 10 # later) st =
      (if md_is_complete ?st3 \<and> later \<noteq> [] then Some (1, raise_flag Flag_data_after (next_line 10 ?st3))
       else chunk_loop env later (next_line 10 ?st3))"
    using line assms(5,6) by (intro feed_line [OF start]) (auto simp: boundary_line_def)
  have "finished p0 v ?p" using q(4) v by (simp add: finished_def)
  then show ?thesis
    using run compl assms(3)
    by (intro exI [of _ ?p] exI [of _ "next_line 10 ?st3"])
      (simp add: st2_def st1_def with_line_def next_line_def line_start_def)
qed

section \<open>Header lines\<close>

text \<open>The documented behaviour of APR tables the parser relies on.\<close>

definition header_table_laws :: "mp_env \<Rightarrow> bool" where
  "header_table_laws env \<longleftrightarrow>
     (\<forall>k. me_table_get env [] k = None) \<and> (\<forall>t k v. me_table_get env (me_table_set env t k v) k = Some v)"

definition field_name_ok :: "bytes \<Rightarrow> bool" where
  "field_name_ok n \<longleftrightarrow> list_all (\<lambda>c. c \<notin> {34, 39, 92, 0, 10, 13}) n \<and> length n \<le> 4000"

definition disposition :: "bytes \<Rightarrow> bytes" where
  "disposition n = ascii ''form-data; name='' @ [34] @ n @ [34]"

definition disposition_line :: "bytes \<Rightarrow> bytes" where
  "disposition_line n = ascii ''Content-Disposition: '' @ disposition n @ [13]"

lemma quoted_value_plain:
  "quote \<notin> set n \<Longrightarrow> 92 \<notin> set n \<Longrightarrow> quote \<noteq> 92 \<Longrightarrow> quoted_value quote t (n @ quote # rest) = Inr (t @ n, rest)"
  by (induction n arbitrary: t) auto

lemma disposition_run:
  assumes "field_name_ok n" "md_mpp st = Some p" "mp_name p = None"
  shows "multipart_parse_content_disposition (disposition n) st =
    Some (1, st\<lparr>mr_multipart_name := Some n, md_mpp := Some (p\<lparr>mp_name := Some n\<rparr>)\<rparr>)"
proof -
  have n: "34 \<notin> set n" "92 \<notin> set n" "39 \<notin> set n" using assms(1) by (auto simp: field_name_ok_def list_all_iff)
  let ?p = "ascii '' name='' @ [34] @ n @ [34]"
  have param: "cd_param ?p = (False, Inr (ascii ''name'', n, []))"
    using quoted_value_plain [OF n(1,2), of "[]" "[]"]
    by (simp add: cd_param_def cd_value_def skip_blank_def ascii_def Let_def)
  have "cd_assign (ascii ''name'') n st = Some (None, st\<lparr>mr_multipart_name := Some n, md_mpp := Some (p\<lparr>mp_name := Some n\<rparr>)\<rparr>)"
    using assms(2,3) n(3) by (simp add: cd_assign_def validate_quotes_def Let_def)
  moreover have "?p \<noteq> []" by simp
  ultimately have "cd_params (disposition n) ?p st =
      Some (1, st\<lparr>mr_multipart_name := Some n, md_mpp := Some (p\<lparr>mp_name := Some n\<rparr>)\<rparr>)"
    using param by (subst cd_params.simps) (simp del: append_is_Nil_conv)
  moreover have "take 9 (disposition n) = ascii ''form-data''" "skip_blank (drop 9 (disposition n)) = 59 # ?p"
    by (simp_all add: disposition_def ascii_def skip_blank_def)
  ultimately show ?thesis by (simp add: multipart_parse_content_disposition_def)
qed

text \<open>Header lines in a buffer that holds no NUL.\<close>

definition header_entered :: "mp_state \<Rightarrow> mp_state" where
  "header_entered st = raise_flag Flag_crlf_line
     (st\<lparr>mr_error_msg := None, mr_no_files_length := mr_no_files_length st + of_nat (length (md_buf st))\<rparr>)"

lemma used_error_msg [simp]: "used (st\<lparr>mr_error_msg := e\<rparr>) = used st"
  by (simp add: used_def)

lemma part_header_blank:
  assumes "md_buf st = [13, 10]" "length (md_buf st) + md_bufleft st = MULTIPART_BUF_SIZE"
  shows "multipart_process_part_header env st = part_headers_end env (header_entered st)"
proof -
  have "used st = 2" using assms by (simp add: used_def)
  then show ?thesis using assms(1) by (simp add: multipart_process_part_header_def header_entered_def)
qed

lemma part_header_plain:
  assumes "md_buf st = l @ [13, 10]" "0 \<notin> set l" "length (md_buf st) + md_bufleft st = MULTIPART_BUF_SIZE"
    "l \<noteq> []" "l ! 0 \<noteq> 13" "l ! 0 \<noteq> 10" "\<not> c_isspace (l ! 0)"
  shows "multipart_process_part_header env st = part_header_new env (l @ [13, 10]) (header_entered st)"
proof -
  have used: "used st = length l + 2" using assms(1,3) by (simp add: used_def)
  have no0: "0 \<notin> set (take (used st) (md_buf st))" using assms(1,2) by (auto dest: in_set_takeD)
  have str: "c_str (l @ [13, 10, 0]) = Some (l @ [13, 10])"
    using c_str_append_0 [of "l @ [13, 10]" "[]"] assms(2) by simp
  show ?thesis
    using assms(1,4-7) no0 used str
    by (simp add: multipart_process_part_header_def header_entered_def nth_append)
qed

lemma disposition_header:
  assumes "field_name_ok n" "header_table_laws env" "md_mpp st = Some p" "mp_headers p = []"
  shows "part_header_new env (disposition_line n @ [10]) st = Some (1, st\<lparr>md_mpp := Some (p\<lparr>
     mp_headers := me_table_set env [] (ascii ''Content-Disposition'') (disposition n),
     mp_last_header_name := Some (ascii ''Content-Disposition'')\<rparr>)\<rparr>)"
proof -
  let ?l = "disposition_line n @ [10]"
  have parts: "58 \<in> set ?l" "takeWhile (\<lambda>c. c \<noteq> 58) ?l = ascii ''Content-Disposition''"
    "dropWhile (\<lambda>c. c \<noteq> 58) ?l = 58 # 32 # disposition n @ [13, 10]"
    by (simp_all add: disposition_line_def disposition_def ascii_def)
  have "0 \<notin> set (disposition n)"
    using assms(1) by (auto simp: disposition_def ascii_def field_name_ok_def list_all_iff)
  then have "dup_chomp (disposition n @ [13, 10]) = Some (disposition n)"
    by (subst dup_chomp_run) simp_all
  moreover have "skip_blank (32 # disposition n @ [13, 10]) = disposition n @ [13, 10]"
    by (simp add: skip_blank_def disposition_def ascii_def)
  moreover have "ascii ''Content-Disposition'' \<noteq> []" by (simp add: ascii_def)
  moreover have "me_table_get env [] k = None" for k using assms(2) by (simp add: header_table_laws_def)
  ultimately show ?thesis using parts assms(3,4) by (simp add: part_header_new_def Let_def)
qed

lemma headers_end_run:
  assumes "field_name_ok n" "header_table_laws env" "md_mpp st = Some p" "mp_name p = None" "mp_filename p = None"
    "mp_headers p = me_table_set env [] (ascii ''Content-Disposition'') (disposition n)"
  shows "part_headers_end env st = Some (1, st\<lparr>mr_multipart_name := Some n,
     md_mpp := Some (p\<lparr>mp_name := Some n, mp_type := MULTIPART_FORMDATA, mp_last_header_name := None\<rparr>), md_mpp_state := 1\<rparr>)"
proof -
  have "me_table_get env (mp_headers p) (ascii ''Content-Disposition'') = Some (disposition n)"
    using assms(2,6) by (simp add: header_table_laws_def)
  then show ?thesis
    using disposition_run [OF assms(1,3,4)] assms(3,5) by (simp add: part_headers_end_def Let_def)
qed

section \<open>A whole body\<close>

definition quiet_flags :: "mp_state \<Rightarrow> mp_state \<Rightarrow> bool" where
  "quiet_flags st st' \<longleftrightarrow> md_flags st' \<subseteq> md_flags st \<union> {Flag_crlf_line, Flag_unmatched_boundary}"

definition at_part :: "bytes \<Rightarrow> mp_state \<Rightarrow> bool" where
  "at_part b st \<longleftrightarrow> line_start st \<and> md_boundary st = Some b \<and> \<not> md_is_complete st \<and> md_mpp st = Some new_part \<and>
     md_mpp_state st = 0 \<and> md_reserve st = []"

definition field_part :: "mp_env \<Rightarrow> bytes \<Rightarrow> multipart_part" where
  "field_part env n = new_part\<lparr>mp_name := Some n, mp_last_header_name := None,
     mp_headers := me_table_set env [] (ascii ''Content-Disposition'') (disposition n)\<rparr>"

lemma header_content:
  assumes "line_start st" "md_boundary st \<noteq> None" "md_mpp st = Some p" "md_mpp_state st = 0" "length l + 2 < MULTIPART_BUF_SIZE"
    "l \<noteq> [] \<longrightarrow> l ! 0 \<noteq> 45"
  shows "\<exists>st'. (st' = with_line (l @ [13, 10]) st \<or> st' = raise_flag Flag_unmatched_boundary (with_line (l @ [13, 10]) st)) \<and>
    process_line env False (with_line (l @ [13, 10]) st) = with_flag_error (multipart_process_part_header env st')"
proof -
  let ?st = "with_line (l @ [13, 10]) st"
  have "md_boundary ?st \<noteq> None" "\<not> (md_buf_contains_line ?st \<and> length (md_buf ?st) > 3 \<and> md_buf ?st ! 0 = 45 \<and> md_buf ?st ! 1 = 45)"
    using assms(2,6) by (auto simp: with_line_def nth_append)
  then obtain st' where st': "check_boundary ?st = Some (1, False, st')" "st' = ?st \<or> st' = raise_flag Flag_unmatched_boundary ?st"
    using check_boundary_calm by blast
  then have "md_mpp st' = Some p" "md_mpp_state st' = 0" "md_bufleft st' \<noteq> 0"
    using assms by (auto simp: with_line_def)
  then show ?thesis
    using st' assms(5) by (intro exI [of _ st']) (simp add: process_line_def process_content_def with_line_def)
qed

lemma headers_run:
  assumes "at_part b st" "field_name_ok n" "header_table_laws env"
  shows "\<exists>st'. chunk_loop env (disposition_line n @ 10 # 13 # 10 # later) st = chunk_loop env later st' \<and>
    collecting st' (field_part env n) [] st' \<and> md_buf st' = [] \<and> md_boundary st' = Some b \<and> md_parts st' = md_parts st \<and>
    quiet_flags st st' \<and> mr_io st' = mr_io st"
proof -
  let ?hd = "me_table_set env [] (ascii ''Content-Disposition'') (disposition n)"
  define l where "l = ascii ''Content-Disposition: '' @ disposition n"
  define p1 where "p1 = new_part\<lparr>mp_headers := ?hd, mp_last_header_name := Some (ascii ''Content-Disposition'')\<rparr>"
  have line: "disposition_line n = l @ [13]" by (simp add: disposition_line_def l_def)
  have n: "0 \<notin> set n" "10 \<notin> set n" "length n \<le> 4000" using assms(2) by (auto simp: field_name_ok_def list_all_iff)
  have l: "0 \<notin> set l" "10 \<notin> set l" "l \<noteq> []" "l ! 0 = 67" "length l \<le> 4050"
    using n by (auto simp: l_def disposition_def ascii_def)
  have st: "line_start st" "md_boundary st = Some b" "\<not> md_is_complete st" "md_mpp st = Some new_part" "md_mpp_state st = 0"
    "md_reserve st = []"
    using assms(1) by (simp_all add: at_part_def)
  have size: "length l + 2 < MULTIPART_BUF_SIZE" "length l + 3 < MULTIPART_BUF_SIZE"
    using l(5) by (simp_all add: MULTIPART_BUF_SIZE_def)
  obtain st1 where st1: "st1 = with_line (l @ [13, 10]) st \<or> st1 = raise_flag Flag_unmatched_boundary (with_line (l @ [13, 10]) st)"
    "process_line env False (with_line (l @ [13, 10]) st) = with_flag_error (multipart_process_part_header env st1)"
    using header_content [OF st(1) _ st(4,5) size(1), of env] st(2) l(4) by auto
  have f1: "md_buf st1 = l @ [13, 10]" "length (md_buf st1) + md_bufleft st1 = MULTIPART_BUF_SIZE" "md_mpp st1 = Some new_part"
    "md_boundary st1 = Some b" "md_mpp_state st1 = 0" "md_is_complete st1 = False" "md_reserve st1 = []" "md_parts st1 = md_parts st" "mr_io st1 = mr_io st"
    "quiet_flags st st1"
    using st1(1) st size by (auto simp: with_line_def quiet_flags_def)
  define st2 where "st2 = (header_entered st1)\<lparr>md_mpp := Some p1\<rparr>"
  have "part_header_new env (disposition_line n @ [10]) (header_entered st1) = Some (1, st2)"
    unfolding st2_def p1_def using disposition_header [OF assms(2,3), of "header_entered st1" new_part] f1(3)
    by (simp add: header_entered_def new_part_def)
  moreover have "\<not> c_isspace 67" by (simp add: c_isspace_def)
  ultimately have "multipart_process_part_header env st1 = Some (1, st2)"
    using part_header_plain [OF f1(1) l(1) f1(2) l(3), of env] l(4) line by simp
  then have run1: "process_line env False (with_line ((l @ [13]) @ [10]) st) = Some (1, st2)"
    using st1(2) by (simp add: with_flag_error_def)
  define st3 where "st3 = next_line 10 st2"
  have f2: "md_is_complete st2 = False" using f1 by (simp add: st2_def header_entered_def)
  have step1: "chunk_loop env (disposition_line n @ 10 # 13 # 10 # later) st = chunk_loop env ([13] @ 10 # later) st3"
    unfolding line st3_def using feed_line [OF st(1,3) _ _ run1, of "13 # 10 # later"] size l(2) f2 by simp
  have f3: "line_start st3" "md_mpp st3 = Some p1" "md_boundary st3 = Some b" "md_mpp_state st3 = 0" "\<not> md_is_complete st3"
    "md_reserve st3 = []" "md_parts st3 = md_parts st" "mr_io st3 = mr_io st" "quiet_flags st st3"
    using f1 by (auto simp: st3_def st2_def header_entered_def line_start_def next_line_def quiet_flags_def)
  obtain st4 where st4: "st4 = with_line ([] @ [13, 10]) st3 \<or> st4 = raise_flag Flag_unmatched_boundary (with_line ([] @ [13, 10]) st3)"
    "process_line env False (with_line ([] @ [13, 10]) st3) = with_flag_error (multipart_process_part_header env st4)"
    using header_content [OF f3(1) _ f3(2,4), of "[]" env] f3(3) by (auto simp: MULTIPART_BUF_SIZE_def)
  have f4: "md_buf st4 = [13, 10]" "length (md_buf st4) + md_bufleft st4 = MULTIPART_BUF_SIZE" "md_mpp st4 = Some p1"
    "md_boundary st4 = Some b" "md_is_complete st4 = False" "md_reserve st4 = []" "md_parts st4 = md_parts st" "mr_io st4 = mr_io st"
    "quiet_flags st st4"
    using st4(1) f3 by (auto simp: with_line_def quiet_flags_def MULTIPART_BUF_SIZE_def)
  define st5 where "st5 = (header_entered st4)\<lparr>mr_multipart_name := Some n, md_mpp := Some (field_part env n), md_mpp_state := 1\<rparr>"
  have "p1\<lparr>mp_name := Some n, mp_type := MULTIPART_FORMDATA, mp_last_header_name := None\<rparr> = field_part env n"
    by (simp add: p1_def field_part_def new_part_def)
  then have "part_headers_end env (header_entered st4) = Some (1, st5)"
    using headers_end_run [OF assms(2,3), of "header_entered st4" p1] f4(3)
    by (simp add: st5_def header_entered_def p1_def new_part_def)
  then have run2: "process_line env False (with_line ([13] @ [10]) st3) = Some (1, st5)"
    using part_header_blank [OF f4(1,2)] st4(2) by (simp add: with_flag_error_def)
  have f5: "md_is_complete st5 = False" using f4 by (simp add: st5_def header_entered_def)
  let ?st' = "next_line 10 st5"
  have step2: "chunk_loop env ([13] @ 10 # later) st3 = chunk_loop env later ?st'"
    using feed_line [OF f3(1,5) _ _ run2, of later] f5 by (simp add: MULTIPART_BUF_SIZE_def)
  have "collecting ?st' (field_part env n) [] ?st'"
    unfolding collecting_def holds_value_def using f4
    by (auto simp: st5_def header_entered_def next_line_def frame_def field_part_def new_part_def line_end_def MULTIPART_BUF_SIZE_def
        intro!: exI [of _ "[]"] exI [of _ 0])
  moreover have "quiet_flags st ?st'" using f4(9) by (auto simp: quiet_flags_def st5_def header_entered_def next_line_def)
  ultimately show ?thesis
    using step1 step2 f4
    by (intro exI [of _ ?st']) (simp add: st5_def header_entered_def next_line_def)
qed

definition field_ok :: "bytes \<times> bytes \<Rightarrow> bool" where
  "field_ok f \<longleftrightarrow> field_name_ok (fst f) \<and> dash_free True (snd f @ [13, 10]) \<and> length (snd f) < 2 ^ 32"

definition boundary_ok_string :: "bytes \<Rightarrow> bool" where
  "boundary_ok_string b \<longleftrightarrow> 0 \<notin> set b \<and> 10 \<notin> set b \<and> length b \<le> 1024"

fun fields_body :: "bytes \<Rightarrow> (bytes \<times> bytes) list \<Rightarrow> bytes" where
  "fields_body b [] = []"
| "fields_body b ((n, v) # fs) =
     disposition_line n @ [10, 13, 10] @ v @ [13, 10] @ boundary_line b (fs = []) @ [10] @ fields_body b fs"

definition form_body :: "bytes \<Rightarrow> (bytes \<times> bytes) list \<Rightarrow> bytes" where
  "form_body b fs = boundary_line b (fs = []) @ [10] @ fields_body b fs"

definition field_of :: "multipart_part \<Rightarrow> bytes option \<times> bytes option" where
  "field_of p = (mp_name p, mp_value p)"

abbreviation given :: "bytes \<times> bytes \<Rightarrow> bytes option \<times> bytes option" where
  "given f \<equiv> (Some (fst f), Some (snd f))"

lemma field_run:
  assumes "at_part b st" "boundary_ok_string b" "field_ok (n, v)" "header_table_laws env"
  shows "\<exists>p st'. chunk_loop env (disposition_line n @ [10, 13, 10] @ v @ [13, 10] @ boundary_line b final @ 10 # later) st =
      (if final \<and> later \<noteq> [] then Some (1, raise_flag Flag_data_after st') else chunk_loop env later st') \<and>
    field_of p = (Some n, Some v) \<and> mp_type p = MULTIPART_FORMDATA \<and> mp_length p = of_nat (length v) \<and>
    md_parts st' = md_parts st @ [p] \<and> quiet_flags st st' \<and> mr_io st' = mr_io st \<and>
    (if final then md_is_complete st' \<and> md_mpp st' = None else at_part b st')"
proof -
  let ?body = "boundary_line b final @ 10 # later"
  have v: "field_name_ok n" "dash_free True (v @ [13, 10])" "length v < 2 ^ 32" using assms(3) by (simp_all add: field_ok_def)
  have b: "0 \<notin> set b" "10 \<notin> set b" "length b + 10 < MULTIPART_BUF_SIZE"
    using assms(2) by (auto simp: boundary_ok_string_def MULTIPART_BUF_SIZE_def)
  obtain st1 where h: "chunk_loop env (disposition_line n @ 10 # 13 # 10 # (v @ [13]) @ 10 # ?body) st = chunk_loop env ((v @ [13]) @ 10 # ?body) st1"
    "collecting st1 (field_part env n) [] st1" "md_buf st1 = []" "md_boundary st1 = Some b" "md_parts st1 = md_parts st"
    "quiet_flags st st1" "mr_io st1 = mr_io st"
    using headers_run [OF assms(1) v(1) assms(4), of "(v @ [13]) @ 10 # ?body"] by blast
  obtain st2 where d: "chunk_loop env ((v @ [13]) @ 10 # ?body) st1 = chunk_loop env ?body st2"
    "collecting st1 (field_part env n) (v @ [13, 10]) st2" "md_buf st2 = []"
    using collect_lines [OF h(2), of "v @ [13]" env ?body] v(2) h(3) by auto
  have fr: "md_boundary st2 = Some b" "md_parts st2 = md_parts st" "mr_io st2 = mr_io st"
    "md_flags st2 \<subseteq> insert Flag_unmatched_boundary (md_flags st1)"
    using d(2) h by (auto simp: collecting_def holds_value_def frame_def)
  have "mp_name (field_part env n) \<noteq> None" by (simp add: field_part_def)
  then obtain p st3 where e: "chunk_loop env ?body st2 =
      (if final \<and> later \<noteq> [] then Some (1, raise_flag Flag_data_after st3) else chunk_loop env later st3)"
    "finished (field_part env n) v p" "md_parts st3 = md_parts st2 @ [p]" "md_boundary st3 = Some b" "line_start st3"
    "md_is_complete st3 = final" "md_mpp st3 = (if final then None else Some new_part)"
    "\<not> final \<longrightarrow> md_mpp_state st3 = 0 \<and> md_reserve st3 = []" "md_flags st3 = insert Flag_crlf_line (md_flags st2)" "mr_io st3 = mr_io st2"
    using value_then_boundary [OF d(2,3) fr(1) b v(3), of env final later] by blast
  have "quiet_flags st st3" using e(9) fr(4) h(6) by (auto simp: quiet_flags_def)
  moreover have "field_of p = (Some n, Some v)" "mp_type p = MULTIPART_FORMDATA" "mp_length p = of_nat (length v)"
    using e(2) by (simp_all add: finished_def field_of_def field_part_def)
  moreover have "if final then md_is_complete st3 \<and> md_mpp st3 = None else at_part b st3"
    using e(4-8) by (simp add: at_part_def)
  ultimately show ?thesis
    using h(1) d(1) e(1,3,10) fr(2,3) by (intro exI [of _ p] exI [of _ st3]) simp
qed

lemma quiet_trans: "quiet_flags s t \<Longrightarrow> quiet_flags t u \<Longrightarrow> quiet_flags s u"
  by (auto simp: quiet_flags_def)

lemma fields_run:
  assumes "at_part b st" "boundary_ok_string b" "list_all field_ok fs" "header_table_laws env" "fs \<noteq> []"
  shows "\<exists>ps st'. chunk_loop env (fields_body b fs) st = Some (1, st') \<and>
    md_parts st' = md_parts st @ ps \<and> map field_of ps = map given fs \<and> list_all (\<lambda>p. mp_type p = MULTIPART_FORMDATA) ps \<and>
    md_is_complete st' \<and> md_mpp st' = None \<and> quiet_flags st st' \<and> mr_io st' = mr_io st"
  using assms
proof (induction b fs arbitrary: st rule: fields_body.induct)
  case (1 b)
  then show ?case by simp
next
  case (2 b n v fs)
  have ok: "field_ok (n, v)" "list_all field_ok fs" using "2.prems"(3) by simp_all
  obtain p st1 where one: "chunk_loop env (fields_body b ((n, v) # fs)) st =
      (if fs = [] \<and> fields_body b fs \<noteq> [] then Some (1, raise_flag Flag_data_after st1) else chunk_loop env (fields_body b fs) st1)"
    "field_of p = (Some n, Some v)" "mp_type p = MULTIPART_FORMDATA" "md_parts st1 = md_parts st @ [p]" "quiet_flags st st1"
    "mr_io st1 = mr_io st" "if fs = [] then md_is_complete st1 \<and> md_mpp st1 = None else at_part b st1"
    using field_run [OF "2.prems"(1,2) ok(1) "2.prems"(4), of "fs = []" "fields_body b fs"] by auto
  show ?case
  proof (cases "fs = []")
    case True
    then show ?thesis using one by (intro exI [of _ "[p]"] exI [of _ st1]) simp
  next
    case False
    obtain ps st2 where rest: "chunk_loop env (fields_body b fs) st1 = Some (1, st2)" "md_parts st2 = md_parts st1 @ ps"
      "map field_of ps = map given fs" "list_all (\<lambda>p. mp_type p = MULTIPART_FORMDATA) ps" "md_is_complete st2" "md_mpp st2 = None"
      "quiet_flags st1 st2" "mr_io st2 = mr_io st1"
      using "2.IH" [of st1] "2.prems"(2,4) ok(2) False one(7) by auto
    then show ?thesis
      using one False quiet_trans by (intro exI [of _ "p # ps"] exI [of _ st2]) auto
  qed
qed

text \<open>A parser that is ready for the first boundary, as \<open>multipart_init\<close> leaves it.\<close>

definition ready :: "bytes \<Rightarrow> mp_state \<Rightarrow> bool" where
  "ready b st \<longleftrightarrow> line_start st \<and> md_boundary st = Some b \<and> \<not> md_is_complete st \<and> md_mpp st = None"

lemma first_boundary:
  assumes "ready b st" "boundary_ok_string b"
  shows "\<exists>st'. chunk_loop env (boundary_line b final @ 10 # later) st =
      (if final \<and> later \<noteq> [] then Some (1, raise_flag Flag_data_after st') else chunk_loop env later st') \<and>
    md_parts st' = md_parts st \<and> quiet_flags st st' \<and> mr_io st' = mr_io st \<and>
    (if final then md_is_complete st' \<and> md_mpp st' = None else at_part b st')"
proof -
  have b: "0 \<notin> set b" "10 \<notin> set b" "length b + 10 < MULTIPART_BUF_SIZE"
    using assms(2) by (auto simp: boundary_ok_string_def MULTIPART_BUF_SIZE_def)
  let ?st = "with_line (boundary_line b final @ [10]) st"
  define st1 where "st1 = raise_flag Flag_crlf_line ?st"
  define st2 where "st2 = (if final then st1 else st1\<lparr>md_mpp := Some new_part, md_mpp_state := 0, md_reserve := []\<rparr>)"
  have st: "line_start st" "md_boundary st = Some b" "\<not> md_is_complete st" "md_mpp st = None" using assms(1) by (simp_all add: ready_def)
  have pb: "multipart_process_boundary final (raise_flag Flag_crlf_line ?st) = Some (1, st2)"
    using st(4) by (simp add: multipart_process_boundary_def st2_def st1_def with_line_def)
  have line: "process_line env False ?st = Some (1, st2\<lparr>md_is_complete := md_is_complete st2 \<or> final, md_boundary_count := md_boundary_count st2 + 1\<rparr>)"
    using st b pb by (intro boundary_line_run) (simp_all add: with_line_def line_start_def)
  let ?st3 = "st2\<lparr>md_is_complete := md_is_complete st2 \<or> final, md_boundary_count := md_boundary_count st2 + 1\<rparr>"
  have compl: "md_is_complete ?st3 = final" using st(3) by (simp add: st2_def st1_def with_line_def)
  have run: "chunk_loop env (boundary_line b final @ 10 # later) st =
      (if md_is_complete ?st3 \<and> later \<noteq> [] then Some (1, raise_flag Flag_data_after (next_line 10 ?st3))
       else chunk_loop env later (next_line 10 ?st3))"
    using line b by (intro feed_line [OF st(1,3)]) (auto simp: boundary_line_def)
  show ?thesis
    using run compl st
    by (intro exI [of _ "next_line 10 ?st3"])
      (auto simp: st2_def st1_def with_line_def next_line_def line_start_def at_part_def quiet_flags_def)
qed

lemma form_body_run:
  assumes "ready b st" "boundary_ok_string b" "list_all field_ok fs" "header_table_laws env"
  shows "\<exists>ps st'. chunk_loop env (form_body b fs) st = Some (1, st') \<and>
    md_parts st' = md_parts st @ ps \<and> map field_of ps = map given fs \<and> list_all (\<lambda>p. mp_type p = MULTIPART_FORMDATA) ps \<and>
    md_is_complete st' \<and> md_mpp st' = None \<and> quiet_flags st st' \<and> mr_io st' = mr_io st"
proof -
  obtain st1 where first: "chunk_loop env (form_body b fs) st =
      (if fs = [] \<and> fields_body b fs \<noteq> [] then Some (1, raise_flag Flag_data_after st1) else chunk_loop env (fields_body b fs) st1)"
    "md_parts st1 = md_parts st" "quiet_flags st st1" "mr_io st1 = mr_io st"
    "if fs = [] then md_is_complete st1 \<and> md_mpp st1 = None else at_part b st1"
    using first_boundary [OF assms(1,2), of env "fs = []" "fields_body b fs"] by (auto simp: form_body_def)
  show ?thesis
  proof (cases "fs = []")
    case True
    then show ?thesis using first by (intro exI [of _ "[]"] exI [of _ st1]) simp
  next
    case False
    then obtain ps st2 where "chunk_loop env (fields_body b fs) st1 = Some (1, st2)" "md_parts st2 = md_parts st1 @ ps"
      "map field_of ps = map given fs" "list_all (\<lambda>p. mp_type p = MULTIPART_FORMDATA) ps" "md_is_complete st2" "md_mpp st2 = None"
      "quiet_flags st1 st2" "mr_io st2 = mr_io st1"
      using fields_run [of b st1 fs env] assms first(5) by auto
    then show ?thesis using first False quiet_trans by (intro exI [of _ ps] exI [of _ st2]) auto
  qed
qed

end
