(* ===== verification/Multipart.thy ===== *)
theory Multipart
  imports MultipartValues
begin

text \<open>
  The start and the end of multipart parsing (\<^verbatim>\<open>apache2/msc_multipart.c\<close>): \<open>multipart_init\<close>, which takes the boundary
  from the Content-Type header, \<open>multipart_get_arguments\<close>, \<open>multipart_reconstruct_urlencoded_body_sanitize\<close> and
  \<open>multipart_cleanup\<close>; and the properties of the whole parser.
\<close>

section \<open>The boundary\<close>

definition boundary_char_ok :: "byte \<Rightarrow> bool" where
  "boundary_char_ok c \<longleftrightarrow>
     \<not> c < 32 \<and> \<not> c > 126 \<and> c \<notin> set [40, 41, 60, 62, 64, 44, 59, 58, 92, 34, 47, 91, 93, 63, 61]"

definition multipart_boundary_characters_valid :: "bytes option \<Rightarrow> int" where
  "multipart_boundary_characters_valid boundary =
     (case boundary of
        None \<Rightarrow> -1
      | Some p \<Rightarrow>
          if list_all boundary_char_ok p then 1 else 0)"

lemma strstr_at_length: "strstr_at n s = Some i \<Longrightarrow> i + length n \<le> length s"
proof (induction s arbitrary: i)
  case Nil
  then show ?case by (simp split: if_splits)
next
  case (Cons c cs)
  show ?case
  proof (cases "take (length n) (c # cs) = n")
    case True
    then have "length n \<le> length (c # cs)" by (metis length_take min.cobounded1)
    then show ?thesis using Cons.prems True by simp
  next
    case False
    then show ?thesis using Cons by auto
  qed
qed

function count_params :: "bytes \<Rightarrow> nat" where
  "count_params s =
     (case strstr_at (ascii ''boundary'') s of
        None \<Rightarrow> 0
      | Some i \<Rightarrow>
          let s = drop (i + 8) s in
          (if 61 \<in> set s then 1 else 0) + count_params s)"
  by pat_completeness auto
termination
  by (relation "measure length") (auto dest: strstr_at_length simp: ascii_def)

declare count_params.simps [simp del]

definition multipart_count_boundary_params :: "bytes option \<Rightarrow> int" where
  "multipart_count_boundary_params header_value =
     (case header_value of None \<Rightarrow> -1 | Some s \<Rightarrow> int (count_params (map c_tolower s)))"

text \<open>The loop over what stands between the MIME type and the boundary: one semicolon is accepted. The result is
  \<^term>\<open>None\<close> for an error, or whether the semicolon was seen.\<close>

fun before_boundary :: "bool \<Rightarrow> bytes \<Rightarrow> bool option" where
  "before_boundary seen [] = Some seen"
| "before_boundary seen (c # cs) =
     (if c_isspace c then before_boundary seen cs
      else if \<not> seen \<and> c = 59 then before_boundary True cs
      else None)"

text \<open>What \<^verbatim>\<open>apr_pcalloc\<close> and the assignments at the start of \<open>multipart_init\<close> leave.\<close>

definition fresh_mpd :: "mp_state \<Rightarrow> mp_state" where
  "fresh_mpd st =
     st\<lparr>md_parts := [], md_nfiles := 0, md_boundary := None, md_boundary_count := 0, md_buf := [],
        md_buf_contains_line := True, md_bufleft := MULTIPART_BUF_SIZE, md_buf_offset := 0, md_mpp := None,
        md_mpp_state := 0, md_reserve := [], md_seen_data := False, md_is_complete := False, md_flags := {},
        mr_error_msg := None\<rparr>"

definition init_error :: "mp_error \<Rightarrow> mp_state \<Rightarrow> int \<times> mp_state" where
  "init_error e st = (-1, set_error e (raise_flag Flag_error st))"

text \<open>From the value of the boundary parameter on.\<close>

definition init_boundary_value :: "bytes \<Rightarrow> mp_state \<Rightarrow> int \<times> mp_state" where
  "init_boundary_value b st =
     (let len = length b;
          st = (if b \<noteq> [] \<and> c_isspace (hd b) then raise_flag Flag_boundary_whitespace st else st);
          quoted = (len \<ge> 2 \<and> hd b = 34 \<and> List.last b = 34)
      in
      if \<not> quoted \<and> (b \<noteq> [] \<and> hd b = 34 \<or> len \<ge> 2 \<and> List.last b = 34) then init_error Boundary_quote st
      else
        let boundary = (if quoted then take (len - 2) (tl b) else b);
            st = st\<lparr>md_boundary := Some boundary\<rparr>;
            st = (if quoted then raise_flag Flag_boundary_quoted st else st)
        in
        if multipart_count_boundary_params (Some boundary) \<noteq> 0 then init_error Boundary_content st
        else if multipart_boundary_characters_valid (Some boundary) \<noteq> 1 then init_error Boundary_characters st
        else if boundary = [] then init_error Boundary_empty st
        else (1, st))"

definition multipart_init :: "bytes option \<Rightarrow> mp_state \<Rightarrow> int \<times> mp_state" where
  "multipart_init request_content_type st =
     (let st = fresh_mpd st in
      case request_content_type of
        None \<Rightarrow> init_error Content_type_missing st
      | Some ct \<Rightarrow>
          if length ct > 1024 then init_error Boundary_length st
          else if \<not> ci_equal (take 19 ct) (ascii ''multipart/form-data'') then init_error Invalid_mime_type st
          else if multipart_count_boundary_params (Some ct) > 1 then init_error Multiple_boundaries st
          else
            case strstr_at (ascii ''boundary'') ct of
              None \<Rightarrow>
                if multipart_count_boundary_params (Some ct) > 0 then init_error Boundary_case st
                else init_error Boundary_not_found st
            | Some i \<Rightarrow>
                let st = st\<lparr>md_boundary := Some (drop i ct)\<rparr>; rest = drop (i + 8) ct in
                case before_boundary False (drop 19 (take i ct)) of
                  None \<Rightarrow> init_error Boundary_malformed st
                | Some seen_semicolon \<Rightarrow>
                    let st = (if \<not> seen_semicolon then raise_flag Flag_missing_semicolon st else st) in
                    if 61 \<notin> set rest then init_error Boundary_malformed st
                    else
                      let between = takeWhile (\<lambda>c. c \<noteq> 61) rest;
                          st = (if takeWhile c_isspace between \<noteq> [] then raise_flag Flag_boundary_whitespace st else st)
                      in
                      if list_ex (\<lambda>c. \<not> c_isspace c) between then init_error Boundary_parameter_name st
                      else init_boundary_value (tl (dropWhile (\<lambda>c. c \<noteq> 61) rest)) st)"

section \<open>Arguments\<close>

text \<open>\<^verbatim>\<open>strlen\<close> of a part's name that is NULL is undefined.\<close>

fun multipart_get_arguments ::
  "(nat \<Rightarrow> byte) \<Rightarrow> bytes \<Rightarrow> multipart_part list \<Rightarrow> (bytes \<times> msc_arg) list \<Rightarrow> (int \<times> (bytes \<times> msc_arg) list) option"
where
  "multipart_get_arguments junk origin [] arguments = Some (1, arguments)"
| "multipart_get_arguments junk origin (p # parts) arguments =
     (if mp_type p = MULTIPART_FORMDATA then do {
        name \<leftarrow> mp_name p;
        val \<leftarrow> mp_value p;
        arguments \<leftarrow> add_argument junk arguments
          ((fresh_arg origin)\<lparr>arg_name := name, arg_name_len := length name, arg_value := val,
             arg_value_len := unat (mp_length p), arg_value_origin_offset := unat (mp_offset p),
             arg_value_origin_len := unat (mp_length p)\<rparr>);
        multipart_get_arguments junk origin parts arguments }
      else multipart_get_arguments junk origin parts arguments)"

section \<open>Cleaning up\<close>

text \<open>The settings \<open>multipart_cleanup\<close> reads, and whether a file can be renamed; the outcome of \<^verbatim>\<open>unlink\<close> is only logged.\<close>

record cleanup_env =
  ce_upload_remove_files :: bool
  ce_upload_dir :: "bytes option"
  ce_tmp_dir :: bytes
  ce_rename :: "io_event list \<Rightarrow> bytes \<Rightarrow> bytes \<Rightarrow> bool"

definition close_part :: "multipart_part \<Rightarrow> io_event list \<Rightarrow> multipart_part \<times> io_event list" where
  "close_part p io =
     (if mp_tmp_file_fd p > 0 then (p\<lparr>mp_tmp_file_fd := -1\<rparr>, io @ [Closed (mp_tmp_file_fd p)]) else (p, io))"

definition delete_part :: "multipart_part \<Rightarrow> io_event list \<Rightarrow> multipart_part \<times> io_event list" where
  "delete_part p io =
     (case mp_tmp_file_name p of
        None \<Rightarrow> (p, io)
      | Some name \<Rightarrow> let (p, io) = close_part p io in (p, io @ [Unlinked name]))"

text \<open>Moving a file to the upload directory: the flag tells whether it failed.\<close>

definition move_part :: "cleanup_env \<Rightarrow> bytes \<Rightarrow> multipart_part \<Rightarrow> io_event list \<Rightarrow> (bool \<times> multipart_part \<times> io_event list) option" where
  "move_part env upload_dir p io =
     (case mp_tmp_file_name p of
        None \<Rightarrow> Some (False, p, io)
      | Some name \<Rightarrow>
          if upload_dir = ce_tmp_dir env then Some (False, p, io)
          else do {
            let (p, io) = close_part p io;
            new_basename \<leftarrow> file_basename (Some (name @ [0]));
            case new_basename of
              None \<Rightarrow> Some (True, p, io)
            | Some bn \<Rightarrow>
                let new_filename = upload_dir @ [47] @ bn in
                if ce_rename env io name new_filename then Some (False, p, io @ [Renamed name new_filename])
                else Some (True, p, io) })"

fun cleanup_delete :: "multipart_part list \<Rightarrow> io_event list \<Rightarrow> multipart_part list \<times> io_event list" where
  "cleanup_delete [] io = ([], io)"
| "cleanup_delete (p # parts) io =
     (let (p, io) = (if mp_type p = MULTIPART_FILE then delete_part p io else (p, io));
          (parts, io) = cleanup_delete parts io
      in (p # parts, io))"

fun cleanup_keep ::
  "cleanup_env \<Rightarrow> bytes \<Rightarrow> multipart_part list \<Rightarrow> io_event list \<Rightarrow> (int \<times> multipart_part list \<times> io_event list) option"
where
  "cleanup_keep env upload_dir [] io = Some (1, [], io)"
| "cleanup_keep env upload_dir (p # parts) io =
     (if mp_type p = MULTIPART_FILE \<and> mp_tmp_file_size p = 0 then
        let (p, io) = delete_part p io in do {
          (rc, parts, io) \<leftarrow> cleanup_keep env upload_dir parts io;
          Some (rc, p # parts, io) }
      else do {
        (failed, p, io) \<leftarrow> move_part env upload_dir p io;
        if failed then Some (-1, p # parts, io)
        else do {
          (rc, parts, io) \<leftarrow> cleanup_keep env upload_dir parts io;
          Some (rc, p # parts, io) } })"

definition multipart_cleanup :: "cleanup_env \<Rightarrow> mp_state option \<Rightarrow> (int \<times> mp_state option) option" where
  "multipart_cleanup env mpd =
     (case mpd of
        None \<Rightarrow> Some (-1, None)
      | Some st \<Rightarrow>
          (case (if \<not> ce_upload_remove_files env then ce_upload_dir env else None) of
             None \<Rightarrow>
               let (parts, io) = cleanup_delete (md_parts st) (mr_io st) in
               Some (1, Some (st\<lparr>md_parts := parts, mr_io := io\<rparr>))
           | Some upload_dir \<Rightarrow> do {
               (rc, parts, io) \<leftarrow> cleanup_keep env upload_dir (md_parts st) (mr_io st);
               Some (rc, Some (st\<lparr>md_parts := parts, mr_io := io\<rparr>)) }))"

section \<open>The body for the log\<close>

text \<open>\<^verbatim>\<open>strncat\<close> of a one-byte string.\<close>

definition strncat_byte :: "bytes \<Rightarrow> byte \<Rightarrow> nat \<Rightarrow> bytes option" where
  "strncat_byte dst c n = do {
     s \<leftarrow> c_str dst;
     if n = 0 then Some dst
     else do { dst \<leftarrow> wr dst (length s) c; wr dst (length s + 1) 0 } }"

fun sanitize_size :: "multipart_part list \<Rightarrow> nat option" where
  "sanitize_size [] = Some 1"
| "sanitize_size (p # parts) = do {
     n \<leftarrow> sanitize_size parts;
     if mp_type p = MULTIPART_FORMDATA then do {
       name \<leftarrow> mp_name p;
       val \<leftarrow> Option.bind (mp_value p) (\<lambda>v. c_str (v @ [0]));
       Some ((n + 4 + length name * 3 + length val * 3) mod 2 ^ 32) }
     else Some n }"

text \<open>One turn of the loop; \<open>masked\<close> tells which names the log must not show. The value itself is overwritten.\<close>

definition sanitize_part :: "(bytes \<Rightarrow> bool) \<Rightarrow> nat \<Rightarrow> multipart_part \<Rightarrow> bytes \<Rightarrow> (multipart_part \<times> bytes) option" where
  "sanitize_part masked body_len p body =
     (if mp_type p = MULTIPART_FORMDATA then do {
        name \<leftarrow> mp_name p;
        v \<leftarrow> mp_value p;
        val \<leftarrow> c_str (v @ [0]);
        s \<leftarrow> c_str body;
        body \<leftarrow> (if s \<noteq> [] then strncat_byte body 38 (body_len - length s) else Some body);
        s \<leftarrow> c_str body;
        body \<leftarrow> strnurlencat body (name @ [0]) (body_len - length s);
        s \<leftarrow> c_str body;
        body \<leftarrow> strncat_byte body 61 (body_len - length s);
        let v = (if masked name then replicate (length val) 42 @ drop (length val) v else v);
        s \<leftarrow> c_str body;
        body \<leftarrow> strnurlencat body (v @ [0]) (body_len - length s);
        Some (p\<lparr>mp_value := Some v\<rparr>, body) }
      else Some (p, body))"

fun sanitize_parts :: "(bytes \<Rightarrow> bool) \<Rightarrow> nat \<Rightarrow> multipart_part list \<Rightarrow> bytes \<Rightarrow> (multipart_part list \<times> bytes) option" where
  "sanitize_parts masked body_len [] body = Some ([], body)"
| "sanitize_parts masked body_len (p # parts) body = do {
     (p, body) \<leftarrow> sanitize_part masked body_len p body;
     (parts, body) \<leftarrow> sanitize_parts masked body_len parts body;
     Some (p # parts, body) }"

definition multipart_reconstruct_urlencoded_body_sanitize ::
  "(nat \<Rightarrow> byte) \<Rightarrow> (bytes \<Rightarrow> bool) \<Rightarrow> mp_state option \<Rightarrow> (bytes option \<times> mp_state option) option"
where
  "multipart_reconstruct_urlencoded_body_sanitize junk masked mpd =
     (case mpd of
        None \<Rightarrow> Some (None, None)
      | Some st \<Rightarrow> do {
          body_len \<leftarrow> sanitize_size (md_parts st);
          if (body_len + 1) mod 2 ^ 32 = 0 then Some (None, Some st)
          else do {
            body \<leftarrow> wr (apr_palloc junk (body_len + 1)) 0 0;
            (parts, body) \<leftarrow> sanitize_parts masked body_len (md_parts st) body;
            Some (Some body, Some (st\<lparr>md_parts := parts\<rparr>)) } })"

section \<open>What \<open>multipart_init\<close> accepts\<close>

lemma characters_valid:
  assumes "multipart_boundary_characters_valid (Some b) = 1"
  shows "0 \<notin> set b" "10 \<notin> set b" "61 \<notin> set b" "34 \<notin> set b"
proof -
  have ok: "list_all boundary_char_ok b"
    using assms by (simp add: multipart_boundary_characters_valid_def split: if_splits)
  have "\<not> boundary_char_ok 0" "\<not> boundary_char_ok 10" "\<not> boundary_char_ok 61" "\<not> boundary_char_ok 34"
    by (simp_all add: boundary_char_ok_def)
  then show "0 \<notin> set b" "10 \<notin> set b" "61 \<notin> set b" "34 \<notin> set b" using ok unfolding list_all_iff by blast+
qed

definition starting :: "mp_state \<Rightarrow> bool" where
  "starting st \<longleftrightarrow> line_start st \<and> \<not> md_is_complete st \<and> md_mpp st = None \<and> md_reserve st = [] \<and> md_parts st = [] \<and>
     \<not> md_seen_data st \<and> md_nfiles st = 0"

lemma starting_raise [simp]: "starting (raise_flag f st) = starting st"
  by (simp add: starting_def line_start_def)

lemma starting_boundary [simp]: "starting (st\<lparr>md_boundary := b\<rparr>) = starting st"
  by (simp add: starting_def line_start_def)

lemma starting_fresh [simp]: "starting (fresh_mpd st)"
  by (simp add: starting_def line_start_def fresh_mpd_def)

lemma init_error_rc [simp]: "fst (init_error e st) \<noteq> 1" "init_error e st \<noteq> (1, st')"
  by (simp_all add: init_error_def)

lemma init_boundary_value_ok:
  assumes "init_boundary_value v st = (1, st')" "starting st" "length v \<le> 1024"
  shows "\<exists>b. starting st' \<and> md_boundary st' = Some b \<and> multipart_boundary_characters_valid (Some b) = 1 \<and> b \<noteq> [] \<and> length b \<le> 1024"
  using assms by (auto simp: init_boundary_value_def Let_def split: if_splits)

lemma init_ok:
  assumes "multipart_init ct st = (1, st')"
  shows "\<exists>b. starting st' \<and> md_boundary st' = Some b \<and> multipart_boundary_characters_valid (Some b) = 1 \<and> b \<noteq> [] \<and> length b \<le> 1024"
proof -
  obtain c where c: "ct = Some c" using assms by (cases ct) (auto simp: multipart_init_def Let_def)
  obtain i where i: "strstr_at (ascii ''boundary'') c = Some i" "length c \<le> 1024"
    using assms c by (auto simp: multipart_init_def Let_def split: if_splits option.splits)
  define v where "v = tl (dropWhile (\<lambda>c. c \<noteq> 61) (drop (i + 8) c))"
  have "length v \<le> 1024"
    using i(2) length_dropWhile_le [of "\<lambda>c. c \<noteq> 61" "drop (i + 8) c"] by (simp add: v_def)
  moreover obtain st1 where "init_boundary_value v st1 = (1, st')" "starting st1"
    using assms c i by (auto simp: multipart_init_def Let_def v_def [symmetric] split: if_splits option.splits)
  ultimately show ?thesis using init_boundary_value_ok by blast
qed

lemma starting_inv:
  assumes "starting st" "md_boundary st = Some b"
  shows "mp_inv b False st" "ready b st"
  using assms by (simp_all add: starting_def mp_inv_def core_inv_def mpp_ok_def line_start_def ready_def MULTIPART_BUF_SIZE_def)

lemma count_params_plain: "61 \<notin> set s \<Longrightarrow> count_params s = 0"
proof (induction s rule: count_params.induct)
  case (1 s)
  show ?case
  proof (cases "strstr_at (ascii ''boundary'') s")
    case None
    then show ?thesis by (simp add: count_params.simps)
  next
    case (Some i)
    have "61 \<notin> set (drop (i + 8) s)" using "1.prems" by (meson in_set_dropD)
    then show ?thesis using "1.IH" [OF Some refl] Some by (simp add: count_params.simps [of s])
  qed
qed

lemma tolower_plain: "61 \<notin> set s \<Longrightarrow> 61 \<notin> set (map c_tolower s)"
proof -
  have "c = 61" if "c_tolower c = 61" for c
  proof (cases "c_isupper c")
    case True
    then have "c + 32 = 61" using that by (simp add: c_tolower_def)
    then have "c = 61 - 32" by (metis add_diff_cancel_right')
    then show ?thesis using True by (simp add: c_isupper_def)
  next
    case False
    then show ?thesis using that by (simp add: c_tolower_def)
  qed
  then show "61 \<notin> set s \<Longrightarrow> 61 \<notin> set (map c_tolower s)" by (metis imageE set_map)
qed

definition form_type :: "bytes \<Rightarrow> bytes" where
  "form_type b = ascii ''multipart/form-data; boundary='' @ b"

lemma init_form_type:
  assumes "multipart_boundary_characters_valid (Some b) = 1" "b \<noteq> []" "length b \<le> 900" "\<not> c_isspace (hd b)"
  shows "\<exists>st'. multipart_init (Some (form_type b)) st = (1, st') \<and> starting st' \<and> md_boundary st' = Some b \<and> md_flags st' = {} \<and>
    mr_io st' = mr_io st"
proof -
  have at: "strstr_at (ascii ''boundary'') (form_type b) = Some 21"
    by (simp add: form_type_def ascii_def)
  have at_low: "strstr_at (ascii ''boundary'') (map c_tolower (form_type b)) = Some 21"
    by (simp add: form_type_def ascii_def c_tolower_def c_isupper_def)
  note b = characters_valid [OF assms(1)]
  have drop: "drop 29 (form_type b) = 61 # b" by (simp add: form_type_def ascii_def)
  have low: "drop 29 (map c_tolower (form_type b)) = 61 # map c_tolower b"
    by (simp add: form_type_def ascii_def c_tolower_def c_isupper_def)
  have "count_params (61 # map c_tolower b) = 0"
  proof (cases "strstr_at (ascii ''boundary'') (61 # map c_tolower b)")
    case None
    then show ?thesis by (simp add: count_params.simps)
  next
    case (Some i)
    then have "0 < i" by (cases i) (auto simp: ascii_def split: if_splits)
    then have "61 \<notin> set (drop (i + 8) (61 # map c_tolower b))"
      using tolower_plain [OF b(3)] by (auto dest: in_set_dropD simp: drop_Cons')
    then show ?thesis using Some count_params_plain by (simp add: count_params.simps [of "61 # map c_tolower b"] Let_def)
  qed
  then have count: "multipart_count_boundary_params (Some (form_type b)) = 1"
    using at_low low by (simp add: multipart_count_boundary_params_def count_params.simps [of "map c_tolower (form_type b)"])
  have count_b: "multipart_count_boundary_params (Some b) = 0"
    using count_params_plain [OF tolower_plain [OF b(3)]] by (simp add: multipart_count_boundary_params_def)
  have mime: "ci_equal (take 19 (form_type b)) (ascii ''multipart/form-data'')" "length (form_type b) \<le> 1024"
    "before_boundary False (drop 19 (take 21 (form_type b))) = Some True"
    using assms(3) by (simp_all add: form_type_def ascii_def ci_equal_def c_isspace_def)
  have "hd b \<noteq> 34" "List.last b \<noteq> 34" using b(4) assms(2) by (auto dest: last_in_set hd_in_set)
  then have "init_boundary_value b st1 = (1, st1\<lparr>md_boundary := Some b\<rparr>)" for st1
    using assms count_b by (simp add: init_boundary_value_def Let_def)
  then have "multipart_init (Some (form_type b)) st = (1, (fresh_mpd st)\<lparr>md_boundary := Some b\<rparr>)"
    using count mime at drop by (simp add: multipart_init_def Let_def)
  then show ?thesis by (intro exI conjI, assumption) (simp_all add: fresh_mpd_def starting_def line_start_def)
qed

section \<open>Feeding the body\<close>

text \<open>The request body arrives in chunks; after an error no further chunk is passed on.\<close>

fun feed :: "mp_env \<Rightarrow> bytes list \<Rightarrow> mp_state \<Rightarrow> mp_result" where
  "feed env [] st = Some (1, st)"
| "feed env (c # cs) st = do {
     (rc, st) \<leftarrow> multipart_process_chunk env c st;
     if rc < 0 then Some (rc, st) else feed env cs st }"

lemma feed_ok: "mp_inv b sd st \<Longrightarrow> ok_with (\<lambda>st. \<exists>sd. mp_inv b sd st) (feed env cs st)"
proof (induction cs arbitrary: st sd)
  case Nil
  then show ?case by auto
next
  case (Cons c cs)
  obtain rc st1 where one: "multipart_process_chunk env c st = Some (rc, st1)"
    "rc = 1 \<and> mp_inv b (sd \<or> c \<noteq> []) st1 \<or> rc = -1 \<and> reported st1"
    using process_chunk_ok [OF Cons.prems, of c env] by (auto simp: ok_with_def)
  show ?case
  proof (cases "rc = 1")
    case True
    then show ?thesis using one Cons.IH by auto
  next
    case False
    then show ?thesis using one by (auto simp: ok_with_def)
  qed
qed

lemma cleanup_delete_events:
  "\<exists>new. snd (cleanup_delete parts io) = io @ new \<and>
     {f. Unlinked f \<in> set new} = {f. \<exists>p\<in>set parts. mp_type p = MULTIPART_FILE \<and> mp_tmp_file_name p = Some f}"
proof (induction parts arbitrary: io)
  case Nil
  then show ?case by simp
next
  case (Cons p parts)
  obtain p1 io1 where one: "(if mp_type p = MULTIPART_FILE then delete_part p io else (p, io)) = (p1, io1)" by fastforce
  have "\<exists>new1. io1 = io @ new1 \<and> {f. Unlinked f \<in> set new1} = {f. mp_type p = MULTIPART_FILE \<and> mp_tmp_file_name p = Some f}"
    using one by (auto simp: delete_part_def close_part_def split: if_splits option.splits)
  then obtain new1 where new1: "io1 = io @ new1" "{f. Unlinked f \<in> set new1} = {f. mp_type p = MULTIPART_FILE \<and> mp_tmp_file_name p = Some f}"
    by blast
  obtain new2 where new2: "snd (cleanup_delete parts io1) = io1 @ new2"
    "{f. Unlinked f \<in> set new2} = {f. \<exists>p\<in>set parts. mp_type p = MULTIPART_FILE \<and> mp_tmp_file_name p = Some f}"
    using Cons.IH by blast
  have "snd (cleanup_delete (p # parts) io) = snd (cleanup_delete parts io1)"
    using one by (simp add: case_prod_beta)
  then show ?case
    using new1 new2 by (intro exI [of _ "new1 @ new2"]) auto
qed

lemma get_arguments_run:
  assumes "map field_of ps = map given fs" "list_all (\<lambda>p. mp_type p = MULTIPART_FORMDATA) ps"
  shows "\<exists>new. multipart_get_arguments junk origin ps args = Some (1, args @ new) \<and> map (arg_pair \<circ> snd) new = fs"
  using assms
proof (induction ps arbitrary: fs args)
  case Nil
  then show ?case by simp
next
  case (Cons p ps)
  obtain f fs' where f: "fs = f # fs'" "field_of p = given f" "map field_of ps = map given fs'"
    using Cons.prems(1) by (cases fs) auto
  obtain n v where "f = (n, v)" by (cases f)
  then have fs: "fs = (n, v) # fs'" "mp_name p = Some n" "mp_value p = Some v" "map field_of ps = map given fs'"
    using f by (simp_all add: field_of_def)
  define a where "a = (fresh_arg origin)\<lparr>arg_name := n, arg_name_len := length n, arg_value := v,
             arg_value_len := unat (mp_length p), arg_value_origin_offset := unat (mp_offset p),
             arg_value_origin_len := unat (mp_length p)\<rparr>"
  have pair: "arg_pair a = (n, v)" by (simp add: a_def)
  have add: "add_argument junk args a = Some (args @ [(arg_key a, a)])" by (rule add_argument_run) (simp add: a_def)
  obtain new where rest: "multipart_get_arguments junk origin ps (args @ [(arg_key a, a)]) = Some (1, (args @ [(arg_key a, a)]) @ new)"
    "map (arg_pair \<circ> snd) new = fs'"
    using Cons.IH [OF fs(4)] Cons.prems(2) by fastforce
  have "multipart_get_arguments junk origin (p # ps) args = multipart_get_arguments junk origin ps (args @ [(arg_key a, a)])"
    using add fs(2,3) Cons.prems(2) by (simp add: a_def [symmetric])
  then show ?case using rest fs(1) pair
    by (intro exI [of _ "(arg_key a, a) # new"]) (simp add: comp_def del: multipart_get_arguments.simps)
qed

lemma boundary_string: "multipart_boundary_characters_valid (Some b) = 1 \<Longrightarrow> length b \<le> 1024 \<Longrightarrow> boundary_ok_string b"
  using characters_valid [of b] by (simp add: boundary_ok_string_def)

lemma round_trip_run:
  assumes "multipart_boundary_characters_valid (Some b) = 1" "b \<noteq> []" "length b \<le> 900" "\<not> c_isspace (hd b)"
    "list_all field_ok fs" "header_table_laws env"
  shows "\<exists>st1 st2 args.
    multipart_init (Some (form_type b)) st = (1, st1) \<and>
    multipart_process_chunk env (form_body b fs) st1 = Some (1, st2) \<and>
    multipart_complete (Some st2) = Some (1, Some st2) \<and>
    multipart_get_arguments junk origin (md_parts st2) [] = Some (1, args) \<and> map (arg_pair \<circ> snd) args = fs \<and>
    md_flags st2 \<subseteq> {Flag_crlf_line, Flag_unmatched_boundary} \<and> mr_io st2 = mr_io st"
proof -
  obtain st1 where st1: "multipart_init (Some (form_type b)) st = (1, st1)" "starting st1" "md_boundary st1 = Some b"
    "md_flags st1 = {}" "mr_io st1 = mr_io st"
    using init_form_type [OF assms(1-4)] by blast
  let ?st = "st1\<lparr>mr_error_msg := None, md_seen_data := True\<rparr>"
  have ready: "ready b ?st" using st1(2,3) by (simp add: starting_def ready_def line_start_def)
  obtain ps st2 where run: "chunk_loop env (form_body b fs) ?st = Some (1, st2)"
    "md_parts st2 = md_parts ?st @ ps" "map field_of ps = map given fs" "list_all (\<lambda>p. mp_type p = MULTIPART_FORMDATA) ps"
    "md_is_complete st2" "quiet_flags ?st st2" "mr_io st2 = mr_io ?st"
    using form_body_run [OF ready _ assms(5,6)] boundary_string [OF assms(1)] assms(3) by auto
  have "form_body b fs \<noteq> []" by (simp add: form_body_def)
  then have chunk: "multipart_process_chunk env (form_body b fs) st1 = Some (1, st2)"
    using run(1) st1(2) by (simp add: multipart_process_chunk_def Let_def starting_def line_start_def MULTIPART_BUF_SIZE_def)
  have parts: "md_parts st2 = ps" using run(2) st1(2) by (simp add: starting_def)
  obtain args where "multipart_get_arguments junk origin ps [] = Some (1, [] @ args)" "map (arg_pair \<circ> snd) args = fs"
    using get_arguments_run [OF run(3,4)] by blast
  then show ?thesis
    using st1 chunk run(5-7) parts by (auto simp: multipart_complete_def quiet_flags_def)
qed

lemma mark_offset_run:
  assumes "md_mpp st = Some p"
  shows "\<exists>off. mark_offset st = Some (st\<lparr>md_mpp := Some (p\<lparr>mp_offset := off\<rparr>)\<rparr>)"
proof (cases "mp_length p = 0")
  case True
  then show ?thesis using assms by (auto simp: mark_offset_def)
next
  case False
  have "st = st\<lparr>md_mpp := Some (p\<lparr>mp_offset := mp_offset p\<rparr>)\<rparr>" using assms by (cases st) simp
  then show ?thesis using False assms by (intro exI [of _ "mp_offset p"]) (simp add: mark_offset_def)
qed

lemma file_data_first:
  assumes "md_mpp st = Some p" "mp_tmp_file_fd p = 0" "me_upload_extract_files env" "md_nfiles st < me_upload_file_limit env"
    "me_mkstemp env (mr_io st) = (name, fd)" "0 < fd" "md_reserve st = []" "\<And>io d. me_write env io fd d = int (length d)"
  shows "\<exists>p' st'. file_data env data st = Some (1, st') \<and> md_mpp st' = Some p' \<and> md_nfiles st' = md_nfiles st + 1 \<and>
      mr_io st' = mr_io st @ [Created name fd, Written fd data] \<and> mp_tmp_file_fd p' = fd \<and> mp_tmp_file_name p' = Some name \<and>
      mp_type p' = mp_type p \<and> mp_tmp_file_size p' = mp_tmp_file_size p + of_nat (length data)"
proof -
  obtain q where q: "mark_offset st = Some (st\<lparr>md_mpp := Some q\<rparr>)" "mp_tmp_file_fd q = 0" "mp_type q = mp_type p"
    "mp_tmp_file_size q = mp_tmp_file_size p"
    using mark_offset_run [OF assms(1)] assms(2) by auto
  show ?thesis
    using assms q by (auto simp: file_data_def Let_def and_then_def open_part_def write_part_def do_write_def)
qed

lemma file_data_over:
  assumes "md_mpp st = Some p" "me_upload_extract_files env" "me_upload_file_limit env \<le> md_nfiles st"
  shows "\<exists>p' st'. file_data env data st = Some (1, st') \<and> md_mpp st' = Some p' \<and> mr_io st' = mr_io st \<and>
    Flag_file_limit_exceeded \<in> md_flags st' \<and> md_nfiles st' = md_nfiles st \<and> mp_type p' = mp_type p \<and> md_reserve st' = md_reserve st \<and>
    mp_tmp_file_fd p' = mp_tmp_file_fd p \<and> mp_tmp_file_name p' = mp_tmp_file_name p \<and>
    mp_tmp_file_size p' = mp_tmp_file_size p + of_nat (length data + length (md_reserve st))"
proof -
  obtain q where q: "mark_offset st = Some (st\<lparr>md_mpp := Some q\<rparr>)" "mp_tmp_file_size q = mp_tmp_file_size p" "mp_type q = mp_type p"
    "mp_tmp_file_fd q = mp_tmp_file_fd p" "mp_tmp_file_name q = mp_tmp_file_name p"
    using mark_offset_run [OF assms(1)] by auto
  show ?thesis
    using assms q by (auto simp: file_data_def Let_def raise_flag_def set_error_def)
qed

text \<open>A line of data, whatever its end: the line end goes to the reserve, and the rest to the file.\<close>

lemma data_of_line:
  assumes "md_mpp st = Some p" "mp_type p = MULTIPART_FILE" "length l \<le> MULTIPART_BUF_SIZE"
  shows "\<exists>bf n. multipart_process_part_data env (with_line l st) =
    and_then (file_data env (chomp l) (st\<lparr>mr_error_msg := None, md_buf := bf, md_bufleft := n\<rparr>)) (\<lambda>st. Some (1,
      if line_end l \<noteq> [] then st\<lparr>md_reserve := line_end l, md_buf_offset := md_buf_offset st + of_nat (length (line_end l))\<rparr>
      else st\<lparr>md_buf_offset := md_buf_offset st - of_nat (length (md_reserve st)), md_reserve := []\<rparr>))"
proof -
  let ?st = "(with_line l st)\<lparr>mr_error_msg := None\<rparr>"
  have buf: "md_buf ?st = l" "length (md_buf ?st) + md_bufleft ?st = MULTIPART_BUF_SIZE" using assms(3) by (simp_all add: with_line_def)
  obtain bf n where run: "reserve_bytes ?st = Some (line_end l, ?st\<lparr>md_buf := bf, md_bufleft := n\<rparr>)"
    "n + length (chomp l) = MULTIPART_BUF_SIZE" "take (length (chomp l)) bf = chomp l"
    using reserve_bytes_run [OF buf(2)] unfolding buf(1) by blast
  have "MULTIPART_BUF_SIZE - n = length (chomp l)" using run(2) by simp
  then show ?thesis
    using run assms(1,2) unfolding multipart_process_part_data_def
    by (intro exI [of _ bf] exI [of _ n]) (simp add: used_def with_line_def Let_def)
qed

text \<open>The lines of a part, one after the other.\<close>

fun data_lines :: "mp_env \<Rightarrow> bytes list \<Rightarrow> mp_state \<Rightarrow> mp_result" where
  "data_lines env [] st = Some (1, st)"
| "data_lines env (l # ls) st = and_then (multipart_process_part_data env (with_line l st)) (data_lines env ls)"

lemma over_limit_line:
  assumes "md_mpp st = Some p" "mp_type p = MULTIPART_FILE" "me_upload_extract_files env" "me_upload_file_limit env \<le> md_nfiles st"
    "length l \<le> MULTIPART_BUF_SIZE"
  shows "\<exists>st' p'. multipart_process_part_data env (with_line l st) = Some (1, st') \<and> md_mpp st' = Some p' \<and>
    mp_type p' = MULTIPART_FILE \<and> mp_tmp_file_fd p' = mp_tmp_file_fd p \<and> mp_tmp_file_name p' = mp_tmp_file_name p \<and>
    mr_io st' = mr_io st \<and> md_nfiles st' = md_nfiles st \<and> Flag_file_limit_exceeded \<in> md_flags st' \<and> md_reserve st' = line_end l \<and>
    mp_tmp_file_size p' = mp_tmp_file_size p + of_nat (length (chomp l) + length (md_reserve st))"
proof -
  obtain bf n where run: "multipart_process_part_data env (with_line l st) =
    and_then (file_data env (chomp l) (st\<lparr>mr_error_msg := None, md_buf := bf, md_bufleft := n\<rparr>)) (\<lambda>st. Some (1,
      if line_end l \<noteq> [] then st\<lparr>md_reserve := line_end l, md_buf_offset := md_buf_offset st + of_nat (length (line_end l))\<rparr>
      else st\<lparr>md_buf_offset := md_buf_offset st - of_nat (length (md_reserve st)), md_reserve := []\<rparr>))"
    using data_of_line [OF assms(1,2,5)] by blast
  let ?st = "st\<lparr>mr_error_msg := None, md_buf := bf, md_bufleft := n\<rparr>"
  obtain p' sta where a: "file_data env (chomp l) ?st = Some (1, sta)" "md_mpp sta = Some p'" "mr_io sta = mr_io st"
    "Flag_file_limit_exceeded \<in> md_flags sta" "md_nfiles sta = md_nfiles st" "mp_type p' = mp_type p"
    "mp_tmp_file_fd p' = mp_tmp_file_fd p" "mp_tmp_file_name p' = mp_tmp_file_name p"
    "mp_tmp_file_size p' = mp_tmp_file_size p + of_nat (length (chomp l) + length (md_reserve st))"
    using file_data_over [of ?st p env "chomp l"] assms(1,3,4) by auto
  show ?thesis using run a assms(2) by (auto simp: and_then_def)
qed

lemma over_limit_lines:
  "md_mpp st = Some p \<Longrightarrow> mp_type p = MULTIPART_FILE \<Longrightarrow> me_upload_extract_files env \<Longrightarrow> me_upload_file_limit env \<le> md_nfiles st \<Longrightarrow>
   list_all (\<lambda>l. length l \<le> MULTIPART_BUF_SIZE) ls \<Longrightarrow>
   \<exists>st' p'. data_lines env ls st = Some (1, st') \<and> md_mpp st' = Some p' \<and>
     mp_tmp_file_fd p' = mp_tmp_file_fd p \<and> mp_tmp_file_name p' = mp_tmp_file_name p \<and>
     mr_io st' = mr_io st \<and> md_nfiles st' = md_nfiles st \<and> (ls \<noteq> [] \<longrightarrow> Flag_file_limit_exceeded \<in> md_flags st') \<and>
     (Flag_file_limit_exceeded \<in> md_flags st \<longrightarrow> Flag_file_limit_exceeded \<in> md_flags st') \<and>
     mp_tmp_file_size p' + of_nat (length (md_reserve st')) =
       mp_tmp_file_size p + of_nat (length (md_reserve st) + length (concat ls))"
proof (induction ls arbitrary: st p)
  case Nil
  then show ?case by simp
next
  case (Cons l ls)
  obtain st1 p1 where one: "multipart_process_part_data env (with_line l st) = Some (1, st1)" "md_mpp st1 = Some p1"
    "mp_type p1 = MULTIPART_FILE" "mp_tmp_file_fd p1 = mp_tmp_file_fd p" "mp_tmp_file_name p1 = mp_tmp_file_name p"
    "mr_io st1 = mr_io st" "md_nfiles st1 = md_nfiles st" "Flag_file_limit_exceeded \<in> md_flags st1" "md_reserve st1 = line_end l"
    "mp_tmp_file_size p1 = mp_tmp_file_size p + of_nat (length (chomp l) + length (md_reserve st))"
    using over_limit_line [OF Cons.prems(1-4), of l] Cons.prems(5) by auto
  have limit: "me_upload_file_limit env \<le> md_nfiles st1" using Cons.prems(4) one(7) by simp
  obtain st2 p2 where two: "data_lines env ls st1 = Some (1, st2)" "md_mpp st2 = Some p2"
    "mp_tmp_file_fd p2 = mp_tmp_file_fd p1" "mp_tmp_file_name p2 = mp_tmp_file_name p1"
    "mr_io st2 = mr_io st1" "md_nfiles st2 = md_nfiles st1" "Flag_file_limit_exceeded \<in> md_flags st2"
    "mp_tmp_file_size p2 + of_nat (length (md_reserve st2)) = mp_tmp_file_size p1 + of_nat (length (md_reserve st1) + length (concat ls))"
    using Cons.IH [OF one(2,3) Cons.prems(3) limit] Cons.prems(5) one(8) by auto
  have "length (chomp l) + length (line_end l) = length l" using chomp_line_end [of l] by (metis length_append)
  then have sum: "(of_nat (length (chomp l)) :: 32 word) + of_nat (length (line_end l)) = of_nat (length l)"
    by (metis of_nat_add)
  have "mp_tmp_file_size p2 + of_nat (length (md_reserve st2)) =
      mp_tmp_file_size p + of_nat (length (md_reserve st) + length (concat (l # ls)))"
    using two(8) one(9,10) sum by (simp add: algebra_simps)
  then show ?case using one two by (auto simp: and_then_def)
qed

lemma file_limit_run:
  assumes "md_mpp st = Some p" "mp_type p = MULTIPART_FILE" "mp_tmp_file_fd p = 0" "md_reserve st = []"
    "me_upload_extract_files env" "me_upload_file_limit env = md_nfiles st + 1"
    "me_mkstemp env (mr_io st) = (name, fd)" "0 < fd" "\<And>io d. me_write env io fd d = int (length d)"
    "list_all (\<lambda>l. length l \<le> MULTIPART_BUF_SIZE) (l # ls)"
  shows "\<exists>st2 p2. data_lines env (l # ls) st = Some (1, st2) \<and>
    mr_io st2 = mr_io st @ [Created name fd, Written fd (chomp l)] \<and> md_nfiles st2 = md_nfiles st + 1 \<and>
    md_mpp st2 = Some p2 \<and> mp_tmp_file_fd p2 = fd \<and> mp_tmp_file_name p2 = Some name \<and>
    mp_tmp_file_size p2 + of_nat (length (md_reserve st2)) = mp_tmp_file_size p + of_nat (length (concat (l # ls))) \<and>
    (ls \<noteq> [] \<longrightarrow> Flag_file_limit_exceeded \<in> md_flags st2)"
proof -
  have l: "length l \<le> MULTIPART_BUF_SIZE" and ls: "list_all (\<lambda>l. length l \<le> MULTIPART_BUF_SIZE) ls" using assms(10) by simp_all
  obtain bf n where one: "multipart_process_part_data env (with_line l st) =
    and_then (file_data env (chomp l) (st\<lparr>mr_error_msg := None, md_buf := bf, md_bufleft := n\<rparr>)) (\<lambda>st. Some (1,
      if line_end l \<noteq> [] then st\<lparr>md_reserve := line_end l, md_buf_offset := md_buf_offset st + of_nat (length (line_end l))\<rparr>
      else st\<lparr>md_buf_offset := md_buf_offset st - of_nat (length (md_reserve st)), md_reserve := []\<rparr>))"
    using data_of_line [OF assms(1,2) l] by blast
  let ?st = "st\<lparr>mr_error_msg := None, md_buf := bf, md_bufleft := n\<rparr>"
  obtain p1 sta where a: "file_data env (chomp l) ?st = Some (1, sta)" "md_mpp sta = Some p1" "md_nfiles sta = md_nfiles st + 1"
    "mr_io sta = mr_io st @ [Created name fd, Written fd (chomp l)]" "mp_tmp_file_fd p1 = fd" "mp_tmp_file_name p1 = Some name"
    "mp_type p1 = mp_type p" "mp_tmp_file_size p1 = mp_tmp_file_size p + of_nat (length (chomp l))"
    using file_data_first [of ?st p env name fd "chomp l"] assms by auto
  define st1 where "st1 =
    (if line_end l \<noteq> [] then sta\<lparr>md_reserve := line_end l, md_buf_offset := md_buf_offset sta + of_nat (length (line_end l))\<rparr>
     else sta\<lparr>md_buf_offset := md_buf_offset sta - of_nat (length (md_reserve sta)), md_reserve := []\<rparr>)"
  have st1: "multipart_process_part_data env (with_line l st) = Some (1, st1)" "md_mpp st1 = Some p1"
    "md_nfiles st1 = md_nfiles st + 1" "md_reserve st1 = line_end l" "mr_io st1 = mr_io st @ [Created name fd, Written fd (chomp l)]"
    using one a by (simp_all add: st1_def and_then_def)
  have limit: "me_upload_file_limit env \<le> md_nfiles st1" using assms(6) st1(3) by simp
  have type: "mp_type p1 = MULTIPART_FILE" using a(7) assms(2) by simp
  obtain st2 p2 where two: "data_lines env ls st1 = Some (1, st2)" "md_mpp st2 = Some p2"
    "mp_tmp_file_fd p2 = fd" "mp_tmp_file_name p2 = Some name"
    "mr_io st2 = mr_io st1" "md_nfiles st2 = md_nfiles st1" "ls \<noteq> [] \<longrightarrow> Flag_file_limit_exceeded \<in> md_flags st2"
    "mp_tmp_file_size p2 + of_nat (length (md_reserve st2)) = mp_tmp_file_size p1 + of_nat (length (md_reserve st1) + length (concat ls))"
    using over_limit_lines [OF st1(2) type assms(5) limit ls] a(5,6) by auto
  have "length (chomp l) + length (line_end l) = length l" using chomp_line_end [of l] by (metis length_append)
  then have "(of_nat (length (chomp l)) :: 32 word) + of_nat (length (line_end l)) = of_nat (length l)"
    by (metis of_nat_add)
  then have "mp_tmp_file_size p2 + of_nat (length (md_reserve st2)) = mp_tmp_file_size p + of_nat (length (concat (l # ls)))"
    using two(8) a(8) st1(4) by (simp add: algebra_simps)
  then show ?thesis using st1 two by (auto simp: and_then_def)
qed

lemma final_boundary_run:
  assumes "mp_inv b sd st" "line_start st" "\<not> md_is_complete st" "boundary_ok_string b"
  shows "\<exists>st'. multipart_process_chunk env (boundary_line b True @ [10]) st = Some (1, st') \<and> md_is_complete st' \<and>
    md_mpp st' = None \<and> multipart_complete (Some st') = Some (1, Some st') \<and>
    md_parts st' = md_parts st @ (case md_mpp st of None \<Rightarrow> [] | Some p \<Rightarrow>
      md_parts (finish_part p (st\<lparr>md_parts := []\<rparr>)))"
proof -
  have b: "0 \<notin> set b" "10 \<notin> set b" "length b + 10 < MULTIPART_BUF_SIZE"
    using assms(4) by (auto simp: boundary_ok_string_def MULTIPART_BUF_SIZE_def)
  define st0 where "st0 = st\<lparr>mr_error_msg := None, md_seen_data := True\<rparr>"
  have st0: "line_start st0" "md_boundary st0 = Some b" "\<not> md_is_complete st0" "md_mpp st0 = md_mpp st" "md_parts st0 = md_parts st"
    "md_bufleft st0 = md_bufleft st"
    using assms(1-3) by (simp_all add: st0_def line_start_def mp_inv_def core_inv_def)
  let ?st = "with_line (boundary_line b True @ [10]) st0"
  define st1 where "st1 = raise_flag Flag_crlf_line ?st"
  define st2 where "st2 = (case md_mpp st1 of None \<Rightarrow> st1 | Some mpp \<Rightarrow> finish_part mpp st1)"
  have pb: "multipart_process_boundary True (raise_flag Flag_crlf_line ?st) = Some (1, st2)"
    unfolding multipart_process_boundary_def st2_def st1_def by simp
  have line: "process_line env False ?st = Some (1, st2\<lparr>md_is_complete := md_is_complete st2 \<or> True, md_boundary_count := md_boundary_count st2 + 1\<rparr>)"
    using st0 b pb by (intro boundary_line_run) (simp_all add: with_line_def line_start_def)
  define st3 where "st3 = next_line 10 (st2\<lparr>md_is_complete := True, md_boundary_count := md_boundary_count st2 + 1\<rparr>)"
  have "chunk_loop env (boundary_line b True @ 10 # []) st0 = chunk_loop env [] st3"
    using line b by (subst feed_line [OF st0(1,3)]) (auto simp: boundary_line_def st3_def)
  then have run: "multipart_process_chunk env (boundary_line b True @ [10]) st = Some (1, st3)"
    using assms(1-3) st0(6) by (simp add: multipart_process_chunk_def Let_def boundary_line_def mp_inv_def chunk_loop.simps [of _ "[]"] flip: st0_def)
  have "md_mpp st1 = md_mpp st" "md_parts st1 = md_parts st" by (simp_all add: st1_def with_line_def st0)
  then have "md_mpp st3 = None" "md_parts st3 = md_parts st @ (case md_mpp st of None \<Rightarrow> [] | Some p \<Rightarrow>
      md_parts (finish_part p (st\<lparr>md_parts := []\<rparr>)))"
    by (auto simp: st3_def next_line_def st2_def finish_part_def Let_def split: option.splits)
  then show ?thesis
    using run by (intro exI [of _ st3]) (simp add: st3_def next_line_def multipart_complete_def)
qed

section \<open>Properties\<close>

text \<open>
  C22: whatever the body holds and however it is cut into chunks, the multipart parser started by \<open>multipart_init\<close>
  stays inside its buffers and ends: it keeps its invariant, or it stops with an error message that is none of
  the two the code calls internal. \<open>multipart_complete\<close> is safe then as well.
\<close>

theorem multipart_safe:
  assumes "multipart_init content_type st0 = (1, st)"
  shows "\<exists>rc st'. feed env chunks st = Some (rc, st') \<and>
    (rc = 1 \<and> (\<exists>b sd. mp_inv b sd st') \<and> (\<exists>rc' st''. multipart_complete (Some st') = Some (rc', Some st'') \<and> (rc' = 1 \<or> rc' = -1 \<and> reported st'')) \<or>
     rc = -1 \<and> reported st')"
proof -
  obtain b where "starting st" "md_boundary st = Some b" using init_ok [OF assms] by blast
  then have "mp_inv b False st" by (rule starting_inv)
  then have "ok_with (\<lambda>st. \<exists>sd. mp_inv b sd st) (feed env chunks st)" by (rule feed_ok)
  then obtain rc st' where fed: "feed env chunks st = Some (rc, st')"
    "rc = 1 \<and> (\<exists>sd. mp_inv b sd st') \<or> rc = -1 \<and> reported st'"
    by (auto simp: ok_with_def)
  show ?thesis
  proof (cases "rc = 1")
    case True
    then obtain sd where inv: "mp_inv b sd st'" using fed(2) by auto
    show ?thesis
      by (rule exI [of _ rc], rule exI [of _ st'], rule conjI, rule fed(1), rule disjI1,
          intro conjI, rule True, intro exI, rule inv, rule complete_ok [OF inv])
  next
    case False
    then show ?thesis using fed by simp
  qed
qed

definition plain_env :: mp_env where
  "plain_env =
     \<lparr>me_upload_extract_files = True, me_upload_file_limit = 1,
      me_table_get = (\<lambda>t k. map_option snd (find (\<lambda>x. ci_equal (fst x) k) t)), me_table_set = (\<lambda>t k v. (k, v) # t),
      me_mkstemp = (\<lambda>io. ([116], 7)), me_write = (\<lambda>io fd d. int (length d))\<rparr>"

definition empty_state :: mp_state where
  "empty_state =
     \<lparr>md_parts = [], md_nfiles = 0, md_boundary = None, md_boundary_count = 0, md_buf = [], md_buf_contains_line = False,
      md_bufleft = 0, md_buf_offset = 0, md_mpp = None, md_mpp_state = 0, md_reserve = [], md_seen_data = False,
      md_is_complete = False, md_flags = {}, mr_no_files_length = 0, mr_multipart_name = None,
      mr_multipart_filename = None, mr_error_msg = None, mr_io = []\<rparr>"

lemma example_boundary: "multipart_boundary_characters_valid (Some [65]) = 1" "\<not> c_isspace 65"
  by (simp_all add: multipart_boundary_characters_valid_def boundary_char_ok_def c_isspace_def)

lemma example_init: "multipart_init (Some (form_type [65])) empty_state = (1, snd (multipart_init (Some (form_type [65])) empty_state))"
proof -
  have "\<exists>st'. multipart_init (Some (form_type [65])) empty_state = (1, st') \<and> starting st' \<and> md_boundary st' = Some [65] \<and>
      md_flags st' = {} \<and> mr_io st' = mr_io empty_state"
    by (rule init_form_type) (simp_all add: example_boundary)
  then show ?thesis by auto
qed

theorem multipart_safe_witness:
  "\<exists>rc st'. feed plain_env [[45, 45, 65], [0, 13]] (snd (multipart_init (Some (form_type [65])) empty_state)) = Some (rc, st') \<and>
    (rc = 1 \<and> (\<exists>b sd. mp_inv b sd st') \<and> (\<exists>rc' st''. multipart_complete (Some st') = Some (rc', Some st'') \<and> (rc' = 1 \<or> rc' = -1 \<and> reported st'')) \<or>
     rc = -1 \<and> reported st')"
  by (rule multipart_safe [OF example_init])

text \<open>
  C24: how the body is cut into chunks makes no difference: when a chunk was processed without an error or a message, and the final
  boundary is still to come, the next chunk is processed as if both had arrived as one.
\<close>

theorem multipart_chunks_irrelevant:
  assumes "mp_inv b sd st" "multipart_process_chunk env xs st = Some (1, st1)" "xs \<noteq> []" "ys \<noteq> []"
    "\<not> md_is_complete st" "\<not> md_is_complete st1" "mr_error_msg st1 = None"
  shows "multipart_process_chunk env (xs @ ys) st = multipart_process_chunk env ys st1"
  using process_chunk_append(2) [OF assms(1-5)] assms(6,7) by blast

lemma plain_state:
  "mp_inv [65] False ((fresh_mpd empty_state)\<lparr>md_boundary := Some [65]\<rparr>)"
  "\<not> md_is_complete ((fresh_mpd empty_state)\<lparr>md_boundary := Some [65]\<rparr>)"
proof -
  show "mp_inv [65] False ((fresh_mpd empty_state)\<lparr>md_boundary := Some [65]\<rparr>)" by (rule starting_inv(1)) simp_all
  show "\<not> md_is_complete ((fresh_mpd empty_state)\<lparr>md_boundary := Some [65]\<rparr>)" by (simp add: fresh_mpd_def)
qed

definition one_byte_state :: mp_state where
  "one_byte_state = (fresh_mpd empty_state)\<lparr>md_boundary := Some [65], md_seen_data := True, md_buf := [66], md_bufleft := 4095\<rparr>"

lemma one_byte: "multipart_process_chunk plain_env [66] ((fresh_mpd empty_state)\<lparr>md_boundary := Some [65]\<rparr>) = Some (1, one_byte_state)"
proof -
  let ?st = "(fresh_mpd empty_state)\<lparr>md_boundary := Some [65], mr_error_msg := None, md_seen_data := True\<rparr>"
  have "chunk_loop plain_env ([66] @ []) ?st = chunk_loop plain_env [] (?st\<lparr>md_buf := md_buf ?st @ [66], md_bufleft := md_bufleft ?st - length [66 :: byte]\<rparr>)"
    by (rule feed_prefix) (simp_all add: fresh_mpd_def MULTIPART_BUF_SIZE_def)
  then show ?thesis
    by (simp add: multipart_process_chunk_def one_byte_state_def fresh_mpd_def empty_state_def MULTIPART_BUF_SIZE_def)
qed

theorem multipart_chunks_irrelevant_witness:
  "multipart_process_chunk plain_env ([66] @ [10]) ((fresh_mpd empty_state)\<lparr>md_boundary := Some [65]\<rparr>) =
     multipart_process_chunk plain_env [10] one_byte_state"
  by (rule multipart_chunks_irrelevant [OF plain_state(1) one_byte _ _ plain_state(2)])
    (simp_all add: one_byte_state_def fresh_mpd_def)

text \<open>
  C27: after the final boundary it does make a difference: data behind it in the same chunk raises \<open>flag_data_after\<close>,
  data in a later chunk raises \<open>flag_data_before\<close>, although it came after the last boundary as well.
\<close>

theorem data_after_final_boundary:
  assumes "mp_inv b sd st" "multipart_process_chunk env xs st = Some (1, st1)" "xs \<noteq> []" "ys \<noteq> []"
    "\<not> md_is_complete st" "md_is_complete st1"
  shows "multipart_process_chunk env (xs @ ys) st = Some (1, raise_flag Flag_data_after st1) \<and>
    multipart_process_chunk env ys st1 = Some (1, raise_flag Flag_data_before (st1\<lparr>mr_error_msg := None, md_seen_data := True\<rparr>))"
  using process_chunk_append(1) [OF assms(1-5)] assms(4,6) by (simp add: multipart_process_chunk_def Let_def)

lemma final_line:
  "\<exists>st'. multipart_process_chunk plain_env [45, 45, 65, 45, 45, 13, 10] ((fresh_mpd empty_state)\<lparr>md_boundary := Some [65]\<rparr>) =
     Some (1, st') \<and> md_is_complete st'"
  using final_boundary_run [OF plain_state(1) _ plain_state(2), of plain_env]
  by (fastforce simp: boundary_line_def fresh_mpd_def line_start_def boundary_ok_string_def)

theorem data_after_final_boundary_witness:
  "\<exists>st1. multipart_process_chunk plain_env ([45, 45, 65, 45, 45, 13, 10] @ [66]) ((fresh_mpd empty_state)\<lparr>md_boundary := Some [65]\<rparr>) =
      Some (1, raise_flag Flag_data_after st1) \<and>
    multipart_process_chunk plain_env [66] st1 = Some (1, raise_flag Flag_data_before (st1\<lparr>mr_error_msg := None, md_seen_data := True\<rparr>))"
proof -
  obtain st1 where "multipart_process_chunk plain_env [45, 45, 65, 45, 45, 13, 10] ((fresh_mpd empty_state)\<lparr>md_boundary := Some [65]\<rparr>) =
     Some (1, st1)" "md_is_complete st1"
    using final_line by blast
  then show ?thesis
    by (intro exI [of _ st1] data_after_final_boundary [OF plain_state(1) _ _ _ plain_state(2)]) simp_all
qed

text \<open>
  C21: a form body built from a boundary and a list of fields parses to exactly these fields: \<open>multipart_init\<close> accepts the header,
  the body is processed without an error and is complete, the arguments are the names and values in order (a value may hold any
  bytes, line ends included, but no line of it may start with two hyphens), no flag but the one for CRLF and the one for
  text that looks like a boundary is raised, and no file is touched. The boundary is one the code accepts unquoted, of at most 900
  bytes, and names have at most 4000, with no quotation mark, apostrophe, backslash, NUL or line end (\<open>field_name_ok\<close>); a value is shorter than
  \<open>2 ^ 32\<close>; and the tables of headers of the library find what was stored (\<open>header_table_laws\<close>).
\<close>

theorem multipart_round_trip:
  assumes "multipart_boundary_characters_valid (Some b) = 1" "b \<noteq> []" "length b \<le> 900" "\<not> c_isspace (hd b)"
    "list_all field_ok fs" "header_table_laws env"
  shows "\<exists>st1 st2 args.
    multipart_init (Some (form_type b)) st = (1, st1) \<and>
    multipart_process_chunk env (form_body b fs) st1 = Some (1, st2) \<and>
    multipart_complete (Some st2) = Some (1, Some st2) \<and>
    multipart_get_arguments junk origin (md_parts st2) [] = Some (1, args) \<and> map (arg_pair \<circ> snd) args = fs \<and>
    md_flags st2 \<subseteq> {Flag_crlf_line, Flag_unmatched_boundary} \<and> mr_io st2 = mr_io st"
  using assms by (rule round_trip_run)

lemma plain_tables: "header_table_laws plain_env"
  by (simp add: header_table_laws_def plain_env_def ci_equal_def)

theorem multipart_round_trip_witness:
  "\<exists>st1 st2 args.
    multipart_init (Some (form_type [65])) empty_state = (1, st1) \<and>
    multipart_process_chunk plain_env (form_body [65] [([110], [13, 10, 0])]) st1 = Some (1, st2) \<and>
    multipart_complete (Some st2) = Some (1, Some st2) \<and>
    multipart_get_arguments (\<lambda>_. 7) [] (md_parts st2) [] = Some (1, args) \<and> map (arg_pair \<circ> snd) args = [([110], [13, 10, 0])] \<and>
    md_flags st2 \<subseteq> {Flag_crlf_line, Flag_unmatched_boundary} \<and> mr_io st2 = mr_io empty_state"
  by (rule multipart_round_trip)
    (simp_all add: example_boundary plain_tables field_ok_def field_name_ok_def)

text \<open>
  C26: a file is cut off when it is the last one the limit allows: the code counts the open file as well, so only the first line of
  the file is written (its end stays in the reserve), and all later lines, however many and with whatever line ends, are not written: they
  only raise \<open>flag_file_limit_exceeded\<close>, and together with the reserve they are counted in the size of the file. No other file is
  created. (The file part has its headers and no file yet, \<^verbatim>\<open>mkstemp\<close> and \<^verbatim>\<open>write\<close> succeed, and a line is what the
  line buffer holds when it is processed.)
\<close>

theorem file_limit_cuts_file:
  assumes "md_mpp st = Some p" "mp_type p = MULTIPART_FILE" "mp_tmp_file_fd p = 0" "md_reserve st = []"
    "me_upload_extract_files env" "me_upload_file_limit env = md_nfiles st + 1"
    "me_mkstemp env (mr_io st) = (name, fd)" "0 < fd" "\<And>io d. me_write env io fd d = int (length d)"
    "list_all (\<lambda>l. length l \<le> MULTIPART_BUF_SIZE) (l # ls)"
  shows "\<exists>st2 p2. data_lines env (l # ls) st = Some (1, st2) \<and>
    mr_io st2 = mr_io st @ [Created name fd, Written fd (chomp l)] \<and> md_nfiles st2 = md_nfiles st + 1 \<and>
    md_mpp st2 = Some p2 \<and> mp_tmp_file_fd p2 = fd \<and> mp_tmp_file_name p2 = Some name \<and>
    mp_tmp_file_size p2 + of_nat (length (md_reserve st2)) = mp_tmp_file_size p + of_nat (length (concat (l # ls))) \<and>
    (ls \<noteq> [] \<longrightarrow> Flag_file_limit_exceeded \<in> md_flags st2)"
  using assms by (rule file_limit_run)

theorem file_limit_cuts_file_witness:
  "\<exists>st2 p2. data_lines plain_env [[66, 13, 10], [67, 10], [68]] (empty_state\<lparr>md_mpp := Some (new_part\<lparr>mp_type := MULTIPART_FILE\<rparr>)\<rparr>) =
      Some (1, st2) \<and>
    mr_io st2 = [Created [116] 7, Written 7 [66]] \<and> md_nfiles st2 = 1 \<and> md_mpp st2 = Some p2 \<and> mp_tmp_file_fd p2 = 7 \<and>
    mp_tmp_file_name p2 = Some [116] \<and> mp_tmp_file_size p2 + of_nat (length (md_reserve st2)) = 6 \<and> Flag_file_limit_exceeded \<in> md_flags st2"
proof -
  let ?st = "empty_state\<lparr>md_mpp := Some (new_part\<lparr>mp_type := MULTIPART_FILE\<rparr>)\<rparr>"
  have fits: "list_all (\<lambda>l. length l \<le> MULTIPART_BUF_SIZE) [[66, 13, 10], [67, 10], [68]]" by (simp add: MULTIPART_BUF_SIZE_def)
  have st: "md_mpp ?st = Some (new_part\<lparr>mp_type := MULTIPART_FILE\<rparr>)" "mp_type (new_part\<lparr>mp_type := MULTIPART_FILE\<rparr>) = MULTIPART_FILE"
    "mp_tmp_file_fd (new_part\<lparr>mp_type := MULTIPART_FILE\<rparr>) = 0" "md_reserve ?st = []" "me_upload_extract_files plain_env"
    "me_upload_file_limit plain_env = md_nfiles ?st + 1" "me_mkstemp plain_env (mr_io ?st) = ([116], 7)" "0 < (7 :: int)"
    "me_write plain_env io 7 d = int (length d)" for io d
    by (simp_all add: empty_state_def new_part_def plain_env_def)
  have "chomp [66, 13, 10] = [66]" by (simp add: chomp_def)
  then show ?thesis
    using file_limit_cuts_file [OF st fits] by (simp add: empty_state_def new_part_def)
qed

text \<open>
  C25: a body can always be finished: whatever part is being built, at the start of a line the final boundary completes the body;
  the part is closed and listed, or dropped if it has no name, the way \<open>finish_part\<close> does it (\<open>boundary_ok_string\<close>: the boundary is a
  string without a line feed, of at most 1024 bytes), and \<open>multipart_complete\<close> accepts the body.
\<close>

theorem final_boundary_completes:
  assumes "mp_inv b sd st" "line_start st" "\<not> md_is_complete st" "boundary_ok_string b"
  shows "\<exists>st'. multipart_process_chunk env (boundary_line b True @ [10]) st = Some (1, st') \<and> md_is_complete st' \<and>
    md_mpp st' = None \<and> multipart_complete (Some st') = Some (1, Some st') \<and>
    md_parts st' = md_parts st @ (case md_mpp st of None \<Rightarrow> [] | Some p \<Rightarrow>
      md_parts (finish_part p (st\<lparr>md_parts := []\<rparr>)))"
  using assms by (rule final_boundary_run)

theorem final_boundary_completes_witness:
  "\<exists>st'. multipart_process_chunk plain_env (boundary_line [65] True @ [10]) ((fresh_mpd empty_state)\<lparr>md_boundary := Some [65]\<rparr>) =
      Some (1, st') \<and> md_is_complete st' \<and>
    md_mpp st' = None \<and> multipart_complete (Some st') = Some (1, Some st') \<and>
    md_parts st' = md_parts ((fresh_mpd empty_state)\<lparr>md_boundary := Some [65]\<rparr>) @
      (case md_mpp ((fresh_mpd empty_state)\<lparr>md_boundary := Some [65]\<rparr>) of None \<Rightarrow> [] | Some p \<Rightarrow>
        md_parts (finish_part p ((fresh_mpd empty_state)\<lparr>md_boundary := Some [65], md_parts := []\<rparr>)))"
  by (rule final_boundary_completes [OF plain_state(1) _ plain_state(2)])
    (simp_all add: fresh_mpd_def line_start_def boundary_ok_string_def)

end
