(* ===== verification/MultipartFiles.thy ===== *)
theory MultipartFiles
  imports Multipart
begin

text \<open>
  The temporary files of \<^verbatim>\<open>apache2/msc_multipart.c\<close>: every file the parser creates belongs to a part of the list or to the
  part being built, whatever the body holds and whatever error ends it; \<open>multipart_cleanup\<close> unlinks the files of the
  listed parts, or moves them to the upload directory, and touches no others.
\<close>

section \<open>The invariant\<close>

definition part_holds :: "bytes \<Rightarrow> multipart_part \<Rightarrow> bool" where
  "part_holds n p \<longleftrightarrow> mp_type p = MULTIPART_FILE \<and> mp_tmp_file_name p = Some n"

definition created :: "io_event list \<Rightarrow> bytes set" where
  "created es = {n. \<exists>fd. Created n fd \<in> set es}"

definition held :: "mp_state \<Rightarrow> bytes set" where
  "held st = {n. \<exists>p\<in>set (md_parts st) \<union> set_option (md_mpp st). part_holds n p}"

text \<open>The part being built has a file only after its headers, and then its descriptor is set.\<close>

definition building_ok :: "nat \<Rightarrow> multipart_part option \<Rightarrow> bool" where
  "building_ok mpp_state mpp \<longleftrightarrow>
     (case mpp of
        None \<Rightarrow> True
      | Some p \<Rightarrow>
          (mp_tmp_file_name p \<noteq> None \<longrightarrow> mp_tmp_file_fd p \<noteq> 0 \<and> mp_type p = MULTIPART_FILE \<and> mpp_state \<noteq> 0) \<and>
          (mpp_state \<noteq> 0 \<longrightarrow> mp_name p \<noteq> None))"

definition files_inv :: "io_event list \<Rightarrow> mp_state \<Rightarrow> bool" where
  "files_inv io st \<longleftrightarrow> (\<exists>new. mr_io st = io @ new \<and> created new \<subseteq> held st) \<and> building_ok (md_mpp_state st) (md_mpp st)"






lemma files_inv_fields [simp]:
  "files_inv io (raise_flag f st) = files_inv io st" "files_inv io (set_error e st) = files_inv io st"
  "files_inv io (st\<lparr>md_buf := bf\<rparr>) = files_inv io st" "files_inv io (st\<lparr>md_bufleft := n\<rparr>) = files_inv io st"
  "files_inv io (st\<lparr>md_buf_offset := w\<rparr>) = files_inv io st" "files_inv io (st\<lparr>md_reserve := r\<rparr>) = files_inv io st"
  "files_inv io (st\<lparr>md_seen_data := b\<rparr>) = files_inv io st" "files_inv io (st\<lparr>md_is_complete := b\<rparr>) = files_inv io st"
  "files_inv io (st\<lparr>md_boundary_count := k\<rparr>) = files_inv io st" "files_inv io (st\<lparr>md_nfiles := nf\<rparr>) = files_inv io st"
  "files_inv io (st\<lparr>md_buf_contains_line := b\<rparr>) = files_inv io st" "files_inv io (st\<lparr>mr_error_msg := em\<rparr>) = files_inv io st"
  "files_inv io (st\<lparr>mr_no_files_length := l\<rparr>) = files_inv io st" "files_inv io (st\<lparr>mr_multipart_name := nm\<rparr>) = files_inv io st"
  "files_inv io (st\<lparr>mr_multipart_filename := nm\<rparr>) = files_inv io st"
  by (auto simp: files_inv_def held_def raise_flag_def set_error_def)

section \<open>Headers\<close>

text \<open>The header functions leave the files alone.\<close>

definition same_files :: "mp_state \<Rightarrow> mp_state \<Rightarrow> bool" where
  "same_files st st' \<longleftrightarrow> md_parts st' = md_parts st \<and> mr_io st' = mr_io st \<and> md_mpp_state st' = md_mpp_state st \<and>
     map_option mp_tmp_file_name (md_mpp st') = map_option mp_tmp_file_name (md_mpp st)"

lemma same_files_refl [simp]: "same_files st st"
  by (simp add: same_files_def)

lemma same_files_raise [simp]: "same_files st (raise_flag f st') = same_files st st'"
  by (simp add: same_files_def)










section \<open>Data\<close>



lemma created_append [simp]: "created (xs @ ys) = created xs \<union> created ys"
  by (auto simp: created_def)










section \<open>Boundaries and lines\<close>











section \<open>From the first chunk to the clean-up\<close>


lemma mr_io_flag_if [simp]: "mr_io (if c then raise_flag f st else st) = mr_io st"
  by simp

lemma init_error_io [simp]: "mr_io (snd (init_error e st)) = mr_io st"
  by (simp add: init_error_def set_error_def)

lemma init_boundary_value_io [simp]: "mr_io (snd (init_boundary_value v st)) = mr_io st"
  unfolding init_boundary_value_def Let_def by (simp add: if_distrib [of snd] if_distrib [of mr_io] cong: if_cong split del: if_split)


















end
