(* ===== verification/Acmp.thy ===== *)
theory Acmp
  imports Prelude "HOL-Library.Sublist"
begin

text \<open>
  The phrase matcher of \<^verbatim>\<open>apache2/acmp.c\<close> (built without UTF-8 support), which the operator \<open>pm\<close> uses: a trie of the
  phrases, failure links, and the search. Every child of a node has a letter of its own, so the address of a node
  is the list of the letters on the way to it; the root is the empty list. The chain of \<open>child\<close> and \<open>sibling\<close> pointers of a
  node is the list of the letters of its children.
\<close>

section \<open>The trie\<close>

type_synonym path = "int list"

datatype btree = Tip | Bnode int path btree btree

record acmp_node =
  nd_letter :: int
  nd_is_last :: bool
  nd_depth :: nat
  nd_children :: "int list"
  nd_fail :: "path option"
  nd_o_match :: "path option"
  nd_btree :: btree
  nd_text :: bytes

record acmp =
  ac_case_sensitive :: bool
  ac_nodes :: "path \<Rightarrow> acmp_node option"
  ac_dict_count :: nat
  ac_longest_entry :: nat
  ac_failtree_done :: bool
  ac_active :: bool

definition fresh_node :: "int \<Rightarrow> nat \<Rightarrow> bytes \<Rightarrow> acmp_node" where
  "fresh_node letter depth txt =
     \<lparr>nd_letter = letter, nd_is_last = False, nd_depth = depth, nd_children = [], nd_fail = None, nd_o_match = None,
      nd_btree = Tip, nd_text = txt\<rparr>"

definition acmp_create :: "bool \<Rightarrow> acmp" where
  "acmp_create case_sensitive =
     \<lparr>ac_case_sensitive = case_sensitive, ac_nodes = [[] \<mapsto> fresh_node 0 0 []], ac_dict_count = 0, ac_longest_entry = 0,
      ac_failtree_done = False, ac_active = False\<rparr>"

definition set_node :: "path \<Rightarrow> (acmp_node \<Rightarrow> acmp_node) \<Rightarrow> acmp \<Rightarrow> acmp" where
  "set_node w f st = st\<lparr>ac_nodes := (ac_nodes st)(w := map_option f (ac_nodes st w))\<rparr>"

text \<open>A letter is a \<^verbatim>\<open>long\<close>: of the phrase it is made from a (signed) \<^verbatim>\<open>char\<close>, of the data from an \<^verbatim>\<open>unsigned char\<close>;
  \<^verbatim>\<open>apr_tolower\<close> takes the low byte.\<close>

definition utf8_lcase :: "int \<Rightarrow> int" where
  "utf8_lcase a = uint (c_tolower (word_of_int a))"

definition acmp_strtoucs :: "bytes \<Rightarrow> nat \<Rightarrow> path option" where
  "acmp_strtoucs str len = (if len \<le> length str then Some (map sint (take len str)) else None)"

definition acmp_child_for_code :: "acmp \<Rightarrow> path \<Rightarrow> int \<Rightarrow> path option option" where
  "acmp_child_for_code st parent code = do {
     node \<leftarrow> ac_nodes st parent;
     Some (map_option (\<lambda>c. parent @ [c]) (find (\<lambda>c. c = code) (nd_children node))) }"

definition acmp_add_node_to_parent :: "path \<Rightarrow> int \<Rightarrow> acmp \<Rightarrow> acmp" where
  "acmp_add_node_to_parent parent letter st =
     set_node parent (\<lambda>node. if letter \<in> set (nd_children node) then node
                             else node\<lparr>nd_children := nd_children node @ [letter]\<rparr>) st"

text \<open>The loop over the letters of a phrase; \<open>i\<close> is the index.\<close>

fun add_letters :: "bytes \<Rightarrow> nat \<Rightarrow> path \<Rightarrow> int list \<Rightarrow> acmp \<Rightarrow> acmp option" where
  "add_letters pattern i parent [] st = Some st"
| "add_letters pattern i parent (ucs # rest) st = do {
     let letter = (if ac_case_sensitive st then ucs else utf8_lcase ucs);
     found \<leftarrow> acmp_child_for_code st parent letter;
     let child = parent @ [letter];
     let st = (if found = None
               then st\<lparr>ac_nodes := (ac_nodes st)(child \<mapsto> fresh_node letter i (take (i + 1) pattern))\<rparr> else st);
     node \<leftarrow> ac_nodes st child;
     let st = (if rest = [] \<and> \<not> nd_is_last node
               then set_node child (\<lambda>n. n\<lparr>nd_is_last := True\<rparr>) (st\<lparr>ac_dict_count := ac_dict_count st + 1\<rparr>) else st);
     add_letters pattern (i + 1) child rest (acmp_add_node_to_parent parent letter st) }"

definition APR_EGENERAL :: int where
  "APR_EGENERAL = 20014"

text \<open>The phrase is a C string without its NUL; the length 0 stands for all of it.\<close>

definition acmp_add_pattern :: "bytes \<Rightarrow> nat \<Rightarrow> acmp \<Rightarrow> (int \<times> acmp) option" where
  "acmp_add_pattern pattern len st =
     (if ac_active st then Some (APR_EGENERAL, st)
      else do {
        let n = (if len = 0 then length pattern else len);
        ucs_chars \<leftarrow> acmp_strtoucs pattern n;
        st \<leftarrow> add_letters pattern 0 [] ucs_chars st;
        Some (0, st\<lparr>ac_longest_entry := max n (ac_longest_entry st), ac_failtree_done := False\<rparr>) })"

section \<open>Failure links\<close>

text \<open>The failure link of a node: one step from the link of its parent, or the root.\<close>

definition fail_node :: "path \<Rightarrow> acmp \<Rightarrow> acmp option" where
  "fail_node w st = do {
     node \<leftarrow> ac_nodes st w;
     f \<leftarrow> (if butlast w = [] then Some []
          else do {
            parent \<leftarrow> ac_nodes st (butlast w);
            pf \<leftarrow> nd_fail parent;
            goto_node \<leftarrow> acmp_child_for_code st pf (nd_letter node);
            Some (case goto_node of Some g \<Rightarrow> g | None \<Rightarrow> []) });
     Some (set_node w (\<lambda>n. n\<lparr>nd_fail := Some f\<rparr>) st) }"

text \<open>The two stacks of the breadth-first walk, their tops first.\<close>

fun fail_level :: "path list \<Rightarrow> path list \<Rightarrow> acmp \<Rightarrow> (path list \<times> acmp) option" where
  "fail_level [] arr2 st = Some (arr2, st)"
| "fail_level (w # arr) arr2 st = do {
     st \<leftarrow> fail_node w st;
     node \<leftarrow> ac_nodes st w;
     fail_level arr (rev (map (\<lambda>c. w @ [c]) (nd_children node)) @ arr2) st }"

partial_function (option) fail_levels :: "path list \<Rightarrow> acmp \<Rightarrow> acmp option" where
  "fail_levels arr st = do {
     r \<leftarrow> fail_level arr [] st;
     if fst r = [] then Some (snd r) else fail_levels (fst r) (snd r) }"

text \<open>The first node on the failure chain that ends a phrase.\<close>

partial_function (option) first_last :: "acmp \<Rightarrow> path \<Rightarrow> path option option" where
  "first_last st om =
     (if om = [] then Some None
      else do {
        node \<leftarrow> ac_nodes st om;
        if nd_is_last node then Some (Some om)
        else do { f \<leftarrow> nd_fail node; first_last st f } })"

fun connect_children :: "path list \<Rightarrow> acmp \<Rightarrow> acmp option" where
  "connect_children [] st = Some st"
| "connect_children (w # ws) st = do {
     node \<leftarrow> ac_nodes st w;
     st \<leftarrow> (case nd_fail node of
              None \<Rightarrow> Some st
            | Some f \<Rightarrow> do {
                om \<leftarrow> first_last st f;
                Some (case om of None \<Rightarrow> st | Some g \<Rightarrow> set_node w (\<lambda>n. n\<lparr>nd_o_match := Some g\<rparr>) st) });
     connect_children ws st }"

definition child_nodes :: "acmp \<Rightarrow> path \<Rightarrow> path list option" where
  "child_nodes st w = map_option (\<lambda>node. map (\<lambda>c. w @ [c]) (nd_children node)) (ac_nodes st w)"

definition has_child :: "acmp \<Rightarrow> path \<Rightarrow> bool" where
  "has_child st w \<longleftrightarrow> (case ac_nodes st w of None \<Rightarrow> False | Some node \<Rightarrow> nd_children node \<noteq> [])"

text \<open>The recursion over the trie; the list is what is left to do.\<close>

partial_function (option) acmp_connect_other_matches :: "path list \<Rightarrow> acmp \<Rightarrow> acmp option" where
  "acmp_connect_other_matches todo st =
     (case todo of
        [] \<Rightarrow> Some st
      | w # todo \<Rightarrow> do {
          ws \<leftarrow> child_nodes st w;
          st \<leftarrow> connect_children ws st;
          acmp_connect_other_matches (filter (has_child st) ws @ todo) st })"

section \<open>Binary trees of the children\<close>

text \<open>The inner loop of the exchange sort: the element at \<open>i\<close> against the ones behind it.\<close>

fun exchange :: "int \<Rightarrow> int list \<Rightarrow> int \<times> int list" where
  "exchange x [] = (x, [])"
| "exchange x (y # ys) =
     (if x < y then let (m, r) = exchange x ys in (m, y # r)
      else let (m, r) = exchange y ys in (m, x # r))"

lemma length_exchange: "length (snd (exchange x ys)) = length ys"
  by (induction x ys rule: exchange.induct) (auto simp: case_prod_beta Let_def)

function exchange_sort :: "int list \<Rightarrow> int list" where
  "exchange_sort [] = []"
| "exchange_sort (x # xs) = fst (exchange x xs) # exchange_sort (snd (exchange x xs))"
  by pat_completeness auto
termination
  by (relation "measure length") (auto simp: length_exchange)

function acmp_add_btree_leaves :: "path \<Rightarrow> int list \<Rightarrow> int \<Rightarrow> int \<Rightarrow> int \<Rightarrow> btree" where
  "acmp_add_btree_leaves w nodes pos lb rb =
     Bnode (nodes ! nat pos) (w @ [nodes ! nat pos])
       (if pos - lb > 1 \<and> rb > pos then acmp_add_btree_leaves w nodes (lb + (pos - lb) div 2) lb pos else Tip)
       (if rb - pos > 1 \<and> pos > lb then acmp_add_btree_leaves w nodes (pos + (rb - pos) div 2) pos rb else Tip)"
  by pat_completeness auto
termination
  by (relation "measure (\<lambda>(w, nodes, pos, lb, rb). nat (rb - lb))") auto

declare acmp_add_btree_leaves.simps [simp del]

definition build_btree :: "path \<Rightarrow> int list \<Rightarrow> btree" where
  "build_btree w children =
     (let nodes = exchange_sort children; count = int (length nodes) in
      acmp_add_btree_leaves w nodes (count div 2) (-1) count)"

partial_function (option) acmp_build_binary_tree :: "path list \<Rightarrow> acmp \<Rightarrow> acmp option" where
  "acmp_build_binary_tree todo st =
     (case todo of
        [] \<Rightarrow> Some st
      | w # todo \<Rightarrow> do {
          node \<leftarrow> ac_nodes st w;
          let st = set_node w (\<lambda>n. n\<lparr>nd_btree := build_btree w (nd_children n)\<rparr>) st;
          let ws = map (\<lambda>c. w @ [c]) (exchange_sort (nd_children node));
          acmp_build_binary_tree (filter (has_child st) ws @ todo) st })"

section \<open>Preparing and searching\<close>

definition acmp_connect_fail_branches :: "acmp \<Rightarrow> acmp option" where
  "acmp_connect_fail_branches st =
     (if ac_failtree_done st then Some st
      else do {
        let st = set_node [] (\<lambda>n. n\<lparr>nd_text := [], nd_fail := Some []\<rparr>) st;
        ws \<leftarrow> child_nodes st [];
        let st = fold (\<lambda>w. set_node w (\<lambda>n. n\<lparr>nd_fail := Some []\<rparr>)) ws st;
        st \<leftarrow> fail_levels (rev ws) st;
        st \<leftarrow> acmp_connect_other_matches [[]] st;
        st \<leftarrow> (if has_child st [] then acmp_build_binary_tree [[]] st else Some st);
        Some (st\<lparr>ac_failtree_done := True\<rparr>) })"

definition acmp_prepare :: "acmp \<Rightarrow> acmp option" where
  "acmp_prepare st = do {
     st \<leftarrow> acmp_connect_fail_branches st;
     Some (st\<lparr>ac_active := True\<rparr>) }"

fun acmp_btree_find :: "btree \<Rightarrow> int \<Rightarrow> path option" where
  "acmp_btree_find Tip letter = None"
| "acmp_btree_find (Bnode l node left right) letter =
     (if l = letter then Some node
      else if l > letter then acmp_btree_find left letter
      else acmp_btree_find right letter)"

text \<open>The loop over the failure links: a phrase that ends here, or the node to go on from.\<close>

datatype goto_result = Matched bytes | Goto path

partial_function (option) goto_loop :: "acmp \<Rightarrow> int \<Rightarrow> path \<Rightarrow> goto_result option" where
  "goto_loop st letter w = do {
     node \<leftarrow> ac_nodes st w;
     case acmp_btree_find (nd_btree node) letter of
       Some g \<Rightarrow> do {
         next_node \<leftarrow> ac_nodes st g;
         Some (if nd_is_last next_node then Matched (nd_text next_node) else Goto g) }
     | None \<Rightarrow>
         if w = [] then Some (Goto w)
         else do { f \<leftarrow> nd_fail node; goto_loop st letter f } }"

fun search_loop :: "acmp \<Rightarrow> path \<Rightarrow> bytes \<Rightarrow> (int \<times> bytes option \<times> path) option" where
  "search_loop st w [] = Some (0, None, w)"
| "search_loop st w (c # data) = do {
     let letter = (if ac_case_sensitive st then uint c else utf8_lcase (uint c));
     r \<leftarrow> goto_loop st letter w;
     case r of
       Matched txt \<Rightarrow> Some (1, Some txt, w)
     | Goto g \<Rightarrow> do {
         node \<leftarrow> ac_nodes st g;
         if nd_o_match node \<noteq> None then Some (1, Some (nd_text node), w)
         else search_loop st g data } }"

text \<open>\<open>acmpt->ptr\<close> keeps its old value when a phrase was found. The result: the return value, \<open>*match\<close>, the new value of
  \<open>acmpt->ptr\<close>, and the parser.\<close>

definition acmp_process_quick :: "acmp \<Rightarrow> path option \<Rightarrow> bytes \<Rightarrow> nat \<Rightarrow> (int \<times> bytes option \<times> path \<times> acmp) option" where
  "acmp_process_quick st ptr data len = do {
     st \<leftarrow> (if ac_failtree_done st then Some st else acmp_prepare st);
     let start = (case ptr of None \<Rightarrow> [] | Some w \<Rightarrow> w);
     if len \<le> length data then do {
       (rc, match, w) \<leftarrow> search_loop st start (take len data);
       Some (rc, match, (if rc = 1 then start else w), st) }
     else None }"

section \<open>The automaton\<close>

text \<open>The links of a trie, given by the set \<open>D\<close> of its nodes and the set \<open>W\<close> of its phrases.\<close>

function link :: "path set \<Rightarrow> path \<Rightarrow> path" where
  "link D w =
     (if length w \<le> 1 then []
      else let g = link D (butlast w) @ [List.last w] in if g \<in> D then g else [])"
  by pat_completeness auto
termination by (relation "measure (\<lambda>(D, w). length w)") auto

declare link.simps [simp del]

lemma link_short: "w \<noteq> [] \<Longrightarrow> length (link D w) < length w"
proof (induction D w rule: link.induct)
  case (1 D w)
  show ?case
  proof (cases "length w \<le> 1")
    case True
    then show ?thesis using 1(2) by (simp add: link.simps [of D w])
  next
    case False
    then have "butlast w \<noteq> []" by (metis One_nat_def butlast.simps(1) diff_is_0_eq length_butlast list.size(3) not_le)
    then have "length (link D (butlast w)) < length (butlast w)" using 1(1) False by simp
    then show ?thesis using False by (auto simp: link.simps [of D w] Let_def)
  qed
qed

lemma link_suffix: "suffix (link D w) w"
proof (induction D w rule: link.induct)
  case (1 D w)
  show ?case
  proof (cases "length w \<le> 1")
    case True
    then show ?thesis by (simp add: link.simps [of D w])
  next
    case False
    then have "w \<noteq> []" by auto
    have "suffix (link D (butlast w)) (butlast w)" using 1 False by simp
    then have "suffix (link D (butlast w) @ [List.last w]) (butlast w @ [List.last w])" by (simp add: suffix_def)
    then show ?thesis using False \<open>w \<noteq> []\<close> by (simp add: link.simps [of D w] Let_def)
  qed
qed

lemma link_in: "[] \<in> D \<Longrightarrow> link D w \<in> D"
  by (subst link.simps) (simp add: Let_def)

text \<open>The first phrase on the way along the links.\<close>

function ends :: "path set \<Rightarrow> path set \<Rightarrow> path \<Rightarrow> path option" where
  "ends D W w = (if w = [] then None else if w \<in> W then Some w else ends D W (link D w))"
  by pat_completeness auto
termination by (relation "measure (\<lambda>(D, W, w). length w)") (auto intro: link_short)

declare ends.simps [simp del]

function step_from :: "path set \<Rightarrow> int \<Rightarrow> path \<Rightarrow> path" where
  "step_from D c w = (if w @ [c] \<in> D then w @ [c] else if w = [] then [] else step_from D c (link D w))"
  by pat_completeness auto
termination by (relation "measure (\<lambda>(D, c, w). length w)") (auto intro: link_short)

declare step_from.simps [simp del]

fun ac_scan :: "path set \<Rightarrow> path set \<Rightarrow> path \<Rightarrow> int list \<Rightarrow> path option" where
  "ac_scan D W w [] = None"
| "ac_scan D W w (c # cs) =
     (let g = step_from D c w in if ends D W g \<noteq> None then Some g else ac_scan D W g cs)"

lemma ends_Some: "ends D W w = Some v \<Longrightarrow> v \<in> W \<and> v \<noteq> [] \<and> suffix v w"
proof (induction D W w rule: ends.induct)
  case (1 D W w)
  show ?case
  proof (cases "w = [] \<or> w \<in> W")
    case True
    then show ?thesis using "1.prems" by (auto simp: ends.simps [of D W w] split: if_splits)
  next
    case False
    then have "v \<in> W \<and> v \<noteq> [] \<and> suffix v (link D w)" using 1 by (simp add: ends.simps [of D W w])
    then show ?thesis using link_suffix [of D w] by (meson suffix_order.trans)
  qed
qed

lemma step_from_suffix: "suffix w past \<Longrightarrow> suffix (step_from D c w) (past @ [c])"
proof (induction D c w rule: step_from.induct)
  case (1 D c w)
  show ?case
  proof (cases "w @ [c] \<in> D \<or> w = []")
    case True
    then show ?thesis using "1.prems" by (auto simp: step_from.simps [of D c w] suffix_def)
  next
    case False
    have "suffix (link D w) past" using link_suffix [of D w] "1.prems" by (meson suffix_order.trans)
    then show ?thesis using 1 False by (simp add: step_from.simps [of D c w])
  qed
qed

definition occurs :: "path \<Rightarrow> path \<Rightarrow> bool" where
  "occurs v t \<longleftrightarrow> (\<exists>pre post. t = pre @ v @ post)"

lemma occurs_suffix: "suffix v past \<Longrightarrow> occurs v (past @ rest)"
  unfolding suffix_def occurs_def by (metis append.assoc)

text \<open>What is found does occur.\<close>

lemma ac_scan_sound: "ac_scan D W w cs = Some g \<Longrightarrow> suffix w past \<Longrightarrow> \<exists>v\<in>W. occurs v (past @ cs)"
proof (induction D W w cs arbitrary: past rule: ac_scan.induct)
  case (1 D W w)
  then show ?case by simp
next
  case (2 D W w c cs)
  let ?g = "step_from D c w"
  have suf: "suffix ?g (past @ [c])" using 2(3) by (rule step_from_suffix)
  show ?case
  proof (cases "ends D W ?g")
    case (Some v)
    then have "v \<in> W" "suffix v (past @ [c])" using ends_Some suf by (meson suffix_order.trans)+
    then show ?thesis using occurs_suffix [of v "past @ [c]" cs] by auto
  next
    case None
    then have "ac_scan D W ?g cs = Some g" using 2(2) by (simp add: Let_def)
    then have "\<exists>v\<in>W. occurs v ((past @ [c]) @ cs)" using 2(1) [OF refl _ _ suf] None by blast
    then show ?thesis by simp
  qed
qed

text \<open>When every link is the longest suffix that is a node, nothing is missed.\<close>

definition links_right :: "path set \<Rightarrow> bool" where
  "links_right D \<longleftrightarrow> (\<forall>w\<in>D. \<forall>v\<in>D. suffix v w \<and> v \<noteq> w \<longrightarrow> suffix v (link D w))"

definition longest :: "path set \<Rightarrow> path \<Rightarrow> path \<Rightarrow> bool" where
  "longest D past w \<longleftrightarrow> w \<in> D \<and> suffix w past \<and> (\<forall>v\<in>D. suffix v past \<longrightarrow> suffix v w)"

lemma suffix_snoc_iff: "suffix v (past @ [c]) \<longleftrightarrow> v = [] \<or> (\<exists>u. v = u @ [c] \<and> suffix u past)"
  by (cases v rule: rev_cases) (auto simp: suffix_def)

text \<open>A set of nodes holds the root and with a node its parent.\<close>

definition tree_set :: "path set \<Rightarrow> bool" where
  "tree_set D \<longleftrightarrow> [] \<in> D \<and> (\<forall>u c. u @ [c] \<in> D \<longrightarrow> u \<in> D)"

lemma step_from_longest:
  assumes "links_right D" "tree_set D"
  shows "\<forall>u. u @ [c] \<in> D \<longrightarrow> suffix u past \<longrightarrow> suffix u w \<Longrightarrow> w \<in> D \<Longrightarrow> suffix w past \<Longrightarrow>
    longest D (past @ [c]) (step_from D c w)"
proof (induction "length w" arbitrary: w rule: less_induct)
  case less
  show ?case
  proof (cases "w @ [c] \<in> D")
    case True
    have "suffix v (w @ [c])" if "v \<in> D" "suffix v (past @ [c])" for v
      using that less.prems(1) by (auto simp: suffix_snoc_iff)
    then show ?thesis using True less.prems(3) by (auto simp: longest_def step_from.simps [of D c w] suffix_snoc_iff)
  next
    case out: False
    show ?thesis
    proof (cases "w = []")
      case True
      have "v = []" if "v \<in> D" "suffix v (past @ [c])" for v
        using that less.prems(1) out True by (auto simp: suffix_snoc_iff)
      moreover have "step_from D c [] = []" using out True by (simp add: step_from.simps [of D c "[]"])
      ultimately show ?thesis using True assms(2) by (auto simp: longest_def tree_set_def)
    next
      case False
      have "suffix u (link D w)" if "u @ [c] \<in> D" "suffix u past" for u
      proof -
        have "suffix u w" "u \<in> D" "u \<noteq> w" using that less.prems(1) out assms(2) by (auto simp: tree_set_def)
        then show ?thesis using assms(1) less.prems(2) by (auto simp: links_right_def)
      qed
      moreover have "link D w \<in> D" using assms(2) link_in by (auto simp: tree_set_def)
      moreover have "suffix (link D w) past" using link_suffix [of D w] less.prems(3) by (meson suffix_order.trans)
      ultimately have "longest D (past @ [c]) (step_from D c (link D w))"
        using less.hyps [OF link_short [OF False]] by blast
      then show ?thesis using out False by (simp add: step_from.simps [of D c w])
    qed
  qed
qed

lemma ends_complete:
  assumes "links_right D" "tree_set D" "W \<subseteq> D"
  shows "g \<in> D \<Longrightarrow> v \<in> W \<Longrightarrow> v \<noteq> [] \<Longrightarrow> suffix v g \<Longrightarrow> ends D W g \<noteq> None"
proof (induction "length g" arbitrary: g rule: less_induct)
  case less
  show ?case
  proof (cases "g \<in> W")
    case True
    then show ?thesis using less.prems by (auto simp: ends.simps [of D W g])
  next
    case False
    have "g \<noteq> []" using less.prems by auto
    have "v \<noteq> g" using False less.prems(2) by auto
    then have "suffix v (link D g)" using assms(1,3) less.prems by (auto simp: links_right_def)
    then have "ends D W (link D g) \<noteq> None"
      using less.hyps [OF link_short [OF \<open>g \<noteq> []\<close>]] link_in [of D g] assms(2) less.prems by (auto simp: tree_set_def)
    then show ?thesis using False \<open>g \<noteq> []\<close> by (simp add: ends.simps [of D W g])
  qed
qed

lemma ac_scan_complete:
  assumes "links_right D" "tree_set D" "W \<subseteq> D"
  shows "ac_scan D W w cs = None \<Longrightarrow> longest D past w \<Longrightarrow> v \<in> W \<Longrightarrow> v \<noteq> [] \<Longrightarrow>
    \<not> (\<exists>k\<le>length cs. 0 < k \<and> suffix v (past @ take k cs))"
proof (induction cs arbitrary: w past)
  case Nil
  then show ?case by simp
next
  case (Cons c cs)
  let ?g = "step_from D c w"
  have long: "longest D (past @ [c]) ?g"
  proof (rule step_from_longest [OF assms(1,2)])
    show "\<forall>u. u @ [c] \<in> D \<longrightarrow> suffix u past \<longrightarrow> suffix u w"
      using Cons.prems(2) assms(2) by (auto simp: longest_def tree_set_def)
  qed (use Cons.prems(2) in \<open>simp_all add: longest_def\<close>)
  have none: "ends D W ?g = None" "ac_scan D W ?g cs = None"
    using Cons.prems(1) by (simp_all add: Let_def split: if_splits)
  have here: "\<not> suffix v (past @ [c])"
  proof
    assume "suffix v (past @ [c])"
    then have "suffix v ?g" "?g \<in> D" using long Cons.prems(3) assms(3) unfolding longest_def by blast+
    then show False using ends_complete [OF assms \<open>?g \<in> D\<close> Cons.prems(3,4)] none(1) by blast
  qed
  have "\<not> (\<exists>k\<le>length cs. 0 < k \<and> suffix v ((past @ [c]) @ take k cs))"
    by (rule Cons.IH [OF none(2) long Cons.prems(3,4)])
  then have later: "\<not> suffix v (past @ c # take m cs)" if "m \<le> length cs" "0 < m" for m using that by auto
  show ?case
  proof (intro notI, elim exE conjE)
    fix k
    assume k: "k \<le> length (c # cs)" "0 < k" "suffix v (past @ take k (c # cs))"
    then obtain m where m: "k = Suc m" by (cases k) auto
    then show False using k later [of m] here by (cases "m = 0") auto
  qed
qed

lemma occurs_suffix_take: "occurs v t \<longleftrightarrow> (\<exists>k\<le>length t. suffix v (take k t))"
proof
  assume "occurs v t"
  then obtain pre post where t: "t = pre @ v @ post" by (auto simp: occurs_def)
  have "suffix v (take (length (pre @ v)) t)" by (simp add: t suffix_def)
  then show "\<exists>k\<le>length t. suffix v (take k t)" using t by (intro exI [of _ "length (pre @ v)"]) simp
next
  assume "\<exists>k\<le>length t. suffix v (take k t)"
  then obtain k where "suffix v (take k t)" by blast
  then show "occurs v t" using occurs_suffix [of v "take k t" "drop k t"] by simp
qed

lemma ac_scan_found:
  assumes "links_right D" "tree_set D" "W \<subseteq> D" "[] \<notin> W"
  shows "ac_scan D W [] cs \<noteq> None \<longleftrightarrow> (\<exists>v\<in>W. occurs v cs)"
proof
  show "\<exists>v\<in>W. occurs v cs" if "ac_scan D W [] cs \<noteq> None"
    using that ac_scan_sound [of D W "[]" cs _ "[]"] by auto
next
  assume "\<exists>v\<in>W. occurs v cs"
  then obtain v k where v: "v \<in> W" "k \<le> length cs" "suffix v (take k cs)" by (auto simp: occurs_suffix_take)
  have "v \<noteq> []" using v(1) assms(4) by auto
  then have "0 < k" using v(3) by (cases k) auto
  have "longest D [] []" using assms(2) by (auto simp: longest_def tree_set_def)
  then show "ac_scan D W [] cs \<noteq> None"
    using ac_scan_complete [OF assms(1-3), of "[]" cs "[]" v] v \<open>v \<noteq> []\<close> \<open>0 < k\<close> by auto
qed

text \<open>A condition on the phrases: the first letter of a phrase is nowhere else in a phrase.\<close>

lemma links_right_first:
  assumes "tree_set D" "\<And>w. w \<in> D \<Longrightarrow> w \<noteq> [] \<Longrightarrow> [hd w] \<in> D" "\<And>w c. w \<in> D \<Longrightarrow> w \<noteq> [] \<Longrightarrow> c \<in> set (tl w) \<Longrightarrow> [c] \<notin> D"
  shows "links_right D"
  unfolding links_right_def
proof (intro ballI impI, elim conjE)
  fix w v
  assume v: "w \<in> D" "v \<in> D" "suffix v w" "v \<noteq> w"
  have "v = []"
  proof (rule ccontr)
    assume "v \<noteq> []"
    obtain u where u: "w = u @ v" "u \<noteq> []" using v(3,4) by (auto simp: suffix_def)
    then have "hd v \<in> set (tl w)" using \<open>v \<noteq> []\<close> by (cases u) auto
    then have "[hd v] \<notin> D" using assms(3) v(1) u by auto
    then show False using assms(2) [OF v(2) \<open>v \<noteq> []\<close>] by simp
  qed
  then show "suffix v (link D w)" by simp
qed

section \<open>Building the trie\<close>

definition letter_of :: "bool \<Rightarrow> int \<Rightarrow> int" where
  "letter_of cs a = (if cs then a else utf8_lcase a)"

definition letters :: "bool \<Rightarrow> bytes \<Rightarrow> path" where
  "letters cs s = map (\<lambda>c. letter_of cs (sint c)) s"

definition trie :: "bool \<Rightarrow> path set \<Rightarrow> path set \<Rightarrow> (path \<Rightarrow> acmp_node option) \<Rightarrow> bool" where
  "trie cs D W N \<longleftrightarrow> dom N = D \<and> tree_set D \<and> W \<subseteq> D \<and>
     (\<forall>w n. N w = Some n \<longrightarrow>
        distinct (nd_children n) \<and> (\<forall>c. c \<in> set (nd_children n) \<longleftrightarrow> w @ [c] \<in> D) \<and> (nd_is_last n \<longleftrightarrow> w \<in> W) \<and>
        (w \<noteq> [] \<longrightarrow> nd_letter n = List.last w \<and> letters cs (nd_text n) = w))"

definition bare :: "(path \<Rightarrow> acmp_node option) \<Rightarrow> bool" where
  "bare N \<longleftrightarrow> (\<forall>w n. N w = Some n \<longrightarrow> nd_fail n = None \<and> nd_o_match n = None \<and> nd_btree n = Tip)"

lemma trieD:
  assumes "trie cs D W N" "N w = Some n"
  shows "distinct (nd_children n)" "c \<in> set (nd_children n) \<longleftrightarrow> w @ [c] \<in> D" "nd_is_last n \<longleftrightarrow> w \<in> W"
    "w \<noteq> [] \<Longrightarrow> nd_letter n = List.last w" "w \<noteq> [] \<Longrightarrow> letters cs (nd_text n) = w"
  using assms unfolding trie_def by blast+

lemma trie_in: "trie cs D W N \<Longrightarrow> w \<in> D \<Longrightarrow> \<exists>n. N w = Some n"
  unfolding trie_def by blast

lemma child_for_code:
  assumes "trie cs D W (ac_nodes st)" "w \<in> D"
  shows "acmp_child_for_code st w c = Some (if w @ [c] \<in> D then Some (w @ [c]) else None)"
proof -
  obtain n where n: "ac_nodes st w = Some n" using trie_in [OF assms] by blast
  have "find (\<lambda>x. x = c) xs = (if c \<in> set xs then Some c else None)" for xs
    by (induction xs) auto
  then show ?thesis using n trieD(2) [OF assms(1) n, of c] by (simp add: acmp_child_for_code_def)
qed

lemma trie_add:
  assumes "trie cs D W N" "parent \<in> D" "child = parent @ [c]" "letters cs txt = child"
    and node: "node = (case N child of None \<Rightarrow> fresh_node c i txt | Some n \<Rightarrow> n)" and pn: "N parent = Some pn"
  shows "trie cs (insert child D) (if fin then insert child W else W)
    (N(child \<mapsto> node\<lparr>nd_is_last := nd_is_last node \<or> fin\<rparr>,
       parent \<mapsto> (if c \<in> set (nd_children pn) then pn else pn\<lparr>nd_children := nd_children pn @ [c]\<rparr>)))"
  (is "trie cs ?D ?W ?N")
proof -
  have neq: "child \<noteq> parent" "child \<noteq> []" using assms(3) by simp_all
  note P = trieD [OF assms(1) pn]
  have ts: "tree_set D" "dom N = D" "W \<subseteq> D" using assms(1) by (simp_all add: trie_def)
  have new: "u @ [d] \<noteq> child" if "child \<notin> D" "u \<noteq> parent" for u d using that assms(3) by auto
  have under: "child @ [d] \<notin> D" if "child \<notin> D" for d using that ts(1) by (auto simp: tree_set_def)
  have "tree_set ?D" using ts(1) assms(2,3) by (auto simp: tree_set_def)
  moreover have "dom ?N = ?D" using ts(2) assms(2) by auto
  moreover have "distinct (nd_children n) \<and> (\<forall>d. d \<in> set (nd_children n) \<longleftrightarrow> w @ [d] \<in> ?D) \<and> (nd_is_last n \<longleftrightarrow> w \<in> ?W) \<and>
        (w \<noteq> [] \<longrightarrow> nd_letter n = List.last w \<and> letters cs (nd_text n) = w)" if w: "?N w = Some n" for w n
  proof -
    consider "w = parent" | "w = child" | "w \<noteq> parent" "w \<noteq> child" by blast
    then show ?thesis
    proof cases
      case 1
      then have n: "n = (if c \<in> set (nd_children pn) then pn else pn\<lparr>nd_children := nd_children pn @ [c]\<rparr>)" using w by simp
      show ?thesis using P neq 1 assms(3) unfolding n by auto
    next
      case 2
      then have n: "n = node\<lparr>nd_is_last := nd_is_last node \<or> fin\<rparr>" using w neq by simp
      show ?thesis
      proof (cases "N child")
        case None
        then have "child \<notin> D" using ts(2) by auto
        moreover have "child \<notin> W" using \<open>child \<notin> D\<close> ts(3) by auto
        ultimately show ?thesis using None assms(3,4) under [OF \<open>child \<notin> D\<close>] unfolding n node 2 by (auto simp: fresh_node_def)
      next
        case (Some m)
        then have "node = m" "child \<in> D" using ts(2) by (auto simp: node)
        then show ?thesis using trieD [OF assms(1) Some] neq unfolding n 2 by auto
      qed
    next
      case 3
      then have n: "N w = Some n" using w by simp
      show ?thesis using trieD [OF assms(1) n] 3 assms(3) by auto
    qed
  qed
  moreover have "?W \<subseteq> ?D" using ts(3) by auto
  ultimately show ?thesis unfolding trie_def by blast
qed

lemma bareD: "bare N \<Longrightarrow> N w = Some n \<Longrightarrow> nd_fail n = None \<and> nd_o_match n = None \<and> nd_btree n = Tip"
  unfolding bare_def by blast

lemma add_letter:
  assumes "trie cs D W (ac_nodes st)" "bare (ac_nodes st)" "cs = ac_case_sensitive st" "parent \<in> D" "i < length pattern"
    "letters cs (take i pattern) = parent" "c = letter_of cs (sint (pattern ! i))"
  shows "\<exists>st'. add_letters pattern i parent (sint (pattern ! i) # rest) st = add_letters pattern (i + 1) (parent @ [c]) rest st' \<and>
    trie cs (insert (parent @ [c]) D) (if rest = [] then insert (parent @ [c]) W else W) (ac_nodes st') \<and> bare (ac_nodes st') \<and>
    ac_case_sensitive st' = ac_case_sensitive st \<and> ac_failtree_done st' = ac_failtree_done st \<and> ac_active st' = ac_active st"
proof -
  let ?N = "ac_nodes st" and ?child = "parent @ [c]"
  obtain pn where pn: "?N parent = Some pn" using trie_in [OF assms(1,4)] by blast
  define node where "node = (case ?N ?child of None \<Rightarrow> fresh_node c i (take (i + 1) pattern) | Some n \<Rightarrow> n)"
  have tx: "letters cs (take (i + 1) pattern) = ?child"
    using assms(5-7) by (simp add: take_Suc_conv_app_nth letters_def)
  define st1 where "st1 = (if acmp_child_for_code st parent c = Some None
     then st\<lparr>ac_nodes := ?N(?child \<mapsto> fresh_node c i (take (i + 1) pattern))\<rparr> else st)"
  have "?N ?child = None \<longleftrightarrow> ?child \<notin> D" using assms(1) by (auto simp: trie_def)
  then have st1: "ac_nodes st1 = ?N(?child \<mapsto> node)" "ac_case_sensitive st1 = ac_case_sensitive st"
    "ac_failtree_done st1 = ac_failtree_done st" "ac_active st1 = ac_active st"
    using child_for_code [OF assms(1,4), of c] by (auto simp: st1_def node_def)
  define st2 where "st2 = (if rest = [] \<and> \<not> nd_is_last node
    then set_node ?child (\<lambda>n. n\<lparr>nd_is_last := True\<rparr>) (st1\<lparr>ac_dict_count := ac_dict_count st1 + 1\<rparr>) else st1)"
  have "nd_is_last node \<Longrightarrow> node\<lparr>nd_is_last := True\<rparr> = node" "\<not> nd_is_last node \<Longrightarrow> node\<lparr>nd_is_last := False\<rparr> = node"
    by (cases node, simp)+
  then have st2: "ac_nodes st2 = ?N(?child \<mapsto> node\<lparr>nd_is_last := nd_is_last node \<or> rest = []\<rparr>)"
    "ac_case_sensitive st2 = ac_case_sensitive st" "ac_failtree_done st2 = ac_failtree_done st" "ac_active st2 = ac_active st"
    using st1 by (auto simp: st2_def set_node_def)
  define st3 where "st3 = acmp_add_node_to_parent parent c st2"
  have st3: "ac_nodes st3 = ?N(?child \<mapsto> node\<lparr>nd_is_last := nd_is_last node \<or> rest = []\<rparr>,
     parent \<mapsto> (if c \<in> set (nd_children pn) then pn else pn\<lparr>nd_children := nd_children pn @ [c]\<rparr>))"
    "ac_case_sensitive st3 = ac_case_sensitive st" "ac_failtree_done st3 = ac_failtree_done st" "ac_active st3 = ac_active st"
    using st2 pn by (auto simp: st3_def acmp_add_node_to_parent_def set_node_def)
  have "(if ac_case_sensitive st then sint (pattern ! i) else utf8_lcase (sint (pattern ! i))) = c"
    using assms(3,7) by (simp add: letter_of_def)
  then have run: "add_letters pattern i parent (sint (pattern ! i) # rest) st = add_letters pattern (i + 1) ?child rest st3"
    using child_for_code [OF assms(1,4), of c] st1(1) by (simp add: st1_def st2_def st3_def Let_def)
  have "bare (ac_nodes st3)"
    using assms(2) bareD [OF assms(2) pn] bareD [OF assms(2), of ?child]
    unfolding st3(1) bare_def by (auto simp: node_def fresh_node_def split: option.splits)
  moreover have "trie cs (insert ?child D) (if rest = [] then insert ?child W else W) (ac_nodes st3)"
    unfolding st3(1) by (rule trie_add [OF assms(1,4) refl tx node_def pn])
  ultimately show ?thesis using run st3(2-4) by blast
qed

lemma add_letters_run:
  assumes "trie cs D W (ac_nodes st)" "bare (ac_nodes st)" "cs = ac_case_sensitive st" "parent \<in> D"
    "letters cs (take i pattern) = parent" "i + k \<le> length pattern" "us = map sint (take k (drop i pattern))" "ls = map (letter_of cs) us"
  shows "\<exists>st'. add_letters pattern i parent us st = Some st' \<and>
    trie cs (D \<union> (\<lambda>j. parent @ take j ls) ` {..length ls}) (if us = [] then W else insert (parent @ ls) W) (ac_nodes st') \<and>
    bare (ac_nodes st') \<and> ac_case_sensitive st' = ac_case_sensitive st \<and> ac_failtree_done st' = ac_failtree_done st \<and>
    ac_active st' = ac_active st"
  using assms
proof (induction k arbitrary: i parent us ls D W st)
  case 0
  then show ?case by (auto simp: insert_absorb)
next
  case (Suc k)
  let ?rest = "map sint (take k (drop (i + 1) pattern))"
  define c where "c = letter_of cs (sint (pattern ! i))"
  have us: "us = sint (pattern ! i) # ?rest"
    using Suc.prems(6,7) by (simp add: Cons_nth_drop_Suc [symmetric])
  have ls: "ls = c # map (letter_of cs) ?rest" using Suc.prems(8) by (simp add: us c_def)
  obtain st1 where st1: "add_letters pattern i parent us st = add_letters pattern (i + 1) (parent @ [c]) ?rest st1"
    "trie cs (insert (parent @ [c]) D) (if ?rest = [] then insert (parent @ [c]) W else W) (ac_nodes st1)" "bare (ac_nodes st1)"
    "ac_case_sensitive st1 = ac_case_sensitive st" "ac_failtree_done st1 = ac_failtree_done st" "ac_active st1 = ac_active st"
    using add_letter [OF Suc.prems(1-4) _ Suc.prems(5) c_def, of ?rest] Suc.prems(6) unfolding us by auto
  have tx: "letters cs (take (i + 1) pattern) = parent @ [c]"
    using Suc.prems(5,6) by (simp add: take_Suc_conv_app_nth letters_def c_def)
  obtain st' where st': "add_letters pattern (i + 1) (parent @ [c]) ?rest st1 = Some st'"
    "trie cs (insert (parent @ [c]) D \<union> (\<lambda>j. (parent @ [c]) @ take j (map (letter_of cs) ?rest)) ` {..length (map (letter_of cs) ?rest)})
       (if ?rest = [] then (if ?rest = [] then insert (parent @ [c]) W else W)
        else insert ((parent @ [c]) @ map (letter_of cs) ?rest) (if ?rest = [] then insert (parent @ [c]) W else W)) (ac_nodes st')"
    "bare (ac_nodes st')" "ac_case_sensitive st' = ac_case_sensitive st1" "ac_failtree_done st' = ac_failtree_done st1"
    "ac_active st' = ac_active st1"
    using Suc.IH [OF st1(2,3) _ _ tx _ refl refl] Suc.prems(3,6) st1(4) by auto
  have "D \<union> (\<lambda>j. parent @ take j ls) ` {..length ls} =
      insert (parent @ [c]) D \<union> (\<lambda>j. (parent @ [c]) @ take j (map (letter_of cs) ?rest)) ` {..length (map (letter_of cs) ?rest)}"
  proof -
    have "{..length ls} = insert 0 (Suc ` {..length ?rest})" by (simp add: ls atMost_Suc_eq_insert_0)
    then show ?thesis using Suc.prems(4) by (auto simp: image_image ls)
  qed
  moreover have "(if us = [] then W else insert (parent @ ls) W) =
       (if ?rest = [] then (if ?rest = [] then insert (parent @ [c]) W else W)
        else insert ((parent @ [c]) @ map (letter_of cs) ?rest) (if ?rest = [] then insert (parent @ [c]) W else W))"
    by (auto simp: us ls)
  ultimately show ?case using st1 st' by auto
qed

text \<open>The nodes of the phrases \<open>W\<close>.\<close>

definition nodes_of :: "path set \<Rightarrow> path set" where
  "nodes_of W = insert [] {u. \<exists>w\<in>W. prefix u w}"

lemma nodes_of_insert: "nodes_of (insert w W) = nodes_of W \<union> (\<lambda>j. take j w) ` {..length w}"
proof -
  have "prefix u w \<longleftrightarrow> u \<in> (\<lambda>j. take j w) ` {..length w}" for u
    using take_is_prefix [of _ w] by (auto simp: image_iff prefix_def intro: bexI [of _ "length u"])
  then show ?thesis by (auto simp: nodes_of_def)
qed

definition holds_trie :: "path set \<Rightarrow> acmp \<Rightarrow> bool" where
  "holds_trie W st \<longleftrightarrow> trie (ac_case_sensitive st) (nodes_of W) W (ac_nodes st) \<and> bare (ac_nodes st) \<and> \<not> ac_active st \<and> \<not> ac_failtree_done st"

lemma acmp_create_holds: "holds_trie {} (acmp_create cs)"
  by (auto simp: holds_trie_def trie_def bare_def acmp_create_def nodes_of_def tree_set_def fresh_node_def)

lemma add_pattern_run:
  assumes "holds_trie W st" "n = (if len = 0 then length p else len)" "n \<le> length p" "n \<noteq> 0"
  shows "\<exists>st'. acmp_add_pattern p len st = Some (0, st') \<and> holds_trie (insert (letters (ac_case_sensitive st) (take n p)) W) st' \<and>
    ac_case_sensitive st' = ac_case_sensitive st"
proof -
  let ?cs = "ac_case_sensitive st"
  have st: "trie ?cs (nodes_of W) W (ac_nodes st)" "bare (ac_nodes st)" "\<not> ac_active st"
    using assms(1) by (simp_all add: holds_trie_def)
  have root: "[] \<in> nodes_of W" by (simp add: nodes_of_def)
  let ?us = "map sint (take n (drop 0 p))"
  have ls: "map (letter_of ?cs) ?us = letters ?cs (take n p)" by (simp add: letters_def)
  have us: "?us \<noteq> []" using assms(3,4) by (cases p) auto
  obtain st' where st': "add_letters p 0 [] ?us st = Some st'"
    "trie ?cs (nodes_of W \<union> (\<lambda>j. [] @ take j (letters ?cs (take n p))) ` {..length (letters ?cs (take n p))})
      (insert ([] @ letters ?cs (take n p)) W) (ac_nodes st')"
    "bare (ac_nodes st')" "ac_case_sensitive st' = ?cs" "ac_active st' = ac_active st"
    using add_letters_run [OF st(1,2) refl root _ _ refl ls [symmetric]] assms(3) us by (auto simp: letters_def)
  then show ?thesis
    using assms st(3) by (simp add: acmp_add_pattern_def acmp_strtoucs_def holds_trie_def nodes_of_insert Let_def)
qed

section \<open>Preparing the trie\<close>

lemma butlast_in:
  assumes "trie cs D W N" "u \<in> D" "u \<noteq> []"
  shows "butlast u \<in> D"
proof -
  have "butlast u @ [List.last u] \<in> D" using assms(2,3) by simp
  then show ?thesis using assms(1) unfolding trie_def tree_set_def by blast
qed

lemma trie_cong:
  assumes "trie cs D W N" "\<And>w. N' w = map_option (h w) (N w)"
    "\<And>w n. N w = Some n \<Longrightarrow> nd_children (h w n) = nd_children n \<and> nd_is_last (h w n) = nd_is_last n \<and> nd_letter (h w n) = nd_letter n \<and>
      (w \<noteq> [] \<longrightarrow> nd_text (h w n) = nd_text n)"
  shows "trie cs D W N'"
proof -
  have "dom N' = dom N" using assms(2) by (auto simp: dom_def)
  moreover have "distinct (nd_children m) \<and> (\<forall>c. c \<in> set (nd_children m) \<longleftrightarrow> w @ [c] \<in> D) \<and> (nd_is_last m \<longleftrightarrow> w \<in> W) \<and>
        (w \<noteq> [] \<longrightarrow> nd_letter m = List.last w \<and> letters cs (nd_text m) = w)" if nw: "N' w = Some m" for w m
  proof -
    obtain n where n: "N w = Some n" "m = h w n" using nw assms(2) [of w] by auto
    show ?thesis using trieD [OF assms(1) n(1)] assms(3) [OF n(1)] n(2) by auto
  qed
  ultimately show ?thesis using assms(1) unfolding trie_def by blast
qed

definition with_fail :: "path set \<Rightarrow> path set \<Rightarrow> (path \<Rightarrow> acmp_node option) \<Rightarrow> (path \<Rightarrow> acmp_node option)" where
  "with_fail D S N = (\<lambda>w. if w \<in> S then map_option (\<lambda>n. n\<lparr>nd_fail := Some (link D w)\<rparr>) (N w) else N w)"

lemma with_fail_Un: "with_fail D S (with_fail D T N) = with_fail D (S \<union> T) N"
  by (rule ext) (auto simp: with_fail_def option.map_comp comp_def)

lemma trie_with_fail: "trie cs D W N \<Longrightarrow> trie cs D W (with_fail E S N)"
  by (rule trie_cong [where h = "\<lambda>w n. if w \<in> S then n\<lparr>nd_fail := Some (link E w)\<rparr> else n"])
    (auto simp: with_fail_def option.map_ident split: option.splits)

definition failing :: "path set \<Rightarrow> path \<Rightarrow> (path \<Rightarrow> acmp_node option) \<Rightarrow> bool" where
  "failing D w N \<longleftrightarrow> (\<exists>n. N w = Some n \<and> nd_fail n = Some (link D w))"

lemma failing_with_fail: "trie cs D W N \<Longrightarrow> w \<in> D \<Longrightarrow> w \<in> S \<or> failing D w N \<Longrightarrow> failing D w (with_fail D S N)"
  using trie_in [of cs D W N w] by (auto simp: failing_def with_fail_def)

lemma fail_node_run:
  assumes "trie cs D W (ac_nodes st)" "w \<in> D" "w \<noteq> []" "butlast w \<noteq> [] \<Longrightarrow> failing D (butlast w) (ac_nodes st)"
  shows "fail_node w st = Some (st\<lparr>ac_nodes := with_fail D {w} (ac_nodes st)\<rparr>)"
proof -
  obtain n where n: "ac_nodes st w = Some n" using trie_in [OF assms(1,2)] by blast
  have root: "[] \<in> D" using assms(1) by (simp add: trie_def tree_set_def)
  have set: "set_node w (\<lambda>n. n\<lparr>nd_fail := Some (link D w)\<rparr>) st = st\<lparr>ac_nodes := with_fail D {w} (ac_nodes st)\<rparr>"
    by (simp add: set_node_def with_fail_def fun_upd_def cong: if_cong)
  show ?thesis
  proof (cases "butlast w = []")
    case True
    then have "length w \<le> 1" by (metis One_nat_def diff_is_0_eq length_butlast list.size(3))
    then have "link D w = []" by (simp add: link.simps [of D w])
    then show ?thesis using True n set by (simp add: fail_node_def)
  next
    case False
    then have "\<not> length w \<le> 1" by (metis One_nat_def diff_is_0_eq length_0_conv length_butlast)
    then have "link D w = (if link D (butlast w) @ [List.last w] \<in> D then link D (butlast w) @ [List.last w] else [])"
      by (subst link.simps) (simp add: Let_def)
    moreover obtain pn where "ac_nodes st (butlast w) = Some pn" "nd_fail pn = Some (link D (butlast w))"
      using assms(4) [OF False] by (auto simp: failing_def)
    moreover have "nd_letter n = List.last w" using trieD(4) [OF assms(1) n assms(3)] .
    ultimately show ?thesis
      using False n set child_for_code [OF assms(1) link_in [OF root], of "butlast w" "List.last w"]
      by (auto simp: fail_node_def)
  qed
qed

lemma fail_level_run:
  assumes "trie cs D W (ac_nodes st)" "\<forall>w\<in>set arr. w \<in> D \<and> length w = Suc k" "\<forall>u\<in>D. u \<noteq> [] \<and> length u \<le> k \<longrightarrow> failing D u (ac_nodes st)"
  shows "\<exists>arr'. fail_level arr arr2 st = Some (arr', st\<lparr>ac_nodes := with_fail D (set arr) (ac_nodes st)\<rparr>) \<and>
    set arr' = set arr2 \<union> {w @ [c] |w c. w \<in> set arr \<and> w @ [c] \<in> D}"
  using assms
proof (induction arr arbitrary: arr2 st)
  case Nil
  then show ?case by (simp add: with_fail_def)
next
  case (Cons w arr)
  have w: "w \<in> D" "length w = Suc k" "w \<noteq> []" using Cons.prems(2) by auto
  have "butlast w \<in> D" by (rule butlast_in [OF Cons.prems(1) w(1,3)])
  then have "failing D (butlast w) (ac_nodes st)" if "butlast w \<noteq> []"
    using Cons.prems(3) that w(2) by auto
  then have one: "fail_node w st = Some (st\<lparr>ac_nodes := with_fail D {w} (ac_nodes st)\<rparr>)"
    using fail_node_run [OF Cons.prems(1) w(1,3)] by blast
  let ?st = "st\<lparr>ac_nodes := with_fail D {w} (ac_nodes st)\<rparr>"
  have tr: "trie cs D W (ac_nodes ?st)" using trie_with_fail [OF Cons.prems(1)] by simp
  obtain n where n: "ac_nodes ?st w = Some n" using trie_in [OF tr w(1)] by blast
  have kids: "set (rev (map (\<lambda>c. w @ [c]) (nd_children n))) = {w @ [c] |c. w @ [c] \<in> D}"
    using trieD(2) [OF tr n] by auto
  have "\<forall>u\<in>D. u \<noteq> [] \<and> length u \<le> k \<longrightarrow> failing D u (ac_nodes ?st)"
    using Cons.prems(3) failing_with_fail [OF Cons.prems(1)] by auto
  then obtain arr' where "fail_level arr (rev (map (\<lambda>c. w @ [c]) (nd_children n)) @ arr2) ?st =
      Some (arr', ?st\<lparr>ac_nodes := with_fail D (set arr) (ac_nodes ?st)\<rparr>)"
    "set arr' = set (rev (map (\<lambda>c. w @ [c]) (nd_children n)) @ arr2) \<union> {w @ [c] |w c. w \<in> set arr \<and> w @ [c] \<in> D}"
    using Cons.IH [OF tr, of "rev (map (\<lambda>c. w @ [c]) (nd_children n)) @ arr2"] Cons.prems(2) by auto
  then show ?case
    using one n kids by (intro exI [of _ arr']) (auto simp: with_fail_Un)
qed

lemma fail_levels_run:
  assumes "trie cs D W (ac_nodes st)" "set arr = {w \<in> D. length w = Suc k}" "\<forall>u\<in>D. u \<noteq> [] \<and> length u \<le> k \<longrightarrow> failing D u (ac_nodes st)"
    "\<forall>w\<in>D. length w \<le> M" "k \<le> M"
  shows "fail_levels arr st = Some (st\<lparr>ac_nodes := with_fail D {w \<in> D. k < length w} (ac_nodes st)\<rparr>)"
  using assms
proof (induction "M - k" arbitrary: k arr st rule: less_induct)
  case less
  let ?st = "st\<lparr>ac_nodes := with_fail D (set arr) (ac_nodes st)\<rparr>"
  obtain arr' where level: "fail_level arr [] st = Some (arr', ?st)" "set arr' = {w @ [c] |w c. w \<in> set arr \<and> w @ [c] \<in> D}"
    using fail_level_run [OF less.prems(1) _ less.prems(3), of arr "[]"] less.prems(2) by auto
  have par: "butlast u \<in> D" if "u \<in> D" "u \<noteq> []" for u
    by (rule butlast_in [OF less.prems(1) that])
  have arr': "set arr' = {w \<in> D. length w = Suc (Suc k)}"
  proof
    show "{w \<in> D. length w = Suc (Suc k)} \<subseteq> set arr'"
    proof
      fix u assume u: "u \<in> {w \<in> D. length w = Suc (Suc k)}"
      then have "u \<noteq> []" by auto
      then have "u = butlast u @ [List.last u]" "butlast u \<in> set arr" using u par less.prems(2) by auto
      then show "u \<in> set arr'" using u unfolding level(2) by (metis (mono_tags, lifting) mem_Collect_eq)
    qed
  qed (use level(2) less.prems(2) in auto)
  show ?case
  proof (cases "arr' = []")
    case True
    have far: "length w \<noteq> Suc (Suc k) + d" if "w \<in> D" for w d
      using that
    proof (induction d arbitrary: w)
      case 0
      then show ?case using True arr' by auto
    next
      case (Suc d)
      show ?case
      proof
        assume "length w = Suc (Suc k) + Suc d"
        then have "w \<noteq> []" "length (butlast w) = Suc (Suc k) + d" by auto
        then show False using Suc.IH [OF par [OF Suc.prems]] by blast
      qed
    qed
    have top: "length w = Suc k" if "w \<in> D" "k < length w" for w
    proof (rule ccontr)
      assume "length w \<noteq> Suc k"
      then have eq: "length w = Suc (Suc k) + (length w - Suc (Suc k))" using that(2) by linarith
      show False by (rule notE [OF far [OF that(1)] eq])
    qed
    have "{w \<in> D. k < length w} = set arr" unfolding less.prems(2)
    proof (rule Collect_cong, rule iffI)
      show "w \<in> D \<and> length w = Suc k" if "w \<in> D \<and> k < length w" for w using top [of w] that by blast
      show "w \<in> D \<and> k < length w" if "w \<in> D \<and> length w = Suc k" for w using that by simp
    qed
    then show ?thesis using True level(1) by (simp add: fail_levels.simps [of arr])
  next
    case False
    then obtain u where "u \<in> D" "length u = Suc (Suc k)" using arr' by (metis (mono_tags, lifting) last_in_set mem_Collect_eq)
    then have M: "Suc k \<le> M" "M - Suc k < M - k" using less.prems(4) by fastforce+
    have fails: "\<forall>u\<in>D. u \<noteq> [] \<and> length u \<le> Suc k \<longrightarrow> failing D u (ac_nodes ?st)"
    proof (intro ballI impI, elim conjE)
      fix u assume u: "u \<in> D" "u \<noteq> []" "length u \<le> Suc k"
      have "u \<in> set arr \<or> failing D u (ac_nodes st)" using u less.prems(2,3) by (cases "length u = Suc k") simp_all
      then show "failing D u (ac_nodes ?st)" using failing_with_fail [OF less.prems(1) u(1), of "set arr"] by simp
    qed
    have tr: "trie cs D W (ac_nodes ?st)" by (simp add: trie_with_fail [OF less.prems(1)])
    have "fail_levels arr' ?st = Some (?st\<lparr>ac_nodes := with_fail D {w \<in> D. Suc k < length w} (ac_nodes ?st)\<rparr>)"
      by (rule less.hyps [OF M(2) tr arr' fails less.prems(4) M(1)])
    moreover have "{w \<in> D. Suc k < length w} \<union> set arr = {w \<in> D. k < length w}" unfolding less.prems(2) by auto
    ultimately show ?thesis using False level(1) by (simp add: fail_levels.simps [of arr] with_fail_Un)
  qed
qed

end
