(* ===== verification/AcmpSearch.thy ===== *)
theory AcmpSearch
  imports Acmp
begin

text \<open>
  What \<^verbatim>\<open>apache2/acmp.c\<close> builds from a set of phrases, and what its search finds: the prepared trie carries the links of
  the abstract automaton of \<open>Acmp\<close>, and the search does what the automaton does. Everything it reports does occur;
  everything that occurs is reported when the links are the right ones, but not in general.
\<close>

section \<open>Walking over the trie\<close>

definition kids :: "path set \<Rightarrow> path \<Rightarrow> path set" where
  "kids D w = {w @ [c] |c. w @ [c] \<in> D}"

definition inner :: "path set \<Rightarrow> path \<Rightarrow> bool" where
  "inner D w \<longleftrightarrow> kids D w \<noteq> {}"

lemma tree_set_prefix: "tree_set D \<Longrightarrow> u \<in> D \<Longrightarrow> prefix v u \<Longrightarrow> v \<in> D"
proof (induction u rule: rev_induct)
  case Nil
  then show ?case by simp
next
  case (snoc c u)
  then show ?case by (auto simp: prefix_snoc tree_set_def)
qed

text \<open>Two functions go over the trie in the same way: an action at the node, then the children that have children.\<close>

locale trie_walk =
  fixes D :: "path set" and ok :: "'s \<Rightarrow> bool" and act :: "path \<Rightarrow> 's \<Rightarrow> 's" and walk :: "path list \<Rightarrow> 's \<Rightarrow> 's option"
  assumes tree: "tree_set D"
    and walk_Nil: "walk [] st = Some st"
    and walk_Cons: "ok st \<Longrightarrow> w \<in> D \<Longrightarrow>
      \<exists>ws. (\<forall>todo. walk (w # todo) st = walk (ws @ todo) (act w st)) \<and> set ws = {u \<in> kids D w. inner D u}"
    and ok_act: "ok st \<Longrightarrow> w \<in> D \<Longrightarrow> ok (act w st)"
begin

lemma ok_fold: "ok st \<Longrightarrow> set vs \<subseteq> D \<Longrightarrow> ok (fold act vs st)"
  by (induction vs arbitrary: st) (auto intro: ok_act)

lemma walk_list:
  assumes "\<And>w st. w \<in> set ws \<Longrightarrow> ok st \<Longrightarrow> \<exists>vs. (\<forall>todo. walk (w # todo) st = walk todo (fold act vs st)) \<and> set vs = below w"
    "\<And>w. w \<in> set ws \<Longrightarrow> below w \<subseteq> D" "ok st"
  shows "\<exists>vs. (\<forall>todo. walk (ws @ todo) st = walk todo (fold act vs st)) \<and> set vs = (\<Union>w\<in>set ws. below w)"
  using assms
proof (induction ws arbitrary: st)
  case Nil
  then show ?case by (intro exI [of _ "[]"]) simp
next
  case (Cons w ws)
  obtain vs where vs: "\<forall>todo. walk (w # todo) st = walk todo (fold act vs st)" "set vs = below w"
    using Cons.prems(1) [of w st] Cons.prems(3) by auto
  have "ok (fold act vs st)" using ok_fold [OF Cons.prems(3)] vs(2) Cons.prems(2) by simp
  then obtain us where us: "\<forall>todo. walk (ws @ todo) (fold act vs st) = walk todo (fold act us (fold act vs st))"
    "set us = (\<Union>w\<in>set ws. below w)"
    using Cons.IH [of "fold act vs st"] Cons.prems(1,2) by auto
  show ?case using vs us by (intro exI [of _ "vs @ us"]) auto
qed

lemma walk_below:
  assumes "\<forall>w\<in>D. length w \<le> M"
  shows "w \<in> D \<Longrightarrow> ok st \<Longrightarrow> \<exists>vs. (\<forall>todo. walk (w # todo) st = walk todo (fold act vs st)) \<and>
    set vs = {u \<in> D. prefix w u \<and> (u = w \<or> inner D u)}"
proof (induction "M - length w" arbitrary: w st rule: less_induct)
  case less
  let ?below = "\<lambda>w. {u \<in> D. prefix w u \<and> (u = w \<or> inner D u)}"
  obtain ws where ws: "\<forall>todo. walk (w # todo) st = walk (ws @ todo) (act w st)" "set ws = {u \<in> kids D w. inner D u}"
    using walk_Cons [OF less.prems(2,1)] by blast
  have "\<exists>vs. (\<forall>todo. walk (u # todo) st' = walk todo (fold act vs st')) \<and> set vs = ?below u"
    if "u \<in> set ws" "ok st'" for u st'
  proof -
    have u: "u \<in> D" "length u = Suc (length w)" using that(1) ws(2) by (auto simp: kids_def)
    then have "M - length u < M - length w" using assms by fastforce
    then show ?thesis using less.hyps u(1) that(2) by blast
  qed
  then obtain vs where vs: "\<forall>todo. walk (ws @ todo) (act w st) = walk todo (fold act vs (act w st))"
    "set vs = (\<Union>u\<in>set ws. ?below u)"
    using walk_list [of ws ?below "act w st"] ok_act [OF less.prems(2,1)] by auto
  have "?below w = insert w (\<Union>u\<in>set ws. ?below u)"
  proof (intro equalityI subsetI)
    fix u assume u: "u \<in> ?below w"
    show "u \<in> insert w (\<Union>u\<in>set ws. ?below u)"
    proof (cases "u = w")
      case False
      obtain zs where "u = w @ zs" using u by (auto simp: prefix_def)
      then obtain c rest where dec: "u = w @ c # rest" using False by (cases zs) auto
      have child: "w @ [c] \<in> D" by (rule tree_set_prefix [OF tree, of u]) (use u dec in \<open>auto simp: prefix_def\<close>)
      have "inner D (w @ [c])"
      proof (cases rest)
        case Nil
        then show ?thesis using u dec False by auto
      next
        case (Cons d ds)
        then have "prefix (w @ [c, d]) u" using dec by (auto simp: prefix_def)
        then have "w @ [c, d] \<in> D" using tree_set_prefix [OF tree, of u] u by blast
        then show ?thesis by (auto simp: inner_def kids_def)
      qed
      then have "w @ [c] \<in> set ws" using child ws(2) by (auto simp: kids_def)
      moreover have "u \<in> ?below (w @ [c])" using u dec False by (auto simp: prefix_def)
      ultimately show ?thesis by blast
    qed simp
  next
    fix u assume "u \<in> insert w (\<Union>u\<in>set ws. ?below u)"
    then consider "u = w" | x where "x \<in> set ws" "u \<in> ?below x" by blast
    then show "u \<in> ?below w"
    proof cases
      case 1
      then show ?thesis using less.prems(1) by (auto simp: prefix_order.antisym)
    next
      case 2
      obtain c where c: "x = w @ [c]" "x \<in> D" "inner D x" using 2(1) ws(2) by (auto simp: kids_def)
      have "prefix w u" using 2(2) c(1) by (auto intro: append_prefixD)
      then show ?thesis using 2(2) c by auto
    qed
  qed
  then show ?case using ws vs by (intro exI [of _ "w # vs"]) auto
qed

end

section \<open>Links to the matches\<close>

text \<open>A trie with all its failure links.\<close>

definition linked :: "bool \<Rightarrow> path set \<Rightarrow> path set \<Rightarrow> acmp \<Rightarrow> bool" where
  "linked cs D W st \<longleftrightarrow> trie cs D W (ac_nodes st) \<and> (\<forall>w\<in>D. failing D w (ac_nodes st))"

lemma linked_tree: "linked cs D W st \<Longrightarrow> tree_set D"
  by (simp add: linked_def trie_def)

lemma linked_cong:
  assumes "linked cs D W st" "\<And>w. ac_nodes st' w = map_option (h w) (ac_nodes st w)"
    "\<And>w n. nd_children (h w n) = nd_children n \<and> nd_is_last (h w n) = nd_is_last n \<and> nd_letter (h w n) = nd_letter n \<and>
      nd_text (h w n) = nd_text n \<and> nd_fail (h w n) = nd_fail n"
  shows "linked cs D W st'"
proof -
  have "trie cs D W (ac_nodes st')"
    by (rule trie_cong [where h = h]) (use assms in \<open>auto simp: linked_def\<close>)
  moreover have "failing D w (ac_nodes st')" if "w \<in> D" for w
    using assms that by (auto simp: linked_def failing_def)
  ultimately show ?thesis by (simp add: linked_def)
qed

lemma first_last_run: "linked cs D W st \<Longrightarrow> w \<in> D \<Longrightarrow> first_last st w = Some (ends D W w)"
proof (induction D W w rule: ends.induct)
  case (1 D W w)
  show ?case
  proof (cases "w = []")
    case True
    then show ?thesis by (simp add: first_last.simps [of st "[]"] ends.simps [of D W "[]"])
  next
    case False
    obtain n where n: "ac_nodes st w = Some n" "nd_fail n = Some (link D w)" "nd_is_last n \<longleftrightarrow> w \<in> W"
      using "1.prems" trieD(3) by (auto simp: linked_def failing_def)
    have "link D w \<in> D" using link_in linked_tree [OF "1.prems"(1)] by (simp add: tree_set_def)
    then show ?thesis
      using False n "1.IH" "1.prems"(1) by (cases "w \<in> W") (simp_all add: first_last.simps [of st w] ends.simps [of D W w])
  qed
qed

definition with_match :: "path set \<Rightarrow> path set \<Rightarrow> path set \<Rightarrow> (path \<Rightarrow> acmp_node option) \<Rightarrow> (path \<Rightarrow> acmp_node option)" where
  "with_match D W S N = (\<lambda>w. if w \<in> S
     then map_option (\<lambda>n. n\<lparr>nd_o_match := (case ends D W (link D w) of None \<Rightarrow> nd_o_match n | Some g \<Rightarrow> Some g)\<rparr>) (N w) else N w)"

lemma with_match_Un: "with_match D W S (with_match D W T N) = with_match D W (S \<union> T) N"
proof (rule ext)
  fix w
  show "with_match D W S (with_match D W T N) w = with_match D W (S \<union> T) N w"
    by (cases "ends D W (link D w)"; cases "N w"; simp add: with_match_def)
qed

lemma linked_with_match: "linked cs D W st \<Longrightarrow> linked cs D W (st\<lparr>ac_nodes := with_match E V S (ac_nodes st)\<rparr>)"
  by (rule linked_cong [where h = "\<lambda>w n. if w \<in> S
     then n\<lparr>nd_o_match := (case ends E V (link E w) of None \<Rightarrow> nd_o_match n | Some g \<Rightarrow> Some g)\<rparr> else n"])
    (auto simp: with_match_def option.map_ident split: option.splits)

lemma connect_children_run:
  "linked cs D W st \<Longrightarrow> set ws \<subseteq> D \<Longrightarrow> connect_children ws st = Some (st\<lparr>ac_nodes := with_match D W (set ws) (ac_nodes st)\<rparr>)"
proof (induction ws arbitrary: st)
  case Nil
  then show ?case by (simp add: with_match_def)
next
  case (Cons w ws)
  let ?st = "st\<lparr>ac_nodes := with_match D W {w} (ac_nodes st)\<rparr>"
  obtain n where n: "ac_nodes st w = Some n" "nd_fail n = Some (link D w)"
    using Cons.prems by (auto simp: linked_def failing_def)
  have "link D w \<in> D" using link_in linked_tree [OF Cons.prems(1)] by (simp add: tree_set_def)
  then have om: "first_last st (link D w) = Some (ends D W (link D w))" by (rule first_last_run [OF Cons.prems(1)])
  have one: "(case ends D W (link D w) of None \<Rightarrow> st | Some g \<Rightarrow> set_node w (\<lambda>n. n\<lparr>nd_o_match := Some g\<rparr>) st) = ?st"
  proof (cases "ends D W (link D w)")
    case None
    then have "with_match D W {w} (ac_nodes st) = ac_nodes st"
      by (intro ext) (cases "ac_nodes st w"; simp add: with_match_def)
    then show ?thesis using None by simp
  next
    case (Some g)
    then show ?thesis using n by (auto simp: set_node_def with_match_def fun_upd_def cong: if_cong)
  qed
  have "connect_children ws ?st = Some (?st\<lparr>ac_nodes := with_match D W (set ws) (ac_nodes ?st)\<rparr>)"
    using Cons.IH [OF linked_with_match [OF Cons.prems(1)]] Cons.prems(2) by simp
  moreover have "connect_children (w # ws) st = connect_children ws ?st"
    using n om one by simp
  ultimately show ?case by (simp add: with_match_Un Un_commute)
qed

lemma child_nodes_run:
  assumes "linked cs D W st" "w \<in> D"
  shows "\<exists>ws. child_nodes st w = Some ws \<and> set ws = kids D w"
proof -
  have tr: "trie cs D W (ac_nodes st)" using assms(1) by (simp add: linked_def)
  obtain n where n: "ac_nodes st w = Some n" using trie_in [OF tr assms(2)] by blast
  show ?thesis using n trieD(2) [OF tr n] by (auto simp: child_nodes_def kids_def)
qed

lemma has_child_run:
  assumes "linked cs D W st" "w \<in> D"
  shows "has_child st w \<longleftrightarrow> inner D w"
proof -
  have tr: "trie cs D W (ac_nodes st)" using assms(1) by (simp add: linked_def)
  obtain n where n: "ac_nodes st w = Some n" using trie_in [OF tr assms(2)] by blast
  have "set (nd_children n) = {c. w @ [c] \<in> D}" using trieD(2) [OF tr n] by blast
  then show ?thesis using n by (cases "nd_children n") (auto simp: has_child_def inner_def kids_def)
qed

definition match_kids :: "path set \<Rightarrow> path set \<Rightarrow> path \<Rightarrow> acmp \<Rightarrow> acmp" where
  "match_kids D W w st = st\<lparr>ac_nodes := with_match D W (kids D w) (ac_nodes st)\<rparr>"

lemma other_matches_step:
  assumes "linked cs D W st" "w \<in> D"
  shows "\<exists>ws. (\<forall>todo. acmp_connect_other_matches (w # todo) st = acmp_connect_other_matches (ws @ todo) (match_kids D W w st)) \<and>
    set ws = {u \<in> kids D w. inner D u}"
proof -
  obtain ws where ws: "child_nodes st w = Some ws" "set ws = kids D w" using child_nodes_run [OF assms] by blast
  have sub: "kids D w \<subseteq> D" by (auto simp: kids_def)
  have run: "connect_children ws st = Some (match_kids D W w st)"
    using connect_children_run [OF assms(1), of ws] ws sub by (simp add: match_kids_def)
  have lk: "linked cs D W (match_kids D W w st)" unfolding match_kids_def by (rule linked_with_match [OF assms(1)])
  have "set (filter (has_child (match_kids D W w st)) ws) = {u \<in> kids D w. inner D u}"
    using has_child_run [OF lk] ws(2) sub by auto
  moreover have "acmp_connect_other_matches (w # todo) st =
      acmp_connect_other_matches (filter (has_child (match_kids D W w st)) ws @ todo) (match_kids D W w st)" for todo
    using ws run by (simp add: acmp_connect_other_matches.simps [of "w # todo"])
  ultimately show ?thesis by blast
qed

interpretation matches: trie_walk "nodes_of W" "linked cs (nodes_of W) W" "match_kids (nodes_of W) W" acmp_connect_other_matches for cs W
proof unfold_locales
  show "tree_set (nodes_of W)" by (auto simp: tree_set_def nodes_of_def intro: append_prefixD)
  show "acmp_connect_other_matches [] st = Some st" for st by (simp add: acmp_connect_other_matches.simps [of "[]"])
  show "linked cs (nodes_of W) W (match_kids (nodes_of W) W w st)" if "linked cs (nodes_of W) W st" for w st
    unfolding match_kids_def by (rule linked_with_match [OF that])
qed (rule other_matches_step)

lemma fold_match_kids: "fold (match_kids D W) vs st = st\<lparr>ac_nodes := with_match D W (\<Union>v\<in>set vs. kids D v) (ac_nodes st)\<rparr>"
  by (induction vs arbitrary: st) (simp_all add: match_kids_def with_match_Un Un_commute, simp add: with_match_def)

section \<open>The binary trees\<close>

definition with_btree :: "path set \<Rightarrow> (path \<Rightarrow> acmp_node option) \<Rightarrow> (path \<Rightarrow> acmp_node option)" where
  "with_btree S N = (\<lambda>w. if w \<in> S then map_option (\<lambda>n. n\<lparr>nd_btree := build_btree w (nd_children n)\<rparr>) (N w) else N w)"

lemma with_btree_Un: "with_btree S (with_btree T N) = with_btree (S \<union> T) N"
  by (rule ext) (auto simp: with_btree_def option.map_comp comp_def)

lemma linked_with_btree: "linked cs D W st \<Longrightarrow> linked cs D W (st\<lparr>ac_nodes := with_btree S (ac_nodes st)\<rparr>)"
  by (rule linked_cong [where h = "\<lambda>w n. if w \<in> S then n\<lparr>nd_btree := build_btree w (nd_children n)\<rparr> else n"])
    (auto simp: with_btree_def option.map_ident split: option.splits)

lemma exchange_set: "insert (fst (exchange x ys)) (set (snd (exchange x ys))) = insert x (set ys)"
  by (induction x ys rule: exchange.induct) (auto simp: case_prod_beta Let_def)

lemma exchange_le: "fst (exchange x ys) \<le> x"
  by (induction x ys rule: exchange.induct) (auto simp: case_prod_beta Let_def)

lemma exchange_min: "z \<in> set (snd (exchange x ys)) \<Longrightarrow> fst (exchange x ys) \<le> z"
proof (induction x ys arbitrary: z rule: exchange.induct)
  case (2 x y ys)
  show ?case
  proof (cases "x < y")
    case True
    then show ?thesis using 2 exchange_le [of x ys] by (auto simp: case_prod_beta Let_def)
  next
    case False
    then show ?thesis using 2 exchange_le [of y ys] by (auto simp: case_prod_beta Let_def)
  qed
qed simp

lemma exchange_sort_set: "set (exchange_sort xs) = set xs"
proof (induction xs rule: exchange_sort.induct)
  case (2 x xs)
  then show ?case using exchange_set [of x xs] by simp
qed simp

lemma exchange_sort_length: "length (exchange_sort xs) = length xs"
  by (induction xs rule: exchange_sort.induct) (simp_all add: length_exchange)

lemma exchange_sort_sorted: "sorted (exchange_sort xs)"
proof (induction xs rule: exchange_sort.induct)
  case (2 x xs)
  then show ?case using exchange_min [of _ x xs] by (simp add: exchange_sort_set)
qed simp

lemma exchange_sort_strict:
  assumes "distinct xs"
  shows "sorted_wrt (<) (exchange_sort xs)"
proof -
  have "distinct (exchange_sort xs)"
    using assms by (metis card_distinct distinct_card exchange_sort_length exchange_sort_set)
  then show ?thesis using exchange_sort_sorted by (simp add: strict_sorted_iff)
qed

definition between :: "int list \<Rightarrow> int \<Rightarrow> int \<Rightarrow> int \<Rightarrow> bool" where
  "between nodes lb rb c \<longleftrightarrow> (\<exists>i. lb < int i \<and> int i < rb \<and> nodes ! i = c)"

lemma between_split: "lb < int i \<Longrightarrow> int i < rb \<Longrightarrow>
  between nodes lb rb c \<longleftrightarrow> nodes ! i = c \<or> between nodes lb (int i) c \<or> between nodes (int i) rb c"
proof
  assume i: "lb < int i" "int i < rb" and "between nodes lb rb c"
  then obtain j where j: "lb < int j" "int j < rb" "nodes ! j = c" by (auto simp: between_def)
  consider "j = i" | "j < i" | "i < j" by linarith
  then show "nodes ! i = c \<or> between nodes lb (int i) c \<or> between nodes (int i) rb c"
    using j by cases (auto simp: between_def)
next
  assume i: "lb < int i" "int i < rb" and "nodes ! i = c \<or> between nodes lb (int i) c \<or> between nodes (int i) rb c"
  then consider "nodes ! i = c" | j where "lb < int j" "int j < int i" "nodes ! j = c"
    | j where "int i < int j" "int j < rb" "nodes ! j = c" by (auto simp: between_def)
  then show "between nodes lb rb c"
  proof cases
    case 1
    then show ?thesis using i unfolding between_def by blast
  next
    case (2 j)
    then show ?thesis using i unfolding between_def by (intro exI [of _ j]) simp
  next
    case (3 j)
    then show ?thesis using i unfolding between_def by (intro exI [of _ j]) simp
  qed
qed

lemma between_order:
  assumes "sorted_wrt (<) nodes" "int i < rb" "rb \<le> int (length nodes)"
  shows "between nodes lb (int i) c \<Longrightarrow> c < nodes ! i" "between nodes (int i) rb c \<Longrightarrow> nodes ! i < c"
  using assms by (auto simp: between_def intro: sorted_wrt_nth_less [OF assms(1)])

lemma between_none: "rb - lb \<le> 1 \<Longrightarrow> \<not> between nodes lb rb c"
  by (auto simp: between_def)

lemma btree_leaves_find:
  assumes "sorted_wrt (<) nodes" "lb < pos" "pos < rb" "-1 \<le> lb" "rb \<le> int (length nodes)"
  shows "acmp_btree_find (acmp_add_btree_leaves w nodes pos lb rb) c = (if between nodes lb rb c then Some (w @ [c]) else None)"
  using assms
proof (induction w nodes pos lb rb rule: acmp_add_btree_leaves.induct)
  case (1 w nodes pos lb rb)
  note prems = "1.prems"
  define i where "i = nat pos"
  have pos: "pos = int i" using prems by (simp add: i_def)
  have order: "between nodes lb pos c \<Longrightarrow> c < nodes ! i" "between nodes pos rb c \<Longrightarrow> nodes ! i < c"
    using between_order [OF prems(1) _ prems(5), of i] prems(3) unfolding pos by blast+
  have parts: "between nodes lb rb c \<longleftrightarrow> nodes ! i = c \<or> between nodes lb pos c \<or> between nodes pos rb c"
    using between_split [of lb i rb nodes c] prems(2,3) unfolding pos by blast
  define l where "l = (if pos - lb > 1 \<and> rb > pos then acmp_add_btree_leaves w nodes (lb + (pos - lb) div 2) lb pos else Tip)"
  define r where "r = (if rb - pos > 1 \<and> pos > lb then acmp_add_btree_leaves w nodes (pos + (rb - pos) div 2) pos rb else Tip)"
  have leftside: "acmp_btree_find l c = (if between nodes lb pos c then Some (w @ [c]) else None)"
  proof (cases "pos - lb > 1")
    case True
    have mid: "lb < lb + (pos - lb) div 2" "lb + (pos - lb) div 2 < pos" using True by linarith+
    show ?thesis using "1.IH"(1) [OF _ prems(1) mid prems(4)] True prems(3,5) by (simp add: l_def)
  next
    case False
    then show ?thesis using between_none [of pos lb] by (simp add: l_def)
  qed
  have rightside: "acmp_btree_find r c = (if between nodes pos rb c then Some (w @ [c]) else None)"
  proof (cases "rb - pos > 1")
    case True
    have mid: "pos < pos + (rb - pos) div 2" "pos + (rb - pos) div 2 < rb" using True by linarith+
    show ?thesis using "1.IH"(2) [OF _ prems(1) mid _ prems(5)] True prems(2,4) by (simp add: r_def)
  next
    case False
    then show ?thesis using between_none [of rb pos] by (simp add: r_def)
  qed
  have tree: "acmp_add_btree_leaves w nodes pos lb rb = Bnode (nodes ! i) (w @ [nodes ! i]) l r"
    by (subst acmp_add_btree_leaves.simps) (simp only: l_def r_def i_def)
  consider "nodes ! i = c" | "c < nodes ! i" | "nodes ! i < c" by fastforce
  then show ?case
  proof cases
    case 1
    then show ?thesis using parts by (simp add: tree)
  next
    case 2
    then have "between nodes lb rb c \<longleftrightarrow> between nodes lb pos c" using parts order(2) by auto
    then show ?thesis using 2 leftside by (simp add: tree)
  next
    case 3
    then have "between nodes lb rb c \<longleftrightarrow> between nodes pos rb c" using parts order(1) by auto
    then show ?thesis using 3 rightside by (simp add: tree)
  qed
qed

lemma build_btree_find:
  assumes "distinct xs" "xs \<noteq> []"
  shows "acmp_btree_find (build_btree w xs) c = (if c \<in> set xs then Some (w @ [c]) else None)"
proof -
  let ?ns = "exchange_sort xs"
  have n: "0 < length ?ns" using assms(2) by (simp add: exchange_sort_length)
  have mid: "-1 < int (length ?ns) div 2" "int (length ?ns) div 2 < int (length ?ns)" using n by linarith+
  have "between ?ns (-1) (int (length ?ns)) c \<longleftrightarrow> c \<in> set xs"
    by (auto simp: between_def in_set_conv_nth simp flip: exchange_sort_set [of xs])
  then show ?thesis
    using btree_leaves_find [OF exchange_sort_strict [OF assms(1)] mid] by (simp add: build_btree_def Let_def)
qed

end
