(* ===== verification/AcmpRun.thy ===== *)
theory AcmpRun
  imports AcmpSearch
begin

text \<open>
  The prepared parser and the search of \<^verbatim>\<open>apache2/acmp.c\<close>: what \<open>acmp_prepare\<close> makes of a trie, and the search as the
  abstract automaton.
\<close>

section \<open>All the binary trees\<close>

definition build_at :: "path \<Rightarrow> acmp \<Rightarrow> acmp" where
  "build_at w st = st\<lparr>ac_nodes := with_btree {w} (ac_nodes st)\<rparr>"

lemma linked_build_at: "linked cs D W st \<Longrightarrow> linked cs D W (build_at w st)"
  unfolding build_at_def by (rule linked_with_btree)

lemma build_step:
  assumes "linked cs D W st" "w \<in> D"
  shows "\<exists>ws. (\<forall>todo. acmp_build_binary_tree (w # todo) st = acmp_build_binary_tree (ws @ todo) (build_at w st)) \<and>
    set ws = {u \<in> kids D w. inner D u}"
proof -
  have tr: "trie cs D W (ac_nodes st)" using assms(1) by (simp add: linked_def)
  obtain n where n: "ac_nodes st w = Some n" using trie_in [OF tr assms(2)] by blast
  let ?ws = "map (\<lambda>c. w @ [c]) (exchange_sort (nd_children n))"
  have at: "set_node w (\<lambda>n. n\<lparr>nd_btree := build_btree w (nd_children n)\<rparr>) st = build_at w st"
    by (simp add: set_node_def build_at_def with_btree_def fun_upd_def cong: if_cong)
  have kids: "set ?ws = kids D w" using trieD(2) [OF tr n] by (auto simp: exchange_sort_set kids_def)
  have sub: "kids D w \<subseteq> D" by (auto simp: kids_def)
  have "set (filter (has_child (build_at w st)) ?ws) = {u \<in> kids D w. inner D u}"
    using has_child_run [OF linked_build_at [OF assms(1)]] kids sub by auto
  moreover have "acmp_build_binary_tree (w # todo) st =
      acmp_build_binary_tree (filter (has_child (build_at w st)) ?ws @ todo) (build_at w st)" for todo
    by (subst acmp_build_binary_tree.simps) (simp add: n at Let_def)
  ultimately show ?thesis by blast
qed

interpretation btrees: trie_walk "nodes_of W" "linked cs (nodes_of W) W" build_at acmp_build_binary_tree for cs W
proof unfold_locales
  show "tree_set (nodes_of W)" by (rule matches.tree)
  show "acmp_build_binary_tree [] st = Some st" for st by (simp add: acmp_build_binary_tree.simps [of "[]"])
qed (rule build_step linked_build_at, assumption+)+

lemma fold_build_at: "fold build_at vs st = st\<lparr>ac_nodes := with_btree (set vs) (ac_nodes st)\<rparr>"
proof (induction vs arbitrary: st)
  case Nil
  then show ?case by (simp add: with_btree_def)
next
  case (Cons v vs)
  then show ?case by (simp add: build_at_def with_btree_Un)
qed

section \<open>The prepared parser\<close>

lemma nodes_of_bound: "finite W \<Longrightarrow> \<exists>M. \<forall>w\<in>nodes_of W. length w \<le> M"
proof -
  assume fin: "finite W"
  have "length u \<le> Max (length ` W)" if "w \<in> W" "prefix u w" for u w
  proof -
    have "length w \<le> Max (length ` W)" using fin that(1) by simp
    then show ?thesis using prefix_length_le [OF that(2)] by linarith
  qed
  then show ?thesis by (intro exI [of _ "Max (length ` W)"]) (auto simp: nodes_of_def)
qed

lemma root_in [simp]: "[] \<in> nodes_of W"
  by (simp add: nodes_of_def)

lemma set_fail_fold:
  assumes "\<forall>w\<in>set ws. length w \<le> 1"
  shows "fold (\<lambda>w. set_node w (\<lambda>n. n\<lparr>nd_fail := Some []\<rparr>)) ws st = st\<lparr>ac_nodes := with_fail D (set ws) (ac_nodes st)\<rparr>"
  using assms
proof (induction ws arbitrary: st)
  case Nil
  then show ?case by (simp add: with_fail_def)
next
  case (Cons w ws)
  have "link D w = []" using Cons.prems by (simp add: link.simps [of D w])
  then have "set_node w (\<lambda>n. n\<lparr>nd_fail := Some []\<rparr>) st = st\<lparr>ac_nodes := with_fail D {w} (ac_nodes st)\<rparr>"
    by (simp add: set_node_def with_fail_def fun_upd_def cong: if_cong)
  then show ?case using Cons by (simp add: with_fail_Un)
qed

lemma below_root: "{u \<in> D. prefix [] u \<and> (u = [] \<or> inner D u)} = {u \<in> D. u = [] \<or> inner D u}"
  by simp

lemma kids_cover:
  assumes "tree_set D"
  shows "(\<Union>v\<in>{u \<in> D. u = [] \<or> inner D u}. kids D v) = D - {[]}"
proof (intro equalityI subsetI)
  fix u assume u: "u \<in> D - {[]}"
  then have dec: "butlast u @ [List.last u] \<in> D" by simp
  then have "butlast u \<in> D" using assms unfolding tree_set_def by blast
  moreover have "u \<in> kids D (butlast u)" using dec u by (auto simp: kids_def intro!: exI [of _ "List.last u"])
  ultimately show "u \<in> (\<Union>v\<in>{u \<in> D. u = [] \<or> inner D u}. kids D v)" by (auto simp: inner_def)
qed (auto simp: kids_def)

definition prepared :: "bool \<Rightarrow> path set \<Rightarrow> path set \<Rightarrow> acmp \<Rightarrow> bool" where
  "prepared cs D W st \<longleftrightarrow> linked cs D W st \<and> ac_case_sensitive st = cs \<and> ac_failtree_done st \<and> ac_active st \<and>
     (\<forall>w n. ac_nodes st w = Some n \<longrightarrow> nd_o_match n = ends D W (link D w) \<and>
        (\<forall>c. acmp_btree_find (nd_btree n) c = (if w @ [c] \<in> D then Some (w @ [c]) else None)))"

lemma fails_done:
  assumes "holds_trie W st" "finite W"
  shows "\<exists>st'. acmp_connect_fail_branches st = do {
      st \<leftarrow> acmp_connect_other_matches [[]] st';
      st \<leftarrow> (if has_child st [] then acmp_build_binary_tree [[]] st else Some st);
      Some (st\<lparr>ac_failtree_done := True\<rparr>) } \<and>
    linked (ac_case_sensitive st) (nodes_of W) W st' \<and> ac_case_sensitive st' = ac_case_sensitive st \<and>
    (\<forall>w n. ac_nodes st' w = Some n \<longrightarrow> nd_o_match n = None \<and> nd_btree n = Tip)"
proof -
  let ?D = "nodes_of W" and ?cs = "ac_case_sensitive st"
  have st: "trie ?cs ?D W (ac_nodes st)" "bare (ac_nodes st)" "\<not> ac_failtree_done st"
    using assms(1) by (simp_all add: holds_trie_def)
  define st1 where "st1 = set_node [] (\<lambda>n. n\<lparr>nd_text := [], nd_fail := Some []\<rparr>) st"
  obtain rn where rn: "ac_nodes st [] = Some rn" using trie_in [OF st(1) root_in] by blast
  have st1: "ac_nodes st1 = (ac_nodes st)([] \<mapsto> rn\<lparr>nd_text := [], nd_fail := Some []\<rparr>)" "ac_case_sensitive st1 = ?cs"
    using rn by (simp_all add: st1_def set_node_def)
  have tr1: "trie ?cs ?D W (ac_nodes st1)"
    by (rule trie_cong [OF st(1), where h = "\<lambda>w n. if w = [] then n\<lparr>nd_text := [], nd_fail := Some []\<rparr> else n"])
      (auto simp: st1 rn option.map_ident split: if_splits)
  obtain n1 where n1: "ac_nodes st1 [] = Some n1" using trie_in [OF tr1 root_in] by blast
  define ws where "ws = map (\<lambda>c. [c]) (nd_children n1)"
  have ws: "child_nodes st1 [] = Some ws" "set ws = {w \<in> ?D. length w = Suc 0}"
    using trieD(2) [OF tr1 n1] n1 by (auto simp: child_nodes_def ws_def length_Suc_conv)
  define st2 where "st2 = st1\<lparr>ac_nodes := with_fail ?D (set ws) (ac_nodes st1)\<rparr>"
  have fold: "fold (\<lambda>w. set_node w (\<lambda>n. n\<lparr>nd_fail := Some []\<rparr>)) ws st1 = st2"
    unfolding st2_def by (rule set_fail_fold) (simp add: ws(2))
  have tr2: "trie ?cs ?D W (ac_nodes st2)" unfolding st2_def by (simp add: trie_with_fail [OF tr1])
  obtain M where M: "\<forall>w\<in>?D. length w \<le> M" using nodes_of_bound [OF assms(2)] by blast
  define st3 where "st3 = st2\<lparr>ac_nodes := with_fail ?D {w \<in> ?D. 0 < length w} (ac_nodes st2)\<rparr>"
  have levels: "fail_levels (rev ws) st2 = Some st3"
    unfolding st3_def by (rule fail_levels_run [OF tr2 _ _ M]) (simp_all add: ws(2))
  have nodes3: "ac_nodes st3 = with_fail ?D {w \<in> ?D. 0 < length w} (ac_nodes st1)"
  proof -
    have "{w \<in> ?D. 0 < length w} \<union> set ws = {w \<in> ?D. 0 < length w}" using ws(2) by auto
    then show ?thesis by (simp add: st3_def st2_def with_fail_Un)
  qed
  have tr3: "trie ?cs ?D W (ac_nodes st3)" unfolding nodes3 by (rule trie_with_fail [OF tr1])
  have "failing ?D w (ac_nodes st3)" if "w \<in> ?D" for w
  proof (cases "w = []")
    case True
    have "link ?D [] = []" by (simp add: link.simps [of ?D "[]"])
    then show ?thesis using True rn by (simp add: failing_def nodes3 with_fail_def st1)
  next
    case False
    then show ?thesis unfolding nodes3 using failing_with_fail [OF tr1 that] that by auto
  qed
  then have "linked ?cs ?D W st3" using tr3 by (simp add: linked_def)
  moreover have "nd_o_match n = None \<and> nd_btree n = Tip" if "ac_nodes st3 w = Some n" for w n
    using that bareD [OF st(2)] rn unfolding nodes3 by (auto simp: with_fail_def st1 split: if_splits)
  moreover have "ac_case_sensitive st3 = ?cs" by (simp add: st3_def st2_def st1)
  ultimately show ?thesis
    using st(3) ws(1) fold levels
    by (intro exI [of _ st3]) (simp add: acmp_connect_fail_branches_def Let_def flip: st1_def)
qed

lemma other_matches_run:
  assumes "linked cs (nodes_of W) W st" "finite W"
  shows "acmp_connect_other_matches [[]] st =
    Some (st\<lparr>ac_nodes := with_match (nodes_of W) W (nodes_of W - {[]}) (ac_nodes st)\<rparr>)"
proof -
  obtain M where M: "\<forall>w\<in>nodes_of W. length w \<le> M" using nodes_of_bound [OF assms(2)] by blast
  obtain vs where vs: "\<forall>todo. acmp_connect_other_matches ([] # todo) st = acmp_connect_other_matches todo (fold (match_kids (nodes_of W) W) vs st)"
    "set vs = {u \<in> nodes_of W. prefix [] u \<and> (u = [] \<or> inner (nodes_of W) u)}"
    using matches.walk_below [OF M root_in assms(1)] by blast
  have "acmp_connect_other_matches [[]] st = Some (fold (match_kids (nodes_of W) W) vs st)"
    using vs(1) by (simp add: matches.walk_Nil)
  also have "fold (match_kids (nodes_of W) W) vs st = st\<lparr>ac_nodes := with_match (nodes_of W) W (nodes_of W - {[]}) (ac_nodes st)\<rparr>"
    unfolding fold_match_kids vs(2) below_root kids_cover [OF matches.tree] ..
  finally show ?thesis .
qed

lemma binary_tree_run:
  assumes "linked cs (nodes_of W) W st" "finite W"
  shows "acmp_build_binary_tree [[]] st =
    Some (st\<lparr>ac_nodes := with_btree {u \<in> nodes_of W. u = [] \<or> inner (nodes_of W) u} (ac_nodes st)\<rparr>)"
proof -
  obtain M where M: "\<forall>w\<in>nodes_of W. length w \<le> M" using nodes_of_bound [OF assms(2)] by blast
  obtain vs where vs: "\<forall>todo. acmp_build_binary_tree ([] # todo) st = acmp_build_binary_tree todo (fold build_at vs st)"
    "set vs = {u \<in> nodes_of W. prefix [] u \<and> (u = [] \<or> inner (nodes_of W) u)}"
    using btrees.walk_below [OF M root_in assms(1)] by blast
  have "acmp_build_binary_tree [[]] st = Some (fold build_at vs st)"
    using vs(1) by (simp add: btrees.walk_Nil)
  then show ?thesis unfolding fold_build_at vs(2) below_root .
qed

lemma acmp_prepare_run:
  assumes "holds_trie W st" "finite W"
  shows "\<exists>st'. acmp_prepare st = Some st' \<and> prepared (ac_case_sensitive st) (nodes_of W) W st'"
proof -
  let ?D = "nodes_of W" and ?cs = "ac_case_sensitive st"
  obtain st1 where st1: "acmp_connect_fail_branches st = do {
      st \<leftarrow> acmp_connect_other_matches [[]] st1;
      st \<leftarrow> (if has_child st [] then acmp_build_binary_tree [[]] st else Some st);
      Some (st\<lparr>ac_failtree_done := True\<rparr>) }"
    "linked ?cs ?D W st1" "ac_case_sensitive st1 = ?cs"
    and clean: "ac_nodes st1 w = Some n \<Longrightarrow> nd_o_match n = None \<and> nd_btree n = Tip" for w n
    using fails_done [OF assms] by blast
  define st2 where "st2 = st1\<lparr>ac_nodes := with_match ?D W (?D - {[]}) (ac_nodes st1)\<rparr>"
  have lk2: "linked ?cs ?D W st2" unfolding st2_def by (rule linked_with_match [OF st1(2)])
  define B where "B = {u \<in> ?D. inner ?D u}"
  define st3 where "st3 = st2\<lparr>ac_nodes := with_btree B (ac_nodes st2)\<rparr>"
  have lk3: "linked ?cs ?D W st3" unfolding st3_def by (rule linked_with_btree [OF lk2])
  have trees: "(if has_child st2 [] then acmp_build_binary_tree [[]] st2 else Some st2) = Some st3"
  proof (cases "inner ?D []")
    case True
    then have "{u \<in> ?D. u = [] \<or> inner ?D u} = B" by (auto simp: B_def)
    then show ?thesis using True has_child_run [OF lk2 root_in] binary_tree_run [OF lk2 assms(2)] by (simp add: st3_def)
  next
    case False
    have "u = []" if "u \<in> ?D" for u
    proof (rule ccontr)
      assume "u \<noteq> []"
      then obtain c us where "u = c # us" by (cases u) auto
      then have "prefix [c] u" by (simp add: prefix_def)
      then have "[c] \<in> ?D" by (rule tree_set_prefix [OF matches.tree that])
      then show False using False by (auto simp: inner_def kids_def)
    qed
    then have "B = {}" using False by (auto simp: B_def)
    then have "st3 = st2" by (simp add: st3_def with_btree_def)
    then show ?thesis using False has_child_run [OF lk2 root_in] by simp
  qed
  define st4 where "st4 = st3\<lparr>ac_failtree_done := True, ac_active := True\<rparr>"
  have run: "acmp_prepare st = Some st4"
    using other_matches_run [OF st1(2) assms(2)] trees by (simp add: acmp_prepare_def st1(1) st4_def flip: st2_def)
  have lk4: "linked ?cs ?D W st4" using lk3 by (simp add: linked_def st4_def)
  have "nd_o_match n = ends ?D W (link ?D w) \<and>
      (\<forall>c. acmp_btree_find (nd_btree n) c = (if w @ [c] \<in> ?D then Some (w @ [c]) else None))"
    if n: "ac_nodes st4 w = Some n" for w n
  proof -
    have tr: "trie ?cs ?D W (ac_nodes st4)" using lk4 by (simp add: linked_def)
    have w: "w \<in> ?D" using tr n by (auto simp: trie_def)
    have nodes: "ac_nodes st4 = with_btree B (with_match ?D W (?D - {[]}) (ac_nodes st1))"
      by (simp add: st4_def st3_def st2_def)
    obtain n1 where n1: "ac_nodes st1 w = Some n1"
      using n unfolding nodes by (auto simp: with_btree_def with_match_def split: if_splits)
    have om: "nd_o_match n = (if w = [] then None else ends ?D W (link ?D w))"
      using n n1 w clean [OF n1] unfolding nodes
      by (auto simp: with_btree_def with_match_def split: if_splits option.splits)
    have root: "ends ?D W (link ?D []) = None" by (simp add: link.simps [of ?D "[]"] ends.simps [of ?D W "[]"])
    have bt: "nd_btree n = (if w \<in> B then build_btree w (nd_children n) else Tip)"
      using n n1 w clean [OF n1] unfolding nodes
      by (auto simp: with_btree_def with_match_def split: if_splits option.splits)
    have "acmp_btree_find (nd_btree n) c = (if w @ [c] \<in> ?D then Some (w @ [c]) else None)" for c
    proof (cases "w \<in> B")
      case True
      then have "nd_children n \<noteq> []" using trieD(2) [OF tr n] by (auto simp: B_def inner_def kids_def)
      then show ?thesis using True bt build_btree_find [OF trieD(1) [OF tr n]] trieD(2) [OF tr n] by simp
    next
      case False
      then have "w @ [c] \<notin> ?D" using w by (auto simp: B_def inner_def kids_def)
      then show ?thesis using False bt by simp
    qed
    then show ?thesis using om root by simp
  qed
  then have "prepared ?cs ?D W st4" using lk4 st1(3) by (simp add: prepared_def st4_def st3_def st2_def)
  then show ?thesis using run by blast
qed

section \<open>The search\<close>

text \<open>The letters the search takes from the data.\<close>

definition data_letters :: "bool \<Rightarrow> bytes \<Rightarrow> int list" where
  "data_letters cs s = map (\<lambda>c. if cs then uint c else utf8_lcase (uint c)) s"

lemma step_from_in: "[] \<in> D \<Longrightarrow> step_from D c w \<in> D"
proof (induction D c w rule: step_from.induct)
  case (1 D c w)
  then show ?case by (simp add: step_from.simps [of D c w])
qed

definition node_text :: "acmp \<Rightarrow> path \<Rightarrow> bytes" where
  "node_text st w = nd_text (the (ac_nodes st w))"

lemma goto_loop_run:
  assumes "prepared cs D W st" "[] \<notin> W"
  shows "w \<in> D \<Longrightarrow> goto_loop st c w = Some (let g = step_from D c w in if g \<in> W then Matched (node_text st g) else Goto g)"
proof (induction "length w" arbitrary: w rule: less_induct)
  case less
  have lk: "linked cs D W st" and tr: "trie cs D W (ac_nodes st)" using assms(1) by (simp_all add: prepared_def linked_def)
  obtain n where n: "ac_nodes st w = Some n" "nd_fail n = Some (link D w)"
    using lk less.prems by (auto simp: linked_def failing_def)
  have find: "acmp_btree_find (nd_btree n) c = (if w @ [c] \<in> D then Some (w @ [c]) else None)"
    using assms(1) n(1) by (simp add: prepared_def)
  show ?case
  proof (cases "w @ [c] \<in> D")
    case True
    obtain m where m: "ac_nodes st (w @ [c]) = Some m" using trie_in [OF tr True] by blast
    have "step_from D c w = w @ [c]" using True by (simp add: step_from.simps [of D c w])
    then show ?thesis
      using True n(1) find m trieD(3) [OF tr m] by (simp add: goto_loop.simps [of st c w] Let_def node_text_def)
  next
    case out: False
    show ?thesis
    proof (cases "w = []")
      case True
      then have "step_from D c w = []" using out by (simp add: step_from.simps [of D c "[]"])
      then show ?thesis using True out n(1) find assms(2) by (simp add: goto_loop.simps [of st c "[]"] Let_def)
    next
      case False
      have "link D w \<in> D" using link_in linked_tree [OF lk] by (simp add: tree_set_def)
      then have "goto_loop st c (link D w) =
          Some (let g = step_from D c (link D w) in if g \<in> W then Matched (node_text st g) else Goto g)"
        by (rule less.hyps [OF link_short [OF False]])
      moreover have "step_from D c w = step_from D c (link D w)" using out False by (simp add: step_from.simps [of D c w])
      ultimately show ?thesis using out False n find by (simp add: goto_loop.simps [of st c w])
    qed
  qed
qed

lemma search_loop_run:
  assumes "prepared cs D W st" "[] \<notin> W"
  shows "w \<in> D \<Longrightarrow> \<exists>e. search_loop st w data = Some (case ac_scan D W w (data_letters cs data) of
    None \<Rightarrow> (0, None, e) | Some g \<Rightarrow> (1, Some (node_text st g), e))"
proof (induction data arbitrary: w)
  case Nil
  then show ?case by (simp add: data_letters_def)
next
  case (Cons c data)
  have lk: "linked cs D W st" and tr: "trie cs D W (ac_nodes st)" and cs: "ac_case_sensitive st = cs"
    using assms(1) by (simp_all add: prepared_def linked_def)
  let ?c = "if cs then uint c else utf8_lcase (uint c)"
  define g where "g = step_from D ?c w"
  have gD: "g \<in> D" unfolding g_def using step_from_in linked_tree [OF lk] by (simp add: tree_set_def)
  obtain n where n: "ac_nodes st g = Some n" using trie_in [OF tr gD] by blast
  have om: "nd_o_match n = ends D W (link D g)" using assms(1) n by (simp add: prepared_def)
  have here: "ends D W g = (if g = [] then None else if g \<in> W then Some g else ends D W (link D g))"
    by (simp add: ends.simps [of D W g])
  have root: "ends D W (link D []) = None" by (simp add: link.simps [of D "[]"] ends.simps [of D W "[]"])
  have letters: "data_letters cs (c # data) = ?c # data_letters cs data" by (simp add: data_letters_def)
  have run: "goto_loop st ?c w = Some (if g \<in> W then Matched (node_text st g) else Goto g)"
    using goto_loop_run [OF assms Cons.prems, of ?c] by (simp add: g_def Let_def)
  have sc: "ac_scan D W w (?c # data_letters cs data) = (if ends D W g \<noteq> None then Some g else ac_scan D W g (data_letters cs data))"
    by (simp add: g_def Let_def)
  show ?case
  proof (cases "g \<in> W")
    case True
    then have "g \<noteq> []" using assms(2) by auto
    then show ?thesis unfolding letters sc using True run here cs by simp
  next
    case out: False
    show ?thesis
    proof (cases "ends D W (link D g)")
      case None
      then have "ends D W g = None" using out here by simp
      then show ?thesis unfolding letters sc using None out run cs n om Cons.IH [OF gD] by simp
    next
      case (Some v)
      then have "g \<noteq> []" using root by auto
      then have "ends D W g \<noteq> None" using Some out here by simp
      then show ?thesis unfolding letters sc using Some out run cs n om by (simp add: node_text_def)
    qed
  qed
qed

text \<open>The search over a parser that has been prepared.\<close>

lemma process_run:
  assumes "prepared cs D W st" "[] \<notin> W"
  shows "\<exists>e. acmp_process_quick st None data (length data) = Some (case ac_scan D W [] (data_letters cs data) of
    None \<Rightarrow> (0, None, e, st) | Some g \<Rightarrow> (1, Some (node_text st g), e, st))"
proof -
  have root: "[] \<in> D" using assms(1) linked_tree by (auto simp: prepared_def tree_set_def)
  have fd: "ac_failtree_done st" using assms(1) by (simp add: prepared_def)
  obtain e where e: "search_loop st [] data = Some (case ac_scan D W [] (data_letters cs data) of
      None \<Rightarrow> (0, None, e) | Some g \<Rightarrow> (1, Some (node_text st g), e))"
    using search_loop_run [OF assms root] by blast
  show ?thesis
  proof (cases "ac_scan D W [] (data_letters cs data)")
    case None
    then show ?thesis using e fd by (simp add: acmp_process_quick_def)
  next
    case (Some g)
    then show ?thesis using e fd by (simp add: acmp_process_quick_def)
  qed
qed

end
