(* ===== verification/PmOperator.thy ===== *)
theory PmOperator
  imports AcmpRun LogEscape RuleExec ActionTable
begin

text \<open>
  The operators \<open>pm\<close> and \<open>pmFromFile\<close> of \<^verbatim>\<open>apache2/re_operators.c\<close> with the notation of their parameter
  (\<open>parse_pm_content\<close> of \<^verbatim>\<open>apache2/msc_util.c\<close>): quotes, escapes, and bytes in hexadecimal between bars. The phrases go to
  the parser of \<open>Acmp\<close>, and a value matches when the search finds one. A C string is given without its NUL.
\<close>

section \<open>The notation of the parameter\<close>

text \<open>Access at an index that is computed as an \<^verbatim>\<open>int\<close> and may be negative.\<close>

definition rdi :: "bytes \<Rightarrow> int \<Rightarrow> byte option" where
  "rdi b i = (if i < 0 then None else rd b (nat i))"

definition wri :: "bytes \<Rightarrow> int \<Rightarrow> byte \<Rightarrow> bytes option" where
  "wri b i v = (if i < 0 then None else wr b (nat i) v)"

text \<open>A length kept in an \<^verbatim>\<open>unsigned short\<close>.\<close>

definition ushort_len :: "bytes \<Rightarrow> nat" where
  "ushort_len s = length s mod 65536"

record pm_state =
  pc_parm :: bytes
  pc_x :: nat
  pc_bin :: bool
  pc_esc :: bool
  pc_bin_offset :: nat
  pc_bin_parm :: bytes
  pc_converted :: bool

text \<open>\<^verbatim>\<open>strtol(bin_parm, NULL, 16) & 0xFF\<close>: it reads on as long as there are digits.\<close>

definition bin_value :: "bytes \<Rightarrow> byte option" where
  "bin_value b =
     (let ds = takeWhile c_isxdigit b in if length ds < length b then Some (word_of_int (strtol ds 16)) else None)"

definition unsupported_escape :: bytes where
  "unsupported_escape = ascii ''Unsupported escape sequence.''"

definition content_length_0 :: bytes where
  "content_length_0 = ascii ''Content length is 0.''"

text \<open>One byte \<open>c\<close> of the parameter; \<open>Inl\<close> is the error message.\<close>

definition pm_put :: "byte \<Rightarrow> pm_state \<Rightarrow> pm_state option" where
  "pm_put c st = do {
     parm \<leftarrow> wr (pc_parm st) (pc_x st) c;
     Some (st\<lparr>pc_parm := parm, pc_x := pc_x st + 1\<rparr>) }"

definition pm_byte :: "byte \<Rightarrow> pm_state \<Rightarrow> (bytes + pm_state) option" where
  "pm_byte c st =
     (if c = 124 then Some (Inr (st\<lparr>pc_bin := \<not> pc_bin st\<rparr>))
      else if \<not> pc_esc st \<and> c = 92 then Some (Inr (st\<lparr>pc_esc := True\<rparr>))
      else if pc_bin st then
        (if c_isxdigit c then do {
           bin_parm \<leftarrow> wr (pc_bin_parm st) (pc_bin_offset st) c;
           let st = st\<lparr>pc_bin_parm := bin_parm, pc_bin_offset := pc_bin_offset st + 1\<rparr>;
           if pc_bin_offset st = 2 then do {
             v \<leftarrow> bin_value bin_parm;
             st \<leftarrow> pm_put v (st\<lparr>pc_bin_offset := 0\<rparr>);
             Some (Inr (st\<lparr>pc_converted := True\<rparr>)) }
           else Some (Inr st) }
         else Some (Inr st))
      else if pc_esc st then
        (if c = 58 \<or> c = 59 \<or> c = 92 \<or> c = 34 then do {
           st \<leftarrow> pm_put c st;
           Some (Inr (st\<lparr>pc_esc := False, pc_converted := True\<rparr>)) }
         else Some (Inl unsupported_escape))
      else do { st \<leftarrow> pm_put c st; Some (Inr st) })"

function pm_loop :: "nat \<Rightarrow> nat \<Rightarrow> pm_state \<Rightarrow> (bytes + pm_state) option" where
  "pm_loop i op_len st =
     (if i < op_len then do {
        c \<leftarrow> rd (pc_parm st) i;
        r \<leftarrow> pm_byte c st;
        case r of Inl e \<Rightarrow> Some (Inl e) | Inr st \<Rightarrow> pm_loop (i + 1) op_len st }
      else Some (Inr st))"
  by pat_completeness auto
termination by (relation "measure (\<lambda>(i, op_len, st). op_len - i)") auto

declare pm_loop.simps [simp del]

function pm_skip_space :: "bytes \<Rightarrow> nat \<Rightarrow> nat \<Rightarrow> nat option" where
  "pm_skip_space content op_len offset =
     (if offset < op_len then do {
        c \<leftarrow> rd content offset;
        if c_isspace c then pm_skip_space content op_len (offset + 1) else Some offset }
      else Some offset)"
  by pat_completeness auto
termination by (relation "measure (\<lambda>(content, op_len, offset). op_len - offset)") auto

declare pm_skip_space.simps [simp del]

text \<open>\<open>junk\<close> is what the three bytes of \<^verbatim>\<open>bin_parm\<close> hold at first.\<close>

definition parse_pm_content :: "bytes \<Rightarrow> bytes \<Rightarrow> nat \<Rightarrow> (bytes + bytes) option" where
  "parse_pm_content junk op_parm op_len = do {
     let content = op_parm @ [0];
     offset \<leftarrow> pm_skip_space content op_len 0;
     let op_len = ushort_len op_parm;
     quoted \<leftarrow> and_m [rdp content offset (\<lambda>c. c = 34), map_option (\<lambda>c. c = 34) (rdi content (int op_len - 1))];
     parm \<leftarrow> (if quoted then wri (drop (offset + 1) content) (int op_len - int offset - 2) 0
              else Some (drop offset content));
     str \<leftarrow> c_str parm;
     let op_len = ushort_len str;
     if op_len = 0 then Some (Inl content_length_0)
     else do {
       r \<leftarrow> pm_loop 0 op_len
         \<lparr>pc_parm = parm, pc_x = 0, pc_bin = False, pc_esc = False, pc_bin_offset = 0, pc_bin_parm = junk, pc_converted = False\<rparr>;
       case r of
         Inl e \<Rightarrow> Some (Inl e)
       | Inr st \<Rightarrow> do {
           processed \<leftarrow> pmemdup (pc_parm st) (if pc_converted st then pc_x st else op_len);
           Some (Inr processed) } } }"

section \<open>\<open>pm\<close>\<close>

text \<open>The string a C program sees of a block of bytes that a NUL follows.\<close>

definition up_to_nul :: "bytes \<Rightarrow> bytes" where
  "up_to_nul s = takeWhile (\<lambda>c. c \<noteq> 0) s"

text \<open>The next word of a string, and what follows it.\<close>

definition word_len :: "bytes \<Rightarrow> nat" where
  "word_len s = length (takeWhile (\<lambda>c. \<not> c_isspace c) s)"

lemma word_len_pos: "s \<noteq> [] \<Longrightarrow> \<not> c_isspace (hd s) \<Longrightarrow> 0 < word_len s"
  by (cases s) (simp_all add: word_len_def)

lemma word_shorter:
  assumes "phrase = dropWhile c_isspace s" "phrase \<noteq> []"
  shows "0 < word_len phrase" "length (drop (word_len phrase) phrase) < length s"
proof -
  have "\<not> c_isspace (hd phrase)" using hd_dropWhile [of c_isspace s] assms by simp
  then show pos: "0 < word_len phrase" by (rule word_len_pos [OF assms(2)])
  have "length phrase \<le> length s" by (simp add: assms(1) length_dropWhile_le)
  then show "length (drop (word_len phrase) phrase) < length s" using pos assms(2) by (cases phrase) auto
qed

text \<open>The loop through the phrases.\<close>

function add_phrases :: "bytes \<Rightarrow> acmp \<Rightarrow> acmp option" where
  "add_phrases s p =
     (let phrase = dropWhile c_isspace s in
      if phrase = [] then Some p
      else do {
        (rc, p) \<leftarrow> acmp_add_pattern phrase (word_len phrase) p;
        add_phrases (drop (word_len phrase) phrase) p })"
  by pat_completeness auto
termination
  by (relation "measure (\<lambda>(s, p). length s)") (auto simp del: length_drop intro!: word_shorter(2) [OF refl])

declare add_phrases.simps [simp del]

text \<open>The result: the return value, the error message, and \<open>op_param_data\<close>.\<close>

type_synonym op_init = "int \<times> bytes option \<times> acmp option"

definition missing_pm :: bytes where
  "missing_pm = ascii ''Missing parameter for operator 'pm'.''"

definition msre_op_pm_param_init :: "bytes \<Rightarrow> bytes option \<Rightarrow> op_init option" where
  "msre_op_pm_param_init junk op_param =
     (case op_param of
        None \<Rightarrow> Some (0, Some missing_pm, None)
      | Some s \<Rightarrow>
          if s = [] then Some (0, Some missing_pm, None)
          else do {
            r \<leftarrow> parse_pm_content junk s (ushort_len s);
            p \<leftarrow> add_phrases (case r of Inl e \<Rightarrow> s | Inr t \<Rightarrow> up_to_nul t) (acmp_create False);
            p \<leftarrow> acmp_prepare p;
            Some (1, (case r of Inl e \<Rightarrow> Some e | Inr t \<Rightarrow> None), Some p) })"

section \<open>\<open>pmFromFile\<close>\<close>

text \<open>What \<^verbatim>\<open>apr_file_gets\<close> gives: a line with its newline, or an error. The end of the file ends the list.\<close>

datatype file_line = Line bytes | Gets_error bytes

text \<open>The phrase of a line: \<open>n\<close> is the offset of \<open>end\<close> from \<open>start\<close>.\<close>

fun pm_trim_end :: "bytes \<Rightarrow> nat \<Rightarrow> nat" where
  "pm_trim_end start 0 = 0"
| "pm_trim_end start (Suc n) = (if c_isspace (start ! Suc n) then pm_trim_end start n else Suc n)"

definition pm_line :: "bytes \<Rightarrow> bytes option" where
  "pm_line s =
     (let start = dropWhile c_isspace s;
          n = pm_trim_end start (length start - 1);
          n = (if 0 < n then n + 1 else n)
      in if n = 0 \<or> hd start = 35 then None else Some (take n start))"

fun add_lines :: "bytes \<Rightarrow> (bytes \<Rightarrow> nat \<Rightarrow> bytes \<Rightarrow> bytes) \<Rightarrow> bytes \<Rightarrow> nat \<Rightarrow> file_line list \<Rightarrow> bytes option \<Rightarrow> acmp \<Rightarrow>
    (bytes option \<times> (bytes + acmp)) option" where
  "add_lines junk could_not_read fn line [] msg p = Some (msg, Inr p)"
| "add_lines junk could_not_read fn line (Gets_error e # rest) msg p = Some (msg, Inl (could_not_read fn (line + 1) e))"
| "add_lines junk could_not_read fn line (Line buf # rest) msg p = do {
     r \<leftarrow> parse_pm_content junk buf (ushort_len buf);
     let msg = (case r of Inl e \<Rightarrow> Some e | Inr t \<Rightarrow> msg);
     let start = (case r of Inl e \<Rightarrow> buf | Inr t \<Rightarrow> up_to_nul t);
     p \<leftarrow> (case pm_line start of
             None \<Rightarrow> Some p
           | Some phrase \<Rightarrow> map_option snd (acmp_add_pattern phrase (length phrase) p));
     add_lines junk could_not_read fn (line + 1) rest msg p }"

text \<open>The files: \<open>open_file\<close> stands for the path operations and \<^verbatim>\<open>apr_file_open\<close>; it gives the error or the lines. The
  messages hold the file name; \<open>Inl\<close> of the result is an error.\<close>

record pm_files =
  pf_open :: "bytes \<Rightarrow> bytes + file_line list"
  pf_could_not_open :: "bytes \<Rightarrow> bytes \<Rightarrow> bytes"
  pf_could_not_read :: "bytes \<Rightarrow> nat \<Rightarrow> bytes \<Rightarrow> bytes"
  pf_http :: "bytes \<Rightarrow> bytes"
  pf_https :: "bytes \<Rightarrow> bytes"

definition begins :: "string \<Rightarrow> bytes \<Rightarrow> bool" where
  "begins pre s \<longleftrightarrow> length pre < length s \<and> take (length pre) s = ascii pre"

function add_files :: "bytes \<Rightarrow> pm_files \<Rightarrow> bytes \<Rightarrow> bytes option \<Rightarrow> acmp \<Rightarrow> (bytes option \<times> (bytes + acmp)) option" where
  "add_files junk env s msg p =
     (let names = dropWhile c_isspace s in
      if names = [] then Some (msg, Inr p)
      else
        let fn = take (word_len names) names in
        if begins ''http://'' fn then Some (msg, Inl (pf_http env fn))
        else if begins ''https://'' fn then Some (msg, Inl (pf_https env fn))
        else case pf_open env fn of
          Inl e \<Rightarrow> Some (msg, Inl (pf_could_not_open env fn e))
        | Inr lines \<Rightarrow> do {
            (msg, r) \<leftarrow> add_lines junk (pf_could_not_read env) fn 0 lines msg p;
            case r of
              Inl e \<Rightarrow> Some (msg, Inl e)
            | Inr p \<Rightarrow> add_files junk env (drop (word_len names) names) msg p })"
  by pat_completeness auto
termination
  by (relation "measure (\<lambda>(junk, env, s, msg, p). length s)") (auto simp del: length_drop intro!: word_shorter(2) [OF refl])

declare add_files.simps [simp del]

definition missing_pmFromFile :: bytes where
  "missing_pmFromFile = ascii ''Missing parameter for operator 'pmFromFile'.''"

definition msre_op_pmFromFile_param_init :: "bytes \<Rightarrow> pm_files \<Rightarrow> bytes option \<Rightarrow> op_init option" where
  "msre_op_pmFromFile_param_init junk env op_param =
     (case op_param of
        None \<Rightarrow> Some (0, Some missing_pmFromFile, None)
      | Some s \<Rightarrow>
          if s = [] then Some (0, Some missing_pmFromFile, None)
          else do {
            (msg, r) \<leftarrow> add_files junk env s None (acmp_create False);
            case r of
              Inl e \<Rightarrow> Some (0, Some e, None)
            | Inr p \<Rightarrow> do { p \<leftarrow> acmp_prepare p; Some (1, msg, Some p) } })"

section \<open>Execution\<close>

definition matched_phrase :: "bytes \<Rightarrow> bytes \<Rightarrow> bytes" where
  "matched_phrase match_escaped name =
     (if length match_escaped > 252
      then ascii ''Matched phrase '' @ 34 # take 252 match_escaped @ ascii '' ...'' @ 34 # ascii '' at '' @ name @ ascii ''.''
      else ascii ''Matched phrase '' @ 34 # match_escaped @ 34 # ascii '' at '' @ name @ ascii ''.'')"

text \<open>The capture of the match as \<open>TX:0\<close>; the entries from \<open>i\<close> on are removed.\<close>

definition digit_name :: "nat \<Rightarrow> bytes" where
  "digit_name i = [48 + of_nat i]"

definition unset_from :: "nat \<Rightarrow> (bytes \<rightharpoonup> bytes) \<Rightarrow> (bytes \<rightharpoonup> bytes)" where
  "unset_from i tx_vars = fold (\<lambda>k m. m(digit_name k := None)) [i..<10] tx_vars"

text \<open>\<open>junk\<close> is what the memory that \<open>log_escape\<close> allocates holds. The result: the return value, the error message,
  \<open>tx_vars\<close>, and the parser.\<close>

definition msre_op_pm_execute ::
  "(nat \<Rightarrow> byte) \<Rightarrow> bool \<Rightarrow> acmp option \<Rightarrow> bytes \<Rightarrow> (bytes \<times> nat) option \<Rightarrow> (bytes \<rightharpoonup> bytes) \<Rightarrow>
    (int \<times> bytes option \<times> (bytes \<rightharpoonup> bytes) \<times> acmp option) option" where
  "msre_op_pm_execute junk capture op_param_data name var tx_vars =
     (case var of
        None \<Rightarrow> Some (0, None, tx_vars, op_param_data)
      | Some (value, value_len) \<Rightarrow>
          if value_len = 0 then Some (0, None, tx_vars, op_param_data)
          else case op_param_data of
            None \<Rightarrow> Some (0, None, tx_vars, None)
          | Some parser \<Rightarrow> do {
              (rc, match, ptr, parser) \<leftarrow> acmp_process_quick parser None value value_len;
              if rc \<noteq> 0 then do {
                esc \<leftarrow> log_escape junk (Some (case match of None \<Rightarrow> ascii ''<Unknown Match>'' @ [0] | Some m \<Rightarrow> m @ [0]));
                match_escaped \<leftarrow> Option.bind esc c_str;
                let msg = Some (matched_phrase match_escaped name);
                if capture
                then (case match of
                        None \<Rightarrow> Some (-1, msg, tx_vars, Some parser)
                      | Some m \<Rightarrow> Some (1, msg, unset_from (nat rc) (tx_vars(digit_name 0 \<mapsto> up_to_nul m)), Some parser))
                else Some (1, msg, tx_vars, Some parser) }
              else Some (rc, None, tx_vars, Some parser) })"

end
