(* ===== verification/PmMatch.thy ===== *)
theory PmMatch
  imports PmOperator
begin

text \<open>
  What the operators \<open>pm\<close> and \<open>pmFromFile\<close> do: the notation of the parameter against a reference function, the phrases as the
  words of the parameter, and the result of the search against the occurrence of a phrase.
\<close>

section \<open>The notation against a reference\<close>

text \<open>\<open>half\<close> is the digit that waits for its partner. The result: the bytes written, and whether an escape or a pair of
  digits was converted; \<^term>\<open>None\<close> is an unsupported escape.\<close>

definition hex_pair :: "byte \<Rightarrow> byte \<Rightarrow> byte" where
  "hex_pair a b = word_of_int (strtol [a, b] 16)"

definition escapable :: "byte \<Rightarrow> bool" where
  "escapable c \<longleftrightarrow> c = 58 \<or> c = 59 \<or> c = 92 \<or> c = 34"

definition emit :: "byte \<Rightarrow> bool \<Rightarrow> (bytes \<times> bool) option \<Rightarrow> (bytes \<times> bool) option" where
  "emit c conv r = map_option (\<lambda>(out, k). (c # out, conv \<or> k)) r"

fun pm_scan :: "bool \<Rightarrow> bool \<Rightarrow> byte option \<Rightarrow> bytes \<Rightarrow> (bytes \<times> bool) option" where
  "pm_scan bin esc half [] = Some ([], False)"
| "pm_scan bin esc half (c # cs) =
     (if c = 124 then pm_scan (\<not> bin) esc half cs
      else if \<not> esc \<and> c = 92 then pm_scan bin True half cs
      else if bin then
        (if c_isxdigit c then
           (case half of None \<Rightarrow> pm_scan bin esc (Some c) cs | Some h \<Rightarrow> emit (hex_pair h c) True (pm_scan bin esc None cs))
         else pm_scan bin esc half cs)
      else if esc then (if escapable c then emit c True (pm_scan bin False half cs) else None)
      else emit c False (pm_scan bin esc half cs))"

definition half_ok :: "byte option \<Rightarrow> nat \<Rightarrow> bytes \<Rightarrow> bool" where
  "half_ok half k bin_parm \<longleftrightarrow> length bin_parm = 3 \<and> \<not> c_isxdigit (bin_parm ! 2) \<and>
     (case half of None \<Rightarrow> k = 0 | Some h \<Rightarrow> k = 1 \<and> bin_parm ! 0 = h \<and> c_isxdigit h)"

lemma bin_value_pair:
  assumes "length b = 3" "\<not> c_isxdigit (b ! 2)" "c_isxdigit (b ! 0)" "c_isxdigit (b ! 1)"
  shows "bin_value b = Some (hex_pair (b ! 0) (b ! 1))"
proof -
  obtain x y z where b: "b = [x, y, z]"
    using assms(1) by (auto simp: numeral_3_eq_3 length_Suc_conv)
  show ?thesis using assms(2-4) by (simp add: b bin_value_def hex_pair_def Let_def)
qed

text \<open>The loop writes over what it has read already.\<close>

definition pm_ends :: "bytes \<Rightarrow> nat \<Rightarrow> bytes \<Rightarrow> bool \<Rightarrow> (bytes \<times> bool) option \<Rightarrow> (bytes + pm_state) option \<Rightarrow> bool" where
  "pm_ends s n out k spec r =
     (case spec of
        None \<Rightarrow> r = Some (Inl unsupported_escape)
      | Some (new, conv) \<Rightarrow> \<exists>st'. r = Some (Inr st') \<and> pc_parm st' = blit s 0 (out @ new) \<and>
          pc_x st' = length (out @ new) \<and> pc_converted st' = (k \<or> conv) \<and> length (out @ new) \<le> n)"

lemma pm_ends_emit: "pm_ends s n (out @ [v]) (k \<or> conv) spec r \<Longrightarrow> pm_ends s n out k (emit v conv spec) r"
  by (auto simp: pm_ends_def emit_def split: option.splits)

lemma pm_loop_run:
  assumes "drop i (take n s) = xs" "n < length s" "length out \<le> i" "i \<le> n" "half_ok half (pc_bin_offset st) (pc_bin_parm st)"
    "pc_parm st = blit s 0 out" "pc_x st = length out"
  shows "pm_ends s n out (pc_converted st) (pm_scan (pc_bin st) (pc_esc st) half xs) (pm_loop i n st)"
  using assms
proof (induction xs arbitrary: i out st half)
  case Nil
  then have "n \<le> i" by simp
  then show ?case using Nil by (simp add: pm_loop.simps [of i] pm_ends_def)
next
  case (Cons c cs)
  note prems = Cons.prems
  have i: "i < n" "s ! i = c" "drop (i + 1) (take n s) = cs"
    using prems(1,2) drop_ConsD [OF prems(1)] by auto
  have read: "rd (pc_parm st) i = Some c" using prems(2,3,6) i by simp
  have step: "pm_loop i n st = Option.bind (pm_byte c st) (case_sum (\<lambda>e. Some (Inl e)) (pm_loop (Suc i) n))"
    using i(1) read by (simp add: pm_loop.simps [of i n st])
  have go: "pm_ends s n out1 (pc_converted st1) (pm_scan (pc_bin st1) (pc_esc st1) half1 cs) (pm_loop i n st)"
    if "pm_byte c st = Some (Inr st1)" "length out1 \<le> i + 1" "half_ok half1 (pc_bin_offset st1) (pc_bin_parm st1)"
      "pc_parm st1 = blit s 0 out1" "pc_x st1 = length out1" for st1 out1 half1
    using Cons.IH [OF i(3) prems(2) that(2) _ that(3-5)] i(1) that(1) by (simp add: step)
  have wrv: "wr (pc_parm st) (pc_x st) v = Some (blit s 0 (out @ [v]))" for v
    using prems(2,3,6,7) i(1) blit_blit [of 0 out s "[v]"] by (simp add: blit_single)
  have put: "pm_put v st' = Some (st'\<lparr>pc_parm := blit s 0 (out @ [v]), pc_x := length (out @ [v])\<rparr>)"
    if "pc_parm st' = pc_parm st" "pc_x st' = pc_x st" for v st'
    using wrv [of v] that prems(7) by (simp add: pm_put_def)
  consider "c = 124" | "c \<noteq> 124" "\<not> pc_esc st" "c = 92" | "c \<noteq> 124" "pc_esc st \<or> c \<noteq> 92" by blast
  then show ?case
  proof cases
    case 1
    have "pm_ends s n out (pc_converted st) (pm_scan (\<not> pc_bin st) (pc_esc st) half cs) (pm_loop i n st)"
      using go [of "st\<lparr>pc_bin := \<not> pc_bin st\<rparr>" out half] 1 prems by (simp add: pm_byte_def)
    then show ?thesis using 1 by simp
  next
    case 2
    have "pm_ends s n out (pc_converted st) (pm_scan (pc_bin st) True half cs) (pm_loop i n st)"
      using go [of "st\<lparr>pc_esc := True\<rparr>" out half] 2 prems by (simp add: pm_byte_def)
    then show ?thesis using 2 by simp
  next
    case 3
    then have not2: "\<not> (\<not> pc_esc st \<and> c = 92)" by blast
    show ?thesis
    proof (cases "pc_bin st")
      case bin: True
      show ?thesis
      proof (cases "c_isxdigit c")
        case False
        have "pm_ends s n out (pc_converted st) (pm_scan (pc_bin st) (pc_esc st) half cs) (pm_loop i n st)"
          using go [of st out half] 3(1) not2 bin False prems by (auto simp: pm_byte_def)
        then show ?thesis using 3(1) not2 bin False by auto
      next
        case hex: True
        show ?thesis
        proof (cases half)
          case None
          let ?st = "st\<lparr>pc_bin_parm := (pc_bin_parm st)[0 := c], pc_bin_offset := 1\<rparr>"
          have b: "pc_bin_offset st = 0" "length (pc_bin_parm st) = 3" "\<not> c_isxdigit (pc_bin_parm st ! 2)"
            using prems(5) None by (simp_all add: half_ok_def)
          have "pm_byte c st = Some (Inr ?st)" using 3(1) not2 bin hex b by (auto simp: pm_byte_def Let_def)
          then have "pm_ends s n out (pc_converted st) (pm_scan (pc_bin st) (pc_esc st) (Some c) cs) (pm_loop i n st)"
            using go [of ?st out "Some c"] b hex prems by (simp add: half_ok_def)
          then show ?thesis using 3(1) not2 bin hex None by auto
        next
          case (Some h)
          let ?b = "(pc_bin_parm st)[1 := c]"
          have b: "pc_bin_offset st = 1" "length (pc_bin_parm st) = 3" "\<not> c_isxdigit (pc_bin_parm st ! 2)"
            "pc_bin_parm st ! 0 = h" "c_isxdigit h"
            using prems(5) Some by (simp_all add: half_ok_def)
          have v: "bin_value ?b = Some (hex_pair h c)" using bin_value_pair [of ?b] b hex by simp
          let ?st = "st\<lparr>pc_bin_parm := ?b, pc_bin_offset := 0, pc_parm := blit s 0 (out @ [hex_pair h c]),
            pc_x := length (out @ [hex_pair h c]), pc_converted := True\<rparr>"
          have "pm_byte c st = Some (Inr ?st)" using 3(1) not2 bin hex b v put by (auto simp: pm_byte_def Let_def)
          then have "pm_ends s n (out @ [hex_pair h c]) True (pm_scan (pc_bin st) (pc_esc st) None cs) (pm_loop i n st)"
            using go [of ?st "out @ [hex_pair h c]" None] b prems by (simp add: half_ok_def)
          then have "pm_ends s n out (pc_converted st) (emit (hex_pair h c) True (pm_scan (pc_bin st) (pc_esc st) None cs)) (pm_loop i n st)"
            by (intro pm_ends_emit) simp
          then show ?thesis using 3(1) not2 bin hex Some by auto
        qed
      qed
    next
      case out: False
      show ?thesis
      proof (cases "pc_esc st")
        case esc: True
        show ?thesis
        proof (cases "escapable c")
          case True
          let ?st = "st\<lparr>pc_parm := blit s 0 (out @ [c]), pc_x := length (out @ [c]), pc_esc := False, pc_converted := True\<rparr>"
          have "pm_byte c st = Some (Inr ?st)" using 3(1) not2 out esc True put by (auto simp: pm_byte_def escapable_def)
          then have "pm_ends s n (out @ [c]) True (pm_scan (pc_bin st) False half cs) (pm_loop i n st)"
            using go [of ?st "out @ [c]" half] prems by simp
          then have "pm_ends s n out (pc_converted st) (emit c True (pm_scan (pc_bin st) False half cs)) (pm_loop i n st)"
            by (intro pm_ends_emit) simp
          then show ?thesis using 3(1) not2 out esc True by auto
        next
          case False
          then have "pm_byte c st = Some (Inl unsupported_escape)"
            using 3(1) not2 out esc unfolding pm_byte_def escapable_def by auto
          then have "pm_loop i n st = Some (Inl unsupported_escape)" by (simp add: step)
          then show ?thesis using 3(1) not2 out esc False by (auto simp: pm_ends_def)
        qed
      next
        case esc: False
        let ?st = "st\<lparr>pc_parm := blit s 0 (out @ [c]), pc_x := length (out @ [c])\<rparr>"
        have "pm_byte c st = Some (Inr ?st)" using 3(1) not2 out esc put by (auto simp: pm_byte_def)
        then have "pm_ends s n (out @ [c]) (pc_converted st) (pm_scan (pc_bin st) (pc_esc st) half cs) (pm_loop i n st)"
          using go [of ?st "out @ [c]" half] prems by simp
        then have "pm_ends s n out (pc_converted st) (emit c False (pm_scan (pc_bin st) (pc_esc st) half cs)) (pm_loop i n st)"
          by (intro pm_ends_emit) simp
        then show ?thesis using 3(1) not2 out esc by auto
      qed
    qed
  qed
qed

text \<open>The parameter without leading space and, when it has them, without its quotes.\<close>

definition unquoted :: "bytes \<Rightarrow> bytes" where
  "unquoted s = (let t = dropWhile c_isspace s in if t \<noteq> [] \<and> hd t = 34 \<and> List.last t = 34 then butlast (tl t) else t)"

text \<open>What the notation stands for; when nothing was converted, the length stays what it was.\<close>

definition pm_notation :: "bytes \<Rightarrow> bytes + bytes" where
  "pm_notation str =
     (if str = [] then Inl content_length_0
      else case pm_scan False False None str of
        None \<Rightarrow> Inl unsupported_escape
      | Some (out, conv) \<Rightarrow> Inr (if conv then out else out @ drop (length out) str))"

lemma pm_skip_space_run:
  "drop off s = t \<Longrightarrow> off \<le> length s \<Longrightarrow> pm_skip_space (s @ [0]) (length s) off = Some (off + length (takeWhile c_isspace t))"
proof (induction t arbitrary: off)
  case Nil
  then show ?case by (subst pm_skip_space.simps) simp
next
  case (Cons c t)
  have "off < length s" "rd (s @ [0]) off = Some c" "drop (off + 1) s = t"
    using drop_ConsD [OF Cons.prems(1)] by (simp_all add: nth_append)
  then show ?case
    using Cons.IH [of "off + 1"] by (simp add: pm_skip_space.simps [of "s @ [0]" "length s" off])
qed

text \<open>The conditions under which the memory accesses are in order. \<open>junk\<close> is \<^verbatim>\<open>bin_parm[3]\<close> as the stack left it:
  the code writes its first two bytes and hands all of it to \<^verbatim>\<open>strtol\<close>, so the third must end the number. Nothing in
  the code makes sure of that.\<close>

definition pm_parameter_ok :: "bytes \<Rightarrow> bytes \<Rightarrow> bool" where
  "pm_parameter_ok junk s \<longleftrightarrow> 0 \<notin> set s \<and> length s < 65536 \<and> dropWhile c_isspace s \<noteq> [34] \<and>
     length junk = 3 \<and> \<not> c_isxdigit (junk ! 2)"

lemma parse_pm_content_run:
  assumes "pm_parameter_ok junk s"
  shows "parse_pm_content junk s (ushort_len s) = Some (pm_notation (unquoted s))"
proof -
  define t where "t = dropWhile c_isspace s"
  define off where "off = length (takeWhile c_isspace s)"
  have s: "0 \<notin> set s" "ushort_len s = length s" "t \<noteq> [34]" "length junk = 3" "\<not> c_isxdigit (junk ! 2)"
    using assms by (simp_all add: pm_parameter_ok_def ushort_len_def t_def)
  have split: "s = takeWhile c_isspace s @ t" by (simp add: t_def)
  have len: "length s = off + length t" by (subst split) (simp add: off_def)
  have drop: "drop off s = t" by (subst split) (simp add: off_def)
  have skip: "pm_skip_space (s @ [0]) (length s) 0 = Some off"
    using pm_skip_space_run [of 0 s s] by (simp add: off_def)
  define q where "q = (t \<noteq> [] \<and> hd t = 34 \<and> List.last t = 34)"
  have first: "rdp (s @ [0]) off (\<lambda>c. c = 34) = Some (t \<noteq> [] \<and> hd t = 34)"
    using len drop by (cases t) (auto simp: rdp_def rd_def nth_append hd_drop_conv_nth dest: drop_ConsD)
  have lst: "rdi (s @ [0]) (int (length s) - 1) = Some (List.last t)" if "t \<noteq> []"
  proof -
    have "s \<noteq> []" using that drop by auto
    moreover have "List.last s = List.last t" using that by (subst split) simp
    moreover have "nat (int (length s) - 1) = length s - 1" by simp
    ultimately show ?thesis by (simp add: rdi_def rd_def nth_append last_conv_nth)
  qed
  have quoted: "and_m [rdp (s @ [0]) off (\<lambda>c. c = 34), map_option (\<lambda>c. c = 34) (rdi (s @ [0]) (int (length s) - 1))] = Some q"
    using first lst by (auto simp: q_def)
  have str0: "0 \<notin> set (unquoted s)"
  proof -
    have t0: "0 \<notin> set t" using s(1) set_dropWhileD [of 0 c_isspace s] by (auto simp: t_def)
    then have "0 \<notin> set (butlast (tl t))" by (metis in_set_butlastD list.set_sel(2) tl_Nil)
    then show ?thesis using t0 by (simp add: unquoted_def Let_def flip: t_def)
  qed
  obtain rest where parm: "(if q then wri (drop (off + 1) (s @ [0])) (int (length s) - int off - 2) 0
      else Some (drop off (s @ [0]))) = Some (unquoted s @ 0 # rest)"
  proof (cases q)
    case True
    then obtain u where u: "t = 34 # u" by (cases t) (auto simp: q_def)
    then have "u \<noteq> []" using s(3) by auto
    then obtain m where m: "u = m @ [34]" using True u by (metis append_butlast_last_id last_ConsR q_def)
    have d: "drop (off + 1) (s @ [0]) = u @ [0]" using drop_ConsD(4) [of off s 34 u] drop u len by simp
    have n: "int (length s) - int off - 2 = int (length m)" using len u m by simp
    have "wri (u @ [0]) (int (length m)) 0 = Some (m @ [0, 0])" by (simp add: m wri_def wr_def)
    moreover have "unquoted s = m" using True u m by (simp add: unquoted_def q_def flip: t_def)
    ultimately show thesis using that [of "[0]"] True unfolding d n by simp
  next
    case False
    then have "unquoted s = t" by (auto simp: unquoted_def q_def Let_def simp flip: t_def)
    then show thesis using that [of "[]"] False drop len by simp
  qed
  let ?str = "unquoted s"
  have n: "ushort_len ?str = length ?str"
  proof -
    have "length ?str \<le> length t" by (auto simp: unquoted_def Let_def simp flip: t_def)
    then show ?thesis using assms len by (simp add: ushort_len_def pm_parameter_ok_def)
  qed
  show ?thesis
  proof (cases "?str = []")
    case True
    then show ?thesis
      using skip quoted parm s(2) n by (simp add: parse_pm_content_def pm_notation_def Let_def del: and_m.simps)
  next
    case False
    let ?st = "\<lparr>pc_parm = ?str @ 0 # rest, pc_x = 0, pc_bin = False, pc_esc = False, pc_bin_offset = 0, pc_bin_parm = junk,
      pc_converted = False\<rparr>"
    have run: "pm_ends (?str @ 0 # rest) (length ?str) [] False (pm_scan False False None ?str) (pm_loop 0 (length ?str) ?st)"
      using pm_loop_run [of 0 "length ?str" "?str @ 0 # rest" ?str "[]" None ?st] s(4,5) by (simp add: half_ok_def)
    have whole: "parse_pm_content junk s (ushort_len s) = do {
        r \<leftarrow> pm_loop 0 (length ?str) ?st;
        case r of Inl e \<Rightarrow> Some (Inl e)
        | Inr st \<Rightarrow> do { processed \<leftarrow> pmemdup (pc_parm st) (if pc_converted st then pc_x st else length ?str); Some (Inr processed) } }"
      using skip quoted parm False str0 by (simp add: parse_pm_content_def Let_def s(2) n cong: if_cong del: and_m.simps)
    show ?thesis
    proof (cases "pm_scan False False None ?str")
      case None
      then show ?thesis using run False by (simp add: whole pm_ends_def pm_notation_def)
    next
      case (Some res)
      obtain out conv where res: "res = (out, conv)" by (cases res)
      obtain st' where st': "pm_loop 0 (length ?str) ?st = Some (Inr st')" "pc_parm st' = blit (?str @ 0 # rest) 0 out"
        "pc_x st' = length out" "pc_converted st' = conv" "length out \<le> length ?str"
        using run Some res by (auto simp: pm_ends_def)
      then show ?thesis
        using Some res False by (simp add: whole pm_notation_def pmemdup_def blit_def)
    qed
  qed
qed

section \<open>The phrases\<close>

function words :: "bytes \<Rightarrow> bytes list" where
  "words s =
     (let t = dropWhile c_isspace s in if t = [] then [] else take (word_len t) t # words (drop (word_len t) t))"
  by pat_completeness auto
termination
  by (relation "measure length") (auto simp del: length_drop intro!: word_shorter(2) [OF refl])

declare words.simps [simp del]

lemma add_phrases_run:
  "holds_trie W p \<Longrightarrow> \<exists>p'. add_phrases s p = Some p' \<and> holds_trie (letters (ac_case_sensitive p) ` set (words s) \<union> W) p' \<and>
    ac_case_sensitive p' = ac_case_sensitive p"
proof (induction s arbitrary: p W rule: words.induct)
  case (1 s)
  define t where "t = dropWhile c_isspace s"
  show ?case
  proof (cases "t = []")
    case True
    then show ?thesis using 1(2) by (simp add: add_phrases.simps [of s] words.simps [of s] flip: t_def)
  next
    case False
    have n: "word_len t \<noteq> 0" "word_len t \<le> length t"
      using word_shorter(1) [OF t_def False] by (simp_all add: word_len_def length_takeWhile_le)
    obtain p1 where p1: "acmp_add_pattern t (word_len t) p = Some (0, p1)"
      "holds_trie (insert (letters (ac_case_sensitive p) (take (word_len t) t)) W) p1" "ac_case_sensitive p1 = ac_case_sensitive p"
      using add_pattern_run [OF 1(2), of "word_len t" "word_len t" t] n by auto
    obtain p2 where p2: "add_phrases (drop (word_len t) t) p1 = Some p2"
      "holds_trie (letters (ac_case_sensitive p1) ` set (words (drop (word_len t) t)) \<union>
        insert (letters (ac_case_sensitive p) (take (word_len t) t)) W) p2" "ac_case_sensitive p2 = ac_case_sensitive p1"
      using 1(1) [OF t_def False p1(2)] by blast
    have ws: "words s = take (word_len t) t # words (drop (word_len t) t)"
      using False by (simp add: words.simps [of s] Let_def flip: t_def)
    have "add_phrases s p = Some p2"
      using False p1(1) p2(1) by (simp add: add_phrases.simps [of s] Let_def flip: t_def)
    then show ?thesis using p2(2,3) p1(3) unfolding ws by auto
  qed
qed

lemma words_nonempty: "w \<in> set (words s) \<Longrightarrow> w \<noteq> []"
proof (induction s rule: words.induct)
  case (1 s)
  define t where "t = dropWhile c_isspace s"
  show ?case
  proof (cases "t = []")
    case True
    then show ?thesis using 1(2) by (simp add: words.simps [of s] flip: t_def)
  next
    case False
    have ws: "words s = take (word_len t) t # words (drop (word_len t) t)"
      using False by (simp add: words.simps [of s] Let_def flip: t_def)
    show ?thesis
    proof (cases "w = take (word_len t) t")
      case True
      then show ?thesis using word_shorter(1) [OF t_def False] False by simp
    next
      case other: False
      then have "w \<in> set (words (drop (word_len t) t))" using 1(2) unfolding ws by simp
      then show ?thesis by (rule 1(1) [OF t_def False])
    qed
  qed
qed

text \<open>The string whose words are the phrases.\<close>

definition pm_phrases :: "bytes \<Rightarrow> bytes list" where
  "pm_phrases s = words (case pm_notation (unquoted s) of Inl e \<Rightarrow> s | Inr t \<Rightarrow> up_to_nul t)"

definition lower :: "bytes \<Rightarrow> bytes" where
  "lower s = map c_tolower s"

lemma letters_lower: "letters False s = map uint (lower s)"
  by (simp add: letters_def letter_of_def utf8_lcase_def lower_def)

lemma data_letters_lower: "data_letters False s = map uint (lower s)"
  by (simp add: data_letters_def utf8_lcase_def lower_def)

lemma occurs_map_uint: "occurs (map uint v) (map uint s) \<longleftrightarrow> sublist v (s :: bytes)"
proof
  assume "occurs (map uint v) (map uint s)"
  then obtain pre post where "map uint s = pre @ map uint v @ post" by (auto simp: occurs_def)
  then obtain a b c where s: "s = a @ b @ c" "map uint b = map uint v" by (auto simp: map_eq_append_conv append_eq_map_conv)
  have "inj (uint :: byte \<Rightarrow> int)" by (rule inj_on_inverseI [of _ word_of_int]) simp
  then have "b = v" using s(2) by (simp add: inj_map_eq_map)
  then show "sublist v s" using s(1) by (auto simp: sublist_def)
next
  assume "sublist v s"
  then obtain a c where "s = a @ v @ c" by (auto simp: sublist_def)
  then show "occurs (map uint v) (map uint s)" by (auto simp: occurs_def)
qed

definition phrase_set :: "bytes list \<Rightarrow> path set" where
  "phrase_set ps = letters False ` set ps"

lemma phrase_set_append: "phrase_set (ps @ qs) = phrase_set ps \<union> phrase_set qs"
  by (simp add: phrase_set_def image_Un)

lemma phrase_set_nonempty: "[] \<notin> set ps \<Longrightarrow> [] \<notin> phrase_set ps"
  by (auto simp: phrase_set_def letters_def)

lemma pm_init_run:
  assumes "pm_parameter_ok junk s" "s \<noteq> []"
  shows "\<exists>msg p. msre_op_pm_param_init junk (Some s) = Some (1, msg, Some p) \<and>
    prepared False (nodes_of (phrase_set (pm_phrases s))) (phrase_set (pm_phrases s)) p"
proof -
  let ?r = "pm_notation (unquoted s)"
  let ?t = "case ?r of Inl e \<Rightarrow> s | Inr t \<Rightarrow> up_to_nul t"
  have cs: "ac_case_sensitive (acmp_create False) = False" by (simp add: acmp_create_def)
  obtain p1 where p1: "add_phrases ?t (acmp_create False) = Some p1" "holds_trie (phrase_set (pm_phrases s)) p1"
    "\<not> ac_case_sensitive p1"
    using add_phrases_run [OF acmp_create_holds [of False], of ?t] by (auto simp: cs pm_phrases_def phrase_set_def)
  have "finite (phrase_set (pm_phrases s))" by (simp add: phrase_set_def)
  then obtain p where "acmp_prepare p1 = Some p"
    "prepared False (nodes_of (phrase_set (pm_phrases s))) (phrase_set (pm_phrases s)) p"
    using acmp_prepare_run [OF p1(2)] p1(3) by auto
  then show ?thesis
    using assms p1(1) parse_pm_content_run [OF assms(1)] by (simp add: msre_op_pm_param_init_def)
qed

section \<open>The result\<close>

lemma c_str_total: "0 \<in> set b \<Longrightarrow> \<exists>x. c_str b = Some x"
  by (induction b) auto

lemma escape_total: "\<exists>esc x. log_escape junk (Some (m @ [0])) = Some (Some esc) \<and> c_str esc = Some x"
proof -
  obtain x where x: "c_str (m @ [0]) = Some x" using c_str_total [of "m @ [0]"] by auto
  then obtain ys where "m @ [0] = x @ 0 # ys" using c_str_SomeD by blast
  then have "length x \<le> length (m @ [0])" by simp
  then obtain tail where "log_escape_impl junk (Some (m @ [0])) (length x) True False False =
      Some (Some (concat (map (log_emit True False False) (take (length x) (m @ [0]))) @ 0 # tail))"
    using log_escape_impl_run by blast
  then show ?thesis
    using x c_str_total [of "concat (map (log_emit True False False) (take (length x) (m @ [0]))) @ 0 # tail"]
    by (auto simp: log_escape_def text_len_def)
qed

lemma execute_run:
  assumes "prepared False D W p" "[] \<notin> W" "0 < n" "n \<le> length value"
  shows "\<exists>msg tx. msre_op_pm_execute junk capture (Some p) name (Some (value, n)) tx_vars =
    Some ((if ac_scan D W [] (map uint (lower (take n value))) = None then 0 else 1), msg, tx, Some p)"
proof -
  have cut: "acmp_process_quick p None value n = acmp_process_quick p None (take n value) (length (take n value))"
    using assms(4) by (simp add: acmp_process_quick_def min_def)
  obtain e where e: "acmp_process_quick p None value n = Some (case ac_scan D W [] (map uint (lower (take n value))) of
    None \<Rightarrow> (0, None, e, p) | Some g \<Rightarrow> (1, Some (node_text p g), e, p))"
    using process_run [OF assms(1,2), of "take n value"] by (auto simp: cut data_letters_lower)
  show ?thesis
  proof (cases "ac_scan D W [] (map uint (lower (take n value)))")
    case None
    then show ?thesis using e assms(3) by (simp add: msre_op_pm_execute_def)
  next
    case (Some g)
    obtain esc x where x: "log_escape junk (Some (node_text p g @ [0])) = Some (Some esc)" "c_str esc = Some x"
      using escape_total by blast
    show ?thesis using Some e x assms(3) by (cases capture) (simp_all add: msre_op_pm_execute_def Let_def)
  qed
qed

text \<open>The first letter of a phrase is nowhere else in a phrase.\<close>

definition firsts_apart :: "bytes list \<Rightarrow> bool" where
  "firsts_apart ps \<longleftrightarrow> list_all (\<lambda>w. list_all (\<lambda>v. c_tolower (hd w) \<notin> set (lower (tl v))) ps) ps"

definition phrase_occurs :: "bytes list \<Rightarrow> bytes \<Rightarrow> bool" where
  "phrase_occurs ps s \<longleftrightarrow> list_ex (\<lambda>w. sublist (lower w) (lower s)) ps"

lemma phrase_occurs_iff: "phrase_occurs ps s \<longleftrightarrow> (\<exists>v\<in>phrase_set ps. occurs v (map uint (lower s)))"
  by (simp add: phrase_occurs_def phrase_set_def letters_lower occurs_map_uint list_ex_iff)

lemma firsts_apart_links:
  assumes "firsts_apart ps" "[] \<notin> set ps"
  shows "links_right (nodes_of (phrase_set ps))"
proof (rule links_right_first)
  show "tree_set (nodes_of (phrase_set ps))" by (rule matches.tree)
next
  fix w assume w: "w \<in> nodes_of (phrase_set ps)" "w \<noteq> []"
  then obtain v where "v \<in> phrase_set ps" "prefix w v" by (auto simp: nodes_of_def)
  moreover have "prefix [hd w] w" using w(2) by (cases w) (auto simp: prefix_def)
  ultimately show "[hd w] \<in> nodes_of (phrase_set ps)" unfolding nodes_of_def by (blast intro: prefix_order.trans)
next
  fix w c assume w: "w \<in> nodes_of (phrase_set ps)" "w \<noteq> []" "c \<in> set (tl w)"
  then obtain v where v: "v \<in> set ps" "prefix w (letters False v)" by (auto simp: nodes_of_def phrase_set_def)
  then obtain z where z: "letters False v = w @ z" by (auto simp: prefix_def)
  have "c \<in> set (tl (letters False v))" using w(2,3) unfolding z by (cases w) auto
  then have c: "c \<in> uint ` set (lower (tl v))" by (simp add: letters_lower lower_def map_tl [symmetric] image_image)
  show "[c] \<notin> nodes_of (phrase_set ps)"
  proof
    assume "[c] \<in> nodes_of (phrase_set ps)"
    then obtain u where u: "u \<in> set ps" "prefix [c] (letters False u)" by (auto simp: nodes_of_def phrase_set_def)
    obtain d us where d: "u = d # us" using assms(2) u(1) by (cases u) auto
    then have "c = uint (c_tolower (hd u))" using u(2) by (simp add: letters_lower lower_def)
    moreover obtain x where "x \<in> set (lower (tl v))" "c = uint x" using c by blast
    ultimately have "c_tolower (hd u) \<in> set (lower (tl v))" by (metis word_of_int_uint)
    then show False using assms(1) u(1) v(1) by (auto simp: firsts_apart_def list_all_iff)
  qed
qed

lemma prepared_execute:
  assumes "prepared False (nodes_of (phrase_set ps)) (phrase_set ps) p" "[] \<notin> set ps" "0 < n" "n \<le> length value"
  shows "\<exists>r msg tx. msre_op_pm_execute junk capture (Some p) name (Some (value, n)) tx_vars = Some (r, msg, tx, Some p) \<and>
    (r = 0 \<or> r = 1) \<and> (r = 1 \<longrightarrow> phrase_occurs ps (take n value)) \<and> (firsts_apart ps \<longrightarrow> r = (if phrase_occurs ps (take n value) then 1 else 0))"
proof -
  let ?D = "nodes_of (phrase_set ps)" and ?W = "phrase_set ps" and ?t = "map uint (lower (take n value))"
  have W: "[] \<notin> ?W" by (rule phrase_set_nonempty [OF assms(2)])
  obtain msg tx where run: "msre_op_pm_execute junk capture (Some p) name (Some (value, n)) tx_vars =
      Some ((if ac_scan ?D ?W [] ?t = None then 0 else 1), msg, tx, Some p)"
    using execute_run [OF assms(1) W assms(3,4)] by blast
  have sound: "phrase_occurs ps (take n value)" if "ac_scan ?D ?W [] ?t \<noteq> None"
    using that ac_scan_sound [of ?D ?W "[]" ?t _ "[]"] by (auto simp: phrase_occurs_iff)
  have "?W \<subseteq> ?D" by (auto simp: nodes_of_def)
  then have "ac_scan ?D ?W [] ?t \<noteq> None \<longleftrightarrow> phrase_occurs ps (take n value)" if "firsts_apart ps"
    using ac_scan_found [OF firsts_apart_links [OF that assms(2)] matches.tree _ W] by (simp add: phrase_occurs_iff)
  then show ?thesis using run sound by auto
qed

lemma pm_phrases_nonempty: "[] \<notin> set (pm_phrases s)"
  using words_nonempty by (auto simp: pm_phrases_def)

text \<open>The lines of a phrase file.\<close>

definition trimmed :: "bytes \<Rightarrow> bytes" where
  "trimmed s = rev (dropWhile c_isspace (rev (dropWhile c_isspace s)))"

lemma pm_trim_end_run:
  "t \<noteq> [] \<Longrightarrow> n < length t \<Longrightarrow> pm_trim_end t n = length (dropWhile c_isspace (rev (take (n + 1) t))) - 1"
proof (induction t n rule: pm_trim_end.induct)
  case (1 t)
  then show ?case by (cases t) (simp_all add: take_Suc)
next
  case (2 t n)
  have tk: "rev (take (Suc n + 1) t) = t ! Suc n # rev (take (n + 1) t)"
    using 2(3) by (simp add: take_Suc_conv_app_nth)
  show ?case
  proof (cases "c_isspace (t ! Suc n)")
    case True
    then show ?thesis using 2 unfolding tk by simp
  next
    case False
    then show ?thesis using 2(2,3) unfolding tk by simp
  qed
qed

lemma pm_line_trimmed: "pm_line s = (let t = trimmed s in if length t \<le> 1 \<or> hd t = 35 then None else Some t)"
proof -
  define u where "u = dropWhile c_isspace s"
  define m where "m = length (dropWhile c_isspace (rev u))"
  have t: "trimmed s = take m u"
  proof -
    have "rev u = takeWhile c_isspace (rev u) @ dropWhile c_isspace (rev u)" by simp
    then have "u = rev (dropWhile c_isspace (rev u)) @ rev (takeWhile c_isspace (rev u))" by (metis rev_append rev_rev_ident)
    then have "take m u = rev (dropWhile c_isspace (rev u))" by (metis append_eq_conv_conj length_rev m_def)
    then show ?thesis by (simp add: trimmed_def u_def)
  qed
  show ?thesis
  proof (cases "u = []")
    case True
    then have "m = 0" by (simp add: m_def)
    then show ?thesis using True t by (simp add: pm_line_def Let_def flip: u_def)
  next
    case False
    have m: "m \<le> length u" by (simp add: m_def length_dropWhile_le [of c_isspace "rev u", simplified])
    have n: "pm_trim_end u (length u - 1) = m - 1"
      using pm_trim_end_run [OF False, of "length u - 1"] False by (simp add: m_def)
    have hd: "hd (take m u) = hd u" if "1 < m" using that False by (cases m) (simp_all add: hd_take)
    show ?thesis
    proof (cases "m \<le> 1")
      case True
      then show ?thesis using n t m by (simp add: pm_line_def Let_def flip: u_def)
    next
      case big: False
      then show ?thesis using n t m hd by (simp add: pm_line_def Let_def min_def flip: u_def)
    qed
  qed
qed

text \<open>The phrases of the lines of a file.\<close>

definition line_phrases :: "bytes \<Rightarrow> bytes list" where
  "line_phrases buf =
     (let t = trimmed (case pm_notation (unquoted buf) of Inl e \<Rightarrow> buf | Inr t \<Rightarrow> up_to_nul t) in
      if length t \<le> 1 \<or> hd t = 35 then [] else [t])"

lemma add_lines_run:
  "list_all (pm_parameter_ok junk) ls \<Longrightarrow> holds_trie W p \<Longrightarrow> \<not> ac_case_sensitive p \<Longrightarrow>
    \<exists>msg' p'. add_lines junk err fn k (map Line ls) msg p = Some (msg', Inr p') \<and>
      holds_trie (phrase_set (concat (map line_phrases ls)) \<union> W) p' \<and> \<not> ac_case_sensitive p'"
proof (induction ls arbitrary: W p k msg)
  case Nil
  then show ?case by (simp add: phrase_set_def)
next
  case (Cons l ls)
  define start where "start = (case pm_notation (unquoted l) of Inl e \<Rightarrow> l | Inr t \<Rightarrow> up_to_nul t)"
  have parse: "parse_pm_content junk l (ushort_len l) = Some (pm_notation (unquoted l))"
    by (rule parse_pm_content_run) (use Cons.prems(1) in simp)
  have line: "line_phrases l = (case pm_line start of None \<Rightarrow> [] | Some t \<Rightarrow> [t])"
    by (simp add: line_phrases_def pm_line_trimmed start_def Let_def)
  obtain p1 where p1: "(case pm_line start of None \<Rightarrow> Some p | Some phrase \<Rightarrow> map_option snd (acmp_add_pattern phrase (length phrase) p)) = Some p1"
    "holds_trie (phrase_set (line_phrases l) \<union> W) p1" "\<not> ac_case_sensitive p1"
  proof (cases "pm_line start")
    case None
    then show thesis using that [of p] Cons.prems(2,3) by (simp add: line phrase_set_def)
  next
    case (Some t)
    then have "t \<noteq> []" by (auto simp: pm_line_trimmed Let_def split: if_splits)
    then obtain q where "acmp_add_pattern t (length t) p = Some (0, q)" "holds_trie (insert (letters False t) W) q"
      "\<not> ac_case_sensitive q"
      using add_pattern_run [OF Cons.prems(2), of "length t" "length t" t] Cons.prems(3) by auto
    then show thesis using that [of q] Some by (simp add: line phrase_set_def)
  qed
  have rest: "list_all (pm_parameter_ok junk) ls" using Cons.prems(1) by simp
  let ?msg = "case pm_notation (unquoted l) of Inl e \<Rightarrow> Some e | Inr t \<Rightarrow> msg"
  obtain msg' p' where p': "add_lines junk err fn (k + 1) (map Line ls) ?msg p1 = Some (msg', Inr p')"
    "holds_trie (phrase_set (concat (map line_phrases ls)) \<union> (phrase_set (line_phrases l) \<union> W)) p'" "\<not> ac_case_sensitive p'"
    using Cons.IH [OF rest p1(2,3)] by blast
  have "phrase_set (concat (map line_phrases ls)) \<union> (phrase_set (line_phrases l) \<union> W) =
      phrase_set (concat (map line_phrases (l # ls))) \<union> W"
    by (auto simp: phrase_set_def)
  moreover have "add_lines junk err fn k (map Line (l # ls)) msg p = Some (msg', Inr p')"
    using parse p1(1) p'(1) by (simp add: Let_def flip: start_def)
  ultimately show ?case using p'(2,3) by metis
qed

lemma add_files_run:
  "list_all (\<lambda>fn. \<not> begins ''http://'' fn \<and> \<not> begins ''https://'' fn \<and> pf_open env fn = Inr (map Line (content fn)) \<and>
      list_all (pm_parameter_ok junk) (content fn)) (words s) \<Longrightarrow>
    holds_trie W p \<Longrightarrow> \<not> ac_case_sensitive p \<Longrightarrow>
    \<exists>msg' p'. add_files junk env s msg p = Some (msg', Inr p') \<and>
      holds_trie (phrase_set (concat (map line_phrases (concat (map content (words s))))) \<union> W) p' \<and> \<not> ac_case_sensitive p'"
proof (induction s arbitrary: msg p W rule: words.induct)
  case (1 s)
  define t where "t = dropWhile c_isspace s"
  show ?case
  proof (cases "t = []")
    case True
    then show ?thesis
      using 1(3,4) by (simp add: add_files.simps [of junk env s] words.simps [of s] phrase_set_def flip: t_def)
  next
    case False
    let ?fn = "take (word_len t) t"
    have ws: "words s = ?fn # words (drop (word_len t) t)"
      using False by (simp add: words.simps [of s] Let_def flip: t_def)
    have fn: "\<not> begins ''http://'' ?fn" "\<not> begins ''https://'' ?fn" "pf_open env ?fn = Inr (map Line (content ?fn))"
      "list_all (pm_parameter_ok junk) (content ?fn)"
      using 1(2) unfolding ws by simp_all
    have rest: "list_all (\<lambda>fn. \<not> begins ''http://'' fn \<and> \<not> begins ''https://'' fn \<and> pf_open env fn = Inr (map Line (content fn)) \<and>
        list_all (pm_parameter_ok junk) (content fn)) (words (drop (word_len t) t))"
      using 1(2) unfolding ws by simp
    obtain msg1 p1 where p1: "add_lines junk (pf_could_not_read env) ?fn 0 (map Line (content ?fn)) msg p = Some (msg1, Inr p1)"
      "holds_trie (phrase_set (concat (map line_phrases (content ?fn))) \<union> W) p1" "\<not> ac_case_sensitive p1"
      using add_lines_run [OF fn(4) 1(3,4)] by blast
    obtain msg2 p2 where p2: "add_files junk env (drop (word_len t) t) msg1 p1 = Some (msg2, Inr p2)"
      "holds_trie (phrase_set (concat (map line_phrases (concat (map content (words (drop (word_len t) t)))))) \<union>
        (phrase_set (concat (map line_phrases (content ?fn))) \<union> W)) p2" "\<not> ac_case_sensitive p2"
      using 1(1) [OF t_def False rest p1(2,3), of msg1] by blast
    have "add_files junk env s msg p = Some (msg2, Inr p2)"
      using False fn(1-3) p1(1) p2(1) by (simp add: add_files.simps [of junk env s] Let_def flip: t_def)
    moreover have "phrase_set (concat (map line_phrases (concat (map content (words (drop (word_len t) t)))))) \<union>
        (phrase_set (concat (map line_phrases (content ?fn))) \<union> W) =
        phrase_set (concat (map line_phrases (concat (map content (words s))))) \<union> W"
      unfolding ws by (simp only: list.map concat.simps map_append concat_append phrase_set_append Un_ac)
    ultimately show ?thesis using p2(2,3) by metis
  qed
qed

lemma line_phrases_nonempty: "[] \<notin> set (line_phrases l)"
  by (auto simp: line_phrases_def Let_def)

lemma pm_file_init_run:
  assumes "list_all (\<lambda>fn. \<not> begins ''http://'' fn \<and> \<not> begins ''https://'' fn \<and> pf_open env fn = Inr (map Line (content fn)) \<and>
      list_all (pm_parameter_ok junk) (content fn)) (words s)" "s \<noteq> []" "ps = concat (map line_phrases (concat (map content (words s))))"
  shows "\<exists>msg p. msre_op_pmFromFile_param_init junk env (Some s) = Some (1, msg, Some p) \<and>
    prepared False (nodes_of (phrase_set ps)) (phrase_set ps) p"
proof -
  have cs: "\<not> ac_case_sensitive (acmp_create False)" by (simp add: acmp_create_def)
  obtain msg p1 where p1: "add_files junk env s None (acmp_create False) = Some (msg, Inr p1)" "holds_trie (phrase_set ps) p1"
    "\<not> ac_case_sensitive p1"
    using add_files_run [OF assms(1) acmp_create_holds cs, of None] by (auto simp: assms(3))
  have "finite (phrase_set ps)" by (simp add: phrase_set_def)
  then obtain p where "acmp_prepare p1 = Some p" "prepared False (nodes_of (phrase_set ps)) (phrase_set ps) p"
    using acmp_prepare_run [OF p1(2)] p1(3) by auto
  then show ?thesis using assms(2) p1(1) by (simp add: msre_op_pmFromFile_param_init_def)
qed

text \<open>The bytes of a phrase in hexadecimal.\<close>

lemma hex_digit_plain: "VALID_HEX c \<Longrightarrow> c_isxdigit c \<and> c \<noteq> 124 \<and> c \<noteq> 92 \<and> c \<noteq> 34 \<and> c \<noteq> 0 \<and> \<not> c_isspace c"
  by (auto simp: VALID_HEX_def c_isxdigit_def c_isdigit_def c_isspace_def word_le_nat_alt)

lemma pm_scan_hex: "xs \<noteq> [] \<Longrightarrow> pm_scan True False None (hex_of xs @ [124]) = Some (xs, True)"
proof (induction xs)
  case (Cons c xs)
  have pair: "hex_pair (c2x_hi c) (c2x_lo c) = c" by (simp add: hex_pair_def strtol_c2x)
  have "pm_scan True False None (hex_of (c # xs) @ [124]) = emit c True (pm_scan True False None (hex_of xs @ [124]))"
    using hex_digit_plain [OF c2x_digits_valid(1), of c] hex_digit_plain [OF c2x_digits_valid(2), of c]
    by (simp add: hex_of_def pair)
  then show ?case using Cons.IH by (cases xs) (auto simp: emit_def hex_of_def)
qed simp

lemma nodes_of_single: "nodes_of {w} = set (prefixes w)"
  by (auto simp: nodes_of_def)

section \<open>What the operators report\<close>

text \<open>
  C12: The operator \<open>pm\<close> of a rule is always set up for a nonempty parameter in order (\<open>pm_parameter_ok\<close>: no NUL, shorter
  than 65536 bytes, not a single quotation mark behind white space, and the third byte of the buffer for the digits, which the code
  leaves uninitialised, is no hexadecimal digit), its execution on any nonempty value ends with 0 or 1 without leaving the value or the trie, and it
  returns 1 only when a phrase of the parameter occurs in the value, letters compared without regard to case.
\<close>

theorem pm_reports_only_phrases:
  assumes "pm_parameter_ok junk s" "s \<noteq> []" "0 < n" "n \<le> length value"
  shows "\<exists>msg p r msg' tx. msre_op_pm_param_init junk (Some s) = Some (1, msg, Some p) \<and>
    msre_op_pm_execute junk' capture (Some p) name (Some (value, n)) tx_vars = Some (r, msg', tx, Some p) \<and>
    (r = 0 \<or> r = 1 \<and> phrase_occurs (pm_phrases s) (take n value))"
proof -
  obtain msg p where p: "msre_op_pm_param_init junk (Some s) = Some (1, msg, Some p)"
    "prepared False (nodes_of (phrase_set (pm_phrases s))) (phrase_set (pm_phrases s)) p"
    using pm_init_run [OF assms(1,2)] by blast
  show ?thesis using p(1) prepared_execute [OF p(2) pm_phrases_nonempty assms(3,4)] by blast
qed

theorem pm_reports_only_phrases_witness:
  "\<exists>msg p r msg' tx. msre_op_pm_param_init [0, 0, 0] (Some [97, 98]) = Some (1, msg, Some p) \<and>
    msre_op_pm_execute (\<lambda>_. 0) True (Some p) [] (Some ([120, 65, 66], 3)) Map.empty = Some (r, msg', tx, Some p) \<and>
    (r = 0 \<or> r = 1 \<and> phrase_occurs (pm_phrases [97, 98]) (take 3 [120, 65, 66]))"
  by (rule pm_reports_only_phrases)
    (simp_all add: pm_parameter_ok_def c_isspace_def c_isxdigit_def c_isdigit_def)

text \<open>
  C11: When the first letter of a phrase is nowhere else in a phrase, \<open>pm\<close> returns 1 exactly when a phrase occurs in the value:
  the search over the trie with its failure links, matches and binary trees is the search for a phrase. The value and the parameter
  are not empty, and the parameter is in order (\<open>pm_parameter_ok\<close>): no NUL, shorter than 65536 bytes, not a single quotation mark
  behind white space; and the third byte of the buffer for the digits, which the code leaves uninitialised, is no hexadecimal digit.
\<close>

theorem pm_reports_every_phrase:
  assumes "pm_parameter_ok junk s" "s \<noteq> []" "0 < n" "n \<le> length value" "firsts_apart (pm_phrases s)"
  shows "\<exists>msg p r msg' tx. msre_op_pm_param_init junk (Some s) = Some (1, msg, Some p) \<and>
    msre_op_pm_execute junk' capture (Some p) name (Some (value, n)) tx_vars = Some (r, msg', tx, Some p) \<and>
    r = (if phrase_occurs (pm_phrases s) (take n value) then 1 else 0)"
proof -
  obtain msg p where p: "msre_op_pm_param_init junk (Some s) = Some (1, msg, Some p)"
    "prepared False (nodes_of (phrase_set (pm_phrases s))) (phrase_set (pm_phrases s)) p"
    using pm_init_run [OF assms(1,2)] by blast
  show ?thesis using p(1) assms(5) prepared_execute [OF p(2) pm_phrases_nonempty assms(3,4)] by blast
qed

lemma pm_phrases_ab: "pm_phrases [97, 98] = [[97, 98]]"
proof -
  have "unquoted [97, 98] = [97, 98]" by (simp add: unquoted_def c_isspace_def Let_def)
  moreover have "pm_notation [97, 98] = Inr [97, 98]" by (simp add: pm_notation_def emit_def)
  moreover have "words [97, 98] = [[97, 98]]"
    by (subst words.simps) (simp add: words.simps [of "[]"] word_len_def c_isspace_def Let_def)
  ultimately show ?thesis by (simp add: pm_phrases_def up_to_nul_def)
qed

theorem pm_reports_every_phrase_witness:
  "\<exists>msg p r msg' tx. msre_op_pm_param_init [0, 0, 0] (Some [97, 98]) = Some (1, msg, Some p) \<and>
    msre_op_pm_execute (\<lambda>_. 0) True (Some p) [] (Some ([120, 65, 66], 3)) Map.empty = Some (r, msg', tx, Some p) \<and>
    r = (if phrase_occurs (pm_phrases [97, 98]) (take 3 [120, 65, 66]) then 1 else 0)"
  by (rule pm_reports_every_phrase)
    (simp_all add: pm_phrases_ab firsts_apart_def lower_def c_tolower_def c_isupper_def pm_parameter_ok_def c_isspace_def
      c_isxdigit_def c_isdigit_def)

text \<open>
  C13: In general \<open>pm\<close> does not find every phrase: the failure link of a node takes only one step from the link of its parent,
  so \<open>pm aabaaac\<close> does not match \<^verbatim>\<open>aabaaabaaac\<close>, where the phrase starts at the fifth letter.
\<close>

theorem pm_misses_a_phrase:
  "\<exists>msg p msg' tx. msre_op_pm_param_init [0, 0, 0] (Some (ascii ''aabaaac'')) = Some (1, msg, Some p) \<and>
    msre_op_pm_execute junk capture (Some p) name (Some (ascii ''aabaaabaaac'', 11)) tx_vars = Some (0, msg', tx, Some p) \<and>
    phrase_occurs (pm_phrases (ascii ''aabaaac'')) (ascii ''aabaaabaaac'')"
proof -
  define s :: bytes where "s = [97, 97, 98, 97, 97, 97, 99]"
  define v :: bytes where "v = [97, 97, 98, 97] @ s"
  have ascii: "ascii ''aabaaac'' = s" "ascii ''aabaaabaaac'' = v" by (simp_all add: ascii_def s_def v_def)
  have ok: "pm_parameter_ok [0, 0, 0] s" "s \<noteq> []" "[] \<notin> phrase_set [s]"
    by (simp_all add: pm_parameter_ok_def s_def c_isspace_def c_isxdigit_def c_isdigit_def phrase_set_def letters_def)
  have un: "unquoted s = s" by (simp add: unquoted_def s_def c_isspace_def Let_def)
  have decoded: "pm_notation s = Inr s" by (simp add: pm_notation_def s_def emit_def)
  have "up_to_nul s = s" by (simp add: up_to_nul_def s_def)
  moreover have "words s = [s]" by (subst words.simps) (simp add: words.simps [of "[]"] word_len_def s_def c_isspace_def Let_def)
  ultimately have ps: "pm_phrases s = [s]" by (simp add: pm_phrases_def un decoded)
  obtain msg p where p: "msre_op_pm_param_init [0, 0, 0] (Some s) = Some (1, msg, Some p)"
    "prepared False (nodes_of (phrase_set [s])) (phrase_set [s]) p"
    using pm_init_run [OF ok(1,2)] unfolding ps by blast
  have low: "lower s = s" "lower v = v" by (simp_all add: lower_def v_def s_def c_tolower_def c_isupper_def)
  define l :: path where "l = [97, 97, 98, 97, 97, 97, 99]"
  have l: "letters False s = l" by (simp add: letters_lower low) (simp add: l_def s_def)
  have W: "phrase_set [s] = set [l]" by (simp add: phrase_set_def l)
  have D: "nodes_of (set [l]) = set (prefixes l)" using nodes_of_single [of l] by simp
  have t: "map uint (lower v) = [97, 97, 98, 97] @ l" unfolding low by (simp add: v_def s_def l_def)
  have scan: "ac_scan (set (prefixes l)) (set [l]) [] ([97, 97, 98, 97] @ l) = None" unfolding l_def by code_simp
  have none: "ac_scan (nodes_of (phrase_set [s])) (phrase_set [s]) [] (map uint (lower v)) = None"
    unfolding W D t by (rule scan)
  have n: "0 < (11 :: nat)" "11 \<le> length v" "take 11 v = v" by (simp_all add: v_def s_def)
  have "\<exists>msg tx. msre_op_pm_execute junk capture (Some p) name (Some (v, 11)) tx_vars = Some (0, msg, tx, Some p)"
    using execute_run [OF p(2) ok(3) n(1,2), of junk capture name tx_vars] unfolding n(3) none by simp
  moreover have "phrase_occurs [s] v"
  proof -
    have "v = [97, 97, 98, 97] @ s @ []" by (simp add: v_def)
    then have "sublist s v" unfolding sublist_def by blast
    then show ?thesis by (simp add: phrase_occurs_def low)
  qed
  ultimately show ?thesis using p(1) unfolding ascii ps by blast
qed

text \<open>
  C19: The operator \<open>pmFromFile\<close>, when every file can be read: its phrases are the lines without space around them, but for
  comments and for lines of a single letter, each read in the notation of \<open>pm\<close> (with quotation marks and hexadecimal parts), and it
  matches as \<open>pm\<close> does: it returns 1 only if a phrase occurs in the value, and always then if the first letter of a phrase is
  nowhere else in one. No name is a URL, and every line is in order as a parameter of \<open>pm\<close> must be (\<open>pm_parameter_ok\<close>).
\<close>

theorem pm_file_matches:
  assumes "list_all (\<lambda>fn. \<not> begins ''http://'' fn \<and> \<not> begins ''https://'' fn \<and> pf_open env fn = Inr (map Line (content fn)) \<and>
      list_all (pm_parameter_ok junk) (content fn)) (words s)" "s \<noteq> []" "0 < n" "n \<le> length value"
  shows "\<exists>msg p r msg' tx. msre_op_pmFromFile_param_init junk env (Some s) = Some (1, msg, Some p) \<and>
    msre_op_pm_execute junk' capture (Some p) name (Some (value, n)) tx_vars = Some (r, msg', tx, Some p) \<and>
    (let ps = concat (map line_phrases (concat (map content (words s)))) in
      (r = 0 \<or> r = 1 \<and> phrase_occurs ps (take n value)) \<and> (firsts_apart ps \<longrightarrow> r = (if phrase_occurs ps (take n value) then 1 else 0)))"
proof -
  define ps where "ps = concat (map line_phrases (concat (map content (words s))))"
  obtain msg p where p: "msre_op_pmFromFile_param_init junk env (Some s) = Some (1, msg, Some p)"
    "prepared False (nodes_of (phrase_set ps)) (phrase_set ps) p"
    using pm_file_init_run [OF assms(1,2) ps_def] by blast
  have "[] \<notin> set ps" using line_phrases_nonempty by (auto simp: ps_def)
  from prepared_execute [OF p(2) this assms(3,4), of junk' capture name tx_vars] show ?thesis
    using p(1) unfolding ps_def [symmetric] Let_def by blast
qed

theorem pm_file_matches_witness:
  "\<exists>msg p r msg' tx.
    msre_op_pmFromFile_param_init [0, 0, 0]
      \<lparr>pf_open = (\<lambda>_. Inr (map Line [[97, 98, 10]])), pf_could_not_open = (\<lambda>_ _. []), pf_could_not_read = (\<lambda>_ _ _. []),
       pf_http = (\<lambda>_. []), pf_https = (\<lambda>_. [])\<rparr> (Some [102]) = Some (1, msg, Some p) \<and>
    msre_op_pm_execute (\<lambda>_. 0) True (Some p) [] (Some ([120, 65, 66], 3)) Map.empty = Some (r, msg', tx, Some p) \<and>
    (let ps = concat (map line_phrases (concat (map (\<lambda>_. [[97, 98, 10]]) (words [102])))) in
      (r = 0 \<or> r = 1 \<and> phrase_occurs ps (take 3 [120, 65, 66])) \<and>
      (firsts_apart ps \<longrightarrow> r = (if phrase_occurs ps (take 3 [120, 65, 66]) then 1 else 0)))"
proof (rule pm_file_matches)
  have "words [102] = [[102]]"
    by (subst words.simps) (simp add: words.simps [of "[]"] word_len_def c_isspace_def Let_def)
  then show "list_all (\<lambda>fn. \<not> begins ''http://'' fn \<and> \<not> begins ''https://'' fn \<and>
      pf_open \<lparr>pf_open = (\<lambda>_. Inr (map Line [[97, 98, 10]])), pf_could_not_open = (\<lambda>_ _. []),
        pf_could_not_read = (\<lambda>_ _ _. []), pf_http = (\<lambda>_. []), pf_https = (\<lambda>_. [])\<rparr> fn = Inr (map Line [[97, 98, 10]]) \<and>
      list_all (pm_parameter_ok [0, 0, 0]) [[97, 98, 10]]) (words [102])"
    by (simp add: begins_def pm_parameter_ok_def c_isspace_def c_isxdigit_def c_isdigit_def)
qed simp_all

text \<open>
  C20: A phrase written in hexadecimal between bars is read back, for all byte strings up to the length the
  \<^verbatim>\<open>unsigned short\<close> counts, whenever the third byte of the buffer for the digits, which the code leaves
  uninitialised, is not a digit.
\<close>

theorem pm_hex_round_trip:
  assumes "xs \<noteq> []" "2 * length xs + 2 < 65536" "length junk = 3" "\<not> c_isxdigit (junk ! 2)"
  shows "parse_pm_content junk (124 # hex_of xs @ [124]) (ushort_len (124 # hex_of xs @ [124])) = Some (Inr xs)"
proof -
  let ?s = "124 # hex_of xs @ [124]"
  have len: "length (hex_of xs) = 2 * length xs" by (induction xs) (simp_all add: hex_of_def)
  have digits: "\<forall>c\<in>set (hex_of xs). VALID_HEX c" using c2x_digits_valid by (auto simp: hex_of_def)
  have zero: "0 \<notin> set (hex_of xs)" using digits hex_digit_plain by blast
  have bar: "dropWhile c_isspace ?s = ?s" by (simp add: c_isspace_def)
  have ok: "pm_parameter_ok junk ?s" unfolding pm_parameter_ok_def bar using assms len zero by simp
  have "unquoted ?s = ?s" unfolding unquoted_def bar by simp
  then show ?thesis
    using parse_pm_content_run [OF ok] pm_scan_hex [OF assms(1)] by (simp add: pm_notation_def)
qed


theorem pm_hex_round_trip_witness:
  "parse_pm_content [0, 0, 0] (124 # hex_of [0, 255] @ [124]) (ushort_len (124 # hex_of [0, 255] @ [124])) = Some (Inr [0, 255])"
  by (rule pm_hex_round_trip) (simp_all add: c_isxdigit_def c_isdigit_def)

text \<open>Without a conversion the length stays what it was: two bars that enclose nothing are not dropped from it.\<close>

lemma pm_bars_double: "parse_pm_content [0, 0, 0] [124, 124, 97, 98] 4 = Some (Inr [97, 98, 97, 98])"
proof -
  have ok: "pm_parameter_ok [0, 0, 0] [124, 124, 97, 98]"
    by (simp add: pm_parameter_ok_def c_isspace_def c_isxdigit_def c_isdigit_def)
  have "unquoted [124, 124, 97, 98] = [124, 124, 97, 98]" by (simp add: unquoted_def c_isspace_def Let_def)
  moreover have "pm_notation [124, 124, 97, 98] = Inr [97, 98, 97, 98]" by (simp add: pm_notation_def emit_def)
  ultimately show ?thesis using parse_pm_content_run [OF ok] by (simp add: ushort_len_def)
qed

text \<open>A line of a single letter is no phrase.\<close>

lemma pm_line_single: "pm_line [97, 10] = None"
  by (simp add: pm_line_trimmed trimmed_def c_isspace_def Let_def)

end
