(* ===== verification/StringOps.thy ===== *)
theory StringOps
  imports PmMatch
begin

text \<open>
  The operators of \<^verbatim>\<open>apache2/re_operators.c\<close> that compare strings (\<open>within\<close>, \<open>contains\<close>, \<open>containsWord\<close>, \<open>streq\<close>,
  \<open>beginsWith\<close>, \<open>endsWith\<close>) and the expansion of macros in their parameter (\<open>expand_macros\<close> of \<^verbatim>\<open>apache2/re_actions.c\<close>).
  The parameter of a rule is a C string without its NUL; the value of a variable a buffer with a length.
\<close>

section \<open>Macros\<close>

text \<open>\<open>macro_value\<close> stands for \<open>msre_create_var_ex\<close> and \<open>generate_single_var\<close> on a name and what follows its first dot: the
  \<^verbatim>\<open>value_len\<close> bytes of the variable, when there is one.\<close>

type_synonym resolver = "bytes \<Rightarrow> bytes option \<Rightarrow> bytes option"

definition resolve_macro :: "resolver \<Rightarrow> bytes \<Rightarrow> bytes option" where
  "resolve_macro macro_value macro_name =
     (let q = dropWhile (\<lambda>c. c \<noteq> 46) macro_name in
      macro_value (takeWhile (\<lambda>c. c \<noteq> 46) macro_name) (if q = [] then None else Some (tl q)))"

text \<open>The parts of the text: what precedes a macro, what it resolves to, and text with a percent sign that starts no macro.\<close>

function expand_parts :: "resolver \<Rightarrow> bytes \<Rightarrow> bytes list" where
  "expand_parts macro_value text_start =
     (let before = takeWhile (\<lambda>c. c \<noteq> 37) text_start;
          p = dropWhile (\<lambda>c. c \<noteq> 37) text_start
      in if p = [] then [text_start]
         else
           let var_start = drop 2 p;
               t = dropWhile (\<lambda>c. c \<noteq> 125) var_start
           in if tl p \<noteq> [] \<and> hd (tl p) = 123 \<and> var_start \<noteq> [] \<and> t \<noteq> [] then
                before #
                (case resolve_macro macro_value (takeWhile (\<lambda>c. c \<noteq> 125) var_start) of None \<Rightarrow> [] | Some v \<Rightarrow> [v]) @
                expand_parts macro_value (tl t)
              else (before @ [37]) # expand_parts macro_value (tl p))"
  by pat_completeness auto
termination
proof (relation "measure (\<lambda>(macro_value, s). length s)", goal_cases)
  case 1
  then show ?case by simp
next
  case (2 macro_value s before p var_start t)
  have a: "length p \<le> length s" using 2(2) by (simp add: length_dropWhile_le)
  have b: "length t \<le> length p - 2" using 2(4,5) by (metis length_drop length_dropWhile_le)
  have c: "0 < length p" using 2 by auto
  have "length t - 1 < length s" using a b c by linarith
  then show ?case by simp
next
  case (3 macro_value s before p var_start t)
  have "length p \<le> length s" using 3(2) by (simp add: length_dropWhile_le)
  moreover have "0 < length p" using 3 by auto
  ultimately have "length p - 1 < length s" by linarith
  then show ?case by simp
qed

declare expand_parts.simps [simp del]

text \<open>A single part leaves the variable as it is.\<close>

definition expand_macros :: "resolver \<Rightarrow> bytes \<Rightarrow> nat \<Rightarrow> bytes \<times> nat" where
  "expand_macros macro_value value value_len =
     (let arr = expand_parts macro_value value in
      if length arr > 1 then (concat arr, sum_list (map length arr)) else (value, value_len))"

section \<open>Comparing strings\<close>

text \<open>\<^verbatim>\<open>memcmp(...) == 0\<close>: both objects have the bytes that are compared.\<close>

definition mem_eq :: "bytes \<Rightarrow> nat \<Rightarrow> bytes \<Rightarrow> nat \<Rightarrow> nat \<Rightarrow> bool option" where
  "mem_eq b i c j n =
     (if i + n \<le> length b \<and> j + n \<le> length c then Some (take n (drop i b) = take n (drop j c)) else None)"

definition null_match :: bytes where
  "null_match = ascii ''Internal Error: match string is null.''"

text \<open>The messages; \<open>junk\<close> is what allocated memory holds.\<close>

definition match_message :: "(nat \<Rightarrow> byte) \<Rightarrow> string \<Rightarrow> bytes \<Rightarrow> nat \<Rightarrow> bytes \<Rightarrow> bytes option" where
  "match_message junk start match match_length name = do {
     esc \<leftarrow> log_escape_ex junk (Some match) match_length;
     text \<leftarrow> Option.bind esc c_str;
     Some (ascii start @ 34 # text @ 34 # ascii '' at '' @ name @ ascii ''.'') }"

definition empty_message :: "string \<Rightarrow> bytes \<Rightarrow> bytes" where
  "empty_message start name = ascii start @ 34 # 34 # ascii '' at '' @ name @ ascii ''.''"

text \<open>The target: a variable without a value is the empty string.\<close>

definition target_of :: "(bytes \<times> nat) option \<Rightarrow> bytes \<times> nat" where
  "target_of var = (case var of None \<Rightarrow> ([0], 0) | Some (value, value_len) \<Rightarrow> (value, value_len))"

type_synonym op_result = "(int \<times> bytes option) option"

definition matched :: "(nat \<Rightarrow> byte) \<Rightarrow> string \<Rightarrow> bytes \<Rightarrow> nat \<Rightarrow> bytes \<Rightarrow> op_result" where
  "matched junk start match match_length name = do {
     msg \<leftarrow> match_message junk start match match_length name;
     Some (1, Some msg) }"

text \<open>The parameter after the expansion: a buffer that ends with a NUL, and its length.\<close>

definition match_of :: "resolver \<Rightarrow> bytes \<Rightarrow> bytes \<times> nat" where
  "match_of macro_value op_param =
     (let (value, value_len) = expand_macros macro_value op_param (length op_param) in (value @ [0], value_len))"

text \<open>\<open>within\<close>: the loop over the places in the parameter.\<close>

function within_loop :: "bytes \<Rightarrow> bytes \<Rightarrow> nat \<Rightarrow> nat \<Rightarrow> nat \<Rightarrow> bool option" where
  "within_loop match target target_length i i_max =
     (if i \<le> i_max then do {
        m \<leftarrow> rd match i;
        c \<leftarrow> rd target 0;
        eq \<leftarrow> (if m = c then mem_eq target 1 match (i + 1) (target_length - 1) else Some False);
        if eq then Some True else within_loop match target target_length (i + 1) i_max }
      else Some False)"
  by pat_completeness auto
termination by (relation "measure (\<lambda>(match, target, n, i, i_max). i_max + 1 - i)") auto

declare within_loop.simps [simp del]

definition msre_op_within_execute ::
  "(nat \<Rightarrow> byte) \<Rightarrow> resolver \<Rightarrow> bytes option \<Rightarrow> bytes \<Rightarrow> (bytes \<times> nat) option \<Rightarrow> op_result" where
  "msre_op_within_execute junk macro_value op_param name var =
     (case op_param of
        None \<Rightarrow> Some (-1, Some null_match)
      | Some s \<Rightarrow>
          let (match, match_length) = match_of macro_value s in
          case var of
            None \<Rightarrow> Some (0, None)
          | Some (target, target_length) \<Rightarrow>
              if target_length = 0 then Some (1, Some (empty_message ''String match within '' name))
              else if target_length > match_length then Some (0, None)
              else do {
                found \<leftarrow> within_loop match target target_length 0 (match_length - target_length);
                if found then matched junk ''String match within '' match match_length name else Some (0, None) })"

text \<open>\<open>contains\<close>: the loop over the places in the value.\<close>

definition op_match_at :: "bytes \<Rightarrow> nat \<Rightarrow> bytes \<Rightarrow> nat \<Rightarrow> bool option" where
  "op_match_at match match_length target i = do {
     c \<leftarrow> rd target i;
     m \<leftarrow> rd match 0;
     if c = m then (if match_length = 1 then Some True else mem_eq match 1 target (i + 1) (match_length - 1))
     else Some False }"

function contains_loop :: "bytes \<Rightarrow> nat \<Rightarrow> bytes \<Rightarrow> nat \<Rightarrow> nat \<Rightarrow> bool option" where
  "contains_loop match match_length target i i_max =
     (if i \<le> i_max then do {
        eq \<leftarrow> op_match_at match match_length target i;
        if eq then Some True else contains_loop match match_length target (i + 1) i_max }
      else Some False)"
  by pat_completeness auto
termination by (relation "measure (\<lambda>(match, n, target, i, i_max). i_max + 1 - i)") auto

declare contains_loop.simps [simp del]

definition msre_op_contains_execute ::
  "(nat \<Rightarrow> byte) \<Rightarrow> resolver \<Rightarrow> bytes option \<Rightarrow> bytes \<Rightarrow> (bytes \<times> nat) option \<Rightarrow> op_result" where
  "msre_op_contains_execute junk macro_value op_param name var =
     (case op_param of
        None \<Rightarrow> Some (-1, Some null_match)
      | Some s \<Rightarrow>
          let (match, match_length) = match_of macro_value s; (target, target_length) = target_of var in
          if match_length = 0 then Some (1, Some (empty_message ''String match '' name))
          else if match_length > target_length then Some (0, None)
          else do {
            found \<leftarrow> contains_loop match match_length target 0 (target_length - match_length);
            if found then matched junk ''String match '' match match_length name else Some (0, None) })"

text \<open>\<open>containsWord\<close>: all places are looked at, also after a match.\<close>

definition word_char :: "byte \<Rightarrow> bool" where
  "word_char c \<longleftrightarrow> c_isalnum c \<or> c = 95"

function word_loop :: "bytes \<Rightarrow> nat \<Rightarrow> bytes \<Rightarrow> nat \<Rightarrow> nat \<Rightarrow> bool \<Rightarrow> bool option" where
  "word_loop match match_length target i i_max rc =
     (if i \<le> i_max then do {
        inner \<leftarrow> (if 0 < i then map_option word_char (rd target (i - 1)) else Some False);
        if inner then word_loop match match_length target (i + 1) i_max rc
        else do {
          eq \<leftarrow> op_match_at match match_length target i;
          hit \<leftarrow> (if \<not> eq then Some False
                  else if i = i_max then Some True
                  else map_option (\<lambda>c. \<not> word_char c) (rd target (i + match_length)));
          word_loop match match_length target (i + 1) i_max (rc \<or> hit) } }
      else Some rc)"
  by pat_completeness auto
termination by (relation "measure (\<lambda>(match, n, target, i, i_max, rc). i_max + 1 - i)") auto

declare word_loop.simps [simp del]

definition msre_op_containsWord_execute ::
  "(nat \<Rightarrow> byte) \<Rightarrow> resolver \<Rightarrow> bytes option \<Rightarrow> bytes \<Rightarrow> (bytes \<times> nat) option \<Rightarrow> op_result" where
  "msre_op_containsWord_execute junk macro_value op_param name var =
     (case op_param of
        None \<Rightarrow> Some (-1, Some null_match)
      | Some s \<Rightarrow>
          let (match, match_length) = match_of macro_value s; (target, target_length) = target_of var in
          if match_length = 0 then Some (1, Some (empty_message ''String match '' name))
          else if match_length > target_length then Some (0, None)
          else do {
            rc \<leftarrow> word_loop match match_length target 0 (target_length - match_length) False;
            if rc then matched junk ''String match '' match match_length name else Some (0, None) })"

definition msre_op_streq_execute ::
  "(nat \<Rightarrow> byte) \<Rightarrow> resolver \<Rightarrow> bytes option \<Rightarrow> bytes \<Rightarrow> (bytes \<times> nat) option \<Rightarrow> op_result" where
  "msre_op_streq_execute junk macro_value op_param name var =
     (case op_param of
        None \<Rightarrow> Some (-1, Some null_match)
      | Some s \<Rightarrow>
          let (match, match_length) = match_of macro_value s; (target, target_length) = target_of var in
          if match_length \<noteq> target_length then Some (0, None)
          else do {
            eq \<leftarrow> mem_eq match 0 target 0 target_length;
            if eq then matched junk ''String match '' match match_length name else Some (0, None) })"

definition msre_op_beginsWith_execute ::
  "(nat \<Rightarrow> byte) \<Rightarrow> resolver \<Rightarrow> bytes option \<Rightarrow> bytes \<Rightarrow> (bytes \<times> nat) option \<Rightarrow> op_result" where
  "msre_op_beginsWith_execute junk macro_value op_param name var =
     (case op_param of
        None \<Rightarrow> Some (-1, Some null_match)
      | Some s \<Rightarrow>
          let (match, match_length) = match_of macro_value s; (target, target_length) = target_of var in
          if match_length = 0 then Some (1, Some (empty_message ''String match '' name))
          else if match_length > target_length then Some (0, None)
          else do {
            eq \<leftarrow> mem_eq match 0 target 0 match_length;
            if eq then matched junk ''String match '' match match_length name else Some (0, None) })"

definition msre_op_endsWith_execute ::
  "(nat \<Rightarrow> byte) \<Rightarrow> resolver \<Rightarrow> bytes option \<Rightarrow> bytes \<Rightarrow> (bytes \<times> nat) option \<Rightarrow> op_result" where
  "msre_op_endsWith_execute junk macro_value op_param name var =
     (case op_param of
        None \<Rightarrow> Some (-1, Some null_match)
      | Some s \<Rightarrow>
          let (match, match_length) = match_of macro_value s; (target, target_length) = target_of var in
          if match_length = 0 then Some (1, Some (empty_message ''String match '' name))
          else if match_length > target_length then Some (0, None)
          else do {
            eq \<leftarrow> mem_eq match 0 target (target_length - match_length) match_length;
            if eq then matched junk ''String match '' match match_length name else Some (0, None) })"

section \<open>What the macros expand to\<close>

definition expanded :: "resolver \<Rightarrow> bytes \<Rightarrow> bytes" where
  "expanded macro_value s = concat (expand_parts macro_value s)"

lemma expand_parts_nonempty: "expand_parts macro_value s \<noteq> []"
  by (subst expand_parts.simps) (simp add: Let_def)

lemma expand_parts_single:
  assumes "length (expand_parts macro_value s) \<le> 1"
  shows "expand_parts macro_value s = [s]"
proof (cases "dropWhile (\<lambda>c. c \<noteq> 37) s = []")
  case True
  then show ?thesis by (subst expand_parts.simps) (simp add: Let_def)
next
  case False
  have more: "0 < length (expand_parts macro_value u)" for u using expand_parts_nonempty by simp
  have "1 < length (expand_parts macro_value s)"
    using False more by (subst expand_parts.simps) (simp add: Let_def)
  then show ?thesis using assms by simp
qed

lemma expand_macros_run: "expand_macros macro_value s (length s) = (expanded macro_value s, length (expanded macro_value s))"
proof (cases "1 < length (expand_parts macro_value s)")
  case True
  then show ?thesis by (simp add: expand_macros_def expanded_def Let_def length_concat)
next
  case False
  then have "expand_parts macro_value s = [s]" by (intro expand_parts_single) simp
  then show ?thesis by (simp add: expand_macros_def expanded_def Let_def)
qed

text \<open>Text without the opening of a macro, and text in which no opening is closed.\<close>

definition opens_macro :: "bytes \<Rightarrow> bool" where
  "opens_macro s \<longleftrightarrow> sublist [37, 123] s"

definition has_macro :: "bytes \<Rightarrow> bool" where
  "has_macro s \<longleftrightarrow> (\<exists>a nm b. s = a @ [37, 123] @ nm @ [125] @ b)"

lemma has_macro_opens: "has_macro s \<Longrightarrow> opens_macro s"
  unfolding has_macro_def opens_macro_def sublist_def by blast

lemma has_macro_append: "has_macro u \<Longrightarrow> has_macro (a @ u)"
  unfolding has_macro_def by (metis append.assoc)

lemma opens_macro_append: "opens_macro u \<Longrightarrow> opens_macro (a @ u)"
  unfolding opens_macro_def by (simp add: sublist_appendI sublist_order.order.trans sublist_append_rightI)

text \<open>A percent sign that starts no macro is text.\<close>

lemma expanded_percent:
  assumes "37 \<notin> set a" "\<not> has_macro (37 # u)"
    and plain: "rest = [] \<or> (u \<noteq> [] \<and> hd u \<noteq> 123) \<or> (u = [] \<and> hd rest \<noteq> 123)"
  shows "expanded macro_value (a @ 37 # u @ rest) = a @ 37 # expanded macro_value (u @ rest)"
proof -
  let ?s = "a @ 37 # u @ rest"
  have all: "\<forall>c\<in>set a. c \<noteq> 37" using assms(1) by auto
  have before: "takeWhile (\<lambda>c. c \<noteq> 37) ?s = a" and p: "dropWhile (\<lambda>c. c \<noteq> 37) ?s = 37 # u @ rest"
    using all by (simp_all add: takeWhile_append2 dropWhile_append2)
  have no: "\<not> (u @ rest \<noteq> [] \<and> hd (u @ rest) = 123 \<and> drop 1 (u @ rest) \<noteq> [] \<and> dropWhile (\<lambda>c. c \<noteq> 125) (drop 1 (u @ rest)) \<noteq> [])"
  proof
    assume m: "u @ rest \<noteq> [] \<and> hd (u @ rest) = 123 \<and> drop 1 (u @ rest) \<noteq> [] \<and> dropWhile (\<lambda>c. c \<noteq> 125) (drop 1 (u @ rest)) \<noteq> []"
    then have "rest = []" using plain by (cases u) auto
    define w where "w = drop 1 u"
    have u: "u = 123 # w" using m \<open>rest = []\<close> by (cases u) (auto simp: w_def)
    have "dropWhile (\<lambda>c. c \<noteq> 125) w \<noteq> []" using m \<open>rest = []\<close> by (simp add: w_def)
    then obtain z where "dropWhile (\<lambda>c. c \<noteq> 125) w = 125 # z"
      using hd_dropWhile [of "\<lambda>c. c \<noteq> 125" w] by (cases "dropWhile (\<lambda>c. c \<noteq> 125) w") auto
    then have "w = takeWhile (\<lambda>c. c \<noteq> 125) w @ [125] @ z" by (metis append_Cons append_Nil takeWhile_dropWhile_id)
    then have "37 # u = [] @ [37, 123] @ takeWhile (\<lambda>c. c \<noteq> 125) w @ [125] @ z" using u by simp
    then show False using assms(2) unfolding has_macro_def by blast
  qed
  have "expand_parts macro_value ?s = (a @ [37]) # expand_parts macro_value (u @ rest)"
    unfolding expand_parts.simps [of macro_value ?s] Let_def before p using no by (simp add: drop_Suc)
  then show ?thesis by (simp add: expanded_def)
qed

lemma percent_split:
  assumes "37 \<in> set s"
  obtains a u where "s = a @ 37 # u" "37 \<notin> set a"
  using split_list_first [OF assms] by blast

lemma expanded_no_percent: "37 \<notin> set s \<Longrightarrow> expanded macro_value s = s"
proof -
  assume "37 \<notin> set s"
  then have "dropWhile (\<lambda>c. c \<noteq> 37) s = []" by auto
  then show ?thesis by (simp add: expanded_def expand_parts.simps [of macro_value s] Let_def)
qed

lemma expanded_text: "\<not> has_macro s \<Longrightarrow> expanded macro_value s = s"
proof (induction "length s" arbitrary: s rule: less_induct)
  case less
  show ?case
  proof (cases "37 \<in> set s")
    case True
    then obtain a u where s: "s = a @ 37 # u" "37 \<notin> set a" by (rule percent_split)
    have "\<not> has_macro (37 # u)" using less.prems has_macro_append [of "37 # u" a] s(1) by auto
    moreover have "\<not> has_macro u" using calculation has_macro_append [of u "[37]"] by auto
    ultimately show ?thesis using less.hyps [of u] expanded_percent [OF s(2), of u "[]"] by (simp add: s(1))
  qed (rule expanded_no_percent)
qed

lemma expanded_macro_first:
  assumes "37 \<notin> set pre" "125 \<notin> set nm"
  shows "expanded macro_value (pre @ [37, 123] @ nm @ [125] @ post) =
    pre @ (case resolve_macro macro_value nm of None \<Rightarrow> [] | Some v \<Rightarrow> v) @ expanded macro_value post"
proof -
  let ?s = "pre @ [37, 123] @ nm @ [125] @ post"
  have all: "\<forall>c\<in>set pre. c \<noteq> 37" "\<forall>c\<in>set nm. c \<noteq> 125" using assms by auto
  have before: "takeWhile (\<lambda>c. c \<noteq> 37) ?s = pre" and p: "dropWhile (\<lambda>c. c \<noteq> 37) ?s = [37, 123] @ nm @ [125] @ post"
    using all(1) by (simp_all add: takeWhile_append2 dropWhile_append2)
  have nm: "takeWhile (\<lambda>c. c \<noteq> 125) (nm @ [125] @ post) = nm" and t: "dropWhile (\<lambda>c. c \<noteq> 125) (nm @ [125] @ post) = [125] @ post"
    using all(2) by (simp_all add: takeWhile_append2 dropWhile_append2)
  have "expand_parts macro_value ?s = pre # (case resolve_macro macro_value nm of None \<Rightarrow> [] | Some v \<Rightarrow> [v]) @ expand_parts macro_value post"
    unfolding expand_parts.simps [of macro_value ?s] Let_def before p using nm t by simp
  then show ?thesis by (simp add: expanded_def split: option.splits)
qed

lemma expanded_macro:
  "\<not> opens_macro pre \<Longrightarrow> 125 \<notin> set nm \<Longrightarrow> expanded macro_value (pre @ [37, 123] @ nm @ [125] @ post) =
    pre @ (case resolve_macro macro_value nm of None \<Rightarrow> [] | Some v \<Rightarrow> v) @ expanded macro_value post"
proof (induction "length pre" arbitrary: pre rule: less_induct)
  case less
  show ?case
  proof (cases "37 \<in> set pre")
    case True
    then obtain a u where pre: "pre = a @ 37 # u" "37 \<notin> set a" by (rule percent_split)
    have o: "\<not> opens_macro (37 # u)" using less.prems(1) opens_macro_append [of "37 # u" a] pre(1) by auto
    then have "\<not> has_macro (37 # u)" using has_macro_opens by blast
    moreover have "\<not> opens_macro u" using o opens_macro_append [of u "[37]"] by auto
    moreover have "u = [] \<or> hd u \<noteq> 123"
    proof (rule ccontr)
      assume "\<not> (u = [] \<or> hd u \<noteq> 123)"
      then have "37 # u = [] @ [37, 123] @ tl u" by (cases u) auto
      then show False using o unfolding opens_macro_def sublist_def by blast
    qed
    ultimately show ?thesis
      using less.hyps [of u] less.prems(2) expanded_percent [OF pre(2), of u "[37, 123] @ nm @ [125] @ post"]
      by (auto simp: pre(1))
  qed (use less.prems(2) expanded_macro_first in blast)
qed

text \<open>A text with macros in it, and the text with their values in their places.\<close>

definition macro_text :: "(bytes \<times> bytes) list \<Rightarrow> bytes \<Rightarrow> bytes" where
  "macro_text pieces post = concat (map (\<lambda>(pre, nm). pre @ [37, 123] @ nm @ [125]) pieces) @ post"

definition value_text :: "resolver \<Rightarrow> (bytes \<times> bytes) list \<Rightarrow> bytes \<Rightarrow> bytes" where
  "value_text macro_value pieces post =
     concat (map (\<lambda>(pre, nm). pre @ (case resolve_macro macro_value nm of None \<Rightarrow> [] | Some v \<Rightarrow> v)) pieces) @ post"

lemma expanded_macro_text:
  "\<forall>(pre, nm) \<in> set pieces. \<not> opens_macro pre \<and> 125 \<notin> set nm \<Longrightarrow> \<not> has_macro post \<Longrightarrow>
    expanded macro_value (macro_text pieces post) = value_text macro_value pieces post"
proof (induction pieces)
  case Nil
  then show ?case by (simp add: macro_text_def value_text_def expanded_text)
next
  case (Cons x xs)
  obtain pre nm where x: "x = (pre, nm)" by force
  have "expanded macro_value (macro_text (x # xs) post) = expanded macro_value (pre @ [37, 123] @ nm @ [125] @ macro_text xs post)"
    by (simp add: macro_text_def x)
  also have "\<dots> = value_text macro_value (x # xs) post"
    using Cons expanded_macro [of pre nm macro_value "macro_text xs post"] by (simp add: x value_text_def)
  finally show ?case .
qed

text \<open>
  C15: \<open>expand_macros\<close> puts the value of the variable in the place of every \<^verbatim>\<open>%{NAME}\<close> of a rule's parameter, removes the
  macros that cannot be resolved and leaves everything else as it is: percent signs that start no macro, and an opening
  that is never closed. The length it returns is that of the new text.
\<close>

theorem expand_macros_correct:
  assumes "\<forall>(pre, nm) \<in> set pieces. \<not> opens_macro pre \<and> 125 \<notin> set nm" "\<not> has_macro post"
  shows "expand_macros macro_value (macro_text pieces post) (length (macro_text pieces post)) =
    (value_text macro_value pieces post, length (value_text macro_value pieces post))"
  using expanded_macro_text [OF assms] by (simp add: expand_macros_run)

section \<open>What the comparisons decide\<close>

lemma match_of_run: "match_of macro_value s = (expanded macro_value s @ [0], length (expanded macro_value s))"
  by (simp add: match_of_def expand_macros_run)

lemma matched_run: "\<exists>msg. matched junk start (m @ [0]) (length m) name = Some (1, Some msg)"
proof -
  have "length m \<le> length (m @ [0])" by simp
  then obtain tail where esc: "log_escape_impl junk (Some (m @ [0])) (length m) True False False =
      Some (Some (concat (map (log_emit True False False) (take (length m) (m @ [0]))) @ 0 # tail))"
    using log_escape_impl_run by blast
  obtain x where "c_str (concat (map (log_emit True False False) (take (length m) (m @ [0]))) @ 0 # tail) = Some x"
    using c_str_total [of "concat (map (log_emit True False False) (take (length m) (m @ [0]))) @ 0 # tail"] by auto
  then show ?thesis by (simp add: matched_def match_message_def log_escape_ex_def esc)
qed

text \<open>The first byte and the rest against all of it.\<close>

lemma take_first:
  assumes "0 < n" "k + n \<le> length t" "n \<le> length m"
  shows "t ! k = m ! 0 \<and> take (n - 1) (drop (k + 1) t) = take (n - 1) (drop 1 m) \<longleftrightarrow> take n (drop k t) = take n m"
proof -
  obtain n' where n': "n = Suc n'" using assms(1) by (cases n) auto
  have t: "drop k t = t ! k # drop (k + 1) t" using assms by (simp add: Cons_nth_drop_Suc)
  obtain c u where m: "m = c # u" using assms by (cases m) auto
  show ?thesis unfolding t by (simp add: n' m)
qed

lemma op_match_at_run:
  assumes "m \<noteq> []" "i + length m \<le> length t"
  shows "op_match_at (m @ [0]) (length m) t i = Some (take (length m) (drop i t) = m)"
proof -
  have first: "t ! i = m ! 0 \<and> take (length m - 1) (drop (i + 1) t) = take (length m - 1) (drop 1 m) \<longleftrightarrow> take (length m) (drop i t) = m"
    using take_first [of "length m" i t m] assms by simp
  have "i < length t" using assms by (cases m) auto
  then have rd: "rd t i = Some (t ! i)" "rd (m @ [0]) 0 = Some (m ! 0)" using assms by (simp_all add: nth_append)
  have "mem_eq (m @ [0]) 1 t (i + 1) (length m - 1) = Some (take (length m - 1) (drop (i + 1) t) = take (length m - 1) (drop 1 m))"
    using assms by (auto simp: mem_eq_def Suc_le_eq)
  moreover have "take (length m - 1) (drop (i + 1) t) = take (length m - 1) (drop 1 m)" if "length m = 1" using that by simp
  ultimately show ?thesis using rd first by (auto simp: op_match_at_def)
qed

definition found_from :: "bytes \<Rightarrow> bytes \<Rightarrow> nat \<Rightarrow> nat \<Rightarrow> bool" where
  "found_from m t i j \<longleftrightarrow> (\<exists>k. i \<le> k \<and> k \<le> j \<and> take (length m) (drop k t) = m)"

lemma found_from_step: "i \<le> j \<Longrightarrow> found_from m t i j \<longleftrightarrow> take (length m) (drop i t) = m \<or> found_from m t (i + 1) j"
proof -
  assume "i \<le> j"
  have "i \<le> k \<longleftrightarrow> k = i \<or> i + 1 \<le> k" for k by auto
  then show ?thesis using \<open>i \<le> j\<close> by (auto simp: found_from_def)
qed

lemma found_from_end: "j < i \<Longrightarrow> \<not> found_from m t i j"
  by (auto simp: found_from_def)

lemma contains_loop_run:
  "m \<noteq> [] \<Longrightarrow> j + length m \<le> length t \<Longrightarrow> contains_loop (m @ [0]) (length m) t i j = Some (found_from m t i j)"
proof (induction "j + 1 - i" arbitrary: i)
  case 0
  then show ?case using found_from_end [of j i] by (simp add: contains_loop.simps [of _ _ _ i])
next
  case (Suc d)
  then have "i \<le> j" "d = j + 1 - (i + 1)" by simp_all
  then show ?case
    using Suc.hyps(1) [OF _ Suc.prems] op_match_at_run [OF Suc.prems(1), of i t] Suc.prems(2) found_from_step [of i j m t]
    by (subst contains_loop.simps) simp
qed

lemma found_from_sublist: "n \<le> length v \<Longrightarrow> length m \<le> n \<Longrightarrow> found_from m v 0 (n - length m) \<longleftrightarrow> sublist m (take n v)"
proof
  assume n: "n \<le> length v" "length m \<le> n" and "found_from m v 0 (n - length m)"
  then obtain k where k: "k \<le> n - length m" "take (length m) (drop k v) = m" by (auto simp: found_from_def)
  have "take n v = take k v @ take (length m) (drop k v) @ drop (length m) (take (n - k) (drop k v))"
  proof -
    have "take n v = take k v @ take (n - k) (drop k v)"
      using k(1) n by (metis append_take_drop_id drop_take min.absorb1 order.trans diff_le_self take_take)
    moreover have "take (n - k) (drop k v) = take (length m) (drop k v) @ drop (length m) (take (n - k) (drop k v))"
      using k(1) n by (metis append_take_drop_id min.absorb1 take_take add_le_imp_le_diff le_diff_conv2 add.commute)
    ultimately show ?thesis by simp
  qed
  then show "sublist m (take n v)" unfolding k(2) sublist_def by blast
next
  assume n: "n \<le> length v" "length m \<le> n" and "sublist m (take n v)"
  then obtain a b where ab: "take n v = a @ m @ b" by (auto simp: sublist_def)
  then have len: "length a + length m + length b = n" using n by (metis append.assoc length_append length_take min.absorb2)
  have "v = a @ m @ b @ drop n v" using ab by (metis append.assoc append_take_drop_id)
  then have "take (length m) (drop (length a) v) = m" by (metis append_eq_conv_conj)
  then show "found_from m v 0 (n - length m)" using len unfolding found_from_def by (intro exI [of _ "length a"]) simp
qed

lemma within_loop_run:
  assumes "0 < n" "n \<le> length v"
  shows "j + n \<le> length m \<Longrightarrow> within_loop (m @ [0]) v n i j = Some (found_from (take n v) m i j)"
proof (induction "j + 1 - i" arbitrary: i)
  case 0
  then show ?case using found_from_end [of j i] by (simp add: within_loop.simps [of _ _ _ i])
next
  case (Suc d)
  then have i: "i \<le> j" "d = j + 1 - (i + 1)" by simp_all
  then have len: "i + n \<le> length m" "i < length m" using Suc.prems assms(1) by simp_all
  have "0 < length v" using assms by linarith
  then have rd: "rd (m @ [0]) i = Some (m ! i)" "rd v 0 = Some (v ! 0)" using len by (simp_all add: nth_append)
  have first: "m ! i = v ! 0 \<and> take (n - 1) (drop (i + 1) m) = take (n - 1) (drop 1 v) \<longleftrightarrow> take n (drop i m) = take n v"
    by (rule take_first [OF assms(1) len(1) assms(2)])
  have "mem_eq v 1 (m @ [0]) (i + 1) (n - 1) = Some (take (n - 1) (drop (i + 1) m) = take (n - 1) (drop 1 v))"
    using assms len by (auto simp: mem_eq_def)
  then have eq: "(if m ! i = v ! 0 then mem_eq v 1 (m @ [0]) (i + 1) (n - 1) else Some False) = Some (take n (drop i m) = take n v)"
    using first by auto
  have "within_loop (m @ [0]) v n i j =
      (if take n (drop i m) = take n v then Some True else within_loop (m @ [0]) v n (i + 1) j)"
    using i(1) by (subst within_loop.simps) (simp only: if_True rd bind.bind_lunit eq)
  moreover have "found_from (take n v) m i j \<longleftrightarrow> take n (drop i m) = take n v \<or> found_from (take n v) m (i + 1) j"
    using found_from_step [OF i(1), of "take n v" m] assms(2) by (simp add: min_def)
  ultimately show ?case using Suc.hyps(1) [OF i(2) Suc.prems] by simp
qed

text \<open>A place where the word stands on its own; \<open>t\<close> is the value up to its length.\<close>

definition word_at :: "bytes \<Rightarrow> bytes \<Rightarrow> nat \<Rightarrow> bool" where
  "word_at m t k \<longleftrightarrow> take (length m) (drop k t) = m \<and> (0 < k \<longrightarrow> \<not> word_char (t ! (k - 1))) \<and>
     (k + length m < length t \<longrightarrow> \<not> word_char (t ! (k + length m)))"

lemma word_loop_run:
  assumes "m \<noteq> []" "n \<le> length v" "length m \<le> n"
  shows "word_loop (m @ [0]) (length m) v i (n - length m) rc =
    Some (rc \<or> (\<exists>k. i \<le> k \<and> k \<le> n - length m \<and> word_at m (take n v) k))"
proof (induction "n - length m + 1 - i" arbitrary: i rc)
  case 0
  then show ?case by (auto simp: word_loop.simps [of _ _ _ i])
next
  case (Suc d)
  let ?j = "n - length m"
  have i: "i \<le> ?j" "d = ?j + 1 - (i + 1)" using Suc.hyps(2) by simp_all
  have pos: "0 < length m" using assms(1) by simp
  have len: "i + length m \<le> n" "i < n" using i(1) assms(3) pos by linarith+
  have prev: "(if 0 < i then map_option word_char (rd v (i - 1)) else Some False) =
      Some (0 < i \<and> word_char (take n v ! (i - 1)))"
    using len assms(2) by auto
  have eq: "op_match_at (m @ [0]) (length m) v i = Some (take (length m) (drop i v) = m)"
    using op_match_at_run [OF assms(1), of i v] len assms(2) by simp
  have cut: "take (length m) (drop i (take n v)) = take (length m) (drop i v)"
    using len by (simp add: drop_take min_def)
  have at_end: "i = ?j \<longleftrightarrow> \<not> i + length m < n" using len assms(3) by auto
  have hit: "(if \<not> take (length m) (drop i v) = m then Some False else if i = ?j then Some True
        else map_option (\<lambda>c. \<not> word_char c) (rd v (i + length m))) =
      Some (take (length m) (drop i v) = m \<and> (i + length m < n \<longrightarrow> \<not> word_char (take n v ! (i + length m))))"
    using len assms(2) at_end by auto
  have step: "word_loop (m @ [0]) (length m) v i ?j rc = word_loop (m @ [0]) (length m) v (i + 1) ?j (rc \<or> word_at m (take n v) i)"
  proof (cases "0 < i \<and> word_char (take n v ! (i - 1))")
    case True
    then have alone: "word_at m (take n v) i = False" and "0 < i" by (simp_all add: word_at_def)
    moreover have "map_option word_char (rd v (i - 1)) = Some True" using prev True by (simp only: if_True simp_thms)
    then obtain z where z: "rd v (i - 1) = Some z" "word_char z" by (auto simp: map_option_eq_Some)
    ultimately show ?thesis
      using i(1) by (subst word_loop.simps) (simp only: z option.map(2) bind.bind_lunit if_True simp_thms)
  next
    case False
    then have "word_at m (take n v) i \<longleftrightarrow>
        take (length m) (drop i v) = m \<and> (i + length m < n \<longrightarrow> \<not> word_char (take n v ! (i + length m)))"
      using assms(2) by (auto simp: word_at_def cut)
    then show ?thesis
      using i(1) False by (subst word_loop.simps) (simp only: if_True if_False prev bind.bind_lunit eq hit)
  qed
  have "(\<exists>k. i \<le> k \<and> k \<le> ?j \<and> word_at m (take n v) k) \<longleftrightarrow>
      word_at m (take n v) i \<or> (\<exists>k. i + 1 \<le> k \<and> k \<le> ?j \<and> word_at m (take n v) k)"
  proof -
    have "i \<le> k \<longleftrightarrow> k = i \<or> i + 1 \<le> k" for k by auto
    then show ?thesis using i(1) by auto
  qed
  then show ?case unfolding step Suc.hyps(1) [OF i(2)] by auto
qed

text \<open>A word in a text: what stands before and behind it are no word characters.\<close>

definition word_in :: "bytes \<Rightarrow> bytes \<Rightarrow> bool" where
  "word_in m t \<longleftrightarrow> (\<exists>pre post. t = pre @ m @ post \<and> (pre \<noteq> [] \<longrightarrow> \<not> word_char (List.last pre)) \<and> (post \<noteq> [] \<longrightarrow> \<not> word_char (hd post)))"

lemma word_at_in: "length m \<le> length t \<Longrightarrow> (\<exists>k\<le>length t - length m. word_at m t k) \<longleftrightarrow> word_in m t"
proof
  assume len: "length m \<le> length t" and "\<exists>k\<le>length t - length m. word_at m t k"
  then obtain k where k: "k \<le> length t - length m" "word_at m t k" by blast
  have t: "t = take k t @ m @ drop (k + length m) t"
  proof -
    have "drop k t = m @ drop (k + length m) t"
      using k(2) by (metis append_take_drop_id drop_drop word_at_def add.commute)
    then show ?thesis by (metis append_take_drop_id)
  qed
  have "\<not> word_char (List.last (take k t))" if "take k t \<noteq> []"
    using that k len by (auto simp: word_at_def last_conv_nth)
  moreover have "\<not> word_char (hd (drop (k + length m) t))" if "drop (k + length m) t \<noteq> []"
    using that k by (auto simp: word_at_def hd_drop_conv_nth)
  ultimately show "word_in m t" using t unfolding word_in_def by blast
next
  assume "word_in m t"
  then obtain pre post where t: "t = pre @ m @ post" "pre \<noteq> [] \<longrightarrow> \<not> word_char (List.last pre)" "post \<noteq> [] \<longrightarrow> \<not> word_char (hd post)"
    by (auto simp: word_in_def)
  have "word_at m t (length pre)"
    using t(2,3) by (auto simp: word_at_def t(1) nth_append last_conv_nth hd_conv_nth)
  moreover have "length pre \<le> length t - length m" by (simp add: t(1))
  ultimately show "\<exists>k\<le>length t - length m. word_at m t k" by blast
qed

definition verdict :: "bool \<Rightarrow> int" where
  "verdict b = (if b then 1 else 0)"

text \<open>
  C14: with a parameter that expands to \<open>m\<close> and a variable whose value is \<open>t\<close>, the six operators read nothing outside
  their buffers and return 1 exactly when \<open>t\<close> occurs in \<open>m\<close> (\<open>within\<close>), \<open>m\<close> occurs in \<open>t\<close> (\<open>contains\<close>), occurs there as a
  word of its own or is empty (\<open>containsWord\<close>), is \<open>t\<close> (\<open>streq\<close>), starts it (\<open>beginsWith\<close>) or ends it (\<open>endsWith\<close>), and 0
  otherwise. The value may be followed by other bytes, it need not end with a NUL.
\<close>

theorem string_operators_correct:
  assumes "n \<le> length v" "m = expanded macro_value s" "t = take n v"
  shows "\<exists>e1 e2 e3 e4 e5 e6.
    msre_op_within_execute junk macro_value (Some s) name (Some (v, n)) = Some (verdict (sublist t m), e1) \<and>
    msre_op_contains_execute junk macro_value (Some s) name (Some (v, n)) = Some (verdict (sublist m t), e2) \<and>
    msre_op_containsWord_execute junk macro_value (Some s) name (Some (v, n)) = Some (verdict (m = [] \<or> word_in m t), e3) \<and>
    msre_op_streq_execute junk macro_value (Some s) name (Some (v, n)) = Some (verdict (t = m), e4) \<and>
    msre_op_beginsWith_execute junk macro_value (Some s) name (Some (v, n)) = Some (verdict (prefix m t), e5) \<and>
    msre_op_endsWith_execute junk macro_value (Some s) name (Some (v, n)) = Some (verdict (suffix m t), e6)"
proof -
  have rd: "target_of (Some (v, n)) = (v, n)" by (simp add: target_of_def)
  have len: "length t = n" using assms by simp
  note run = match_of_run [of macro_value s, folded assms(2)] matched_run [of junk _ m name]
  have within: "\<exists>e. msre_op_within_execute junk macro_value (Some s) name (Some (v, n)) = Some (verdict (sublist t m), e)"
  proof -
    have "sublist t m \<longleftrightarrow> found_from t m 0 (length m - n)" if "n \<le> length m"
      using found_from_sublist [of "length m" m t] that len by simp
    moreover have "\<not> sublist t m" if "\<not> n \<le> length m" using sublist_length_le [of t m] that len by auto
    moreover have "t = []" if "n = 0" using len that by simp
    ultimately show ?thesis
      using run(1) run(2) [of "''String match within ''"] within_loop_run [of n v "length m - n" m 0] assms(1,3)
      by (auto simp: msre_op_within_execute_def verdict_def Let_def)
  qed
  have contains: "\<exists>e. msre_op_contains_execute junk macro_value (Some s) name (Some (v, n)) = Some (verdict (sublist m t), e)"
  proof -
    have "sublist m t \<longleftrightarrow> found_from m v 0 (n - length m)" if "length m \<le> n"
      using found_from_sublist [OF assms(1) that] by (simp add: assms(3))
    moreover have "\<not> sublist m t" if "\<not> length m \<le> n" using sublist_length_le [of m t] that len by auto
    ultimately show ?thesis
      using run(1) run(2) [of "''String match ''"] contains_loop_run [of m "n - length m" v 0] assms(1)
      by (cases "m = []") (auto simp: msre_op_contains_execute_def verdict_def Let_def rd)
  qed
  have word: "\<exists>e. msre_op_containsWord_execute junk macro_value (Some s) name (Some (v, n)) = Some (verdict (m = [] \<or> word_in m t), e)"
  proof -
    have "word_in m t \<longleftrightarrow> (\<exists>k. 0 \<le> k \<and> k \<le> n - length m \<and> word_at m t k)" if "length m \<le> n"
      using word_at_in [of m t] that len by auto
    moreover have "\<not> word_in m t" if "\<not> length m \<le> n" using that len by (auto simp: word_in_def)
    ultimately show ?thesis
      using run(1) run(2) [of "''String match ''"] word_loop_run [of m n v 0 False] assms(1,3)
      by (cases "m = []") (auto simp: msre_op_containsWord_execute_def verdict_def Let_def rd)
  qed
  have streq: "\<exists>e. msre_op_streq_execute junk macro_value (Some s) name (Some (v, n)) = Some (verdict (t = m), e)"
    using run(1) run(2) [of "''String match ''"] assms(1,3) len
    by (auto simp: msre_op_streq_execute_def verdict_def Let_def rd mem_eq_def)
  have begins: "\<exists>e. msre_op_beginsWith_execute junk macro_value (Some s) name (Some (v, n)) = Some (verdict (prefix m t), e)"
  proof -
    have "prefix m t \<longleftrightarrow> take (length m) v = m" if "length m \<le> n"
      using that assms(1,3) by (metis append_eq_conv_conj len min.absorb1 prefix_def take_take)
    moreover have "\<not> prefix m t" if "\<not> length m \<le> n" using prefix_length_le [of m t] that len by auto
    ultimately show ?thesis
      using run(1) run(2) [of "''String match ''"] assms(1)
      by (cases "m = []") (auto simp: msre_op_beginsWith_execute_def verdict_def Let_def rd mem_eq_def)
  qed
  have ends: "\<exists>e. msre_op_endsWith_execute junk macro_value (Some s) name (Some (v, n)) = Some (verdict (suffix m t), e)"
  proof -
    have "suffix m t \<longleftrightarrow> take (length m) (drop (n - length m) v) = m" if "length m \<le> n"
    proof -
      have "take (length m) (drop (n - length m) v) = drop (n - length m) t" using that assms(1,3) by (simp add: drop_take)
      then show ?thesis using that len by (metis append_take_drop_id diff_diff_cancel length_drop suffix_def suffix_take append_eq_append_conv)
    qed
    moreover have "\<not> suffix m t" if "\<not> length m \<le> n" using suffix_length_le [of m t] that len by auto
    ultimately show ?thesis
      using run(1) run(2) [of "''String match ''"] assms(1)
      by (cases "m = []") (auto simp: msre_op_endsWith_execute_def verdict_def Let_def rd mem_eq_def)
  qed
  show ?thesis using within contains word streq begins ends by blast
qed

section \<open>Witnesses\<close>

text \<open>A transaction in which \<^verbatim>\<open>tx.a\<close> is \<^verbatim>\<open>word\<close>.\<close>

definition sample_macro :: resolver where
  "sample_macro nm arg = (if nm = ascii ''tx'' \<and> arg = Some (ascii ''a'') then Some (ascii ''word'') else None)"

lemma no_opening_if: "37 \<notin> set s \<Longrightarrow> \<not> opens_macro s"
  by (auto simp: opens_macro_def sublist_def)

lemma no_macro_if: "125 \<notin> set s \<Longrightarrow> \<not> has_macro s"
  by (auto simp: has_macro_def)

theorem expand_macros_correct_witness:
  "expand_macros sample_macro (ascii ''<%{tx.a}> %{no}%{'') (length (ascii ''<%{tx.a}> %{no}%{'')) = (ascii ''<word> %{'', 9)"
proof -
  let ?p = "[(ascii ''<'', ascii ''tx.a''), (ascii ''> '', ascii ''no'')]"
  have "\<forall>(pre, nm) \<in> set ?p. \<not> opens_macro pre \<and> 125 \<notin> set nm"
    by (auto simp: ascii_def intro!: no_opening_if)
  moreover have "\<not> has_macro (ascii ''%{'')" by (rule no_macro_if) (simp add: ascii_def)
  ultimately have "expand_macros sample_macro (macro_text ?p (ascii ''%{'')) (length (macro_text ?p (ascii ''%{''))) =
      (value_text sample_macro ?p (ascii ''%{''), length (value_text sample_macro ?p (ascii ''%{'')))"
    by (rule expand_macros_correct)
  moreover have "macro_text ?p (ascii ''%{'') = ascii ''<%{tx.a}> %{no}%{''" by (simp add: macro_text_def ascii_def)
  moreover have "value_text sample_macro ?p (ascii ''%{'') = ascii ''<word> %{''"
    by (simp add: value_text_def resolve_macro_def sample_macro_def ascii_def)
  ultimately show ?thesis by (simp add: ascii_def)
qed

theorem string_operators_correct_witness:
  "\<exists>e. msre_op_containsWord_execute (\<lambda>_. 0) sample_macro (Some (ascii ''%{tx.a}'')) (ascii ''ARGS'')
    (Some (ascii ''sword, word'', 11)) = Some (1, e)"
proof -
  have "macro_text [([], ascii ''tx.a'')] [] = ascii ''%{tx.a}''" by (simp add: macro_text_def ascii_def)
  then have m: "ascii ''word'' = expanded sample_macro (ascii ''%{tx.a}'')"
    using expanded_macro_text [of "[([], ascii ''tx.a'')]" "[]" sample_macro] no_opening_if [of "[]"] no_macro_if [of "[]"]
    by (simp add: value_text_def resolve_macro_def sample_macro_def ascii_def)
  have t: "ascii ''sword, word'' = take 11 (ascii ''sword, word'')" and n: "11 \<le> length (ascii ''sword, word'')"
    by (simp_all add: ascii_def)
  have "ascii ''sword, word'' = ascii ''sword, '' @ ascii ''word'' @ []" by (simp add: ascii_def)
  moreover have "\<not> word_char (List.last (ascii ''sword, ''))" by code_simp
  ultimately have "word_in (ascii ''word'') (ascii ''sword, word'')" unfolding word_in_def by blast
  then show ?thesis
    using string_operators_correct [OF n m t, of "\<lambda>_. 0" "ascii ''ARGS''"] by (auto simp: verdict_def)
qed

end
