(* ===== verification/ByteOps.thy ===== *)
theory ByteOps
  imports PmMatch Utf8Unicode UrlCodec RuleParser
begin

text \<open>
  The operators of \<^verbatim>\<open>apache2/re_operators.c\<close> that validate the bytes of a value: \<open>validateByteRange\<close>, \<open>validateUrlEncoding\<close> and
  \<open>validateUtf8Encoding\<close>. They match when the value is not valid. The parameter of a rule is a C string without its
  NUL, the value of a variable a buffer \<open>value\<close> and the length \<open>value_len\<close>.
\<close>

section \<open>\<open>validateByteRange\<close>\<close>

text \<open>The tokens \<^verbatim>\<open>apr_strtok\<close> gives for the separator comma.\<close>

function comma_tokens :: "bytes \<Rightarrow> bytes list" where
  "comma_tokens s =
     (let p = dropWhile (\<lambda>c. c = 44) s in
      if p = [] then [] else takeWhile (\<lambda>c. c \<noteq> 44) p # comma_tokens (dropWhile (\<lambda>c. c \<noteq> 44) p))"
  by pat_completeness auto
termination
proof (relation "measure length", goal_cases)
  case 1
  then show ?case by simp
next
  case (2 s p)
  have "hd p \<noteq> 44" using hd_dropWhile [of "\<lambda>c. c = 44" s] 2 by simp
  then have "length (dropWhile (\<lambda>c. c \<noteq> 44) p) < length p"
    using 2(2) length_dropWhile_le [of "\<lambda>c. c \<noteq> 44" "tl p"] by (cases p) (auto simp: le_imp_less_Suc)
  moreover have "length p \<le> length s" using 2(1) by (simp add: length_dropWhile_le)
  ultimately show ?case by simp
qed

declare comma_tokens.simps [simp del]

text \<open>\<^verbatim>\<open>table[x >> 3] | (1 << (x & 0x7))\<close>\<close>

definition set_bit_at :: "nat \<Rightarrow> bytes \<Rightarrow> bytes option" where
  "set_bit_at x table = do {
     b \<leftarrow> rd table (x div 8);
     wr table (x div 8) (b OR push_bit (x mod 8) 1) }"

function set_range :: "nat \<Rightarrow> nat \<Rightarrow> bytes \<Rightarrow> bytes option" where
  "set_range start stop table =
     (if start \<le> stop then do { table \<leftarrow> set_bit_at start table; set_range (start + 1) stop table } else Some table)"
  by pat_completeness auto
termination by (relation "measure (\<lambda>(start, stop, table). stop + 1 - start)") auto

declare set_range.simps [simp del]

text \<open>The loop over the tokens; \<open>Inl\<close> is the error message and the table so far, which the rule keeps.\<close>

fun range_tokens :: "bytes list \<Rightarrow> bytes \<Rightarrow> (bytes \<times> bytes + bytes) option" where
  "range_tokens [] table = Some (Inr table)"
| "range_tokens (p # ps) table =
     (let s = dropWhile (\<lambda>c. c \<noteq> 45) p in
      if s = [] then
        let x = c_atoi p in
        if x < 0 \<or> x > 255 then Some (Inl (ascii ''Invalid range value: '' @ dec_of_int x, table))
        else do { table \<leftarrow> set_bit_at (nat x) table; range_tokens ps table }
      else
        let start = c_atoi p; stop = c_atoi (tl s) in
        if start < 0 \<or> start > 255 then Some (Inl (ascii ''Invalid range start value: '' @ dec_of_int start, table))
        else if stop < 0 \<or> stop > 255 then Some (Inl (ascii ''Invalid range end value: '' @ dec_of_int stop, table))
        else if start > stop
        then Some (Inl (ascii ''Invalid range: '' @ dec_of_int start @ 45 # dec_of_int stop, table))
        else do { table \<leftarrow> set_range (nat start) (nat stop) table; range_tokens ps table })"

text \<open>The result: the return value, the error message, and the table.\<close>

definition msre_op_validateByteRange_init :: "bytes option \<Rightarrow> (int \<times> bytes option \<times> bytes option) option" where
  "msre_op_validateByteRange_init op_param =
     (case op_param of
        None \<Rightarrow> Some (-1, Some (ascii ''Missing parameter for validateByteRange.''), None)
      | Some s \<Rightarrow> do {
          r \<leftarrow> range_tokens (comma_tokens s) (replicate 32 0);
          case r of Inl (msg, table) \<Rightarrow> Some (0, Some msg, Some table) | Inr table \<Rightarrow> Some (1, None, Some table) })"

text \<open>How many of the bytes from \<open>i\<close> on are not in the table.\<close>

function count_outside :: "bytes \<Rightarrow> bytes \<Rightarrow> nat \<Rightarrow> nat \<Rightarrow> nat \<Rightarrow> nat option" where
  "count_outside table value value_len i count =
     (if i < value_len then do {
        x \<leftarrow> rd value i;
        b \<leftarrow> rd table (unat x div 8);
        count_outside table value value_len (i + 1) (if bit b (unat x mod 8) then count else count + 1) }
      else Some count)"
  by pat_completeness auto
termination by (relation "measure (\<lambda>(table, value, value_len, i, count). value_len - i)") auto

declare count_outside.simps [simp del]

definition msre_op_validateByteRange_execute ::
  "bytes option \<Rightarrow> bytes \<Rightarrow> bytes \<Rightarrow> bytes \<times> nat \<Rightarrow> (int \<times> bytes option) option" where
  "msre_op_validateByteRange_execute op_param_data op_param name var =
     (case op_param_data of
        None \<Rightarrow> Some (-1, Some (ascii ''Internal Error: validateByteRange table not initialised.''))
      | Some table \<Rightarrow> do {
          count \<leftarrow> count_outside table (fst var) (snd var) 0 0;
          Some (if count = 0 then (0, None)
                else (1, Some (ascii ''Found '' @ dec_of_int (int count) @ ascii '' byte(s) in '' @ name @
                  ascii '' outside range: '' @ op_param @ ascii ''.''))) })"

section \<open>\<open>validateUrlEncoding\<close>\<close>

function url_loop :: "bytes \<Rightarrow> nat \<Rightarrow> nat \<Rightarrow> int option" where
  "url_loop input input_length i =
     (if i < input_length then do {
        c \<leftarrow> rd input i;
        if c = 37 then
          (if input_length \<le> i + 2 then Some (-3)
           else do {
             c1 \<leftarrow> rd input (i + 1);
             c2 \<leftarrow> rd input (i + 2);
             if VALID_HEX c1 \<and> VALID_HEX c2 then url_loop input input_length (i + 3) else Some (-2) })
        else url_loop input input_length (i + 1) }
      else Some 1)"
  by pat_completeness auto
termination by (relation "measure (\<lambda>(input, n, i). n - i)") auto

declare url_loop.simps [simp del]

definition validate_url_encoding :: "bytes option \<Rightarrow> int \<Rightarrow> int option" where
  "validate_url_encoding input input_length =
     (case input of
        None \<Rightarrow> Some (-1)
      | Some b \<Rightarrow> if input_length < 0 then Some (-1) else url_loop b (nat input_length) 0)"

definition msre_op_validateUrlEncoding_execute :: "bytes \<Rightarrow> bytes option \<Rightarrow> nat \<Rightarrow> (int \<times> bytes) option" where
  "msre_op_validateUrlEncoding_execute name value value_len = do {
     rc \<leftarrow> validate_url_encoding value (int value_len);
     Some (if rc = 1 then (0, ascii ''Valid URL Encoding at '' @ name @ ascii ''.'')
           else if rc = -2
           then (1, ascii ''Invalid URL Encoding: Non-hexadecimal digits used at '' @ name @ ascii ''.'')
           else if rc = -3
           then (1, ascii ''Invalid URL Encoding: Not enough characters at the end of input at '' @ name @ ascii ''.'')
           else (-1, ascii ''Invalid URL Encoding: Internal Error (rc = '' @ dec_of_int rc @ ascii '') at '' @ name)) }"

section \<open>\<open>validateUtf8Encoding\<close>\<close>

definition UNICODE_ERROR_CHARACTERS_MISSING :: int where "UNICODE_ERROR_CHARACTERS_MISSING = -1"

definition UNICODE_ERROR_INVALID_ENCODING :: int where "UNICODE_ERROR_INVALID_ENCODING = -2"

definition UNICODE_ERROR_OVERLONG_CHARACTER :: int where "UNICODE_ERROR_OVERLONG_CHARACTER = -3"

definition UNICODE_ERROR_RESTRICTED_CHARACTER :: int where "UNICODE_ERROR_RESTRICTED_CHARACTER = -4"

definition UNICODE_ERROR_DECODING_ERROR :: int where "UNICODE_ERROR_DECODING_ERROR = -5"

text \<open>The continuation bytes from \<open>k\<close> up to \<open>n\<close>, looked at one after the other.\<close>

fun conts :: "bytes \<Rightarrow> nat \<Rightarrow> nat list \<Rightarrow> bool option" where
  "conts b i [] = Some True"
| "conts b i (k # ks) = do { c \<leftarrow> rd b (i + k); if is_cont c then conts b i ks else Some False }"

text \<open>The checks at the end.\<close>

definition utf8_number_checks :: "int \<Rightarrow> nat \<Rightarrow> int" where
  "utf8_number_checks unicode_len d =
     (if 0xD800 \<le> d \<and> d \<le> 0xDFFF then UNICODE_ERROR_RESTRICTED_CHARACTER
      else if unicode_len = 4 \<and> d < 0x10000 then UNICODE_ERROR_OVERLONG_CHARACTER
      else if unicode_len = 3 \<and> d < 0x800 then UNICODE_ERROR_OVERLONG_CHARACTER
      else if unicode_len = 2 \<and> d < 0x80 then UNICODE_ERROR_OVERLONG_CHARACTER
      else unicode_len)"

text \<open>The number \<open>d\<close> of a character; the third byte of four is compared with 6, not shifted by it.\<close>

definition utf8_d2 :: "byte \<Rightarrow> byte \<Rightarrow> nat" where
  "utf8_d2 c c1 = push_bit 6 (unat (c AND 0x1F)) OR bits6 c1"

definition utf8_d3 :: "byte \<Rightarrow> byte \<Rightarrow> byte \<Rightarrow> nat" where
  "utf8_d3 c c1 c2 = push_bit 12 (unat (c AND 0x0F)) OR push_bit 6 (bits6 c1) OR bits6 c2"

definition utf8_d4 :: "byte \<Rightarrow> byte \<Rightarrow> byte \<Rightarrow> byte \<Rightarrow> nat" where
  "utf8_d4 c c1 c2 c3 =
     push_bit 18 (unat (c AND 0x07)) OR push_bit 12 (bits6 c1) OR (if bits6 c2 < 6 then 1 else 0) OR bits6 c3"

text \<open>The code looks at one character from index \<open>i\<close> on with \<open>n\<close> bytes left. The value is not NULL when there is a byte to look at.\<close>

definition detect_utf8_character :: "bytes \<Rightarrow> nat \<Rightarrow> nat \<Rightarrow> int option" where
  "detect_utf8_character b i n = do {
     c \<leftarrow> rd b i;
     if c AND 0x80 = 0 then Some 1
     else if c AND 0xE0 = 0xC0 then
       (if n < 2 then Some (utf8_number_checks UNICODE_ERROR_CHARACTERS_MISSING 0)
        else do {
          ok \<leftarrow> conts b i [1];
          if \<not> ok then Some (utf8_number_checks UNICODE_ERROR_INVALID_ENCODING 0)
          else do {
            c1 \<leftarrow> rd b (i + 1);
            Some (utf8_number_checks 2 (utf8_d2 c c1)) } })
     else if c AND 0xF0 = 0xE0 then
       (if n < 3 then Some (utf8_number_checks UNICODE_ERROR_CHARACTERS_MISSING 0)
        else do {
          ok \<leftarrow> conts b i [1, 2];
          if \<not> ok then Some (utf8_number_checks UNICODE_ERROR_INVALID_ENCODING 0)
          else do {
            c1 \<leftarrow> rd b (i + 1);
            c2 \<leftarrow> rd b (i + 2);
            Some (utf8_number_checks 3 (utf8_d3 c c1 c2)) } })
     else if c AND 0xF8 = 0xF0 then
       (if c \<ge> 0xF5 then Some UNICODE_ERROR_RESTRICTED_CHARACTER
        else if n < 4 then Some (utf8_number_checks UNICODE_ERROR_CHARACTERS_MISSING 0)
        else do {
          ok \<leftarrow> conts b i [1, 2, 3];
          if \<not> ok then Some (utf8_number_checks UNICODE_ERROR_INVALID_ENCODING 0)
          else do {
            c1 \<leftarrow> rd b (i + 1);
            c2 \<leftarrow> rd b (i + 2);
            c3 \<leftarrow> rd b (i + 3);
            Some (utf8_number_checks 4 (utf8_d4 c c1 c2 c3)) } })
     else Some UNICODE_ERROR_INVALID_ENCODING }"

definition utf8_message :: "int \<Rightarrow> bytes \<Rightarrow> nat \<Rightarrow> bytes" where
  "utf8_message rc name i =
     (let at = ascii ''at '' @ name @ ascii ''. [offset '' @ 34 # dec_of_int (int i) @ 34 # ascii '']'' in
      if rc = UNICODE_ERROR_CHARACTERS_MISSING then ascii ''Invalid UTF-8 encoding: not enough bytes in character '' @ at
      else if rc = UNICODE_ERROR_INVALID_ENCODING then ascii ''Invalid UTF-8 encoding: invalid byte value in character '' @ at
      else if rc = UNICODE_ERROR_OVERLONG_CHARACTER then ascii ''Invalid UTF-8 encoding: overlong character detected '' @ at
      else if rc = UNICODE_ERROR_RESTRICTED_CHARACTER then ascii ''Invalid UTF-8 encoding: use of restricted character '' @ at
      else if rc = UNICODE_ERROR_DECODING_ERROR then ascii ''Error validating UTF-8 decoding '' @ at
      else ascii ''Internal error during UTF-8 validation at '' @ name @ ascii ''.'')"

partial_function (option) validate_utf8_loop :: "bytes \<Rightarrow> bytes \<Rightarrow> nat \<Rightarrow> nat \<Rightarrow> nat \<Rightarrow> (int \<times> bytes option) option" where
  "validate_utf8_loop name value value_len i bytes_left =
     (if i < value_len then do {
        rc \<leftarrow> detect_utf8_character value i bytes_left;
        if rc \<le> 0 then Some (1, Some (utf8_message rc name i))
        else validate_utf8_loop name value value_len (i + nat rc) (bytes_left - nat rc) }
      else Some (0, None))"

definition msre_op_validateUtf8Encoding_execute :: "bytes \<Rightarrow> bytes \<Rightarrow> nat \<Rightarrow> (int \<times> bytes option) option" where
  "msre_op_validateUtf8Encoding_execute name value value_len = validate_utf8_loop name value value_len 0 value_len"

section \<open>What the operators accept\<close>

subsection \<open>Byte ranges\<close>

text \<open>A byte the table allows.\<close>

definition allowed :: "bytes \<Rightarrow> nat \<Rightarrow> bool" where
  "allowed table x \<longleftrightarrow> bit (table ! (x div 8)) (x mod 8)"

lemma byte_less: "unat (c :: byte) < 256"
  using unsigned_less [of c, where 'a = nat] by simp

lemma set_bit_at_run:
  assumes "length table = 32" "x < 256"
  shows "\<exists>t. set_bit_at x table = Some t \<and> length t = 32 \<and> (\<forall>y<256. allowed t y \<longleftrightarrow> allowed table y \<or> y = x)"
proof -
  let ?t = "table[x div 8 := table ! (x div 8) OR push_bit (x mod 8) 1]"
  have i: "x div 8 < length table" using assms by simp
  have "allowed ?t y \<longleftrightarrow> allowed table y \<or> y = x" if "y < 256" for y
  proof (cases "y div 8 = x div 8")
    case True
    have "y mod 8 = x mod 8 \<longleftrightarrow> y = x" using True by (metis div_mult_mod_eq)
    then show ?thesis
      using True i by (auto simp: allowed_def bit_or_iff bit_exp_iff possible_bit_word)
  next
    case False
    then show ?thesis by (auto simp: allowed_def nth_list_update)
  qed
  then show ?thesis using i assms(1) by (simp add: set_bit_at_def)
qed

lemma set_range_run:
  "length table = 32 \<Longrightarrow> stop < 256 \<Longrightarrow>
    \<exists>t. set_range start stop table = Some t \<and> length t = 32 \<and> (\<forall>y<256. allowed t y \<longleftrightarrow> allowed table y \<or> start \<le> y \<and> y \<le> stop)"
proof (induction "stop + 1 - start" arbitrary: start table)
  case 0
  then show ?case by (auto simp: set_range.simps [of start])
next
  case (Suc d)
  then have i: "start \<le> stop" "d = stop + 1 - (start + 1)" by simp_all
  then obtain t1 where t1: "set_bit_at start table = Some t1" "length t1 = 32"
    "\<forall>y<256. allowed t1 y \<longleftrightarrow> allowed table y \<or> y = start"
    using set_bit_at_run [OF Suc.prems(1), of start] Suc.prems(2) by auto
  obtain t2 where t2: "set_range (start + 1) stop t1 = Some t2" "length t2 = 32"
    "\<forall>y<256. allowed t2 y \<longleftrightarrow> allowed t1 y \<or> start + 1 \<le> y \<and> y \<le> stop"
    using Suc.hyps(1) [OF i(2) t1(2) Suc.prems(2)] by blast
  have "set_range start stop table = Some t2"
    using i(1) t1(1) t2(1) by (subst set_range.simps) simp
  moreover have "start \<le> y \<and> y \<le> stop \<longleftrightarrow> y = start \<or> start + 1 \<le> y \<and> y \<le> stop" for y using i(1) by auto
  ultimately show ?case using t1(3) t2(2,3) by auto
qed

text \<open>The numbers of a token.\<close>

definition token_range :: "bytes \<Rightarrow> int \<times> int" where
  "token_range p =
     (let s = dropWhile (\<lambda>c. c \<noteq> 45) p in if s = [] then (c_atoi p, c_atoi p) else (c_atoi p, c_atoi (tl s)))"

definition range_ok :: "bytes \<Rightarrow> bool" where
  "range_ok p \<longleftrightarrow> 0 \<le> fst (token_range p) \<and> fst (token_range p) \<le> snd (token_range p) \<and> snd (token_range p) \<le> 255"

definition token_covers :: "bytes \<Rightarrow> nat \<Rightarrow> bool" where
  "token_covers p x \<longleftrightarrow> fst (token_range p) \<le> int x \<and> int x \<le> snd (token_range p)"

lemma range_tokens_run:
  "length table = 32 \<Longrightarrow> list_all range_ok ps \<Longrightarrow>
    \<exists>t. range_tokens ps table = Some (Inr t) \<and> length t = 32 \<and> (\<forall>y<256. allowed t y \<longleftrightarrow> allowed table y \<or> list_ex (\<lambda>p. token_covers p y) ps)"
proof (induction ps arbitrary: table)
  case Nil
  then show ?case by simp
next
  case (Cons p ps)
  let ?a = "fst (token_range p)" and ?b = "snd (token_range p)"
  have ok: "0 \<le> ?a" "?a \<le> ?b" "?b \<le> 255" using Cons.prems(2) by (simp_all add: range_ok_def)
  have one: "\<exists>t. range_tokens (p # ps) table = range_tokens ps t \<and> length t = 32 \<and>
      (\<forall>y<256. allowed t y \<longleftrightarrow> allowed table y \<or> token_covers p y)"
  proof (cases "dropWhile (\<lambda>c. c \<noteq> 45) p = []")
    case True
    then have ab: "token_range p = (c_atoi p, c_atoi p)" by (simp add: token_range_def)
    then have x: "0 \<le> c_atoi p" "c_atoi p \<le> 255" using ok by simp_all
    then have "nat (c_atoi p) < 256" by linarith
    then obtain t where t: "set_bit_at (nat (c_atoi p)) table = Some t" "length t = 32"
      "\<forall>y<256. allowed t y \<longleftrightarrow> allowed table y \<or> y = nat (c_atoi p)"
      using set_bit_at_run [OF Cons.prems(1)] by blast
    have "token_covers p y \<longleftrightarrow> y = nat (c_atoi p)" for y using x(1) by (auto simp: token_covers_def ab)
    then show ?thesis using True x t by (auto simp: Let_def)
  next
    case False
    then have ab: "token_range p = (c_atoi p, c_atoi (tl (dropWhile (\<lambda>c. c \<noteq> 45) p)))" by (auto simp: token_range_def Let_def)
    then have "nat ?b < 256" using ok by simp
    then obtain t where t: "set_range (nat ?a) (nat ?b) table = Some t" "length t = 32"
      "\<forall>y<256. allowed t y \<longleftrightarrow> allowed table y \<or> nat ?a \<le> y \<and> y \<le> nat ?b"
      using set_range_run [OF Cons.prems(1)] by blast
    have "token_covers p y \<longleftrightarrow> nat ?a \<le> y \<and> y \<le> nat ?b" for y using ok by (auto simp: token_covers_def)
    then show ?thesis using False ok t by (auto simp: Let_def ab)
  qed
  then obtain t where t: "range_tokens (p # ps) table = range_tokens ps t" "length t = 32"
    "\<forall>y<256. allowed t y \<longleftrightarrow> allowed table y \<or> token_covers p y" by blast
  obtain t' where "range_tokens ps t = Some (Inr t')" "length t' = 32"
    "\<forall>y<256. allowed t' y \<longleftrightarrow> allowed t y \<or> list_ex (\<lambda>p. token_covers p y) ps"
    using Cons.IH [OF t(2)] Cons.prems(2) by auto
  then show ?case using t by auto
qed

lemma count_outside_run:
  "length table = 32 \<Longrightarrow> n \<le> length v \<Longrightarrow>
    count_outside table v n i count = Some (count + length (filter (\<lambda>c. \<not> allowed table (unat c)) (drop i (take n v))))"
proof (induction "n - i" arbitrary: i count)
  case 0
  then show ?case by (simp add: count_outside.simps [of _ _ _ i])
next
  case (Suc d)
  then have i: "i < n" "d = n - (i + 1)" by simp_all
  have split: "drop i (take n v) = v ! i # drop (i + 1) (take n v)"
    using i(1) Suc.prems(2) by (simp add: Cons_nth_drop_Suc [symmetric])
  have "unat (v ! i) div 8 < 32" using byte_less [of "v ! i"] by simp
  then have "rd table (unat (v ! i) div 8) = Some (table ! (unat (v ! i) div 8))" "rd v i = Some (v ! i)"
    using Suc.prems i(1) by simp_all
  then have "count_outside table v n i count =
      count_outside table v n (i + 1) (if allowed table (unat (v ! i)) then count else count + 1)"
    using i(1) by (subst count_outside.simps) (simp add: allowed_def)
  then show ?case unfolding split using Suc.hyps(1) [OF i(2) Suc.prems] by simp
qed

text \<open>
  C18: with a parameter whose comma-separated numbers and ranges lie within 0 to 255, \<open>validateByteRange\<close> accepts exactly the
  values all of whose bytes one of them token_covers: the table of 256 bits that the configuration fills has a bit set for these
  and for no other byte, and it is neither written nor read outside its 32 bytes.
\<close>

theorem byte_range_exact:
  assumes "list_all range_ok (comma_tokens s)" "n \<le> length v"
  shows "\<exists>table msg. msre_op_validateByteRange_init (Some s) = Some (1, None, Some table) \<and>
    msre_op_validateByteRange_execute (Some table) s name (v, n) =
      Some (if list_all (\<lambda>c. list_ex (\<lambda>p. token_covers p (unat c)) (comma_tokens s)) (take n v) then 0 else 1, msg)"
proof -
  have none: "\<not> allowed (replicate 32 0) y" if "y < 256" for y using that by (simp add: allowed_def)
  obtain t where t: "range_tokens (comma_tokens s) (replicate 32 0) = Some (Inr t)" "length t = 32"
    "\<forall>y<256. allowed t y \<longleftrightarrow> allowed (replicate 32 0) y \<or> list_ex (\<lambda>p. token_covers p y) (comma_tokens s)"
    using range_tokens_run [OF _ assms(1), of "replicate 32 0"] by auto
  have "allowed t (unat c) \<longleftrightarrow> list_ex (\<lambda>p. token_covers p (unat c)) (comma_tokens s)" for c :: byte
    using t(3) none [of "unat c"] byte_less [of c] by simp
  then have "filter (\<lambda>c. \<not> allowed t (unat c)) (take n v) = [] \<longleftrightarrow>
      list_all (\<lambda>c. list_ex (\<lambda>p. token_covers p (unat c)) (comma_tokens s)) (take n v)"
    by (simp add: filter_empty_conv list_all_iff)
  then show ?thesis
    using t(1) count_outside_run [OF t(2) assms(2), of 0 0]
    by (simp add: msre_op_validateByteRange_init_def msre_op_validateByteRange_execute_def)
qed

subsection \<open>URL encoding\<close>

text \<open>A percent sign that two hexadecimal digits do not follow.\<close>

definition bad_escape :: "bytes \<Rightarrow> nat \<Rightarrow> bool" where
  "bad_escape t k \<longleftrightarrow> t ! k = 37 \<and> \<not> (k + 2 < length t \<and> VALID_HEX (t ! (k + 1)) \<and> VALID_HEX (t ! (k + 2)))"

lemma url_loop_run:
  "n \<le> length b \<Longrightarrow> \<exists>rc. url_loop b n i = Some rc \<and>
    (rc = 1 \<and> \<not> (\<exists>k<n. i \<le> k \<and> bad_escape (take n b) k) \<or> (rc = -2 \<or> rc = -3) \<and> (\<exists>k<n. i \<le> k \<and> bad_escape (take n b) k))"
proof (induction "n - i" arbitrary: i rule: less_induct)
  case less
  show ?case
  proof (cases "i < n")
    case False
    then show ?thesis by (simp add: url_loop.simps [of b n i])
  next
    case True
    have c: "rd b i = Some (b ! i)" using True less.prems by simp
    show ?thesis
    proof (cases "b ! i = 37")
      case plain: False
      have "\<not> bad_escape (take n b) i" using plain True by (simp add: bad_escape_def)
      then have "(\<exists>k<n. i \<le> k \<and> bad_escape (take n b) k) \<longleftrightarrow> (\<exists>k<n. i + 1 \<le> k \<and> bad_escape (take n b) k)"
        by (metis Suc_eq_plus1 Suc_leD le_antisym not_less_eq_eq)
      moreover have "url_loop b n i = url_loop b n (i + 1)" using True c plain by (subst url_loop.simps) simp
      ultimately show ?thesis using less.hyps [of "i + 1"] less.prems True by simp
    next
      case esc: True
      show ?thesis
      proof (cases "i + 2 < n \<and> VALID_HEX (b ! (i + 1)) \<and> VALID_HEX (b ! (i + 2))")
        case False
        then have "bad_escape (take n b) i" using esc True less.prems by (auto simp: bad_escape_def)
        moreover have "url_loop b n i = Some (-2) \<or> url_loop b n i = Some (-3)"
        proof (cases "n \<le> i + 2")
          case True
          then show ?thesis using \<open>i < n\<close> c esc by (simp add: url_loop.simps [of b n i])
        next
          case short: False
          then have "rd b (i + 1) = Some (b ! (i + 1))" "rd b (i + 2) = Some (b ! (i + 2))" using less.prems by simp_all
          then have "url_loop b n i = Some (-2)"
            using True short c esc False by (subst url_loop.simps) auto
          then show ?thesis by simp
        qed
        ultimately show ?thesis using True by auto
      next
        case hex: True
        have plain: "\<not> bad_escape (take n b) k" if "k \<in> {i, i + 1, i + 2}" for k
          using that hex esc less.prems by (auto simp: bad_escape_def VALID_HEX_def)
        have "(\<exists>k<n. i \<le> k \<and> bad_escape (take n b) k) \<longleftrightarrow> (\<exists>k<n. i + 3 \<le> k \<and> bad_escape (take n b) k)"
        proof -
          have "i + 3 \<le> k" if "i \<le> k" "bad_escape (take n b) k" for k
          proof (rule ccontr)
            assume "\<not> i + 3 \<le> k"
            then have "k \<in> {i, i + 1, i + 2}" using that(1) by auto
            then show False using plain that(2) by blast
          qed
          then show ?thesis by fastforce
        qed
        moreover have "url_loop b n i = url_loop b n (i + 3)"
          using True c esc hex less.prems by (subst url_loop.simps) simp
        moreover have "n - (i + 3) < n - i" using True by linarith
        ultimately show ?thesis using less.hyps [of "i + 3"] less.prems by simp
      qed
    qed
  qed
qed

text \<open>
  C17: \<open>validateUrlEncoding\<close> returns 0 for exactly the values in which two hexadecimal digits, within the value, follow
  every percent sign, and 1 for all others; it reads nothing behind the value and ends.
\<close>

theorem url_encoding_exact:
  assumes "n \<le> length b"
  shows "\<exists>msg. msre_op_validateUrlEncoding_execute name (Some b) n =
    Some (if list_ex (bad_escape (take n b)) [0..<n] then 1 else 0, msg)"
proof -
  have ex: "(\<exists>k<n. 0 \<le> k \<and> bad_escape (take n b) k) \<longleftrightarrow> list_ex (bad_escape (take n b)) [0..<n]"
    by (auto simp: list_ex_iff)
  obtain rc where rc: "url_loop b n 0 = Some rc"
    "rc = 1 \<and> \<not> list_ex (bad_escape (take n b)) [0..<n] \<or> (rc = -2 \<or> rc = -3) \<and> list_ex (bad_escape (take n b)) [0..<n]"
    using url_loop_run [OF assms, of 0] unfolding ex by blast
  then have run: "validate_url_encoding (Some b) (int n) = Some rc" by (simp add: validate_url_encoding_def)
  consider "rc = 1" "\<not> list_ex (bad_escape (take n b)) [0..<n]" | "rc = -2" "list_ex (bad_escape (take n b)) [0..<n]"
    | "rc = -3" "list_ex (bad_escape (take n b)) [0..<n]" using rc(2) by blast
  then show ?thesis
    by cases (simp_all only: msre_op_validateUrlEncoding_execute_def run bind.bind_lunit, simp_all)
qed

subsection \<open>UTF-8\<close>

lemma or_shifted: "r < 2 ^ k \<Longrightarrow> push_bit k a OR r = a * 2 ^ k + (r :: nat)"
proof -
  assume "r < 2 ^ k"
  then have r: "take_bit k r = r" by (simp add: take_bit_nat_eq_self)
  have "push_bit k a AND take_bit k r = 0"
    by (rule bit_eqI) (auto simp: bit_and_iff bit_push_bit_iff bit_take_bit_iff)
  then have "push_bit k a + r = push_bit k a OR r" unfolding r by (rule disjunctive_add_eq_or)
  then show ?thesis by (simp add: push_bit_eq_mult)
qed

definition cont :: "byte \<Rightarrow> bool" where
  "cont c \<longleftrightarrow> 0x80 \<le> c \<and> c \<le> 0xBF"

text \<open>The length of the character at the front of a text by the table of RFC 3629, with 0 for none. Behind \<^verbatim>\<open>0xF4\<close> the
  second byte is at most \<open>cap\<close>, in the table \<^verbatim>\<open>0x8F\<close>: the last character is U+10FFFF.\<close>

definition utf8_char :: "byte \<Rightarrow> bytes \<Rightarrow> nat" where
  "utf8_char cap xs =
     (let c = hd xs; r = tl xs in
      if c < 0x80 then 1
      else if 0xC2 \<le> c \<and> c \<le> 0xDF \<and> 1 \<le> length r \<and> cont (r ! 0) then 2
      else if 0xE0 \<le> c \<and> c \<le> 0xEF \<and> 2 \<le> length r \<and> cont (r ! 0) \<and> cont (r ! 1) \<and>
        (c = 0xE0 \<longrightarrow> 0xA0 \<le> r ! 0) \<and> (c = 0xED \<longrightarrow> r ! 0 \<le> 0x9F) then 3
      else if 0xF0 \<le> c \<and> c \<le> 0xF4 \<and> 3 \<le> length r \<and> cont (r ! 0) \<and> cont (r ! 1) \<and> cont (r ! 2) \<and>
        (c = 0xF0 \<longrightarrow> 0x90 \<le> r ! 0) \<and> (c = 0xF4 \<longrightarrow> r ! 0 \<le> cap) then 4
      else 0)"

function utf8_text :: "byte \<Rightarrow> bytes \<Rightarrow> bool" where
  "utf8_text cap xs \<longleftrightarrow>
     (if xs = [] then True else if utf8_char cap xs = 0 then False else utf8_text cap (drop (utf8_char cap xs) xs))"
  by pat_completeness auto
termination by (relation "measure (\<lambda>(cap, xs). length xs)") auto

declare utf8_text.simps [simp del]

text \<open>Facts about the bits of a byte.\<close>

lemma low_bits: "unat (c AND mask m) = unat c mod 2 ^ m" for c :: byte
  unfolding take_bit_eq_mask [symmetric] unsigned_take_bit_eq by (simp add: take_bit_eq_mod)

lemma high_bits: "m \<le> 8 \<Longrightarrow> unat (c AND push_bit m (mask (8 - m))) = unat c div 2 ^ m * 2 ^ m" for c :: byte
proof -
  assume "m \<le> 8"
  then have eq: "c AND push_bit m (mask (8 - m)) = push_bit m (drop_bit m c)"
    by (intro bit_word_eqI) (auto simp: bit_simps)
  have "unat c div 2 ^ m * 2 ^ m \<le> unat c" by simp
  then have "unat c div 2 ^ m * 2 ^ m < 2 ^ 8" by (rule le_less_trans) (use byte_less [of c] in simp)
  then have "take_bit 8 (unat c div 2 ^ m * 2 ^ m) = unat c div 2 ^ m * 2 ^ m" by (rule take_bit_nat_eq_self)
  then show ?thesis
    unfolding eq by (simp only: unsigned_push_bit_eq unat_drop_bit_eq) (simp add: drop_bit_eq_div push_bit_eq_mult)
qed

lemma byte_eq_nat: "(a :: byte) = b \<longleftrightarrow> unat a = unat b"
  by (simp add: word_unat_eq_iff)

lemma high_masks: "unat (c AND 0x80) = unat c div 128 * 128" "unat (c AND 0xC0) = unat c div 64 * 64"
  "unat (c AND 0xE0) = unat c div 32 * 32" "unat (c AND 0xF0) = unat c div 16 * 16" "unat (c AND 0xF8) = unat c div 8 * 8"
  for c :: byte
  using high_bits [of 7 c] high_bits [of 6 c] high_bits [of 5 c] high_bits [of 4 c] high_bits [of 3 c]
  by (simp_all add: mask_eq_exp_minus_1)

lemma low_masks: "unat (c AND 0x3F) = unat c mod 64" "unat (c AND 0x1F) = unat c mod 32" "unat (c AND 0x0F) = unat c mod 16"
  "unat (c AND 0x07) = unat c mod 8" for c :: byte
  using low_bits [of c 6] low_bits [of c 5] low_bits [of c 4] low_bits [of c 3] by (simp_all add: mask_eq_exp_minus_1)

lemma div_slice: "0 < m \<Longrightarrow> x div m * m = q * m \<longleftrightarrow> q * m \<le> x \<and> x < q * m + m" for x :: nat
proof
  assume m: "0 < m" and eq: "x div m * m = q * m"
  have "x = x div m * m + x mod m" "x mod m < m" using m by simp_all
  then show "q * m \<le> x \<and> x < q * m + m" unfolding eq by linarith
next
  assume m: "0 < m" and "q * m \<le> x \<and> x < q * m + m"
  then have "x div m = q" by (intro div_nat_eqI) (simp_all add: mult.commute)
  then show "x div m * m = q * m" by simp
qed

lemma mod_slice: "q * m \<le> x \<Longrightarrow> x < q * m + m \<Longrightarrow> x mod m = x - q * m" for x :: nat
proof -
  assume "q * m \<le> x" "x < q * m + m"
  then have "x = q * m + (x - q * m)" "x - q * m < m" by linarith+
  then show ?thesis by (metis mod_less mod_mult_self3)
qed

lemma cont_iff: "is_cont c \<longleftrightarrow> cont c"
proof -
  have "unat c div 64 * 64 = 128 \<longleftrightarrow> 128 \<le> unat c \<and> unat c \<le> 191" using div_slice [of 64 "unat c" 2] by auto
  then show ?thesis by (simp add: is_cont_def cont_def byte_eq_nat high_masks word_le_nat_alt)
qed

lemma bits6_cont: "cont c \<Longrightarrow> bits6 c = unat c - 128"
proof -
  assume "cont c"
  then have "128 \<le> unat c \<and> unat c \<le> 191" by (simp add: cont_def word_le_nat_alt)
  then have "unat c mod 64 = unat c - 128" using mod_slice [of 2 64 "unat c"] by simp
  then show ?thesis by (simp add: bits6_def low_masks)
qed

lemma lead_bits:
  fixes c :: byte
  shows "c AND 0x80 = 0 \<longleftrightarrow> unat c < 128"
    "c AND 0xE0 = 0xC0 \<longleftrightarrow> 192 \<le> unat c \<and> unat c \<le> 223"
    "c AND 0xF0 = 0xE0 \<longleftrightarrow> 224 \<le> unat c \<and> unat c \<le> 239"
    "c AND 0xF8 = 0xF0 \<longleftrightarrow> 240 \<le> unat c \<and> unat c \<le> 247"
proof -
  have "unat c div 128 * 128 = 0 \<longleftrightarrow> unat c < 128" "unat c div 32 * 32 = 192 \<longleftrightarrow> 192 \<le> unat c \<and> unat c \<le> 223"
    "unat c div 16 * 16 = 224 \<longleftrightarrow> 224 \<le> unat c \<and> unat c \<le> 239" "unat c div 8 * 8 = 240 \<longleftrightarrow> 240 \<le> unat c \<and> unat c \<le> 247"
    using div_slice [of 128 "unat c" 0] div_slice [of 32 "unat c" 6] div_slice [of 16 "unat c" 14] div_slice [of 8 "unat c" 30]
    by (auto simp del: mult_cancel2 mult_is_0 mult_eq_0_iff)
  then show "c AND 0x80 = 0 \<longleftrightarrow> unat c < 128" "c AND 0xE0 = 0xC0 \<longleftrightarrow> 192 \<le> unat c \<and> unat c \<le> 223"
    "c AND 0xF0 = 0xE0 \<longleftrightarrow> 224 \<le> unat c \<and> unat c \<le> 239" "c AND 0xF8 = 0xF0 \<longleftrightarrow> 240 \<le> unat c \<and> unat c \<le> 247"
    by (simp_all add: byte_eq_nat high_masks)
qed

text \<open>The numbers of the characters, and what the checks say to them.\<close>

lemma bits6_64: "bits6 c < 64"
  using bits6_less [of c] by simp

lemma check2:
  assumes "192 \<le> unat c" "unat c \<le> 223"
  shows "utf8_number_checks 2 (utf8_d2 c c1) = (if 194 \<le> unat c then 2 else UNICODE_ERROR_OVERLONG_CHARACTER)"
proof -
  have lead: "unat (c AND 0x1F) = unat c - 192" unfolding low_masks using assms mod_slice [of 6 32 "unat c"] by simp
  have d: "utf8_d2 c c1 = (unat c - 192) * 64 + bits6 c1"
    using or_shifted [of "bits6 c1" 6 "unat c - 192"] bits6_64 [of c1] by (simp add: utf8_d2_def lead)
  define w r where "w = unat c - 192" and "r = bits6 c1"
  have "w \<le> 31" "r < 64" using assms bits6_64 [of c1] by (simp_all add: w_def r_def)
  then have "w * 64 + r < 2048" "w * 64 + r < 128 \<longleftrightarrow> w < 2" by (simp, cases "w \<le> 1", simp_all)
  then show ?thesis using assms by (auto simp: utf8_number_checks_def d w_def r_def)
qed

lemma check3:
  assumes "224 \<le> unat c" "unat c \<le> 239" "cont c1"
  shows "utf8_number_checks 3 (utf8_d3 c c1 c2) =
    (if unat c = 237 \<and> 160 \<le> unat c1 then UNICODE_ERROR_RESTRICTED_CHARACTER
     else if unat c = 224 \<and> unat c1 < 160 then UNICODE_ERROR_OVERLONG_CHARACTER else 3)"
proof -
  have c1: "128 \<le> unat c1" "unat c1 \<le> 191" using assms(3) by (simp_all add: cont_def word_le_nat_alt)
  have lead: "unat (c AND 0x0F) = unat c - 224" unfolding low_masks using assms mod_slice [of 14 16 "unat c"] by simp
  define w v r where "w = unat c - 224" and "v = unat c1 - 128" and "r = bits6 c2"
  have bounds: "w \<le> 15" "v < 64" "r < 64" using assms c1 bits6_64 [of c2] by (simp_all add: w_def v_def r_def)
  then have in1: "push_bit 6 (bits6 c1) OR r = v * 64 + r"
    using or_shifted [of r 6 v] by (simp add: bits6_cont [OF assms(3)] flip: v_def)
  have small: "v * 64 + r < 4096" using bounds by simp
  have d: "utf8_d3 c c1 c2 = w * 4096 + (v * 64 + r)"
    using or_shifted [of "v * 64 + r" 12 w] small by (simp add: utf8_d3_def lead or.assoc in1 flip: w_def r_def)
  consider "w = 0" "v \<le> 31" | "w = 0" "32 \<le> v" | "1 \<le> w" "w \<le> 12" | "w = 13" "v \<le> 31" | "w = 13" "32 \<le> v" | "14 \<le> w" by linarith
  then have "((0xD800 \<le> w * 4096 + (v * 64 + r) \<and> w * 4096 + (v * 64 + r) \<le> 0xDFFF) \<longleftrightarrow> w = 13 \<and> 32 \<le> v) \<and>
      (w * 4096 + (v * 64 + r) < 0x800 \<longleftrightarrow> w = 0 \<and> v < 32)"
    by cases (use bounds in simp_all)
  moreover have "w = 13 \<longleftrightarrow> unat c = 237" "w = 0 \<longleftrightarrow> unat c = 224" "32 \<le> v \<longleftrightarrow> 160 \<le> unat c1" "v < 32 \<longleftrightarrow> unat c1 < 160"
    using assms c1 by (auto simp: w_def v_def)
  ultimately show ?thesis by (auto simp: utf8_number_checks_def d)
qed

lemma check4:
  assumes "240 \<le> unat c" "unat c \<le> 247" "cont c1"
  shows "utf8_number_checks 4 (utf8_d4 c c1 c2 c3) = (if unat c = 240 \<and> unat c1 < 144 then UNICODE_ERROR_OVERLONG_CHARACTER else 4)"
proof -
  have c1: "128 \<le> unat c1" "unat c1 \<le> 191" using assms(3) by (simp_all add: cont_def word_le_nat_alt)
  have lead: "unat (c AND 0x07) = unat c - 240" unfolding low_masks using assms mod_slice [of 30 8 "unat c"] by simp
  define w v r where "w = unat c - 240" and "v = unat c1 - 128" and "r = (if bits6 c2 < 6 then 1 else 0) OR bits6 c3"
  have "r < 2 ^ 6" unfolding r_def by (rule or_less) (use bits6_64 [of c3] in simp_all)
  then have bounds: "w \<le> 7" "v < 64" "r < 64" using assms c1 by (simp_all add: w_def v_def)
  have in1: "push_bit 12 (bits6 c1) OR r = v * 4096 + r"
    using or_shifted [of r 12 v] bounds by (simp add: bits6_cont [OF assms(3)] flip: v_def)
  have small: "v * 4096 + r < 262144" using bounds by simp
  have d: "utf8_d4 c c1 c2 c3 = w * 262144 + (v * 4096 + r)"
    using or_shifted [of "v * 4096 + r" 18 w] small by (simp add: utf8_d4_def lead or.assoc in1 flip: w_def r_def)
  have "\<not> (0xD800 \<le> w * 262144 + (v * 4096 + r) \<and> w * 262144 + (v * 4096 + r) \<le> 0xDFFF)"
  proof (cases "w = 0")
    case True
    show ?thesis
    proof (cases "v \<le> 13")
      case True
      then have "v * 4096 \<le> 13 * 4096" by simp
      then show ?thesis using \<open>w = 0\<close> bounds(3) by simp
    next
      case False
      then have "14 * 4096 \<le> v * 4096" by simp
      then show ?thesis using \<open>w = 0\<close> by simp
    qed
  next
    case False
    then have "262144 \<le> w * 262144" by simp
    then show ?thesis by simp
  qed
  moreover have "w * 262144 + (v * 4096 + r) < 0x10000 \<longleftrightarrow> w = 0 \<and> v < 16"
  proof (cases "w = 0")
    case True
    then show ?thesis using bounds by (cases "v \<le> 15") simp_all
  next
    case False
    then have "262144 \<le> w * 262144" by simp
    then show ?thesis using False by simp
  qed
  moreover have "w = 0 \<longleftrightarrow> unat c = 240" "v < 16 \<longleftrightarrow> unat c1 < 144" using assms c1 by (auto simp: w_def v_def)
  ultimately show ?thesis by (auto simp: utf8_number_checks_def d)
qed

lemma conts_run: "\<forall>k\<in>set ks. i + k < length b \<Longrightarrow> conts b i ks = Some (list_all (\<lambda>k. cont (b ! (i + k))) ks)"
  by (induction ks) (auto simp: cont_iff)

lemma error_checks: "utf8_number_checks UNICODE_ERROR_CHARACTERS_MISSING 0 = -1"
  "utf8_number_checks UNICODE_ERROR_INVALID_ENCODING 0 = -2"
  by (simp_all add: utf8_number_checks_def UNICODE_ERROR_CHARACTERS_MISSING_def UNICODE_ERROR_INVALID_ENCODING_def)

lemmas unicode_errors = UNICODE_ERROR_CHARACTERS_MISSING_def UNICODE_ERROR_INVALID_ENCODING_def
  UNICODE_ERROR_OVERLONG_CHARACTER_def UNICODE_ERROR_RESTRICTED_CHARACTER_def UNICODE_ERROR_DECODING_ERROR_def

text \<open>The four shapes of a character.\<close>

lemma detect_one: "i < length b \<Longrightarrow> unat (b ! i) < 128 \<Longrightarrow> detect_utf8_character b i n = Some 1"
  by (simp add: detect_utf8_character_def lead_bits)

lemma detect_none:
  "i < length b \<Longrightarrow> 128 \<le> unat (b ! i) \<and> unat (b ! i) \<le> 191 \<or> 245 \<le> unat (b ! i) \<Longrightarrow>
    \<exists>rc. detect_utf8_character b i n = Some rc \<and> rc < 0"
  by (cases "unat (b ! i) \<le> 247") (auto simp: detect_utf8_character_def lead_bits unicode_errors word_le_nat_alt)

lemma detect_two:
  assumes "i + n \<le> length b" "0 < n" "192 \<le> unat (b ! i)" "unat (b ! i) \<le> 223"
  shows "detect_utf8_character b i n = Some (if n < 2 then -1 else if \<not> cont (b ! (i + 1)) then -2
    else if 194 \<le> unat (b ! i) then 2 else -3)"
proof -
  have c: "rd b i = Some (b ! i)" using assms by simp
  have lead: "(b ! i AND 0x80 = 0) = False" "(b ! i AND 0xE0 = 0xC0) = True" using assms by (simp_all add: lead_bits)
  show ?thesis
  proof (cases "n < 2")
    case True
    then show ?thesis by (simp add: detect_utf8_character_def c lead error_checks)
  next
    case False
    have "rd b (i + 1) = Some (b ! (i + 1))" "conts b i [1] = Some (cont (b ! (i + 1)))"
      using False assms(1) conts_run [of "[1]" i b] by simp_all
    then show ?thesis
      using False check2 [OF assms(3,4), of "b ! (i + 1)"]
      by (simp add: detect_utf8_character_def c lead error_checks UNICODE_ERROR_OVERLONG_CHARACTER_def del: conts.simps)
  qed
qed

lemma detect_three:
  assumes "i + n \<le> length b" "0 < n" "224 \<le> unat (b ! i)" "unat (b ! i) \<le> 239"
  shows "detect_utf8_character b i n = Some (if n < 3 then -1 else if \<not> (cont (b ! (i + 1)) \<and> cont (b ! (i + 2))) then -2
    else if unat (b ! i) = 237 \<and> 160 \<le> unat (b ! (i + 1)) then -4
    else if unat (b ! i) = 224 \<and> unat (b ! (i + 1)) < 160 then -3 else 3)"
proof -
  have c: "rd b i = Some (b ! i)" using assms by simp
  have lead: "(b ! i AND 0x80 = 0) = False" "(b ! i AND 0xE0 = 0xC0) = False" "(b ! i AND 0xF0 = 0xE0) = True"
    using assms by (simp_all add: lead_bits)
  show ?thesis
  proof (cases "n < 3")
    case True
    then show ?thesis by (simp add: detect_utf8_character_def c lead error_checks)
  next
    case False
    have rds: "rd b (i + 1) = Some (b ! (i + 1))" "rd b (i + 2) = Some (b ! (i + 2))"
      "conts b i [1, 2] = Some (cont (b ! (i + 1)) \<and> cont (b ! (i + 2)))"
      using False assms(1) conts_run [of "[1, 2]" i b] by simp_all
    show ?thesis
    proof (cases "cont (b ! (i + 1)) \<and> cont (b ! (i + 2))")
      case True
      then show ?thesis
        using False rds check3 [OF assms(3,4), of "b ! (i + 1)" "b ! (i + 2)"]
        by (simp add: detect_utf8_character_def c lead unicode_errors del: conts.simps)
    next
      case bad: False
      then have "conts b i [1, 2] = Some False" using rds(3) by (simp del: conts.simps)
      then show ?thesis using False bad by (auto simp: detect_utf8_character_def c lead error_checks simp del: conts.simps)
    qed
  qed
qed

lemma detect_four:
  assumes "i + n \<le> length b" "0 < n" "240 \<le> unat (b ! i)" "unat (b ! i) \<le> 244"
  shows "detect_utf8_character b i n = Some (if n < 4 then -1
    else if \<not> (cont (b ! (i + 1)) \<and> cont (b ! (i + 2)) \<and> cont (b ! (i + 3))) then -2
    else if unat (b ! i) = 240 \<and> unat (b ! (i + 1)) < 144 then -3 else 4)"
proof -
  have c: "rd b i = Some (b ! i)" using assms by simp
  have lead: "(b ! i AND 0x80 = 0) = False" "(b ! i AND 0xE0 = 0xC0) = False" "(b ! i AND 0xF0 = 0xE0) = False"
    "(b ! i AND 0xF8 = 0xF0) = True" "(b ! i \<ge> 0xF5) = False"
    using assms by (simp_all add: lead_bits word_le_nat_alt)
  show ?thesis
  proof (cases "n < 4")
    case True
    then show ?thesis by (simp add: detect_utf8_character_def c lead error_checks)
  next
    case False
    have rds: "rd b (i + 1) = Some (b ! (i + 1))" "rd b (i + 2) = Some (b ! (i + 2))" "rd b (i + 3) = Some (b ! (i + 3))"
      "conts b i [1, 2, 3] = Some (cont (b ! (i + 1)) \<and> cont (b ! (i + 2)) \<and> cont (b ! (i + 3)))"
      using False assms(1) conts_run [of "[1, 2, 3]" i b] by simp_all
    show ?thesis
    proof (cases "cont (b ! (i + 1)) \<and> cont (b ! (i + 2)) \<and> cont (b ! (i + 3))")
      case True
      then show ?thesis
        using False rds assms(4) check4 [OF assms(3), of "b ! (i + 1)" "b ! (i + 2)" "b ! (i + 3)"]
        by (simp add: detect_utf8_character_def c lead unicode_errors del: conts.simps)
    next
      case bad: False
      then have "conts b i [1, 2, 3] = Some False" using rds(4) by (simp del: conts.simps)
      then show ?thesis using False bad by (auto simp: detect_utf8_character_def c lead error_checks simp del: conts.simps)
    qed
  qed
qed

text \<open>The code's character is that of the table with \<^verbatim>\<open>0xBF\<close> as the last second byte.\<close>

lemma detect_run:
  assumes "i < n" "n \<le> length b"
  shows "\<exists>rc. detect_utf8_character b i (n - i) = Some rc \<and>
    (if utf8_char 0xBF (drop i (take n b)) = 0 then rc < 0 else rc = int (utf8_char 0xBF (drop i (take n b))))"
proof -
  define t where "t = drop (i + 1) (take n b)"
  have xs: "drop i (take n b) = b ! i # t" using assms by (simp add: t_def flip: Cons_nth_drop_Suc)
  have len: "length t = n - i - 1" using assms by (simp add: t_def)
  have nth: "t ! k = b ! (i + 1 + k)" if "i + 1 + k < n" for k using that assms by (simp add: t_def)
  have pre: "i + (n - i) \<le> length b" "0 < n - i" "i < length b" using assms by simp_all
  have cle: "unat x \<le> 191" if "cont x" for x using that by (simp add: cont_def word_le_nat_alt)
  consider "unat (b ! i) < 128" | "128 \<le> unat (b ! i) \<and> unat (b ! i) \<le> 191 \<or> 245 \<le> unat (b ! i)"
    | "192 \<le> unat (b ! i)" "unat (b ! i) \<le> 223" | "224 \<le> unat (b ! i)" "unat (b ! i) \<le> 239"
    | "240 \<le> unat (b ! i)" "unat (b ! i) \<le> 244" by linarith
  then show ?thesis
  proof cases
    case 1
    then show ?thesis using detect_one [OF pre(3)] by (simp add: xs utf8_char_def word_less_nat_alt)
  next
    case 2
    then have "utf8_char 0xBF (drop i (take n b)) = 0"
      by (auto simp: xs utf8_char_def word_le_nat_alt word_less_nat_alt Let_def)
    then show ?thesis using detect_none [OF pre(3) 2] by simp
  next
    case 3
    have "utf8_char 0xBF (drop i (take n b)) = (if 194 \<le> unat (b ! i) \<and> 2 \<le> n - i \<and> cont (b ! (i + 1)) then 2 else 0)"
      using 3 nth [of 0] by (auto simp: xs utf8_char_def word_le_nat_alt word_less_nat_alt Let_def len)
    then show ?thesis using detect_two [OF pre(1,2) 3] by auto
  next
    case 4
    have lead: "b ! i = 0xE0 \<longleftrightarrow> unat (b ! i) = 224" "b ! i = 0xED \<longleftrightarrow> unat (b ! i) = 237" by (simp_all add: byte_eq_nat)
    have "utf8_char 0xBF (drop i (take n b)) = (if 3 \<le> n - i \<and> cont (b ! (i + 1)) \<and> cont (b ! (i + 2)) \<and>
        (unat (b ! i) = 224 \<longrightarrow> 160 \<le> unat (b ! (i + 1))) \<and> (unat (b ! i) = 237 \<longrightarrow> unat (b ! (i + 1)) \<le> 159) then 3 else 0)"
    proof (cases "3 \<le> n - i")
      case True
      then have "t ! 0 = b ! (i + 1)" "t ! 1 = b ! (i + 2)" "2 \<le> length t" using nth [of 0] nth [of 1] len by simp_all
      then show ?thesis using 4 True by (simp add: xs utf8_char_def word_le_nat_alt word_less_nat_alt Let_def lead)
    next
      case False
      then show ?thesis using 4 len by (auto simp: xs utf8_char_def word_le_nat_alt word_less_nat_alt Let_def)
    qed
    then show ?thesis using detect_three [OF pre(1,2) 4] by auto
  next
    case 5
    have lead: "b ! i = 0xF0 \<longleftrightarrow> unat (b ! i) = 240" by (simp add: byte_eq_nat)
    have "utf8_char 0xBF (drop i (take n b)) = (if 4 \<le> n - i \<and> cont (b ! (i + 1)) \<and> cont (b ! (i + 2)) \<and> cont (b ! (i + 3)) \<and>
        (unat (b ! i) = 240 \<longrightarrow> 144 \<le> unat (b ! (i + 1))) then 4 else 0)"
    proof (cases "4 \<le> n - i")
      case True
      then have "t ! 0 = b ! (i + 1)" "t ! 1 = b ! (i + 2)" "t ! 2 = b ! (i + 3)" "3 \<le> length t"
        using nth [of 0] nth [of 1] nth [of 2] len by (simp_all add: numeral_3_eq_3)
      then show ?thesis
        using 5 True cle [of "b ! (i + 1)"] by (auto simp: xs utf8_char_def word_le_nat_alt word_less_nat_alt Let_def lead)
    next
      case False
      then show ?thesis using 5 len by (auto simp: xs utf8_char_def word_le_nat_alt word_less_nat_alt Let_def)
    qed
    then show ?thesis using detect_four [OF pre(1,2) 5] by auto
  qed
qed

lemma utf8_char_length: "xs \<noteq> [] \<Longrightarrow> utf8_char cap xs \<le> length xs"
  by (cases xs) (auto simp: utf8_char_def Let_def)

lemma validate_utf8_run:
  "n \<le> length b \<Longrightarrow> \<exists>msg. validate_utf8_loop name b n i (n - i) = Some (if utf8_text 0xBF (drop i (take n b)) then 0 else 1, msg)"
proof (induction "n - i" arbitrary: i rule: less_induct)
  case less
  let ?xs = "drop i (take n b)"
  show ?case
  proof (cases "i < n")
    case False
    then show ?thesis using less.prems by (simp add: validate_utf8_loop.simps [of name b n i] utf8_text.simps)
  next
    case True
    then have xs: "?xs \<noteq> []" using less.prems by simp
    obtain rc where rc: "detect_utf8_character b i (n - i) = Some rc"
      "if utf8_char 0xBF ?xs = 0 then rc < 0 else rc = int (utf8_char 0xBF ?xs)"
      using detect_run [OF True less.prems] by blast
    show ?thesis
    proof (cases "utf8_char 0xBF ?xs = 0")
      case bad: True
      then have "\<not> utf8_text 0xBF ?xs" using xs by (subst utf8_text.simps) simp
      then show ?thesis using True rc bad by (subst validate_utf8_loop.simps) simp
    next
      case False
      define k where "k = utf8_char 0xBF ?xs"
      have k: "0 < k" "rc = int k" using False rc(2) by (simp_all add: k_def)
      have "utf8_text 0xBF ?xs \<longleftrightarrow> utf8_text 0xBF (drop (i + k) (take n b))"
        using xs k(1) by (subst utf8_text.simps) (simp add: add.commute flip: k_def)
      moreover have "validate_utf8_loop name b n i (n - i) = validate_utf8_loop name b n (i + k) (n - (i + k))"
        using True rc(1) k by (subst validate_utf8_loop.simps) simp
      moreover have "n - (i + k) < n - i" using True k(1) by linarith
      ultimately show ?thesis using less.hyps [of "i + k"] less.prems by simp
    qed
  qed
qed

text \<open>A text that is well-formed by the table is well-formed with the wider bound.\<close>

lemma utf8_char_wider: "utf8_char 0x8F xs \<noteq> 0 \<Longrightarrow> utf8_char 0xBF xs = utf8_char 0x8F xs"
  by (auto simp: utf8_char_def Let_def word_le_nat_alt split: if_splits)

lemma utf8_text_wider: "utf8_text 0x8F xs \<Longrightarrow> utf8_text 0xBF xs"
proof (induction "length xs" arbitrary: xs rule: less_induct)
  case less
  show ?case
  proof (cases "xs = []")
    case False
    then have k: "utf8_char 0x8F xs \<noteq> 0" "utf8_text 0x8F (drop (utf8_char 0x8F xs) xs)"
      using less.prems by (simp_all add: utf8_text.simps [of _ xs] split: if_splits)
    then have "utf8_text 0xBF (drop (utf8_char 0x8F xs) xs)" using less.hyps [OF _ k(2)] False by simp
    then show ?thesis using k(1) utf8_char_wider [OF k(1)] by (subst utf8_text.simps) simp
  qed (simp add: utf8_text.simps)
qed

text \<open>
  C16: \<open>validateUtf8Encoding\<close> accepts (returns 0 for) every value that is well-formed UTF-8 by the table of RFC 3629, and
  what it accepts is exactly the texts of that table with one entry widened: behind \<^verbatim>\<open>0xF4\<close> it takes every continuation
  byte. It reads nothing behind the value, ends, and returns 1 for everything else: missing and stray continuation bytes,
  overlong characters, surrogates and lead bytes from \<^verbatim>\<open>0xF5\<close> on.
\<close>

theorem utf8_validation_exact:
  assumes "n \<le> length v"
  shows "\<exists>msg. msre_op_validateUtf8Encoding_execute name v n = Some (if utf8_text 0xBF (take n v) then 0 else 1, msg) \<and>
    (utf8_text 0x8F (take n v) \<longrightarrow> utf8_text 0xBF (take n v))"
  using validate_utf8_run [OF assms, of name 0] utf8_text_wider [of "take n v"]
  by (simp add: msre_op_validateUtf8Encoding_execute_def)

section \<open>Witnesses\<close>

theorem byte_range_exact_witness:
  "\<exists>table msg. msre_op_validateByteRange_init (Some (ascii ''48-57,97'')) = Some (1, None, Some table) \<and>
    msre_op_validateByteRange_execute (Some table) (ascii ''48-57,97'') (ascii ''ARGS'') (ascii ''1ab9'', 2) = Some (0, msg)"
proof -
  have tokens: "comma_tokens (ascii ''48-57,97'') = [ascii ''48-57'', ascii ''97'']"
    by (simp add: ascii_def comma_tokens.simps Let_def)
  have ranges: "token_range (ascii ''48-57'') = (48, 57)" "token_range (ascii ''97'') = (97, 97)" by code_simp+
  have "list_all range_ok (comma_tokens (ascii ''48-57,97''))" by (simp add: tokens range_ok_def ranges)
  moreover have "2 \<le> length (ascii ''1ab9'')" by (simp add: ascii_def)
  moreover have "list_all (\<lambda>c. list_ex (\<lambda>p. token_covers p (unat c)) (comma_tokens (ascii ''48-57,97''))) (take 2 (ascii ''1ab9''))"
    unfolding tokens by (simp add: token_covers_def ranges) (simp add: ascii_def)
  ultimately show ?thesis
    using byte_range_exact [of "ascii ''48-57,97''" 2 "ascii ''1ab9''" "ascii ''ARGS''"] by simp
qed

theorem utf8_validation_exact_witness:
  "\<exists>msg. msre_op_validateUtf8Encoding_execute (ascii ''ARGS'') [0xC3, 0xA4, 0xFF] 2 = Some (0, msg)"
proof -
  have "utf8_char 0xBF [0xC3, 0xA4] = 2" by (simp add: utf8_char_def cont_def)
  then have "utf8_text 0xBF (take 2 [0xC3, 0xA4, 0xFF])" by (simp add: utf8_text.simps)
  then show ?thesis using utf8_validation_exact [of 2 "[0xC3, 0xA4, 0xFF]" "ascii ''ARGS''"] by auto
qed

text \<open>The first seven bytes, \<^verbatim>\<open>a%41b%4\<close>, end inside an escape.\<close>

theorem url_encoding_exact_witness:
  "\<exists>msg. msre_op_validateUrlEncoding_execute (ascii ''ARGS'') (Some (ascii ''a%41b%4g'')) 7 = Some (1, msg)"
proof -
  have "list_ex (bad_escape (take 7 (ascii ''a%41b%4g''))) [0..<7]" by code_simp
  moreover have "7 \<le> length (ascii ''a%41b%4g'')" by (simp add: ascii_def)
  ultimately show ?thesis using url_encoding_exact [of 7 "ascii ''a%41b%4g''" "ascii ''ARGS''"] by simp
qed

end
